(* ===== verification/Prelude.thy ===== *)
theory Prelude
  imports Main "HOL-Library.Word"
begin

text \<open>
  Shared vocabulary of the development: the machine integer types, Rust's checked and
  saturating operations on \<open>usize\<close> and \<open>u64\<close> (both 64 bits wide on the kernel's only
  target, x86_64), results of fallible operations as sums, and the list operations that the
  kernel's tables use (\<open>iter().position\<close>, update of the first match).
\<close>

unbundle bit_operations_syntax

section \<open>Machine integers\<close>

type_synonym u8 = "8 word"
type_synonym u16 = "16 word"
type_synonym u32 = "32 word"
type_synonym u64 = "64 word"
type_synonym bytes = "8 word list"

text \<open>
  Sizes, indices and addresses (\<open>usize\<close>) are natural numbers; where the code uses a checked
  or saturating operation the bound is written out.
\<close>

definition u64_max :: nat where
  "u64_max = 2 ^ 64 - 1"

definition checked_add64 :: "nat \<Rightarrow> nat \<Rightarrow> nat option" where
  "checked_add64 a b = (if a + b \<le> u64_max then Some (a + b) else None)"

definition checked_mul64 :: "nat \<Rightarrow> nat \<Rightarrow> nat option" where
  "checked_mul64 a b = (if a * b \<le> u64_max then Some (a * b) else None)"

definition saturating_add64 :: "nat \<Rightarrow> nat \<Rightarrow> nat" where
  "saturating_add64 a b = min (a + b) u64_max"

definition saturating_mul64 :: "nat \<Rightarrow> nat \<Rightarrow> nat" where
  "saturating_mul64 a b = min (a * b) u64_max"

lemma checked_add64_SomeD: "checked_add64 a b = Some c \<Longrightarrow> c = a + b \<and> a + b \<le> u64_max"
  by (auto simp: checked_add64_def split: if_splits)

lemma checked_mul64_SomeD: "checked_mul64 a b = Some c \<Longrightarrow> c = a * b \<and> a * b \<le> u64_max"
  by (auto simp: checked_mul64_def split: if_splits)

text \<open>
  \<open>i64\<close> values are integers: \<open>to_i64\<close> is the cast, \<open>arith checks n\<close> the result of an operation whose
  exact value is \<open>n\<close>. With overflow checks (the dev profile) a result out of range is a panic,
  \<open>None\<close>; without them (release) it wraps.
\<close>

definition to_i64 :: "int \<Rightarrow> int" where
  "to_i64 n = sint (word_of_int n :: 64 word)"

definition i64_min :: int where "i64_min = - (2 ^ 63)"
definition i64_max :: int where "i64_max = 2 ^ 63 - 1"

definition arith :: "bool \<Rightarrow> int \<Rightarrow> int option" where
  "arith checks n =
     (if i64_min \<le> n \<and> n \<le> i64_max then Some n else if checks then None else Some (to_i64 n))"

lemma arith_in_range: "i64_min \<le> n \<Longrightarrow> n \<le> i64_max \<Longrightarrow> arith checks n = Some n"
  by (simp add: arith_def)

lemma arith_agree: "arith True n = Some m \<Longrightarrow> arith False n = Some m"
  by (simp add: arith_def split: if_splits)

lemma to_i64_range: "i64_min \<le> to_i64 n" "to_i64 n \<le> i64_max"
  using sint_greater_eq [of "word_of_int n :: 64 word"] sint_less [of "word_of_int n :: 64 word"]
  by (simp_all add: to_i64_def i64_min_def i64_max_def)

section \<open>First match in a table\<close>

text \<open>\<open>position P xs\<close> is Rust's \<open>xs.iter().position(P)\<close>.\<close>

primrec position :: "('a \<Rightarrow> bool) \<Rightarrow> 'a list \<Rightarrow> nat option" where
  "position P [] = None"
| "position P (x # xs) = (if P x then Some 0 else map_option Suc (position P xs))"

text \<open>\<open>update_first P f xs\<close> applies \<open>f\<close> to the first match, as a loop with \<open>break\<close> does.\<close>

primrec update_first :: "('a \<Rightarrow> bool) \<Rightarrow> ('a \<Rightarrow> 'a) \<Rightarrow> 'a list \<Rightarrow> 'a list" where
  "update_first P f [] = []"
| "update_first P f (x # xs) = (if P x then f x # xs else x # update_first P f xs)"

text \<open>\<open>Vec::remove(i)\<close>.\<close>

definition remove_at :: "nat \<Rightarrow> 'a list \<Rightarrow> 'a list" where
  "remove_at i xs = take i xs @ drop (Suc i) xs"

lemma position_None: "position P xs = None \<longleftrightarrow> (\<forall>x \<in> set xs. \<not> P x)"
  by (induction xs) auto

lemma position_SomeD:
  "position P xs = Some i \<Longrightarrow> i < length xs \<and> P (xs ! i) \<and> (\<forall>j < i. \<not> P (xs ! j))"
proof (induction xs arbitrary: i)
  case (Cons x xs)
  then show ?case
    by (cases i) (auto split: if_splits simp: less_Suc_eq_0_disj)
qed simp

lemma position_exists: "x \<in> set xs \<Longrightarrow> P x \<Longrightarrow> \<exists>i. position P xs = Some i"
  by (metis not_None_eq position_None)

lemma length_update_first [simp]: "length (update_first P f xs) = length xs"
  by (induction xs) auto

lemma map_update_first:
  "(\<And>x. g (f x) = g x) \<Longrightarrow> map g (update_first P f xs) = map g xs"
  by (induction xs) auto

lemma update_first_idle: "(\<forall>x \<in> set xs. \<not> P x) \<Longrightarrow> update_first P f xs = xs"
  by (induction xs) auto

lemma update_first_nth:
  "i < length xs \<Longrightarrow> update_first P f xs ! i =
    (if P (xs ! i) \<and> (\<forall>j < i. \<not> P (xs ! j)) then f (xs ! i) else xs ! i)"
proof (induction xs arbitrary: i)
  case (Cons x xs)
  then show ?case
    by (cases i) (auto simp: less_Suc_eq_0_disj)
qed simp

lemma set_remove_at: "distinct xs \<Longrightarrow> i < length xs \<Longrightarrow> set (remove_at i xs) = set xs - {xs ! i}"
proof -
  assume d: "distinct xs" and i: "i < length xs"
  have "xs = take i xs @ xs ! i # drop (Suc i) xs"
    using i by (rule id_take_nth_drop)
  moreover from this d have "xs ! i \<notin> set (take i xs) \<union> set (drop (Suc i) xs)"
    by (metis Un_iff distinct.simps(2) distinct_append not_distinct_conv_prefix)
  ultimately show ?thesis
    unfolding remove_at_def by (metis Diff_insert_absorb Un_insert_right list.simps(15) set_append)
qed

text \<open>First match in a list.\<close>

lemma find_map: "find P (map h xs) = map_option h (find (\<lambda>x. P (h x)) xs)"
  by (induction xs) auto

lemma find_append: "find P (xs @ ys) = (case find P xs of None \<Rightarrow> find P ys | Some x \<Rightarrow> Some x)"
  by (induction xs) auto

lemma find_SomeD: "find P xs = Some x \<Longrightarrow> x \<in> set xs \<and> P x"
  by (induction xs) (auto split: if_splits)

section \<open>Masks\<close>

lemma and_not_mask: "(w :: 'a :: len word) AND NOT (mask k) = push_bit k (drop_bit k w)"
  by (rule bit_word_eqI) (auto simp: bit_simps)

lemma unat_and_not_mask: "unat ((w :: 'a :: len word) AND NOT (mask k)) = unat w div 2 ^ k * 2 ^ k"
proof -
  have "unat w div 2 ^ k * 2 ^ k \<le> unat w"
    by (metis div_times_less_eq_dividend)
  then have "unat w div 2 ^ k * 2 ^ k < 2 ^ LENGTH('a)"
    by (rule le_less_trans) (rule unsigned_less)
  then show ?thesis
    unfolding and_not_mask unsigned_push_bit_eq unsigned_drop_bit_eq
    by (simp add: take_bit_nat_eq_self drop_bit_eq_div push_bit_eq_mult take_bit_nat_def)
qed

text \<open>A tag above bit \<open>k\<close> and a payload below it can be read back separately.\<close>

lemma tagged_high: "(push_bit k x OR (w AND mask k)) AND NOT (mask k) = push_bit k x"
  for x :: "'a :: len word"
  by (rule bit_word_eqI) (auto simp: bit_simps)

lemma tagged_low: "(push_bit k x OR (w AND mask k)) AND mask k = w AND mask k"
  for x :: "'a :: len word"
  by (rule bit_word_eqI) (auto simp: bit_simps)

lemma unat_of_nat_and_mask:
  "n < 2 ^ k \<Longrightarrow> n < 2 ^ LENGTH('a) \<Longrightarrow> unat ((word_of_nat n :: 'a :: len word) AND mask k) = n"
  unfolding take_bit_eq_mask[symmetric]
  by (simp add: unsigned_take_bit_eq unsigned_of_nat take_bit_nat_eq_self)

section \<open>Bytes and text\<close>

text \<open>The bytes of an ASCII literal, and Rust's decimal \<open>Display\<close> of an unsigned integer.\<close>

definition bytes_of :: "string \<Rightarrow> bytes" where
  "bytes_of s = map of_char s"

fun decimal :: "nat \<Rightarrow> string" where
  "decimal n = (if n < 10 then [char_of (48 + n)] else decimal (n div 10) @ [char_of (48 + n mod 10)])"

declare decimal.simps [simp del]

abbreviation code :: "char \<Rightarrow> nat" where "code c \<equiv> of_char c"

text \<open>\<open>core::str::from_utf8\<close>: which sequences of bytes are UTF-8.\<close>

abbreviation continuation :: "char \<Rightarrow> bool" where
  "continuation c \<equiv> 0x80 \<le> code c \<and> code c \<le> 0xBF"

fun utf8_ok :: "string \<Rightarrow> bool" where
  "utf8_ok [] = True"
| "utf8_ok (a # s) =
     (if code a < 0x80 then utf8_ok s
      else if 0xC2 \<le> code a \<and> code a \<le> 0xDF then
        (case s of b # t \<Rightarrow> continuation b \<and> utf8_ok t | _ \<Rightarrow> False)
      else if 0xE0 \<le> code a \<and> code a \<le> 0xEF then
        (case s of b # c # t \<Rightarrow>
           continuation b \<and> continuation c \<and> (code a = 0xE0 \<longrightarrow> 0xA0 \<le> code b) \<and>
           (code a = 0xED \<longrightarrow> code b \<le> 0x9F) \<and> utf8_ok t
         | _ \<Rightarrow> False)
      else if 0xF0 \<le> code a \<and> code a \<le> 0xF4 then
        (case s of b # c # d # t \<Rightarrow>
           continuation b \<and> continuation c \<and> continuation d \<and> (code a = 0xF0 \<longrightarrow> 0x90 \<le> code b) \<and>
           (code a = 0xF4 \<longrightarrow> code b \<le> 0x8F) \<and> utf8_ok t
         | _ \<Rightarrow> False)
      else False)"

text \<open>\<open>from_le_bytes\<close> and \<open>from_be_bytes\<close>, as numbers; \<open>le_bytes k n\<close> is the inverse of the first.\<close>

primrec le_nat :: "bytes \<Rightarrow> nat" where
  "le_nat [] = 0"
| "le_nat (b # bs) = unat b + 256 * le_nat bs"

definition be_nat :: "bytes \<Rightarrow> nat" where
  "be_nat bs = le_nat (rev bs)"

primrec le_bytes :: "nat \<Rightarrow> nat \<Rightarrow> bytes" where
  "le_bytes 0 n = []"
| "le_bytes (Suc k) n = of_nat (n mod 256) # le_bytes k (n div 256)"

lemma length_le_bytes [simp]: "length (le_bytes k n) = k"
  by (induction k arbitrary: n) simp_all

lemma le_nat_bytes: "n < 256 ^ k \<Longrightarrow> le_nat (le_bytes k n) = n"
proof (induction k arbitrary: n)
  case (Suc k)
  then have "n div 256 < 256 ^ k" by (simp add: less_mult_imp_div_less mult.commute)
  moreover have "unat (of_nat (n mod 256) :: u8) = n mod 256" by (simp add: unat_of_nat)
  ultimately show ?case using Suc.IH by simp
qed simp

lemma le_nat_bound: "le_nat bs < 256 ^ length bs"
proof (induction bs)
  case (Cons b bs)
  have "unat b < 256" using unsigned_less [of b] by simp
  then show ?case using Cons by simp
qed simp

lemma le_bytes_nat: "le_bytes (length bs) (le_nat bs) = bs"
proof (induction bs)
  case (Cons b bs)
  have "unat b < 256" using unsigned_less [of b] by simp
  then show ?case using Cons by simp
qed simp

section \<open>Decimal numbers\<close>

definition is_digit :: "char \<Rightarrow> bool" where
  "is_digit c \<longleftrightarrow> 48 \<le> code c \<and> code c \<le> 57"

definition digits_value :: "string \<Rightarrow> int" where
  "digits_value ds = foldl (\<lambda>a c. a * 10 + (int (code c) - 48)) 0 ds"

lemma is_digit_char [simp]: "(n :: nat) < 10 \<Longrightarrow> is_digit (char_of (48 + n))"
  by (simp add: is_digit_def)

lemma decimal_digits: "list_all is_digit (decimal n)"
  by (induction n rule: decimal.induct) (subst decimal.simps, auto)

lemma decimal_nonempty [simp]: "decimal n \<noteq> []"
  by (subst decimal.simps) auto

lemma digits_value_snoc: "digits_value (ds @ [c]) = digits_value ds * 10 + (int (code c) - 48)"
  by (simp add: digits_value_def)

lemma digits_value_decimal: "digits_value (decimal n) = int n"
proof (induction n rule: decimal.induct)
  case (1 n)
  have d: "int (code (char_of (48 + k))) - 48 = int k" if "k < 10" for k :: nat using that by simp
  show ?case
  proof (cases "n < 10")
    case True
    then show ?thesis by (subst decimal.simps) (simp add: digits_value_def)
  next
    case False
    have "int n = 10 * int (n div 10) + int (n mod 10)"
      by (metis div_mult_mod_eq mult.commute of_nat_add of_nat_mult of_nat_numeral)
    then show ?thesis
      using 1 False d [of "n mod 10"] by (subst decimal.simps) (simp add: digits_value_snoc)
  qed
qed

end
