(* ===== verification/Pmm.thy ===== *)
theory Pmm
  imports Prelude
begin

text \<open>
  The physical memory manager (\<open>kernel/src/memory/pmm.rs\<close>): a bitmap with one bit per
  4 KiB frame (0 = free), two frame counters and a next-fit hint. The Rust functions take both
  spin locks with interrupts off, so each of them is one atomic step of the model. The length of
  the bitmap array is the Rust constant \<open>BITMAP_SIZE\<close>; the definitions read it off the array
  (\<open>max_frames\<close>), and \<open>pmm_boot\<close> is the source's instance. Console output is left out.
\<close>

section \<open>Constants and state\<close>

definition FRAME_SIZE :: nat where "FRAME_SIZE = 4096"
definition MAX_FRAMES :: nat where "MAX_FRAMES = 16 * 1024 * 1024"
definition BITMAP_SIZE :: nat where "BITMAP_SIZE = MAX_FRAMES div 8"
definition RESERVED_LOW_MEM :: nat where "RESERVED_LOW_MEM = 0x100000"

record pmm =
  bitmap :: "u8 list"
  free_frames :: nat
  total_frames :: nat
  next_hint :: nat

definition pmm_boot :: pmm where
  "pmm_boot = \<lparr>bitmap = replicate BITMAP_SIZE 0xFF, free_frames = 0, total_frames = 0,
     next_hint = 0\<rparr>"

abbreviation max_frames :: "u8 list \<Rightarrow> nat" where
  "max_frames bm \<equiv> 8 * length bm"

text \<open>An entry of the bootloader's memory map (the fields the code reads).\<close>

record memmap_entry =
  base :: nat
  mm_length :: nat
  type_of :: nat

section \<open>Bit operations on the map\<close>

definition set_frame_used :: "u8 list \<Rightarrow> nat \<Rightarrow> u8 list" where
  "set_frame_used bm i = bm[i div 8 := (bm ! (i div 8)) OR push_bit (i mod 8) 1]"

definition set_frame_free :: "u8 list \<Rightarrow> nat \<Rightarrow> u8 list" where
  "set_frame_free bm i = bm[i div 8 := (bm ! (i div 8)) AND NOT (push_bit (i mod 8) 1)]"

definition is_frame_free :: "u8 list \<Rightarrow> nat \<Rightarrow> bool" where
  "is_frame_free bm i \<longleftrightarrow> (bm ! (i div 8)) AND push_bit (i mod 8) 1 = 0"

text \<open>The set of free frames, the abstract state of the allocator.\<close>

definition free_set :: "u8 list \<Rightarrow> nat set" where
  "free_set bm = {i. i < max_frames bm \<and> is_frame_free bm i}"

section \<open>Initialisation from the memory map\<close>

text \<open>
  \<open>usable\<close> is the type code \<open>MEMMAP_USABLE\<close> of the bootloader protocol, which the limine crate
  defines.
\<close>

definition init_frame :: "nat \<Rightarrow> nat \<Rightarrow> pmm \<Rightarrow> pmm" where
  "init_frame start i s =
     (if start + i < max_frames (bitmap s)
      then s\<lparr>bitmap := set_frame_free (bitmap s) (start + i),
             free_frames := free_frames s + 1, total_frames := total_frames s + 1\<rparr>
      else s)"

definition init_entry :: "nat \<Rightarrow> memmap_entry \<Rightarrow> pmm \<Rightarrow> pmm" where
  "init_entry usable e s =
     (if type_of e \<noteq> usable then s
      else
        let entry_end = saturating_add64 (base e) (mm_length e);
            lo = max (base e) RESERVED_LOW_MEM
        in if entry_end \<le> lo then s
           else fold (init_frame (lo div FRAME_SIZE)) [0..<(entry_end - lo) div FRAME_SIZE] s)"

definition pmm_init :: "nat \<Rightarrow> memmap_entry list \<Rightarrow> pmm \<Rightarrow> pmm" where
  "pmm_init usable memory_map s =
     (let s0 = s\<lparr>bitmap := map (\<lambda>_. 0xFF) (bitmap s), free_frames := 0, total_frames := 0\<rparr>;
          s1 = fold (init_entry usable) memory_map s0
      in s1\<lparr>next_hint := RESERVED_LOW_MEM div FRAME_SIZE\<rparr>)"

section \<open>Single frames\<close>

definition alloc_frame :: "pmm \<Rightarrow> nat option \<times> pmm" where
  "alloc_frame s =
     (if free_frames s = 0 then (None, s)
      else
        let bm = bitmap s; m = max_frames bm; start = next_hint s
        in case find (\<lambda>off. is_frame_free bm ((start + off) mod m)) [0..<m] of
             None \<Rightarrow> (None, s)
           | Some off \<Rightarrow>
               let i = (start + off) mod m
               in (Some (i * FRAME_SIZE),
                   s\<lparr>bitmap := set_frame_used bm i, free_frames := free_frames s - 1,
                     next_hint := i + 1\<rparr>))"

definition free_frame :: "nat \<Rightarrow> pmm \<Rightarrow> pmm" where
  "free_frame addr s =
     (if addr mod FRAME_SIZE \<noteq> 0 then s
      else
        let i = addr div FRAME_SIZE
        in if max_frames (bitmap s) \<le> i then s
           else if \<not> is_frame_free (bitmap s) i
             then s\<lparr>bitmap := set_frame_free (bitmap s) i, free_frames := free_frames s + 1\<rparr>
           else s)"

text \<open>
  \<open>alloc_frame_zeroed\<close> writes 512 zero words through the direct map at \<open>hhdm + phys\<close>; memory is
  a function from the address of an 8-byte word to its value.
\<close>

definition alloc_frame_zeroed ::
  "nat \<Rightarrow> pmm \<Rightarrow> (nat \<Rightarrow> u64) \<Rightarrow> nat option \<times> pmm \<times> (nat \<Rightarrow> u64)" where
  "alloc_frame_zeroed hhdm s mem =
     (case alloc_frame s of
        (None, s') \<Rightarrow> (None, s', mem)
      | (Some phys, s') \<Rightarrow>
          (Some (hhdm + phys), s',
           fold (\<lambda>i m. m(hhdm + phys + 8 * i := 0)) [0..<FRAME_SIZE div 8] mem))"

section \<open>Runs of frames\<close>

definition free_contiguous :: "nat \<Rightarrow> nat \<Rightarrow> pmm \<Rightarrow> bool \<times> pmm" where
  "free_contiguous addr count s =
     (if count = 0 \<or> addr mod FRAME_SIZE \<noteq> 0 then (False, s)
      else
        let start = addr div FRAME_SIZE
        in case checked_add64 start count of
             None \<Rightarrow> (False, s)
           | Some stop \<Rightarrow>
               if \<not> stop \<le> max_frames (bitmap s) then (False, s)
               else if \<exists>f \<in> set [start..<stop]. is_frame_free (bitmap s) f then (False, s)
               else (True,
                 s\<lparr>bitmap := fold (\<lambda>f bm. set_frame_free bm f) [start..<stop] (bitmap s),
                   free_frames := free_frames s + count,
                   next_hint := min (next_hint s) start\<rparr>))"

text \<open>The two inner loops of \<open>alloc_contiguous\<close>.\<close>

function scan_free :: "u8 list \<Rightarrow> nat \<Rightarrow> nat" where
  "scan_free bm start =
     (if start < max_frames bm \<and> \<not> is_frame_free bm start then scan_free bm (start + 1) else start)"
  by pat_completeness auto
termination
  by (relation "measure (\<lambda>(bm, start). max_frames bm - start)") auto

function run_end :: "u8 list \<Rightarrow> nat \<Rightarrow> nat \<Rightarrow> nat \<Rightarrow> nat" where
  "run_end bm start count stop =
     (if stop < max_frames bm \<and> stop - start < count \<and> is_frame_free bm stop
      then run_end bm start count (stop + 1) else stop)"
  by pat_completeness auto
termination
  by (relation "measure (\<lambda>(bm, start, count, stop). max_frames bm - stop)") auto

declare scan_free.simps [simp del]
declare run_end.simps [simp del]

text \<open>
  The outer loop. When the scan reaches the end of the map the code restarts at frame 0 with
  \<open>continue\<close> and without counting the pass, so nothing in the loop itself bounds it: \<open>None\<close> is a
  call that never returns.
\<close>

partial_function (option) contig_loop ::
  "u8 list \<Rightarrow> nat \<Rightarrow> nat \<Rightarrow> nat \<Rightarrow> nat option option" where
  "contig_loop bm count checked start =
     (if checked < max_frames bm * 2
      then
        if max_frames bm \<le> scan_free bm start then contig_loop bm count checked 0
        else if count \<le> run_end bm (scan_free bm start) count (scan_free bm start)
            - scan_free bm start
          then Some (Some (scan_free bm start))
        else contig_loop bm count (checked + 1)
          (if max_frames bm \<le> run_end bm (scan_free bm start) count (scan_free bm start)
           then 0 else run_end bm (scan_free bm start) count (scan_free bm start))
      else Some None)"

definition alloc_contiguous :: "nat \<Rightarrow> pmm \<Rightarrow> (nat option \<times> pmm) option" where
  "alloc_contiguous count s =
     (if count = 0 then Some (None, s)
      else if free_frames s < count then Some (None, s)
      else
        case contig_loop (bitmap s) count 0 (next_hint s) of
          None \<Rightarrow> None
        | Some None \<Rightarrow> Some (None, s)
        | Some (Some start) \<Rightarrow>
            Some (Some (start * FRAME_SIZE),
              s\<lparr>bitmap := fold (\<lambda>f bm. set_frame_used bm f) [start..<start + count] (bitmap s),
                free_frames := free_frames s - count, next_hint := start + count\<rparr>))"

text \<open>\<open>stats\<close>: (used, total); the subtraction underflows (\<open>None\<close>) if more frames are free than counted.\<close>

definition pmm_stats :: "pmm \<Rightarrow> (nat \<times> nat) option" where
  "pmm_stats s = (if free_frames s \<le> total_frames s
     then Some (total_frames s - free_frames s, total_frames s) else None)"

section \<open>Invariant\<close>

text \<open>
  \<open>U\<close> is the set of frames the memory map made available. The counters count the free frames and
  \<open>U\<close>, and no frame outside \<open>U\<close> is free.
\<close>

definition pmm_inv :: "nat set \<Rightarrow> pmm \<Rightarrow> bool" where
  "pmm_inv U s \<longleftrightarrow> free_set (bitmap s) \<subseteq> U \<and> U \<subseteq> {..<max_frames (bitmap s)} \<and>
     free_frames s = card (free_set (bitmap s)) \<and> total_frames s = card U \<and>
     max_frames (bitmap s) \<le> MAX_FRAMES"

definition frame_range :: "nat \<Rightarrow> nat \<Rightarrow> nat set" where
  "frame_range start count = {start..<start + count}"

text \<open>The frames one entry of the memory map makes free.\<close>

definition entry_frames :: "nat \<Rightarrow> memmap_entry \<Rightarrow> nat set" where
  "entry_frames usable e =
     (let lo = max (base e) RESERVED_LOW_MEM;
          entry_end = saturating_add64 (base e) (mm_length e)
      in if type_of e \<noteq> usable \<or> entry_end \<le> lo then {}
         else frame_range (lo div FRAME_SIZE) ((entry_end - lo) div FRAME_SIZE))"

section \<open>Lemmas on the bitmap\<close>

lemma is_frame_free_bit: "is_frame_free bm i \<longleftrightarrow> \<not> bit (bm ! (i div 8)) (i mod 8)"
  by (simp add: is_frame_free_def push_bit_eq_mult and_exp_eq_0_iff_not_bit)

lemma length_set_frame [simp]:
  "length (set_frame_used bm i) = length bm" "length (set_frame_free bm i) = length bm"
  by (simp_all add: set_frame_used_def set_frame_free_def)

lemma frame_index_inj: "(i :: nat) div 8 = j div 8 \<Longrightarrow> i mod 8 = j mod 8 \<Longrightarrow> i = j"
  by (metis div_mult_mod_eq)

lemma is_free_set_used:
  assumes "i < max_frames bm"
  shows "is_frame_free (set_frame_used bm i) j \<longleftrightarrow> is_frame_free bm j \<and> j \<noteq> i"
proof (cases "j div 8 = i div 8")
  case True
  have "i div 8 < length bm" using assms by auto
  moreover have "(i mod 8 = j mod 8) = (i = j)" using True frame_index_inj by metis
  ultimately show ?thesis
    using True by (auto simp: is_frame_free_bit set_frame_used_def bit_simps)
next
  case False
  then show ?thesis by (auto simp: is_frame_free_bit set_frame_used_def)
qed

lemma is_free_set_free:
  assumes "i < max_frames bm"
  shows "is_frame_free (set_frame_free bm i) j \<longleftrightarrow> is_frame_free bm j \<or> j = i"
proof (cases "j div 8 = i div 8")
  case True
  have "i div 8 < length bm" using assms by auto
  moreover have "(i mod 8 = j mod 8) = (i = j)" using True frame_index_inj by metis
  ultimately show ?thesis
    using True by (auto simp: is_frame_free_bit set_frame_free_def bit_simps)
next
  case False
  then show ?thesis by (auto simp: is_frame_free_bit set_frame_free_def)
qed

lemma finite_free_set [simp]: "finite (free_set bm)"
  by (simp add: free_set_def)

lemma free_set_used: "i < max_frames bm \<Longrightarrow> free_set (set_frame_used bm i) = free_set bm - {i}"
  by (auto simp: free_set_def is_free_set_used)

lemma free_set_free: "i < max_frames bm \<Longrightarrow> free_set (set_frame_free bm i) = insert i (free_set bm)"
  by (auto simp: free_set_def is_free_set_free)

lemma free_set_fold_used:
  "\<forall>i \<in> set is. i < max_frames bm \<Longrightarrow>
    free_set (fold (\<lambda>f bm. set_frame_used bm f) is bm) = free_set bm - set is"
  by (induction "is" arbitrary: bm) (auto simp: free_set_used)

lemma free_set_fold_free:
  "\<forall>i \<in> set is. i < max_frames bm \<Longrightarrow>
    free_set (fold (\<lambda>f bm. set_frame_free bm f) is bm) = free_set bm \<union> set is"
  by (induction "is" arbitrary: bm) (auto simp: free_set_free)

lemma length_fold_set_frame [simp]:
  "length (fold (\<lambda>f bm. set_frame_used bm f) is bm) = length bm"
  "length (fold (\<lambda>f bm. set_frame_free bm f) is bm) = length bm"
  by (induction "is" arbitrary: bm) auto

lemma free_set_bound: "i \<in> free_set bm \<Longrightarrow> i < max_frames bm"
  by (simp add: free_set_def)

lemma free_set_iff: "i \<in> free_set bm \<longleftrightarrow> i < max_frames bm \<and> is_frame_free bm i"
  by (simp add: free_set_def)

lemma finite_frame_range [simp]: "finite (frame_range a n)"
  by (simp add: frame_range_def)

lemma card_frame_range [simp]: "card (frame_range a n) = n"
  by (simp add: frame_range_def)

lemma set_upt_frame_range: "set [a..<a + n] = frame_range a n"
  by (simp add: frame_range_def)

lemma pmm_inv_finite: "pmm_inv U s \<Longrightarrow> finite U"
  by (auto simp: pmm_inv_def intro: finite_subset)

lemma FRAME_SIZE_pos [simp]: "0 < FRAME_SIZE" "FRAME_SIZE \<noteq> 0"
  by (simp_all add: FRAME_SIZE_def)

text \<open>Removing frames from the pool, and returning them, keep the invariant.\<close>

lemma pmm_inv_remove:
  assumes "pmm_inv U s" "F \<subseteq> free_set (bitmap s)" "free_set (bitmap t) = free_set (bitmap s) - F"
    "length (bitmap t) = length (bitmap s)" "free_frames t = free_frames s - card F"
    "total_frames t = total_frames s"
  shows "pmm_inv U t"
  using assms by (auto simp: pmm_inv_def card_Diff_subset finite_subset)

lemma pmm_inv_return:
  assumes "pmm_inv U s" "F \<inter> free_set (bitmap s) = {}" "F \<subseteq> U"
    "free_set (bitmap t) = free_set (bitmap s) \<union> F"
    "length (bitmap t) = length (bitmap s)" "free_frames t = free_frames s + card F"
    "total_frames t = total_frames s"
  shows "pmm_inv U t"
proof -
  have "finite F" using assms(1,3) pmm_inv_finite finite_subset by blast
  then show ?thesis
    using assms by (auto simp: pmm_inv_def card_Un_disjoint Int_commute)
qed

section \<open>Single frames\<close>

lemma rotate_surj:
  assumes "i < m" obtains off where "off < m" "(start + off) mod m = (i :: nat)"
proof
  show "(i + m - start mod m) mod m < m" using assms by simp
  have "(start + (i + m - start mod m) mod m) mod m = (start mod m + (i + m - start mod m)) mod m"
    by (simp add: mod_simps)
  also have "start mod m + (i + m - start mod m) = i + m"
    using assms by (simp add: less_imp_le le_add2 trans_le_add2)
  finally show "(start + (i + m - start mod m) mod m) mod m = i" using assms by simp
qed

lemma alloc_frame_cases:
  assumes "pmm_inv U s"
  obtains (empty) "free_set (bitmap s) = {}" "alloc_frame s = (None, s)"
  | (frame) i where "i \<in> free_set (bitmap s)"
      "alloc_frame s = (Some (i * FRAME_SIZE), s\<lparr>bitmap := set_frame_used (bitmap s) i,
         free_frames := free_frames s - 1, next_hint := i + 1\<rparr>)"
proof (cases "free_set (bitmap s) = {}")
  case True
  then have "free_frames s = 0" using assms by (simp add: pmm_inv_def)
  then show ?thesis using True empty by (simp add: alloc_frame_def)
next
  case False
  let ?m = "max_frames (bitmap s)"
  let ?P = "\<lambda>off. is_frame_free (bitmap s) ((next_hint s + off) mod ?m)"
  have nz: "free_frames s \<noteq> 0" using assms False by (simp add: pmm_inv_def)
  from False obtain i where i: "i < ?m" "is_frame_free (bitmap s) i" by (auto simp: free_set_def)
  then obtain off where "off < ?m" "?P off" by (metis rotate_surj)
  then obtain off' where f: "find ?P [0..<?m] = Some off'"
    by (cases "find ?P [0..<?m]") (auto simp: find_None_iff)
  then have "?P off'" and "?m > 0" by (auto simp: find_Some_iff i)
  then show ?thesis
    using frame [of "(next_hint s + off') mod ?m"] nz f by (simp add: alloc_frame_def free_set_def Let_def)
qed

lemma alloc_frame_inv: "pmm_inv U s \<Longrightarrow> pmm_inv U (snd (alloc_frame s))"
proof -
  assume inv: "pmm_inv U s"
  then show ?thesis
  proof (cases rule: alloc_frame_cases)
    case (frame i)
    then show ?thesis
      by (intro pmm_inv_remove [OF inv, of "{i}"]) (simp_all add: free_set_used free_set_bound)
  qed (simp add: inv)
qed

lemma free_frame_cases:
  obtains (idle) "free_frame addr s = s"
  | (freed) i where "addr = i * FRAME_SIZE" "i < max_frames (bitmap s)"
      "i \<notin> free_set (bitmap s)"
      "free_frame addr s = s\<lparr>bitmap := set_frame_free (bitmap s) i,
         free_frames := free_frames s + 1\<rparr>"
proof (cases "addr mod FRAME_SIZE = 0 \<and> addr div FRAME_SIZE < max_frames (bitmap s) \<and>
    \<not> is_frame_free (bitmap s) (addr div FRAME_SIZE)")
  case True
  then have "addr = addr div FRAME_SIZE * FRAME_SIZE" by auto
  with True show ?thesis
    by (intro freed [of "addr div FRAME_SIZE"]) (auto simp: free_frame_def free_set_def)
next
  case False
  then show ?thesis by (intro idle) (auto simp: free_frame_def Let_def)
qed

lemma free_frame_inv:
  assumes "pmm_inv U s" "addr div FRAME_SIZE \<in> U"
  shows "pmm_inv U (free_frame addr s)"
proof (cases rule: free_frame_cases [of addr s])
  case (freed i)
  with assms show ?thesis
    by (auto intro!: pmm_inv_return [where F = "{i}" and s = s] simp: free_set_free)
qed (use assms in simp)

section \<open>Scanning for a run\<close>

lemma scan_free_spec:
  "start \<le> scan_free bm start \<and>
   (\<forall>j. start \<le> j \<and> j < scan_free bm start \<longrightarrow> \<not> is_frame_free bm j) \<and>
   (scan_free bm start < max_frames bm \<longrightarrow> is_frame_free bm (scan_free bm start))"
proof (induction bm start rule: scan_free.induct)
  case (1 bm start)
  show ?case
  proof (cases "start < max_frames bm \<and> \<not> is_frame_free bm start")
    case True
    then have step: "scan_free bm start = scan_free bm (start + 1)"
      by (simp add: scan_free.simps [of bm start])
    from "1.IH" [OF True] True show ?thesis
      unfolding step by (metis Suc_eq_plus1 Suc_leD le_neq_implies_less Suc_leI)
  next
    case False
    have "scan_free bm start = start"
      by (subst scan_free.simps) (simp only: False if_False)
    with False show ?thesis by auto
  qed
qed

lemmas scan_free_props = scan_free_spec [THEN conjunct1]
  scan_free_spec [THEN conjunct2, THEN conjunct1]
  scan_free_spec [THEN conjunct2, THEN conjunct2, rule_format]

lemma scan_free_reach:
  assumes "start \<le> f" "f \<in> free_set bm" shows "scan_free bm start \<le> f"
  using scan_free_props(2) [of start bm] assms by (meson free_set_iff not_le)

lemma run_end_props:
  assumes "start \<le> stop" "stop - start \<le> count" "\<forall>j. start \<le> j \<and> j < stop \<longrightarrow> is_frame_free bm j"
    "stop \<le> max_frames bm"
  shows "stop \<le> run_end bm start count stop \<and> run_end bm start count stop - start \<le> count \<and>
    run_end bm start count stop \<le> max_frames bm \<and>
    (\<forall>j. start \<le> j \<and> j < run_end bm start count stop \<longrightarrow> is_frame_free bm j) \<and>
    (run_end bm start count stop - start < count \<longrightarrow>
      run_end bm start count stop = max_frames bm \<or> \<not> is_frame_free bm (run_end bm start count stop))"
  using assms
proof (induction bm start count stop rule: run_end.induct)
  case (1 bm start count stop)
  show ?case
  proof (cases "stop < max_frames bm \<and> stop - start < count \<and> is_frame_free bm stop")
    case True
    have "\<forall>j. start \<le> j \<and> j < stop + 1 \<longrightarrow> is_frame_free bm j"
      using "1.prems"(3) True by (auto simp: less_Suc_eq)
    moreover have "run_end bm start count stop = run_end bm start count (stop + 1)"
      using True by (simp add: run_end.simps [of bm start count stop])
    moreover have "start \<le> stop + 1" "stop + 1 - start \<le> count" "stop + 1 \<le> max_frames bm"
      using True "1.prems" by auto
    ultimately show ?thesis using "1.IH" [OF True] by simp
  next
    case False
    have "run_end bm start count stop = stop"
      by (subst run_end.simps) (simp only: False if_False)
    with False "1.prems" show ?thesis by auto
  qed
qed

section \<open>The search for a run\<close>

text \<open>What one pass of the outer loop finds, in terms of the set of free frames.\<close>

definition run_free :: "u8 list \<Rightarrow> nat \<Rightarrow> nat \<Rightarrow> bool" where
  "run_free bm start count \<longleftrightarrow> frame_range start count \<subseteq> free_set bm"

lemma run_end_bounds:
  assumes "s < max_frames bm" "0 < count" "is_frame_free bm s"
  shows "s < run_end bm s count s" "run_end bm s count s \<le> max_frames bm"
    "run_end bm s count s - s \<le> count"
    "\<forall>j. s \<le> j \<and> j < run_end bm s count s \<longrightarrow> is_frame_free bm j"
    "run_end bm s count s - s < count \<Longrightarrow>
      run_end bm s count s = max_frames bm \<or> \<not> is_frame_free bm (run_end bm s count s)"
proof -
  have step: "run_end bm s count s = run_end bm s count (s + 1)"
    using assms by (subst run_end.simps) simp
  have pre: "s \<le> s + 1" "s + 1 - s \<le> count" "\<forall>j. s \<le> j \<and> j < s + 1 \<longrightarrow> is_frame_free bm j"
    "s + 1 \<le> max_frames bm"
    using assms by (auto simp: less_Suc_eq)
  note all = run_end_props [OF pre, folded step]
  show "s < run_end bm s count s" "run_end bm s count s \<le> max_frames bm"
    "run_end bm s count s - s \<le> count"
    "\<forall>j. s \<le> j \<and> j < run_end bm s count s \<longrightarrow> is_frame_free bm j"
    "run_end bm s count s - s < count \<Longrightarrow>
      run_end bm s count s = max_frames bm \<or> \<not> is_frame_free bm (run_end bm s count s)"
    using all by auto
qed

lemma run_end_found:
  assumes "s < max_frames bm" "0 < count" "is_frame_free bm s" "count \<le> run_end bm s count s - s"
  shows "run_free bm s count" "s + count \<le> max_frames bm"
proof -
  have "run_end bm s count s = s + count"
    using assms run_end_bounds(1,3) [OF assms(1-3)] by arith
  then show "run_free bm s count" "s + count \<le> max_frames bm"
    using run_end_bounds(2,4) [OF assms(1-3)]
    by (auto simp: run_free_def frame_range_def free_set_def)
qed

text \<open>
  Termination: a pass that wraps is followed by a pass that finds a free frame, and every such
  pass is counted.
\<close>

lemma contig_loop_returns:
  assumes "free_set bm \<noteq> {}" "0 < count"
  shows "\<exists>r. contig_loop bm count checked start = Some r"
proof (induction "max_frames bm * 2 - checked" arbitrary: checked start rule: less_induct)
  case less
  let ?m = "max_frames bm"
  have found: "\<exists>r. contig_loop bm count checked start = Some r" if "scan_free bm start < ?m" for start
  proof (cases "checked < ?m * 2")
    case True
    have "\<exists>r. contig_loop bm count (checked + 1) st = Some r" for st
      using less True by auto
    with that True show ?thesis by (subst contig_loop.simps) simp
  qed (simp add: contig_loop.simps [of bm count checked start])
  obtain f where f: "f \<in> free_set bm" using assms(1) by blast
  then have "scan_free bm 0 < ?m"
    using scan_free_reach [of 0 f bm] by (meson free_set_bound le0 le_less_trans)
  then have zero: "\<exists>r. contig_loop bm count checked 0 = Some r" by (rule found)
  show ?case
  proof (cases "scan_free bm start < ?m")
    case False
    with zero show ?thesis by (subst contig_loop.simps) simp
  qed (rule found)
qed

text \<open>Soundness: whatever the loop returns is a run of free frames inside the map.\<close>

lemma contig_loop_sound:
  assumes "0 < count" "contig_loop bm count checked start = Some (Some s)"
  shows "run_free bm s count \<and> s + count \<le> max_frames bm"
proof -
  have "bm = bm \<and> count = count \<longrightarrow>
      Some s = Some s \<longrightarrow> run_free bm s count \<and> s + count \<le> max_frames bm"
  proof (rule contig_loop.raw_induct [where P = "\<lambda>bm' count' _ _ r. bm' = bm \<and> count' = count \<longrightarrow>
      r = Some s \<longrightarrow> run_free bm s count \<and> s + count \<le> max_frames bm", OF _ assms(2)], intro impI)
    fix f bm' count' checked start r
    assume IH: "\<And>bm' count' checked start r. f bm' count' checked start = Some r \<Longrightarrow>
        bm' = bm \<and> count' = count \<longrightarrow> r = Some s \<longrightarrow> run_free bm s count \<and> s + count \<le> max_frames bm"
      and eq: "(if checked < max_frames bm' * 2
      then
        if max_frames bm' \<le> scan_free bm' start then f bm' count' checked 0
        else if count' \<le> run_end bm' (scan_free bm' start) count' (scan_free bm' start)
            - scan_free bm' start
          then Some (Some (scan_free bm' start))
        else f bm' count' (checked + 1)
          (if max_frames bm' \<le> run_end bm' (scan_free bm' start) count' (scan_free bm' start)
           then 0 else run_end bm' (scan_free bm' start) count' (scan_free bm' start))
      else Some None) = Some r"
      and same: "bm' = bm \<and> count' = count" and rs: "r = Some s"
    show "run_free bm s count \<and> s + count \<le> max_frames bm"
      using eq same rs IH assms(1) run_end_found [of "scan_free bm start" bm count]
        scan_free_props(3) [of bm start]
      by (auto split: if_splits)
  qed
  then show ?thesis by blast
qed

text \<open>
  Completeness: let \<open>r0\<close> be the first frame of a maximal run that is long enough. Before \<open>r0\<close>
  every pass moves the start forward and never past \<open>r0\<close>; after \<open>r0\<close> it moves forward to the
  end of the map and wraps. The bound \<open>max_frames * 2\<close> on the passes is enough for both.
\<close>

definition run_start :: "u8 list \<Rightarrow> nat \<Rightarrow> nat \<Rightarrow> bool" where
  "run_start bm count r0 \<longleftrightarrow> run_free bm r0 count \<and> (r0 = 0 \<or> \<not> is_frame_free bm (r0 - 1))"

lemma run_start_exists:
  assumes "run_free bm s count" "0 < count"
  shows "\<exists>r0. run_start bm count r0"
  using assms(1)
proof (induction s)
  case 0
  then show ?case by (auto simp: run_start_def)
next
  case (Suc s)
  show ?case
  proof (cases "is_frame_free bm s")
    case True
    have "Suc s \<in> free_set bm"
      using Suc.prems assms(2) by (auto simp: run_free_def frame_range_def)
    with True have "s \<in> free_set bm" by (auto simp: free_set_def)
    with Suc.prems have "run_free bm s count"
      by (auto simp: run_free_def frame_range_def subset_iff) (metis Suc_leI le_neq_implies_less less_SucI)
    then show ?thesis by (rule Suc.IH)
  qed (use Suc.prems in \<open>auto simp: run_start_def\<close>)
qed

lemma contig_loop_before:
  assumes "run_start bm count r0" "0 < count"
    and "start \<le> r0" "checked + (r0 - start) < max_frames bm * 2"
  shows "\<exists>s. contig_loop bm count checked start = Some (Some s)"
  using assms(3,4)
proof (induction "r0 - start" arbitrary: start checked rule: less_induct)
  case less
  let ?m = "max_frames bm" and ?t = "scan_free bm start"
  let ?e = "run_end bm ?t count ?t"
  have free: "j \<in> free_set bm" if "r0 \<le> j" "j < r0 + count" for j
    using assms(1) that by (auto simp: run_start_def run_free_def frame_range_def)
  have tr: "?t \<le> r0" "?t < ?m" "start \<le> ?t"
    using scan_free_reach [of start r0 bm] free [of r0] less.prems assms(2) scan_free_props(1)
    by (auto dest: free_set_bound)
  then have tf: "is_frame_free bm ?t" by (simp add: scan_free_props(3))
  note e = run_end_bounds [OF tr(2) assms(2) tf]
  show ?case
  proof (cases "count \<le> ?e - ?t")
    case True
    with tr less.prems show ?thesis by (subst contig_loop.simps) simp
  next
    case False
    then have stop: "?e = ?m \<or> \<not> is_frame_free bm ?e" using e(5) by simp
    have "?e \<le> r0"
    proof (rule ccontr)
      assume a: "\<not> ?e \<le> r0"
      have "?e - ?t < count" using False by simp
      show False
      proof (cases "?t = r0")
        case True
        then have "?e \<in> free_set bm" using a \<open>?e - ?t < count\<close> by (intro free) auto
        with stop show False by (auto simp: free_set_def)
      next
        case False
        with tr a have "?t \<le> r0 - 1" "r0 - 1 < ?e" "r0 \<noteq> 0" by auto
        with e(4) assms(1) show False by (auto simp: run_start_def)
      qed
    qed
    moreover from this have "?e < ?m" using free [of r0] assms(2) by (auto dest: free_set_bound)
    moreover have "\<exists>s. contig_loop bm count (checked + 1) ?e = Some (Some s)"
      using less.prems tr e(1) \<open>?e \<le> r0\<close> by (intro less.hyps) auto
    ultimately show ?thesis using tr less.prems False by (subst contig_loop.simps) simp
  qed
qed

lemma contig_loop_after:
  assumes "run_start bm count r0" "0 < count"
    and "checked + (max_frames bm - start) + r0 < max_frames bm * 2"
  shows "\<exists>s. contig_loop bm count checked start = Some (Some s)"
  using assms(3)
proof (induction "max_frames bm - start" arbitrary: start checked rule: less_induct)
  case less
  let ?m = "max_frames bm" and ?t = "scan_free bm start"
  let ?e = "run_end bm ?t count ?t"
  show ?case
  proof (cases "?m \<le> ?t")
    case True
    have "\<exists>s. contig_loop bm count checked 0 = Some (Some s)"
      using less.prems by (intro contig_loop_before [OF assms(1,2)]) auto
    with True less.prems show ?thesis by (subst contig_loop.simps) simp
  next
    case False
    then have t: "?t < ?m" "start \<le> ?t" "is_frame_free bm ?t"
      using scan_free_props by auto
    note e = run_end_bounds [OF t(1) assms(2) t(3)]
    have "\<exists>s. contig_loop bm count (checked + 1) (if ?m \<le> ?e then 0 else ?e) = Some (Some s)"
    proof (cases "?m \<le> ?e")
      case True
      have "\<exists>s. contig_loop bm count (checked + 1) 0 = Some (Some s)"
        using less.prems t by (intro contig_loop_before [OF assms(1,2)]) auto
      with True show ?thesis by simp
    next
      case False
      have "\<exists>s. contig_loop bm count (checked + 1) ?e = Some (Some s)"
        using less.prems t e(1) False by (intro less.hyps) auto
      with False show ?thesis by simp
    qed
    with False less.prems show ?thesis by (subst contig_loop.simps) simp
  qed
qed

lemma contig_loop_complete:
  assumes "run_free bm s count" "0 < count"
  shows "\<exists>s. contig_loop bm count 0 start = Some (Some s)"
proof -
  obtain r0 where r0: "run_start bm count r0" using run_start_exists [OF assms] ..
  then have "r0 \<in> free_set bm" using assms(2) by (auto simp: run_start_def run_free_def frame_range_def)
  then have "r0 < max_frames bm" by (rule free_set_bound)
  with r0 assms(2) show ?thesis by (intro contig_loop_after) auto
qed

section \<open>Allocating and freeing runs\<close>

lemma run_free_bound:
  assumes "run_free bm a n" "0 < n" shows "a + n \<le> max_frames bm"
proof -
  have "a + n - 1 \<in> free_set bm" using assms by (auto simp: run_free_def frame_range_def)
  then show ?thesis using assms(2) by (auto dest: free_set_bound)
qed

lemma alloc_contiguous_cases:
  assumes "pmm_inv U s" "0 < count"
  obtains (none) "\<forall>a. \<not> run_free (bitmap s) a count" "alloc_contiguous count s = Some (None, s)"
  | (run) a t where "run_free (bitmap s) a count"
      "alloc_contiguous count s = Some (Some (a * FRAME_SIZE), t)" "pmm_inv U t"
      "free_set (bitmap t) = free_set (bitmap s) - frame_range a count"
      "length (bitmap t) = length (bitmap s)" "next_hint t = a + count"
      "free_frames t + count = free_frames s"
proof (cases "\<exists>a. run_free (bitmap s) a count")
  case True
  then obtain a where a: "run_free (bitmap s) a count" ..
  then have "card (frame_range a count) \<le> card (free_set (bitmap s))"
    by (intro card_mono) (auto simp: run_free_def)
  then have enough: "\<not> free_frames s < count" using assms(1) by (simp add: pmm_inv_def)
  from a assms(2) obtain b where b: "contig_loop (bitmap s) count 0 (next_hint s) = Some (Some b)"
    using contig_loop_complete by blast
  then have rb: "run_free (bitmap s) b count" "b + count \<le> max_frames (bitmap s)"
    using contig_loop_sound [OF assms(2)] by blast+
  define t where "t = s\<lparr>bitmap := fold (\<lambda>f bm. set_frame_used bm f) [b..<b + count] (bitmap s),
      free_frames := free_frames s - count, next_hint := b + count\<rparr>"
  have fs: "free_set (bitmap t) = free_set (bitmap s) - frame_range b count"
    using rb(2) by (simp add: t_def free_set_fold_used set_upt_frame_range frame_range_def)
  have "pmm_inv U t"
    by (rule pmm_inv_remove [OF assms(1) _ fs]) (use rb in \<open>auto simp: t_def run_free_def\<close>)
  with b rb fs enough assms(2) show ?thesis
    by (intro run [of b t]) (auto simp: alloc_contiguous_def t_def)
next
  case False
  show ?thesis
  proof (cases "free_frames s < count")
    case True
    with False assms(2) show ?thesis by (intro none) (auto simp: alloc_contiguous_def)
  next
    case enough: False
    then have "free_set (bitmap s) \<noteq> {}" using assms by (auto simp: pmm_inv_def)
    then obtain r where r: "contig_loop (bitmap s) count 0 (next_hint s) = Some r"
      using contig_loop_returns assms(2) by blast
    with False contig_loop_sound [OF assms(2)] have "r = None" by (cases r) blast+
    with r False enough assms(2) show ?thesis by (intro none) (auto simp: alloc_contiguous_def)
  qed
qed

lemma free_contiguous_run:
  assumes "pmm_inv U s" "0 < count" "frame_range a count \<inter> free_set (bitmap s) = {}"
    "frame_range a count \<subseteq> U"
  shows "\<exists>t. free_contiguous (a * FRAME_SIZE) count s = (True, t) \<and> pmm_inv U t \<and>
    free_set (bitmap t) = free_set (bitmap s) \<union> frame_range a count \<and>
    free_frames t = free_frames s + count"
proof -
  have sub: "frame_range a count \<subseteq> {..<max_frames (bitmap s)}"
    using assms(1,4) by (auto simp: pmm_inv_def)
  moreover have "a + count - 1 \<in> frame_range a count"
    using assms(2) by (auto simp: frame_range_def)
  ultimately have le: "a + count \<le> max_frames (bitmap s)" using assms(2) by fastforce
  then have ok: "checked_add64 a count = Some (a + count)"
    using assms(1) by (simp add: pmm_inv_def checked_add64_def u64_max_def MAX_FRAMES_def)
  have used: "\<not> (\<exists>f \<in> set [a..<a + count]. is_frame_free (bitmap s) f)"
    using assms(3) sub by (auto simp: set_upt_frame_range free_set_def simp del: set_upt)
  define t where "t = s\<lparr>bitmap := fold (\<lambda>f bm. set_frame_free bm f) [a..<a + count] (bitmap s),
      free_frames := free_frames s + count, next_hint := min (next_hint s) a\<rparr>"
  have eq: "free_contiguous (a * FRAME_SIZE) count s = (True, t)"
    using assms(2) ok le used by (simp add: free_contiguous_def t_def)
  have fs: "free_set (bitmap t) = free_set (bitmap s) \<union> frame_range a count"
    using le by (simp add: t_def free_set_fold_free set_upt_frame_range frame_range_def)
  have "pmm_inv U t"
    by (rule pmm_inv_return [OF assms(1,3,4) fs]) (simp_all add: t_def)
  with eq fs show ?thesis by (simp add: t_def)
qed

text \<open>A run is freed as a whole or not at all.\<close>

lemma free_contiguous_cases:
  obtains (refused) "free_contiguous addr count s = (False, s)"
  | (freed) t where "free_contiguous addr count s = (True, t)" "0 < count"
      "addr = (addr div FRAME_SIZE) * FRAME_SIZE"
      "frame_range (addr div FRAME_SIZE) count \<subseteq> {..<max_frames (bitmap s)}"
      "frame_range (addr div FRAME_SIZE) count \<inter> free_set (bitmap s) = {}"
      "free_set (bitmap t) = free_set (bitmap s) \<union> frame_range (addr div FRAME_SIZE) count"
      "free_frames t = free_frames s + count" "total_frames t = total_frames s"
      "length (bitmap t) = length (bitmap s)"
proof (cases "fst (free_contiguous addr count s)")
  case False
  then have "free_contiguous addr count s = (False, s)"
    by (auto simp: free_contiguous_def Let_def split: option.splits if_splits)
  then show ?thesis by (rule refused)
next
  case True
  let ?a = "addr div FRAME_SIZE"
  from True have g: "0 < count" "addr mod FRAME_SIZE = 0" "?a + count \<le> max_frames (bitmap s)"
    "\<forall>f \<in> set [?a..<?a + count]. \<not> is_frame_free (bitmap s) f"
    "checked_add64 ?a count = Some (?a + count)"
    by (auto simp: free_contiguous_def Let_def dest!: checked_add64_SomeD
        split: option.splits if_splits)
  then have sub: "frame_range ?a count \<subseteq> {..<max_frames (bitmap s)}"
    by (auto simp: frame_range_def)
  have "free_set (fold (\<lambda>f bm. set_frame_free bm f) [?a..<?a + count] (bitmap s)) =
      free_set (bitmap s) \<union> frame_range ?a count"
    using g(3) by (simp add: free_set_fold_free set_upt_frame_range frame_range_def)
  moreover have "frame_range ?a count \<inter> free_set (bitmap s) = {}"
    using g(4) by (auto simp: free_set_def frame_range_def)
  moreover define t where "t = s\<lparr>bitmap := fold (\<lambda>f bm. set_frame_free bm f) [?a..<?a + count] (bitmap s),
      free_frames := free_frames s + count, next_hint := min (next_hint s) ?a\<rparr>"
  moreover from g have "free_contiguous addr count s = (True, t)"
    by (simp add: free_contiguous_def t_def Let_def)
  ultimately show ?thesis using g(1,2) sub by (intro freed [of t]) auto
qed

lemma free_contiguous_inv:
  assumes "pmm_inv U s" "frame_range (addr div FRAME_SIZE) count \<subseteq> U"
  shows "pmm_inv U (snd (free_contiguous addr count s))"
proof (cases rule: free_contiguous_cases [of addr count s])
  case (freed t)
  then show ?thesis using pmm_inv_return [OF assms(1) freed(5) assms(2), of t] by simp
qed (simp add: assms(1))

section \<open>The interface other components use\<close>

text \<open>
  What the heap relies on: an allocator of runs whose free frames form a pool inside \<open>frames\<close>.
  A request returns, takes a run out of the pool when there is one and leaves the state alone
  when there is none, and a run outside the pool can be put back.
\<close>

locale frame_pool =
  fixes alloc :: "nat \<Rightarrow> 's \<Rightarrow> (nat option \<times> 's) option"
    and release :: "nat \<Rightarrow> nat \<Rightarrow> 's \<Rightarrow> bool \<times> 's"
    and pool :: "'s \<Rightarrow> nat set"
    and inv :: "'s \<Rightarrow> bool"
    and frames :: "nat set"
  assumes alloc_returns: "inv s \<Longrightarrow> 0 < n \<Longrightarrow> \<exists>r. alloc n s = Some r"
    and alloc_Some: "inv s \<Longrightarrow> 0 < n \<Longrightarrow> alloc n s = Some (Some a, t) \<Longrightarrow>
      \<exists>f. a = f * FRAME_SIZE \<and> frame_range f n \<subseteq> pool s \<and> pool t = pool s - frame_range f n \<and> inv t"
    and alloc_None: "inv s \<Longrightarrow> 0 < n \<Longrightarrow> alloc n s = Some (None, t) \<Longrightarrow>
      t = s \<and> (\<forall>f. \<not> frame_range f n \<subseteq> pool s)"
    and release_run: "inv s \<Longrightarrow> 0 < n \<Longrightarrow> frame_range f n \<subseteq> frames - pool s \<Longrightarrow>
      \<exists>t. release (f * FRAME_SIZE) n s = (True, t) \<and> inv t \<and> pool t = pool s \<union> frame_range f n"
    and pool_frames: "inv s \<Longrightarrow> pool s \<subseteq> frames"
begin

lemma alloc_release:
  assumes "inv s" "0 < n" "alloc n s = Some (Some a, t)"
  shows "\<exists>u. release a n t = (True, u) \<and> inv u \<and> pool u = pool s"
proof -
  obtain f where f: "a = f * FRAME_SIZE" "frame_range f n \<subseteq> pool s"
    "pool t = pool s - frame_range f n" "inv t"
    using alloc_Some [OF assms] by blast
  then have "frame_range f n \<subseteq> frames - pool t" using pool_frames [OF assms(1)] by blast
  from release_run [OF f(4) assms(2) this] f show ?thesis by auto
qed

lemma alloc_disjoint:
  assumes "inv s" "0 < n" "0 < m" "alloc n s = Some (Some a, t)" "alloc m t = Some (Some b, u)"
  shows "{a..<a + n * FRAME_SIZE} \<inter> {b..<b + m * FRAME_SIZE} = {}"
proof -
  obtain f where f: "a = f * FRAME_SIZE" "pool t = pool s - frame_range f n" "inv t"
    using alloc_Some [OF assms(1,2,4)] by blast
  obtain g where g: "b = g * FRAME_SIZE" "frame_range g m \<subseteq> pool t"
    using alloc_Some [OF f(3) assms(3,5)] by blast
  have disj: "frame_range f n \<inter> frame_range g m = {}" using f g by blast
  have "f + n \<le> g \<or> g + m \<le> f"
  proof (rule ccontr)
    assume "\<not> ?thesis"
    then have "max f g \<in> frame_range f n \<inter> frame_range g m"
      using assms(2,3) by (auto simp: frame_range_def)
    with disj show False by blast
  qed
  then have "(f + n) * FRAME_SIZE \<le> g * FRAME_SIZE \<or> (g + m) * FRAME_SIZE \<le> f * FRAME_SIZE"
    by (metis mult_le_mono1)
  then show ?thesis using f(1) g(1) by (auto simp: add_mult_distrib)
qed

end

interpretation pmm_pool: frame_pool alloc_contiguous free_contiguous
  "\<lambda>s. free_set (bitmap s)" "pmm_inv U" U for U
proof unfold_locales
  fix s n assume "pmm_inv U s" "0 < (n :: nat)"
  then show "\<exists>r. alloc_contiguous n s = Some r" by (cases rule: alloc_contiguous_cases) auto
next
  fix s n a t assume "pmm_inv U s" "0 < (n :: nat)" "alloc_contiguous n s = Some (Some a, t)"
  then show "\<exists>f. a = f * FRAME_SIZE \<and> frame_range f n \<subseteq> free_set (bitmap s) \<and>
      free_set (bitmap t) = free_set (bitmap s) - frame_range f n \<and> pmm_inv U t"
    by (cases rule: alloc_contiguous_cases) (auto simp: run_free_def)
next
  fix s n t assume "pmm_inv U s" "0 < (n :: nat)" "alloc_contiguous n s = Some (None, t)"
  then show "t = s \<and> (\<forall>f. \<not> frame_range f n \<subseteq> free_set (bitmap s))"
    by (cases rule: alloc_contiguous_cases) (auto simp: run_free_def)
next
  fix s n f assume "pmm_inv U s" "0 < (n :: nat)" "frame_range f n \<subseteq> U - free_set (bitmap s)"
  then show "\<exists>t. free_contiguous (f * FRAME_SIZE) n s = (True, t) \<and> pmm_inv U t \<and>
      free_set (bitmap t) = free_set (bitmap s) \<union> frame_range f n"
    using free_contiguous_run [of U s n f] by auto
next
  fix s assume "pmm_inv U s"
  then show "free_set (bitmap s) \<subseteq> U" by (simp add: pmm_inv_def)
qed

section \<open>Initialisation\<close>

definition counted :: "pmm \<Rightarrow> bool" where
  "counted s \<longleftrightarrow> free_frames s = card (free_set (bitmap s)) \<and> total_frames s = free_frames s"

lemma init_frame_step:
  assumes "counted u" "start + i \<notin> free_set (bitmap u)"
  shows "free_set (bitmap (init_frame start i u)) =
      free_set (bitmap u) \<union> ({start + i} \<inter> {..<max_frames (bitmap u)}) \<and>
    length (bitmap (init_frame start i u)) = length (bitmap u) \<and> counted (init_frame start i u)"
  using assms by (auto simp: init_frame_def counted_def free_set_free)

lemma init_frames_fold:
  assumes "counted s" "free_set (bitmap s) \<inter> frame_range start n = {}"
  shows "free_set (bitmap (fold (init_frame start) [0..<n] s)) =
      free_set (bitmap s) \<union> (frame_range start n \<inter> {..<max_frames (bitmap s)}) \<and>
    length (bitmap (fold (init_frame start) [0..<n] s)) = length (bitmap s) \<and>
    counted (fold (init_frame start) [0..<n] s)"
  using assms(2)
proof (induction n)
  case 0
  with assms(1) show ?case by (simp add: frame_range_def)
next
  case (Suc n)
  define u where "u = fold (init_frame start) [0..<n] s"
  have sub: "frame_range start (Suc n) = insert (start + n) (frame_range start n)"
    "start + n \<notin> frame_range start n"
    by (auto simp: frame_range_def)
  with Suc have IH: "free_set (bitmap u) = free_set (bitmap s) \<union>
      (frame_range start n \<inter> {..<max_frames (bitmap s)})" "length (bitmap u) = length (bitmap s)"
    "counted u"
    by (auto simp: u_def)
  have "start + n \<notin> free_set (bitmap u)" using IH(1) Suc.prems sub by auto
  from init_frame_step [OF IH(3) this] IH(1,2) sub(1)
  show ?case by (auto simp flip: u_def)
qed

lemma init_entry_step:
  assumes "counted s" "free_set (bitmap s) \<inter> entry_frames usable e = {}"
  shows "free_set (bitmap (init_entry usable e s)) =
      free_set (bitmap s) \<union> (entry_frames usable e \<inter> {..<max_frames (bitmap s)}) \<and>
    length (bitmap (init_entry usable e s)) = length (bitmap s) \<and> counted (init_entry usable e s)"
  using assms init_frames_fold [OF assms(1)]
  by (auto simp: init_entry_def entry_frames_def Let_def split: if_splits)

lemma init_entries:
  assumes "counted s"
    and "sorted_wrt (\<lambda>e e'. entry_frames usable e \<inter> entry_frames usable e' = {}) es"
    and "free_set (bitmap s) \<inter> (\<Union>e \<in> set es. entry_frames usable e) = {}"
  shows "free_set (bitmap (fold (init_entry usable) es s)) =
      free_set (bitmap s) \<union> ((\<Union>e \<in> set es. entry_frames usable e) \<inter> {..<max_frames (bitmap s)}) \<and>
    length (bitmap (fold (init_entry usable) es s)) = length (bitmap s) \<and>
    counted (fold (init_entry usable) es s)"
  using assms
proof (induction es arbitrary: s)
  case (Cons e es)
  have e: "free_set (bitmap s) \<inter> entry_frames usable e = {}" using Cons.prems(3) by auto
  note step = init_entry_step [OF Cons.prems(1) e]
  have "free_set (bitmap (init_entry usable e s)) \<inter> (\<Union>e \<in> set es. entry_frames usable e) = {}"
    using step Cons.prems(2,3) by auto
  from Cons.IH [OF _ _ this] step Cons.prems(2) show ?case by auto
qed simp

lemma free_set_all_used: "free_set (map (\<lambda>_. 0xFF) (bm :: u8 list)) = {}"
proof -
  have "\<not> is_frame_free (map (\<lambda>_. 0xFF) bm) i" if "i < max_frames bm" for i
  proof -
    have "(0xFF :: u8) = - 1" by simp
    then have "bit (0xFF :: u8) (i mod 8)" by (simp only: bit_minus_1_iff) simp
    then show ?thesis using that by (simp add: is_frame_free_bit)
  qed
  then show ?thesis by (auto simp: free_set_def)
qed

lemma pmm_init_correct:
  assumes "sorted_wrt (\<lambda>e e'. entry_frames usable e \<inter> entry_frames usable e' = {}) memory_map"
    and "max_frames (bitmap s) \<le> MAX_FRAMES"
  defines "F \<equiv> (\<Union>e \<in> set memory_map. entry_frames usable e) \<inter> {..<max_frames (bitmap s)}"
  shows "pmm_inv F (pmm_init usable memory_map s)" "free_set (bitmap (pmm_init usable memory_map s)) = F"
proof -
  define s0 where "s0 = s\<lparr>bitmap := map (\<lambda>_. 0xFF) (bitmap s), free_frames := 0, total_frames := 0\<rparr>"
  have "counted s0" "free_set (bitmap s0) = {}"
    by (simp_all add: s0_def counted_def free_set_all_used)
  from init_entries [OF this(1) assms(1)] this(2)
  have "free_set (bitmap (fold (init_entry usable) memory_map s0)) = F"
    "length (bitmap (fold (init_entry usable) memory_map s0)) = length (bitmap s)"
    "counted (fold (init_entry usable) memory_map s0)"
    by (auto simp: F_def s0_def)
  then show "pmm_inv F (pmm_init usable memory_map s)"
    "free_set (bitmap (pmm_init usable memory_map s)) = F"
    using assms(2) unfolding pmm_init_def s0_def [symmetric]
    by (auto simp: pmm_inv_def counted_def F_def)
qed

lemma entry_frames_high: "f \<in> entry_frames usable e \<Longrightarrow> RESERVED_LOW_MEM div FRAME_SIZE \<le> f"
proof -
  assume "f \<in> entry_frames usable e"
  then have "max (base e) RESERVED_LOW_MEM div FRAME_SIZE \<le> f"
    by (auto simp: entry_frames_def frame_range_def Let_def split: if_splits)
  moreover have "RESERVED_LOW_MEM div FRAME_SIZE \<le> max (base e) RESERVED_LOW_MEM div FRAME_SIZE"
    by (rule div_le_mono) simp
  ultimately show ?thesis by linarith
qed

section \<open>Properties\<close>

text \<open>A four-frame allocator: frame 0 used, frames 1 to 3 free, the rest not backed by memory.\<close>

definition pmm_demo :: pmm where
  "pmm_demo = \<lparr>bitmap = [0xF1], free_frames = 3, total_frames = 3, next_hint = 2\<rparr>"

lemma free_set_code: "free_set bm = set (filter (is_frame_free bm) [0..<max_frames bm])"
  by (auto simp: free_set_def)

lemma free_set_demo: "free_set (bitmap pmm_demo) = {1, 2, 3}"
  by (simp add: free_set_code pmm_demo_def is_frame_free_def upt_rec)
     (simp add: numeral_2_eq_2 numeral_3_eq_3)

lemma pmm_demo_inv: "pmm_inv {1, 2, 3} pmm_demo"
  by (simp add: pmm_inv_def free_set_demo) (simp add: pmm_demo_def MAX_FRAMES_def)

text \<open>
  C1: \<open>alloc_frame\<close> is correct. In every state that satisfies the invariant it fails exactly when
  no frame is free, and otherwise returns the page-aligned address of a frame that was free,
  removes just this frame from the free set and keeps the invariant.
\<close>

theorem alloc_frame_correct:
  assumes "pmm_inv U s"
  shows "case alloc_frame s of
      (None, t) \<Rightarrow> t = s \<and> free_set (bitmap s) = {}
    | (Some a, t) \<Rightarrow> \<exists>i \<in> free_set (bitmap s). a = i * FRAME_SIZE \<and>
        free_set (bitmap t) = free_set (bitmap s) - {i} \<and> pmm_inv U t"
  using assms
proof (cases rule: alloc_frame_cases)
  case (frame i)
  then show ?thesis using alloc_frame_inv [OF assms]
    by (auto simp: free_set_used free_set_bound)
qed simp

theorem alloc_frame_correct_witness:
  "\<exists>i \<in> {1, 2, 3}. fst (alloc_frame pmm_demo) = Some (i * FRAME_SIZE) \<and>
    free_set (bitmap (snd (alloc_frame pmm_demo))) = {1, 2, 3} - {i}"
proof -
  have "fst (alloc_frame pmm_demo) = Some (2 * FRAME_SIZE)"
    by (simp add: alloc_frame_def pmm_demo_def is_frame_free_def upt_rec)
  with alloc_frame_correct [OF pmm_demo_inv] show ?thesis
    by (auto simp: free_set_demo split: prod.splits)
qed

text \<open>
  C2: \<open>alloc_contiguous\<close> is totally correct. Although its outer loop restarts the scan without
  counting the pass, a request for a positive number of frames always returns under the
  invariant: it yields an aligned run of free frames, which it takes out of the free set, exactly
  when the map has such a run anywhere (the bound on the passes never hides one), and leaves the
  state as it was otherwise.
\<close>

theorem alloc_contiguous_correct:
  assumes "pmm_inv U s" "0 < count"
  shows "\<exists>r t. alloc_contiguous count s = Some (r, t) \<and> pmm_inv U t \<and>
    (case r of
       None \<Rightarrow> t = s \<and> \<not> (\<exists>f. frame_range f count \<subseteq> free_set (bitmap s))
     | Some a \<Rightarrow> \<exists>f. a = f * FRAME_SIZE \<and> frame_range f count \<subseteq> free_set (bitmap s) \<and>
         free_set (bitmap t) = free_set (bitmap s) - frame_range f count)"
  using assms
  by (cases rule: alloc_contiguous_cases) (auto simp: run_free_def assms)

theorem alloc_contiguous_correct_witness:
  "\<exists>a t. alloc_contiguous 3 pmm_demo = Some (Some a, t) \<and> free_set (bitmap t) = {}"
proof -
  have run: "frame_range 1 3 = {1, 2, 3}" by (auto simp: frame_range_def)
  from alloc_contiguous_correct [OF pmm_demo_inv, of 3] obtain r t where
    rt: "alloc_contiguous 3 pmm_demo = Some (r, t)"
    "case r of None \<Rightarrow> t = pmm_demo \<and> \<not> (\<exists>f. frame_range f 3 \<subseteq> {1, 2, 3})
     | Some a \<Rightarrow> \<exists>f. a = f * FRAME_SIZE \<and> frame_range f 3 \<subseteq> {1, 2, 3} \<and>
         free_set (bitmap t) = {1, 2, 3} - frame_range f 3"
    unfolding free_set_demo by auto
  from rt(2) run obtain a f where "r = Some a" "frame_range f 3 \<subseteq> {1, 2, 3}"
    "free_set (bitmap t) = {1, 2, 3} - frame_range f 3"
    by (cases r) auto
  moreover from this have "frame_range f 3 = {1, 2, 3}"
    by (intro card_subset_eq) auto
  ultimately show ?thesis using rt(1) by auto
qed

text \<open>
  C3: \<open>free_contiguous\<close> is atomic. Whatever its arguments, it either refuses and leaves the state
  untouched, or every frame of the range lies inside the map and was in use, and then exactly
  these frames become free and are counted.
\<close>

theorem free_contiguous_atomic:
  "case free_contiguous addr count s of
     (False, t) \<Rightarrow> t = s
   | (True, t) \<Rightarrow> FRAME_SIZE dvd addr \<and>
       frame_range (addr div FRAME_SIZE) count \<subseteq> {..<max_frames (bitmap s)} - free_set (bitmap s) \<and>
       free_set (bitmap t) = free_set (bitmap s) \<union> frame_range (addr div FRAME_SIZE) count \<and>
       free_frames t = free_frames s + count"
proof (cases rule: free_contiguous_cases [of addr count s])
  case (freed t)
  then show ?thesis by (auto simp: dvd_def mult.commute)
qed simp

text \<open>
  C4: initialisation is correct. When the bootloader's usable entries do not overlap (the limine
  protocol promises it), exactly their frames above the first mebibyte and inside the map are
  free afterwards, the counters agree with the bitmap, and no frame of the first
  mebibyte is free, even if the memory map calls it usable.
\<close>

theorem pmm_init_exact:
  assumes "sorted_wrt (\<lambda>e e'. entry_frames usable e \<inter> entry_frames usable e' = {}) memory_map"
    and "max_frames (bitmap s) \<le> MAX_FRAMES"
  shows "free_set (bitmap (pmm_init usable memory_map s)) =
      (\<Union>e \<in> set memory_map. entry_frames usable e) \<inter> {..<max_frames (bitmap s)} \<and>
    pmm_inv (free_set (bitmap (pmm_init usable memory_map s))) (pmm_init usable memory_map s) \<and>
    (\<forall>f < 256. f \<notin> free_set (bitmap (pmm_init usable memory_map s)))"
proof -
  have "f \<notin> free_set (bitmap (pmm_init usable memory_map s))" if "f < 256" for f
    using that entry_frames_high [of f] pmm_init_correct(2) [OF assms]
    by (force simp: RESERVED_LOW_MEM_def FRAME_SIZE_def)
  with pmm_init_correct [OF assms] show ?thesis by auto
qed

theorem pmm_init_exact_witness:
  "free_set (bitmap (pmm_init 0 [\<lparr>base = 0, mm_length = 0x102000, type_of = 0\<rparr>,
      \<lparr>base = 0x200000, mm_length = 0x1000, type_of = 2\<rparr>] (pmm_boot\<lparr>bitmap := replicate 40 0\<rparr>))) =
    {256, 257}"
proof -
  let ?e1 = "\<lparr>base = 0, mm_length = 0x102000, type_of = 0\<rparr>"
  let ?e2 = "\<lparr>base = 0x200000, mm_length = 0x1000, type_of = 2\<rparr>"
  have e: "entry_frames 0 ?e1 = {256, 257}" "entry_frames 0 ?e2 = {}"
    by (auto simp: entry_frames_def RESERVED_LOW_MEM_def FRAME_SIZE_def saturating_add64_def
        u64_max_def frame_range_def)
  have "sorted_wrt (\<lambda>e e'. entry_frames 0 e \<inter> entry_frames 0 e' = {}) [?e1, ?e2]"
    by (simp add: e)
  from pmm_init_exact [OF this, of "pmm_boot\<lparr>bitmap := replicate 40 0\<rparr>"] show ?thesis
    by (auto simp: e MAX_FRAMES_def)
qed

text \<open>
  A run handed out by \<open>alloc_contiguous\<close> can be returned with \<open>free_contiguous\<close>, which then
  succeeds and restores the pool and the counter: no frame is lost or duplicated by the pair.
\<close>

theorem alloc_free_contiguous_roundtrip:
  assumes "pmm_inv U s" "0 < count" "alloc_contiguous count s = Some (Some a, t)"
  shows "\<exists>u. free_contiguous a count t = (True, u) \<and> pmm_inv U u \<and>
    free_set (bitmap u) = free_set (bitmap s) \<and> free_frames u = free_frames s"
proof -
  obtain u where u: "free_contiguous a count t = (True, u)" "pmm_inv U u"
    "free_set (bitmap u) = free_set (bitmap s)"
    using pmm_pool.alloc_release [OF assms] by blast
  then have "free_frames u = free_frames s" using assms(1) by (simp add: pmm_inv_def)
  with u show ?thesis by blast
qed

theorem alloc_free_contiguous_roundtrip_witness:
  "\<exists>a t u. alloc_contiguous 2 pmm_demo = Some (Some a, t) \<and>
    free_contiguous a 2 t = (True, u) \<and> free_frames u = 3"
proof -
  have "frame_range 1 2 \<subseteq> free_set (bitmap pmm_demo)"
    by (auto simp: free_set_demo frame_range_def)
  then obtain a t where at: "alloc_contiguous 2 pmm_demo = Some (Some a, t)"
    using pmm_pool.alloc_returns [OF pmm_demo_inv, of 2] pmm_pool.alloc_None [OF pmm_demo_inv, of 2]
    by (metis old.prod.exhaust option.exhaust zero_less_numeral)
  then obtain u where u: "free_contiguous a 2 t = (True, u)" "free_frames u = free_frames pmm_demo"
    using alloc_free_contiguous_roundtrip [OF pmm_demo_inv _ at] by auto
  from u(2) have "free_frames u = 3" by (simp add: pmm_demo_def)
  with at u(1) show ?thesis by blast
qed

end
