(* ===== verification/Heap.thy ===== *)
theory Heap
  imports Pmm
begin

text \<open>
  The kernel heap (\<open>kernel/src/memory/heap.rs\<close>): an address-ordered free list whose nodes live in
  the first 16 bytes of the free blocks themselves, over regions taken from the frame allocator.
  Memory is a function from the address of a node to its two words; \<open>None\<close> is the null pointer.
  The lists are walked through memory, as the code does, so a damaged list may make a walk not
  return: the walks are partial functions, and \<open>heap_rep\<close> below is the invariant under which they
  do. The spin lock makes each operation one atomic step. Console output is left out.
\<close>

section \<open>Nodes and memory\<close>

definition SIZE_MAGIC_BITS :: u64 where "SIZE_MAGIC_BITS = 0x5649000000000000"
definition SIZE_MASK :: u64 where "SIZE_MASK = 0x0000FFFFFFFFFFFF"
definition ALIGN_GRANULE :: nat where "ALIGN_GRANULE = 16"
definition MIN_BLOCK :: nat where "MIN_BLOCK = 16"
definition MAX_REGIONS :: nat where "MAX_REGIONS = 16"
definition MAX_HEAP_BYTES :: nat where "MAX_HEAP_BYTES = 64 * 1024 * 1024"

record free_node =
  size_magic :: u64
  next_node :: "nat option"

type_synonym memory = "nat \<Rightarrow> free_node"

definition node_size :: "memory \<Rightarrow> nat \<Rightarrow> nat" where
  "node_size m p = unat (size_magic (m p) AND SIZE_MASK)"

definition set_size :: "nat \<Rightarrow> nat \<Rightarrow> memory \<Rightarrow> memory" where
  "set_size p n m = m(p := (m p)\<lparr>size_magic := SIZE_MAGIC_BITS OR (word_of_nat n AND SIZE_MASK)\<rparr>)"

definition set_next :: "nat \<Rightarrow> nat option \<Rightarrow> memory \<Rightarrow> memory" where
  "set_next p q m = m(p := (m p)\<lparr>next_node := q\<rparr>)"

text \<open>
  \<open>align_up\<close> works on 64-bit words; the sum wraps as a release build does (the development profile
  would panic where it wraps).
\<close>

definition align_up :: "nat \<Rightarrow> nat \<Rightarrow> nat" where
  "align_up addr align =
     unat ((word_of_nat (addr + align - 1) :: u64) AND NOT (word_of_nat (align - 1)))"

section \<open>The free list\<close>

text \<open>\<open>regions\<close> holds the \<open>region_count\<close> live entries of the Rust array, in order.\<close>

record heap =
  mem :: memory
  head :: "nat option"
  regions :: "(nat \<times> nat) list"
  total_bytes :: nat

definition heap_empty :: "memory \<Rightarrow> heap" where
  "heap_empty m = \<lparr>mem = m, head = None, regions = [], total_bytes = 0\<rparr>"

definition region_of :: "heap \<Rightarrow> nat \<Rightarrow> (nat \<times> nat) option" where
  "region_of h addr = find (\<lambda>(s, e). addr \<ge> s \<and> addr < e) (regions h)"

definition heap_region :: "heap \<Rightarrow> nat \<times> nat" where
  "heap_region h =
     (let (s, e) = fold (\<lambda>(rs, re) (s, e). (min s rs, max e re)) (regions h) (u64_max, 0)
      in if s = u64_max then (0, 0) else (s, e))"

definition node_ok :: "heap \<Rightarrow> nat \<Rightarrow> bool" where
  "node_ok h addr \<longleftrightarrow>
     (case region_of h addr of
        None \<Rightarrow> False
      | Some (region_start, region_end) \<Rightarrow>
          \<not> addr < region_start \<and>
          (case checked_add64 addr 16 of None \<Rightarrow> False | Some stop \<Rightarrow> \<not> stop > region_end) \<and>
          size_magic (mem h addr) AND NOT SIZE_MASK = SIZE_MAGIC_BITS \<and>
          node_size (mem h) addr \<ge> MIN_BLOCK \<and>
          (case checked_add64 addr (node_size (mem h) addr) of
             None \<Rightarrow> False | Some stop \<Rightarrow> stop \<le> region_end))"

text \<open>Redirect the link that leads to the current node: the head or the predecessor's \<open>next\<close>.\<close>

definition set_link :: "nat option \<Rightarrow> nat option \<Rightarrow> heap \<Rightarrow> heap" where
  "set_link prev q h =
     (case prev of None \<Rightarrow> h\<lparr>head := q\<rparr> | Some p \<Rightarrow> h\<lparr>mem := set_next p q (mem h)\<rparr>)"

definition truncate_before :: "nat option \<Rightarrow> heap \<Rightarrow> heap" where
  "truncate_before prev h = set_link prev None h"

text \<open>
  The search loop that \<open>insert_block\<close> (with \<open>limit = start\<close>) and \<open>deallocate\<close> (with \<open>limit = end\<close>)
  share: stop at the first node at or after \<open>limit\<close>; a damaged node truncates the list.
\<close>

partial_function (option) walk_before ::
  "nat \<Rightarrow> heap \<Rightarrow> nat option \<Rightarrow> nat option \<Rightarrow> (nat option \<times> nat option \<times> heap) option" where
  "walk_before limit h prev cur =
     (case cur of
        None \<Rightarrow> Some (prev, None, h)
      | Some p \<Rightarrow>
          if \<not> node_ok h p then Some (prev, None, truncate_before prev h)
          else if p \<ge> limit then Some (prev, Some p, h)
          else walk_before limit h cur (next_node (mem h p)))"

text \<open>
  The second half of both functions: merge \<open>[start, stop)\<close> with the neighbours that touch it, or
  link a new node. \<open>add\<close> is the addition the caller uses (plain or saturating).
\<close>

definition coalesce ::
  "(nat \<Rightarrow> nat \<Rightarrow> nat) \<Rightarrow> nat \<Rightarrow> nat \<Rightarrow> nat option \<Rightarrow> nat option \<Rightarrow> heap \<Rightarrow> heap" where
  "coalesce add start stop prev cur h =
     (let merge_right = (case cur of None \<Rightarrow> False | Some p \<Rightarrow> p = stop);
          right_next = (case cur of None \<Rightarrow> None
            | Some p \<Rightarrow> if p = stop then next_node (mem h p) else None);
          merged_end = (case cur of None \<Rightarrow> stop
            | Some p \<Rightarrow> if p = stop then add stop (node_size (mem h) p) else stop);
          link_new = set_link prev (Some start)
            (h\<lparr>mem := set_next start (if merge_right then right_next else cur)
               (set_size start (merged_end - start) (mem h))\<rparr>)
      in case prev of
           None \<Rightarrow> link_new
         | Some p \<Rightarrow>
             if add p (node_size (mem h) p) = start
             then
               let h1 = h\<lparr>mem := set_size p (merged_end - p) (mem h)\<rparr>
               in if merge_right then h1\<lparr>mem := set_next p right_next (mem h1)\<rparr> else h1
             else link_new)"

definition insert_block :: "nat \<Rightarrow> nat \<Rightarrow> heap \<Rightarrow> heap option" where
  "insert_block start sz h =
     (case walk_before start h None (head h) of
        None \<Rightarrow> None
      | Some (prev, cur, h1) \<Rightarrow> Some (coalesce (+) start (start + sz) prev cur h1))"

definition deallocate :: "nat \<Rightarrow> nat \<Rightarrow> heap \<Rightarrow> heap option" where
  "deallocate ptr layout_size h =
     (let sz = align_up (max layout_size 1) ALIGN_GRANULE
      in case checked_add64 ptr sz of
           None \<Rightarrow> Some h
         | Some stop \<Rightarrow>
             case region_of h ptr of
               None \<Rightarrow> Some h
             | Some (region_start, region_end) \<Rightarrow>
                 if \<not> (ptr \<ge> region_start \<and> stop \<le> region_end) then Some h
                 else
                   case walk_before stop h None (head h) of
                     None \<Rightarrow> None
                   | Some (prev, cur, h1) \<Rightarrow>
                       Some (coalesce saturating_add64 ptr stop prev cur h1))"

text \<open>Cut \<open>[alloc_start, alloc_end)\<close> out of the block at \<open>p\<close>.\<close>

definition carve :: "nat option \<Rightarrow> nat \<Rightarrow> nat \<Rightarrow> nat \<Rightarrow> heap \<Rightarrow> heap" where
  "carve prev p alloc_start alloc_end h =
     (let block_end = p + node_size (mem h) p;
          prefix = alloc_start - p;
          suffix = block_end - alloc_end;
          nxt = next_node (mem h p);
          h1 = (if suffix \<ge> MIN_BLOCK
                then h\<lparr>mem := set_next alloc_end nxt (set_size alloc_end suffix (mem h))\<rparr> else h);
          right = (if suffix \<ge> MIN_BLOCK then Some alloc_end else nxt)
      in if prefix \<ge> MIN_BLOCK
         then h1\<lparr>mem := set_next p right (set_size p prefix (mem h1))\<rparr>
         else set_link prev right h1)"

partial_function (option) alloc_walk ::
  "nat \<Rightarrow> nat \<Rightarrow> heap \<Rightarrow> nat option \<Rightarrow> nat option \<Rightarrow> (nat option \<times> heap) option" where
  "alloc_walk sz align h prev cur =
     (case cur of
        None \<Rightarrow> Some (None, h)
      | Some p \<Rightarrow>
          if \<not> node_ok h p then Some (None, truncate_before prev h)
          else
            case checked_add64 (align_up p align) sz of
              None \<Rightarrow> Some (None, h)
            | Some alloc_end \<Rightarrow>
                if alloc_end \<le> p + node_size (mem h) p
                then Some (Some (align_up p align), carve prev p (align_up p align) alloc_end h)
                else alloc_walk sz align h cur (next_node (mem h p)))"

definition allocate :: "nat \<Rightarrow> nat \<Rightarrow> heap \<Rightarrow> (nat option \<times> heap) option" where
  "allocate layout_size layout_align h =
     alloc_walk (align_up (max layout_size 1) ALIGN_GRANULE) (max layout_align ALIGN_GRANULE)
       h None (head h)"

text \<open>Walks that only read the list: the sum of free bytes, and \<open>check\<close> for the diagnostics.\<close>

partial_function (option) free_bytes_walk :: "heap \<Rightarrow> nat \<Rightarrow> nat option \<Rightarrow> nat option" where
  "free_bytes_walk h acc cur =
     (case cur of
        None \<Rightarrow> Some acc
      | Some p \<Rightarrow>
          if \<not> node_ok h p then Some acc
          else free_bytes_walk h (saturating_add64 acc (node_size (mem h) p)) (next_node (mem h p)))"

definition free_bytes :: "heap \<Rightarrow> nat option" where
  "free_bytes h = free_bytes_walk h 0 (head h)"

partial_function (option) check_walk ::
  "heap \<Rightarrow> nat option \<Rightarrow> nat \<Rightarrow> nat \<Rightarrow> (nat \<times> nat \<times> nat option) option" where
  "check_walk h cur blocks bytes =
     (if cur = None then Some (blocks, bytes, None)
      else if \<not> node_ok h (the cur) then Some (blocks, bytes, cur)
      else check_walk h (next_node (mem h (the cur))) (blocks + 1)
             (saturating_add64 bytes (node_size (mem h) (the cur))))"

definition heap_check :: "heap \<Rightarrow> (nat \<times> nat \<times> nat option) option" where
  "heap_check h = check_walk h (head h) 0 0"

text \<open>\<open>stats\<close>: (used, total); \<open>None\<close> if the walk does not return or the subtraction underflows.\<close>

definition heap_stats :: "heap \<Rightarrow> (nat \<times> nat) option" where
  "heap_stats h =
     (case free_bytes h of None \<Rightarrow> None
      | Some b \<Rightarrow> if b \<le> total_bytes h then Some (total_bytes h - b, total_bytes h) else None)"

section \<open>Headers and alignment\<close>

definition header :: "nat \<Rightarrow> u64" where
  "header n = SIZE_MAGIC_BITS OR (word_of_nat n AND SIZE_MASK)"

lemma SIZE_MASK_mask: "SIZE_MASK = mask 48"
  by (simp add: SIZE_MASK_def mask_eq_exp_minus_1)

lemma SIZE_MAGIC_push: "SIZE_MAGIC_BITS = push_bit 48 0x5649"
  by (simp add: SIZE_MAGIC_BITS_def push_bit_eq_mult)

lemma header_magic: "header n AND NOT SIZE_MASK = SIZE_MAGIC_BITS"
  unfolding header_def SIZE_MASK_mask SIZE_MAGIC_push by (rule tagged_high)

lemma header_size: "n < 2 ^ 48 \<Longrightarrow> unat (header n AND SIZE_MASK) = n"
  unfolding header_def SIZE_MASK_mask SIZE_MAGIC_push
  by (simp only: tagged_low) (rule unat_of_nat_and_mask; simp)

lemma set_size_header: "set_size p n m = m(p := (m p)\<lparr>size_magic := header n\<rparr>)"
  by (simp add: set_size_def header_def)

lemma align_up_eq:
  assumes "addr + 2 ^ k \<le> 2 ^ 64"
  shows "align_up addr (2 ^ k) = (addr + 2 ^ k - 1) div 2 ^ k * 2 ^ k"
proof -
  have "addr + 2 ^ k - 1 < 2 ^ 64"
    using assms by (simp add: Suc_le_eq [symmetric])
  moreover have "(word_of_nat (2 ^ k - 1) :: u64) = mask k"
    by (simp add: mask_eq_exp_minus_1 of_nat_diff)
  ultimately show ?thesis
    by (simp add: align_up_def unat_and_not_mask unsigned_of_nat take_bit_nat_eq_self)
qed

lemma align_up_bounds:
  assumes "addr + 2 ^ k \<le> 2 ^ 64"
  shows "addr \<le> align_up addr (2 ^ k)" "align_up addr (2 ^ k) < addr + 2 ^ k"
    "2 ^ k dvd align_up addr (2 ^ k)"
proof -
  have "(addr + 2 ^ k - 1) mod 2 ^ k < 2 ^ k" by simp
  moreover have "(addr + 2 ^ k - 1) = (addr + 2 ^ k - 1) div 2 ^ k * 2 ^ k + (addr + 2 ^ k - 1) mod 2 ^ k"
    by (rule div_mult_mod_eq [symmetric])
  moreover have "(0::nat) < 2 ^ k" by simp
  ultimately show "addr \<le> align_up addr (2 ^ k)" "align_up addr (2 ^ k) < addr + 2 ^ k"
    unfolding align_up_eq [OF assms] by linarith+
qed (simp add: align_up_eq [OF assms])

lemma align_up_mono:
  "a \<le> b \<Longrightarrow> b + 2 ^ k \<le> 2 ^ 64 \<Longrightarrow> align_up a (2 ^ k) \<le> align_up b (2 ^ k)"
  by (auto simp: align_up_eq intro!: div_le_mono)

lemma align_up_16: "n + 16 \<le> 2 ^ 64 \<Longrightarrow> n \<le> align_up n 16 \<and> align_up n 16 < n + 16 \<and> 16 dvd align_up n 16"
  using align_up_bounds [of n 4] by simp

section \<open>The list in memory and the list of blocks\<close>

text \<open>
  A free list is represented by the list of its blocks (address, size). \<open>lseg m cur bs q\<close>: starting
  from \<open>cur\<close> the memory links the blocks \<open>bs\<close> and then leads to \<open>q\<close>.
\<close>

type_synonym blocks = "(nat \<times> nat) list"

fun lseg :: "memory \<Rightarrow> nat option \<Rightarrow> blocks \<Rightarrow> nat option \<Rightarrow> bool" where
  "lseg m cur [] q = (cur = q)"
| "lseg m cur ((p, n) # bs) q =
     (cur = Some p \<and> size_magic (m p) = header n \<and> lseg m (next_node (m p)) bs q)"

definition block_ok :: "(nat \<times> nat) list \<Rightarrow> nat \<times> nat \<Rightarrow> bool" where
  "block_ok rs b \<longleftrightarrow> 16 dvd fst b \<and> 16 dvd snd b \<and> 0 < snd b \<and>
     (\<exists>(s, e) \<in> set rs. s \<le> fst b \<and> fst b + snd b \<le> e)"

definition apart :: "nat \<times> nat \<Rightarrow> nat \<times> nat \<Rightarrow> bool" where
  "apart b c \<longleftrightarrow> fst b + snd b < fst c"

definition region_ok :: "nat \<times> nat \<Rightarrow> bool" where
  "region_ok r \<longleftrightarrow> 16 dvd fst r \<and> 16 dvd snd r \<and> 0 < fst r \<and> fst r < snd r \<and> snd r < 2 ^ 64"

definition regions_apart :: "nat \<times> nat \<Rightarrow> nat \<times> nat \<Rightarrow> bool" where
  "regions_apart r t \<longleftrightarrow> snd r < fst t \<or> snd t < fst r"

text \<open>
  Regions are aligned, do not touch each other and add up to \<open>total_bytes\<close>, at most 64 MiB; blocks
  are sorted, aligned, inside a region each, and never touch (everything is coalesced).
\<close>

definition regions_inv :: "(nat \<times> nat) list \<Rightarrow> nat \<Rightarrow> bool" where
  "regions_inv rs tot \<longleftrightarrow>
     list_all region_ok rs \<and> pairwise regions_apart (set rs) \<and> distinct rs \<and>
     length rs \<le> MAX_REGIONS \<and>
     tot = sum_list (map (\<lambda>(s, e). e - s) rs) \<and> tot \<le> MAX_HEAP_BYTES"

definition blocks_inv :: "(nat \<times> nat) list \<Rightarrow> blocks \<Rightarrow> bool" where
  "blocks_inv rs bs \<longleftrightarrow> list_all (block_ok rs) bs \<and> sorted_wrt apart bs"

definition heap_rep :: "heap \<Rightarrow> blocks \<Rightarrow> bool" where
  "heap_rep h bs \<longleftrightarrow>
     lseg (mem h) (head h) bs None \<and> regions_inv (regions h) (total_bytes h) \<and>
     blocks_inv (regions h) bs"

text \<open>The addresses that a list of blocks covers.\<close>

definition cells :: "blocks \<Rightarrow> nat set" where
  "cells bs = (\<Union>(p, n) \<in> set bs. {p ..< p + n})"

lemma cells_simps [simp]:
  "cells [] = {}" "cells (b # bs) = {fst b ..< fst b + snd b} \<union> cells bs"
  "cells (bs @ cs) = cells bs \<union> cells cs"
  by (auto simp: cells_def split: prod.splits)

lemma lseg_append:
  "lseg m cur (bs @ cs) q \<longleftrightarrow> (\<exists>r. lseg m cur bs r \<and> lseg m r cs q)"
  by (induction bs arbitrary: cur) auto

lemma lseg_functional: "lseg m cur bs q \<Longrightarrow> lseg m cur bs r \<Longrightarrow> q = r"
  by (induction bs arbitrary: cur) auto

lemma lseg_frame:
  "(\<And>p. p \<in> fst ` set bs \<Longrightarrow> m' p = m p) \<Longrightarrow> lseg m' cur bs q = lseg m cur bs q"
  by (induction bs arbitrary: cur) auto

lemma lseg_set_other [simp]:
  "p \<notin> fst ` set bs \<Longrightarrow> lseg (set_size p n m) cur bs q = lseg m cur bs q"
  "p \<notin> fst ` set bs \<Longrightarrow> lseg (set_next p r m) cur bs q = lseg m cur bs q"
  by (rule lseg_frame; auto simp: set_size_def set_next_def)+

lemma set_node_simps [simp]:
  "size_magic (set_size p n m p) = header n" "next_node (set_size p n m p) = next_node (m p)"
  "size_magic (set_next p q m p) = size_magic (m p)" "next_node (set_next p q m p) = q"
  "p \<noteq> r \<Longrightarrow> set_size p n m r = m r" "p \<noteq> r \<Longrightarrow> set_next p q m r = m r"
  by (auto simp: set_size_header set_next_def)

text \<open>The predecessor that a walk past the blocks \<open>pre\<close> carries.\<close>

definition last_of :: "blocks \<Rightarrow> nat option" where
  "last_of pre = (if pre = [] then None else Some (fst (last pre)))"

lemma last_of_snoc [simp]: "last_of (pre @ [b]) = Some (fst b)" "last_of [] = None"
  by (auto simp: last_of_def)

lemma last_of_subset: "set_option (last_of pre) \<subseteq> fst ` set pre"
  by (auto simp: last_of_def split: if_splits)

lemma set_link_frame [simp]:
  "regions (set_link prev q h) = regions h" "total_bytes (set_link prev q h) = total_bytes h"
  by (auto simp: set_link_def split: option.splits)

text \<open>Redirecting the link at the end of a segment only changes where the segment leads.\<close>

lemma lseg_set_link:
  assumes "lseg (mem h) (head h) pre q" and "distinct (map fst pre)"
  shows "lseg (mem (set_link (last_of pre) r h)) (head (set_link (last_of pre) r h)) pre r"
proof (cases pre rule: rev_cases)
  case Nil
  then show ?thesis by (simp add: set_link_def)
next
  case (snoc xs b)
  obtain p n where b: "b = (p, n)" by fastforce
  from assms snoc b show ?thesis
    by (auto simp: set_link_def lseg_append)
qed

lemma set_link_other:
  "p \<notin> set_option (last_of pre) \<Longrightarrow> mem (set_link (last_of pre) r h) p = mem h p"
  by (auto simp: set_link_def set_next_def split: option.splits)

section \<open>Blocks of a well-formed heap pass the header check\<close>

lemma region_of_unique:
  assumes "regions_inv (regions h) tot" "(s, e) \<in> set (regions h)" "s \<le> a" "a < e"
  shows "region_of h a = Some (s, e)"
proof -
  have "region_of h a \<noteq> None"
    unfolding region_of_def find_None_iff using assms(2-4) by force
  then obtain r where r: "region_of h a = Some r" by blast
  then have in_r: "r \<in> set (regions h)" "fst r \<le> a" "a < snd r"
    unfolding region_of_def by (auto simp: find_Some_iff) (metis nth_mem)
  have "r = (s, e)"
  proof (rule ccontr)
    assume "r \<noteq> (s, e)"
    then have "regions_apart r (s, e)"
      using assms(1,2) in_r(1) by (auto simp: regions_inv_def pairwise_def)
    then show False using in_r assms(3,4) by (auto simp: regions_apart_def)
  qed
  with r show ?thesis by simp
qed

lemma region_size_le:
  assumes "regions_inv rs tot" "(s, e) \<in> set rs"
  shows "e - s \<le> tot"
proof -
  have "e - s \<in> set (map (\<lambda>(s, e). e - s) rs)"
    using assms(2) by force
  from member_le_sum_list [OF this] show ?thesis
    using assms(1) by (simp add: regions_inv_def)
qed

lemma region_okD:
  assumes "regions_inv rs tot" "(s, e) \<in> set rs"
  shows "16 dvd s" "16 dvd e" "0 < s" "s < e" "e < 2 ^ 64" "e - s < 2 ^ 48"
proof -
  have "region_ok (s, e)" using assms by (auto simp: regions_inv_def list_all_iff)
  then show "16 dvd s" "16 dvd e" "0 < s" "s < e" "e < 2 ^ 64"
    by (auto simp: region_ok_def)
  have "e - s \<le> MAX_HEAP_BYTES"
    using region_size_le [OF assms] assms(1) by (simp add: regions_inv_def)
  then show "e - s < 2 ^ 48" by (simp add: MAX_HEAP_BYTES_def)
qed

lemma block_okD:
  assumes "regions_inv rs tot" "block_ok rs (p, n)"
  shows "16 dvd p" "16 dvd n" "16 \<le> n" "0 < p" "p + n < 2 ^ 64" "n < 2 ^ 48"
proof -
  obtain s e where se: "(s, e) \<in> set rs" "s \<le> p" "p + n \<le> e" and d: "16 dvd p" "16 dvd n" "0 < n"
    using assms(2) by (auto simp: block_ok_def)
  note r = region_okD [OF assms(1) se(1)]
  show "16 dvd p" "16 dvd n" by (fact d)+
  show "16 \<le> n" using d by (auto dest: dvd_imp_le)
  show "0 < p" "p + n < 2 ^ 64" "n < 2 ^ 48" using r se by linarith+
qed

lemma node_size_header: "size_magic (m p) = header n \<Longrightarrow> n < 2 ^ 48 \<Longrightarrow> node_size m p = n"
  by (simp add: node_size_def header_size)

lemma node_ok_block:
  assumes "regions_inv (regions h) tot" "block_ok (regions h) (p, n)"
    and "size_magic (mem h p) = header n"
  shows "node_ok h p" "node_size (mem h) p = n"
proof -
  note b = block_okD [OF assms(1,2)]
  show n: "node_size (mem h) p = n"
    using assms(3) b by (rule_tac node_size_header)
  obtain s e where se: "(s, e) \<in> set (regions h)" "s \<le> p" "p + n \<le> e"
    using assms(2) by (auto simp: block_ok_def)
  have "region_of h p = Some (s, e)"
    using b se by (intro region_of_unique [OF assms(1)]) linarith+
  moreover have "p + 16 \<le> e" "p + 16 \<le> u64_max" "p + n \<le> u64_max"
    using b se by (auto simp: u64_max_def)
  ultimately show "node_ok h p"
    using se b n assms(3) by (auto simp: node_ok_def checked_add64_def MIN_BLOCK_def header_magic)
qed

section \<open>Walking a well-formed list\<close>

lemma blocks_inv_append:
  "blocks_inv rs (bs @ cs) \<longleftrightarrow> blocks_inv rs bs \<and> blocks_inv rs cs \<and>
     (\<forall>b \<in> set bs. \<forall>c \<in> set cs. apart b c)"
  by (auto simp: blocks_inv_def sorted_wrt_append)

lemma blocks_inv_Cons:
  "blocks_inv rs (b # bs) \<longleftrightarrow> block_ok rs b \<and> blocks_inv rs bs \<and> (\<forall>c \<in> set bs. apart b c)"
  by (auto simp: blocks_inv_def)

lemma blocks_inv_Nil [simp]: "blocks_inv rs []"
  by (simp add: blocks_inv_def)

lemma blocks_inv_mono: "set rs \<subseteq> set rs' \<Longrightarrow> blocks_inv rs bs \<Longrightarrow> blocks_inv rs' bs"
  unfolding blocks_inv_def block_ok_def list_all_iff by blast

lemma apart_trans: "apart a b \<Longrightarrow> apart b c \<Longrightarrow> apart a c"
  by (auto simp: apart_def)

lemma blocks_inv_distinct: "blocks_inv rs bs \<Longrightarrow> distinct (map fst bs)"
  by (induction bs) (auto simp: blocks_inv_Cons apart_def)

definition first_of :: "blocks \<Rightarrow> nat option" where
  "first_of bs = (case bs of [] \<Rightarrow> None | b # _ \<Rightarrow> Some (fst b))"

lemma lseg_first: "lseg m cur bs None \<Longrightarrow> cur = first_of bs"
  by (cases bs) (auto simp: first_of_def)

lemma walk_before_lseg:
  assumes "regions_inv (regions h) tot" "blocks_inv (regions h) post"
    and "lseg (mem h) cur post None"
  shows "walk_before limit h (last_of pre) cur =
    Some (last_of (pre @ takeWhile (\<lambda>b. fst b < limit) post),
          first_of (dropWhile (\<lambda>b. fst b < limit) post), h)"
  using assms(2,3)
proof (induction post arbitrary: pre cur)
  case Nil
  then show ?case by (simp add: walk_before.simps first_of_def)
next
  case (Cons b post)
  obtain p n where b: "b = (p, n)" by fastforce
  have ok: "node_ok h p"
    using Cons.prems node_ok_block [OF assms(1), of p n] b by (auto simp: blocks_inv_Cons)
  show ?case
  proof (cases "p < limit")
    case True
    with Cons.prems ok Cons.IH [of "next_node (mem h p)" "pre @ [b]"] b show ?thesis
      by (subst walk_before.simps) (auto simp: blocks_inv_Cons)
  next
    case False
    with Cons.prems ok b show ?thesis
      by (subst walk_before.simps) (auto simp: first_of_def)
  qed
qed

lemma heap_rep_walk:
  assumes "heap_rep h bs"
  shows "walk_before limit h None (head h) =
    Some (last_of (takeWhile (\<lambda>b. fst b < limit) bs),
          first_of (dropWhile (\<lambda>b. fst b < limit) bs), h)"
  using walk_before_lseg [of h "total_bytes h" bs "head h" limit "[]"] assms
  by (simp add: heap_rep_def)

section \<open>Inserting a block\<close>

text \<open>The list that \<open>coalesce\<close> builds: join with the right neighbour, then with the left one.\<close>

definition glue_right :: "nat \<Rightarrow> nat \<Rightarrow> blocks \<Rightarrow> blocks" where
  "glue_right start n post =
     (case post of [] \<Rightarrow> [(start, n)]
      | (q, k) # rest \<Rightarrow> if q = start + n then (start, n + k) # rest else (start, n) # post)"

definition glue_left :: "blocks \<Rightarrow> blocks \<Rightarrow> blocks" where
  "glue_left pre bs =
     (if pre \<noteq> [] \<and> bs \<noteq> [] \<and> fst (last pre) + snd (last pre) = fst (hd bs)
      then butlast pre @ (fst (last pre), snd (last pre) + snd (hd bs)) # tl bs
      else pre @ bs)"

lemma block_join:
  assumes "regions_inv rs tot" "block_ok rs (p, n)" "block_ok rs (p + n, k)"
  shows "block_ok rs (p, n + k)"
proof -
  obtain s e t f where r: "(s, e) \<in> set rs" "s \<le> p" "p + n \<le> e" "(t, f) \<in> set rs" "t \<le> p + n"
    "p + n + k \<le> f"
    using assms(2,3) by (auto simp: block_ok_def)
  have "(s, e) = (t, f)"
  proof (rule ccontr)
    assume "(s, e) \<noteq> (t, f)"
    then have "regions_apart (s, e) (t, f)"
      using assms(1) r by (auto simp: regions_inv_def pairwise_def)
    then show False using r assms(3) by (auto simp: regions_apart_def block_ok_def)
  qed
  with r assms(2,3) show ?thesis
    by (auto simp: block_ok_def intro!: bexI [of _ "(t, f)"])
qed

lemma glue_right_inv:
  assumes "regions_inv rs tot" "blocks_inv rs post" "block_ok rs (start, n)"
    and "\<forall>b \<in> set post. start + n \<le> fst b"
  shows "blocks_inv rs (glue_right start n post)"
proof (cases post)
  case Nil
  then show ?thesis using assms by (simp add: glue_right_def blocks_inv_Cons)
next
  case (Cons b rest)
  obtain q k where b: "b = (q, k)" by fastforce
  show ?thesis
  proof (cases "q = start + n")
    case True
    then show ?thesis
      using assms Cons b block_join [OF assms(1,3), of k]
      by (auto simp: glue_right_def blocks_inv_Cons apart_def)
  next
    case False
    then have "start + n < q" using assms(4) Cons b by auto
    then show ?thesis
      using assms Cons b False by (auto simp: glue_right_def blocks_inv_Cons apart_def)
  qed
qed

lemma glue_left_inv:
  assumes "regions_inv rs tot" "blocks_inv rs pre" "blocks_inv rs (b # rest)"
    and "\<forall>c \<in> set pre. fst c + snd c \<le> fst b"
  shows "blocks_inv rs (glue_left pre (b # rest))"
proof (cases pre rule: rev_cases)
  case Nil
  then show ?thesis using assms by (simp add: glue_left_def)
next
  case (snoc xs c)
  obtain p n q k where b: "c = (p, n)" "b = (q, k)" by fastforce
  have inv: "blocks_inv rs xs" "block_ok rs (p, n)" "\<forall>x \<in> set xs. apart x (p, n)"
    "block_ok rs (q, k)" "blocks_inv rs rest" "\<forall>x \<in> set rest. apart (q, k) x"
    using assms snoc b by (auto simp: blocks_inv_append blocks_inv_Cons)
  have pq: "p + n \<le> q" using assms(4) snoc b by simp
  have far: "\<forall>x \<in> set xs. \<forall>y \<in> set rest. apart x y"
  proof (intro ballI)
    fix x y assume "x \<in> set xs" "y \<in> set rest"
    then have "apart x (p, n)" "apart (q, k) y" using inv by auto
    then show "apart x y" using pq by (simp add: apart_def)
  qed
  show ?thesis
  proof (cases "p + n = q")
    case True
    then show ?thesis
      using inv far snoc b block_join [OF assms(1) inv(2), of k]
      by (auto simp: glue_left_def blocks_inv_append blocks_inv_Cons apart_def)
  next
    case False
    then have "p + n < q" using pq by simp
    moreover have "\<forall>x \<in> set xs. apart x (q, k)"
      using inv(3) pq by (fastforce simp: apart_def)
    moreover have "\<forall>y \<in> set rest. apart (p, n) y"
      using inv(6) pq by (fastforce simp: apart_def)
    ultimately show ?thesis
      using inv far snoc b False
      by (auto simp: glue_left_def blocks_inv_append blocks_inv_Cons apart_def)
  qed
qed

lemma glue_right_Cons: "\<exists>k rest. glue_right start n post = (start, k) # rest"
  by (auto simp: glue_right_def split: list.splits prod.splits)

lemma cells_glue_right: "cells (glue_right start n post) = {start ..< start + n} \<union> cells post"
  by (auto simp: glue_right_def split: list.splits prod.splits)

lemma cells_glue_left: "cells (glue_left pre bs) = cells pre \<union> cells bs"
proof (cases pre rule: rev_cases)
  case (snoc xs c)
  then show ?thesis
    by (cases bs) (auto simp: glue_left_def)
qed (simp add: glue_left_def)

lemma coalesce_frame [simp]:
  "regions (coalesce add s e prev cur h) = regions h"
  "total_bytes (coalesce add s e prev cur h) = total_bytes h"
  by (auto simp: coalesce_def Let_def split: option.splits)

text \<open>Linking a new node between \<open>pre\<close> and what follows.\<close>

lemma link_new_lseg:
  assumes pre: "lseg (mem h) (head h) pre mid" and post: "lseg (mem h) q post None"
    and d: "distinct (map fst pre)" "start \<notin> fst ` set pre" "start \<notin> fst ` set post"
    and dj: "fst ` set pre \<inter> fst ` set post = {}"
    and h2: "h2 = set_link (last_of pre) (Some start)
               (h\<lparr>mem := set_next start q (set_size start n (mem h))\<rparr>)"
  shows "lseg (mem h2) (head h2) (pre @ (start, n) # post) None"
proof -
  let ?h1 = "h\<lparr>mem := set_next start q (set_size start n (mem h))\<rparr>"
  have "lseg (mem ?h1) (head ?h1) pre mid"
    using pre d by simp
  from lseg_set_link [OF this d(1), of "Some start"]
  have "lseg (mem h2) (head h2) pre (Some start)" by (simp add: h2)
  moreover note last = last_of_subset [of pre]
  then have "start \<notin> set_option (last_of pre)" using d by blast
  then have "mem h2 start = mem ?h1 start"
    unfolding h2 by (rule set_link_other)
  moreover have "lseg (mem h2) q post None"
  proof -
    have "mem h2 a = mem ?h1 a" if "a \<in> fst ` set post" for a
    proof -
      have "a \<notin> set_option (last_of pre)" using last dj that by blast
      then show ?thesis unfolding h2 by (rule set_link_other)
    qed
    then have "lseg (mem h2) q post None = lseg (mem ?h1) q post None"
      by (rule lseg_frame)
    then show ?thesis using post d by simp
  qed
  ultimately show ?thesis by (auto simp: lseg_append)
qed

text \<open>Growing the last block of \<open>pre\<close> in place.\<close>

lemma grow_last_lseg:
  assumes pre: "lseg (mem h) (head h) (xs @ [(p, k)]) mid" and post: "lseg (mem h) q post None"
    and d: "distinct (map fst (xs @ [(p, k)]))"
    and dj: "fst ` set (xs @ [(p, k)]) \<inter> fst ` set post = {}"
    and m': "m' = set_next p q (set_size p n (mem h))"
  shows "lseg m' (head h) (xs @ (p, n) # post) None"
  using assms by (auto simp: lseg_append)

lemma set_next_idle: "next_node (m p) = q \<Longrightarrow> set_next p q m = m"
  by (auto simp: set_next_def)

lemma coalesce_lseg:
  assumes l: "lseg (mem h) (head h) (pre @ post) None"
    and d: "distinct (map fst (pre @ post))" "start \<notin> fst ` set (pre @ post)"
    and sz: "\<forall>(p, n) \<in> set (pre @ post). node_size (mem h) p = n \<and> add p n = p + n"
    and n: "0 < n" "\<forall>b \<in> set pre. fst b + snd b \<le> start"
    and h': "h' = coalesce add start (start + n) (last_of pre) (first_of post) h"
  shows "lseg (mem h') (head h') (glue_left pre (glue_right start n post)) None"
proof -
  obtain mid where pre: "lseg (mem h) (head h) pre mid" and post: "lseg (mem h) mid post None"
    using l by (auto simp: lseg_append)
  have mid: "mid = first_of post" using post by (rule lseg_first)
  define merge where "merge \<longleftrightarrow> post \<noteq> [] \<and> fst (hd post) = start + n"
  define rest where "rest = (if merge then tl post else post)"
  define k where "k = (if merge then n + snd (hd post) else n)"
  define q where "q = (if merge then next_node (mem h (start + n)) else mid)"
  have gr: "glue_right start n post = (start, k) # rest"
    by (cases post) (auto simp: glue_right_def merge_def rest_def k_def)
  have rest: "lseg (mem h) q rest None"
    using post by (cases post) (auto simp: merge_def rest_def q_def)
  have sub: "set rest \<subseteq> set post"
    by (cases post) (auto simp: rest_def)
  have mr: "(case first_of post of None \<Rightarrow> False | Some p \<Rightarrow> p = start + n) = merge"
    by (auto simp: first_of_def merge_def split: list.splits)
  have rn: "(if merge then (case first_of post of None \<Rightarrow> None
      | Some p \<Rightarrow> if p = start + n then next_node (mem h p) else None) else first_of post) = q"
    by (auto simp: first_of_def merge_def q_def mid split: list.splits)
  have me: "(case first_of post of None \<Rightarrow> start + n
      | Some p \<Rightarrow> if p = start + n then add (start + n) (node_size (mem h) p) else start + n) = start + k"
    using sz by (cases post) (auto simp: first_of_def merge_def k_def)
  have dj: "distinct (map fst pre)" "fst ` set pre \<inter> fst ` set rest = {}"
    "start \<notin> fst ` set pre" "start \<notin> fst ` set rest"
    using d sub by auto
  let ?new = "set_link (last_of pre) (Some start)
    (h\<lparr>mem := set_next start q (set_size start k (mem h))\<rparr>)"
  note new = link_new_lseg [OF pre rest dj(1,3,4,2) refl, of k]
  have rn': "merge \<Longrightarrow> (case first_of post of None \<Rightarrow> None
      | Some p \<Rightarrow> if p = start + n then next_node (mem h p) else None) = q"
    using rn by simp
  have unf: "h' = (case last_of pre of None \<Rightarrow> ?new
     | Some p \<Rightarrow>
         if add p (node_size (mem h) p) = start
         then h\<lparr>mem := (if merge then set_next p q else id) (set_size p (start + k - p) (mem h))\<rparr>
         else ?new)"
    unfolding h' coalesce_def Let_def mr me rn using rn' by (auto split: option.splits)
  show ?thesis
  proof (cases pre rule: rev_cases)
    case Nil
    have "h' = ?new"
      using Nil unf by simp
    then show ?thesis using new Nil gr by (simp add: glue_left_def)
  next
    case (snoc xs b)
    obtain p j where b: "b = (p, j)" by fastforce
    have pj: "node_size (mem h) p = j" "add p j = p + j" using sz snoc b by auto
    show ?thesis
    proof (cases "p + j = start")
      case False
      then have "h' = ?new"
        using snoc b pj unf by simp
      then show ?thesis using new snoc b gr False by (simp add: glue_left_def)
    next
      case True
      have nx: "next_node (mem h p) = mid" using pre snoc b by (auto simp: lseg_append)
      have "set_next p q (set_size p (j + k) (mem h)) = set_size p (j + k) (mem h)" if "\<not> merge"
        using nx that by (intro set_next_idle) (simp add: q_def)
      moreover have "start + k - p = j + k" using True by simp
      ultimately have "mem h' = set_next p q (set_size p (j + k) (mem h)) \<and> head h' = head h"
        using snoc b pj True unf by (cases merge) simp_all
      moreover have "lseg (set_next p q (set_size p (j + k) (mem h))) (head h)
          (xs @ (p, j + k) # rest) None"
        using pre rest dj snoc b by (intro grow_last_lseg [OF _ _ _ _ refl]) auto
      ultimately show ?thesis using snoc b gr True by (simp add: glue_left_def)
    qed
  qed
qed

section \<open>What insertion and release do to the block list\<close>

definition release_blocks :: "nat \<Rightarrow> nat \<Rightarrow> blocks \<Rightarrow> blocks" where
  "release_blocks start n bs =
     glue_left (takeWhile (\<lambda>b. fst b < start) bs)
       (glue_right start n (dropWhile (\<lambda>b. fst b < start) bs))"

lemma cells_release_blocks: "cells (release_blocks start n bs) = cells bs \<union> {start ..< start + n}"
proof -
  have "cells bs = cells (takeWhile (\<lambda>b. fst b < start) bs) \<union> cells (dropWhile (\<lambda>b. fst b < start) bs)"
    by (metis cells_simps(3) takeWhile_dropWhile_id)
  then show ?thesis
    unfolding release_blocks_def cells_glue_left cells_glue_right by blast
qed

text \<open>A block that overlaps no free block splits the sorted list at its address.\<close>

lemma split_around:
  assumes inv: "blocks_inv rs bs" and n: "0 < n"
    and free: "{start ..< start + n} \<inter> cells bs = {}"
  shows "\<forall>b \<in> set (takeWhile (\<lambda>b. fst b < start) bs). fst b + snd b \<le> start"
    "\<forall>b \<in> set (dropWhile (\<lambda>b. fst b < start) bs). start + n \<le> fst b"
    "start \<notin> fst ` set bs"
proof -
  have disj: "fst b + snd b \<le> start \<or> start + n \<le> fst b" if b: "b \<in> set bs" for b
  proof (rule ccontr)
    have pos: "0 < snd b" using inv b by (auto simp: blocks_inv_def list_all_iff block_ok_def)
    assume "\<not> ?thesis"
    then have "max start (fst b) \<in> {start ..< start + n} \<inter> {fst b ..< fst b + snd b}"
      using n pos by auto
    moreover have "{fst b ..< fst b + snd b} \<subseteq> cells bs"
      using b by (force simp: cells_def)
    ultimately show False using free by blast
  qed
  have pos: "0 < snd b" if "b \<in> set bs" for b
    using inv that by (auto simp: blocks_inv_def list_all_iff block_ok_def)
  show "\<forall>b \<in> set (takeWhile (\<lambda>b. fst b < start) bs). fst b + snd b \<le> start"
    using disj by (fastforce dest: set_takeWhileD)
  have "start \<le> fst b" if "b \<in> set (dropWhile (\<lambda>b. fst b < start) bs)" for b
  proof -
    have "sorted_wrt apart (dropWhile (\<lambda>b. fst b < start) bs)"
      using inv by (metis blocks_inv_append blocks_inv_def takeWhile_dropWhile_id)
    with that show ?thesis
    proof (cases "dropWhile (\<lambda>b. fst b < start) bs")
      case (Cons c cs)
      then have "\<not> fst c < start" by (metis hd_dropWhile list.distinct(1) list.sel(1))
      with Cons that \<open>sorted_wrt apart _\<close> show ?thesis by (auto simp: apart_def)
    qed simp
  qed
  then show "\<forall>b \<in> set (dropWhile (\<lambda>b. fst b < start) bs). start + n \<le> fst b"
    using disj pos by (meson dual_order.trans leD le_add1 less_add_same_cancel1 not_le order_less_le_trans set_dropWhileD)
  show "start \<notin> fst ` set bs"
    using disj pos n by fastforce
qed

lemma coalesce_rep:
  assumes rep: "heap_rep h bs" and blk: "block_ok (regions h) (start, n)"
    and free: "{start ..< start + n} \<inter> cells bs = {}"
    and add: "\<And>a b. a + b < 2 ^ 64 \<Longrightarrow> add a b = a + b"
  shows "heap_rep (coalesce add start (start + n) (last_of (takeWhile (\<lambda>b. fst b < start) bs))
            (first_of (dropWhile (\<lambda>b. fst b < start) bs)) h) (release_blocks start n bs)"
    (is "heap_rep (coalesce _ _ _ (last_of ?pre) (first_of ?post) _) _")
proof -
  have r: "regions_inv (regions h) (total_bytes h)" "blocks_inv (regions h) (?pre @ ?post)"
    "lseg (mem h) (head h) (?pre @ ?post) None" "blocks_inv (regions h) bs"
    using rep by (auto simp: heap_rep_def)
  have pp: "blocks_inv (regions h) ?pre" "blocks_inv (regions h) ?post"
    using r(2) by (simp_all only: blocks_inv_append)
  have n: "0 < n" using blk by (auto simp: block_ok_def)
  note sp = split_around [OF r(4) n free]
  have sz: "node_size (mem h) p = k \<and> add p k = p + k" if pk: "(p, k) \<in> set (?pre @ ?post)" for p k
  proof -
    have "block_ok (regions h) (p, k)" using r(2) that by (auto simp: blocks_inv_def list_all_iff)
    moreover have "size_magic (mem h p) = header k"
    proof -
      obtain xs ys where "?pre @ ?post = xs @ (p, k) # ys" using split_list [OF pk] by blast
      with r(3) show ?thesis by (auto simp: lseg_append)
    qed
    ultimately show ?thesis
      using node_ok_block(2) [OF r(1)] block_okD(5) [OF r(1)] add by blast
  qed
  have "lseg (mem (coalesce add start (start + n) (last_of ?pre) (first_of ?post) h))
      (head (coalesce add start (start + n) (last_of ?pre) (first_of ?post) h))
      (release_blocks start n bs) None"
    unfolding release_blocks_def
    using r blocks_inv_distinct [OF r(2)] sp n sz by (intro coalesce_lseg [OF _ _ _ _ _ _ refl]) auto
  moreover have "blocks_inv (regions h) (release_blocks start n bs)"
  proof -
    obtain k rest where g: "glue_right start n ?post = (start, k) # rest"
      using glue_right_Cons by blast
    have "blocks_inv (regions h) (glue_right start n ?post)"
      using pp sp by (intro glue_right_inv [OF r(1) _ blk]) auto
    with pp sp g show ?thesis
      unfolding release_blocks_def g by (intro glue_left_inv [OF r(1)]) auto
  qed
  ultimately show ?thesis using r(1) by (simp add: heap_rep_def)
qed

lemma takeWhile_before:
  assumes "blocks_inv rs bs" "0 < n" "{start ..< start + n} \<inter> cells bs = {}"
  shows "takeWhile (\<lambda>b. fst b < start + n) bs = takeWhile (\<lambda>b. fst b < start) bs"
    "dropWhile (\<lambda>b. fst b < start + n) bs = dropWhile (\<lambda>b. fst b < start) bs"
proof -
  note sp = split_around [OF assms]
  have "fst b < start + n \<longleftrightarrow> fst b < start" if "b \<in> set bs" for b
  proof -
    from that have "b \<in> set (takeWhile (\<lambda>b. fst b < start) bs) \<or> b \<in> set (dropWhile (\<lambda>b. fst b < start) bs)"
      by (metis Un_iff set_append takeWhile_dropWhile_id)
    then show ?thesis using sp by (auto dest: set_takeWhileD)
  qed
  then show "takeWhile (\<lambda>b. fst b < start + n) bs = takeWhile (\<lambda>b. fst b < start) bs"
    "dropWhile (\<lambda>b. fst b < start + n) bs = dropWhile (\<lambda>b. fst b < start) bs"
    by (auto cong: takeWhile_cong dropWhile_cong)
qed

lemma insert_block_rep:
  assumes rep: "heap_rep h bs" and blk: "block_ok (regions h) (start, n)"
    and free: "{start ..< start + n} \<inter> cells bs = {}"
  shows "\<exists>h'. insert_block start n h = Some h' \<and> heap_rep h' (release_blocks start n bs) \<and>
    regions h' = regions h \<and> total_bytes h' = total_bytes h"
  using heap_rep_walk [OF rep, of start] coalesce_rep [OF assms, of "(+)"]
  by (simp add: insert_block_def)

lemma deallocate_rep:
  assumes rep: "heap_rep h bs" and n: "n = align_up (max sz 1) 16"
    and blk: "block_ok (regions h) (start, n)"
    and free: "{start ..< start + n} \<inter> cells bs = {}"
  shows "\<exists>h'. deallocate start sz h = Some h' \<and> heap_rep h' (release_blocks start n bs) \<and>
    regions h' = regions h \<and> total_bytes h' = total_bytes h"
proof -
  have r: "regions_inv (regions h) (total_bytes h)" "blocks_inv (regions h) bs"
    using rep by (auto simp: heap_rep_def)
  obtain s e where se: "(s, e) \<in> set (regions h)" "s \<le> start" "start + n \<le> e"
    using blk by (auto simp: block_ok_def)
  note b = block_okD [OF r(1) blk]
  have "region_of h start = Some (s, e)"
    using se b by (intro region_of_unique [OF r(1)]) auto
  moreover have "checked_add64 start n = Some (start + n)"
    using b by (simp add: checked_add64_def u64_max_def)
  ultimately have "deallocate start sz h =
      Some (coalesce saturating_add64 start (start + n)
        (last_of (takeWhile (\<lambda>b. fst b < start) bs)) (first_of (dropWhile (\<lambda>b. fst b < start) bs)) h)"
    using heap_rep_walk [OF rep, of "start + n"] takeWhile_before [OF r(2) _ free] b se
    unfolding deallocate_def ALIGN_GRANULE_def Let_def n [symmetric] by simp
  moreover have "a + c < 2 ^ 64 \<Longrightarrow> saturating_add64 a c = a + c" for a c
    by (simp add: saturating_add64_def u64_max_def)
  ultimately show ?thesis
    using coalesce_rep [OF rep blk free, of saturating_add64] by simp
qed

section \<open>What allocation does to the block list\<close>

text \<open>The pieces of \<open>(p, n)\<close> that stay free when \<open>[a, a + sz)\<close> is cut out of it.\<close>

definition pieces :: "nat \<Rightarrow> nat \<Rightarrow> nat \<Rightarrow> nat \<Rightarrow> blocks" where
  "pieces p n a sz =
     (if p < a then [(p, a - p)] else []) @
     (if a + sz < p + n then [(a + sz, p + n - (a + sz))] else [])"

fun alloc_blocks :: "nat \<Rightarrow> nat \<Rightarrow> blocks \<Rightarrow> (nat \<times> blocks) option" where
  "alloc_blocks sz align [] = None"
| "alloc_blocks sz align ((p, n) # bs) =
     (if align_up p align + sz \<le> p + n
      then Some (align_up p align, pieces p n (align_up p align) sz @ bs)
      else map_option (\<lambda>(a, bs'). (a, (p, n) # bs')) (alloc_blocks sz align bs))"

lemma carve_lseg:
  assumes pre: "lseg (mem h) (head h) pre (Some p)" and hd: "size_magic (mem h p) = header n"
    and post: "lseg (mem h) (next_node (mem h p)) post None"
    and d: "distinct (map fst (pre @ (p, n) # post))"
    and n: "n < 2 ^ 48" "p \<le> a" "a + sz \<le> p + n" "0 < sz"
    and dv: "16 dvd p" "16 dvd n" "16 dvd a" "16 dvd sz"
    and far: "\<forall>b \<in> set (pre @ post). fst b \<notin> {p ..< p + n}"
    and h': "h' = carve (last_of pre) p a (a + sz) h"
  shows "lseg (mem h') (head h') (pre @ pieces p n a sz @ post) None"
proof -
  have sz: "node_size (mem h) p = n" using hd n by (intro node_size_header)
  have sfx: "(p + n - (a + sz) \<ge> MIN_BLOCK) = (a + sz < p + n)"
  proof -
    have "16 dvd p + n - (a + sz)" using dv by (intro dvd_diff_nat) auto
    then show ?thesis unfolding MIN_BLOCK_def by (auto dest: dvd_imp_le)
  qed
  have pfx: "(a - p \<ge> MIN_BLOCK) = (p < a)"
  proof -
    have "16 dvd a - p" using dv by (intro dvd_diff_nat) auto
    then show ?thesis unfolding MIN_BLOCK_def by (auto dest: dvd_imp_le)
  qed
  let ?t = "p + n - (a + sz)"
  define h1 where "h1 = (if a + sz < p + n
    then h\<lparr>mem := set_next (a + sz) (next_node (mem h p)) (set_size (a + sz) ?t (mem h))\<rparr> else h)"
  define right where "right = (if a + sz < p + n then Some (a + sz) else next_node (mem h p))"
  define tail where "tail = (if a + sz < p + n then [(a + sz, ?t)] else []) @ post"
  have "a + sz < p + n \<Longrightarrow> a + sz \<notin> fst ` set (pre @ post)"
    using far n by (metis atLeastLessThan_iff imageE le_add1 le_trans)
  then have notin: "a + sz < p + n \<Longrightarrow> a + sz \<notin> fst ` set pre"
    "a + sz < p + n \<Longrightarrow> a + sz \<notin> fst ` set post"
    by auto
  have tail: "lseg (mem h1) right tail None"
    using post notin by (auto simp: h1_def right_def tail_def)
  have pre1: "lseg (mem h1) (head h1) pre (Some p)"
    using pre notin by (auto simp: h1_def)
  have dj: "distinct (map fst pre)" "p \<notin> fst ` set pre" "p \<notin> fst ` set tail"
    "fst ` set pre \<inter> fst ` set tail = {}"
  proof -
    have "fst ` set tail =
      (if a + sz < p + n then insert (a + sz) (fst ` set post) else fst ` set post)"
      by (simp add: tail_def)
    with d notin n show "distinct (map fst pre)" "p \<notin> fst ` set pre" "p \<notin> fst ` set tail"
      "fst ` set pre \<inter> fst ` set tail = {}"
      by auto
  qed
  have c: "h' = (if p < a then h1\<lparr>mem := set_next p right (set_size p (a - p) (mem h1))\<rparr>
                 else set_link (last_of pre) right h1)"
    unfolding h' carve_def Let_def sz sfx pfx h1_def right_def by simp
  show ?thesis
  proof (cases "p < a")
    case True
    have "lseg (mem h') (head h') (pre @ (p, a - p) # tail) None"
      using pre1 tail dj True unfolding c by (auto simp: lseg_append)
    then show ?thesis using True by (simp add: pieces_def tail_def)
  next
    case False
    have "lseg (mem h') (head h') pre right"
      using lseg_set_link [OF pre1 dj(1)] False c by simp
    moreover have "lseg (mem h') right tail None = lseg (mem h1) right tail None"
    proof (rule lseg_frame)
      fix x assume "x \<in> fst ` set tail"
      then have "x \<notin> set_option (last_of pre)"
        using dj last_of_subset [of pre] by blast
      then show "mem h' x = mem h1 x"
        using False c by (simp add: set_link_other)
    qed
    ultimately show ?thesis
      using tail False by (auto simp: lseg_append pieces_def tail_def)
  qed
qed

lemma block_ok_sub:
  assumes "block_ok rs (p, n)" "p \<le> a" "a + k \<le> p + n" "16 dvd a" "16 dvd k" "0 < k"
  shows "block_ok rs (a, k)"
proof -
  obtain s e where "(s, e) \<in> set rs" "s \<le> p" "p + n \<le> e" using assms(1) by (auto simp: block_ok_def)
  then show ?thesis
    using assms by (auto simp: block_ok_def intro!: bexI [of _ "(s, e)"])
qed

text \<open>An alignment of the form \<open>2 ^ k\<close> that leaves room above every region.\<close>

definition align_room :: "(nat \<times> nat) list \<Rightarrow> nat \<Rightarrow> bool" where
  "align_room rs align \<longleftrightarrow> (\<exists>k \<ge> 4. align = 2 ^ k) \<and> (\<forall>(s, e) \<in> set rs. e + align \<le> 2 ^ 64)"

lemma align_room_block:
  assumes "align_room rs align" "block_ok rs (p, n)"
  shows "p \<le> align_up p align" "align dvd align_up p align" "16 dvd align_up p align"
    "\<And>a. p \<le> a \<Longrightarrow> align dvd a \<Longrightarrow> align_up p align \<le> a"
proof -
  obtain k where k: "4 \<le> k" "align = 2 ^ k" using assms(1) by (auto simp: align_room_def)
  obtain s e where "(s, e) \<in> set rs" "p + n \<le> e" using assms(2) by (auto simp: block_ok_def)
  then have "p + align \<le> 2 ^ 64" using assms(1) by (auto simp: align_room_def)
  note b = align_up_bounds [OF this [unfolded k]]
  show "p \<le> align_up p align" "align dvd align_up p align" using b k by auto
  have "(2 ^ 4 :: nat) dvd 2 ^ k" using k by (rule_tac le_imp_power_dvd)
  then show "16 dvd align_up p align" using b(3) k by (auto intro: dvd_trans)
  fix a assume "p \<le> a" "align dvd a"
  show "align_up p align \<le> a"
  proof (rule ccontr)
    assume "\<not> ?thesis"
    then have "a < align_up p align" "align_up p align < a + align" using b k \<open>p \<le> a\<close> by auto
    moreover obtain x y where "a = align * x" "align_up p align = align * y"
      using \<open>align dvd a\<close> b(3) k by (auto elim!: dvdE)
    ultimately have "align * x < align * y" "align * y < align * (x + 1)" by auto
    then show False
      using nat_mult_less_cancel_disj [of align x y] nat_mult_less_cancel_disj [of align y "x + 1"]
      by linarith
  qed
qed

lemma pieces_inv:
  assumes "block_ok rs (p, n)" "p \<le> a" "a + sz \<le> p + n" "16 dvd a" "16 dvd sz" "0 < sz"
  shows "blocks_inv rs (pieces p n a sz)" "cells (pieces p n a sz) = {p ..< p + n} - {a ..< a + sz}"
    "\<And>b. b \<in> set (pieces p n a sz) \<Longrightarrow> p \<le> fst b \<and> fst b + snd b \<le> p + n"
proof -
  have d: "16 dvd p" "16 dvd n" using assms(1) by (auto simp: block_ok_def)
  have "block_ok rs (p, a - p)" if "p < a"
    using that d assms by (intro block_ok_sub [OF assms(1)]) (auto intro: dvd_diff_nat)
  moreover have "block_ok rs (a + sz, p + n - (a + sz))" if "a + sz < p + n"
    using that d assms by (intro block_ok_sub [OF assms(1)]) (auto intro!: dvd_diff_nat)
  ultimately show "blocks_inv rs (pieces p n a sz)"
    using assms by (auto simp: pieces_def blocks_inv_def apart_def)
  show "cells (pieces p n a sz) = {p ..< p + n} - {a ..< a + sz}"
    using assms by (auto simp: pieces_def)
  show "p \<le> fst b \<and> fst b + snd b \<le> p + n" if "b \<in> set (pieces p n a sz)" for b
    using that assms by (auto simp: pieces_def split: if_splits)
qed

lemma cells_after:
  assumes "\<forall>c \<in> set bs. apart (p, n) c"
  shows "{p ..< p + n} \<inter> cells bs = {}" "p + n \<notin> cells bs"
  using assms by (force simp: cells_def apart_def)+

lemma alloc_blocks_cases:
  assumes "alloc_blocks sz align bs = r" "blocks_inv rs bs" "align_room rs align" "16 dvd sz" "0 < sz"
  shows "case r of
      None \<Rightarrow> \<forall>a. align dvd a \<longrightarrow> \<not> {a ..< a + sz} \<subseteq> cells bs
    | Some (a, bs') \<Rightarrow> blocks_inv rs bs' \<and> align dvd a \<and> block_ok rs (a, sz) \<and>
        {a ..< a + sz} \<subseteq> cells bs \<and> cells bs' = cells bs - {a ..< a + sz} \<and>
        (\<forall>q. (\<forall>b \<in> set bs. q \<le> fst b) \<longrightarrow> (\<forall>b \<in> set bs'. q \<le> fst b)) \<and>
        (\<forall>a'. align dvd a' \<and> {a' ..< a' + sz} \<subseteq> cells bs \<longrightarrow> a \<le> a')"
  using assms
proof (induction bs arbitrary: r)
  case Nil
  then show ?case by auto
next
  case (Cons b bs)
  obtain p n where b: "b = (p, n)" by fastforce
  let ?a = "align_up p align"
  have inv: "block_ok rs (p, n)" "blocks_inv rs bs" "\<forall>c \<in> set bs. apart (p, n) c"
    using Cons.prems b by (auto simp: blocks_inv_Cons)
  note al = align_room_block [OF Cons.prems(3) inv(1)]
  note after = cells_after [OF inv(3)]
  have fit: "?a \<le> a' \<and> (a' + sz \<le> p + n \<or> {a' ..< a' + sz} \<subseteq> cells bs)"
    if a': "align dvd a'" "{a' ..< a' + sz} \<subseteq> cells (b # bs)" for a'
  proof -
    have "a' \<in> cells (b # bs)" using Cons.prems(5) by (intro subsetD [OF a'(2)]) simp
    then have "p \<le> a'" using b inv(3) by (force simp: cells_def apart_def)
    moreover have "a' + sz \<le> p + n \<or> {a' ..< a' + sz} \<subseteq> cells bs"
    proof (cases "a' < p + n")
      case True
      show ?thesis
      proof (rule ccontr)
        assume "\<not> ?thesis"
        then have "p + n \<in> {a' ..< a' + sz}" using True by auto
        then show False using a'(2) after(2) b by auto
      qed
    next
      case False
      then show ?thesis using a'(2) b by auto
    qed
    ultimately show ?thesis using al(4) a'(1) by blast
  qed
  show ?case
  proof (cases "?a + sz \<le> p + n")
    case True
    note pc = pieces_inv [OF inv(1) al(1) True al(3) Cons.prems(4,5)]
    have r: "r = Some (?a, pieces p n ?a sz @ bs)" using Cons.prems(1) b True by simp
    have "apart x y" if "x \<in> set (pieces p n ?a sz)" "y \<in> set bs" for x y
      using pc(3) [OF that(1)] that(2) inv(3) by (auto simp: apart_def)
    then have "blocks_inv rs (pieces p n ?a sz @ bs)"
      using pc(1) inv by (simp add: blocks_inv_append)
    moreover have "block_ok rs (?a, sz)"
      using al True Cons.prems by (intro block_ok_sub [OF inv(1)]) auto
    moreover have "{?a ..< ?a + sz} \<subseteq> {p ..< p + n}" using al(1) True by simp
    then have "cells (pieces p n ?a sz @ bs) = cells (b # bs) - {?a ..< ?a + sz}"
      unfolding cells_simps pc(2) b fst_conv snd_conv using after(1) by blast
    moreover have "{?a ..< ?a + sz} \<subseteq> cells (b # bs)" using al True b by auto
    ultimately show ?thesis using r al fit pc(3) b by (auto intro: le_trans)
  next
    case False
    obtain r' where r': "alloc_blocks sz align bs = r'" by simp
    note IH = Cons.IH [OF r' inv(2) Cons.prems(3-5)]
    have nf: "{a' ..< a' + sz} \<subseteq> cells bs" if "align dvd a'" "{a' ..< a' + sz} \<subseteq> cells (b # bs)" for a'
      using fit [OF that] False by auto
    show ?thesis
    proof (cases r')
      case None
      then show ?thesis using IH nf Cons.prems(1) r' False b by auto
    next
      case (Some ab)
      obtain a bs' where ab: "ab = (a, bs')" by fastforce
      have IH': "blocks_inv rs bs'" "align dvd a" "block_ok rs (a, sz)" "{a ..< a + sz} \<subseteq> cells bs"
        "cells bs' = cells bs - {a ..< a + sz}"
        "\<And>q. (\<forall>b \<in> set bs. q \<le> fst b) \<Longrightarrow> (\<forall>b \<in> set bs'. q \<le> fst b)"
        "\<And>a'. align dvd a' \<Longrightarrow> {a' ..< a' + sz} \<subseteq> cells bs \<Longrightarrow> a \<le> a'"
        using IH Some ab by auto
      have r: "r = Some (a, (p, n) # bs')" using Cons.prems(1) r' False b Some ab by simp
      have "\<forall>c \<in> set bs. Suc (p + n) \<le> fst c" using inv(3) by (auto simp: apart_def)
      from IH'(6) [OF this] have "\<forall>c \<in> set bs'. apart (p, n) c" by (auto simp: apart_def)
      then have "blocks_inv rs ((p, n) # bs')" using IH' inv by (auto simp: blocks_inv_Cons)
      moreover have "cells ((p, n) # bs') = cells (b # bs) - {a ..< a + sz}"
        using IH'(4,5) after b by auto
      ultimately show ?thesis using r IH' nf b by auto
    qed
  qed
qed

lemma alloc_blocks_beyond:
  assumes "blocks_inv rs bs" "regions_inv rs tot" "align_room rs align"
    and "\<forall>b \<in> set bs. q \<le> fst b" "\<not> align_up q align + sz < 2 ^ 64" "align_room rs align"
    and "block_ok rs (q, k)"
  shows "alloc_blocks sz align bs = None"
  using assms(1,4)
proof (induction bs)
  case (Cons b bs)
  obtain p n where b: "b = (p, n)" by fastforce
  have ok: "block_ok rs (p, n)" using Cons.prems b by (simp add: blocks_inv_Cons)
  have "q \<le> p" using Cons.prems b by simp
  then have "align_up q align \<le> align_up p align"
    using align_room_block(1,2) [OF assms(3) ok]
    by (intro align_room_block(4) [OF assms(3,7)]) (erule le_trans)
  then have "\<not> align_up p align + sz \<le> p + n"
    using block_okD(5) [OF assms(2) ok] assms(5) by linarith
  then show ?case using Cons b by (simp add: blocks_inv_Cons)
qed simp

lemma alloc_walk_rep:
  assumes "heap_rep h (pre @ post)" "lseg (mem h) (head h) pre cur" "align_room (regions h) align"
    and "16 dvd sz" "0 < sz"
  shows "\<exists>r h'. alloc_walk sz align h (last_of pre) cur = Some (r, h') \<and>
    regions h' = regions h \<and> total_bytes h' = total_bytes h \<and>
    (case alloc_blocks sz align post of
       None \<Rightarrow> r = None \<and> h' = h
     | Some (a, post') \<Rightarrow> r = Some a \<and> lseg (mem h') (head h') (pre @ post') None)"
  using assms(1,2)
proof (induction post arbitrary: pre cur)
  case Nil
  then have "cur = None" using lseg_functional by (fastforce simp: heap_rep_def)
  then show ?case by (simp add: alloc_walk.simps)
next
  case (Cons b post)
  obtain p n where b: "b = (p, n)" by fastforce
  have inv: "regions_inv (regions h) (total_bytes h)" "block_ok (regions h) (p, n)"
    "blocks_inv (regions h) post" "\<forall>c \<in> set post. apart b c" "\<forall>c \<in> set pre. apart c b"
    and l: "lseg (mem h) (head h) (pre @ b # post) None"
    using Cons.prems(1) b by (auto simp: heap_rep_def blocks_inv_append blocks_inv_Cons)
  have d: "distinct (map fst (pre @ b # post))"
    using Cons.prems(1) by (intro blocks_inv_distinct) (auto simp: heap_rep_def)
  have cur: "cur = Some p" "size_magic (mem h p) = header n"
    "lseg (mem h) (next_node (mem h p)) post None"
    using l Cons.prems(2) b lseg_functional by (fastforce simp: lseg_append)+
  have ok: "node_ok h p" "node_size (mem h) p = n"
    using node_ok_block [OF inv(1,2) cur(2)] by auto
  note al = align_room_block [OF assms(3) inv(2)]
  let ?a = "align_up p align"
  show ?case
  proof (cases "?a + sz < 2 ^ 64")
    case False
    have "\<forall>c \<in> set (b # post). p \<le> fst c" using inv(4) b by (auto simp: apart_def)
    then have "alloc_blocks sz align (b # post) = None"
      using False assms(3) inv b
      by (intro alloc_blocks_beyond [where q = p and k = n, OF _ inv(1)]) (auto simp: blocks_inv_Cons)
    moreover have "checked_add64 ?a sz = None" using False by (simp add: checked_add64_def u64_max_def)
    ultimately show ?thesis using cur ok by (subst alloc_walk.simps) simp
  next
    case True
    then have ca: "checked_add64 ?a sz = Some (?a + sz)" by (simp add: checked_add64_def u64_max_def)
    show ?thesis
    proof (cases "?a + sz \<le> p + n")
      case fits: True
      have far: "\<forall>c \<in> set (pre @ post). fst c \<notin> {p ..< p + n}"
        using inv(4,5) b by (auto simp: apart_def)
      note bo = block_okD [OF inv(1,2)]
      have "lseg (mem (carve (last_of pre) p ?a (?a + sz) h)) (head (carve (last_of pre) p ?a (?a + sz) h))
          (pre @ pieces p n ?a sz @ post) None"
        using Cons.prems(2) cur d b bo al fits assms(4,5) far
        by (intro carve_lseg [OF _ cur(2,3) _ _ _ _ _ _ _ _ _ _ refl]) auto
      moreover have "regions (carve (last_of pre) p ?a (?a + sz) h) = regions h"
        "total_bytes (carve (last_of pre) p ?a (?a + sz) h) = total_bytes h"
        by (auto simp: carve_def Let_def)
      ultimately show ?thesis using cur ok ca fits b by (subst alloc_walk.simps) simp
    next
      case False
      have "lseg (mem h) (head h) (pre @ [b]) (next_node (mem h p))"
        using Cons.prems(2) cur b by (auto simp: lseg_append)
      from Cons.IH [OF _ this] Cons.prems(1) False cur ok ca b show ?thesis
        by (subst alloc_walk.simps) (auto split: option.splits)
    qed
  qed
qed

text \<open>A sorted, coalesced block list is determined by the addresses it covers.\<close>

lemma blocks_inv_unique:
  "blocks_inv rs bs \<Longrightarrow> blocks_inv rs' cs \<Longrightarrow> cells bs = cells cs \<Longrightarrow> bs = cs"
proof (induction bs arbitrary: cs)
  case Nil
  then show ?case by (cases cs) (auto simp: blocks_inv_Cons block_ok_def)
next
  case (Cons b bs)
  have pos: "0 < snd x" if "blocks_inv r xs" "x \<in> set xs" for r x xs
    using that by (auto simp: blocks_inv_def list_all_iff block_ok_def)
  obtain c cs' where cs: "cs = c # cs'"
    using Cons.prems pos [of rs "b # bs" b] by (cases cs) auto
  have first: "fst x \<le> y" if "blocks_inv r (x # xs)" "y \<in> cells (x # xs)" for r x xs y
    using that by (force simp: blocks_inv_Cons cells_def apart_def)
  have start: "fst x \<in> cells (x # xs)" if "blocks_inv r (x # xs)" for r x xs
    using pos [OF that, of x] by simp
  have stop: "fst x + snd x \<notin> cells (x # xs)" if "blocks_inv r (x # xs)" for r x xs
    using that by (force simp: blocks_inv_Cons cells_def apart_def)
  have inv: "blocks_inv rs (b # bs)" "blocks_inv rs' (c # cs')" using Cons.prems cs by auto
  have eq: "cells (b # bs) = cells (c # cs')" using Cons.prems cs by simp
  have f: "fst b = fst c"
    using first [OF inv(1) start [OF inv(2), folded eq]] first [OF inv(2) start [OF inv(1), unfolded eq]]
    by (rule le_antisym)
  have "snd b = snd c"
  proof (rule ccontr)
    assume "snd b \<noteq> snd c"
    then consider "snd b < snd c" | "snd c < snd b" by linarith
    then show False
    proof cases
      case 1
      then have "fst b + snd b \<in> cells (c # cs')" using f by simp
      then show False using stop [OF inv(1)] unfolding eq by contradiction
    next
      case 2
      then have "fst c + snd c \<in> cells (b # bs)" using f by simp
      then show False using stop [OF inv(2)] unfolding eq by contradiction
    qed
  qed
  with f have bc: "b = c" by (simp add: prod_eq_iff)
  have "{fst x ..< fst x + snd x} \<inter> cells xs = {}" if "blocks_inv r (x # xs)" for r x xs
    using that by (force simp: blocks_inv_Cons cells_def apart_def)
  from this [OF inv(1)] this [OF inv(2)] have "cells bs = cells cs'"
    using eq bc by auto
  with Cons.IH [of cs'] inv bc cs show ?case by (auto simp: blocks_inv_Cons)
qed

section \<open>The operations on a well-formed heap\<close>

lemma rounded_size:
  assumes "sz < 2 ^ 63"
  shows "16 dvd align_up (max sz 1) 16" "0 < align_up (max sz 1) 16" "sz \<le> align_up (max sz 1) 16"
  using align_up_16 [of "max sz 1"] assms by auto

lemma allocate_rep:
  assumes rep: "heap_rep h bs" and al: "align_room (regions h) (max align 16)" and sz: "sz < 2 ^ 63"
    and n: "n = align_up (max sz 1) 16"
  shows "\<exists>r h'. allocate sz align h = Some (r, h') \<and>
    regions h' = regions h \<and> total_bytes h' = total_bytes h \<and>
    (case alloc_blocks n (max align 16) bs of
       None \<Rightarrow> r = None \<and> h' = h
     | Some (a, bs') \<Rightarrow> r = Some a \<and> heap_rep h' bs')"
proof -
  have r: "regions_inv (regions h) (total_bytes h)" "blocks_inv (regions h) bs"
    using rep by (auto simp: heap_rep_def)
  note n' = rounded_size [OF sz, folded n]
  obtain r h' where w: "alloc_walk n (max align 16) h None (head h) = Some (r, h')"
    "regions h' = regions h" "total_bytes h' = total_bytes h"
    "case alloc_blocks n (max align 16) bs of
       None \<Rightarrow> r = None \<and> h' = h
     | Some (a, post') \<Rightarrow> r = Some a \<and> lseg (mem h') (head h') post' None"
    using alloc_walk_rep [of h "[]" bs "head h" "max align 16" n, unfolded append_Nil last_of_snoc]
      rep al n' lseg.simps(1) by blast
  have "allocate sz align h = Some (r, h')"
    using w(1) by (simp add: allocate_def ALIGN_GRANULE_def n)
  moreover have "blocks_inv (regions h) bs'" if "alloc_blocks n (max align 16) bs = Some (a, bs')" for a bs'
    using alloc_blocks_cases [OF that r(2) al n'(1,2)] by simp
  ultimately show ?thesis using w(2-4) r(1) by (auto simp: heap_rep_def split: option.splits)
qed

lemma free_bytes_walk_lseg:
  assumes "regions_inv (regions h) tot" "blocks_inv (regions h) bs" "lseg (mem h) cur bs None"
    and "acc + sum_list (map snd bs) < 2 ^ 64"
  shows "free_bytes_walk h acc cur = Some (acc + sum_list (map snd bs))"
  using assms(2-4)
proof (induction bs arbitrary: acc cur)
  case Nil
  then show ?case by (simp add: free_bytes_walk.simps)
next
  case (Cons b bs)
  obtain p n where b: "b = (p, n)" by fastforce
  have ok: "node_ok h p" "node_size (mem h) p = n"
    using node_ok_block [OF assms(1), of p n] Cons.prems b by (auto simp: blocks_inv_Cons)
  have "saturating_add64 acc n = acc + n"
    using Cons.prems b by (simp add: saturating_add64_def u64_max_def)
  with Cons ok b show ?case by (subst free_bytes_walk.simps) (simp add: blocks_inv_Cons)
qed

lemma check_walk_lseg:
  assumes "regions_inv (regions h) tot" "blocks_inv (regions h) bs" "lseg (mem h) cur bs None"
    and "acc + sum_list (map snd bs) < 2 ^ 64"
  shows "check_walk h cur k acc = Some (k + length bs, acc + sum_list (map snd bs), None)"
  using assms(2-4)
proof (induction bs arbitrary: acc cur k)
  case Nil
  then show ?case by (simp add: check_walk.simps)
next
  case (Cons b bs)
  obtain p n where b: "b = (p, n)" by fastforce
  have ok: "node_ok h p" "node_size (mem h) p = n"
    using node_ok_block [OF assms(1), of p n] Cons.prems b by (auto simp: blocks_inv_Cons)
  have "saturating_add64 acc n = acc + n"
    using Cons.prems b by (simp add: saturating_add64_def u64_max_def)
  with Cons ok b show ?case by (subst check_walk.simps) (simp add: blocks_inv_Cons)
qed

text \<open>The free bytes are the size of the free address set, which the regions bound.\<close>

lemma finite_cells [simp]: "finite (cells bs)"
  by (induction bs) auto

lemma card_cells: "blocks_inv rs bs \<Longrightarrow> card (cells bs) = sum_list (map snd bs)"
proof (induction bs)
  case (Cons b bs)
  have "{fst b ..< fst b + snd b} \<inter> cells bs = {}"
    using Cons.prems cells_after(1) [of bs "fst b" "snd b"] by (auto simp: blocks_inv_Cons)
  then show ?case using Cons by (simp add: card_Un_disjoint blocks_inv_Cons)
qed simp

definition region_cells :: "(nat \<times> nat) list \<Rightarrow> nat set" where
  "region_cells rs = (\<Union>(s, e) \<in> set rs. {s ..< e})"

lemma cells_in_regions: "blocks_inv rs bs \<Longrightarrow> cells bs \<subseteq> region_cells rs"
proof
  fix x assume "blocks_inv rs bs" "x \<in> cells bs"
  then obtain p n where "block_ok rs (p, n)" "p \<le> x" "x < p + n"
    by (auto simp: cells_def blocks_inv_def list_all_iff)
  then obtain s e where "(s, e) \<in> set rs" "s \<le> x" "x < e" by (force simp: block_ok_def)
  then show "x \<in> region_cells rs" by (force simp: region_cells_def)
qed

lemma card_region_cells: "finite (region_cells rs) \<and> card (region_cells rs) \<le> sum_list (map (\<lambda>(s, e). e - s) rs)"
proof (induction rs)
  case (Cons r rs)
  have "region_cells (r # rs) = {fst r ..< snd r} \<union> region_cells rs"
    by (auto simp: region_cells_def)
  then show ?case
    using Cons card_Un_le [of "{fst r ..< snd r}" "region_cells rs"] by (auto split: prod.splits)
qed (simp add: region_cells_def)

lemma free_le_total:
  assumes "heap_rep h bs"
  shows "sum_list (map snd bs) \<le> total_bytes h"
proof -
  have r: "regions_inv (regions h) (total_bytes h)" "blocks_inv (regions h) bs"
    using assms by (auto simp: heap_rep_def)
  have "card (cells bs) \<le> card (region_cells (regions h))"
    using card_region_cells by (intro card_mono cells_in_regions [OF r(2)]) auto
  also have "\<dots> \<le> total_bytes h"
    using card_region_cells r(1) by (simp add: regions_inv_def)
  finally show ?thesis using card_cells [OF r(2)] by simp
qed

section \<open>Damage is contained\<close>

lemma alloc_walk_damaged:
  assumes "regions_inv (regions h) tot" "blocks_inv (regions h) (pre @ post)"
    and "lseg (mem h) (head h) (pre @ post) (Some q)" "\<not> node_ok h q"
    and "lseg (mem h) (head h) pre cur"
    and "alloc_blocks sz align post = None"
    and "\<forall>(p, n) \<in> set post. align_up p align + sz < 2 ^ 64"
  shows "alloc_walk sz align h (last_of pre) cur = Some (None, set_link (last_of (pre @ post)) None h)"
  using assms(2,3,5-)
proof (induction post arbitrary: pre cur)
  case Nil
  then have "cur = Some q" using lseg_functional by fastforce
  then show ?case using assms(4) by (simp add: alloc_walk.simps truncate_before_def)
next
  case (Cons b post)
  obtain p n where b: "b = (p, n)" by fastforce
  have ok: "block_ok (regions h) (p, n)"
    using Cons.prems(1) b by (auto simp: blocks_inv_append blocks_inv_Cons)
  have cur: "cur = Some p" "size_magic (mem h p) = header n"
    using Cons.prems(2,3) b lseg_functional by (fastforce simp: lseg_append)+
  have node: "node_ok h p" "node_size (mem h) p = n"
    using node_ok_block [OF assms(1) ok cur(2)] by auto
  have "lseg (mem h) (head h) (pre @ [b]) (next_node (mem h p))"
    using Cons.prems(3) cur b by (auto simp: lseg_append)
  then have IH: "alloc_walk sz align h (Some p) (next_node (mem h p)) =
      Some (None, set_link (last_of (pre @ b # post)) None h)"
    using Cons.IH [of "pre @ [b]" "next_node (mem h p)"] Cons.prems b
    by (auto split: if_splits)
  have "checked_add64 (align_up p align) sz = Some (align_up p align + sz)"
    using Cons.prems(5) b by (simp add: checked_add64_def u64_max_def)
  then show ?case using IH cur node Cons.prems(4) b
    by (subst alloc_walk.simps) (auto split: if_splits)
qed

section \<open>A small heap\<close>

text \<open>One page at \<open>0x10000\<close>, free as a whole.\<close>

definition heap_demo :: heap where
  "heap_demo =
     \<lparr>mem = (\<lambda>_. \<lparr>size_magic = header 4096, next_node = None\<rparr>), head = Some 0x10000,
      regions = [(0x10000, 0x11000)], total_bytes = 4096\<rparr>"

lemma heap_demo_rep: "heap_rep heap_demo [(0x10000, 4096)]"
  by (simp add: heap_rep_def heap_demo_def regions_inv_def region_ok_def blocks_inv_def block_ok_def
      MAX_REGIONS_def MAX_HEAP_BYTES_def)

lemma heap_demo_room: "align_room (regions heap_demo) (max 64 16)"
  by (auto simp: heap_demo_def align_room_def intro!: exI [of _ 6])

section \<open>Properties\<close>

text \<open>
  C6: allocation from a well-formed heap is correct, first fit and complete. The walk returns. When
  it yields an address, that address is aligned, the whole rounded-up block was free, the heap stays
  well formed (sorted, coalesced, headers intact), exactly the block leaves the free bytes, and no
  lower aligned address would have done. It yields null only when no aligned free run of that size
  exists, and then changes nothing.
\<close>

theorem heap_allocate_correct:
  assumes "heap_rep h bs" "align_room (regions h) (max align 16)" "sz < 2 ^ 63"
    and n: "n = align_up (max sz 1) ALIGN_GRANULE"
  shows "\<exists>r h'. allocate sz align h = Some (r, h') \<and> regions h' = regions h \<and>
    (case r of
       None \<Rightarrow> h' = h \<and> \<not> (\<exists>a. max align 16 dvd a \<and> {a ..< a + n} \<subseteq> cells bs)
     | Some a \<Rightarrow> max align 16 dvd a \<and> sz \<le> n \<and> {a ..< a + n} \<subseteq> cells bs \<and>
         (\<exists>bs'. heap_rep h' bs' \<and> cells bs' = cells bs - {a ..< a + n}) \<and>
         \<not> (\<exists>a' < a. max align 16 dvd a' \<and> {a' ..< a' + n} \<subseteq> cells bs))"
proof -
  have n': "n = align_up (max sz 1) 16" using n by (simp add: ALIGN_GRANULE_def)
  note sz = rounded_size [OF assms(3), folded n']
  have inv: "blocks_inv (regions h) bs" using assms(1) by (simp add: heap_rep_def)
  obtain r h' where a: "allocate sz align h = Some (r, h')" "regions h' = regions h"
    "case alloc_blocks n (max align 16) bs of None \<Rightarrow> r = None \<and> h' = h
     | Some (a, bs') \<Rightarrow> r = Some a \<and> heap_rep h' bs'"
    using allocate_rep [OF assms(1-3) n'] by blast
  show ?thesis
  proof (cases "alloc_blocks n (max align 16) bs")
    case None
    then show ?thesis using a alloc_blocks_cases [OF None inv assms(2) sz(1,2)] by auto
  next
    case (Some ab)
    obtain x bs' where "ab = (x, bs')" by fastforce
    then show ?thesis
      using a alloc_blocks_cases [OF _ inv assms(2) sz(1,2), of "Some (x, bs')"] Some sz(3)
      by (auto simp: not_less)
  qed
qed

theorem heap_allocate_correct_witness:
  "\<exists>r h'. allocate 100 64 heap_demo = Some (r, h') \<and>
     (case r of None \<Rightarrow> False | Some a \<Rightarrow> 64 dvd a \<and> 0x10000 \<le> a \<and> a + 112 \<le> 0x11000)"
proof -
  have n: "align_up (max 100 1) ALIGN_GRANULE = 112"
    using align_up_eq [of 100 4] by (simp add: ALIGN_GRANULE_def)
  have e: "(64 :: nat) dvd 0x10000 \<and> {0x10000 ..< 0x10000 + 112} \<subseteq> cells [(0x10000, 4096)]"
    by (auto simp: dvd_def)
  show ?thesis
    using heap_allocate_correct [OF heap_demo_rep heap_demo_room, of 100 112] n e
    by (fastforce split: option.splits)
qed

text \<open>
  Releasing a block that was just allocated restores the heap: the free list again holds exactly
  the same blocks, in the same order and with the same boundaries, so nothing is lost to
  fragmentation.
\<close>

theorem heap_alloc_dealloc_roundtrip:
  assumes "heap_rep h bs" "align_room (regions h) (max align 16)" "sz < 2 ^ 63"
    and "allocate sz align h = Some (Some a, h')"
  shows "\<exists>h''. deallocate a sz h' = Some h'' \<and> heap_rep h'' bs \<and> regions h'' = regions h"
proof -
  define n where "n = align_up (max sz 1) 16"
  note sz = rounded_size [OF assms(3), folded n_def]
  have inv: "regions_inv (regions h) (total_bytes h)" "blocks_inv (regions h) bs"
    using assms(1) by (auto simp: heap_rep_def)
  obtain bs' where bs': "alloc_blocks n (max align 16) bs = Some (a, bs')" "heap_rep h' bs'"
    "regions h' = regions h"
    using allocate_rep [OF assms(1-3) n_def] assms(4) by (auto split: option.splits)
  note c = alloc_blocks_cases [OF bs'(1) inv(2) assms(2) sz(1,2)]
  have blk: "block_ok (regions h') (a, n)" "{a ..< a + n} \<inter> cells bs' = {}"
    using c bs'(3) by auto
  obtain h'' where h'': "deallocate a sz h' = Some h''" "heap_rep h'' (release_blocks a n bs')"
    "regions h'' = regions h'"
    using deallocate_rep [OF bs'(2) n_def blk] by blast
  have "cells (release_blocks a n bs') = cells bs" using c by (auto simp: cells_release_blocks)
  then have "release_blocks a n bs' = bs"
    using h''(2) inv(2) by (intro blocks_inv_unique) (auto simp: heap_rep_def)
  with h'' bs'(3) show ?thesis by auto
qed

theorem heap_alloc_dealloc_roundtrip_witness:
  "\<exists>a h' h''. allocate 100 64 heap_demo = Some (Some a, h') \<and> deallocate a 100 h' = Some h'' \<and>
     heap_rep h'' [(0x10000, 4096)]"
proof -
  have n: "align_up (max 100 1) 16 = 112" using align_up_eq [of 100 4] by simp
  have "align_up 0x10000 64 = 0x10000" using align_up_eq [of "0x10000" 6] by simp
  then obtain a h' where a: "allocate 100 64 heap_demo = Some (Some a, h')"
    using allocate_rep [OF heap_demo_rep heap_demo_room, of 100 112] n
    by (auto split: option.splits)
  with heap_alloc_dealloc_roundtrip [OF heap_demo_rep heap_demo_room _ a] show ?thesis by auto
qed

text \<open>
  C8: damage to the free list is contained. If the list runs through the intact blocks \<open>bs\<close> and then
  reaches a node whose header or place is not valid, a request that no intact block can serve
  fails cleanly: it returns null, the list is cut before the damaged node, and what is left is a
  well-formed heap with exactly the blocks \<open>bs\<close>.
\<close>

theorem heap_damage_contained:
  assumes "regions_inv (regions h) (total_bytes h)" "blocks_inv (regions h) bs"
    and "lseg (mem h) (head h) bs (Some q)" "\<not> node_ok h q"
    and "align_room (regions h) (max align 16)" "sz < 2 ^ 63"
    and n: "n = align_up (max sz 1) ALIGN_GRANULE"
    and top: "\<forall>(s, e) \<in> set (regions h). e + max align 16 + n \<le> 2 ^ 64"
    and none: "\<not> (\<exists>a. max align 16 dvd a \<and> {a ..< a + n} \<subseteq> cells bs)"
  shows "\<exists>h'. allocate sz align h = Some (None, h') \<and> heap_rep h' bs \<and> regions h' = regions h"
proof -
  have n': "n = align_up (max sz 1) 16" using n by (simp add: ALIGN_GRANULE_def)
  note sz = rounded_size [OF assms(6), folded n']
  have fit: "alloc_blocks n (max align 16) bs = None"
  proof (cases "alloc_blocks n (max align 16) bs")
    case (Some ab)
    then show ?thesis
      using alloc_blocks_cases [OF Some assms(2,5) sz(1,2)] none by (auto split: prod.splits)
  qed
  have small: "align_up p (max align 16) + n < 2 ^ 64" if pk: "(p, k) \<in> set bs" for p k
  proof -
    have blk: "block_ok (regions h) (p, k)" using assms(2) pk by (auto simp: blocks_inv_def list_all_iff)
    then obtain s e where e: "(s, e) \<in> set (regions h)" "p + k \<le> e" "0 < k" by (auto simp: block_ok_def)
    obtain j where j: "max align 16 = 2 ^ j" using assms(5) by (auto simp: align_room_def)
    have "e + max align 16 + n \<le> 2 ^ 64" using top e(1) by blast
    then show ?thesis using e(2,3) align_up_bounds(2) [of p j] unfolding j by linarith
  qed
  let ?h' = "set_link (last_of bs) None h"
  have "allocate sz align h = Some (None, ?h')"
    using alloc_walk_damaged [of h "total_bytes h" "[]" bs q "head h" n "max align 16",
        unfolded append_Nil last_of_snoc] assms(1-4) fit small
    by (auto simp: allocate_def ALIGN_GRANULE_def n')
  moreover have "heap_rep ?h' bs"
    using lseg_set_link [OF assms(3) blocks_inv_distinct [OF assms(2)], of None] assms(1,2)
    by (simp add: heap_rep_def)
  ultimately show ?thesis by auto
qed

theorem heap_damage_contained_witness:
  "\<exists>h'. allocate 5000 16 (heap_demo\<lparr>mem := set_next 0x10000 (Some 0x12000) (mem heap_demo)\<rparr>) =
     Some (None, h') \<and> heap_rep h' [(0x10000, 4096)]"
proof -
  let ?h = "heap_demo\<lparr>mem := set_next 0x10000 (Some 0x12000) (mem heap_demo)\<rparr>"
  have inv: "regions_inv (regions ?h) (total_bytes ?h)" "blocks_inv (regions ?h) [(0x10000, 4096)]"
    using heap_demo_rep by (auto simp: heap_rep_def)
  have l: "lseg (mem ?h) (head ?h) [(0x10000, 4096)] (Some 0x12000)"
    by (simp add: heap_demo_def)
  have bad: "\<not> node_ok ?h 0x12000" by (simp add: node_ok_def region_of_def heap_demo_def)
  have room: "align_room (regions ?h) (max 16 16)"
    by (auto simp: heap_demo_def align_room_def intro!: exI [of _ 4])
  have n: "align_up (max 5000 1) ALIGN_GRANULE = 5008"
    using align_up_eq [of 5000 4] by (simp add: ALIGN_GRANULE_def)
  have none: "\<not> (\<exists>a. max 16 16 dvd a \<and> {a ..< a + (5008 :: nat)} \<subseteq> cells [(0x10000, 4096)])"
  proof
    assume "\<exists>a. max 16 16 dvd a \<and> {a ..< a + (5008 :: nat)} \<subseteq> cells [(0x10000, 4096)]"
    then obtain a :: nat where "{a ..< a + 5008} \<subseteq> {0x10000 ..< 0x11000}" by auto
    then show False using card_mono [of "{0x10000 ..< 0x11000 :: nat}" "{a ..< a + 5008}"] by simp
  qed
  have top: "\<forall>(s, e) \<in> set (regions ?h). e + max 16 16 + 5008 \<le> 2 ^ 64"
    by (simp add: heap_demo_def)
  have "(5000 :: nat) < 2 ^ 63" by simp
  from heap_damage_contained [OF inv l bad room this n [symmetric] top none] show ?thesis by blast
qed

end
