(* ===== verification/KernelHeap.thy ===== *)
theory KernelHeap
  imports Heap
begin

text \<open>
  Growth of the kernel heap (\<open>kernel/src/memory/heap.rs\<close>): \<open>add_region\<close> with its merging of
  adjacent regions, \<open>grow\<close> and \<open>init\<close>, which move frames from the frame allocator of \<open>Pmm\<close> into
  the heap, and the global allocator interface (\<open>GlobalAlloc\<close>). The state is the pair of the frame
  allocator and the heap. \<open>None\<close> as the result of an operation means that a walk does not return or
  that the statistics underflow; the theorems show that neither happens.
\<close>

section \<open>Adding a region\<close>

definition INITIAL_FRAMES :: nat where "INITIAL_FRAMES = 2048"
definition GROW_FRAMES :: nat where "GROW_FRAMES = 1024"

text \<open>The loop that merges the new interval with every region it touches, restarting after a hit.\<close>

function merge_regions ::
  "(nat \<times> nat) list \<Rightarrow> nat \<Rightarrow> nat \<Rightarrow> nat \<Rightarrow> (nat \<times> nat) list \<times> nat \<times> nat" where
  "merge_regions rs merged_start merged_end index =
     (if index < length rs
      then
        if snd (rs ! index) = merged_start \<or> fst (rs ! index) = merged_end
        then merge_regions (remove_at index rs) (min merged_start (fst (rs ! index)))
               (max merged_end (snd (rs ! index))) 0
        else merge_regions rs merged_start merged_end (index + 1)
      else (rs, merged_start, merged_end))"
  by pat_completeness auto
termination
  by (relation "measures [\<lambda>(rs, s, e, i). length rs, \<lambda>(rs, s, e, i). length rs - i]")
    (auto simp: remove_at_def)

declare merge_regions.simps [simp del]

definition add_region :: "nat \<Rightarrow> nat \<Rightarrow> heap \<Rightarrow> (bool \<times> heap) option" where
  "add_region start sz h =
     (if sz < MIN_BLOCK \<or> length (regions h) \<ge> MAX_REGIONS then Some (False, h)
      else if saturating_add64 (total_bytes h) sz > MAX_HEAP_BYTES then Some (False, h)
      else
        case checked_add64 start sz of
          None \<Rightarrow> Some (False, h)
        | Some stop \<Rightarrow>
            (case merge_regions (regions h) start stop 0 of
              (rs, merged_start, merged_end) \<Rightarrow>
                if length rs \<ge> MAX_REGIONS then Some (False, h\<lparr>regions := rs\<rparr>)
                else
                  map_option (Pair True)
                    (insert_block start sz
                      (h\<lparr>regions := rs @ [(merged_start, merged_end)],
                         total_bytes := saturating_add64 (total_bytes h) sz\<rparr>))))"

section \<open>Growth and initialisation\<close>

record kmem =
  phys_mem :: pmm
  kheap :: heap

text \<open>\<open>hhdm\<close> is the offset at which all physical memory is mapped.\<close>

text \<open>The first of the requested sizes that the frame allocator can serve.\<close>

fun alloc_first :: "nat list \<Rightarrow> pmm \<Rightarrow> ((nat \<times> nat) option \<times> pmm) option" where
  "alloc_first [] s = Some (None, s)"
| "alloc_first (n # ns) s =
     (case alloc_contiguous n s of
        None \<Rightarrow> None
      | Some (Some p, t) \<Rightarrow> Some (Some (p, n), t)
      | Some (None, t) \<Rightarrow> alloc_first ns t)"

definition grow :: "nat \<Rightarrow> kmem \<Rightarrow> (bool \<times> kmem) option" where
  "grow hhdm st =
     (case alloc_first [GROW_FRAMES, GROW_FRAMES div 2] (phys_mem st) of
        None \<Rightarrow> None
      | Some (None, s) \<Rightarrow> Some (False, st\<lparr>phys_mem := s\<rparr>)
      | Some (Some (phys, frames), s) \<Rightarrow>
          (case add_region (hhdm + phys) (frames * FRAME_SIZE) (kheap st) of
             None \<Rightarrow> None
           | Some (False, h) \<Rightarrow>
               Some (False, \<lparr>phys_mem = snd (free_contiguous phys frames s), kheap = h\<rparr>)
           | Some (True, h) \<Rightarrow>
               (case heap_stats h of
                  None \<Rightarrow> None
                | Some _ \<Rightarrow> Some (True, \<lparr>phys_mem = s, kheap = h\<rparr>))))"

definition heap_init :: "nat \<Rightarrow> kmem \<Rightarrow> (unit + kmem) option" where
  "heap_init hhdm st =
     (case alloc_first [INITIAL_FRAMES, INITIAL_FRAMES div 2, INITIAL_FRAMES div 4] (phys_mem st) of
        None \<Rightarrow> None
      | Some (None, s) \<Rightarrow> Some (Inl ())
      | Some (Some (phys, frames), s) \<Rightarrow>
          map_option (\<lambda>(_, h). Inr \<lparr>phys_mem = s, kheap = h\<rparr>)
            (add_region (hhdm + phys) (frames * FRAME_SIZE) (heap_empty (mem (kheap st)))))"

section \<open>The global allocator\<close>

definition dangling :: nat where "dangling = 1"

text \<open>The retry loop: \<open>n\<close> rounds left.\<close>

primrec alloc_retry :: "nat \<Rightarrow> nat \<Rightarrow> nat \<Rightarrow> nat \<Rightarrow> kmem \<Rightarrow> (nat option \<times> kmem) option" where
  "alloc_retry 0 hhdm sz align st = Some (None, st)"
| "alloc_retry (Suc n) hhdm sz align st =
     (case grow hhdm st of
        None \<Rightarrow> None
      | Some (False, st) \<Rightarrow> Some (None, st)
      | Some (True, st) \<Rightarrow>
          (case allocate sz align (kheap st) of
             None \<Rightarrow> None
           | Some (Some p, h) \<Rightarrow> Some (Some p, st\<lparr>kheap := h\<rparr>)
           | Some (None, h) \<Rightarrow> alloc_retry n hhdm sz align (st\<lparr>kheap := h\<rparr>)))"

definition global_alloc :: "nat \<Rightarrow> nat \<Rightarrow> nat \<Rightarrow> kmem \<Rightarrow> (nat option \<times> kmem) option" where
  "global_alloc hhdm sz align st =
     (if sz = 0 then Some (Some dangling, st)
      else
        case allocate sz align (kheap st) of
          None \<Rightarrow> None
        | Some (Some p, h) \<Rightarrow> Some (Some p, st\<lparr>kheap := h\<rparr>)
        | Some (None, h) \<Rightarrow>
            (case alloc_retry MAX_REGIONS hhdm sz align (st\<lparr>kheap := h\<rparr>) of
               None \<Rightarrow> None
             | Some (Some p, st) \<Rightarrow> Some (Some p, st)
             | Some (None, st) \<Rightarrow>
                 (case heap_stats (kheap st) of None \<Rightarrow> None | Some _ \<Rightarrow> Some (None, st))))"

definition global_dealloc :: "nat \<Rightarrow> nat \<Rightarrow> kmem \<Rightarrow> kmem option" where
  "global_dealloc ptr sz st =
     (if sz = 0 \<or> ptr = dangling then Some st
      else map_option (\<lambda>h. st\<lparr>kheap := h\<rparr>) (deallocate ptr sz (kheap st)))"

section \<open>Merging regions\<close>

definition off :: "nat \<times> nat \<Rightarrow> nat \<times> nat \<Rightarrow> bool" where
  "off r t \<longleftrightarrow> snd r \<le> fst t \<or> snd t \<le> fst r"

definition span_sum :: "(nat \<times> nat) list \<Rightarrow> nat" where
  "span_sum rs = sum_list (map (\<lambda>(s, e). e - s) rs)"

definition regions_core :: "(nat \<times> nat) list \<Rightarrow> bool" where
  "regions_core rs \<longleftrightarrow> list_all region_ok rs \<and> pairwise regions_apart (set rs) \<and> distinct rs"

lemma remove_at_split:
  "i < length rs \<Longrightarrow> rs = take i rs @ rs ! i # drop (Suc i) rs"
  by (rule id_take_nth_drop)

lemma span_sum_remove:
  assumes "i < length rs"
  shows "span_sum rs = span_sum (remove_at i rs) + (snd (rs ! i) - fst (rs ! i))"
proof -
  have "span_sum rs = span_sum (take i rs @ rs ! i # drop (Suc i) rs)"
    using remove_at_split [OF assms] by metis
  then show ?thesis by (simp add: span_sum_def remove_at_def split: prod.splits)
qed

lemma set_remove_at_subset: "set (remove_at i rs) \<subseteq> set rs"
  by (auto simp: remove_at_def dest: in_set_takeD in_set_dropD)

lemma regions_core_remove:
  assumes "regions_core rs" "i < length rs"
  shows "regions_core (remove_at i rs)" "\<forall>r \<in> set (remove_at i rs). regions_apart r (rs ! i)"
    "set rs = insert (rs ! i) (set (remove_at i rs))"
proof -
  have s: "set (remove_at i rs) = set rs - {rs ! i}"
    using assms by (intro set_remove_at) (auto simp: regions_core_def)
  have "distinct (remove_at i rs)"
    using assms remove_at_split [OF assms(2)]
    by (metis distinct.simps(2) distinct_append regions_core_def remove_at_def set_ConsD Int_insert_right_if0
        disjoint_insert(2) list.simps(15))
  then show "regions_core (remove_at i rs)"
    using assms(1) s by (auto simp: regions_core_def list_all_iff pairwise_def)
  show "\<forall>r \<in> set (remove_at i rs). regions_apart r (rs ! i)"
    using assms s by (auto simp: regions_core_def pairwise_def)
  show "set rs = insert (rs ! i) (set (remove_at i rs))"
    unfolding s using nth_mem [OF assms(2)] by (simp add: insert_absorb)
qed

lemma merge_regions_correct:
  assumes "regions_core rs" "region_ok (s, e)" "\<forall>r \<in> set rs. off r (s, e)"
    and "\<forall>j < i. j < length rs \<longrightarrow> snd (rs ! j) \<noteq> s \<and> fst (rs ! j) \<noteq> e"
  shows "case merge_regions rs s e i of (rs', s', e') \<Rightarrow>
    regions_core (rs' @ [(s', e')]) \<and> length rs' \<le> length rs \<and>
    span_sum (rs' @ [(s', e')]) = span_sum rs + (e - s) \<and>
    region_cells (rs' @ [(s', e')]) = region_cells rs \<union> {s ..< e} \<and>
    s' \<le> s \<and> e \<le> e' \<and>
    (\<forall>r \<in> set rs. \<exists>r' \<in> set (rs' @ [(s', e')]). fst r' \<le> fst r \<and> snd r \<le> snd r')"
  using assms
proof (induction rs s e i rule: merge_regions.induct)
  case (1 rs s e i)
  show ?case
  proof (cases "i < length rs")
    case False
    have far: "\<forall>r \<in> set rs. regions_apart r (s, e)"
    proof
      fix r assume r: "r \<in> set rs"
      then obtain j where "j < length rs" "r = rs ! j" by (auto simp: in_set_conv_nth)
      with "1.prems"(4) False have "snd r \<noteq> s" "fst r \<noteq> e" by auto
      moreover have "off r (s, e)" using "1.prems"(3) r by blast
      ultimately show "regions_apart r (s, e)" by (auto simp: off_def regions_apart_def)
    qed
    then have "regions_core (rs @ [(s, e)])"
      using "1.prems"(1,2)
      by (auto simp: regions_core_def pairwise_insert regions_apart_def region_ok_def)
    then show ?thesis
      using False by (subst merge_regions.simps) (auto simp: span_sum_def region_cells_def)
  next
    case True
    let ?r = "rs ! i"
    note rm = regions_core_remove [OF "1.prems"(1) True]
    have r_ok: "region_ok ?r" "off ?r (s, e)"
      using "1.prems" True by (auto simp: regions_core_def list_all_iff)
    show ?thesis
    proof (cases "snd ?r = s \<or> fst ?r = e")
      case hit: True
      let ?s = "min s (fst ?r)" and ?e = "max e (snd ?r)" and ?rs = "remove_at i rs"
      have ok: "region_ok (?s, ?e)"
        using r_ok "1.prems"(2) by (auto simp: region_ok_def min_def max_def)
      have se: "s < e" "fst ?r < snd ?r" using r_ok "1.prems"(2) by (auto simp: region_ok_def)
      have "\<forall>r \<in> set ?rs. off r (?s, ?e)"
      proof
        fix r assume r: "r \<in> set ?rs"
        then have "regions_apart r ?r" "off r (s, e)" "fst r < snd r"
          using rm "1.prems" by (auto simp: regions_core_def list_all_iff region_ok_def)
        then show "off r (?s, ?e)" using hit se by (auto simp: off_def regions_apart_def)
      qed
      note IH = "1.IH"(1) [OF True hit rm(1) ok this]
      have len: "length ?rs \<le> length rs" using True by (simp add: remove_at_def)
      have sum: "span_sum ?rs + (?e - ?s) = span_sum rs + (e - s)"
        using span_sum_remove [OF True] hit se by (auto simp: min_def max_def)
      have cells: "region_cells ?rs \<union> {?s ..< ?e} = region_cells rs \<union> {s ..< e}"
      proof -
        have "region_cells rs = {fst ?r ..< snd ?r} \<union> region_cells ?rs"
          unfolding region_cells_def rm(3) by (auto split: prod.splits)
        moreover have "{?s ..< ?e} = {fst ?r ..< snd ?r} \<union> {s ..< e}"
          using hit se by auto
        ultimately show ?thesis by blast
      qed
      show ?thesis
        using IH hit True len sum cells rm(3)
        by (subst merge_regions.simps) (auto split: prod.splits)
    next
      case miss: False
      have "\<forall>j < i + 1. j < length rs \<longrightarrow> snd (rs ! j) \<noteq> s \<and> fst (rs ! j) \<noteq> e"
        using "1.prems"(4) miss by (auto simp: less_Suc_eq)
      note IH = "1.IH"(2) [OF True miss "1.prems"(1-3) this]
      then show ?thesis using True miss by (subst merge_regions.simps) simp
    qed
  qed
qed

lemma add_region_rep:
  assumes rep: "heap_rep h bs" and dv: "16 dvd start" "16 dvd n" "0 < n"
    and bd: "0 < start" "start + n < 2 ^ 64"
    and new: "{start ..< start + n} \<inter> region_cells (regions h) = {}"
  shows "\<exists>ok h'. add_region start n h = Some (ok, h') \<and>
    (ok \<longleftrightarrow> length (regions h) < MAX_REGIONS \<and> total_bytes h + n \<le> MAX_HEAP_BYTES) \<and>
    (if ok then (\<exists>bs'. heap_rep h' bs' \<and> cells bs' = cells bs \<union> {start ..< start + n}) \<and>
       region_cells (regions h') = region_cells (regions h) \<union> {start ..< start + n} \<and>
       total_bytes h' = total_bytes h + n
     else h' = h)"
proof (cases "length (regions h) < MAX_REGIONS \<and> total_bytes h + n \<le> MAX_HEAP_BYTES")
  case False
  have "MIN_BLOCK \<le> n" using dv by (auto simp: MIN_BLOCK_def dest: dvd_imp_le)
  then have "add_region start n h = Some (False, h)"
    using False by (auto simp: add_region_def saturating_add64_def u64_max_def MAX_HEAP_BYTES_def)
  then show ?thesis using False by auto
next
  case True
  have r: "regions_inv (regions h) (total_bytes h)" "blocks_inv (regions h) bs"
    using rep by (auto simp: heap_rep_def)
  have n16: "MIN_BLOCK \<le> n" using dv by (auto simp: MIN_BLOCK_def dest: dvd_imp_le)
  have sat: "saturating_add64 (total_bytes h) n = total_bytes h + n"
    using True by (simp add: saturating_add64_def u64_max_def MAX_HEAP_BYTES_def)
  have ok: "region_ok (start, start + n)" using dv bd by (auto simp: region_ok_def)
  have core: "regions_core (regions h)" using r(1) by (simp add: regions_inv_def regions_core_def)
  have away: "\<forall>r \<in> set (regions h). off r (start, start + n)"
  proof
    fix t assume t: "t \<in> set (regions h)"
    then have "fst t < snd t" using core by (auto simp: regions_core_def list_all_iff region_ok_def)
    moreover have "{fst t ..< snd t} \<subseteq> region_cells (regions h)"
      unfolding region_cells_def using t by (intro UN_upper [of t, THEN subset_trans [rotated]])
        (auto split: prod.splits)
    then have "{start ..< start + n} \<inter> {fst t ..< snd t} = {}"
      using new by blast
    ultimately have "max start (fst t) \<notin> {start ..< start + n} \<inter> {fst t ..< snd t}" by blast
    with \<open>fst t < snd t\<close> dv(3) show "off t (start, start + n)"
      by (auto simp: off_def max_def split: if_splits)
  qed
  obtain rs s' e' where m: "merge_regions (regions h) start (start + n) 0 = (rs, s', e')"
    by (cases "merge_regions (regions h) start (start + n) 0") auto
  let ?rs = "rs @ [(s', e')]"
  have "\<forall>j < (0 :: nat). j < length (regions h) \<longrightarrow>
      snd (regions h ! j) \<noteq> start \<and> fst (regions h ! j) \<noteq> start + n" by simp
  note mc0 = merge_regions_correct [OF core ok away this, unfolded m prod.case diff_add_inverse]
  have mc: "regions_core ?rs" "length rs \<le> length (regions h)"
    "span_sum ?rs = span_sum (regions h) + n"
    "region_cells ?rs = region_cells (regions h) \<union> {start ..< start + n}"
    "s' \<le> start" "start + n \<le> e'"
    "\<forall>r \<in> set (regions h). \<exists>r' \<in> set ?rs. fst r' \<le> fst r \<and> snd r \<le> snd r'"
    using mc0 by blast+
  define h1 where "h1 = h\<lparr>regions := ?rs, total_bytes := total_bytes h + n\<rparr>"
  have inv1: "regions_inv ?rs (total_bytes h + n)"
    using mc(1-3) r(1) True by (auto simp: regions_inv_def regions_core_def span_sum_def)
  have "block_ok ?rs b" if b: "block_ok (regions h) b" for b
  proof -
    obtain t where t: "t \<in> set (regions h)" "fst t \<le> fst b" "fst b + snd b \<le> snd t"
      using b by (auto simp: block_ok_def)
    obtain t' where "t' \<in> set ?rs" "fst t' \<le> fst t" "snd t \<le> snd t'" using mc(7) t(1) by blast
    with t b show ?thesis
      unfolding block_ok_def by (intro conjI bexI [of _ t']) (auto split: prod.splits)
  qed
  then have "blocks_inv ?rs bs" using r(2) by (auto simp: blocks_inv_def list_all_iff)
  then have rep1: "heap_rep h1 bs"
    using rep inv1 by (simp add: heap_rep_def h1_def)
  have blk: "block_ok (regions h1) (start, n)"
    using mc(5,6) dv by (auto simp: block_ok_def h1_def)
  have free: "{start ..< start + n} \<inter> cells bs = {}"
    using new cells_in_regions [OF r(2)] by blast
  obtain h' where h': "insert_block start n h1 = Some h'" "heap_rep h' (release_blocks start n bs)"
    "regions h' = regions h1" "total_bytes h' = total_bytes h1"
    using insert_block_rep [OF rep1 blk free] by blast
  have "checked_add64 start n = Some (start + n)" using bd by (simp add: checked_add64_def u64_max_def)
  then have "add_region start n h = Some (True, h')"
    using True n16 sat m mc(2) h'(1)
    by (simp add: add_region_def h1_def MAX_HEAP_BYTES_def not_le not_less)
  moreover have "cells (release_blocks start n bs) = cells bs \<union> {start ..< start + n}"
    by (rule cells_release_blocks)
  ultimately show ?thesis using True h' mc(4) by (auto simp: h1_def)
qed

section \<open>The invariant of the memory subsystem\<close>

text \<open>
  \<open>kmem_view hhdm U st used\<close>: the frame allocator and the heap satisfy their invariants, no byte of
  a heap region belongs to a free frame, and \<open>used\<close> is the set of heap bytes that are handed out.
\<close>

definition frame_bytes :: "nat \<Rightarrow> nat \<Rightarrow> nat set" where
  "frame_bytes hhdm f = {hhdm + f * FRAME_SIZE ..< hhdm + (f + 1) * FRAME_SIZE}"

definition hhdm_ok :: "nat \<Rightarrow> bool" where
  "hhdm_ok hhdm \<longleftrightarrow> 0 < hhdm \<and> FRAME_SIZE dvd hhdm \<and> hhdm + MAX_FRAMES * FRAME_SIZE < 2 ^ 64"

definition heap_cells :: "kmem \<Rightarrow> nat set" where
  "heap_cells st = region_cells (regions (kheap st))"

definition kmem_view :: "nat \<Rightarrow> nat set \<Rightarrow> kmem \<Rightarrow> nat set \<Rightarrow> bool" where
  "kmem_view hhdm U st used \<longleftrightarrow>
     hhdm_ok hhdm \<and> pmm_inv U (phys_mem st) \<and>
     heap_cells st \<subseteq> {hhdm ..< hhdm + MAX_FRAMES * FRAME_SIZE} \<and>
     (\<forall>f \<in> free_set (bitmap (phys_mem st)). frame_bytes hhdm f \<inter> heap_cells st = {}) \<and>
     (\<exists>bs. heap_rep (kheap st) bs \<and> used = heap_cells st - cells bs)"

definition layout_ok :: "nat \<Rightarrow> nat \<Rightarrow> nat \<Rightarrow> bool" where
  "layout_ok hhdm sz align \<longleftrightarrow> 0 < sz \<and> sz < 2 ^ 63 \<and> (\<exists>k. align = 2 ^ k) \<and>
     hhdm + MAX_FRAMES * FRAME_SIZE + max align 16 \<le> 2 ^ 64"

definition block_size :: "nat \<Rightarrow> nat" where
  "block_size sz = align_up (max sz 1) ALIGN_GRANULE"

lemma alloc_first_cases:
  assumes "pmm_inv U s" "\<forall>n \<in> set ns. 0 < n"
  shows "\<exists>r t. alloc_first ns s = Some (r, t) \<and> pmm_inv U t \<and>
    (case r of
       None \<Rightarrow> t = s \<and> (\<forall>n \<in> set ns. \<forall>f. \<not> frame_range f n \<subseteq> free_set (bitmap s))
     | Some (p, n) \<Rightarrow> n \<in> set ns \<and> alloc_contiguous n s = Some (Some p, t))"
  using assms
proof (induction ns)
  case (Cons n ns)
  obtain r t where r: "alloc_contiguous n s = Some (r, t)"
    using pmm_pool.alloc_returns [OF Cons.prems(1), of n] Cons.prems(2) by auto
  show ?case
  proof (cases r)
    case None
    then have t: "t = s" "\<forall>f. \<not> frame_range f n \<subseteq> free_set (bitmap s)"
      using Cons.prems r pmm_pool.alloc_None [OF Cons.prems(1), of n t] by auto
    obtain r' t' where IH: "alloc_first ns s = Some (r', t')" "pmm_inv U t'"
      "case r' of
         None \<Rightarrow> t' = s \<and> (\<forall>n \<in> set ns. \<forall>f. \<not> frame_range f n \<subseteq> free_set (bitmap s))
       | Some (p, n) \<Rightarrow> n \<in> set ns \<and> alloc_contiguous n s = Some (Some p, t')"
      using Cons by auto
    then have "alloc_first (n # ns) s = Some (r', t')" using None r t by simp
    then show ?thesis using IH t by (cases r') auto
  next
    case (Some p)
    then show ?thesis
      using Cons.prems r pmm_pool.alloc_Some [OF Cons.prems(1), of n p t] by auto
  qed
qed simp

lemma range_bytes:
  assumes "x \<in> {hhdm + f * FRAME_SIZE ..< hhdm + f * FRAME_SIZE + n * FRAME_SIZE}"
  shows "\<exists>g \<in> frame_range f n. x \<in> frame_bytes hhdm g"
proof (intro bexI)
  let ?g = "(x - hhdm) div FRAME_SIZE"
  have x: "f * FRAME_SIZE \<le> x - hhdm" "x - hhdm < (f + n) * FRAME_SIZE" "hhdm \<le> x"
    using assms by (auto simp: add_mult_distrib)
  show "?g \<in> frame_range f n"
    using x by (simp add: frame_range_def less_eq_div_iff_mult_less_eq div_less_iff_less_mult)
  have "(x - hhdm) = ?g * FRAME_SIZE + (x - hhdm) mod FRAME_SIZE" "(x - hhdm) mod FRAME_SIZE < FRAME_SIZE"
    by (simp_all add: FRAME_SIZE_def)
  then show "x \<in> frame_bytes hhdm ?g"
    using x(3) unfolding frame_bytes_def atLeastLessThan_iff add_mult_distrib by linarith
qed

lemma bytes_range:
  assumes "g \<notin> frame_range f n"
  shows "frame_bytes hhdm g \<inter> {hhdm + f * FRAME_SIZE ..< hhdm + f * FRAME_SIZE + n * FRAME_SIZE} = {}"
proof -
  have "g + 1 \<le> f \<or> f + n \<le> g" using assms by (auto simp: frame_range_def)
  then have "(g + 1) * FRAME_SIZE \<le> f * FRAME_SIZE \<or> (f + n) * FRAME_SIZE \<le> g * FRAME_SIZE"
    by (meson mult_le_mono1)
  then show ?thesis by (auto simp: frame_bytes_def add_mult_distrib)
qed

text \<open>A run of free frames moves into the heap, or back.\<close>

lemma take_frames:
  assumes v: "kmem_view hhdm U st used" and n: "0 < n" "n \<le> GROW_FRAMES * 2"
    and al: "alloc_contiguous n (phys_mem st) = Some (Some p, s)"
  shows "\<exists>ok h'. add_region (hhdm + p) (n * FRAME_SIZE) (kheap st) = Some (ok, h') \<and>
    (ok \<longleftrightarrow> length (regions (kheap st)) < MAX_REGIONS \<and>
       total_bytes (kheap st) + n * FRAME_SIZE \<le> MAX_HEAP_BYTES) \<and>
    (if ok then kmem_view hhdm U \<lparr>phys_mem = s, kheap = h'\<rparr> used \<and>
       heap_cells st \<subset> region_cells (regions h')
     else h' = kheap st \<and>
       (\<exists>t. free_contiguous p n s = (True, t) \<and>
          kmem_view hhdm U \<lparr>phys_mem = t, kheap = h'\<rparr> used \<and>
          free_set (bitmap t) = free_set (bitmap (phys_mem st))))"
proof -
  obtain bs where inv: "hhdm_ok hhdm" "pmm_inv U (phys_mem st)"
    and sub: "heap_cells st \<subseteq> {hhdm ..< hhdm + MAX_FRAMES * FRAME_SIZE}"
    and free: "\<forall>f \<in> free_set (bitmap (phys_mem st)). frame_bytes hhdm f \<inter> heap_cells st = {}"
    and rep: "heap_rep (kheap st) bs" and used: "used = heap_cells st - cells bs"
    using v by (auto simp: kmem_view_def)
  obtain f where f: "p = f * FRAME_SIZE" "frame_range f n \<subseteq> free_set (bitmap (phys_mem st))"
    "free_set (bitmap s) = free_set (bitmap (phys_mem st)) - frame_range f n" "pmm_inv U s"
    using pmm_pool.alloc_Some [OF inv(2) n(1) al] by blast
  obtain t where t: "free_contiguous p n s = (True, t)" "pmm_inv U t"
    "free_set (bitmap t) = free_set (bitmap (phys_mem st))"
    using pmm_pool.alloc_release [OF inv(2) n(1) al] by blast
  let ?new = "{hhdm + p ..< hhdm + p + n * FRAME_SIZE}"
  have new: "?new \<inter> heap_cells st = {}"
    using range_bytes [of _ hhdm f n] free f(1,2) by blast
  have "f + n - 1 \<in> frame_range f n" using n(1) by (auto simp: frame_range_def)
  then have "f + n - 1 < MAX_FRAMES"
    using f(2) inv(2) free_set_bound by (fastforce simp: pmm_inv_def)
  then have top: "(f + n) * FRAME_SIZE \<le> MAX_FRAMES * FRAME_SIZE"
    using n(1) by (intro mult_le_mono1) linarith
  have fs: "16 dvd FRAME_SIZE" by (simp add: FRAME_SIZE_def)
  have dv: "16 dvd hhdm + p" "16 dvd n * FRAME_SIZE" "0 < n * FRAME_SIZE" "0 < hhdm + p"
    "hhdm + p + n * FRAME_SIZE < 2 ^ 64"
    using fs inv(1) f(1) n(1) top by (auto simp: hhdm_ok_def add_mult_distrib intro: dvd_trans)
  obtain ok h' where ar: "add_region (hhdm + p) (n * FRAME_SIZE) (kheap st) = Some (ok, h')"
    "ok \<longleftrightarrow> length (regions (kheap st)) < MAX_REGIONS \<and>
       total_bytes (kheap st) + n * FRAME_SIZE \<le> MAX_HEAP_BYTES"
    "if ok then (\<exists>bs'. heap_rep h' bs' \<and> cells bs' = cells bs \<union> ?new) \<and>
       region_cells (regions h') = heap_cells st \<union> ?new \<and>
       total_bytes h' = total_bytes (kheap st) + n * FRAME_SIZE
     else h' = kheap st"
    using add_region_rep [OF rep dv new [unfolded heap_cells_def]] by (auto simp: heap_cells_def)
  show ?thesis
  proof (cases ok)
    case False
    then have "kmem_view hhdm U \<lparr>phys_mem = t, kheap = h'\<rparr> used"
      using ar(3) v t by (auto simp: kmem_view_def heap_cells_def)
    then show ?thesis using ar t False by auto
  next
    case True
    obtain bs' where bs': "heap_rep h' bs'" "cells bs' = cells bs \<union> ?new" using ar(3) True by auto
    have reg: "heap_cells \<lparr>phys_mem = s, kheap = h'\<rparr> = heap_cells st \<union> ?new"
      using ar(3) True by (simp add: heap_cells_def)
    have "?new \<subseteq> {hhdm ..< hhdm + MAX_FRAMES * FRAME_SIZE}"
      using top f(1) by (auto simp: add_mult_distrib)
    moreover have "frame_bytes hhdm g \<inter> (heap_cells st \<union> ?new) = {}" if "g \<in> free_set (bitmap s)" for g
      using that f(1,3) free bytes_range [of g f n hhdm] by auto
    moreover have "used = heap_cells st \<union> ?new - cells bs'"
      using used bs'(2) new by blast
    ultimately have "kmem_view hhdm U \<lparr>phys_mem = s, kheap = h'\<rparr> used"
      unfolding kmem_view_def reg using inv(1) f(4) sub bs'(1) by auto
    moreover have "hhdm + p \<in> ?new" using dv(3) by simp
    then have "heap_cells st \<subset> heap_cells st \<union> ?new" using new by blast
    ultimately show ?thesis using ar True reg by (auto simp: heap_cells_def)
  qed
qed

lemma heap_stats_rep:
  assumes "heap_rep h bs"
  shows "heap_stats h = Some (total_bytes h - sum_list (map snd bs), total_bytes h)"
proof -
  have r: "regions_inv (regions h) (total_bytes h)" "blocks_inv (regions h) bs"
    "lseg (mem h) (head h) bs None"
    using assms by (auto simp: heap_rep_def)
  have "sum_list (map snd bs) < 2 ^ 64"
    using free_le_total [OF assms] r(1) by (simp add: regions_inv_def MAX_HEAP_BYTES_def)
  then show ?thesis
    using free_bytes_walk_lseg [OF r(1,2,3), of 0] free_le_total [OF assms]
    by (simp add: heap_stats_def free_bytes_def)
qed

lemma grow_cases:
  assumes v: "kmem_view hhdm U st used"
  shows "\<exists>ok st'. grow hhdm st = Some (ok, st') \<and> kmem_view hhdm U st' used \<and>
    (if ok then heap_cells st \<subset> heap_cells st'
     else kheap st' = kheap st \<and>
       free_set (bitmap (phys_mem st')) = free_set (bitmap (phys_mem st)))"
proof -
  have inv: "pmm_inv U (phys_mem st)" using v by (simp add: kmem_view_def)
  obtain r s where r: "alloc_first [GROW_FRAMES, GROW_FRAMES div 2] (phys_mem st) = Some (r, s)"
    "case r of None \<Rightarrow> s = phys_mem st
     | Some (p, n) \<Rightarrow> n \<in> {GROW_FRAMES, GROW_FRAMES div 2} \<and>
         alloc_contiguous n (phys_mem st) = Some (Some p, s)"
    using alloc_first_cases [OF inv, of "[GROW_FRAMES, GROW_FRAMES div 2]"]
    by (auto simp: GROW_FRAMES_def split: option.splits)
  show ?thesis
  proof (cases r)
    case None
    then show ?thesis
      using r v by (intro exI [of _ False]) (simp add: grow_def kmem_view_def heap_cells_def)
  next
    case (Some pn)
    obtain p n where pn: "pn = (p, n)" by fastforce
    have n: "0 < n" "n \<le> GROW_FRAMES * 2" and al: "alloc_contiguous n (phys_mem st) = Some (Some p, s)"
      using r(2) Some pn by (auto simp: GROW_FRAMES_def)
    obtain ok h' where t: "add_region (hhdm + p) (n * FRAME_SIZE) (kheap st) = Some (ok, h')"
      "if ok then kmem_view hhdm U \<lparr>phys_mem = s, kheap = h'\<rparr> used \<and>
         heap_cells st \<subset> region_cells (regions h')
       else h' = kheap st \<and>
         (\<exists>t. free_contiguous p n s = (True, t) \<and>
            kmem_view hhdm U \<lparr>phys_mem = t, kheap = h'\<rparr> used \<and>
            free_set (bitmap t) = free_set (bitmap (phys_mem st)))"
      using take_frames [OF v n al] by blast
    show ?thesis
    proof (cases ok)
      case True
      then obtain bs where "heap_rep h' bs" using t(2) by (auto simp: kmem_view_def)
      then show ?thesis
        using t True r(1) Some pn
        by (intro exI [of _ True]) (simp add: grow_def heap_stats_rep heap_cells_def)
    next
      case False
      then obtain u where u: "free_contiguous p n s = (True, u)"
        "kmem_view hhdm U \<lparr>phys_mem = u, kheap = h'\<rparr> used" "h' = kheap st"
        "free_set (bitmap u) = free_set (bitmap (phys_mem st))"
        using t(2) by auto
      have "grow hhdm st = Some (False, \<lparr>phys_mem = u, kheap = h'\<rparr>)"
        using t(1) r(1) Some pn False u(1) by (simp add: grow_def)
      then show ?thesis using u by auto
    qed
  qed
qed

text \<open>One attempt to serve a request from the free list.\<close>

lemma allocate_view:
  assumes v: "kmem_view hhdm U st used" and l: "layout_ok hhdm sz align"
  shows "\<exists>r h'. allocate sz align (kheap st) = Some (r, h') \<and>
    heap_cells (st\<lparr>kheap := h'\<rparr>) = heap_cells st \<and>
    (case r of
       None \<Rightarrow> h' = kheap st \<and>
         (\<forall>a. max align 16 dvd a \<longrightarrow> \<not> {a ..< a + block_size sz} \<subseteq> heap_cells st - used)
     | Some a \<Rightarrow> max align 16 dvd a \<and> {a ..< a + block_size sz} \<subseteq> heap_cells st - used \<and>
         kmem_view hhdm U (st\<lparr>kheap := h'\<rparr>) (used \<union> {a ..< a + block_size sz}))"
proof -
  obtain bs where inv: "hhdm_ok hhdm" "pmm_inv U (phys_mem st)"
    and sub: "heap_cells st \<subseteq> {hhdm ..< hhdm + MAX_FRAMES * FRAME_SIZE}"
    and rep: "heap_rep (kheap st) bs" and used: "used = heap_cells st - cells bs"
    using v by (auto simp: kmem_view_def)
  have r: "regions_inv (regions (kheap st)) (total_bytes (kheap st))"
    "blocks_inv (regions (kheap st)) bs"
    using rep by (auto simp: heap_rep_def)
  have inside: "cells bs \<subseteq> heap_cells st" using cells_in_regions [OF r(2)] by (simp add: heap_cells_def)
  then have fr: "heap_cells st - used = cells bs" using used by blast
  obtain k where k: "align = 2 ^ k" using l by (auto simp: layout_ok_def)
  have "max align 16 = 2 ^ (max k 4)"
    unfolding k using power_increasing_iff [of "2 :: nat" k 4] power_increasing_iff [of "2 :: nat" 4 k]
    by (simp add: max_def)
  moreover have "e \<le> hhdm + MAX_FRAMES * FRAME_SIZE" if se: "(s, e) \<in> set (regions (kheap st))" for s e
  proof -
    have "s < e" using region_okD [OF r(1) se] by simp
    then have "e - 1 \<in> heap_cells st"
      unfolding heap_cells_def region_cells_def by (intro UN_I [OF se]) auto
    with sub have "e - 1 < hhdm + MAX_FRAMES * FRAME_SIZE" by (meson atLeastLessThan_iff subsetD)
    then show ?thesis by linarith
  qed
  ultimately have room: "align_room (regions (kheap st)) (max align 16)"
    using l by (fastforce simp: align_room_def layout_ok_def intro: max.cobounded2)
  have sz: "sz < 2 ^ 63" using l by (simp add: layout_ok_def)
  have n: "block_size sz = align_up (max sz 1) 16" by (simp add: block_size_def ALIGN_GRANULE_def)
  note n' = rounded_size [OF sz, folded n]
  obtain r' h' where al: "allocate sz align (kheap st) = Some (r', h')"
    "regions h' = regions (kheap st)"
    "case alloc_blocks (block_size sz) (max align 16) bs of None \<Rightarrow> r' = None \<and> h' = kheap st
     | Some (a, bs') \<Rightarrow> r' = Some a \<and> heap_rep h' bs'"
    using allocate_rep [OF rep room sz n] by blast
  have same: "heap_cells (st\<lparr>kheap := h'\<rparr>) = heap_cells st" using al(2) by (simp add: heap_cells_def)
  show ?thesis
  proof (cases "alloc_blocks (block_size sz) (max align 16) bs")
    case None
    then show ?thesis
      using al same fr alloc_blocks_cases [OF None r(2) room n'(1,2)] by auto
  next
    case (Some ab)
    obtain a bs' where ab: "ab = (a, bs')" by fastforce
    note c = alloc_blocks_cases [OF Some [unfolded ab] r(2) room n'(1,2)]
    have rep': "heap_rep h' bs'" "r' = Some a" using al(3) Some ab by auto
    have "used \<union> {a ..< a + block_size sz} = heap_cells st - cells bs'"
      using c used inside by auto
    then have "kmem_view hhdm U (st\<lparr>kheap := h'\<rparr>) (used \<union> {a ..< a + block_size sz})"
      using v rep' same by (auto simp: kmem_view_def)
    then show ?thesis using al(1) same rep' c fr by auto
  qed
qed

lemma alloc_retry_view:
  assumes "kmem_view hhdm U st used" "layout_ok hhdm sz align"
  shows "\<exists>r st'. alloc_retry n hhdm sz align st = Some (r, st') \<and> heap_cells st \<subseteq> heap_cells st' \<and>
    (case r of
       None \<Rightarrow> kmem_view hhdm U st' used
     | Some a \<Rightarrow> max align 16 dvd a \<and> {a ..< a + block_size sz} \<inter> used = {} \<and>
         kmem_view hhdm U st' (used \<union> {a ..< a + block_size sz}))"
  using assms(1)
proof (induction n arbitrary: st)
  case 0
  then show ?case by simp
next
  case (Suc n)
  obtain ok st1 where g: "grow hhdm st = Some (ok, st1)" "kmem_view hhdm U st1 used"
    "if ok then heap_cells st \<subset> heap_cells st1
     else kheap st1 = kheap st \<and> free_set (bitmap (phys_mem st1)) = free_set (bitmap (phys_mem st))"
    using grow_cases [OF Suc.prems] by blast
  show ?case
  proof (cases ok)
    case False
    then show ?thesis using g by (simp add: heap_cells_def)
  next
    case True
    obtain r h' where a: "allocate sz align (kheap st1) = Some (r, h')"
      "heap_cells (st1\<lparr>kheap := h'\<rparr>) = heap_cells st1"
      "case r of
         None \<Rightarrow> h' = kheap st1 \<and>
           (\<forall>a. max align 16 dvd a \<longrightarrow> \<not> {a ..< a + block_size sz} \<subseteq> heap_cells st1 - used)
       | Some a \<Rightarrow> max align 16 dvd a \<and> {a ..< a + block_size sz} \<subseteq> heap_cells st1 - used \<and>
           kmem_view hhdm U (st1\<lparr>kheap := h'\<rparr>) (used \<union> {a ..< a + block_size sz})"
      using allocate_view [OF g(2) assms(2)] by blast
    show ?thesis
    proof (cases r)
      case None
      then have "kheap st1 = h'" using a(3) by simp
      then have same: "st1\<lparr>kheap := h'\<rparr> = st1" by auto
      obtain r' st' where t: "alloc_retry n hhdm sz align st1 = Some (r', st')"
        "heap_cells st1 \<subseteq> heap_cells st'"
        "case r' of
           None \<Rightarrow> kmem_view hhdm U st' used
         | Some a \<Rightarrow> max align 16 dvd a \<and> {a ..< a + block_size sz} \<inter> used = {} \<and>
             kmem_view hhdm U st' (used \<union> {a ..< a + block_size sz})"
        using Suc.IH [OF g(2)] by blast
      then have "alloc_retry (Suc n) hhdm sz align st = Some (r', st')"
        using g(1) True a(1) None same by simp
      moreover have "heap_cells st \<subseteq> heap_cells st'" using g(3) True t(2) by auto
      ultimately show ?thesis using t(3) by blast
    next
      case (Some p)
      then have "{p ..< p + block_size sz} \<inter> used = {}" using a(3) by auto
      then show ?thesis using g True a Some by auto
    qed
  qed
qed

lemma global_alloc_view:
  assumes v: "kmem_view hhdm U st used" and l: "layout_ok hhdm sz align"
  shows "\<exists>r st'. global_alloc hhdm sz align st = Some (r, st') \<and> heap_cells st \<subseteq> heap_cells st' \<and>
    (case r of
       None \<Rightarrow> kmem_view hhdm U st' used
     | Some a \<Rightarrow> max align 16 dvd a \<and> {a ..< a + block_size sz} \<inter> used = {} \<and>
         kmem_view hhdm U st' (used \<union> {a ..< a + block_size sz}))"
proof -
  have sz: "sz \<noteq> 0" using l by (simp add: layout_ok_def)
  obtain r h' where a: "allocate sz align (kheap st) = Some (r, h')"
    "heap_cells (st\<lparr>kheap := h'\<rparr>) = heap_cells st"
    "case r of
       None \<Rightarrow> h' = kheap st \<and>
         (\<forall>a. max align 16 dvd a \<longrightarrow> \<not> {a ..< a + block_size sz} \<subseteq> heap_cells st - used)
     | Some a \<Rightarrow> max align 16 dvd a \<and> {a ..< a + block_size sz} \<subseteq> heap_cells st - used \<and>
         kmem_view hhdm U (st\<lparr>kheap := h'\<rparr>) (used \<union> {a ..< a + block_size sz})"
    using allocate_view [OF v l] by blast
  show ?thesis
  proof (cases r)
    case (Some p)
    then have "{p ..< p + block_size sz} \<inter> used = {}" using a(3) by auto
    then show ?thesis using sz a Some by (simp add: global_alloc_def)
  next
    case None
    then have "st\<lparr>kheap := h'\<rparr> = st" using a(3) by simp
    moreover obtain r' st' where t: "alloc_retry MAX_REGIONS hhdm sz align st = Some (r', st')"
      "heap_cells st \<subseteq> heap_cells st'"
      "case r' of
         None \<Rightarrow> kmem_view hhdm U st' used
       | Some a \<Rightarrow> max align 16 dvd a \<and> {a ..< a + block_size sz} \<inter> used = {} \<and>
           kmem_view hhdm U st' (used \<union> {a ..< a + block_size sz})"
      using alloc_retry_view [OF v l] by blast
    moreover have "\<exists>x. heap_stats (kheap st') = Some x" if "r' = None"
      using t(3) that by (auto simp: kmem_view_def heap_stats_rep)
    ultimately show ?thesis
      using sz a(1) None by (cases r') (auto simp: global_alloc_def)
  qed
qed

text \<open>A run of heap bytes lies in one region, because regions never touch.\<close>

lemma block_in_region:
  assumes r: "regions_inv rs tot" and sub: "{a ..< a + n} \<subseteq> region_cells rs"
    and d: "16 dvd a" "16 dvd n" "0 < n"
  shows "block_ok rs (a, n)"
proof -
  have "a \<in> region_cells rs" using sub d(3) by auto
  then obtain s e where se: "(s, e) \<in> set rs" "s \<le> a" "a < e" by (auto simp: region_cells_def)
  have "a + n \<le> e"
  proof (rule ccontr)
    assume "\<not> ?thesis"
    then have "e \<in> region_cells rs" using se sub by (intro subsetD [OF sub]) auto
    then obtain t f where tf: "(t, f) \<in> set rs" "t \<le> e" "e < f" by (auto simp: region_cells_def)
    have "(s, e) \<noteq> (t, f)" using tf by auto
    then have "regions_apart (s, e) (t, f)" using r se tf by (auto simp: regions_inv_def pairwise_def)
    then show False using se tf by (auto simp: regions_apart_def)
  qed
  then show ?thesis using se d by (auto simp: block_ok_def intro!: bexI [of _ "(s, e)"])
qed

lemma global_dealloc_view:
  assumes v: "kmem_view hhdm U st used" and sz: "0 < sz" "sz < 2 ^ 63"
    and a: "16 dvd a" "{a ..< a + block_size sz} \<subseteq> used"
  shows "\<exists>st'. global_dealloc a sz st = Some st' \<and> heap_cells st' = heap_cells st \<and>
    kmem_view hhdm U st' (used - {a ..< a + block_size sz})"
proof -
  obtain bs where inv: "hhdm_ok hhdm" "pmm_inv U (phys_mem st)"
    and rep: "heap_rep (kheap st) bs" and used: "used = heap_cells st - cells bs"
    using v by (auto simp: kmem_view_def)
  have r: "regions_inv (regions (kheap st)) (total_bytes (kheap st))"
    using rep by (auto simp: heap_rep_def)
  have n: "block_size sz = align_up (max sz 1) 16" by (simp add: block_size_def ALIGN_GRANULE_def)
  note n' = rounded_size [OF sz(2), folded n]
  have blk: "block_ok (regions (kheap st)) (a, block_size sz)"
    using a used n' by (intro block_in_region [OF r]) (auto simp: heap_cells_def)
  have free: "{a ..< a + block_size sz} \<inter> cells bs = {}" using a used by blast
  obtain h' where h': "deallocate a sz (kheap st) = Some h'"
    "heap_rep h' (release_blocks a (block_size sz) bs)" "regions h' = regions (kheap st)"
    using deallocate_rep [OF rep n blk free] by blast
  have "a \<noteq> dangling" using a(1) by (auto simp: dangling_def)
  then have "global_dealloc a sz st = Some (st\<lparr>kheap := h'\<rparr>)"
    using sz h' by (simp add: global_dealloc_def)
  moreover have same: "heap_cells (st\<lparr>kheap := h'\<rparr>) = heap_cells st"
    using h' by (simp add: heap_cells_def)
  moreover have "used - {a ..< a + block_size sz} =
      heap_cells st - cells (release_blocks a (block_size sz) bs)"
    using used by (auto simp: cells_release_blocks)
  then have "kmem_view hhdm U (st\<lparr>kheap := h'\<rparr>) (used - {a ..< a + block_size sz})"
    using v h'(2) same by (auto simp: kmem_view_def)
  ultimately show ?thesis by blast
qed

lemma heap_empty_rep: "heap_rep (heap_empty m) []"
  by (simp add: heap_rep_def heap_empty_def regions_inv_def)

lemma heap_init_cases:
  assumes "pmm_inv U (phys_mem st)" "hhdm_ok hhdm"
  shows "case heap_init hhdm st of
      None \<Rightarrow> False
    | Some (Inl _) \<Rightarrow> \<not> (\<exists>f. frame_range f (INITIAL_FRAMES div 4) \<subseteq> free_set (bitmap (phys_mem st)))
    | Some (Inr st') \<Rightarrow> kmem_view hhdm U st' {} \<and> heap_cells st' \<noteq> {}"
proof -
  let ?ns = "[INITIAL_FRAMES, INITIAL_FRAMES div 2, INITIAL_FRAMES div 4]"
  have "\<forall>n \<in> set ?ns. 0 < n" by (simp add: INITIAL_FRAMES_def)
  then obtain r s where r: "alloc_first ?ns (phys_mem st) = Some (r, s)"
    "case r of
       None \<Rightarrow> \<forall>n \<in> set ?ns. \<forall>f. \<not> frame_range f n \<subseteq> free_set (bitmap (phys_mem st))
     | Some (p, n) \<Rightarrow> n \<in> set ?ns \<and> alloc_contiguous n (phys_mem st) = Some (Some p, s)"
    using alloc_first_cases [OF assms(1), of ?ns] by (auto split: option.splits)
  show ?thesis
  proof (cases r)
    case None
    then have "heap_init hhdm st = Some (Inl ())"
      using r(1) unfolding heap_init_def by simp
    then show ?thesis using r(2) None by simp
  next
    case (Some pn)
    obtain p n where pn: "pn = (p, n)" by fastforce
    let ?st = "\<lparr>phys_mem = phys_mem st, kheap = heap_empty (mem (kheap st))\<rparr>"
    have v: "kmem_view hhdm U ?st {}"
      using assms heap_empty_rep [of "mem (kheap st)"]
      by (auto simp: kmem_view_def heap_cells_def region_cells_def heap_empty_def)
    have n: "0 < n" "n \<le> GROW_FRAMES * 2"
      and al: "alloc_contiguous n (phys_mem ?st) = Some (Some p, s)"
      using r(2) Some pn by (auto simp: INITIAL_FRAMES_def GROW_FRAMES_def)
    have room: "length (regions (kheap ?st)) < MAX_REGIONS \<and>
        total_bytes (kheap ?st) + n * FRAME_SIZE \<le> MAX_HEAP_BYTES"
      using n by (simp add: heap_empty_def MAX_REGIONS_def MAX_HEAP_BYTES_def FRAME_SIZE_def GROW_FRAMES_def)
    obtain h' where "add_region (hhdm + p) (n * FRAME_SIZE) (kheap ?st) = Some (True, h')"
      "kmem_view hhdm U \<lparr>phys_mem = s, kheap = h'\<rparr> {}" "heap_cells ?st \<subset> region_cells (regions h')"
      using take_frames [OF v n al] room by auto
    then show ?thesis
      using r(1) Some pn unfolding heap_init_def by (auto simp: heap_cells_def)
  qed
qed

text \<open>A state for the examples: no free frames, and one free page in the heap.\<close>

definition kmem_demo :: kmem where
  "kmem_demo = \<lparr>phys_mem = \<lparr>bitmap = [], free_frames = 0, total_frames = 0, next_hint = 0\<rparr>,
     kheap = heap_demo\<rparr>"

lemma hhdm_demo: "hhdm_ok 0x10000"
  by (simp add: hhdm_ok_def MAX_FRAMES_def FRAME_SIZE_def dvd_def)

lemma kmem_demo_view: "kmem_view 0x10000 {} kmem_demo {}"
proof -
  have "heap_cells kmem_demo = {0x10000 ..< 0x11000}"
    by (simp add: kmem_demo_def heap_demo_def heap_cells_def region_cells_def)
  moreover have "pmm_inv {} (phys_mem kmem_demo)" "free_set (bitmap (phys_mem kmem_demo)) = {}"
    by (auto simp: kmem_demo_def pmm_inv_def free_set_def)
  moreover have "heap_rep (kheap kmem_demo) [(0x10000, 4096)]"
    using heap_demo_rep by (simp add: kmem_demo_def)
  ultimately show ?thesis
    using hhdm_demo unfolding kmem_view_def
    by (auto simp: MAX_FRAMES_def FRAME_SIZE_def intro!: exI [of _ "[(0x10000, 4096)]"])
qed

section \<open>Properties\<close>

text \<open>
  Adding a region is correct. It is refused, without any change, exactly when sixteen regions
  exist or the 64 MiB limit would be exceeded; otherwise the heap stays well formed, its regions
  cover the old addresses and the new ones (touching regions become one, however many the new
  interval connects), and all the new bytes are free.
\<close>

theorem add_region_correct:
  assumes "heap_rep h bs" "16 dvd start" "16 dvd n" "0 < n" "0 < start" "start + n < 2 ^ 64"
    and "{start ..< start + n} \<inter> region_cells (regions h) = {}"
  shows "\<exists>ok h'. add_region start n h = Some (ok, h') \<and>
    (ok \<longleftrightarrow> length (regions h) < MAX_REGIONS \<and> total_bytes h + n \<le> MAX_HEAP_BYTES) \<and>
    (if ok then (\<exists>bs'. heap_rep h' bs' \<and> cells bs' = cells bs \<union> {start ..< start + n}) \<and>
       region_cells (regions h') = region_cells (regions h) \<union> {start ..< start + n} \<and>
       total_bytes h' = total_bytes h + n
     else h' = h)"
  using assms by (rule add_region_rep)

theorem add_region_correct_witness:
  "\<exists>h'. add_region 0x11000 4096 heap_demo = Some (True, h') \<and>
     region_cells (regions h') = {0x10000 ..< 0x12000} \<and> total_bytes h' = 8192"
proof -
  have c: "region_cells (regions heap_demo) = {0x10000 ..< 0x11000}"
    by (simp add: heap_demo_def region_cells_def)
  have len: "length (regions heap_demo) < MAX_REGIONS \<and> total_bytes heap_demo + 4096 \<le> MAX_HEAP_BYTES"
    by (simp add: heap_demo_def MAX_REGIONS_def MAX_HEAP_BYTES_def)
  have "{0x10000 ..< 0x11000} \<union> {0x11000 ..< 0x11000 + 4096} = {0x10000 ..< 0x12000 :: nat}" by auto
  moreover have "total_bytes heap_demo = 4096" by (simp add: heap_demo_def)
  ultimately show ?thesis
    using add_region_correct [OF heap_demo_rep, of "0x11000" 4096] c len by auto
qed

text \<open>
  Growth never loses memory. From a good state \<open>grow\<close> returns in a good state. On success the
  heap has new bytes, none of them in use; when the heap refuses the region the frames go back and
  both the heap and the set of free frames are as before.
\<close>

theorem grow_no_leak:
  assumes "kmem_view hhdm U st used"
  shows "\<exists>ok st'. grow hhdm st = Some (ok, st') \<and> kmem_view hhdm U st' used \<and>
    (if ok then heap_cells st \<subset> heap_cells st'
     else kheap st' = kheap st \<and>
       free_set (bitmap (phys_mem st')) = free_set (bitmap (phys_mem st)))"
  using assms by (rule grow_cases)

theorem grow_no_leak_witness:
  "\<exists>ok st'. grow 0x10000 kmem_demo = Some (ok, st') \<and> kmem_view 0x10000 {} st' {}"
  using grow_no_leak [OF kmem_demo_view] by blast

text \<open>
  C11: the global allocator never hands out memory that is in use. For every valid layout the call
  returns, growing the heap up to sixteen times if it must; a pointer it returns is aligned, the
  bytes behind it were not in use, and exactly these bytes become used. A null result leaves the
  used bytes alone. No operation makes the heap smaller, and a page of the heap is never also a
  free frame.
\<close>

theorem global_alloc_safe:
  assumes "kmem_view hhdm U st used" "layout_ok hhdm sz align"
  shows "\<exists>r st'. global_alloc hhdm sz align st = Some (r, st') \<and> heap_cells st \<subseteq> heap_cells st' \<and>
    (case r of
       None \<Rightarrow> kmem_view hhdm U st' used
     | Some a \<Rightarrow> max align 16 dvd a \<and> {a ..< a + block_size sz} \<inter> used = {} \<and>
         kmem_view hhdm U st' (used \<union> {a ..< a + block_size sz}))"
  using assms by (rule global_alloc_view)

theorem global_alloc_safe_witness:
  "\<exists>r st'. global_alloc 0x10000 100 64 kmem_demo = Some (r, st') \<and>
     (case r of None \<Rightarrow> kmem_view 0x10000 {} st' {}
      | Some a \<Rightarrow> 64 dvd a \<and> kmem_view 0x10000 {} st' {a ..< a + block_size 100})"
proof -
  have "\<exists>k. (64 :: nat) = 2 ^ k" by (rule exI [of _ 6]) simp
  then have "layout_ok 0x10000 100 64" by (simp add: layout_ok_def MAX_FRAMES_def FRAME_SIZE_def)
  from global_alloc_safe [OF kmem_demo_view this] show ?thesis
    by (fastforce split: option.splits)
qed

text \<open>
  Releasing memory through the global allocator gives back exactly the bytes of the block, and
  keeps every invariant of the heap and of the frame allocator.
\<close>

theorem global_dealloc_safe:
  assumes "kmem_view hhdm U st used" "0 < sz" "sz < 2 ^ 63" "16 dvd a"
    and "{a ..< a + block_size sz} \<subseteq> used"
  shows "\<exists>st'. global_dealloc a sz st = Some st' \<and> heap_cells st' = heap_cells st \<and>
    kmem_view hhdm U st' (used - {a ..< a + block_size sz})"
  using assms by (rule global_dealloc_view)

theorem global_dealloc_safe_witness:
  "\<exists>r st'. global_alloc 0x10000 100 64 kmem_demo = Some (r, st') \<and>
     (case r of None \<Rightarrow> True | Some a \<Rightarrow>
        (\<exists>st''. global_dealloc a 100 st' = Some st'' \<and> kmem_view 0x10000 {} st'' {}))"
proof -
  have "\<exists>k. (64 :: nat) = 2 ^ k" by (rule exI [of _ 6]) simp
  then have "layout_ok 0x10000 100 64" by (simp add: layout_ok_def MAX_FRAMES_def FRAME_SIZE_def)
  from global_alloc_view [OF kmem_demo_view this] obtain r st' where
    r: "global_alloc 0x10000 100 64 kmem_demo = Some (r, st')"
    "case r of None \<Rightarrow> kmem_view 0x10000 {} st' {}
     | Some a \<Rightarrow> max 64 16 dvd a \<and> kmem_view 0x10000 {} st' ({} \<union> {a ..< a + block_size 100})"
    by (auto split: option.splits)
  have "\<exists>st''. global_dealloc a 100 st' = Some st'' \<and> kmem_view 0x10000 {} st'' {}" if "r = Some a" for a
  proof -
    have v: "kmem_view 0x10000 {} st' ({} \<union> {a ..< a + block_size 100})" "64 dvd a"
      using r(2) that by (auto simp: max_def)
    have "(16 :: nat) dvd 64" by simp
    then have "16 dvd a" using v(2) by (rule dvd_trans)
    from global_dealloc_safe [OF v(1) _ _ this, of 100] show ?thesis by auto
  qed
  with r(1) show ?thesis by (auto split: option.splits)
qed

text \<open>
  \<open>init\<close> panics only when the frame allocator has no run of 512 free frames at all; otherwise
  the memory subsystem starts in a good state with a non-empty heap and nothing in use.
\<close>

theorem heap_init_correct:
  assumes "pmm_inv U (phys_mem st)" "hhdm_ok hhdm"
  shows "case heap_init hhdm st of
      None \<Rightarrow> False
    | Some (Inl _) \<Rightarrow> \<not> (\<exists>f. frame_range f (INITIAL_FRAMES div 4) \<subseteq> free_set (bitmap (phys_mem st)))
    | Some (Inr st') \<Rightarrow> kmem_view hhdm U st' {} \<and> heap_cells st' \<noteq> {}"
  using assms by (rule heap_init_cases)

theorem heap_init_correct_witness:
  "\<exists>r. heap_init 0x10000 kmem_demo = Some r"
proof -
  have "pmm_inv {} (phys_mem kmem_demo)" by (auto simp: kmem_demo_def pmm_inv_def free_set_def)
  from heap_init_correct [OF this hhdm_demo] show ?thesis
    by (cases "heap_init 0x10000 kmem_demo") auto
qed

end
