(* ===== verification/Sched.thy ===== *)
theory Sched
  imports KernelHeap
begin

text \<open>
  The preemptive scheduler (\<open>kernel/src/task/mod.rs\<close>) and the context frames of
  \<open>task/ctx_switch.rs\<close>. The scheduler state is a record, one definition per operation; the values
  an operation reads from elsewhere (the interrupted stack pointer, the clocks, whether the
  \<open>try_lock\<close> succeeds) are arguments. The lock makes an operation one atomic step, so a run is a
  sequence of the steps of the inductive relation \<open>sched_step\<close>. Counters that cannot reach their
  width in the life of a machine (ticks, switches, task ids) are natural numbers. \<open>None\<close> as a
  result is a panic (an index out of range, an allocation of the standard library that fails, the
  overflow check of a debug build) or a search that does not return.
\<close>

section \<open>Tasks\<close>

datatype task_state = Ready | Running | Sleeping | Zombie | Blocked

fun as_str :: "task_state \<Rightarrow> string" where
  "as_str Ready = ''Ready''"
| "as_str Running = ''Running''"
| "as_str Sleeping = ''Sleep''"
| "as_str Zombie = ''Zombie''"
| "as_str Blocked = ''Block''"

datatype priority = Low | Normal | High | Critical

fun priority_code :: "priority \<Rightarrow> nat" where
  "priority_code Low = 0"
| "priority_code Normal = 1"
| "priority_code High = 2"
| "priority_code Critical = 3"

text \<open>The derived order of the Rust enum.\<close>

instantiation priority :: linorder
begin

definition less_eq_priority :: "priority \<Rightarrow> priority \<Rightarrow> bool" where
  "p \<le> q \<longleftrightarrow> priority_code p \<le> priority_code q"

definition less_priority :: "priority \<Rightarrow> priority \<Rightarrow> bool" where
  "p < q \<longleftrightarrow> priority_code p < priority_code q"

instance
proof
  fix p q r :: priority
  show "(p < q) = (p \<le> q \<and> \<not> q \<le> p)" by (auto simp: less_eq_priority_def less_priority_def)
  show "p \<le> p" by (simp add: less_eq_priority_def)
  show "p \<le> q \<Longrightarrow> q \<le> r \<Longrightarrow> p \<le> r" by (simp add: less_eq_priority_def)
  show "p \<le> q \<Longrightarrow> q \<le> p \<Longrightarrow> p = q" by (cases p; cases q) (auto simp: less_eq_priority_def)
  show "p \<le> q \<or> q \<le> p" by (auto simp: less_eq_priority_def)
qed

end

record task =
  task_id :: nat
  task_name :: string
  state :: task_state
  prio :: priority
  time_slices :: nat
  wake_time :: "nat option"
  entry :: "nat option"
  saved_rsp :: nat
  kstack_ptr :: nat
  kstack_top :: "nat option"
  user_rsp :: nat
  user_rflags :: nat
  cpu_ns :: nat
  last_start_ns :: nat
  last_idle_ns :: nat

record sched =
  tasks :: "task list"
  current :: "nat option"
  tick_count :: nat
  quantum :: nat
  next_id :: nat
  switches :: nat

text \<open>The registers outside the scheduler that a switch sets.\<close>

record cpu_env =
  tss_rsp0 :: nat
  syscall_stack :: nat
  sys_user_rsp :: nat
  sys_user_rflags :: nat

section \<open>Context frames\<close>

definition KERNEL_STACK_SIZE :: nat where "KERNEL_STACK_SIZE = 8 * 1024"
definition CONTEXT_SIZE :: nat where "CONTEXT_SIZE = 20 * 8"

text \<open>
  A context: the fifteen general registers in the order of the stubs' pushes (rax first, r15
  last), and the five words of the interrupt frame.
\<close>

record context_frame =
  gp_regs :: "nat list"
  f_rip :: nat
  f_cs :: nat
  f_rflags :: nat
  f_rsp :: nat
  f_ss :: nat

definition push_word :: "nat \<Rightarrow> nat \<times> (nat \<Rightarrow> nat) \<Rightarrow> nat \<times> (nat \<Rightarrow> nat)" where
  "push_word v s = (case s of (sp, m) \<Rightarrow> (sp - 8, m(sp - 8 := v)))"

text \<open>Interrupt entry by the processor, then the pushes of the stub; the result is \<open>ctx_ptr\<close>.\<close>

definition stub_save :: "context_frame \<Rightarrow> nat \<Rightarrow> (nat \<Rightarrow> nat) \<Rightarrow> nat \<times> (nat \<Rightarrow> nat)" where
  "stub_save c sp m =
     fold push_word ([f_ss c, f_rsp c, f_rflags c, f_cs c, f_rip c] @ gp_regs c) (sp, m)"

text \<open>The pops of the stub (r15 first) and \<open>iretq\<close>.\<close>

definition stub_restore :: "nat \<Rightarrow> (nat \<Rightarrow> nat) \<Rightarrow> context_frame" where
  "stub_restore sp m =
     \<lparr>gp_regs = rev (map (\<lambda>i. m (sp + 8 * i)) [0..<15]),
      f_rip = m (sp + 8 * 15), f_cs = m (sp + 8 * 16), f_rflags = m (sp + 8 * 17),
      f_rsp = m (sp + 8 * 18), f_ss = m (sp + 8 * 19)\<rparr>"

definition write_words :: "nat \<Rightarrow> nat list \<Rightarrow> (nat \<Rightarrow> nat) \<Rightarrow> (nat \<Rightarrow> nat)" where
  "write_words b ws m = fold (\<lambda>i m. m(b + 8 * i := ws ! i)) [0..<length ws] m"

definition prepare_task_stack :: "nat \<Rightarrow> nat \<Rightarrow> (nat \<Rightarrow> nat) \<Rightarrow> nat \<times> (nat \<Rightarrow> nat)" where
  "prepare_task_stack stack_top entry_pt m =
     (stack_top - 160,
      write_words (stack_top - 160)
        (replicate 15 0 @ [entry_pt, 0x08, 0x202, stack_top, 0x10]) m)"

definition prepare_user_task_stack ::
  "nat \<Rightarrow> nat \<Rightarrow> nat \<Rightarrow> (nat \<Rightarrow> nat) \<Rightarrow> nat \<times> (nat \<Rightarrow> nat)" where
  "prepare_user_task_stack stack_top entry_pt ursp m =
     (stack_top - 160,
      write_words (stack_top - 160)
        (replicate 15 0 @ [entry_pt, 0x23, 0x202, ursp, 0x1B]) m)"

section \<open>The clock tick\<close>

definition wake_due :: "nat \<Rightarrow> task \<Rightarrow> task" where
  "wake_due now t =
     (if state t = Sleeping then
        case wake_time t of
          None \<Rightarrow> t
        | Some wt \<Rightarrow> if now \<ge> wt then t\<lparr>state := Ready, wake_time := None\<rparr> else t
      else t)"

definition advance_tick :: "sched \<Rightarrow> sched" where
  "advance_tick s =
     s\<lparr>tick_count := tick_count s + 1, tasks := map (wake_due (tick_count s + 1)) (tasks s)\<rparr>"

definition charge :: "nat \<Rightarrow> nat \<Rightarrow> task \<Rightarrow> task" where
  "charge now_ns idle_now t =
     (if last_start_ns t \<noteq> 0
      then t\<lparr>cpu_ns := saturating_add64 (cpu_ns t)
               ((now_ns - last_start_ns t) - (idle_now - last_idle_ns t))\<rparr>
      else t)"

definition unless_ended :: "task \<Rightarrow> task" where
  "unless_ended t = (if state t = Running then t\<lparr>state := Ready\<rparr> else t)"

text \<open>The round-robin search; \<open>Some None\<close>: it came back to its start without a ready task.\<close>

partial_function (option) find_ready :: "task list \<Rightarrow> nat \<Rightarrow> nat \<Rightarrow> nat option option" where
  "find_ready ts start i =
     (if state (ts ! i) = Ready then Some (Some i)
      else if (i + 1) mod length ts = start then Some None
      else find_ready ts start ((i + 1) mod length ts))"

definition run_task :: "nat \<Rightarrow> nat \<Rightarrow> task \<Rightarrow> task" where
  "run_task now_ns idle_now t =
     t\<lparr>state := Running, last_start_ns := now_ns, last_idle_ns := idle_now\<rparr>"

text \<open>
  \<open>tick_and_switch\<close> and \<open>softirq_handler\<close>: the resulting stack pointer, scheduler and registers.
  \<open>got\<close> tells whether \<open>try_lock\<close> succeeds.
\<close>

definition tick_and_switch ::
  "bool \<Rightarrow> nat \<Rightarrow> nat \<Rightarrow> nat \<Rightarrow> sched option \<times> cpu_env \<Rightarrow> (nat \<times> sched option \<times> cpu_env) option" where
  "tick_and_switch got ctx_ptr now_ns idle_now st =
     (case st of
        (None, env) \<Rightarrow> Some (ctx_ptr, None, env)
      | (Some s0, env) \<Rightarrow>
          if \<not> got then Some (ctx_ptr, Some s0, env)
          else
            let s = advance_tick s0; tc = length (tasks s)
            in if tick_count s mod quantum s \<noteq> 0 \<or> tc \<le> 1 then Some (ctx_ptr, Some s, env)
               else
                 case current s of
                   None \<Rightarrow> Some (ctx_ptr, Some s, env)
                 | Some cur \<Rightarrow>
                     if cur \<ge> tc then None
                     else
                       let t1 = unless_ended (charge now_ns idle_now ((tasks s ! cur)\<lparr>saved_rsp := ctx_ptr\<rparr>));
                           ts = (tasks s)[cur := t1\<lparr>time_slices := time_slices t1 + 1\<rparr>]
                       in case find_ready ts ((cur + 1) mod tc) ((cur + 1) mod tc) of
                            None \<Rightarrow> None
                          | Some None \<Rightarrow>
                              Some (ctx_ptr, Some (s\<lparr>tasks := ts[cur := (ts ! cur)\<lparr>state := Running\<rparr>],
                                                     current := Some cur\<rparr>), env)
                          | Some (Some nxt) \<Rightarrow>
                              let t = ts ! nxt;
                                  env1 = (case kstack_top t of None \<Rightarrow> env
                                    | Some kt \<Rightarrow> env\<lparr>tss_rsp0 := kt, syscall_stack := kt\<rparr>)
                              in Some (saved_rsp t,
                                   Some (s\<lparr>tasks := ts[nxt := run_task now_ns idle_now t],
                                          current := Some nxt, switches := switches s + 1\<rparr>),
                                   env1\<lparr>sys_user_rsp := user_rsp t, sys_user_rflags := user_rflags t\<rparr>))"

definition softirq_handler ::
  "bool \<Rightarrow> nat \<Rightarrow> nat \<Rightarrow> nat \<Rightarrow> sched option \<times> cpu_env \<Rightarrow> (nat \<times> sched option \<times> cpu_env) option" where
  "softirq_handler got ctx_ptr now_ns idle_now st =
     (case st of
        (None, env) \<Rightarrow> Some (ctx_ptr, None, env)
      | (Some s, env) \<Rightarrow>
          if \<not> got then Some (ctx_ptr, Some s, env)
          else
            case current s of
              None \<Rightarrow> Some (ctx_ptr, Some s, env)
            | Some cur \<Rightarrow>
                let tc = length (tasks s)
                in if tc \<le> 1 then Some (ctx_ptr, Some s, env)
                   else if cur \<ge> tc then None
                   else
                     let ts = (tasks s)[cur :=
                           unless_ended (charge now_ns idle_now ((tasks s ! cur)\<lparr>saved_rsp := ctx_ptr\<rparr>))]
                     in case find_ready ts ((cur + 1) mod tc) ((cur + 1) mod tc) of
                          None \<Rightarrow> None
                        | Some None \<Rightarrow>
                            Some (ctx_ptr, Some (s\<lparr>tasks := ts[cur := (ts ! cur)\<lparr>state := Running\<rparr>]\<rparr>), env)
                        | Some (Some nxt) \<Rightarrow>
                            let t = ts ! nxt
                            in Some (saved_rsp t,
                                 Some (s\<lparr>tasks := ts[nxt := run_task now_ns idle_now t],
                                        current := Some nxt, switches := switches s + 1\<rparr>),
                                 (case kstack_top t of None \<Rightarrow> env | Some kt \<Rightarrow> env\<lparr>tss_rsp0 := kt\<rparr>)))"

definition note_tick :: "bool \<Rightarrow> sched option \<Rightarrow> sched option" where
  "note_tick got st = (if got then map_option advance_tick st else st)"

section \<open>Creating tasks\<close>

text \<open>
  The part of the kernel state that the task functions use: the scheduler behind its lock, the
  buffer of its task table (address and capacity of the \<open>Vec\<close>), the allocator state, and the words
  of the kernel stacks.
\<close>

record ksys =
  scheduler :: "sched option"
  sched_ready :: bool
  task_vec :: "nat \<times> nat"
  kernel_mem :: kmem
  stack_mem :: "nat \<Rightarrow> nat"

text \<open>\<open>alloc_zeroed\<close> is \<open>alloc\<close> followed by clearing the block.\<close>

definition alloc_kstack :: "nat \<Rightarrow> ksys \<Rightarrow> ((nat \<times> nat) option \<times> ksys) option" where
  "alloc_kstack hhdm st =
     (case global_alloc hhdm KERNEL_STACK_SIZE 16 (kernel_mem st) of
        None \<Rightarrow> None
      | Some (None, km) \<Rightarrow> Some (None, st\<lparr>kernel_mem := km\<rparr>)
      | Some (Some ptr, km) \<Rightarrow>
          Some (Some (ptr, ptr + KERNEL_STACK_SIZE),
            st\<lparr>kernel_mem := km,
               stack_mem := (\<lambda>a. if ptr \<le> a \<and> a < ptr + KERNEL_STACK_SIZE then 0 else stack_mem st a)\<rparr>))"

definition new_task ::
  "nat \<Rightarrow> string \<Rightarrow> task_state \<Rightarrow> priority \<Rightarrow> nat option \<Rightarrow> nat \<Rightarrow> nat \<Rightarrow> nat \<Rightarrow> task" where
  "new_task i name ts pr ent rsp ptr kt =
     \<lparr>task_id = i, task_name = name, state = ts, prio = pr, time_slices = 0, wake_time = None,
      entry = ent, saved_rsp = rsp, kstack_ptr = ptr, kstack_top = Some kt, user_rsp = 0,
      user_rflags = 0x200, cpu_ns = 0, last_start_ns = 0, last_idle_ns = 0\<rparr>"

text \<open>
  The allocations of the standard library behind a new task. \<open>String::from\<close> copies the name into a
  block of its own (none for an empty name). \<open>Vec::push\<close> on a full buffer allocates one of twice
  the capacity (at least the library's minimum for elements of that size), copies, and releases the
  old one: \<open>GlobalAlloc::realloc\<close> is not overridden. A failed allocation panics (\<open>None\<close>). The size
  \<open>tsz\<close> of a \<open>Task\<close> is chosen by the compiler and a parameter.
\<close>

definition string_alloc :: "nat \<Rightarrow> string \<Rightarrow> kmem \<Rightarrow> (nat \<times> kmem) option" where
  "string_alloc hhdm name km =
     (if name = [] then Some (dangling, km)
      else
        case global_alloc hhdm (length name) 1 km of
          None \<Rightarrow> None
        | Some (None, km) \<Rightarrow> None
        | Some (Some p, km) \<Rightarrow> Some (p, km))"

definition grown_cap :: "nat \<Rightarrow> nat \<Rightarrow> nat" where
  "grown_cap tsz cap =
     max (max (2 * cap) (cap + 1)) (if tsz = 1 then 8 else if tsz \<le> 1024 then 4 else 1)"

definition vec_push_mem ::
  "nat \<Rightarrow> nat \<Rightarrow> nat \<Rightarrow> nat \<times> nat \<Rightarrow> kmem \<Rightarrow> ((nat \<times> nat) \<times> kmem) option" where
  "vec_push_mem hhdm tsz len v km =
     (case v of (buf, cap) \<Rightarrow>
        if len \<noteq> cap then Some ((buf, cap), km)
        else if grown_cap tsz cap * tsz > 2 ^ 63 - 8 then None
        else
          case global_alloc hhdm (grown_cap tsz cap * tsz) 8 km of
            None \<Rightarrow> None
          | Some (None, km) \<Rightarrow> None
          | Some (Some p, km) \<Rightarrow>
              if cap = 0 then Some ((p, grown_cap tsz cap), km)
              else map_option (Pair (p, grown_cap tsz cap)) (global_dealloc buf (cap * tsz) km))"

text \<open>
  \<open>init\<close>: task 0 is the shell's thread, task 1 the idle task. If the second stack cannot be
  allocated, the scheduler under construction is dropped, which releases the first stack, the name
  \<open>kshell\<close> and the buffer of the table. It runs once, at boot, so it replaces no scheduler.
\<close>

definition sched_boot :: "nat \<Rightarrow> nat \<Rightarrow> nat \<Rightarrow> nat \<Rightarrow> nat \<Rightarrow> nat \<Rightarrow> sched" where
  "sched_boot idle_entry ptr0 top0 rsp1 ptr1 top1 =
     \<lparr>tasks =
        [new_task 0 ''kshell'' Running High None 0 ptr0 top0,
         new_task 1 ''idle'' Ready Low (Some idle_entry) rsp1 ptr1 top1],
      current = Some 0, tick_count = 0, quantum = 4, next_id = 2, switches = 0\<rparr>"

definition drop_first :: "nat \<Rightarrow> nat \<Rightarrow> nat \<Rightarrow> nat \<times> nat \<Rightarrow> kmem \<Rightarrow> kmem option" where
  "drop_first tsz ptr0 name0 v km =
     Option.bind (global_dealloc ptr0 KERNEL_STACK_SIZE km) (\<lambda>km.
     Option.bind (global_dealloc name0 (length ''kshell'') km) (\<lambda>km.
     global_dealloc (fst v) (snd v * tsz) km))"

definition sched_init :: "nat \<Rightarrow> nat \<Rightarrow> nat \<Rightarrow> ksys \<Rightarrow> ksys option" where
  "sched_init hhdm tsz idle_entry st =
     (case alloc_kstack hhdm st of
        None \<Rightarrow> None
      | Some (None, st) \<Rightarrow> Some st
      | Some (Some (ptr0, top0), st) \<Rightarrow>
          Option.bind (string_alloc hhdm ''kshell'' (kernel_mem st)) (\<lambda>(name0, km).
          Option.bind (vec_push_mem hhdm tsz 0 (8, 0) km) (\<lambda>(v, km).
          case alloc_kstack hhdm (st\<lparr>kernel_mem := km\<rparr>) of
            None \<Rightarrow> None
          | Some (None, st) \<Rightarrow>
              map_option (\<lambda>km. st\<lparr>kernel_mem := km\<rparr>) (drop_first tsz ptr0 name0 v (kernel_mem st))
          | Some (Some (ptr1, top1), st) \<Rightarrow>
              (case prepare_task_stack top1 idle_entry (stack_mem st) of
                 (rsp1, m) \<Rightarrow>
                   Option.bind (string_alloc hhdm ''idle'' (kernel_mem st)) (\<lambda>(_, km).
                   map_option
                     (\<lambda>(v, km).
                        st\<lparr>stack_mem := m, sched_ready := True, task_vec := v, kernel_mem := km,
                          scheduler := Some (sched_boot idle_entry ptr0 top0 rsp1 ptr1 top1)\<rparr>)
                     (vec_push_mem hhdm tsz 1 v km))))))"


section \<open>State changes by id\<close>

definition exit_task :: "nat \<Rightarrow> sched \<Rightarrow> sched" where
  "exit_task i s =
     (if i = 0 then s
      else s\<lparr>tasks := update_first (\<lambda>t. task_id t = i) (\<lambda>t. t\<lparr>state := Zombie\<rparr>) (tasks s)\<rparr>)"

text \<open>
  The sum \<open>tick_count + ticks\<close> is computed when a task has the id, in \<open>u64\<close>: beyond it the debug
  build panics (\<open>None\<close>).
\<close>

definition put_to_sleep :: "nat \<Rightarrow> nat \<Rightarrow> sched \<Rightarrow> sched" where
  "put_to_sleep i ticks s =
     s\<lparr>tasks := update_first (\<lambda>t. task_id t = i)
        (\<lambda>t. t\<lparr>state := Sleeping, wake_time := Some (tick_count s + ticks)\<rparr>) (tasks s)\<rparr>"

definition sleep_task :: "nat \<Rightarrow> nat \<Rightarrow> sched \<Rightarrow> sched option" where
  "sleep_task i ticks s =
     (if i \<in> task_id ` set (tasks s) \<and> tick_count s + ticks > u64_max then None
      else Some (put_to_sleep i ticks s))"

definition wake_task :: "nat \<Rightarrow> sched \<Rightarrow> sched" where
  "wake_task i s =
     s\<lparr>tasks := update_first (\<lambda>t. task_id t = i \<and> state t = Sleeping)
        (\<lambda>t. t\<lparr>state := Ready, wake_time := None\<rparr>) (tasks s)\<rparr>"

section \<open>Queries\<close>

definition task_count :: "sched option \<Rightarrow> nat" where
  "task_count st = (case st of None \<Rightarrow> 0 | Some s \<Rightarrow> length (tasks s))"

definition current_task :: "sched \<Rightarrow> task option" where
  "current_task s =
     (case current s of None \<Rightarrow> None
      | Some i \<Rightarrow> if i < length (tasks s) then Some (tasks s ! i) else None)"

definition current_task_id :: "sched option \<Rightarrow> nat option" where
  "current_task_id st = Option.bind st (\<lambda>s. map_option task_id (current_task s))"

definition get_kstack_top :: "sched option \<Rightarrow> nat option" where
  "get_kstack_top st = Option.bind st (\<lambda>s. Option.bind (current_task s) kstack_top)"

definition list_tasks :: "sched option \<Rightarrow> (nat \<times> string \<times> string) list" where
  "list_tasks st =
     (case st of None \<Rightarrow> []
      | Some s \<Rightarrow> map (\<lambda>t. (task_id t, task_name t, as_str (state t))) (tasks s))"

text \<open>The index \<open>sched.tasks[i]\<close> panics (\<open>None\<close>) when \<open>current\<close> is out of range.\<close>

definition list_tasks_detail ::
  "nat \<Rightarrow> nat \<Rightarrow> sched option \<Rightarrow> (nat \<times> string \<times> string \<times> nat \<times> nat) list option" where
  "list_tasks_detail now idle_now st =
     (case st of
        None \<Rightarrow> Some []
      | Some s \<Rightarrow>
          if tasks s \<noteq> [] \<and> (case current s of None \<Rightarrow> False | Some i \<Rightarrow> i \<ge> length (tasks s))
          then None
          else Some (map (\<lambda>t.
            (task_id t, task_name t, as_str (state t),
             (if map_option task_id (current_task s) = Some (task_id t) \<and> last_start_ns t \<noteq> 0
              then saturating_add64 (cpu_ns t)
                     ((now - last_start_ns t) - (idle_now - last_idle_ns t))
              else cpu_ns t),
             time_slices t)) (tasks s)))"

definition sched_stats :: "sched option \<Rightarrow> nat \<times> nat \<times> nat" where
  "sched_stats st =
     (case st of None \<Rightarrow> (0, 0, 0)
      | Some s \<Rightarrow> (tick_count s, switches s, length (tasks s)))"

definition kill_current_and_yield ::
  "bool \<Rightarrow> nat \<Rightarrow> nat \<Rightarrow> nat \<Rightarrow> sched option \<times> cpu_env \<Rightarrow> (nat \<times> sched option \<times> cpu_env) option" where
  "kill_current_and_yield got ctx now_ns idle_now st =
     (case st of (s, env) \<Rightarrow>
        let i = (case current_task_id s of None \<Rightarrow> 0 | Some i \<Rightarrow> i)
        in softirq_handler got ctx now_ns idle_now (map_option (exit_task i) s, env))"

section \<open>Steps\<close>

datatype sched_event =
    Tick bool nat nat nat
  | Yield bool nat nat nat
  | Note_tick bool
  | Exit_task nat
  | Sleep_task nat nat
  | Wake_task nat

inductive sched_step :: "sched_event \<Rightarrow> sched \<times> cpu_env \<Rightarrow> sched \<times> cpu_env \<Rightarrow> bool" where
  tick: "tick_and_switch got ctx now idle (Some s, env) = Some (rsp, Some s', env') \<Longrightarrow>
    sched_step (Tick got ctx now idle) (s, env) (s', env')"
| yield: "softirq_handler got ctx now idle (Some s, env) = Some (rsp, Some s', env') \<Longrightarrow>
    sched_step (Yield got ctx now idle) (s, env) (s', env')"
| note_tick: "note_tick got (Some s) = Some s' \<Longrightarrow> sched_step (Note_tick got) (s, env) (s', env)"
| exit_task: "sched_step (Exit_task i) (s, env) (exit_task i s, env)"
| sleep_task: "sleep_task i n s = Some s' \<Longrightarrow> sched_step (Sleep_task i n) (s, env) (s', env)"
| wake_task: "sched_step (Wake_task i) (s, env) (wake_task i s, env)"

inductive sched_run :: "sched_event list \<Rightarrow> sched \<times> cpu_env \<Rightarrow> sched \<times> cpu_env \<Rightarrow> bool" where
  run_done: "sched_run [] st st"
| run_step: "sched_step e st st' \<Longrightarrow> sched_run es st' st'' \<Longrightarrow> sched_run (e # es) st st''"

inductive_cases sched_stepE: "sched_step e (s, env) (s', env')"
inductive_cases run_NilE: "sched_run [] st st'"
inductive_cases run_ConsE: "sched_run (e # es) st st''"
inductive_simps run_Nil_iff: "sched_run [] st st'"

section \<open>The round-robin search\<close>

lemma find_ready_spec:
  assumes "start < length ts" "k < length ts"
    and "\<forall>j < k. state (ts ! ((start + j) mod length ts)) \<noteq> Ready"
  shows "find_ready ts start ((start + k) mod length ts) =
    Some (map_option (\<lambda>j. (start + j) mod length ts)
      (find (\<lambda>j. state (ts ! ((start + j) mod length ts)) = Ready) [k ..< length ts]))"
  using assms(2,3)
proof (induction "length ts - k" arbitrary: k rule: less_induct)
  case less
  let ?n = "length ts"
  have upt: "[k ..< ?n] = k # [Suc k ..< ?n]" using less.prems by (simp add: upt_conv_Cons)
  have nxt: "((start + k) mod ?n + 1) mod ?n = (start + Suc k) mod ?n"
    by (simp add: mod_Suc_eq)
  show ?case
  proof (cases "state (ts ! ((start + k) mod ?n)) = Ready")
    case True
    then show ?thesis by (subst find_ready.simps) (simp add: upt)
  next
    case False
    show ?thesis
    proof (cases "Suc k = ?n")
      case True
      then have "(start + Suc k) mod ?n = start" using assms(1) by simp
      then show ?thesis using False True nxt by (subst find_ready.simps) (simp add: upt)
    next
      case more: False
      then have k: "Suc k < ?n" using less.prems by simp
      have "(start + Suc k) mod ?n \<noteq> start"
        using k assms(1) by (cases "start + Suc k < ?n") (auto simp: mod_if)
      moreover have "\<forall>j < Suc k. state (ts ! ((start + j) mod ?n)) \<noteq> Ready"
        using less.prems False by (auto simp: less_Suc_eq)
      ultimately show ?thesis
        using less.hyps [of "Suc k"] k False nxt by (subst find_ready.simps) (simp add: upt)
    qed
  qed
qed

lemma find_upt:
  "find P [0 ..< n] = (if \<exists>j < n. P j then Some (LEAST j. P j) else None)"
proof (cases "\<exists>j < n. P j")
  case True
  then obtain j where j: "j < n" "P j" by blast
  define l where "l = (LEAST j. P j)"
  have l: "P l" "l \<le> j" "\<And>k. k < l \<Longrightarrow> \<not> P k"
    unfolding l_def by (rule LeastI [of P, OF j(2)], rule Least_le [of P, OF j(2)], rule not_less_Least)
  then have "find P [0 ..< n] = Some l"
    unfolding find_Some_iff using j(1) by (intro exI [of _ l]) auto
  then show ?thesis using True by (simp add: l_def)
next
  case False
  then have "find P [0 ..< n] = None" by (auto simp: find_None_iff)
  then show ?thesis using False by simp
qed

text \<open>The search from the successor of \<open>c\<close> finds the first ready task in cyclic order.\<close>

lemma find_ready_cases:
  assumes c: "c < length ts"
  obtains (found) j where "find_ready ts ((c + 1) mod length ts) ((c + 1) mod length ts) =
      Some (Some ((c + 1 + j) mod length ts))"
      "j < length ts" "state (ts ! ((c + 1 + j) mod length ts)) = Ready"
      "\<And>k. k < j \<Longrightarrow> state (ts ! ((c + 1 + k) mod length ts)) \<noteq> Ready"
  | (none_ready) "find_ready ts ((c + 1) mod length ts) ((c + 1) mod length ts) = Some None"
      "\<And>i. i < length ts \<Longrightarrow> state (ts ! i) \<noteq> Ready"
proof -
  let ?n = "length ts" and ?P = "\<lambda>j. state (ts ! ((c + 1 + j) mod length ts)) = Ready"
  have n: "0 < ?n" using c by auto
  have eq: "((c + 1) mod ?n + j) mod ?n = (c + 1 + j) mod ?n" for j by (simp add: mod_add_left_eq)
  have spec: "find_ready ts ((c + 1) mod ?n) ((c + 1) mod ?n) =
      Some (map_option (\<lambda>j. (c + 1 + j) mod ?n) (find ?P [0 ..< ?n]))"
    using find_ready_spec [of "(c + 1) mod ?n" ts 0] n by (simp only: eq) simp
  show thesis
  proof (cases "\<exists>j < ?n. ?P j")
    case True
    then obtain j where j: "j < ?n" "?P j" by blast
    then have l: "?P (LEAST j. ?P j)" "(LEAST j. ?P j) < ?n"
      by (auto intro: LeastI le_less_trans [OF Least_le])
    show thesis
      using spec True l not_less_Least [of _ ?P] by (intro found [of "LEAST j. ?P j"]) (auto simp: find_upt)
  next
    case False
    have "state (ts ! i) \<noteq> Ready" if i: "i < ?n" for i
    proof -
      have "(c + 1 + (i + ?n - (c + 1)) mod ?n) mod ?n = (c + 1 + (i + ?n - (c + 1))) mod ?n"
        by (rule mod_add_right_eq)
      also have "c + 1 + (i + ?n - (c + 1)) = i + ?n" using c by simp
      also have "(i + ?n) mod ?n = i" using i by simp
      finally show ?thesis using False n by (metis mod_less_divisor)
    qed
    moreover have "find_ready ts ((c + 1) mod ?n) ((c + 1) mod ?n) = Some None"
      using spec False by (simp add: find_upt)
    ultimately show thesis using none_ready by blast
  qed
qed

section \<open>The invariant\<close>

text \<open>
  Ids are positions, the current task exists, and no other task is running.
\<close>

definition sched_inv :: "sched \<Rightarrow> bool" where
  "sched_inv s \<longleftrightarrow>
     (\<exists>c. current s = Some c \<and> c < length (tasks s) \<and>
        (\<forall>i < length (tasks s). state (tasks s ! i) = Running \<longrightarrow> i = c)) \<and>
     map task_id (tasks s) = [0 ..< length (tasks s)] \<and> next_id s = length (tasks s) \<and>
     2 \<le> length (tasks s) \<and> quantum s = 4"

text \<open>What a switch may do to the scheduler.\<close>

definition can_run :: "sched \<Rightarrow> nat \<Rightarrow> nat \<Rightarrow> bool" where
  "can_run s c i \<longleftrightarrow> state (tasks s ! i) = Ready \<or> (i = c \<and> state (tasks s ! i) = Running)"

definition same_frame :: "sched \<Rightarrow> sched \<Rightarrow> bool" where
  "same_frame s s' \<longleftrightarrow> length (tasks s') = length (tasks s) \<and>
     map task_id (tasks s') = map task_id (tasks s) \<and> next_id s' = next_id s \<and>
     quantum s' = quantum s"

definition dispatched :: "sched \<Rightarrow> nat \<Rightarrow> nat \<Rightarrow> sched \<Rightarrow> bool" where
  "dispatched s c j s' \<longleftrightarrow>
     (let n = length (tasks s); nxt = (c + 1 + j) mod n in
      j < n \<and> can_run s c nxt \<and> (\<forall>k < j. \<not> can_run s c ((c + 1 + k) mod n)) \<and>
      current s' = Some nxt \<and> switches s' = switches s + 1 \<and> same_frame s s' \<and>
      (\<forall>i < n. state (tasks s' ! i) =
         (if i = nxt then Running
          else if i = c \<and> state (tasks s ! c) = Running then Ready else state (tasks s ! i))))"

definition stayed :: "sched \<Rightarrow> nat \<Rightarrow> sched \<Rightarrow> bool" where
  "stayed s c s' \<longleftrightarrow>
     (\<forall>i < length (tasks s). \<not> can_run s c i) \<and> current s' = Some c \<and> switches s' = switches s \<and>
     same_frame s s' \<and>
     (\<forall>i < length (tasks s). state (tasks s' ! i) = (if i = c then Running else state (tasks s ! i)))"

lemma charge_simps [simp]:
  "state (charge a b t) = state t" "task_id (charge a b t) = task_id t"
  by (auto simp: charge_def)

lemma unless_ended_simps [simp]:
  "state (unless_ended t) = (if state t = Running then Ready else state t)"
  "task_id (unless_ended t) = task_id t"
  by (auto simp: unless_ended_def)

lemma run_task_simps [simp]: "state (run_task a b t) = Running" "task_id (run_task a b t) = task_id t"
  by (auto simp: run_task_def)

lemma map_update_same: "i < length xs \<Longrightarrow> f y = f (xs ! i) \<Longrightarrow> map f (xs[i := y]) = map f xs"
  by (metis list_update_id map_update)

text \<open>The common part of the two handlers: the outgoing task is \<open>t\<close>, already saved.\<close>

lemma switch_outcome:
  assumes inv: "sched_inv s" "current s = Some c"
    and t: "state t = (if state (tasks s ! c) = Running then Ready else state (tasks s ! c))"
      "task_id t = task_id (tasks s ! c)"
    and ts: "ts = (tasks s)[c := t]"
  obtains (found) j where
      "find_ready ts ((c + 1) mod length (tasks s)) ((c + 1) mod length (tasks s)) =
         Some (Some ((c + 1 + j) mod length (tasks s)))"
      "(c + 1 + j) mod length (tasks s) < length (tasks s)"
      "\<And>s' :: sched. tasks s' = ts[(c + 1 + j) mod length (tasks s) :=
           run_task a b (ts ! ((c + 1 + j) mod length (tasks s)))] \<Longrightarrow>
         current s' = Some ((c + 1 + j) mod length (tasks s)) \<Longrightarrow> switches s' = switches s + 1 \<Longrightarrow>
         next_id s' = next_id s \<Longrightarrow> quantum s' = quantum s \<Longrightarrow> dispatched s c j s'"
  | (none_ready) "find_ready ts ((c + 1) mod length (tasks s)) ((c + 1) mod length (tasks s)) = Some None"
      "\<And>s' :: sched. tasks s' = ts[c := (ts ! c)\<lparr>state := Running\<rparr>] \<Longrightarrow>
         current s' = Some c \<Longrightarrow> switches s' = switches s \<Longrightarrow>
         next_id s' = next_id s \<Longrightarrow> quantum s' = quantum s \<Longrightarrow> stayed s c s'"
proof -
  let ?n = "length (tasks s)"
  have c: "c < ?n" and n: "0 < ?n" and run: "\<And>i. i < ?n \<Longrightarrow> state (tasks s ! i) = Running \<Longrightarrow> i = c"
    using inv by (auto simp: sched_inv_def)
  have len: "length ts = ?n" using ts by simp
  have cr: "state (ts ! i) = Ready \<longleftrightarrow> can_run s c i" if "i < ?n" for i
    using that t c ts by (cases "i = c") (auto simp: can_run_def)
  have st: "state (ts ! i) = (if i = c \<and> state (tasks s ! c) = Running then Ready else state (tasks s ! i))"
    if "i < ?n" for i
    using that t c ts by (cases "i = c") auto
  have ids: "map task_id ts = map task_id (tasks s)" using c t ts by (simp add: map_update_same)
  show thesis
  proof (cases rule: find_ready_cases [of c ts, unfolded len, OF c])
    case (1 j)
    let ?x = "(c + 1 + j) mod ?n"
    have x: "?x < ?n" using n by simp
    show thesis
    proof (rule found [of j])
      show "find_ready ts ((c + 1) mod ?n) ((c + 1) mod ?n) = Some (Some ?x)" using 1 by simp
      show "?x < ?n" by (fact x)
      fix s' :: sched assume s': "tasks s' = ts[?x := run_task a b (ts ! ?x)]" "current s' = Some ?x"
        "switches s' = switches s + 1" "next_id s' = next_id s" "quantum s' = quantum s"
      have "map task_id (tasks s') = map task_id (tasks s)"
        using s' x len ids by (simp add: map_update_same)
      moreover have "\<not> can_run s c ((c + 1 + k) mod ?n)" if "k < j" for k
        using 1(4) [OF that] cr n by simp
      ultimately show "dispatched s c j s'"
        using s' 1(2,3) x cr [OF x] st len
        by (simp add: dispatched_def same_frame_def Let_def nth_list_update)
    qed
  next
    case 2
    show thesis
    proof (rule none_ready)
      show "find_ready ts ((c + 1) mod ?n) ((c + 1) mod ?n) = Some None" using 2 by simp
      fix s' :: sched assume s': "tasks s' = ts[c := (ts ! c)\<lparr>state := Running\<rparr>]" "current s' = Some c"
        "switches s' = switches s" "next_id s' = next_id s" "quantum s' = quantum s"
      have "map task_id (tasks s') = map task_id (tasks s)"
        using s' c len ids by (simp add: map_update_same)
      then show "stayed s c s'"
        using s' 2(2) c cr st len by (auto simp: stayed_def same_frame_def nth_list_update)
    qed
  qed
qed

section \<open>The handlers preserve the invariant\<close>

lemma same_frame_refl [simp]: "same_frame s s"
  by (simp add: same_frame_def)

lemma softirq_cases:
  assumes "sched_inv s" "current s = Some c"
  shows "\<exists>rsp s' env'. softirq_handler got ctx now idle (Some s, env) = Some (rsp, Some s', env') \<and>
    (if got then (\<exists>j. dispatched s c j s' \<and> rsp = saved_rsp (tasks s' ! the (current s')))
               \<or> stayed s c s' \<and> rsp = ctx
     else s' = s \<and> rsp = ctx)"
proof (cases got)
  case True
  have c: "c < length (tasks s)" "1 < length (tasks s)" using assms by (auto simp: sched_inv_def)
  let ?t = "unless_ended (charge now idle ((tasks s ! c)\<lparr>saved_rsp := ctx\<rparr>))"
  have t: "state ?t = (if state (tasks s ! c) = Running then Ready else state (tasks s ! c))"
    "task_id ?t = task_id (tasks s ! c)" by simp_all
  show ?thesis
  proof (cases rule: switch_outcome [OF assms t refl, of now idle])
    case (1 j)
    let ?x = "(c + 1 + j) mod length (tasks s)"
    define s' where "s' = s\<lparr>tasks := (tasks s)[c := ?t,
        ?x := run_task now idle ((tasks s)[c := ?t] ! ?x)],
      current := Some ?x, switches := switches s + 1\<rparr>"
    have "dispatched s c j s'" by (rule 1(3)) (simp_all add: s'_def)
    moreover have "\<exists>env'. softirq_handler got ctx now idle (Some s, env) =
        Some (saved_rsp ((tasks s)[c := ?t] ! ?x), Some s', env')"
      using True c assms(2) 1(1) by (simp add: softirq_handler_def s'_def Let_def)
    moreover have "saved_rsp ((tasks s)[c := ?t] ! ?x) = saved_rsp (tasks s' ! the (current s'))"
      using 1(2) by (simp add: s'_def run_task_def)
    ultimately show ?thesis using True by auto
  next
    case 2
    define s' where "s' = s\<lparr>tasks := (tasks s)[c := ?t, c := ((tasks s)[c := ?t] ! c)\<lparr>state := Running\<rparr>]\<rparr>"
    have "stayed s c s'" by (rule 2(2)) (simp_all add: s'_def assms(2))
    moreover have "softirq_handler got ctx now idle (Some s, env) = Some (ctx, Some s', env)"
      using True c assms(2) 2(1) by (simp add: softirq_handler_def s'_def Let_def)
    ultimately show ?thesis using True by auto
  qed
next
  case False
  then show ?thesis by (simp add: softirq_handler_def)
qed

lemma wake_due_simps [simp]:
  "task_id (wake_due k t) = task_id t" "state (wake_due k t) = Running \<longleftrightarrow> state t = Running"
  "state (wake_due k t) = Zombie \<longleftrightarrow> state t = Zombie" "state t = Ready \<Longrightarrow> wake_due k t = t"
  by (auto simp: wake_due_def split: option.splits)

lemma advance_tick_simps [simp]:
  "length (tasks (advance_tick s)) = length (tasks s)" "current (advance_tick s) = current s"
  "map task_id (tasks (advance_tick s)) = map task_id (tasks s)"
  "next_id (advance_tick s) = next_id s" "quantum (advance_tick s) = quantum s"
  "switches (advance_tick s) = switches s" "tick_count (advance_tick s) = tick_count s + 1"
  "same_frame s (advance_tick s)"
  by (auto simp: advance_tick_def same_frame_def)

lemma advance_tick_nth:
  "i < length (tasks s) \<Longrightarrow> tasks (advance_tick s) ! i = wake_due (tick_count s + 1) (tasks s ! i)"
  by (simp add: advance_tick_def)

lemma advance_tick_inv: "sched_inv s \<Longrightarrow> sched_inv (advance_tick s)"
  by (auto simp: sched_inv_def advance_tick_nth)

lemma tick_cases:
  assumes "sched_inv s" "current s = Some c"
  shows "\<exists>rsp s' env'. tick_and_switch got ctx now idle (Some s, env) = Some (rsp, Some s', env') \<and>
    (if \<not> got then s' = s \<and> rsp = ctx
     else if (tick_count s + 1) mod 4 \<noteq> 0 then s' = advance_tick s \<and> rsp = ctx
     else (\<exists>j. dispatched (advance_tick s) c j s' \<and> rsp = saved_rsp (tasks s' ! the (current s')))
        \<or> stayed (advance_tick s) c s' \<and> rsp = ctx)"
proof (cases "got \<and> (tick_count s + 1) mod 4 = 0")
  case True
  let ?a = "advance_tick s"
  have inv: "sched_inv ?a" "current ?a = Some c" using assms by (auto intro: advance_tick_inv)
  have c: "c < length (tasks ?a)" "\<not> length (tasks ?a) \<le> 1" and q: "tick_count ?a mod quantum ?a = 0"
    using assms True by (auto simp: sched_inv_def)
  let ?t1 = "unless_ended (charge now idle ((tasks ?a ! c)\<lparr>saved_rsp := ctx\<rparr>))"
  let ?t = "?t1\<lparr>time_slices := time_slices ?t1 + 1\<rparr>"
  have t: "state ?t = (if state (tasks ?a ! c) = Running then Ready else state (tasks ?a ! c))"
    "task_id ?t = task_id (tasks ?a ! c)" by simp_all
  show ?thesis
  proof (cases rule: switch_outcome [OF inv t refl, of now idle])
    case (1 j)
    let ?x = "(c + 1 + j) mod length (tasks ?a)"
    define s' where "s' = ?a\<lparr>tasks := (tasks ?a)[c := ?t,
        ?x := run_task now idle ((tasks ?a)[c := ?t] ! ?x)],
      current := Some ?x, switches := switches ?a + 1\<rparr>"
    have "dispatched ?a c j s'" by (rule 1(3)) (simp_all add: s'_def)
    moreover have "\<exists>env'. tick_and_switch got ctx now idle (Some s, env) =
        Some (saved_rsp ((tasks ?a)[c := ?t] ! ?x), Some s', env')"
      using True c q inv(2) 1(1)
      unfolding tick_and_switch_def s'_def Let_def by (simp del: advance_tick_simps)
    moreover have "saved_rsp ((tasks ?a)[c := ?t] ! ?x) = saved_rsp (tasks s' ! the (current s'))"
      using 1(2) by (simp add: s'_def run_task_def)
    ultimately show ?thesis using True by auto
  next
    case 2
    define s' where "s' = ?a\<lparr>tasks := (tasks ?a)[c := ?t, c := ((tasks ?a)[c := ?t] ! c)\<lparr>state := Running\<rparr>],
      current := Some c\<rparr>"
    have "stayed ?a c s'" by (rule 2(2)) (simp_all add: s'_def)
    moreover have "tick_and_switch got ctx now idle (Some s, env) = Some (ctx, Some s', env)"
      using True c q inv(2) 2(1)
      unfolding tick_and_switch_def s'_def Let_def by (simp del: advance_tick_simps)
    ultimately show ?thesis using True by auto
  qed
next
  case False
  have "quantum s = 4" using assms(1) by (simp add: sched_inv_def)
  then show ?thesis using False by (auto simp: tick_and_switch_def Let_def)
qed

lemma same_frame_inv:
  assumes "sched_inv s" "same_frame s s'" "current s' = Some x" "x < length (tasks s)"
    and "\<And>i. i < length (tasks s) \<Longrightarrow> state (tasks s' ! i) = Running \<Longrightarrow> i = x"
  shows "sched_inv s'"
  using assms by (auto simp: sched_inv_def same_frame_def)

lemma dispatched_inv:
  assumes "sched_inv s" "current s = Some c" "dispatched s c j s'"
  shows "sched_inv s'"
proof -
  let ?x = "(c + 1 + j) mod length (tasks s)"
  have d: "current s' = Some ?x" "same_frame s s'"
    "\<And>i. i < length (tasks s) \<Longrightarrow> state (tasks s' ! i) =
       (if i = ?x then Running
        else if i = c \<and> state (tasks s ! c) = Running then Ready else state (tasks s ! i))"
    using assms(3) by (auto simp: dispatched_def Let_def)
  have n: "0 < length (tasks s)" and run: "\<And>i. i < length (tasks s) \<Longrightarrow> state (tasks s ! i) = Running \<Longrightarrow> i = c"
    using assms(1,2) by (auto simp: sched_inv_def)
  show ?thesis
  proof (rule same_frame_inv [OF assms(1) d(2,1)])
    show "?x < length (tasks s)" using n by simp
    fix i assume "i < length (tasks s)" "state (tasks s' ! i) = Running"
    with d(3) [of i] run [of i] show "i = ?x"
      by (metis task_state.distinct(1))
  qed
qed

lemma stayed_inv:
  assumes "sched_inv s" "current s = Some c" "stayed s c s'"
  shows "sched_inv s'"
proof -
  have c: "c < length (tasks s)" and run: "\<And>i. i < length (tasks s) \<Longrightarrow> state (tasks s ! i) = Running \<Longrightarrow> i = c"
    using assms(1,2) by (auto simp: sched_inv_def)
  have st: "current s' = Some c" "same_frame s s'"
    "\<And>i. i < length (tasks s) \<Longrightarrow> state (tasks s' ! i) = (if i = c then Running else state (tasks s ! i))"
    using assms(3) by (auto simp: stayed_def)
  show ?thesis
  proof (rule same_frame_inv [OF assms(1) st(2,1) c])
    fix i assume "i < length (tasks s)" "state (tasks s' ! i) = Running"
    with st(3) [of i] run [of i] show "i = c" by metis
  qed
qed

section \<open>Runs\<close>

lemma update_first_id:
  assumes "map task_id ts = [0 ..< length ts]" "\<And>t. task_id (f t) = task_id t"
  shows "map task_id (update_first (\<lambda>t. task_id t = i \<and> Q t) f ts) = map task_id ts"
    "k < length ts \<Longrightarrow> update_first (\<lambda>t. task_id t = i \<and> Q t) f ts ! k =
       (if k = i \<and> Q (ts ! k) then f (ts ! k) else ts ! k)"
proof -
  have pos: "task_id (ts ! j) = j" if "j < length ts" for j
    using assms(1) that by (metis length_map nth_map nth_upt plus_nat.add_0 add_0 length_upt minus_nat.diff_0)
  show "map task_id (update_first (\<lambda>t. task_id t = i \<and> Q t) f ts) = map task_id ts"
    by (rule map_update_first) (rule assms(2))
  assume k: "k < length ts"
  show "update_first (\<lambda>t. task_id t = i \<and> Q t) f ts ! k =
      (if k = i \<and> Q (ts ! k) then f (ts ! k) else ts ! k)"
    using k pos by (auto simp: update_first_nth)
qed

lemmas update_first_id' = update_first_id [where Q = "\<lambda>_. True", simplified]

lemma sched_ids: "sched_inv s \<Longrightarrow> map task_id (tasks s) = [0 ..< length (tasks s)]"
  by (simp add: sched_inv_def)

lemma id_ops:
  assumes "sched_inv s"
  shows "same_frame s (exit_task i s)" "same_frame s (put_to_sleep i n s)" "same_frame s (wake_task i s)"
    "current (exit_task i s) = current s" "current (put_to_sleep i n s) = current s"
    "current (wake_task i s) = current s"
    "switches (exit_task i s) = switches s" "switches (put_to_sleep i n s) = switches s"
    "switches (wake_task i s) = switches s"
    "k < length (tasks s) \<Longrightarrow> state (tasks (exit_task i s) ! k) =
       (if k = i \<and> i \<noteq> 0 then Zombie else state (tasks s ! k))"
    "k < length (tasks s) \<Longrightarrow> state (tasks (put_to_sleep i n s) ! k) =
       (if k = i then Sleeping else state (tasks s ! k))"
    "k < length (tasks s) \<Longrightarrow> state (tasks (wake_task i s) ! k) =
       (if k = i \<and> state (tasks s ! k) = Sleeping then Ready else state (tasks s ! k))"
  using update_first_id [OF sched_ids [OF assms]] update_first_id' [OF sched_ids [OF assms]]
  by (auto simp: exit_task_def put_to_sleep_def wake_task_def same_frame_def)

text \<open>A step either switches tasks or leaves the current task and the counter alone.\<close>

definition quiet :: "sched \<Rightarrow> sched \<Rightarrow> bool" where
  "quiet s s' \<longleftrightarrow> same_frame s s' \<and> current s' = current s \<and> switches s' = switches s"

lemma step_cases:
  assumes "sched_step e (s, env) (s', env')" and inv: "sched_inv s" and c: "current s = Some c"
  obtains (switch) a j where "a = s \<or> a = advance_tick s" "dispatched a c j s'"
      "(\<exists>x y z. e = Tick True x y z) \<or> (\<exists>x y z. e = Yield True x y z)"
  | (stay) a where "a = s \<or> a = advance_tick s" "stayed a c s'"
      "(\<exists>x y z. e = Tick True x y z) \<or> (\<exists>x y z. e = Yield True x y z)"
  | (idle) "s' = s \<or> s' = advance_tick s"
      "\<forall>x y z. e \<noteq> Yield True x y z"
  | (ended) i where "e = Exit_task i" "s' = exit_task i s"
  | (slept) i n where "e = Sleep_task i n" "s' = put_to_sleep i n s"
  | (woken) i where "e = Wake_task i" "s' = wake_task i s"
proof -
  note tick_res = tick_cases [OF inv c] and yield_res = softirq_cases [OF inv c]
  from assms(1) show thesis
  proof (rule sched_stepE)
    fix got ctx now idle' rsp
    assume e: "e = Tick got ctx now idle'"
      and t: "tick_and_switch got ctx now idle' (Some s, env) = Some (rsp, Some s', env')"
    have r: "if \<not> got then s' = s
      else if (tick_count s + 1) mod 4 \<noteq> 0 then s' = advance_tick s
      else (\<exists>j. dispatched (advance_tick s) c j s') \<or> stayed (advance_tick s) c s'"
      using tick_res [of got ctx now idle' env] t by (auto split: if_splits)
    show thesis
    proof (cases "got \<and> (tick_count s + 1) mod 4 = 0")
      case True
      then show ?thesis using r e switch [of "advance_tick s"] stay [of "advance_tick s"] by auto
    next
      case False
      then show ?thesis using r e idle by (auto split: if_splits)
    qed
  next
    fix got ctx now idle' rsp
    assume e: "e = Yield got ctx now idle'"
      and t: "softirq_handler got ctx now idle' (Some s, env) = Some (rsp, Some s', env')"
    have r: "if got then (\<exists>j. dispatched s c j s') \<or> stayed s c s' else s' = s"
      using yield_res [of got ctx now idle' env] t by (auto split: if_splits)
    show thesis
    proof (cases got)
      case True
      then show ?thesis using r e switch [of s] stay [of s] by auto
    next
      case False
      then show ?thesis using r e idle by auto
    qed
  next
    fix got assume "e = Note_tick got" "note_tick got (Some s) = Some s'"
    then show thesis using idle by (auto simp: note_tick_def split: if_splits)
  qed (use ended slept woken in \<open>auto simp: sleep_task_def split: if_splits\<close>)+
qed

lemma step_inv:
  assumes "sched_step e (s, env) (s', env')" and inv: "sched_inv s"
  shows "sched_inv s'" "length (tasks s') = length (tasks s)"
proof -
  obtain c where c: "current s = Some c" "c < length (tasks s)"
    "\<And>i. i < length (tasks s) \<Longrightarrow> state (tasks s ! i) = Running \<Longrightarrow> i = c"
    using inv by (auto simp: sched_inv_def)
  have adv: "sched_inv a \<and> current a = Some c \<and> length (tasks a) = length (tasks s)"
    if "a = s \<or> a = advance_tick s" for a
    using that inv c advance_tick_inv by auto
  have keep: "sched_inv t \<and> length (tasks t) = length (tasks s)"
    if "same_frame s t" "current t = current s"
      "\<And>k. k < length (tasks s) \<Longrightarrow> state (tasks t ! k) = Running \<Longrightarrow> state (tasks s ! k) = Running" for t
  proof
    show "sched_inv t"
      by (rule same_frame_inv [OF inv that(1) _ c(2)]) (use that(2) c(1) in simp, use that(3) c(3) in blast)
    show "length (tasks t) = length (tasks s)" using that(1) by (simp add: same_frame_def)
  qed
  from assms(1) inv c(1) have "sched_inv s' \<and> length (tasks s') = length (tasks s)"
  proof (cases rule: step_cases)
    case (switch a j)
    have "same_frame a s'" using switch(2) by (simp add: dispatched_def Let_def)
    then show ?thesis
      using adv [OF switch(1)] dispatched_inv [OF _ _ switch(2)] by (simp add: same_frame_def)
  next
    case (stay a)
    have "same_frame a s'" using stay(2) by (simp add: stayed_def)
    then show ?thesis
      using adv [OF stay(1)] stayed_inv [OF _ _ stay(2)] by (simp add: same_frame_def)
  next
    case idle
    then show ?thesis using adv by blast
  next
    case (ended i)
    then show ?thesis
      using id_ops [OF inv] by (simp only:, intro keep) (simp_all split: if_splits)
  next
    case (slept i n)
    then show ?thesis
      using id_ops [OF inv] by (simp only:, intro keep) (simp_all split: if_splits)
  next
    case (woken i)
    then show ?thesis
      using id_ops [OF inv] by (simp only:, intro keep) (simp_all split: if_splits)
  qed
  then show "sched_inv s'" "length (tasks s') = length (tasks s)" by auto
qed

lemma run_inv:
  "sched_run es (s, env) (s', env') \<Longrightarrow> sched_inv s \<Longrightarrow> sched_inv s' \<and> length (tasks s') = length (tasks s)"
proof (induction es arbitrary: s env)
  case Nil
  then show ?case by (auto simp: run_Nil_iff)
next
  case (Cons e es)
  from Cons.prems(1) obtain t tenv where "sched_step e (s, env) (t, tenv)" "sched_run es (t, tenv) (s', env')"
    by (auto elim: run_ConsE)
  with Cons.IH step_inv Cons.prems(2) show ?case by metis
qed

section \<open>Distance to a task\<close>

text \<open>\<open>ahead s j p\<close>: task \<open>j\<close> is the \<open>p\<close>-th candidate after the current task in cyclic order.\<close>

definition ahead :: "sched \<Rightarrow> nat \<Rightarrow> nat \<Rightarrow> bool" where
  "ahead s j p \<longleftrightarrow> p < length (tasks s) \<and>
     j = (the (current s) + 1 + p) mod length (tasks s)"

lemma ahead_exists:
  assumes "sched_inv s" "j < length (tasks s)"
  shows "\<exists>p. ahead s j p"
proof -
  obtain c where c: "current s = Some c" "c < length (tasks s)" using assms by (auto simp: sched_inv_def)
  let ?n = "length (tasks s)"
  have "(c + 1 + (j + ?n - (c + 1)) mod ?n) mod ?n = (c + 1 + (j + ?n - (c + 1))) mod ?n"
    by (rule mod_add_right_eq)
  also have "c + 1 + (j + ?n - (c + 1)) = j + ?n" using c by simp
  also have "(j + ?n) mod ?n = j" using assms(2) by simp
  finally have "(c + 1 + (j + ?n - (c + 1)) mod ?n) mod ?n = j" .
  moreover have "(j + ?n - (c + 1)) mod ?n < ?n" using assms(2) by (intro mod_less_divisor) auto
  ultimately show ?thesis
    using c(1) by (intro exI [of _ "(j + ?n - (c + 1)) mod ?n"]) (simp add: ahead_def)
qed

lemma dispatched_ahead:
  assumes d: "dispatched s c k s'" and c: "current s = Some c" and a: "ahead s j p"
    and r: "state (tasks s ! j) = Ready" and n: "0 < length (tasks s)"
  shows "current s' = Some j \<or>
    (state (tasks s' ! j) = Ready \<and> k < p \<and> ahead s' j (p - (k + 1)))"
proof -
  let ?n = "length (tasks s)"
  have j: "j = (c + 1 + p) mod ?n" "p < ?n" using a c by (auto simp: ahead_def)
  have jn: "j < ?n" using j n by simp
  have dd: "\<forall>q < k. \<not> can_run s c ((c + 1 + q) mod ?n)" "current s' = Some ((c + 1 + k) mod ?n)"
    "length (tasks s') = ?n"
    "state (tasks s' ! j) = (if j = (c + 1 + k) mod ?n then Running
       else if j = c \<and> state (tasks s ! c) = Running then Ready else state (tasks s ! j))"
    using d jn by (auto simp: dispatched_def Let_def same_frame_def)
  have "can_run s c j" using r by (simp add: can_run_def)
  then have "k \<le> p" using dd(1) j by (meson not_le)
  show ?thesis
  proof (cases "j = (c + 1 + k) mod ?n")
    case True
    then show ?thesis using dd by simp
  next
    case False
    then have "k < p" using \<open>k \<le> p\<close> j by (cases "k = p") auto
    have "((c + 1 + k) mod ?n + 1 + (p - (k + 1))) mod ?n = (c + 1 + k + 1 + (p - (k + 1))) mod ?n"
      unfolding add.assoc [of _ 1] by (rule mod_add_left_eq)
    also have "c + 1 + k + 1 + (p - (k + 1)) = c + 1 + p" using \<open>k < p\<close> by simp
    finally have "ahead s' j (p - (k + 1))" using dd(2,3) j \<open>k < p\<close> by (simp add: ahead_def)
    then show ?thesis using \<open>k < p\<close> dd(4) False r by simp
  qed
qed

definition spares :: "nat \<Rightarrow> sched_event \<Rightarrow> bool" where
  "spares j e \<longleftrightarrow> e \<noteq> Exit_task j \<and> (\<forall>n. e \<noteq> Sleep_task j n)"

text \<open>One step: the task gets the processor, or it stays ready and every dispatch brings it closer.\<close>

lemma step_progress:
  assumes st: "sched_step e (s, env) (s', env')" and inv: "sched_inv s" and j: "j < length (tasks s)"
    and r: "state (tasks s ! j) = Ready" and sp: "spares j e" and a: "ahead s j p"
  shows "current s' = Some j \<or>
    (state (tasks s' ! j) = Ready \<and> (\<exists>p'. ahead s' j p' \<and> p' + (switches s' - switches s) \<le> p) \<and>
     switches s \<le> switches s' \<and> ((\<exists>x y z. e = Yield True x y z) \<longrightarrow> switches s' = switches s + 1))"
proof -
  obtain c where c: "current s = Some c" using inv by (auto simp: sched_inv_def)
  have n: "0 < length (tasks s)" using j by auto
  have adv: "state (tasks b ! j) = Ready \<and> ahead b j p \<and> current b = Some c \<and>
      length (tasks b) = length (tasks s) \<and> switches b = switches s"
    if "b = s \<or> b = advance_tick s" for b
    using that r a j c by (auto simp: ahead_def advance_tick_nth)
  have keep: "ahead t j p" if "same_frame s t" "current t = current s" for t
    using a that by (auto simp: ahead_def same_frame_def)
  from st inv c show ?thesis
  proof (cases rule: step_cases)
    case (switch b k)
    have sw: "switches s' = switches s + 1"
      using switch(2) adv [OF switch(1)] by (simp add: dispatched_def Let_def)
    have "current s' = Some j \<or> (state (tasks s' ! j) = Ready \<and> k < p \<and> ahead s' j (p - (k + 1)))"
      using adv [OF switch(1)] n by (intro dispatched_ahead [OF switch(2)]) auto
    moreover have "p - (k + 1) + (switches s' - switches s) \<le> p" if "k < p" using sw that by simp
    ultimately show ?thesis using sw by auto
  next
    case (stay b)
    then have "can_run b c j" "\<forall>i < length (tasks b). \<not> can_run b c i"
      using adv [OF stay(1)] by (auto simp: can_run_def stayed_def)
    then show ?thesis using adv [OF stay(1)] j by auto
  next
    case idle
    then show ?thesis using adv [of s'] by auto
  next
    case (ended i)
    then have "i \<noteq> j" using sp by (auto simp: spares_def)
    then show ?thesis
      using ended keep [of s'] id_ops(1,4,7) [OF inv, of i] id_ops(10) [OF inv j, of i] r by auto
  next
    case (slept i m)
    then have "i \<noteq> j" using sp by (auto simp: spares_def)
    then show ?thesis
      using slept keep [of s'] id_ops(2,5,8) [OF inv, of i] id_ops(11) [OF inv j, of i] r by auto
  next
    case (woken i)
    then show ?thesis
      using keep [of s'] id_ops(3,6,9) [OF inv, of i] id_ops(12) [OF inv j, of i] r by auto
  qed
qed

fun is_yield :: "sched_event \<Rightarrow> bool" where
  "is_yield (Yield got _ _ _) = got"
| "is_yield _ = False"

lemma run_progress:
  assumes "sched_run es (s, env) (s', env')" "sched_inv s" "j < length (tasks s)"
    "state (tasks s ! j) = Ready" "\<forall>e \<in> set es. spares j e" "ahead s j p"
  shows "(\<exists>es1 e es2 t tenv u uenv. es = es1 @ e # es2 \<and> sched_run es1 (s, env) (t, tenv) \<and>
        sched_step e (t, tenv) (u, uenv) \<and> current u = Some j) \<or>
    (\<exists>p'. ahead s' j p' \<and> p' + length (filter is_yield es) \<le> p)"
  using assms
proof (induction es arbitrary: s env p)
  case Nil
  then show ?case by (auto simp: run_Nil_iff)
next
  case (Cons e es)
  obtain t tenv where st: "sched_step e (s, env) (t, tenv)" "sched_run es (t, tenv) (s', env')"
    using Cons.prems(1) by (auto elim: run_ConsE)
  have inv: "sched_inv t" "length (tasks t) = length (tasks s)" using step_inv [OF st(1) Cons.prems(2)] by auto
  have y: "is_yield e \<Longrightarrow> \<exists>x y z. e = Yield True x y z" by (cases e) auto
  consider "current t = Some j"
    | p' where "state (tasks t ! j) = Ready" "ahead t j p'" "p' + (switches t - switches s) \<le> p"
      "is_yield e \<Longrightarrow> switches t = switches s + 1"
    using step_progress [OF st(1) Cons.prems(2-4) _ Cons.prems(6)] Cons.prems(5) y by auto
  then show ?case
  proof cases
    case 1
    then have "e # es = [] @ e # es" "sched_run [] (s, env) (s, env)"
      by (simp_all add: run_done)
    then show ?thesis using st(1) 1 by blast
  next
    case 2
    have "(\<exists>es1 d es2 x xenv u uenv. es = es1 @ d # es2 \<and> sched_run es1 (t, tenv) (x, xenv) \<and>
        sched_step d (x, xenv) (u, uenv) \<and> current u = Some j) \<or>
      (\<exists>q. ahead s' j q \<and> q + length (filter is_yield es) \<le> p')"
      using Cons.IH [OF st(2) inv(1)] Cons.prems(3,5) inv(2) 2 by auto
    then show ?thesis
    proof
      assume "\<exists>es1 d es2 x xenv u uenv. es = es1 @ d # es2 \<and> sched_run es1 (t, tenv) (x, xenv) \<and>
        sched_step d (x, xenv) (u, uenv) \<and> current u = Some j"
      then obtain es1 d es2 x xenv u uenv where
        "es = es1 @ d # es2" "sched_run es1 (t, tenv) (x, xenv)" "sched_step d (x, xenv) (u, uenv)"
        "current u = Some j" by blast
      then have "e # es = (e # es1) @ d # es2" "sched_run (e # es1) (s, env) (x, xenv)"
        using run_step st(1) by auto
      then show ?thesis
        using \<open>sched_step d (x, xenv) (u, uenv)\<close> \<open>current u = Some j\<close> by blast
    next
      assume "\<exists>q. ahead s' j q \<and> q + length (filter is_yield es) \<le> p'"
      then obtain q where "ahead s' j q" "q + length (filter is_yield es) \<le> p'" by blast
      then have "q + length (filter is_yield (e # es)) \<le> p" using 2(3,4) by (cases "is_yield e") auto
      with \<open>ahead s' j q\<close> show ?thesis by blast
    qed
  qed
qed

section \<open>Tasks that ended\<close>

text \<open>The idle task is alive: ready, or running as the current task.\<close>

definition idle_alive :: "sched \<Rightarrow> bool" where
  "idle_alive s \<longleftrightarrow> state (tasks s ! 1) = Ready \<or> (state (tasks s ! 1) = Running \<and> current s = Some 1)"

lemma step_zombie:
  assumes st: "sched_step e (s, env) (s', env')" and inv: "sched_inv s" and al: "idle_alive s"
    and sp: "spares 1 e" "\<forall>n. e \<noteq> Sleep_task j n" and j: "j < length (tasks s)" "state (tasks s ! j) = Zombie"
  shows "idle_alive s'" "state (tasks s' ! j) = Zombie"
    "current s' = Some j \<longrightarrow> current s = Some j \<and> switches s' = switches s"
proof -
  obtain c where c: "current s = Some c" "c < length (tasks s)" using inv by (auto simp: sched_inv_def)
  have n: "1 < length (tasks s)" using inv by (simp add: sched_inv_def)
  have adv: "idle_alive b \<and> state (tasks b ! j) = Zombie \<and> current b = Some c \<and>
      length (tasks b) = length (tasks s) \<and> switches b = switches s \<and> sched_inv b"
    if "b = s \<or> b = advance_tick s" for b
    using that al j c n inv advance_tick_inv by (auto simp: idle_alive_def advance_tick_nth)
  have run1: "can_run b c 1" if "idle_alive b" "current b = Some c" for b
    using that by (auto simp: idle_alive_def can_run_def)
  from st inv c(1) have "idle_alive s' \<and> state (tasks s' ! j) = Zombie \<and>
    (current s' = Some j \<longrightarrow> current s = Some j \<and> switches s' = switches s)"
  proof (cases rule: step_cases)
    case (switch b k)
    let ?x = "(c + 1 + k) mod length (tasks s)"
    note b = adv [OF switch(1)]
    have d: "can_run b c ?x" "current s' = Some ?x"
      "\<And>i. i < length (tasks s) \<Longrightarrow> state (tasks s' ! i) = (if i = ?x then Running
         else if i = c \<and> state (tasks b ! c) = Running then Ready else state (tasks b ! i))"
      using switch(2) b by (auto simp: dispatched_def Let_def)
    have "?x \<noteq> j" using d(1) b by (auto simp: can_run_def)
    moreover have "idle_alive s'"
      using d(2) d(3) [of 1] n b by (auto simp: idle_alive_def)
    moreover have "state (tasks s' ! j) = Zombie" using d(3) [of j] j b \<open>?x \<noteq> j\<close> by auto
    ultimately show ?thesis using d(2) by simp
  next
    case (stay b)
    then show ?thesis using adv [OF stay(1)] run1 [of b] n by (auto simp: stayed_def)
  next
    case idle
    then show ?thesis using adv [of s'] c by auto
  next
    case (ended i)
    then have "i \<noteq> 1" using sp by (auto simp: spares_def)
    then show ?thesis
      using ended al j n id_ops(4,7) [OF inv, of i] id_ops(10) [OF inv, of _ i]
      by (auto simp: idle_alive_def)
  next
    case (slept i m)
    then have "i \<noteq> 1" "i \<noteq> j" using sp by (auto simp: spares_def)
    then show ?thesis
      using slept al j n id_ops(5,8) [OF inv, of i] id_ops(11) [OF inv, of _ i]
      by (auto simp: idle_alive_def)
  next
    case (woken i)
    then show ?thesis
      using al j n id_ops(6,9) [OF inv, of i] id_ops(12) [OF inv, of _ i]
      by (auto simp: idle_alive_def)
  qed
  then show "idle_alive s'" "state (tasks s' ! j) = Zombie"
    "current s' = Some j \<longrightarrow> current s = Some j \<and> switches s' = switches s" by auto
qed

lemma run_zombie:
  assumes "sched_run es (s, env) (s', env')" "sched_inv s" "idle_alive s"
    "\<forall>e \<in> set es. spares 1 e \<and> (\<forall>n. e \<noteq> Sleep_task j n)"
    "j < length (tasks s)" "state (tasks s ! j) = Zombie"
  shows "state (tasks s' ! j) = Zombie \<and> (current s' = Some j \<longrightarrow> current s = Some j)"
  using assms
proof (induction es arbitrary: s env)
  case Nil
  then show ?case by (simp add: run_Nil_iff)
next
  case (Cons e es)
  obtain t tenv where st: "sched_step e (s, env) (t, tenv)" "sched_run es (t, tenv) (s', env')"
    using Cons.prems(1) by (auto elim: run_ConsE)
  have inv: "sched_inv t" "length (tasks t) = length (tasks s)" using step_inv [OF st(1) Cons.prems(2)] by auto
  have z: "idle_alive t" "state (tasks t ! j) = Zombie" "current t = Some j \<longrightarrow> current s = Some j"
    using step_zombie [OF st(1) Cons.prems(2,3) _ _ Cons.prems(5,6)] Cons.prems(4) by auto
  show ?case using Cons.IH [OF st(2) inv(1) z(1)] Cons.prems(4,5) inv(2) z by auto
qed

section \<open>Frames in memory\<close>

lemma write_words_snoc:
  "write_words b (ws @ [w]) m = (write_words b ws m)(b + 8 * length ws := w)"
proof -
  have "fold (\<lambda>i m. m(b + 8 * i := (ws @ [w]) ! i)) [0 ..< length ws] m =
      fold (\<lambda>i m. m(b + 8 * i := ws ! i)) [0 ..< length ws] m"
    by (rule fold_cong) (auto simp: nth_append)
  then show ?thesis by (simp add: write_words_def)
qed

lemma write_words_nth:
  "i < length ws \<Longrightarrow> write_words b ws m (b + 8 * i) = ws ! i"
  by (induction ws rule: rev_induct) (auto simp: write_words_snoc nth_append less_Suc_eq)

lemma write_words_Cons:
  "write_words b (w # ws) m = (write_words (b + 8) ws m)(b := w)"
proof (induction ws rule: rev_induct)
  case Nil
  then show ?case by (simp add: write_words_def)
next
  case (snoc v ws)
  have "write_words b (w # ws @ [v]) m = (write_words b (w # ws) m)(b + 8 * Suc (length ws) := v)"
    using write_words_snoc [of b "w # ws" v m] by simp
  then show ?case using snoc by (auto simp: write_words_snoc fun_upd_twist add.assoc)
qed

lemma fold_push_word:
  "8 * length ws \<le> sp \<Longrightarrow>
   fold push_word ws (sp, m) = (sp - 8 * length ws, write_words (sp - 8 * length ws) (rev ws) m)"
proof (induction ws rule: rev_induct)
  case Nil
  then show ?case by (simp add: write_words_def)
next
  case (snoc w ws)
  define b where "b = sp - 8 * length (ws @ [w])"
  have b: "sp - 8 * length ws = b + 8" using snoc.prems by (simp add: b_def)
  have "fold push_word (ws @ [w]) (sp, m) = push_word w (b + 8, write_words (b + 8) (rev ws) m)"
    using snoc by (simp add: b)
  also have "\<dots> = (b, write_words b (rev (ws @ [w])) m)"
    by (simp add: push_word_def write_words_Cons)
  finally show ?case unfolding b_def .
qed

lemma stub_restore_words:
  assumes "length ws = 20"
  shows "stub_restore b (write_words b ws m) =
    \<lparr>gp_regs = rev (take 15 ws), f_rip = ws ! 15, f_cs = ws ! 16, f_rflags = ws ! 17,
     f_rsp = ws ! 18, f_ss = ws ! 19\<rparr>"
proof -
  have "map (\<lambda>i. write_words b ws m (b + 8 * i)) [0 ..< 15] = take 15 ws"
    using assms by (intro nth_equalityI) (auto simp: write_words_nth)
  then show ?thesis
    using assms write_words_nth [of 15 ws b m] write_words_nth [of 16 ws b m] write_words_nth [of 17 ws b m]
      write_words_nth [of 18 ws b m] write_words_nth [of 19 ws b m]
    by (simp add: stub_restore_def)
qed

lemma nth_frame: "length gs = 15 \<Longrightarrow>
  (gs @ [a, b, c, d, e]) ! 15 = a \<and> (gs @ [a, b, c, d, e]) ! 16 = b \<and> (gs @ [a, b, c, d, e]) ! 17 = c \<and>
  (gs @ [a, b, c, d, e]) ! 18 = d \<and> (gs @ [a, b, c, d, e]) ! 19 = e"
  by (simp add: nth_append)

section \<open>Initialisation\<close>

lemma kstack_fresh:
  assumes "kmem_view hhdm U (kernel_mem st) used" "layout_ok hhdm KERNEL_STACK_SIZE 16"
  shows "\<exists>r st'. alloc_kstack hhdm st = Some (r, st') \<and> scheduler st' = scheduler st \<and>
    (case r of
       None \<Rightarrow> kmem_view hhdm U (kernel_mem st') used
     | Some (ptr, kt) \<Rightarrow> kt = ptr + KERNEL_STACK_SIZE \<and> 16 dvd ptr \<and>
         {ptr ..< kt} \<inter> used = {} \<and> kmem_view hhdm U (kernel_mem st') (used \<union> {ptr ..< kt}))"
proof -
  have n: "block_size KERNEL_STACK_SIZE = KERNEL_STACK_SIZE"
    using align_up_eq [of KERNEL_STACK_SIZE 4]
    by (simp add: block_size_def ALIGN_GRANULE_def KERNEL_STACK_SIZE_def)
  obtain r km where g: "global_alloc hhdm KERNEL_STACK_SIZE 16 (kernel_mem st) = Some (r, km)"
    "case r of
       None \<Rightarrow> kmem_view hhdm U km used
     | Some a \<Rightarrow> max 16 16 dvd a \<and> {a ..< a + KERNEL_STACK_SIZE} \<inter> used = {} \<and>
         kmem_view hhdm U km (used \<union> {a ..< a + KERNEL_STACK_SIZE})"
    using global_alloc_view [OF assms] unfolding n by blast
  then show ?thesis by (cases r) (auto simp: alloc_kstack_def)
qed











lemma alloc_kstack_scheduler:
  "alloc_kstack hhdm st = Some (r, st') \<Longrightarrow> scheduler st' = scheduler st"
  by (auto simp: alloc_kstack_def split: option.splits)

lemma sched_boot_inv:
  "sched_inv (sched_boot e p0 t0 r1 p1 t1)" "idle_alive (sched_boot e p0 t0 r1 p1 t1)"
  by (auto simp: sched_boot_def sched_inv_def idle_alive_def new_task_def less_Suc_eq nth_Cons' upt_rec)

lemma yield_run:
  "sched_inv s \<Longrightarrow> \<exists>s' env'. sched_run (replicate n (Yield True 0 0 0)) (s, env) (s', env')"
proof (induction n arbitrary: s env)
  case 0
  then show ?case using run_done by auto
next
  case (Suc n)
  obtain c where c: "current s = Some c" using Suc.prems by (auto simp: sched_inv_def)
  obtain rsp t tenv where "softirq_handler True 0 0 0 (Some s, env) = Some (rsp, Some t, tenv)"
    using softirq_cases [OF Suc.prems c, of True 0 0 0 env] by blast
  then have st: "sched_step (Yield True 0 0 0) (s, env) (t, tenv)" by (rule sched_step.yield)
  obtain s' env' where "sched_run (replicate n (Yield True 0 0 0)) (t, tenv) (s', env')"
    using Suc.IH [OF step_inv(1) [OF st Suc.prems]] by blast
  with st show ?case using run_step by fastforce
qed



text \<open>A scheduler with the shell running, the idle task, and a worker.\<close>

definition sched_demo :: sched where
  "sched_demo =
     \<lparr>tasks = [new_task 0 ''kshell'' Running High None 0 0 0x2000,
               new_task 1 ''idle'' Ready Low (Some 7) 0x3f60 0x2000 0x4000,
               new_task 2 ''worker'' Ready Normal (Some 9) 0x5f60 0x4000 0x6000],
      current = Some 0, tick_count = 0, quantum = 4, next_id = 3, switches = 0\<rparr>"

definition env_demo :: cpu_env where
  "env_demo = \<lparr>tss_rsp0 = 0, syscall_stack = 0, sys_user_rsp = 0, sys_user_rflags = 0\<rparr>"

lemma sched_demo_inv: "sched_inv sched_demo"
  by (simp add: sched_inv_def sched_demo_def new_task_def nth_Cons' upt_rec)

section \<open>Properties\<close>

text \<open>
  The switching handlers are safe. In every state that satisfies the invariant the timer and
  the yield handler return (the search for a task ends, no index is out of range), keep the
  invariant (the current task exists, no other task is marked running, ids match positions) and
  neither create nor lose a task.
\<close>

theorem switch_handlers_safe:
  assumes "sched_inv s" "handler = tick_and_switch \<or> handler = softirq_handler"
  shows "\<exists>rsp s' env'. handler got ctx now idle (Some s, env) = Some (rsp, Some s', env') \<and>
    sched_inv s' \<and> length (tasks s') = length (tasks s)"
proof -
  obtain c where c: "current s = Some c" using assms(1) by (auto simp: sched_inv_def)
  obtain rsp s' env' where h: "handler got ctx now idle (Some s, env) = Some (rsp, Some s', env')"
    using assms(2) tick_cases [OF assms(1) c, of got ctx now idle env]
      softirq_cases [OF assms(1) c, of got ctx now idle env] by auto
  then have "sched_step (if handler = tick_and_switch then Tick got ctx now idle else Yield got ctx now idle)
      (s, env) (s', env')"
    using assms(2) sched_step.tick sched_step.yield by auto
  from step_inv [OF this assms(1)] h show ?thesis by blast
qed

theorem switch_handlers_safe_witness:
  "\<exists>rsp s' env'. softirq_handler True 0x1f00 10 0 (Some sched_demo, env_demo) = Some (rsp, Some s', env') \<and>
     sched_inv s'"
  using switch_handlers_safe [OF sched_demo_inv, of softirq_handler True "0x1f00" 10 0 env_demo] by auto

text \<open>
  C15: every state the scheduler can reach from the one that \<open>init\<close> installs, by any sequence of
  ticks, yields, exits, sleeps and wake-ups, satisfies the invariant, and no task is ever lost.
\<close>

theorem sched_reachable_inv:
  assumes "sched_run es (sched_boot idle_entry ptr0 top0 rsp1 ptr1 top1, env) (s', env')"
  shows "sched_inv s' \<and> length (tasks s') = 2"
  using run_inv [OF assms sched_boot_inv(1)] by (simp add: sched_boot_def)

theorem sched_reachable_inv_witness:
  "sched_inv (exit_task 1 (put_to_sleep 0 5 (sched_boot 7 0 0x2000 0x3f60 0x2000 0x4000)))"
proof -
  have "sched_run [Sleep_task 0 5, Exit_task 1] (sched_boot 7 0 0x2000 0x3f60 0x2000 0x4000, env_demo)
      (exit_task 1 (put_to_sleep 0 5 (sched_boot 7 0 0x2000 0x3f60 0x2000 0x4000)), env_demo)"
    by (rule run_step [OF sched_step.sleep_task run_step [OF sched_step.exit_task run_done]])
      (simp add: sleep_task_def sched_boot_def u64_max_def)
  from sched_reachable_inv [OF this] show ?thesis by blast
qed

text \<open>
  C16: round robin does not starve anyone. Let task \<open>j\<close> be ready. In any run in which nobody ends it
  or puts it to sleep, whatever else happens (ticks, other tasks ending, sleeping, waking), as soon
  as the run contains as many yields as there are tasks, \<open>j\<close> has been made the current task at some
  point.
\<close>

theorem no_starvation:
  assumes "sched_run es (s, env) (s', env')" "sched_inv s" "j < length (tasks s)"
    "state (tasks s ! j) = Ready" "\<forall>e \<in> set es. spares j e"
    and "length (tasks s) \<le> length (filter is_yield es)"
  shows "\<exists>es1 e es2 t tenv u uenv. es = es1 @ e # es2 \<and> sched_run es1 (s, env) (t, tenv) \<and>
    sched_step e (t, tenv) (u, uenv) \<and> current u = Some j"
proof -
  obtain p where p: "ahead s j p" "p < length (tasks s)"
    using ahead_exists [OF assms(2,3)] by (auto simp: ahead_def)
  from run_progress [OF assms(1-5) p(1)] p(2) assms(6) show ?thesis by auto
qed

theorem no_starvation_witness:
  "\<exists>t tenv u uenv. sched_step (Yield True 0 0 0) (t, tenv) (u, uenv) \<and> current u = Some 2"
proof -
  obtain s' env' where r: "sched_run (replicate 3 (Yield True 0 0 0)) (sched_demo, env_demo) (s', env')"
    using yield_run [OF sched_demo_inv] by blast
  have "\<exists>es1 e es2 t tenv u uenv. replicate 3 (Yield True 0 0 0) = es1 @ e # es2 \<and>
      sched_run es1 (sched_demo, env_demo) (t, tenv) \<and> sched_step e (t, tenv) (u, uenv) \<and> current u = Some 2"
    by (rule no_starvation [OF r sched_demo_inv])
      (simp_all add: sched_demo_def new_task_def spares_def numeral_3_eq_3)
  then show ?thesis by (metis in_set_conv_decomp in_set_replicate)
qed

text \<open>
  C17: a task that has ended is never run again. As long as nobody ends the idle task or puts it to
  sleep, and nobody calls \<open>sleep_task\<close> on the ended task, it stays a zombie through any run, and no
  switch makes it current.
\<close>

theorem zombies_stay_dead:
  assumes "sched_run es (s, env) (s', env')" "sched_inv s" "idle_alive s"
    "\<forall>e \<in> set es. spares 1 e \<and> (\<forall>n. e \<noteq> Sleep_task j n)"
    "j < length (tasks s)" "state (tasks s ! j) = Zombie"
  shows "state (tasks s' ! j) = Zombie \<and> (current s' = Some j \<longrightarrow> current s = Some j)"
  using assms by (rule run_zombie)

theorem zombies_stay_dead_witness:
  "\<exists>s' env'. sched_run [Yield True 0 0 0, Yield True 0 0 0] (exit_task 2 sched_demo, env_demo) (s', env') \<and>
     state (tasks s' ! 2) = Zombie"
proof -
  have st: "sched_step (Exit_task 2) (sched_demo, env_demo) (exit_task 2 sched_demo, env_demo)"
    by (rule sched_step.exit_task)
  have inv: "sched_inv (exit_task 2 sched_demo)" by (rule step_inv(1) [OF st sched_demo_inv])
  obtain s' env' where r: "sched_run (replicate 2 (Yield True 0 0 0)) (exit_task 2 sched_demo, env_demo) (s', env')"
    using yield_run [OF inv] by blast
  have "state (tasks s' ! 2) = Zombie \<and> (current s' = Some 2 \<longrightarrow> current (exit_task 2 sched_demo) = Some 2)"
    by (rule zombies_stay_dead [OF r inv])
      (simp_all add: exit_task_def sched_demo_def new_task_def spares_def idle_alive_def)
  with r show ?thesis by (auto simp: numeral_2_eq_2)
qed








text \<open>
  C19: saving and restoring a context loses nothing. What the interrupt frame and the stub's
  pushes store below the stack pointer is exactly what the pops and \<open>iretq\<close> load back, for every
  register.
\<close>

theorem context_roundtrip:
  assumes "length (gp_regs c) = 15" "CONTEXT_SIZE \<le> sp"
  shows "fst (stub_save c sp m) = sp - CONTEXT_SIZE \<and>
    stub_restore (sp - CONTEXT_SIZE) (snd (stub_save c sp m)) = c"
proof -
  let ?ws = "[f_ss c, f_rsp c, f_rflags c, f_cs c, f_rip c] @ gp_regs c"
  have len: "8 * length ?ws = CONTEXT_SIZE" using assms(1) by (simp add: CONTEXT_SIZE_def)
  have s: "stub_save c sp m = (sp - CONTEXT_SIZE, write_words (sp - CONTEXT_SIZE) (rev ?ws) m)"
    using fold_push_word [of ?ws sp m] assms(2) unfolding stub_save_def len by simp
  have "stub_restore (sp - CONTEXT_SIZE) (write_words (sp - CONTEXT_SIZE) (rev ?ws) m) = c"
    using stub_restore_words [of "rev ?ws" "sp - CONTEXT_SIZE" m] assms(1)
      nth_frame [of "rev (gp_regs c)" "f_rip c" "f_cs c" "f_rflags c" "f_rsp c" "f_ss c"] by simp
  with s show ?thesis by simp
qed

theorem context_roundtrip_witness:
  "stub_restore 0xf60 (snd (stub_save
      \<lparr>gp_regs = [1, 2, 3, 4, 5, 6, 7, 8, 9, 10, 11, 12, 13, 14, 15], f_rip = 16, f_cs = 8,
       f_rflags = 0x202, f_rsp = 17, f_ss = 0x10\<rparr> 0x1000 (\<lambda>_. 0))) =
    \<lparr>gp_regs = [1, 2, 3, 4, 5, 6, 7, 8, 9, 10, 11, 12, 13, 14, 15], f_rip = 16, f_cs = 8,
     f_rflags = 0x202, f_rsp = 17, f_ss = 0x10\<rparr>"
  using context_roundtrip [of "\<lparr>gp_regs = [1, 2, 3, 4, 5, 6, 7, 8, 9, 10, 11, 12, 13, 14, 15],
      f_rip = 16, f_cs = 8, f_rflags = 0x202, f_rsp = 17, f_ss = 0x10\<rparr>" "0x1000" "\<lambda>_. 0"]
  by (simp add: CONTEXT_SIZE_def)

end
