(* ===== verification/Path.thy ===== *)
theory Path
  imports Prelude "HOL-Library.Sublist"
begin

text \<open>
  Paths of the file system layer: \<open>normalize_path\<close> of \<open>fs/ramfs.rs\<close>, \<open>resolve_path\<close> of
  \<open>fs/mod.rs\<close> and the third, string-based normaliser of \<open>fs/mount.rs\<close>. Strings are their bytes
  (UTF-8 in the code; every character these functions look at is an ASCII byte).
\<close>

section \<open>Splitting and joining\<close>

text \<open>\<open>s.split(c)\<close>.\<close>

fun split_on :: "char \<Rightarrow> string \<Rightarrow> string list" where
  "split_on c [] = [[]]"
| "split_on c (x # xs) =
     (if x = c then [] # split_on c xs
      else (case split_on c xs of [] \<Rightarrow> [[x]] | p # ps \<Rightarrow> (x # p) # ps))"

text \<open>\<open>s.rfind(c)\<close>.\<close>

definition rfind :: "char \<Rightarrow> string \<Rightarrow> nat option" where
  "rfind c s = map_option (\<lambda>i. length s - 1 - i) (position (\<lambda>x. x = c) (rev s))"

definition slash :: char where "slash = CHR ''/''"

definition push_part :: "string list \<Rightarrow> string \<Rightarrow> string list" where
  "push_part parts part =
     (if part = [] \<or> part = ''.'' then parts
      else if part = ''..'' then butlast parts
      else parts @ [part])"

definition join_parts :: "string list \<Rightarrow> string" where
  "join_parts parts = concat (map (\<lambda>p. slash # p) parts)"

definition render :: "string list \<Rightarrow> string" where
  "render parts = (if parts = [] then [slash] else join_parts parts)"

definition normalize_path :: "string \<Rightarrow> string" where
  "normalize_path path = render (foldl push_part [] (split_on slash path))"

definition resolve_path :: "string \<Rightarrow> string \<Rightarrow> string" where
  "resolve_path base path =
     (let start = (if path \<noteq> [] \<and> hd path = slash then [] else filter (\<lambda>p. p \<noteq> []) (split_on slash base))
      in render (foldl push_part start (split_on slash path)))"

text \<open>The parent directory that \<open>parent_exists\<close> looks up.\<close>

definition parent_path :: "string \<Rightarrow> string" where
  "parent_path path =
     (case rfind slash path of
        None \<Rightarrow> [slash]
      | Some i \<Rightarrow> if i = 0 then [slash] else take i path)"

text \<open>\<open>mount::normalize_path\<close>: a \<open>..\<close> pops trailing slashes and then the last component's bytes.\<close>

definition pop_component :: "string \<Rightarrow> string" where
  "pop_component s = rev (dropWhile (\<lambda>x. x \<noteq> slash) (dropWhile (\<lambda>x. x = slash) (rev s)))"

definition mount_part :: "string \<Rightarrow> string \<Rightarrow> string" where
  "mount_part acc part =
     (if part = ''.'' then acc
      else if part = ''..'' then pop_component acc
      else acc @ slash # part)"

definition mount_normalize :: "string \<Rightarrow> string" where
  "mount_normalize path =
     (if path = [] then [slash]
      else
        let r = foldl mount_part [] (filter (\<lambda>p. p \<noteq> []) (split_on slash path))
        in if r = [] then [slash] else r)"

section \<open>Lemmas on split and join\<close>

lemma split_on_nonempty [simp]: "split_on c s \<noteq> []"
  by (cases s) (auto split: list.splits)

lemma split_on_parts: "p \<in> set (split_on c s) \<Longrightarrow> c \<notin> set p"
  by (induction s arbitrary: p) (auto split: list.splits if_splits)

lemma split_on_free: "c \<notin> set p \<Longrightarrow> split_on c p = [p]"
  by (induction p) auto

lemma split_on_append: "c \<notin> set p \<Longrightarrow> split_on c (p @ c # s) = p # split_on c s"
  by (induction p) auto

lemma split_on_join:
  "\<forall>p \<in> set ps. slash \<notin> set p \<Longrightarrow> ps \<noteq> [] \<Longrightarrow> split_on slash (join_parts ps) = [] # ps"
proof (induction ps)
  case (Cons p ps)
  show ?case
  proof (cases ps)
    case Nil
    then show ?thesis using Cons by (simp add: join_parts_def split_on_free)
  next
    case (Cons q qs)
    have "split_on slash (p @ join_parts ps) = p # tl (split_on slash (join_parts ps))"
      using Cons Cons.prems by (simp add: join_parts_def split_on_append)
    then show ?thesis using Cons.IH Cons Cons.prems by (simp add: join_parts_def)
  qed
qed simp

text \<open>A component that normalisation keeps.\<close>

definition good_part :: "string \<Rightarrow> bool" where
  "good_part p \<longleftrightarrow> p \<noteq> [] \<and> p \<noteq> ''.'' \<and> p \<noteq> ''..'' \<and> slash \<notin> set p"

definition good_parts :: "string list \<Rightarrow> bool" where
  "good_parts ps \<longleftrightarrow> list_all good_part ps"

lemma good_parts_simps [simp]:
  "good_parts []" "good_parts (p # ps) \<longleftrightarrow> good_part p \<and> good_parts ps"
  "good_parts (ps @ qs) \<longleftrightarrow> good_parts ps \<and> good_parts qs"
  by (auto simp: good_parts_def)

lemma good_parts_butlast: "good_parts ps \<Longrightarrow> good_parts (butlast ps)"
  by (cases ps rule: rev_cases) auto

lemma push_parts_good:
  "good_parts acc \<Longrightarrow> \<forall>p \<in> set ps. slash \<notin> set p \<Longrightarrow> good_parts (foldl push_part acc ps)"
  by (induction ps arbitrary: acc) (auto simp: push_part_def good_part_def good_parts_butlast)

lemma push_good_parts: "good_parts ps \<Longrightarrow> foldl push_part acc ps = acc @ ps"
  by (induction ps arbitrary: acc) (auto simp: push_part_def good_part_def)

lemma split_on_render:
  assumes "good_parts ps"
  shows "foldl push_part acc (split_on slash (render ps)) = acc @ ps"
proof (cases "ps = []")
  case True
  then show ?thesis by (simp add: render_def push_part_def)
next
  case False
  have "\<forall>p \<in> set ps. slash \<notin> set p"
    using assms by (auto simp: good_parts_def list_all_iff good_part_def)
  then show ?thesis
    using False push_good_parts [OF assms] by (simp add: render_def split_on_join push_part_def)
qed

lemma normalize_render: "good_parts ps \<Longrightarrow> normalize_path (render ps) = render ps"
  by (simp add: normalize_path_def split_on_render)

lemma render_inj: "good_parts ps \<Longrightarrow> good_parts qs \<Longrightarrow> render ps = render qs \<Longrightarrow> ps = qs"
  by (metis append_Nil split_on_render)

lemma hd_render [simp]: "render ps \<noteq> []" "hd (render ps) = slash"
  by (cases ps; simp add: render_def join_parts_def)+

text \<open>The normal paths are the renderings of lists of good components.\<close>

definition normal :: "string \<Rightarrow> bool" where
  "normal p \<longleftrightarrow> (\<exists>ps. good_parts ps \<and> p = render ps)"

lemma normalE: assumes "normal p" obtains ps where "good_parts ps" "p = render ps"
  using assms by (auto simp: normal_def)

lemma normal_render [intro]: "good_parts ps \<Longrightarrow> normal (render ps)"
  by (auto simp: normal_def)

lemma normalize_normal: "normal (normalize_path p)"
  unfolding normalize_path_def
  by (intro normal_render push_parts_good) (auto dest: split_on_parts)

lemma normalize_id: "normal p \<Longrightarrow> normalize_path p = p"
  by (auto simp: normal_def normalize_render)

lemma resolve_normal:
  assumes "normal base"
  shows "normal (resolve_path base p)"
proof -
  obtain bs where bs: "good_parts bs" "base = render bs" using assms by (rule normalE)
  have "good_parts (filter (\<lambda>p. p \<noteq> []) (split_on slash (render bs)))"
  proof (cases "bs = []")
    case True
    then show ?thesis by (simp add: render_def)
  next
    case False
    have "\<forall>p \<in> set bs. slash \<notin> set p" "filter (\<lambda>p. p \<noteq> []) bs = bs"
      using bs by (auto simp: good_parts_def list_all_iff good_part_def intro: filter_True)
    then show ?thesis using False bs by (simp add: render_def split_on_join)
  qed
  then show ?thesis
    unfolding resolve_path_def Let_def bs
    by (intro normal_render push_parts_good) (auto dest: split_on_parts)
qed

lemma resolve_absolute: "p \<noteq> [] \<Longrightarrow> hd p = slash \<Longrightarrow> resolve_path base p = normalize_path p"
  by (simp add: resolve_path_def normalize_path_def)

lemma resolve_id: "normal p \<Longrightarrow> resolve_path base p = p"
  by (metis hd_render normalE normalize_id resolve_absolute)

section \<open>Normalisers\<close>

text \<open>What the callers of a normaliser rely on.\<close>

locale path_normaliser =
  fixes norm :: "string \<Rightarrow> string"
  assumes norm_normal: "normal (norm p)"
    and norm_id: "normal p \<Longrightarrow> norm p = p"
begin

lemma norm_idem: "norm (norm p) = norm p"
  by (rule norm_id) (rule norm_normal)

lemma norm_absolute: "norm p \<noteq> [] \<and> hd (norm p) = slash"
  using norm_normal [of p] by (auto elim: normalE)

lemma norm_no_dots:
  "\<exists>ps. norm p = render ps \<and> (\<forall>c \<in> set ps. c \<noteq> [] \<and> c \<noteq> ''.'' \<and> c \<noteq> ''..'' \<and> slash \<notin> set c)"
  using norm_normal [of p] by (auto simp: normal_def good_parts_def list_all_iff good_part_def)

end

interpretation ram_norm: path_normaliser normalize_path
  by unfold_locales (rule normalize_normal, rule normalize_id)

interpretation cwd_norm: path_normaliser "resolve_path (normalize_path cwd)" for cwd
  by unfold_locales (rule resolve_normal, rule normalize_normal, rule resolve_id)

section \<open>Parents\<close>

lemma rfind_last: "c \<notin> set p \<Longrightarrow> rfind c (s @ c # p) = Some (length s)"
proof -
  assume c: "c \<notin> set p"
  have "position (\<lambda>x. x = c) (rev p @ c # rev s) = Some (length p)" using c
  proof (induction p rule: rev_induct)
    case (snoc x xs)
    then show ?case by auto
  qed simp
  then show ?thesis by (simp add: rfind_def)
qed

lemma join_parts_append [simp]: "join_parts (ps @ qs) = join_parts ps @ join_parts qs"
  "join_parts [] = []" "join_parts (p # ps) = slash # p @ join_parts ps"
  by (auto simp: join_parts_def)

lemma parent_render: "good_parts (ps @ [p]) \<Longrightarrow> parent_path (render (ps @ [p])) = render ps"
proof -
  assume g: "good_parts (ps @ [p])"
  then have "rfind slash (join_parts ps @ slash # p) = Some (length (join_parts ps))"
    by (intro rfind_last) (auto simp: good_part_def)
  then show ?thesis
    by (cases ps) (auto simp: parent_path_def render_def)
qed

lemma parent_root: "parent_path [slash] = [slash]"
  by (simp add: parent_path_def rfind_def)

text \<open>A child of a directory starts with the directory's path and a slash.\<close>

lemma child_prefix:
  assumes "good_parts (ps @ [p])" "ps \<noteq> []"
  shows "prefix (render ps @ [slash]) (render (ps @ [p]))"
  using assms by (auto simp: render_def prefix_def)

section \<open>The normaliser of the mount table\<close>

lemma mount_fold: "(\<forall>p \<in> set ps. p \<noteq> ''.'' \<and> p \<noteq> ''..'') \<Longrightarrow> foldl mount_part acc ps = acc @ join_parts ps"
  by (induction ps arbitrary: acc) (auto simp: mount_part_def)

lemma mount_normalize_id:
  assumes "normal p"
  shows "mount_normalize p = p"
proof -
  obtain ps where ps: "good_parts ps" "p = render ps" using assms by (rule normalE)
  have good: "\<forall>c \<in> set ps. c \<noteq> [] \<and> c \<noteq> ''.'' \<and> c \<noteq> ''..'' \<and> slash \<notin> set c"
    using ps(1) by (auto simp: good_parts_def list_all_iff good_part_def)
  show ?thesis
  proof (cases "ps = []")
    case True
    then show ?thesis using ps by (simp add: mount_normalize_def render_def)
  next
    case False
    have "filter (\<lambda>p. p \<noteq> []) (split_on slash (join_parts ps)) = ps"
      using good False by (simp add: split_on_join filter_True)
    then show ?thesis
      using ps False good mount_fold [of ps "[]"]
      by (cases ps) (simp_all add: mount_normalize_def render_def)
  qed
qed

end
