(* ===== verification/Ramfs.thy ===== *)
theory Ramfs
  imports Path
begin

text \<open>
  The types of the VFS layer (\<open>fs/vfs.rs\<close>) and the file system in memory (\<open>fs/ramfs.rs\<close>), with an
  abstract specification: a ramfs is a finite map from normal paths to nodes, and every operation
  refines the obvious operation on that map. The code shares one state behind an \<open>Arc\<close> and a lock;
  here the state is passed explicitly and an open file holds its path, as in the code. Results are
  sums, the error on the left.
\<close>

section \<open>Types of the VFS\<close>

datatype fs_error = NotFound | PermissionDenied | IoError | InvalidPath | AlreadyExists | NotEmpty
  | NotADirectory | IsADirectory | DiskFull | ReadOnly | NotSupported

fun fs_error_text :: "fs_error \<Rightarrow> string" where
  "fs_error_text NotFound = ''File or directory not found''"
| "fs_error_text PermissionDenied = ''Permission denied''"
| "fs_error_text IoError = ''I/O error''"
| "fs_error_text InvalidPath = ''Invalid path''"
| "fs_error_text AlreadyExists = ''File already exists''"
| "fs_error_text NotEmpty = ''Directory not empty''"
| "fs_error_text NotADirectory = ''Not a directory''"
| "fs_error_text IsADirectory = ''Is a directory''"
| "fs_error_text DiskFull = ''Disk full''"
| "fs_error_text ReadOnly = ''Read-only file system''"
| "fs_error_text NotSupported = ''Operation not supported''"

datatype file_type = File | Directory | Symlink | Device

record permissions =
  owner_read :: bool
  owner_write :: bool
  owner_exec :: bool
  group_read :: bool
  group_write :: bool
  group_exec :: bool
  other_read :: bool
  other_write :: bool
  other_exec :: bool

definition permissions_new :: "u16 \<Rightarrow> permissions" where
  "permissions_new rwx =
     \<lparr>owner_read = rwx AND 0x100 \<noteq> 0, owner_write = rwx AND 0x80 \<noteq> 0, owner_exec = rwx AND 0x40 \<noteq> 0,
      group_read = rwx AND 0x20 \<noteq> 0, group_write = rwx AND 0x10 \<noteq> 0, group_exec = rwx AND 0x08 \<noteq> 0,
      other_read = rwx AND 0x04 \<noteq> 0, other_write = rwx AND 0x02 \<noteq> 0, other_exec = rwx AND 0x01 \<noteq> 0\<rparr>"

definition to_octal :: "permissions \<Rightarrow> u16" where
  "to_octal p =
     (if owner_read p then 0x100 else 0) OR (if owner_write p then 0x80 else 0) OR
     (if owner_exec p then 0x40 else 0) OR (if group_read p then 0x20 else 0) OR
     (if group_write p then 0x10 else 0) OR (if group_exec p then 0x08 else 0) OR
     (if other_read p then 0x04 else 0) OR (if other_write p then 0x02 else 0) OR
     (if other_exec p then 0x01 else 0)"

definition permissions_string :: "permissions \<Rightarrow> string" where
  "permissions_string p =
     [if owner_read p then CHR ''r'' else CHR ''-'', if owner_write p then CHR ''w'' else CHR ''-'',
      if owner_exec p then CHR ''x'' else CHR ''-'', if group_read p then CHR ''r'' else CHR ''-'',
      if group_write p then CHR ''w'' else CHR ''-'', if group_exec p then CHR ''x'' else CHR ''-'',
      if other_read p then CHR ''r'' else CHR ''-'', if other_write p then CHR ''w'' else CHR ''-'',
      if other_exec p then CHR ''x'' else CHR ''-'']"

record dir_entry =
  de_name :: string
  de_type :: file_type
  de_size :: nat
  de_perm :: permissions
  de_uid :: nat
  de_gid :: nat

record file_metadata = dir_entry +
  md_created :: nat
  md_modified :: nat

datatype seek_from = Start nat | Current int | End int

section \<open>State\<close>

record entry =
  ename :: string
  etype :: file_type
  edata :: bytes
  ecreated :: nat
  emodified :: nat

record ramfs =
  entries :: "entry list"
  mounted :: bool

text \<open>An open file: the path, not a copy of the data.\<close>

record ram_file =
  fpath :: string
  fpos :: nat
  writable :: bool

definition new_file :: "string \<Rightarrow> entry" where
  "new_file name = \<lparr>ename = name, etype = File, edata = [], ecreated = 0, emodified = 0\<rparr>"

definition new_dir :: "string \<Rightarrow> entry" where
  "new_dir name = \<lparr>ename = name, etype = Directory, edata = [], ecreated = 0, emodified = 0\<rparr>"

definition ramfs_new :: ramfs where
  "ramfs_new = \<lparr>entries = [], mounted = False\<rparr>"

definition handle_for :: "string \<Rightarrow> ram_file" where
  "handle_for path = \<lparr>fpath = path, fpos = 0, writable = True\<rparr>"

section \<open>Operations\<close>

abbreviation is_file :: "string \<Rightarrow> entry \<Rightarrow> bool" where
  "is_file path e \<equiv> ename e = path \<and> etype e = File"

definition parent_exists :: "entry list \<Rightarrow> string \<Rightarrow> bool" where
  "parent_exists es path \<longleftrightarrow> list_ex (\<lambda>e. ename e = parent_path path \<and> etype e = Directory) es"

definition ram_mount :: "ramfs \<Rightarrow> (fs_error + unit) \<times> ramfs" where
  "ram_mount fs =
     (Inr (), fs\<lparr>mounted := True,
        entries := (if list_ex (\<lambda>e. ename e = [slash]) (entries fs) then entries fs
                    else entries fs @ [new_dir [slash]])\<rparr>)"

definition ram_unmount :: "ramfs \<Rightarrow> (fs_error + unit) \<times> ramfs" where
  "ram_unmount fs = (Inr (), fs\<lparr>mounted := False\<rparr>)"

definition ram_write_data :: "string \<Rightarrow> bytes \<Rightarrow> ramfs \<Rightarrow> (fs_error + unit) \<times> ramfs" where
  "ram_write_data p data fs =
     (let path = normalize_path p in
      if list_ex (is_file path) (entries fs)
      then (Inr (), fs\<lparr>entries := update_first (is_file path) (\<lambda>e. e\<lparr>edata := data\<rparr>) (entries fs)\<rparr>)
      else (Inl NotFound, fs))"

definition ram_read_data :: "string \<Rightarrow> ramfs \<Rightarrow> fs_error + bytes" where
  "ram_read_data p fs =
     (case find (is_file (normalize_path p)) (entries fs) of
        None \<Rightarrow> Inl NotFound
      | Some e \<Rightarrow> Inr (edata e))"

definition ram_open :: "string \<Rightarrow> ramfs \<Rightarrow> fs_error + ram_file" where
  "ram_open p fs =
     (let path = normalize_path p in
      if list_ex (is_file path) (entries fs) then Inr (handle_for path) else Inl NotFound)"

definition ram_create :: "string \<Rightarrow> ramfs \<Rightarrow> (fs_error + ram_file) \<times> ramfs" where
  "ram_create p fs =
     (let path = normalize_path p in
      if list_ex (\<lambda>e. ename e = path) (entries fs) then (Inl AlreadyExists, fs)
      else if \<not> parent_exists (entries fs) path then (Inl NotFound, fs)
      else (Inr (handle_for path), fs\<lparr>entries := entries fs @ [new_file path]\<rparr>))"

definition ram_remove :: "string \<Rightarrow> ramfs \<Rightarrow> (fs_error + unit) \<times> ramfs" where
  "ram_remove p fs =
     (let path = normalize_path p in
      if path = [slash] then (Inl PermissionDenied, fs)
      else
        case position (\<lambda>e. ename e = path) (entries fs) of
          None \<Rightarrow> (Inl NotFound, fs)
        | Some pos \<Rightarrow>
            if etype (entries fs ! pos) = Directory then (Inl IsADirectory, fs)
            else (Inr (), fs\<lparr>entries := remove_at pos (entries fs)\<rparr>))"

definition ram_mkdir :: "string \<Rightarrow> ramfs \<Rightarrow> (fs_error + unit) \<times> ramfs" where
  "ram_mkdir p fs =
     (let path = normalize_path p in
      if path = [slash] then (Inl AlreadyExists, fs)
      else if list_ex (\<lambda>e. ename e = path) (entries fs) then (Inl AlreadyExists, fs)
      else if \<not> parent_exists (entries fs) path then (Inl NotFound, fs)
      else (Inr (), fs\<lparr>entries := entries fs @ [new_dir path]\<rparr>))"

definition ram_rmdir :: "string \<Rightarrow> ramfs \<Rightarrow> (fs_error + unit) \<times> ramfs" where
  "ram_rmdir p fs =
     (let path = normalize_path p in
      if path = [slash] then (Inl PermissionDenied, fs)
      else
        case position (\<lambda>e. ename e = path) (entries fs) of
          None \<Rightarrow> (Inl NotFound, fs)
        | Some pos \<Rightarrow>
            if etype (entries fs ! pos) \<noteq> Directory then (Inl NotADirectory, fs)
            else if list_ex (\<lambda>e. ename e \<noteq> path \<and> prefix (path @ [slash]) (ename e)) (entries fs)
            then (Inl NotEmpty, fs)
            else (Inr (), fs\<lparr>entries := remove_at pos (entries fs)\<rparr>))"

definition entry_mode :: "entry \<Rightarrow> u16" where
  "entry_mode e = (if etype e = Directory then 0x1ED else 0x1A4)"

text \<open>One iteration of the loop of \<open>readdir\<close>: what an entry contributes to the listing.\<close>

definition child_entry :: "string \<Rightarrow> string \<Rightarrow> entry \<Rightarrow> dir_entry option" where
  "child_entry path pre e =
     (if ename e = path \<or> \<not> prefix pre (ename e) then None
      else
        let relative = drop (length pre) (ename e)
        in if relative = [] \<or> slash \<in> set relative then None
           else Some \<lparr>de_name = relative, de_type = etype e, de_size = length (edata e),
                  de_perm = permissions_new (entry_mode e), de_uid = 0, de_gid = 0\<rparr>)"

definition ram_readdir :: "string \<Rightarrow> ramfs \<Rightarrow> fs_error + dir_entry list" where
  "ram_readdir p fs =
     (let path = normalize_path p in
      if \<not> list_ex (\<lambda>e. ename e = path) (entries fs) then Inl NotFound
      else
        let pre = (if path = [slash] then [slash] else path @ [slash])
        in Inr (List.map_filter (child_entry path pre) (entries fs)))"

definition ram_exists :: "string \<Rightarrow> ramfs \<Rightarrow> bool" where
  "ram_exists p fs \<longleftrightarrow> list_ex (\<lambda>e. ename e = normalize_path p) (entries fs)"

definition ram_stat :: "string \<Rightarrow> ramfs \<Rightarrow> fs_error + file_metadata" where
  "ram_stat p fs =
     (case find (\<lambda>e. ename e = normalize_path p) (entries fs) of
        None \<Rightarrow> Inl NotFound
      | Some e \<Rightarrow>
          Inr \<lparr>de_name = ename e, de_type = etype e, de_size = length (edata e),
               de_perm = permissions_new (entry_mode e), de_uid = 0, de_gid = 0,
               md_created = ecreated e, md_modified = emodified e\<rparr>)"

section \<open>Open files\<close>

definition entry_len :: "ramfs \<Rightarrow> string \<Rightarrow> nat" where
  "entry_len fs path =
     (case find (is_file path) (entries fs) of None \<Rightarrow> 0 | Some e \<Rightarrow> length (edata e))"

text \<open>\<open>read\<close> into a buffer of \<open>n\<close> bytes: the bytes read and the file with its new position.\<close>

definition file_read :: "nat \<Rightarrow> ram_file \<Rightarrow> ramfs \<Rightarrow> fs_error + bytes \<times> ram_file" where
  "file_read n f fs =
     (case find (is_file (fpath f)) (entries fs) of
        None \<Rightarrow> Inl NotFound
      | Some e \<Rightarrow>
          let pos = fpos f in
          if pos \<ge> length (edata e) then Inr ([], f)
          else
            let to_read = min n (length (edata e) - pos)
            in Inr (take to_read (drop pos (edata e)), f\<lparr>fpos := fpos f + to_read\<rparr>))"

text \<open>The content after \<open>buf\<close> is written at \<open>pos\<close>; a gap is filled with zeros.\<close>

definition patch :: "nat \<Rightarrow> bytes \<Rightarrow> bytes \<Rightarrow> bytes" where
  "patch pos buf data =
     (let d = (if pos + length buf > length data
               then data @ replicate (pos + length buf - length data) 0 else data)
      in take pos d @ buf @ drop (pos + length buf) d)"

definition file_write :: "bytes \<Rightarrow> ram_file \<Rightarrow> ramfs \<Rightarrow> (fs_error + nat) \<times> ram_file \<times> ramfs" where
  "file_write buf f fs =
     (if \<not> writable f then (Inl ReadOnly, f, fs)
      else if \<not> list_ex (is_file (fpath f)) (entries fs) then (Inl NotFound, f, fs)
      else
        (Inr (length buf), f\<lparr>fpos := fpos f + length buf\<rparr>,
         fs\<lparr>entries := update_first (is_file (fpath f))
              (\<lambda>e. e\<lparr>edata := patch (fpos f) buf (edata e)\<rparr>) (entries fs)\<rparr>))"

text \<open>The casts to \<open>i64\<close> and the additions wrap, as in a release build.\<close>

definition file_seek :: "seek_from \<Rightarrow> ram_file \<Rightarrow> ramfs \<Rightarrow> fs_error + nat \<times> ram_file" where
  "file_seek pos f fs =
     (let len = entry_len fs (fpath f);
          new_pos = (case pos of
             Start offset \<Rightarrow> to_i64 (int offset)
           | Current offset \<Rightarrow> to_i64 (to_i64 (int (fpos f)) + offset)
           | End offset \<Rightarrow> to_i64 (to_i64 (int len) + offset))
      in if new_pos < 0 then Inl InvalidPath
         else Inr (nat new_pos, f\<lparr>fpos := nat new_pos\<rparr>))"

definition file_position :: "ram_file \<Rightarrow> nat" where "file_position f = fpos f"

definition file_size :: "ram_file \<Rightarrow> ramfs \<Rightarrow> nat" where "file_size f fs = entry_len fs (fpath f)"

section \<open>The abstract file system\<close>

datatype node = Dir | Data bytes

type_synonym tree = "string \<rightharpoonup> node"

definition node_of :: "entry \<Rightarrow> node" where
  "node_of e = (if etype e = Directory then Dir else Data (edata e))"

definition tree_of :: "ramfs \<Rightarrow> tree" where
  "tree_of fs = map_of (map (\<lambda>e. (ename e, node_of e)) (entries fs))"

text \<open>
  A mounted ramfs is well formed: names are distinct and normal, entries are files or
  directories, the root is a directory, and so is the parent of every other entry.
\<close>

definition ram_wf :: "ramfs \<Rightarrow> bool" where
  "ram_wf fs \<longleftrightarrow>
     distinct (map ename (entries fs)) \<and>
     (\<forall>e \<in> set (entries fs). normal (ename e) \<and> (etype e = File \<or> etype e = Directory)) \<and>
     tree_of fs [slash] = Some Dir \<and>
     (\<forall>e \<in> set (entries fs). ename e \<noteq> [slash] \<longrightarrow> tree_of fs (parent_path (ename e)) = Some Dir)"

datatype fs_op = Create_file string | Remove_file string | Make_dir string | Remove_dir string
  | Put_data string bytes

definition error_of :: "(fs_error + 'a) \<times> ramfs \<Rightarrow> fs_error option \<times> ramfs" where
  "error_of r = (case r of (Inl e, fs) \<Rightarrow> (Some e, fs) | (Inr _, fs) \<Rightarrow> (None, fs))"

fun ram_op :: "fs_op \<Rightarrow> ramfs \<Rightarrow> fs_error option \<times> ramfs" where
  "ram_op (Create_file p) fs = error_of (ram_create p fs)"
| "ram_op (Remove_file p) fs = error_of (ram_remove p fs)"
| "ram_op (Make_dir p) fs = error_of (ram_mkdir p fs)"
| "ram_op (Remove_dir p) fs = error_of (ram_rmdir p fs)"
| "ram_op (Put_data p d) fs = error_of (ram_write_data p d fs)"

definition has_child :: "tree \<Rightarrow> string \<Rightarrow> bool" where
  "has_child t p \<longleftrightarrow> (\<exists>q. t q \<noteq> None \<and> q \<noteq> p \<and> prefix (p @ [slash]) q)"

definition add_node :: "string \<Rightarrow> node \<Rightarrow> tree \<Rightarrow> fs_error option \<times> tree" where
  "add_node p n t =
     (if t p \<noteq> None then (Some AlreadyExists, t)
      else if t (parent_path p) = Some Dir then (None, t(p \<mapsto> n))
      else (Some NotFound, t))"

text \<open>The specification, on normal paths.\<close>

fun tree_op :: "fs_op \<Rightarrow> tree \<Rightarrow> fs_error option \<times> tree" where
  "tree_op (Create_file p) t = add_node p (Data []) t"
| "tree_op (Make_dir p) t = (if p = [slash] then (Some AlreadyExists, t) else add_node p Dir t)"
| "tree_op (Remove_file p) t =
     (if p = [slash] then (Some PermissionDenied, t)
      else case t p of
        None \<Rightarrow> (Some NotFound, t)
      | Some Dir \<Rightarrow> (Some IsADirectory, t)
      | Some (Data _) \<Rightarrow> (None, t(p := None)))"
| "tree_op (Remove_dir p) t =
     (if p = [slash] then (Some PermissionDenied, t)
      else case t p of
        None \<Rightarrow> (Some NotFound, t)
      | Some (Data _) \<Rightarrow> (Some NotADirectory, t)
      | Some Dir \<Rightarrow> if has_child t p then (Some NotEmpty, t) else (None, t(p := None)))"
| "tree_op (Put_data p d) t =
     (case t p of Some (Data _) \<Rightarrow> (None, t(p \<mapsto> Data d)) | _ \<Rightarrow> (Some NotFound, t))"

fun norm_op :: "fs_op \<Rightarrow> fs_op" where
  "norm_op (Create_file p) = Create_file (normalize_path p)"
| "norm_op (Remove_file p) = Remove_file (normalize_path p)"
| "norm_op (Make_dir p) = Make_dir (normalize_path p)"
| "norm_op (Remove_dir p) = Remove_dir (normalize_path p)"
| "norm_op (Put_data p d) = Put_data (normalize_path p) d"

section \<open>The table as a map\<close>

lemma tree_of_None: "tree_of fs p = None \<longleftrightarrow> \<not> list_ex (\<lambda>e. ename e = p) (entries fs)"
  by (auto simp: tree_of_def map_of_eq_None_iff list_ex_iff image_iff)

lemma tree_of_Some:
  "distinct (map ename (entries fs)) \<Longrightarrow>
   tree_of fs p = Some n \<longleftrightarrow> (\<exists>e \<in> set (entries fs). ename e = p \<and> node_of e = n)"
  by (auto simp: tree_of_def map_of_eq_Some_iff comp_def)

lemma tree_of_find: "tree_of fs p = map_option node_of (find (\<lambda>e. ename e = p) (entries fs))"
proof -
  have "map_of (map (\<lambda>e. (ename e, node_of e)) es) p = map_option node_of (find (\<lambda>e. ename e = p) es)"
    for es by (induction es) auto
  then show ?thesis by (simp add: tree_of_def)
qed

lemma wf_simps:
  assumes "ram_wf fs"
  shows "list_ex (\<lambda>e. ename e = p) (entries fs) \<longleftrightarrow> tree_of fs p \<noteq> None"
    "list_ex (is_file p) (entries fs) \<longleftrightarrow> (\<exists>d. tree_of fs p = Some (Data d))"
    "parent_exists (entries fs) p \<longleftrightarrow> tree_of fs (parent_path p) = Some Dir"
proof -
  have d: "distinct (map ename (entries fs))"
    "\<And>e. e \<in> set (entries fs) \<Longrightarrow> etype e = File \<or> etype e = Directory"
    using assms by (auto simp: ram_wf_def)
  show "list_ex (\<lambda>e. ename e = p) (entries fs) \<longleftrightarrow> tree_of fs p \<noteq> None"
    by (simp add: tree_of_None)
  show "list_ex (is_file p) (entries fs) \<longleftrightarrow> (\<exists>d. tree_of fs p = Some (Data d))"
  proof
    assume "list_ex (is_file p) (entries fs)"
    then obtain e where "e \<in> set (entries fs)" "ename e = p" "etype e = File" by (auto simp: list_ex_iff)
    then show "\<exists>d. tree_of fs p = Some (Data d)"
      unfolding tree_of_Some [OF d(1)] by (intro exI [of _ "edata e"] bexI [of _ e]) (auto simp: node_of_def)
  next
    assume "\<exists>d. tree_of fs p = Some (Data d)"
    then obtain e where "e \<in> set (entries fs)" "ename e = p" "etype e \<noteq> Directory"
      unfolding tree_of_Some [OF d(1)] by (auto simp: node_of_def split: if_splits)
    with d(2) show "list_ex (is_file p) (entries fs)" unfolding list_ex_iff by blast
  qed
  show "parent_exists (entries fs) p \<longleftrightarrow> tree_of fs (parent_path p) = Some Dir"
    by (auto simp: parent_exists_def tree_of_Some [OF d(1)] list_ex_iff node_of_def split: if_splits)
qed

lemma find_is_file:
  assumes "ram_wf fs"
  shows "map_option edata (find (is_file p) (entries fs)) =
    (case tree_of fs p of Some (Data d) \<Rightarrow> Some d | _ \<Rightarrow> None)"
proof -
  have "map_option edata (find (is_file p) es) =
      (case map_option node_of (find (\<lambda>e. ename e = p) es) of Some (Data d) \<Rightarrow> Some d | _ \<Rightarrow> None)"
    if "distinct (map ename es)" "\<forall>e \<in> set es. etype e = File \<or> etype e = Directory" for es
    using that
  proof (induction es)
    case (Cons e es)
    have "find (\<lambda>x. ename x = p \<and> etype x = File) es = None" if "ename e = p"
      using Cons.prems(1) that by (auto simp: find_None_iff) (metis imageI)
    then show ?case using Cons by (auto simp: node_of_def)
  qed simp
  then show ?thesis using assms by (simp add: tree_of_find ram_wf_def)
qed

lemma tree_of_snoc:
  "tree_of fs (ename e) = None \<Longrightarrow>
   tree_of (fs\<lparr>entries := entries fs @ [e]\<rparr>) = (tree_of fs)(ename e \<mapsto> node_of e)"
  by (rule ext) (auto simp: tree_of_def map_add_def split: option.splits)

lemma tree_of_remove:
  assumes d: "distinct (map ename (entries fs))" and pos: "position (\<lambda>e. ename e = p) (entries fs) = Some i"
  shows "tree_of (fs\<lparr>entries := remove_at i (entries fs)\<rparr>) = (tree_of fs)(p := None)"
    "set (remove_at i (entries fs)) = {e \<in> set (entries fs). ename e \<noteq> p}"
    "distinct (map ename (remove_at i (entries fs)))"
proof -
  let ?es = "entries fs"
  have i: "i < length ?es" "ename (?es ! i) = p" using position_SomeD [OF pos] by auto
  have s: "?es = take i ?es @ ?es ! i # drop (Suc i) ?es" using i(1) by (rule id_take_nth_drop)
  then have "map ename ?es = map ename (take i ?es) @ p # map ename (drop (Suc i) ?es)"
    by (metis i(2) list.simps(9) map_append)
  with d show dist: "distinct (map ename (remove_at i ?es))"
    by (simp add: remove_at_def)
  have "distinct ?es" using d by (simp add: distinct_map)
  then have set: "set (remove_at i ?es) = set ?es - {?es ! i}" using i(1) by (rule set_remove_at)
  show sets: "set (remove_at i ?es) = {e \<in> set ?es. ename e \<noteq> p}"
    unfolding set using d i by (auto simp: distinct_map inj_on_def)
  show "tree_of (fs\<lparr>entries := remove_at i ?es\<rparr>) = (tree_of fs)(p := None)"
  proof
    fix q
    have "tree_of (fs\<lparr>entries := remove_at i ?es\<rparr>) q = Some n \<longleftrightarrow> ((tree_of fs)(p := None)) q = Some n" for n
      using tree_of_Some [of "fs\<lparr>entries := remove_at i ?es\<rparr>" q n] tree_of_Some [OF d, of q n] dist sets
      by auto
    then show "tree_of (fs\<lparr>entries := remove_at i ?es\<rparr>) q = ((tree_of fs)(p := None)) q"
      by (metis not_None_eq)
  qed
qed

lemma tree_of_update:
  assumes "ram_wf fs" "tree_of fs p = Some (Data d)"
    and f: "\<And>e. ename (f e) = ename e \<and> etype (f e) = etype e"
  shows "tree_of (fs\<lparr>entries := update_first (is_file p) f (entries fs)\<rparr>) =
      (tree_of fs)(p := map_option (\<lambda>e. Data (edata (f e))) (find (is_file p) (entries fs)))"
    "ram_wf (fs\<lparr>entries := update_first (is_file p) f (entries fs)\<rparr>)"
proof -
  let ?es = "entries fs" and ?es' = "update_first (is_file p) f (entries fs)"
  have upd: "map_of (map (\<lambda>e. (ename e, node_of e)) (update_first (is_file p) f es)) =
      (map_of (map (\<lambda>e. (ename e, node_of e)) es))
        (p := (case find (is_file p) es of None \<Rightarrow> map_of (map (\<lambda>e. (ename e, node_of e)) es) p
               | Some e \<Rightarrow> Some (Data (edata (f e)))))"
    if "distinct (map ename es)" "\<forall>e \<in> set es. etype e = File \<or> etype e = Directory" for es
    using that
  proof (induction es)
    case (Cons e es)
    have "find (is_file p) es = None" if "ename e = p"
      using Cons.prems(1) that by (auto simp: find_None_iff) (metis imageI)
    then show ?case using Cons f by (auto simp: node_of_def fun_eq_iff split: option.splits)
  qed simp
  have wf: "distinct (map ename ?es)" "\<forall>e \<in> set ?es. etype e = File \<or> etype e = Directory"
    using assms(1) by (auto simp: ram_wf_def)
  have some: "find (is_file p) ?es \<noteq> None"
    using find_is_file [OF assms(1), of p] assms(2) by auto
  then show t: "tree_of (fs\<lparr>entries := ?es'\<rparr>) =
      (tree_of fs)(p := map_option (\<lambda>e. Data (edata (f e))) (find (is_file p) ?es))"
    using upd [OF wf] by (auto simp: tree_of_def)
  have names: "map ename ?es' = map ename ?es"
    "map (\<lambda>e. (ename e, etype e)) ?es' = map (\<lambda>e. (ename e, etype e)) ?es"
    using f by (auto intro: map_update_first)
  have dirs: "tree_of (fs\<lparr>entries := ?es'\<rparr>) q = Some Dir \<longleftrightarrow> tree_of fs q = Some Dir" for q
    unfolding t using assms(2) by auto
  have orig: "\<exists>e' \<in> set ?es. ename e' = ename e \<and> etype e' = etype e" if mem: "e \<in> set ?es'" for e
  proof -
    have "(ename e, etype e) \<in> set (map (\<lambda>e. (ename e, etype e)) ?es')" using mem by auto
    then show ?thesis unfolding names(2) by auto
  qed
  show "ram_wf (fs\<lparr>entries := ?es'\<rparr>)"
    unfolding ram_wf_def dirs
  proof (intro conjI ballI impI)
    show "distinct (map ename (entries (fs\<lparr>entries := ?es'\<rparr>)))"
      using wf(1) names(1) by simp
    show "tree_of fs [slash] = Some Dir" using assms(1) by (simp add: ram_wf_def)
    fix e assume "e \<in> set (entries (fs\<lparr>entries := ?es'\<rparr>))"
    then obtain e' where e': "e' \<in> set ?es" "ename e' = ename e" "etype e' = etype e"
      using orig [of e] by auto
    then show "normal (ename e)" "etype e = File \<or> etype e = Directory"
      using assms(1) unfolding ram_wf_def by metis+
    show "tree_of fs (parent_path (ename e)) = Some Dir" if "ename e \<noteq> [slash]"
      using assms(1) e' that unfolding ram_wf_def by metis
  qed
qed

section \<open>The operations refine the specification\<close>

lemma add_entry_wf:
  assumes wf: "ram_wf fs" and new: "tree_of fs p = None" "tree_of fs (parent_path p) = Some Dir" "normal p"
    and e: "ename e = p" "etype e = File \<or> etype e = Directory"
  shows "ram_wf (fs\<lparr>entries := entries fs @ [e]\<rparr>)"
proof -
  have t: "tree_of (fs\<lparr>entries := entries fs @ [e]\<rparr>) = (tree_of fs)(ename e \<mapsto> node_of e)"
    using tree_of_snoc [of fs e] new(1) e(1) by simp
  have old: "((tree_of fs)(ename e \<mapsto> node_of e)) q = Some Dir" if "tree_of fs q = Some Dir" for q
    using that new(1) e(1) by auto
  have "p \<notin> ename ` set (entries fs)" using new(1) by (auto simp: tree_of_None list_ex_iff)
  then show ?thesis
    using wf new e unfolding ram_wf_def t by (auto intro!: old simp del: fun_upd_apply)
qed

lemma remove_entry_wf:
  assumes wf: "ram_wf fs" and pos: "position (\<lambda>e. ename e = p) (entries fs) = Some i" and p: "p \<noteq> [slash]"
    and nochild: "\<And>e. e \<in> set (entries fs) \<Longrightarrow> ename e \<noteq> [slash] \<Longrightarrow> parent_path (ename e) \<noteq> p"
  shows "ram_wf (fs\<lparr>entries := remove_at i (entries fs)\<rparr>)"
proof -
  have d: "distinct (map ename (entries fs))" using wf by (simp add: ram_wf_def)
  note r = tree_of_remove [OF d pos]
  show ?thesis
    using wf p nochild unfolding ram_wf_def r(1) by (simp add: r(2,3))
qed

lemma file_has_no_child:
  assumes wf: "ram_wf fs" and f: "tree_of fs p \<noteq> Some Dir"
    and e: "e \<in> set (entries fs)" "ename e \<noteq> [slash]"
  shows "parent_path (ename e) \<noteq> p"
  using assms by (auto simp: ram_wf_def)

lemma empty_dir_has_no_child:
  assumes wf: "ram_wf fs" and p: "p \<noteq> [slash]" "normal p"
    and empty: "\<not> (\<exists>e \<in> set (entries fs). ename e \<noteq> p \<and> prefix (p @ [slash]) (ename e))"
    and e: "e \<in> set (entries fs)" "ename e \<noteq> [slash]"
  shows "parent_path (ename e) \<noteq> p"
proof
  assume par: "parent_path (ename e) = p"
  have "normal (ename e)" using wf e by (auto simp: ram_wf_def)
  then obtain es where es: "good_parts es" "ename e = render es" by (rule normalE)
  then obtain qs q where qs: "es = qs @ [q]" using e(2) by (cases es rule: rev_cases) (auto simp: render_def)
  have pq: "p = render qs" using par es parent_render [of qs q] qs by simp
  then have "qs \<noteq> []" using p(1) by (auto simp: render_def)
  then have "prefix (p @ [slash]) (ename e)" using child_prefix [of qs q] es qs pq by simp
  moreover have "ename e \<noteq> p"
  proof
    assume "ename e = p"
    then have "qs @ [q] = qs" using es qs pq by (metis good_parts_simps(3) render_inj)
    then show False by simp
  qed
  ultimately show False using empty e(1) by blast
qed

lemma position_tree:
  "position (\<lambda>e. ename e = p) (entries fs) = None \<longleftrightarrow> tree_of fs p = None"
  by (simp add: position_None tree_of_None list_ex_iff)

lemma position_node:
  assumes "ram_wf fs" "position (\<lambda>e. ename e = p) (entries fs) = Some i"
  shows "tree_of fs p = Some (node_of (entries fs ! i))"
  using position_SomeD [OF assms(2)] assms(1)
  by (auto simp: ram_wf_def tree_of_Some intro!: bexI [of _ "entries fs ! i"])

lemma has_child_tree:
  "has_child (tree_of fs) p \<longleftrightarrow> (\<exists>e \<in> set (entries fs). ename e \<noteq> p \<and> prefix (p @ [slash]) (ename e))"
  by (auto simp: has_child_def tree_of_None list_ex_iff)

lemma ram_create_refines:
  assumes "ram_wf fs"
  shows "case error_of (ram_create p fs) of (r, fs') \<Rightarrow>
    ram_wf fs' \<and> add_node (normalize_path p) (Data []) (tree_of fs) = (r, tree_of fs')"
proof -
  let ?p = "normalize_path p"
  have "normal ?p" by (rule normalize_normal)
  then show ?thesis
    using assms tree_of_snoc [of fs "new_file ?p"] add_entry_wf [OF assms, of ?p "new_file ?p"]
    by (auto simp: ram_create_def Let_def wf_simps [OF assms] error_of_def add_node_def new_file_def node_of_def)
qed

lemma ram_mkdir_refines:
  assumes "ram_wf fs"
  shows "case error_of (ram_mkdir p fs) of (r, fs') \<Rightarrow>
    ram_wf fs' \<and> tree_op (Make_dir (normalize_path p)) (tree_of fs) = (r, tree_of fs')"
proof -
  let ?p = "normalize_path p"
  have "normal ?p" by (rule normalize_normal)
  then show ?thesis
    using assms tree_of_snoc [of fs "new_dir ?p"] add_entry_wf [OF assms, of ?p "new_dir ?p"]
    by (auto simp: ram_mkdir_def Let_def wf_simps [OF assms] error_of_def add_node_def new_dir_def node_of_def)
qed

lemma ram_remove_refines:
  assumes "ram_wf fs"
  shows "case error_of (ram_remove p fs) of (r, fs') \<Rightarrow>
    ram_wf fs' \<and> tree_op (Remove_file (normalize_path p)) (tree_of fs) = (r, tree_of fs')"
proof -
  let ?p = "normalize_path p"
  have d: "distinct (map ename (entries fs))" using assms by (simp add: ram_wf_def)
  show ?thesis
  proof (cases "position (\<lambda>e. ename e = ?p) (entries fs)")
    case None
    then show ?thesis using assms position_tree [of ?p fs] by (auto simp: ram_remove_def Let_def error_of_def)
  next
    case (Some i)
    note n = position_node [OF assms Some]
    show ?thesis
    proof (cases "?p = [slash] \<or> etype (entries fs ! i) = Directory")
      case True
      then show ?thesis using assms Some n by (auto simp: ram_remove_def Let_def error_of_def node_of_def)
    next
      case False
      have "ram_wf (fs\<lparr>entries := remove_at i (entries fs)\<rparr>)"
        using False n file_has_no_child [OF assms, of ?p]
        by (intro remove_entry_wf [OF assms Some]) (auto simp: node_of_def)
      then show ?thesis
        using False Some n tree_of_remove(1) [OF d Some]
        by (auto simp: ram_remove_def Let_def error_of_def node_of_def)
    qed
  qed
qed

lemma ram_rmdir_refines:
  assumes "ram_wf fs"
  shows "case error_of (ram_rmdir p fs) of (r, fs') \<Rightarrow>
    ram_wf fs' \<and> tree_op (Remove_dir (normalize_path p)) (tree_of fs) = (r, tree_of fs')"
proof -
  let ?p = "normalize_path p"
  let ?child = "list_ex (\<lambda>e. ename e \<noteq> ?p \<and> prefix (?p @ [slash]) (ename e)) (entries fs)"
  have d: "distinct (map ename (entries fs))" using assms by (simp add: ram_wf_def)
  have child: "?child = has_child (tree_of fs) ?p" by (simp add: has_child_tree list_ex_iff)
  show ?thesis
  proof (cases "position (\<lambda>e. ename e = ?p) (entries fs)")
    case None
    then show ?thesis using assms position_tree [of ?p fs] by (auto simp: ram_rmdir_def Let_def error_of_def)
  next
    case (Some i)
    note n = position_node [OF assms Some]
    show ?thesis
    proof (cases "?p = [slash] \<or> etype (entries fs ! i) \<noteq> Directory \<or> ?child")
      case True
      then show ?thesis
        using assms Some n unfolding child
        by (auto simp: ram_rmdir_def Let_def error_of_def node_of_def child)
    next
      case False
      have "ram_wf (fs\<lparr>entries := remove_at i (entries fs)\<rparr>)"
        using False empty_dir_has_no_child [OF assms _ normalize_normal, of p]
        by (intro remove_entry_wf [OF assms Some]) (auto simp: list_ex_iff)
      then show ?thesis
        using False Some n tree_of_remove(1) [OF d Some]
        by (auto simp: ram_rmdir_def Let_def error_of_def node_of_def child)
    qed
  qed
qed

lemma ram_write_refines:
  assumes "ram_wf fs"
  shows "case error_of (ram_write_data p d fs) of (r, fs') \<Rightarrow>
    ram_wf fs' \<and> tree_op (Put_data (normalize_path p) d) (tree_of fs) = (r, tree_of fs')"
proof -
  let ?p = "normalize_path p"
  show ?thesis
  proof (cases "\<exists>d. tree_of fs ?p = Some (Data d)")
    case True
    then obtain d0 where d0: "tree_of fs ?p = Some (Data d0)" by blast
    have "find (is_file ?p) (entries fs) \<noteq> None" using find_is_file [OF assms, of ?p] d0 by auto
    then show ?thesis
      using d0 tree_of_update [OF assms d0, of "\<lambda>e. e\<lparr>edata := d\<rparr>"]
      by (auto simp: ram_write_data_def Let_def wf_simps [OF assms] error_of_def)
  next
    case False
    then show ?thesis
      using assms by (auto simp: ram_write_data_def Let_def wf_simps [OF assms] error_of_def
          split: option.splits node.splits)
  qed
qed

lemma ram_op_refines:
  assumes "ram_wf fs" "ram_op op fs = (r, fs')"
  shows "ram_wf fs' \<and> tree_op (norm_op op) (tree_of fs) = (r, tree_of fs')"
proof (cases op)
  case (Create_file p)
  then show ?thesis using assms(2) ram_create_refines [OF assms(1), of p] by (auto split: prod.splits)
next
  case (Remove_file p)
  then show ?thesis using assms(2) ram_remove_refines [OF assms(1), of p] by (auto split: prod.splits)
next
  case (Make_dir p)
  then show ?thesis using assms(2) ram_mkdir_refines [OF assms(1), of p] by (auto split: prod.splits)
next
  case (Remove_dir p)
  then show ?thesis using assms(2) ram_rmdir_refines [OF assms(1), of p] by (auto split: prod.splits)
next
  case (Put_data p d)
  then show ?thesis using assms(2) ram_write_refines [OF assms(1), of p d] by (auto split: prod.splits)
qed

section \<open>File systems that implement the specification\<close>

fun run_ops :: "(fs_op \<Rightarrow> 'f \<Rightarrow> fs_error option \<times> 'f) \<Rightarrow> fs_op list \<Rightarrow> 'f \<Rightarrow> fs_error option list \<times> 'f" where
  "run_ops step [] f = ([], f)"
| "run_ops step (op # ops) f =
     (case step op f of (r, f') \<Rightarrow> (case run_ops step ops f' of (rs, f'') \<Rightarrow> (r # rs, f'')))"

locale tree_fs =
  fixes view :: "'f \<Rightarrow> tree"
    and ok :: "'f \<Rightarrow> bool"
    and step :: "fs_op \<Rightarrow> 'f \<Rightarrow> fs_error option \<times> 'f"
  assumes refines: "ok f \<Longrightarrow> step op f = (r, f') \<Longrightarrow> ok f' \<and> tree_op (norm_op op) (view f) = (r, view f')"
begin

lemma runs_refine:
  "ok f \<Longrightarrow> run_ops step ops f = (rs, f') \<Longrightarrow>
   ok f' \<and> run_ops (\<lambda>op. tree_op (norm_op op)) ops (view f) = (rs, view f')"
proof (induction ops arbitrary: f rs)
  case (Cons op ops)
  obtain r f1 where s: "step op f = (r, f1)" by fastforce
  then obtain rs' where t: "run_ops step ops f1 = (rs', f')" "rs = r # rs'"
    using Cons.prems(2) by (auto split: prod.splits)
  from refines [OF Cons.prems(1) s] Cons.IH [OF _ t(1)] t(2) show ?case by auto
qed simp

lemma create_remove:
  assumes "ok f" "step (Create_file p) f = (None, f1)"
  shows "\<exists>f2. step (Remove_file p) f1 = (None, f2) \<and> ok f2 \<and> view f2 = view f"
proof -
  let ?p = "normalize_path p"
  have c: "ok f1" "add_node ?p (Data []) (view f) = (None, view f1)"
    using refines [OF assms] by auto
  then have v: "view f ?p = None" "view f1 = (view f)(?p \<mapsto> Data [])" "view f (parent_path ?p) = Some Dir"
    by (auto simp: add_node_def split: if_splits)
  have root: "?p \<noteq> [slash]" using v(1,3) parent_root by auto
  obtain r f2 where s: "step (Remove_file p) f1 = (r, f2)" by fastforce
  have "tree_op (Remove_file ?p) (view f1) = (r, view f2)" "ok f2"
    using refines [OF c(1) s] by auto
  then have "r = None" "view f2 = (view f1)(?p := None)" using v(2) root by auto
  moreover have "(view f1)(?p := None) = view f" using v by auto
  ultimately show ?thesis using s \<open>ok f2\<close> by auto
qed

lemma failure_changes_nothing:
  assumes "ok f" "step op f = (Some e, f')"
  shows "view f' = view f"
proof -
  have "tree_op (norm_op op) (view f) = (Some e, view f')" using refines [OF assms] by blast
  then show ?thesis
    by (cases "norm_op op") (auto simp: add_node_def split: if_splits option.splits node.splits)
qed

end

interpretation ram_tree: tree_fs tree_of ram_wf ram_op
  by unfold_locales (rule ram_op_refines)

section \<open>Mounting an empty file system\<close>

lemma ram_mount_wf: "ram_wf (snd (ram_mount ramfs_new)) \<and> tree_of (snd (ram_mount ramfs_new)) = [[slash] \<mapsto> Dir]"
proof -
  have "normal [slash]" unfolding normal_def by (rule exI [of _ "[]"]) (simp add: render_def)
  then show ?thesis
    by (auto simp: ram_wf_def ram_mount_def ramfs_new_def new_dir_def tree_of_def node_of_def)
qed

section \<open>Reading and writing open files\<close>

lemma patch_length [simp]: "length (patch pos buf d) = max (length d) (pos + length buf)"
  by (auto simp: patch_def Let_def max_def)

lemma patch_read: "take (length buf) (drop pos (patch pos buf d)) = buf"
  by (auto simp: patch_def Let_def min_def)

lemma patch_before: "i < pos \<Longrightarrow> i < length d \<Longrightarrow> patch pos buf d ! i = d ! i"
  by (auto simp: patch_def Let_def nth_append min_def)

lemma patch_after: "pos + length buf \<le> i \<Longrightarrow> i < length d \<Longrightarrow> patch pos buf d ! i = d ! i"
  by (auto simp: patch_def Let_def nth_append min_def)

lemma patch_gap: "length d \<le> i \<Longrightarrow> i < pos \<Longrightarrow> patch pos buf d ! i = 0"
  by (auto simp: patch_def Let_def nth_append min_def)

lemma patch_empty: "patch 0 d [] = d"
  by (simp add: patch_def)

lemma file_read_tree:
  assumes "ram_wf fs"
  shows "file_read n f fs =
    (case tree_of fs (fpath f) of
       Some (Data d) \<Rightarrow>
         (if fpos f \<ge> length d then Inr ([], f)
          else Inr (take (min n (length d - fpos f)) (drop (fpos f) d),
                    f\<lparr>fpos := fpos f + min n (length d - fpos f)\<rparr>))
     | _ \<Rightarrow> Inl NotFound)"
proof (cases "find (is_file (fpath f)) (entries fs)")
  case None
  then show ?thesis using find_is_file [OF assms, of "fpath f"]
    by (auto simp: file_read_def split: option.splits node.splits)
next
  case (Some e)
  then have "tree_of fs (fpath f) = Some (Data (edata e))"
    using find_is_file [OF assms, of "fpath f"] by (auto split: option.splits node.splits)
  then show ?thesis using Some by (simp add: file_read_def Let_def)
qed

lemma file_write_tree:
  assumes "ram_wf fs" "tree_of fs (fpath f) = Some (Data d)" "writable f"
  shows "\<exists>fs'. file_write buf f fs = (Inr (length buf), f\<lparr>fpos := fpos f + length buf\<rparr>, fs') \<and> ram_wf fs' \<and>
    tree_of fs' = (tree_of fs)(fpath f \<mapsto> Data (patch (fpos f) buf d))"
proof -
  let ?g = "\<lambda>e. e\<lparr>edata := patch (fpos f) buf (edata e)\<rparr>"
  obtain e where e: "find (is_file (fpath f)) (entries fs) = Some e" "edata e = d"
    using find_is_file [OF assms(1), of "fpath f"] assms(2) by auto
  show ?thesis
    using assms e tree_of_update [OF assms(1,2), of ?g]
    by (auto simp: file_write_def wf_simps [OF assms(1)])
qed

lemma file_size_tree:
  assumes "ram_wf fs"
  shows "file_size f fs = (case tree_of fs (fpath f) of Some (Data d) \<Rightarrow> length d | _ \<Rightarrow> 0)"
  using find_is_file [OF assms, of "fpath f"]
  by (auto simp: file_size_def entry_len_def split: option.splits node.splits)

lemma ram_read_data_tree:
  assumes "ram_wf fs"
  shows "ram_read_data p fs =
    (case tree_of fs (normalize_path p) of Some (Data d) \<Rightarrow> Inr d | _ \<Rightarrow> Inl NotFound)"
  using find_is_file [OF assms, of "normalize_path p"]
  by (auto simp: ram_read_data_def split: option.splits node.splits)

section \<open>Directory listings\<close>

lemma child_of:
  assumes "good_parts ps" "good_parts es"
  shows "prefix (if render ps = [slash] then [slash] else render ps @ [slash]) (render es) \<and>
      drop (length (if render ps = [slash] then [slash] else render ps @ [slash])) (render es) = q \<and>
      q \<noteq> [] \<and> slash \<notin> set q \<and> render es \<noteq> render ps \<longleftrightarrow> es = ps @ [q] \<and> q \<noteq> [] \<and> slash \<notin> set q"
    (is "?l \<longleftrightarrow> ?r")
proof -
  have pre: "(if render ps = [slash] then [slash] else render ps @ [slash]) = join_parts ps @ [slash]"
  proof (cases ps)
    case (Cons a as)
    then have "a \<noteq> []" using assms by (auto simp: good_part_def)
    then show ?thesis using Cons by (auto simp: render_def)
  qed (simp add: render_def)
  have sl: "\<forall>p \<in> set (ps @ es). slash \<notin> set p"
    using assms by (auto simp: good_parts_def list_all_iff good_part_def)
  show ?thesis
  proof
    assume l: ?l
    then have "render es = join_parts ps @ [slash] @ q" unfolding pre by (auto simp: prefix_def)
    then have r: "render es = join_parts (ps @ [q])" by simp
    have "es \<noteq> []"
    proof
      assume "es = []"
      then have "length (render es) = 1" by (simp add: render_def)
      moreover have "length (join_parts (ps @ [q])) \<ge> 2" using l by (cases q) auto
      ultimately show False using r by simp
    qed
    then have "join_parts es = join_parts (ps @ [q])" using r by (simp add: render_def)
    moreover have "\<forall>p \<in> set (ps @ [q]). slash \<notin> set p" using sl l by auto
    ultimately have "[] # es = [] # (ps @ [q])"
      using split_on_join [of es] split_on_join [of "ps @ [q]"] sl \<open>es \<noteq> []\<close> by auto
    then show ?r using l by simp
  next
    assume r: ?r
    then have "render es = (join_parts ps @ [slash]) @ q" by (simp add: render_def)
    moreover have "render es \<noteq> render ps" using r assms render_inj [of es ps] by auto
    ultimately show ?l using r unfolding pre by auto
  qed
qed

lemma in_map_filter:
  "q \<in> set (map g (List.map_filter f xs)) \<longleftrightarrow> (\<exists>x \<in> set xs. \<exists>d. f x = Some d \<and> g d = q)"
  by (induction xs) (auto simp: List.map_filter_simps split: option.splits)

lemma child_entry_name:
  "(\<exists>d. child_entry path pre e = Some d \<and> de_name d = q) \<longleftrightarrow>
   prefix pre (ename e) \<and> drop (length pre) (ename e) = q \<and> q \<noteq> [] \<and> slash \<notin> set q \<and> ename e \<noteq> path"
  by (auto simp: child_entry_def Let_def)

lemma readdir_names:
  assumes wf: "ram_wf fs" and d: "tree_of fs (normalize_path p) \<noteq> None" "normalize_path p = render ps" "good_parts ps"
  shows "\<exists>l. ram_readdir p fs = Inr l \<and>
    set (map de_name l) = {q. good_part q \<and> tree_of fs (render (ps @ [q])) \<noteq> None}"
proof -
  let ?pre = "if render ps = [slash] then [slash] else render ps @ [slash]"
  obtain l where l: "ram_readdir p fs = Inr l"
    using d(1) by (auto simp: ram_readdir_def Let_def wf_simps [OF wf])
  have ll: "l = List.map_filter (child_entry (render ps) ?pre) (entries fs)"
    using l d(1) unfolding ram_readdir_def Let_def wf_simps [OF wf] d(2) by (simp split: if_splits)
  have mem: "q \<in> set (map de_name l) \<longleftrightarrow>
      (\<exists>e \<in> set (entries fs). prefix ?pre (ename e) \<and> drop (length ?pre) (ename e) = q \<and> q \<noteq> [] \<and>
         slash \<notin> set q \<and> ename e \<noteq> render ps)" for q
  proof -
    have "q \<in> set (map de_name l) \<longleftrightarrow>
        (\<exists>e \<in> set (entries fs). \<exists>d. child_entry (render ps) ?pre e = Some d \<and> de_name d = q)"
      unfolding ll by (rule in_map_filter)
    then show ?thesis unfolding child_entry_name .
  qed
  have good: "\<exists>es. good_parts es \<and> ename e = render es" if "e \<in> set (entries fs)" for e
    using wf that by (auto simp: ram_wf_def normal_def)
  have "q \<in> set (map de_name l) \<longleftrightarrow> good_part q \<and> tree_of fs (render (ps @ [q])) \<noteq> None" for q
  proof
    assume "q \<in> set (map de_name l)"
    then obtain e where e: "e \<in> set (entries fs)" "prefix ?pre (ename e) \<and> drop (length ?pre) (ename e) = q \<and>
        q \<noteq> [] \<and> slash \<notin> set q \<and> ename e \<noteq> render ps" unfolding mem by blast
    obtain es where es: "good_parts es" "ename e = render es" using good [OF e(1)] by blast
    then have "es = ps @ [q]" using e(2) child_of [OF d(3) es(1), of q] by auto
    then show "good_part q \<and> tree_of fs (render (ps @ [q])) \<noteq> None"
      using es e(1) by (auto simp: tree_of_None list_ex_iff)
  next
    assume a: "good_part q \<and> tree_of fs (render (ps @ [q])) \<noteq> None"
    then obtain e where e: "e \<in> set (entries fs)" "ename e = render (ps @ [q])"
      by (auto simp: tree_of_None list_ex_iff)
    have "good_parts (ps @ [q])" "q \<noteq> []" "slash \<notin> set q" using a d(3) by (auto simp: good_part_def)
    with child_of [OF d(3), of "ps @ [q]" q] e show "q \<in> set (map de_name l)"
      unfolding mem by (intro bexI [of _ e]) auto
  qed
  then have "set (map de_name l) = {q. good_part q \<and> tree_of fs (render (ps @ [q])) \<noteq> None}"
    by blast
  with l show ?thesis by blast
qed

section \<open>Properties\<close>

text \<open>A mounted file system with one directory and one file, for the examples.\<close>

definition ram_demo :: ramfs where
  "ram_demo = \<lparr>entries = [new_dir ''/'', new_dir ''/tmp'', (new_file ''/tmp/a'')\<lparr>edata := [1, 2, 3]\<rparr>],
     mounted = True\<rparr>"

lemma normal_demo: "normal ''/''" "normal ''/tmp''" "normal ''/tmp/a''"
proof -
  have "''/'' = render []" "''/tmp'' = render [''tmp'']" "''/tmp/a'' = render [''tmp'', ''a'']"
    by (simp_all add: render_def slash_def)
  moreover have "good_parts [''tmp'', ''a'']" by (simp add: good_part_def slash_def)
  ultimately show "normal ''/''" "normal ''/tmp''" "normal ''/tmp/a''"
    unfolding normal_def by (metis good_parts_simps(1,2))+
qed

lemma ram_demo_tree: "tree_of ram_demo = [''/tmp/a'' \<mapsto> Data [1, 2, 3], ''/tmp'' \<mapsto> Dir, ''/'' \<mapsto> Dir]"
  by (auto simp: ram_demo_def tree_of_def new_dir_def new_file_def node_of_def)

lemma ram_demo_wf: "ram_wf ram_demo"
proof -
  have "parent_path ''/tmp'' = ''/''" "parent_path ''/tmp/a'' = ''/tmp''"
    by (simp_all add: parent_path_def rfind_def slash_def)
  then show ?thesis
    unfolding ram_wf_def ram_demo_tree
    by (auto simp: ram_demo_def new_dir_def new_file_def slash_def normal_demo)
qed

text \<open>
  C20: ramfs implements its specification. On a well-formed state every operation that changes the
  tree (create, remove, mkdir, rmdir, writing a file's data) returns exactly the result and makes
  exactly the change that the specification on the abstract tree gives for the normalised path,
  each error included, and the state stays well formed: names stay unique and normal and every
  entry keeps a parent directory.
\<close>

theorem ramfs_refines_tree:
  assumes "ram_wf fs" "ram_op op fs = (r, fs')"
  shows "ram_wf fs' \<and> tree_op (norm_op op) (tree_of fs) = (r, tree_of fs')"
  using assms by (rule ram_op_refines)

theorem ramfs_refines_tree_witness:
  "fst (ram_op (Remove_dir ''/tmp/./'') ram_demo) = Some NotEmpty"
proof -
  obtain r fs' where o: "ram_op (Remove_dir ''/tmp/./'') ram_demo = (r, fs')" by fastforce
  have "normalize_path ''/tmp/./'' = ''/tmp''"
    by (simp add: normalize_path_def render_def slash_def push_part_def)
  moreover have "has_child (tree_of ram_demo) ''/tmp''"
    unfolding has_child_def ram_demo_tree by (intro exI [of _ "''/tmp/a''"]) (simp add: slash_def)
  ultimately have "r = Some NotEmpty"
    using ramfs_refines_tree [OF ram_demo_wf o] by (simp add: ram_demo_tree slash_def)
  with o show ?thesis by simp
qed

text \<open>
  A file can be created and removed again without a trace: if \<open>create\<close> succeeds, \<open>remove\<close> of
  the same path succeeds right after it and restores the tree.
\<close>

theorem ram_create_remove:
  assumes "ram_wf fs" "ram_op (Create_file p) fs = (None, fs1)"
  shows "\<exists>fs2. ram_op (Remove_file p) fs1 = (None, fs2) \<and> ram_wf fs2 \<and> tree_of fs2 = tree_of fs"
  using assms by (rule ram_tree.create_remove)

theorem ram_create_remove_witness:
  "\<exists>fs2. ram_op (Remove_file ''/tmp/b'') (snd (ram_op (Create_file ''/tmp/b'') ram_demo)) = (None, fs2)"
proof -
  have "normalize_path ''/tmp/b'' = ''/tmp/b''"
    by (simp add: normalize_path_def render_def slash_def push_part_def)
  then have "ram_op (Create_file ''/tmp/b'') ram_demo =
      (None, ram_demo\<lparr>entries := entries ram_demo @ [new_file ''/tmp/b'']\<rparr>)"
    by (simp add: ram_create_def Let_def error_of_def ram_demo_def new_dir_def new_file_def parent_exists_def
        parent_path_def rfind_def slash_def)
  from ram_create_remove [OF ram_demo_wf this] this show ?thesis by auto
qed

text \<open>
  Writing through an open file does what a file should. The call reports the whole buffer, the
  position moves behind it, and reading the same number of bytes from the old position gives the
  buffer back; bytes before the position and behind the written range keep their values, a gap
  between the old end and the position reads as zeros, and every other path is untouched.
\<close>

theorem file_write_correct:
  assumes "ram_wf fs" "tree_of fs (fpath f) = Some (Data d)" "writable f" "buf \<noteq> []"
  shows "\<exists>fs' d'. file_write buf f fs = (Inr (length buf), f\<lparr>fpos := fpos f + length buf\<rparr>, fs') \<and>
    ram_wf fs' \<and> tree_of fs' = (tree_of fs)(fpath f \<mapsto> Data d') \<and>
    file_read (length buf) f fs' = Inr (buf, f\<lparr>fpos := fpos f + length buf\<rparr>) \<and>
    length d' = max (length d) (fpos f + length buf) \<and>
    (\<forall>i < length d'. (i < fpos f \<or> fpos f + length buf \<le> i) \<longrightarrow> d' ! i = (if i < length d then d ! i else 0))"
proof -
  let ?d = "patch (fpos f) buf d"
  obtain fs' where w: "file_write buf f fs = (Inr (length buf), f\<lparr>fpos := fpos f + length buf\<rparr>, fs')"
    "ram_wf fs'" "tree_of fs' = (tree_of fs)(fpath f \<mapsto> Data ?d)"
    using file_write_tree [OF assms(1-3)] by blast
  have "min (length buf) (length ?d - fpos f) = length buf" "\<not> length ?d \<le> fpos f"
    using assms(4) by auto
  then have "file_read (length buf) f fs' = Inr (buf, f\<lparr>fpos := fpos f + length buf\<rparr>)"
    unfolding file_read_tree [OF w(2)] w(3) using patch_read [of buf "fpos f" d] by simp
  moreover have "?d ! i = (if i < length d then d ! i else 0)"
    if "i < length ?d" "i < fpos f \<or> fpos f + length buf \<le> i" for i
    using that patch_before [of i "fpos f" d] patch_after [of "fpos f" buf i d] patch_gap [of d i "fpos f"]
    by auto
  ultimately show ?thesis using w by auto
qed

theorem file_write_correct_witness:
  "\<exists>fs'. file_write [9, 8] \<lparr>fpath = ''/tmp/a'', fpos = 5, writable = True\<rparr> ram_demo =
     (Inr 2, \<lparr>fpath = ''/tmp/a'', fpos = 7, writable = True\<rparr>, fs') \<and>
     file_read 2 \<lparr>fpath = ''/tmp/a'', fpos = 5, writable = True\<rparr> fs' =
     Inr ([9, 8], \<lparr>fpath = ''/tmp/a'', fpos = 7, writable = True\<rparr>)"
  using file_write_correct [OF ram_demo_wf, of "\<lparr>fpath = ''/tmp/a'', fpos = 5, writable = True\<rparr>" "[1, 2, 3]" "[9, 8]"]
  by (auto simp: ram_demo_tree numeral_2_eq_2)

text \<open>
  A directory listing is exact: \<open>readdir\<close> lists the names of precisely the direct children of the
  directory, no entry of a sibling whose name merely starts the same way and no deeper entry.
\<close>

theorem ram_readdir_exact:
  assumes "ram_wf fs" "tree_of fs (normalize_path p) \<noteq> None" "normalize_path p = render ps" "good_parts ps"
  shows "\<exists>l. ram_readdir p fs = Inr l \<and>
    set (map de_name l) = {q. good_part q \<and> tree_of fs (render (ps @ [q])) \<noteq> None}"
  using assms by (rule readdir_names)

theorem ram_readdir_exact_witness:
  "\<exists>l. ram_readdir ''/tmp'' ram_demo = Inr l \<and> ''a'' \<in> set (map de_name l)"
proof -
  have r: "normalize_path ''/tmp'' = render [''tmp'']" "render [''tmp''] = ''/tmp''"
    "render [''tmp'', ''a''] = ''/tmp/a''"
    by (simp_all add: normalize_path_def render_def slash_def push_part_def)
  have g: "good_part ''a''" "good_parts [''tmp'']" by (simp_all add: good_part_def slash_def)
  have "tree_of ram_demo (normalize_path ''/tmp'') \<noteq> None" by (simp add: r ram_demo_tree)
  from ram_readdir_exact [OF ram_demo_wf this r(1) g(2)] g(1) show ?thesis
    by (auto simp: ram_demo_tree r(3))
qed

end
