(* ===== verification/Vfs.thy ===== *)
theory Vfs
  imports Ramfs
begin

text \<open>
  The mount table (\<open>fs/mount.rs\<close>), path resolution through it and the file API of \<open>fs/mod.rs\<close>.
  \<open>Box<dyn FileSystem>\<close> is a reference: to the root ramfs, which the legacy API shares, or to a
  mounted file system in a store, whose operations are a record that the definitions take as an
  argument (the drivers differ, the VFS calls them only through the trait). Locks are taken and
  released inside one operation, so each operation is one atomic step; \<open>Lazy\<close> and \<open>Arc\<close> leave no
  trace in the model, sharing is the store.
\<close>

section \<open>Dynamic dispatch\<close>

record ('f, 'h) fs_ops =
  op_name :: "'f \<Rightarrow> string"
  op_open :: "string \<Rightarrow> 'f \<Rightarrow> fs_error + 'h"
  op_create :: "string \<Rightarrow> 'f \<Rightarrow> (fs_error + 'h) \<times> 'f"
  op_remove :: "string \<Rightarrow> 'f \<Rightarrow> (fs_error + unit) \<times> 'f"
  op_mkdir :: "string \<Rightarrow> 'f \<Rightarrow> (fs_error + unit) \<times> 'f"
  op_rmdir :: "string \<Rightarrow> 'f \<Rightarrow> (fs_error + unit) \<times> 'f"
  op_readdir :: "string \<Rightarrow> 'f \<Rightarrow> (fs_error + dir_entry list) \<times> 'f"
  op_stat :: "string \<Rightarrow> 'f \<Rightarrow> fs_error + file_metadata"
  op_sync :: "string \<Rightarrow> 'f \<Rightarrow> (fs_error + unit) \<times> 'f"
  op_read :: "nat \<Rightarrow> 'h \<Rightarrow> 'f \<Rightarrow> (fs_error + bytes) \<times> 'h \<times> 'f"
  op_write :: "bytes \<Rightarrow> 'h \<Rightarrow> 'f \<Rightarrow> (fs_error + nat) \<times> 'h \<times> 'f"
  op_size :: "'h \<Rightarrow> 'f \<Rightarrow> nat"

datatype fs_ref = Root | Mounted nat

record mount_point =
  mp_path :: string
  mp_fs :: fs_ref
  mp_readonly :: bool

type_synonym mount_table = "mount_point list"

record 'f fs_state =
  root :: ramfs
  store :: "nat \<Rightarrow> 'f"
  mtab :: mount_table
  cwd :: "string option"

text \<open>A file object; \<open>Read_only\<close> is the wrapper \<open>ReadOnlyFile\<close>.\<close>

datatype 'h vfile = Root_file ram_file | Mounted_file nat 'h | Read_only "'h vfile"

definition on_root :: "('r \<times> ramfs) \<Rightarrow> 'f fs_state \<Rightarrow> 'r \<times> 'f fs_state" where
  "on_root x st = (case x of (r, fs) \<Rightarrow> (r, st\<lparr>root := fs\<rparr>))"

definition on_store :: "nat \<Rightarrow> ('r \<times> 'f) \<Rightarrow> 'f fs_state \<Rightarrow> 'r \<times> 'f fs_state" where
  "on_store i x st = (case x of (r, fs) \<Rightarrow> (r, st\<lparr>store := (store st)(i := fs)\<rparr>))"

definition map_right :: "('a \<Rightarrow> 'b) \<Rightarrow> 'e + 'a \<Rightarrow> 'e + 'b" where
  "map_right f x = (case x of Inl e \<Rightarrow> Inl e | Inr a \<Rightarrow> Inr (f a))"

fun d_open :: "('f, 'h) fs_ops \<Rightarrow> fs_ref \<Rightarrow> string \<Rightarrow> 'f fs_state \<Rightarrow> fs_error + 'h vfile" where
  "d_open ops Root p st = map_right Root_file (ram_open p (root st))"
| "d_open ops (Mounted i) p st = map_right (Mounted_file i) (op_open ops p (store st i))"

fun d_create :: "('f, 'h) fs_ops \<Rightarrow> fs_ref \<Rightarrow> string \<Rightarrow> 'f fs_state \<Rightarrow> (fs_error + 'h vfile) \<times> 'f fs_state" where
  "d_create ops Root p st =
     (case on_root (ram_create p (root st)) st of (r, st) \<Rightarrow> (map_right Root_file r, st))"
| "d_create ops (Mounted i) p st =
     (case on_store i (op_create ops p (store st i)) st of (r, st) \<Rightarrow> (map_right (Mounted_file i) r, st))"

fun d_remove :: "('f, 'h) fs_ops \<Rightarrow> fs_ref \<Rightarrow> string \<Rightarrow> 'f fs_state \<Rightarrow> (fs_error + unit) \<times> 'f fs_state" where
  "d_remove ops Root p st = on_root (ram_remove p (root st)) st"
| "d_remove ops (Mounted i) p st = on_store i (op_remove ops p (store st i)) st"

fun d_mkdir :: "('f, 'h) fs_ops \<Rightarrow> fs_ref \<Rightarrow> string \<Rightarrow> 'f fs_state \<Rightarrow> (fs_error + unit) \<times> 'f fs_state" where
  "d_mkdir ops Root p st = on_root (ram_mkdir p (root st)) st"
| "d_mkdir ops (Mounted i) p st = on_store i (op_mkdir ops p (store st i)) st"

fun d_rmdir :: "('f, 'h) fs_ops \<Rightarrow> fs_ref \<Rightarrow> string \<Rightarrow> 'f fs_state \<Rightarrow> (fs_error + unit) \<times> 'f fs_state" where
  "d_rmdir ops Root p st = on_root (ram_rmdir p (root st)) st"
| "d_rmdir ops (Mounted i) p st = on_store i (op_rmdir ops p (store st i)) st"

fun d_readdir :: "('f, 'h) fs_ops \<Rightarrow> fs_ref \<Rightarrow> string \<Rightarrow> 'f fs_state \<Rightarrow> (fs_error + dir_entry list) \<times> 'f fs_state" where
  "d_readdir ops Root p st = (ram_readdir p (root st), st)"
| "d_readdir ops (Mounted i) p st = on_store i (op_readdir ops p (store st i)) st"

fun d_stat :: "('f, 'h) fs_ops \<Rightarrow> fs_ref \<Rightarrow> string \<Rightarrow> 'f fs_state \<Rightarrow> fs_error + file_metadata" where
  "d_stat ops Root p st = ram_stat p (root st)"
| "d_stat ops (Mounted i) p st = op_stat ops p (store st i)"

text \<open>The default \<open>sync\<close> of the trait, which ramfs keeps, does nothing.\<close>

fun d_sync :: "('f, 'h) fs_ops \<Rightarrow> fs_ref \<Rightarrow> string \<Rightarrow> 'f fs_state \<Rightarrow> (fs_error + unit) \<times> 'f fs_state" where
  "d_sync ops Root p st = (Inr (), st)"
| "d_sync ops (Mounted i) p st = on_store i (op_sync ops p (store st i)) st"

fun d_name :: "('f, 'h) fs_ops \<Rightarrow> fs_ref \<Rightarrow> 'f fs_state \<Rightarrow> string" where
  "d_name ops Root st = ''ramfs''"
| "d_name ops (Mounted i) st = op_name ops (store st i)"

fun f_read :: "('f, 'h) fs_ops \<Rightarrow> nat \<Rightarrow> 'h vfile \<Rightarrow> 'f fs_state \<Rightarrow> (fs_error + bytes) \<times> 'h vfile \<times> 'f fs_state" where
  "f_read ops n (Root_file f) st =
     (case file_read n f (root st) of
        Inl e \<Rightarrow> (Inl e, Root_file f, st)
      | Inr (bs, f') \<Rightarrow> (Inr bs, Root_file f', st))"
| "f_read ops n (Mounted_file i h) st =
     (case op_read ops n h (store st i) of
        (r, h', fs) \<Rightarrow> (r, Mounted_file i h', st\<lparr>store := (store st)(i := fs)\<rparr>))"
| "f_read ops n (Read_only f) st =
     (case f_read ops n f st of (r, f', st') \<Rightarrow> (r, Read_only f', st'))"

fun f_write :: "('f, 'h) fs_ops \<Rightarrow> bytes \<Rightarrow> 'h vfile \<Rightarrow> 'f fs_state \<Rightarrow> (fs_error + nat) \<times> 'h vfile \<times> 'f fs_state" where
  "f_write ops buf (Root_file f) st =
     (case file_write buf f (root st) of (r, f', fs) \<Rightarrow> (r, Root_file f', st\<lparr>root := fs\<rparr>))"
| "f_write ops buf (Mounted_file i h) st =
     (case op_write ops buf h (store st i) of
        (r, h', fs) \<Rightarrow> (r, Mounted_file i h', st\<lparr>store := (store st)(i := fs)\<rparr>))"
| "f_write ops buf (Read_only f) st = (Inl ReadOnly, Read_only f, st)"

fun f_size :: "('f, 'h) fs_ops \<Rightarrow> 'h vfile \<Rightarrow> 'f fs_state \<Rightarrow> nat" where
  "f_size ops (Root_file f) st = file_size f (root st)"
| "f_size ops (Mounted_file i h) st = op_size ops h (store st i)"
| "f_size ops (Read_only f) st = f_size ops f st"

section \<open>The mount table\<close>

definition mt_mount :: "string \<Rightarrow> fs_ref \<Rightarrow> bool \<Rightarrow> mount_table \<Rightarrow> (fs_error + unit) \<times> mount_table" where
  "mt_mount p fs ro mt =
     (let path = mount_normalize p in
      if list_ex (\<lambda>mp. mp_path mp = path) mt then (Inl AlreadyExists, mt)
      else (Inr (), mt @ [\<lparr>mp_path = path, mp_fs = fs, mp_readonly = ro\<rparr>]))"

definition mt_mount_rw :: "string \<Rightarrow> fs_ref \<Rightarrow> mount_table \<Rightarrow> (fs_error + unit) \<times> mount_table" where
  "mt_mount_rw p fs mt = mt_mount p fs False mt"

definition mt_mount_ro :: "string \<Rightarrow> fs_ref \<Rightarrow> mount_table \<Rightarrow> (fs_error + unit) \<times> mount_table" where
  "mt_mount_ro p fs mt = mt_mount p fs True mt"

definition mt_unmount :: "string \<Rightarrow> mount_table \<Rightarrow> (fs_error + unit) \<times> mount_table" where
  "mt_unmount p mt =
     (case position (\<lambda>mp. mp_path mp = mount_normalize p) mt of
        None \<Rightarrow> (Inl NotFound, mt)
      | Some pos \<Rightarrow> (Inr (), remove_at pos mt))"

text \<open>The match of \<open>find_fs\<close>: equal, or a prefix that ends at a component boundary.\<close>

definition covers :: "string \<Rightarrow> string \<Rightarrow> bool" where
  "covers mp path \<longleftrightarrow>
     path = mp \<or> (prefix mp path \<and> length mp < length path \<and> path ! length mp = slash)"

fun find_loop :: "string \<Rightarrow> nat \<Rightarrow> mount_table \<Rightarrow> (nat \<times> string) option \<Rightarrow> nat \<Rightarrow> (nat \<times> string) option" where
  "find_loop path idx [] best best_len = best"
| "find_loop path idx (mp # mps) best best_len =
     (if covers (mp_path mp) path \<and> length (mp_path mp) > best_len
      then find_loop path (idx + 1) mps
             (Some (idx, if length path > length (mp_path mp) then drop (length (mp_path mp)) path else []))
             (length (mp_path mp))
      else find_loop path (idx + 1) mps best best_len)"

definition find_fs :: "string \<Rightarrow> mount_table \<Rightarrow> (nat \<times> string) option" where
  "find_fs p mt = find_loop (mount_normalize p) 0 mt None 0"

definition mt_is_mounted :: "string \<Rightarrow> mount_table \<Rightarrow> bool" where
  "mt_is_mounted p mt \<longleftrightarrow> list_ex (\<lambda>m. mp_path m = mount_normalize p) mt"

definition bool_text :: "bool \<Rightarrow> string" where
  "bool_text b = (if b then ''true'' else ''false'')"

definition mt_list :: "('f, 'h) fs_ops \<Rightarrow> 'f fs_state \<Rightarrow> string list" where
  "mt_list ops st =
     map (\<lambda>m. mp_path m @ '' -> '' @ d_name ops (mp_fs m) st @ '' (readonly: '' @
              bool_text (mp_readonly m) @ '')'') (mtab st)"

definition mt_list_entries :: "('f, 'h) fs_ops \<Rightarrow> 'f fs_state \<Rightarrow> (string \<times> string \<times> bool) list" where
  "mt_list_entries ops st = map (\<lambda>m. (mp_path m, d_name ops (mp_fs m) st, mp_readonly m)) (mtab st)"

definition mount_point_of :: "string \<Rightarrow> 'f fs_state \<Rightarrow> string option" where
  "mount_point_of p st = map_option (\<lambda>(idx, _). mp_path (mtab st ! idx)) (find_fs p (mtab st))"

definition mount_fs :: "string \<Rightarrow> fs_ref \<Rightarrow> bool \<Rightarrow> 'f fs_state \<Rightarrow> (fs_error + unit) \<times> 'f fs_state" where
  "mount_fs p fs ro st = (case mt_mount p fs ro (mtab st) of (r, mt) \<Rightarrow> (r, st\<lparr>mtab := mt\<rparr>))"

definition vfs_unmount :: "string \<Rightarrow> 'f fs_state \<Rightarrow> (fs_error + unit) \<times> 'f fs_state" where
  "vfs_unmount p st = (case mt_unmount p (mtab st) of (r, mt) \<Rightarrow> (r, st\<lparr>mtab := mt\<rparr>))"

section \<open>The VFS operations\<close>

definition resolve_fs :: "string \<Rightarrow> 'f fs_state \<Rightarrow> fs_error + fs_ref \<times> string \<times> bool" where
  "resolve_fs p st =
     (case find_fs p (mtab st) of
        None \<Rightarrow> Inl NotFound
      | Some (idx, rel) \<Rightarrow>
          Inr (mp_fs (mtab st ! idx), if rel = [] then [slash] else rel, mp_readonly (mtab st ! idx)))"

definition vfs_open :: "('f, 'h) fs_ops \<Rightarrow> string \<Rightarrow> 'f fs_state \<Rightarrow> fs_error + 'h vfile" where
  "vfs_open ops p st =
     (case resolve_fs p st of
        Inl e \<Rightarrow> Inl e
      | Inr (fs, target, ro) \<Rightarrow>
          (case d_open ops fs target st of
             Inl e \<Rightarrow> Inl e
           | Inr f \<Rightarrow> Inr (if ro then Read_only f else f)))"

text \<open>The guard that \<open>vfs_create\<close>, \<open>vfs_mkdir\<close>, \<open>vfs_rmdir\<close> and \<open>vfs_remove\<close> share.\<close>

definition through_rw ::
  "(fs_ref \<Rightarrow> string \<Rightarrow> 'f fs_state \<Rightarrow> (fs_error + 'r) \<times> 'f fs_state) \<Rightarrow> string \<Rightarrow> 'f fs_state \<Rightarrow>
     (fs_error + 'r) \<times> 'f fs_state" where
  "through_rw act p st =
     (case resolve_fs p st of
        Inl e \<Rightarrow> (Inl e, st)
      | Inr (fs, target, ro) \<Rightarrow> if ro then (Inl ReadOnly, st) else act fs target st)"

definition vfs_create :: "('f, 'h) fs_ops \<Rightarrow> string \<Rightarrow> 'f fs_state \<Rightarrow> (fs_error + 'h vfile) \<times> 'f fs_state" where
  "vfs_create ops = through_rw (d_create ops)"

definition vfs_mkdir :: "('f, 'h) fs_ops \<Rightarrow> string \<Rightarrow> 'f fs_state \<Rightarrow> (fs_error + unit) \<times> 'f fs_state" where
  "vfs_mkdir ops = through_rw (d_mkdir ops)"

definition vfs_rmdir :: "('f, 'h) fs_ops \<Rightarrow> string \<Rightarrow> 'f fs_state \<Rightarrow> (fs_error + unit) \<times> 'f fs_state" where
  "vfs_rmdir ops = through_rw (d_rmdir ops)"

definition vfs_remove :: "('f, 'h) fs_ops \<Rightarrow> string \<Rightarrow> 'f fs_state \<Rightarrow> (fs_error + unit) \<times> 'f fs_state" where
  "vfs_remove ops = through_rw (d_remove ops)"

definition vfs_readdir :: "('f, 'h) fs_ops \<Rightarrow> string \<Rightarrow> 'f fs_state \<Rightarrow> (fs_error + dir_entry list) \<times> 'f fs_state" where
  "vfs_readdir ops p st =
     (case resolve_fs p st of Inl e \<Rightarrow> (Inl e, st) | Inr (fs, target, _) \<Rightarrow> d_readdir ops fs target st)"

definition vfs_stat :: "('f, 'h) fs_ops \<Rightarrow> string \<Rightarrow> 'f fs_state \<Rightarrow> fs_error + file_metadata" where
  "vfs_stat ops p st =
     (case resolve_fs p st of Inl e \<Rightarrow> Inl e | Inr (fs, target, _) \<Rightarrow> d_stat ops fs target st)"

definition vfs_exists :: "('f, 'h) fs_ops \<Rightarrow> string \<Rightarrow> 'f fs_state \<Rightarrow> bool" where
  "vfs_exists ops p st = (case vfs_stat ops p st of Inr m \<Rightarrow> de_name m \<noteq> [] | Inl _ \<Rightarrow> False)"

definition vfs_sync :: "('f, 'h) fs_ops \<Rightarrow> string \<Rightarrow> 'f fs_state \<Rightarrow> (fs_error + unit) \<times> 'f fs_state" where
  "vfs_sync ops p st =
     (case resolve_fs p st of Inl e \<Rightarrow> (Inl e, st) | Inr (fs, target, _) \<Rightarrow> d_sync ops fs target st)"

section \<open>The file API of the shell\<close>

definition MAX_READ_BYTES :: nat where "MAX_READ_BYTES = 2 * 1024 * 1024"
definition COPY_CHUNK :: nat where "COPY_CHUNK = 16 * 1024"

definition get_current_dir :: "'f fs_state \<Rightarrow> string" where
  "get_current_dir st = (case cwd st of None \<Rightarrow> [slash] | Some d \<Rightarrow> d)"

definition set_current_dir :: "string \<Rightarrow> 'f fs_state \<Rightarrow> 'f fs_state" where
  "set_current_dir p st = st\<lparr>cwd := Some p\<rparr>"

abbreviation full_path :: "string \<Rightarrow> 'f fs_state \<Rightarrow> string" where
  "full_path name st \<equiv> resolve_path (get_current_dir st) name"

text \<open>\<open>read_all\<close>: one read into a zeroed buffer of the file's size.\<close>

definition read_all :: "('f, 'h) fs_ops \<Rightarrow> 'h vfile \<Rightarrow> 'f fs_state \<Rightarrow> (fs_error + bytes) \<times> 'f fs_state" where
  "read_all ops f st =
     (let n = f_size ops f st in
      if n > MAX_READ_BYTES then (Inl NotSupported, st)
      else if n > 0 then
        (case f_read ops n f st of
           (Inl e, _, st) \<Rightarrow> (Inl e, st)
         | (Inr bs, _, st) \<Rightarrow> (Inr (bs @ replicate (n - length bs) 0), st))
      else (Inr [], st))"

definition list_dir :: "('f, 'h) fs_ops \<Rightarrow> string \<Rightarrow> 'f fs_state \<Rightarrow> dir_entry list \<times> 'f fs_state" where
  "list_dir ops name st =
     (let path = full_path name st in
      case vfs_readdir ops path st of
        (Inr es, st) \<Rightarrow> (es, st)
      | (Inl e, st) \<Rightarrow>
          if e = NotFound
          then (case ram_readdir path (root st) of Inr es \<Rightarrow> (es, st) | Inl _ \<Rightarrow> ([], st))
          else ([], st))"

definition create_file :: "('f, 'h) fs_ops \<Rightarrow> string \<Rightarrow> 'f fs_state \<Rightarrow> (fs_error + unit) \<times> 'f fs_state" where
  "create_file ops name st =
     (let path = full_path name st in
      case vfs_create ops path st of
        (Inr _, st) \<Rightarrow> (Inr (), st)
      | (Inl e, st) \<Rightarrow>
          if e = NotFound
          then (case on_root (ram_create path (root st)) st of (r, st) \<Rightarrow> (map_right (\<lambda>_. ()) r, st))
          else (Inl e, st))"

definition open_file :: "('f, 'h) fs_ops \<Rightarrow> string \<Rightarrow> 'f fs_state \<Rightarrow> fs_error + 'h vfile" where
  "open_file ops name st =
     (let path = full_path name st in
      case vfs_open ops path st of
        Inr f \<Rightarrow> Inr f
      | Inl e \<Rightarrow> if e = NotFound then map_right Root_file (ram_open path (root st)) else Inl e)"

definition read_file :: "('f, 'h) fs_ops \<Rightarrow> string \<Rightarrow> 'f fs_state \<Rightarrow> (fs_error + bytes) \<times> 'f fs_state" where
  "read_file ops name st =
     (case open_file ops name st of Inl e \<Rightarrow> (Inl e, st) | Inr f \<Rightarrow> read_all ops f st)"

text \<open>The destination of \<open>copy_file\<close> and \<open>write_file\<close>: created through the VFS, or fresh in ramfs.\<close>

definition fresh_file :: "('f, 'h) fs_ops \<Rightarrow> string \<Rightarrow> 'f fs_state \<Rightarrow> (fs_error + 'h vfile) \<times> 'f fs_state" where
  "fresh_file ops path st =
     (case vfs_create ops path st of
        (Inr f, st) \<Rightarrow> (Inr f, st)
      | (Inl e, st) \<Rightarrow>
          if e = NotFound
          then
            (case on_root (ram_create path (snd (ram_remove path (root st)))) st of
               (r, st) \<Rightarrow> (map_right Root_file r, st))
          else (Inl e, st))"

text \<open>The copy loop; \<open>cancel k\<close> is the answer of the \<open>k\<close>-th \<open>poll_cancel\<close>.\<close>

partial_function (option) copy_loop ::
  "('f, 'h) fs_ops \<Rightarrow> (nat \<Rightarrow> bool) \<Rightarrow> nat \<Rightarrow> 'h vfile \<Rightarrow> 'h vfile \<Rightarrow> nat \<Rightarrow> 'f fs_state \<Rightarrow>
     ((fs_error + nat) \<times> 'f fs_state) option" where
  "copy_loop ops cancel k src dst tot st =
     (if cancel k then Some (Inl IoError, st)
      else
        let rd = f_read ops COPY_CHUNK src st in
        case fst rd of
          Inl e \<Rightarrow> Some (Inl e, snd (snd rd))
        | Inr bs \<Rightarrow>
            if bs = [] then Some (Inr tot, snd (snd rd))
            else
              let wr = f_write ops bs dst (snd (snd rd)) in
              case fst wr of
                Inl e \<Rightarrow> Some (Inl e, snd (snd wr))
              | Inr _ \<Rightarrow>
                  copy_loop ops cancel (k + 1) (fst (snd rd)) (fst (snd wr)) (tot + length bs)
                    (snd (snd wr)))"

definition copy_file ::
  "('f, 'h) fs_ops \<Rightarrow> (nat \<Rightarrow> bool) \<Rightarrow> string \<Rightarrow> string \<Rightarrow> 'f fs_state \<Rightarrow>
     ((fs_error + nat) \<times> 'f fs_state) option" where
  "copy_file ops cancel source dest st =
     (case open_file ops source st of
        Inl e \<Rightarrow> Some (Inl e, st)
      | Inr src \<Rightarrow>
          (case fresh_file ops (full_path dest st) st of
             (Inl e, st) \<Rightarrow> Some (Inl e, st)
           | (Inr dst, st) \<Rightarrow> copy_loop ops cancel 0 src dst 0 st))"

definition write_file ::
  "('f, 'h) fs_ops \<Rightarrow> string \<Rightarrow> bytes \<Rightarrow> 'f fs_state \<Rightarrow> (fs_error + unit) \<times> 'f fs_state" where
  "write_file ops name data st =
     (let path = full_path name st in
      case vfs_remove ops path st of
        (r, st) \<Rightarrow>
          if r \<noteq> Inr () \<and> r \<noteq> Inl NotFound then (r, st)
          else
            (case fresh_file ops path st of
               (Inl e, st) \<Rightarrow> (Inl e, st)
             | (Inr f, st) \<Rightarrow>
                 (case f_write ops data f st of (r, _, st) \<Rightarrow> (map_right (\<lambda>_. ()) r, st))))"

definition create_dir :: "('f, 'h) fs_ops \<Rightarrow> string \<Rightarrow> 'f fs_state \<Rightarrow> (fs_error + unit) \<times> 'f fs_state" where
  "create_dir ops name st =
     (let path = full_path name st in
      case vfs_mkdir ops path st of
        (r, st) \<Rightarrow> if r = Inl NotFound then on_root (ram_mkdir path (root st)) st else (r, st))"

definition remove_dir :: "('f, 'h) fs_ops \<Rightarrow> string \<Rightarrow> 'f fs_state \<Rightarrow> (fs_error + unit) \<times> 'f fs_state" where
  "remove_dir ops name st =
     (let path = full_path name st in
      case vfs_rmdir ops path st of
        (r, st) \<Rightarrow> if r = Inl NotFound then on_root (ram_rmdir path (root st)) st else (r, st))"

definition remove_entry :: "('f, 'h) fs_ops \<Rightarrow> string \<Rightarrow> 'f fs_state \<Rightarrow> (fs_error + unit) \<times> 'f fs_state" where
  "remove_entry ops name st =
     (let path = full_path name st in
      case vfs_remove ops path st of
        (r, st) \<Rightarrow>
          if r \<noteq> Inl NotFound \<and> r \<noteq> Inl IsADirectory then (r, st)
          else
            (case vfs_rmdir ops path st of
               (r, st) \<Rightarrow>
                 if r \<noteq> Inl NotFound \<and> r \<noteq> Inl NotADirectory then (r, st)
                 else
                   (case on_root (ram_remove path (root st)) st of
                      (Inl _, st) \<Rightarrow> on_root (ram_rmdir path (root st)) st
                    | (Inr _, st) \<Rightarrow> (Inr (), st))))"

definition dir_exists :: "('f, 'h) fs_ops \<Rightarrow> string \<Rightarrow> 'f fs_state \<Rightarrow> bool" where
  "dir_exists ops name st =
     (let path = full_path name st in
      vfs_exists ops path st \<or>
      (case ram_stat path (root st) of Inr m \<Rightarrow> de_type m = Directory | Inl _ \<Rightarrow> False))"

section \<open>Initialisation\<close>

definition boot_dirs :: "string list" where
  "boot_dirs = [''/dev'', ''/proc'', ''/sys'', ''/tmp'', ''/mnt'', ''/cfg'', ''/var'', ''/var/log'',
     ''/home'', ''/home/root'', ''/home/user'']"

definition newline :: string where "newline = [CHR 0x0A]"

definition boot_files :: "(string \<times> string) list" where
  "boot_files =
     [(''/cfg/hostname'', ''vibra''),
      (''/cfg/passwd'',
       ''root:x:0:0:root:/home/root:/bin/sh'' @ newline @
       ''user:x:1000:1000:user:/home/user:/bin/sh'' @ newline)]"

text \<open>Replace a file of the root ramfs.\<close>

definition put_file :: "string \<Rightarrow> bytes \<Rightarrow> ramfs \<Rightarrow> ramfs" where
  "put_file p d fs =
     (let fs1 = snd (ram_remove p fs) in
      case ram_create p fs1 of
        (Inl _, fs2) \<Rightarrow> fs2
      | (Inr _, fs2) \<Rightarrow> snd (ram_write_data p d fs2))"

definition write_fstab :: "('f, 'h) fs_ops \<Rightarrow> 'f fs_state \<Rightarrow> 'f fs_state" where
  "write_fstab ops st =
     st\<lparr>root := put_file ''/cfg/fstab''
         (bytes_of (''# mountpoint  filesystem'' @ newline @ ''/  ramfs  rw'' @ newline @
            concat (map (\<lambda>l. l @ newline) (mt_list ops st)))) (root st)\<rparr>"

text \<open>procfs, sysfs and devtmpfs are the file systems 0, 1 and 2 of the store.\<close>

definition init_filesystem :: "('f, 'h) fs_ops \<Rightarrow> 'f fs_state \<Rightarrow> 'f fs_state" where
  "init_filesystem ops st =
     (let fs0 = snd (ram_mount (root st));
          fs1 = fold (\<lambda>d fs. snd (ram_mkdir d fs)) boot_dirs fs0;
          fs2 = fold (\<lambda>(p, s) fs. put_file p (bytes_of s) fs) boot_files fs1;
          st1 = st\<lparr>root := fs2\<rparr>;
          st2 = snd (mount_fs ''/'' Root False st1);
          st3 = snd (mount_fs ''/proc'' (Mounted 0) True st2);
          st4 = snd (mount_fs ''/sys'' (Mounted 1) True st3);
          st5 = snd (mount_fs ''/dev'' (Mounted 2) False st4)
      in write_fstab ops st5)"

section \<open>Resolution\<close>

lemma covers_render:
  assumes "good_parts ms" "good_parts ps" "ms \<noteq> []"
  shows "covers (render ms) (render ps) \<longleftrightarrow> prefix ms ps"
proof
  assume "prefix ms ps"
  then obtain rs where "ps = ms @ rs" by (auto simp: prefix_def)
  then show "covers (render ms) (render ps)"
    using assms by (cases rs) (auto simp: covers_def render_def nth_append)
next
  assume c: "covers (render ms) (render ps)"
  show "prefix ms ps"
  proof (cases "render ps = render ms")
    case True
    then show ?thesis using render_inj [OF assms(2,1)] by simp
  next
    case False
    then obtain r where r: "render ps = render ms @ slash # r"
      using c unfolding covers_def prefix_def
      by (metis append_Nil2 append_eq_append_conv2 hd_drop_conv_nth append_eq_conv_conj
          list.collapse drop_eq_Nil leD)
    have sl: "\<forall>p \<in> set ms. slash \<notin> set p" "\<forall>p \<in> set ps. slash \<notin> set p"
      using assms by (auto simp: good_parts_def list_all_iff good_part_def)
    have "ps \<noteq> []" using r assms(3) by (cases ps; cases ms) (auto simp: render_def)
    then have "join_parts ps = join_parts ms @ slash # r" using r assms(3) by (simp add: render_def)
    moreover have "join_parts ms @ slash # r = join_parts (ms @ split_on slash r)"
    proof -
      have "join_parts (split_on slash s) = slash # s" for s
        by (induction s) (auto split: list.splits simp: join_parts_def)
      then show ?thesis by simp
    qed
    ultimately have "join_parts ps = join_parts (ms @ split_on slash r)" by simp
    then have "[] # ps = [] # (ms @ split_on slash r)"
      using split_on_join [OF sl(2) \<open>ps \<noteq> []\<close>] split_on_join [of "ms @ split_on slash r"] sl(1) assms(3)
      by (auto dest: split_on_parts)
    then show ?thesis by (simp add: prefix_def)
  qed
qed

lemma covers_root: "good_parts ps \<Longrightarrow> covers [slash] (render ps) \<longleftrightarrow> ps = []"
proof -
  assume g: "good_parts ps"
  have "render ps ! 1 \<noteq> slash \<and> 1 < length (render ps)" if ne: "ps \<noteq> []"
  proof -
    obtain p qs where ps: "ps = p # qs" using ne by (cases ps) auto
    then obtain x xs where "p = x # xs" "x \<noteq> slash" using g by (cases p) (auto simp: good_part_def)
    then show ?thesis using ps by (simp add: render_def)
  qed
  then show ?thesis by (auto simp: covers_def render_def)
qed

lemma find_loop_cases:
  "(find_loop path idx mps best bl = best \<and>
      (\<forall>mp \<in> set mps. covers (mp_path mp) path \<longrightarrow> length (mp_path mp) \<le> bl)) \<or>
   (\<exists>k < length mps. covers (mp_path (mps ! k)) path \<and> bl < length (mp_path (mps ! k)) \<and>
      find_loop path idx mps best bl = Some (idx + k, drop (length (mp_path (mps ! k))) path) \<and>
      (\<forall>mp \<in> set mps. covers (mp_path mp) path \<longrightarrow> length (mp_path mp) \<le> length (mp_path (mps ! k))))"
proof (induction mps arbitrary: idx best bl)
  case (Cons m mps)
  let ?n = "length (mp_path m)"
  show ?case
  proof (cases "covers (mp_path m) path \<and> bl < ?n")
    case True
    let ?b = "Some (idx, drop ?n path)"
    have "find_loop path idx (m # mps) best bl = find_loop path (idx + 1) mps ?b ?n"
      using True by simp
    with Cons.IH [of "idx + 1" ?b ?n] True show ?thesis
      by (elim disjE exE conjE) (rule disjI2, rule exI [of _ 0], simp, rule disjI2, force)
  next
    case False
    then have "find_loop path idx (m # mps) best bl = find_loop path (idx + 1) mps best bl" by auto
    with Cons.IH [of "idx + 1" best bl] False show ?thesis
      by (elim disjE exE conjE) (rule disjI1, force, rule disjI2, force)
  qed
qed simp

definition mt_ok :: "mount_table \<Rightarrow> bool" where
  "mt_ok mt \<longleftrightarrow> (\<forall>mp \<in> set mt. normal (mp_path mp))"

lemma find_fs_cases:
  assumes ok: "mt_ok mt" and p: "normal p"
  shows "case find_fs p mt of
      None \<Rightarrow> \<forall>mp \<in> set mt. \<not> covers (mp_path mp) p
    | Some (i, rel) \<Rightarrow> i < length mt \<and> covers (mp_path (mt ! i)) p \<and>
        rel = drop (length (mp_path (mt ! i))) p \<and>
        (\<forall>mp \<in> set mt. covers (mp_path mp) p \<longrightarrow> length (mp_path mp) \<le> length (mp_path (mt ! i)))"
proof -
  have ne: "0 < length (mp_path mp)" if "mp \<in> set mt" for mp
    using ok that unfolding mt_ok_def by (metis hd_render(1) length_greater_0_conv normalE)
  have f: "find_fs p mt = find_loop p 0 mt None 0" using p by (simp add: find_fs_def mount_normalize_id)
  show ?thesis
    using find_loop_cases [of p 0 mt None 0] ne unfolding f by (auto simp: not_le)
qed

lemma render_append: "good_parts (ms @ rs) \<Longrightarrow> ms \<noteq> [] \<Longrightarrow> render (ms @ rs) = render ms @ join_parts rs"
  by (simp add: render_def)

lemma render_length_less:
  assumes "good_parts ns" "ms \<noteq> []" "prefix ms ns" "ms \<noteq> ns"
  shows "length (render ms) < length (render ns)"
proof -
  obtain rs where rs: "ns = ms @ rs" "rs \<noteq> []" using assms by (auto simp: prefix_def)
  then show ?thesis using assms render_append [of ms rs] by (cases rs) auto
qed

lemma resolution:
  assumes ok: "mt_ok mt" and ps: "good_parts ps"
  shows "case find_fs (render ps) mt of
      None \<Rightarrow> \<not> (\<exists>ns. ns \<noteq> [] \<and> good_parts ns \<and> render ns \<in> mp_path ` set mt \<and> prefix ns ps)
    | Some (i, rel) \<Rightarrow> i < length mt \<and> (\<exists>ms. good_parts ms \<and> mp_path (mt ! i) = render ms \<and>
        prefix ms ps \<and> (ms = [] \<longrightarrow> ps = []) \<and>
        (if rel = [] then [slash] else rel) = render (drop (length ms) ps) \<and>
        \<not> (\<exists>ns. good_parts ns \<and> render ns \<in> mp_path ` set mt \<and> prefix ns ps \<and> length ms < length ns))"
proof (cases "find_fs (render ps) mt")
  case None
  then have nc: "\<forall>mp \<in> set mt. \<not> covers (mp_path mp) (render ps)"
    using find_fs_cases [OF ok normal_render [OF ps]] by simp
  have "\<not> (\<exists>ns. ns \<noteq> [] \<and> good_parts ns \<and> render ns \<in> mp_path ` set mt \<and> prefix ns ps)"
  proof
    assume "\<exists>ns. ns \<noteq> [] \<and> good_parts ns \<and> render ns \<in> mp_path ` set mt \<and> prefix ns ps"
    then obtain ns mp where ns: "ns \<noteq> []" "good_parts ns" "mp \<in> set mt" "mp_path mp = render ns" "prefix ns ps"
      by auto
    then show False using nc covers_render [OF ns(2) ps ns(1)] by metis
  qed
  then show ?thesis using None by simp
next
  case (Some ir)
  obtain i rel where ir: "ir = (i, rel)" by fastforce
  have f: "i < length mt" "covers (mp_path (mt ! i)) (render ps)"
    "rel = drop (length (mp_path (mt ! i))) (render ps)"
    "\<forall>mp \<in> set mt. covers (mp_path mp) (render ps) \<longrightarrow> length (mp_path mp) \<le> length (mp_path (mt ! i))"
    using find_fs_cases [OF ok normal_render [OF ps]] Some ir by auto
  have "normal (mp_path (mt ! i))" using ok f(1) by (auto simp: mt_ok_def)
  then obtain ms where ms: "good_parts ms" "mp_path (mt ! i) = render ms" by (rule normalE)
  have root: "ms = [] \<Longrightarrow> ps = []" using f(2) ms covers_root [OF ps] by (simp add: render_def)
  have pre: "prefix ms ps"
    using f(2) ms ps covers_render [of ms ps] root by (cases "ms = []") auto
  have rel: "(if rel = [] then [slash] else rel) = render (drop (length ms) ps)"
  proof (cases "ms = []")
    case True
    then show ?thesis using root f(3) ms by (simp add: render_def)
  next
    case False
    obtain rs where rs: "ps = ms @ rs" using pre by (auto simp: prefix_def)
    then have "rel = join_parts rs" using render_append [of ms rs] ps False f(3) ms by simp
    then show ?thesis using rs by (cases rs) (simp_all add: render_def)
  qed
  have longest: "\<not> (\<exists>ns. good_parts ns \<and> render ns \<in> mp_path ` set mt \<and> prefix ns ps \<and> length ms < length ns)"
  proof
    assume "\<exists>ns. good_parts ns \<and> render ns \<in> mp_path ` set mt \<and> prefix ns ps \<and> length ms < length ns"
    then obtain ns mp where ns: "good_parts ns" "mp \<in> set mt" "mp_path mp = render ns" "prefix ns ps"
      "length ms < length ns" by auto
    then have "ns \<noteq> []" "ms \<noteq> []" using root by auto
    then have "length (render ns) \<le> length (render ms)"
      using f(4) ns(2,3,4) covers_render [OF ns(1) ps] ms(2) by auto
    moreover have "prefix ms ns" using pre ns(4,5) by (metis prefix_length_prefix less_imp_le)
    ultimately show False
      using render_length_less [OF ns(1) \<open>ms \<noteq> []\<close>] ns(5) by auto
  qed
  show ?thesis using Some ir f(1) ms pre root rel longest by auto
qed

section \<open>Files of the root file system through the API\<close>

lemma map_right_simps [simp]: "map_right f (Inl e) = Inl e" "map_right f (Inr a) = Inr (f a)"
  by (simp_all add: map_right_def)

text \<open>A path that no mounted file system serves falls back to the root ramfs.\<close>

definition uncovered :: "string \<Rightarrow> 'f fs_state \<Rightarrow> bool" where
  "uncovered p st \<longleftrightarrow> find_fs p (mtab st) = None"

lemma uncovered_resolve: "uncovered p st \<Longrightarrow> resolve_fs p st = Inl NotFound"
  by (simp add: uncovered_def resolve_fs_def)

lemma fresh_root:
  assumes "uncovered p st" "ram_wf (root st)" "normal p" "p \<noteq> [slash]"
    "tree_of (root st) (parent_path p) = Some Dir" "tree_of (root st) p \<noteq> Some Dir"
  shows "\<exists>fs. fresh_file ops p st = (Inr (Root_file (handle_for p)), st\<lparr>root := fs\<rparr>) \<and> ram_wf fs \<and>
    tree_of fs = (tree_of (root st))(p \<mapsto> Data [])"
proof -
  let ?t = "tree_of (root st)"
  have np: "normalize_path p = p" using assms(3) by (rule normalize_id)
  obtain r1 fs1 where r1: "error_of (ram_remove p (root st)) = (r1, fs1)" by fastforce
  then have fs1: "snd (ram_remove p (root st)) = fs1"
    by (auto simp: error_of_def split: prod.splits sum.splits)
  have w1: "ram_wf fs1" "tree_op (Remove_file p) ?t = (r1, tree_of fs1)"
    using ram_remove_refines [OF assms(2), of p] r1 np by auto
  then have t1: "tree_of fs1 = ?t(p := None)"
    using assms(4,6) by (auto split: option.splits node.splits)
  have par: "parent_path p \<noteq> p" using assms(5,6) by auto
  have "add_node p (Data []) (tree_of fs1) = (None, (tree_of fs1)(p \<mapsto> Data []))"
    using t1 assms(5) par by (simp add: add_node_def)
  then obtain fs2 where c: "error_of (ram_create p fs1) = (None, fs2)" "ram_wf fs2"
    "tree_of fs2 = ?t(p \<mapsto> Data [])"
    using ram_create_refines [OF w1(1), of p] np t1 by (cases "error_of (ram_create p fs1)") auto
  then have "ram_create p fs1 = (Inr (handle_for p), fs2)"
    using np by (auto simp: error_of_def ram_create_def Let_def split: if_splits)
  then show ?thesis
    using c uncovered_resolve [OF assms(1)] fs1
    by (auto simp: fresh_file_def vfs_create_def through_rw_def on_root_def)
qed

lemma open_root:
  assumes "uncovered (full_path name st) st" "ram_wf (root st)" "normal (full_path name st)"
    "tree_of (root st) (full_path name st) = Some (Data d)"
  shows "open_file ops name st = Inr (Root_file (handle_for (full_path name st)))"
  using assms uncovered_resolve [OF assms(1)]
  by (auto simp: open_file_def Let_def vfs_open_def ram_open_def normalize_id wf_simps [OF assms(2)])

lemma read_all_root:
  assumes "ram_wf (root st)" "tree_of (root st) p = Some (Data d)" "length d \<le> MAX_READ_BYTES"
  shows "read_all ops (Root_file (handle_for p)) st = (Inr d, st)"
  using assms by (auto simp: read_all_def Let_def file_size_tree file_read_tree handle_for_def)

lemma write_fresh_root:
  assumes "ram_wf fs" "tree_of fs p = Some (Data [])"
  shows "\<exists>fs'. file_write d (handle_for p) fs = (Inr (length d), (handle_for p)\<lparr>fpos := length d\<rparr>, fs') \<and>
    ram_wf fs' \<and> tree_of fs' = (tree_of fs)(p \<mapsto> Data d)"
  using file_write_tree [OF assms(1), of "handle_for p" "[]" d] assms(2)
  by (auto simp: handle_for_def patch_empty)

lemma write_root:
  assumes "uncovered (full_path name st) st" "ram_wf (root st)" "normal (full_path name st)"
    "full_path name st \<noteq> [slash]" "tree_of (root st) (parent_path (full_path name st)) = Some Dir"
    "tree_of (root st) (full_path name st) \<noteq> Some Dir"
  shows "\<exists>fs. write_file ops name d st = (Inr (), st\<lparr>root := fs\<rparr>) \<and> ram_wf fs \<and>
    tree_of fs = (tree_of (root st))(full_path name st \<mapsto> Data d)"
proof -
  let ?p = "full_path name st"
  obtain fs where fs: "fresh_file ops ?p st = (Inr (Root_file (handle_for ?p)), st\<lparr>root := fs\<rparr>)" "ram_wf fs"
    "tree_of fs = (tree_of (root st))(?p \<mapsto> Data [])"
    using fresh_root [OF assms] by blast
  obtain fs' where w: "file_write d (handle_for ?p) fs = (Inr (length d), (handle_for ?p)\<lparr>fpos := length d\<rparr>, fs')"
    "ram_wf fs'" "tree_of fs' = (tree_of fs)(?p \<mapsto> Data d)"
    using write_fresh_root [OF fs(2), of ?p d] fs(3) by auto
  have "vfs_remove ops ?p st = (Inl NotFound, st)"
    using uncovered_resolve [OF assms(1)] by (simp add: vfs_remove_def through_rw_def)
  then have "write_file ops name d st = (Inr (), st\<lparr>root := fs'\<rparr>)"
    using fs(1) w(1) by (simp add: write_file_def Let_def)
  then show ?thesis using w(2,3) fs(3) by auto
qed

text \<open>
  The loop of \<open>copy_file\<close> between two files of the root file system: after \<open>k\<close> bytes the
  destination holds the first \<open>k\<close> bytes of the source, so the loop ends with all of them.
\<close>

lemma copy_loop_root:
  assumes "ram_wf (root st)" "tree_of (root st) p = Some (Data d)" "tree_of (root st) q = Some (Data (take k d))"
    "p \<noteq> q" "k \<le> length d" "\<forall>i. \<not> cancel i"
  shows "\<exists>fs. copy_loop ops cancel i (Root_file ((handle_for p)\<lparr>fpos := k\<rparr>)) (Root_file ((handle_for q)\<lparr>fpos := k\<rparr>)) k st
      = Some (Inr (length d), st\<lparr>root := fs\<rparr>) \<and> ram_wf fs \<and> tree_of fs = (tree_of (root st))(q \<mapsto> Data d)"
  using assms
proof (induction "length d - k" arbitrary: k st i rule: less_induct)
  case less
  let ?s = "(handle_for p)\<lparr>fpos := k\<rparr>" and ?t = "(handle_for q)\<lparr>fpos := k\<rparr>"
  have rd: "file_read COPY_CHUNK ?s (root st) =
    (if length d \<le> k then Inr ([], ?s)
     else Inr (take (min COPY_CHUNK (length d - k)) (drop k d), ?s\<lparr>fpos := k + min COPY_CHUNK (length d - k)\<rparr>))"
    using less.prems(1,2) by (simp add: file_read_tree handle_for_def)
  show ?case
  proof (cases "k = length d")
    case True
    then have "copy_loop ops cancel i (Root_file ?s) (Root_file ?t) k st = Some (Inr (length d), st\<lparr>root := root st\<rparr>)"
      using rd less.prems(6) by (subst copy_loop.simps) (simp add: Let_def)
    then show ?thesis using less.prems(1,3) True by (intro exI [of _ "root st"]) auto
  next
    case False
    let ?n = "min COPY_CHUNK (length d - k)"
    let ?b = "take ?n (drop k d)"
    have n: "0 < ?n" "k + ?n \<le> length d" using False less.prems(5) by (auto simp: COPY_CHUNK_def)
    have b: "?b \<noteq> []" "length ?b = ?n" using n by auto
    obtain fs where w: "file_write ?b ?t (root st) = (Inr ?n, ?t\<lparr>fpos := k + ?n\<rparr>, fs)" "ram_wf fs"
      "tree_of fs = (tree_of (root st))(q \<mapsto> Data (patch k ?b (take k d)))"
      using file_write_tree [OF less.prems(1), of ?t "take k d" ?b] less.prems(3) b(2)
      by (auto simp: handle_for_def)
    have pt: "patch k ?b (take k d) = take (k + ?n) d"
      using b(2) n less.prems(5) by (simp add: patch_def take_add)
    have step: "copy_loop ops cancel i (Root_file ?s) (Root_file ?t) k st =
      copy_loop ops cancel (i + 1) (Root_file ((handle_for p)\<lparr>fpos := k + ?n\<rparr>))
        (Root_file ((handle_for q)\<lparr>fpos := k + ?n\<rparr>)) (k + ?n) (st\<lparr>root := fs\<rparr>)"
      using False less.prems(5,6) rd w(1) b by (subst copy_loop.simps) (simp add: Let_def del: take_eq_Nil)
    have "length d - (k + ?n) < length d - k" using n by linarith
    from less.hyps [OF this, of "st\<lparr>root := fs\<rparr>"] obtain fs' where
      "copy_loop ops cancel (i + 1) (Root_file ((handle_for p)\<lparr>fpos := k + ?n\<rparr>))
        (Root_file ((handle_for q)\<lparr>fpos := k + ?n\<rparr>)) (k + ?n) (st\<lparr>root := fs\<rparr>) =
        Some (Inr (length d), st\<lparr>root := fs\<rparr>\<lparr>root := fs'\<rparr>)" "ram_wf fs'" "tree_of fs' = (tree_of fs)(q \<mapsto> Data d)"
      using w(2,3) pt less.prems n(2) by auto
    then show ?thesis using step w(3) by auto
  qed
qed

section \<open>The mount table keeps normal paths\<close>

lemma mt_mount_ok:
  "mt_ok mt \<Longrightarrow> normal p \<Longrightarrow> mt_ok (snd (mt_mount p fs ro mt))"
  by (auto simp: mt_ok_def mt_mount_def Let_def mount_normalize_id)

lemma mt_unmount_ok: "mt_ok mt \<Longrightarrow> mt_ok (snd (mt_unmount p mt))"
  by (auto simp: mt_ok_def mt_unmount_def remove_at_def split: option.splits dest: in_set_takeD in_set_dropD)

lemma mt_mount_distinct:
  "distinct (map mp_path mt) \<Longrightarrow> distinct (map mp_path (snd (mt_mount p fs ro mt)))"
  by (auto simp: mt_mount_def Let_def list_ex_iff)

lemma mt_mount_unmount:
  assumes "mt_mount p fs ro mt = (Inr (), mt')"
  shows "mt_unmount p mt' = (Inr (), mt)"
proof -
  let ?P = "\<lambda>mp. mp_path mp = mount_normalize p"
  have n: "\<forall>m \<in> set mt. \<not> ?P m" and mt': "mt' = mt @ [\<lparr>mp_path = mount_normalize p, mp_fs = fs, mp_readonly = ro\<rparr>]"
    using assms by (auto simp: mt_mount_def Let_def list_ex_iff split: if_splits)
  obtain i where i: "position ?P mt' = Some i" using position_exists [of _ mt' ?P] mt' by fastforce
  have "i < length mt'" "?P (mt' ! i)" using position_SomeD [OF i] by auto
  then have "i = length mt" using n mt' by (auto simp: nth_append less_Suc_eq split: if_splits)
  then show ?thesis using i mt' by (simp add: mt_unmount_def remove_at_def)
qed

section \<open>Properties\<close>

text \<open>
  The examples run over a system whose mounted file systems are empty: every lookup fails.
\<close>

definition empty_ops :: "(unit, unit) fs_ops" where
  "empty_ops = \<lparr>op_name = \<lambda>_. ''empty'', op_open = \<lambda>_ _. Inl NotFound,
     op_create = \<lambda>_ s. (Inl NotSupported, s), op_remove = \<lambda>_ s. (Inl NotFound, s),
     op_mkdir = \<lambda>_ s. (Inl NotSupported, s), op_rmdir = \<lambda>_ s. (Inl NotFound, s),
     op_readdir = \<lambda>_ s. (Inr [], s), op_stat = \<lambda>_ _. Inl NotFound, op_sync = \<lambda>_ s. (Inr (), s),
     op_read = \<lambda>_ h s. (Inr [], h, s), op_write = \<lambda>_ h s. (Inl NotSupported, h, s),
     op_size = \<lambda>_ _. 0\<rparr>"

definition vfs_demo :: "unit fs_state" where
  "vfs_demo = \<lparr>root = ram_demo, store = \<lambda>_. (),
     mtab = [\<lparr>mp_path = ''/'', mp_fs = Root, mp_readonly = False\<rparr>,
             \<lparr>mp_path = ''/proc'', mp_fs = Mounted 0, mp_readonly = True\<rparr>,
             \<lparr>mp_path = ''/mnt'', mp_fs = Mounted 1, mp_readonly = False\<rparr>,
             \<lparr>mp_path = ''/mnt/usb'', mp_fs = Mounted 2, mp_readonly = True\<rparr>],
     cwd = Some ''/tmp''\<rparr>"

lemma render_demo:
  "''/proc'' = render [''proc'']" "''/mnt'' = render [''mnt'']" "''/mnt/usb'' = render [''mnt'', ''usb'']"
  "''/mnt/usb/x/y'' = render [''mnt'', ''usb'', ''x'', ''y'']" "''/tmp/b'' = render [''tmp'', ''b'']"
  "''/x/y'' = render [''x'', ''y'']"
  by (simp_all add: render_def slash_def)

lemma good_demo:
  "good_parts [''proc'']" "good_parts [''mnt'']" "good_parts [''mnt'', ''usb'']"
  "good_parts [''mnt'', ''usb'', ''x'', ''y'']" "good_parts [''tmp'', ''b'']"
  by (simp_all add: good_part_def slash_def)

lemma vfs_demo_ok: "mt_ok (mtab vfs_demo)"
  using normal_render [OF good_demo(1)] normal_render [OF good_demo(2)] normal_render [OF good_demo(3)] normal_demo(1)
  unfolding render_demo [symmetric] by (simp add: mt_ok_def vfs_demo_def)

lemma vfs_demo_uncovered: "uncovered ''/tmp/a'' vfs_demo" "uncovered ''/tmp/b'' vfs_demo"
proof -
  have "mount_normalize ''/tmp/a'' = ''/tmp/a''" "mount_normalize ''/tmp/b'' = ''/tmp/b''"
    using mount_normalize_id [OF normal_demo(3)] mount_normalize_id [OF normal_render [OF good_demo(5)]]
    unfolding render_demo [symmetric] by auto
  then show "uncovered ''/tmp/a'' vfs_demo" "uncovered ''/tmp/b'' vfs_demo"
    by (simp_all add: uncovered_def find_fs_def vfs_demo_def covers_def slash_def)
qed

lemma vfs_demo_paths: "full_path ''a'' vfs_demo = ''/tmp/a''" "full_path ''b'' vfs_demo = ''/tmp/b''"
  by (simp_all add: get_current_dir_def vfs_demo_def resolve_path_def push_part_def slash_def render_def)

lemma parent_demo: "parent_path ''/tmp/a'' = ''/tmp''" "parent_path ''/tmp/b'' = ''/tmp''"
  by (simp_all add: parent_path_def rfind_def slash_def)

lemma normal_b: "normal ''/tmp/b''"
  using normal_render [OF good_demo(5)] unfolding render_demo [symmetric] .

text \<open>
  C24: path resolution picks the longest mount point. When every mount point is a normal path, a
  normal path resolves to a mount whose components are a prefix of the path's components, with no
  longer such mount in the table, and the path handed to that file system is the rest of the
  components, from its own root; mount points end at component boundaries, so /mnt never
  captures /mnt2. The root mount serves only the path / itself. Resolution fails, with NotFound,
  exactly when no other mount point is a prefix.
\<close>

theorem mount_resolution:
  assumes "mt_ok (mtab st)" "good_parts ps"
  shows "case resolve_fs (render ps) st of
      Inl e \<Rightarrow> e = NotFound \<and>
        \<not> (\<exists>ns. ns \<noteq> [] \<and> good_parts ns \<and> render ns \<in> mp_path ` set (mtab st) \<and> prefix ns ps)
    | Inr (fs, target, ro) \<Rightarrow> (\<exists>mp \<in> set (mtab st). mp_fs mp = fs \<and> mp_readonly mp = ro \<and>
        (\<exists>ms. good_parts ms \<and> mp_path mp = render ms \<and> prefix ms ps \<and> (ms = [] \<longrightarrow> ps = []) \<and>
          target = render (drop (length ms) ps) \<and>
          \<not> (\<exists>ns. good_parts ns \<and> render ns \<in> mp_path ` set (mtab st) \<and> prefix ns ps \<and>
                length ms < length ns)))"
proof (cases "find_fs (render ps) (mtab st)")
  case None
  then show ?thesis using resolution [OF assms] by (auto simp: resolve_fs_def)
next
  case (Some ir)
  obtain i rel where ir: "ir = (i, rel)" by fastforce
  obtain ms where ms: "good_parts ms" "mp_path (mtab st ! i) = render ms" "prefix ms ps"
    "ms = [] \<longrightarrow> ps = []" "(if rel = [] then [slash] else rel) = render (drop (length ms) ps)"
    "\<not> (\<exists>ns. good_parts ns \<and> render ns \<in> mp_path ` set (mtab st) \<and> prefix ns ps \<and> length ms < length ns)"
    and i: "i < length (mtab st)"
    using resolution [OF assms] unfolding Some ir option.case prod.case by blast
  have "resolve_fs (render ps) st =
      Inr (mp_fs (mtab st ! i), render (drop (length ms) ps), mp_readonly (mtab st ! i))"
    using Some ir ms(5) by (simp add: resolve_fs_def)
  then show ?thesis using ms nth_mem [OF i] by auto
qed

theorem mount_resolution_witness:
  "\<exists>mp. mp \<in> set (mtab vfs_demo) \<and> mp_path mp = ''/mnt/usb'' \<and>
     resolve_fs ''/mnt/usb/x/y'' vfs_demo = Inr (Mounted 2, ''/x/y'', True)"
proof -
  have "mount_normalize ''/mnt/usb/x/y'' = ''/mnt/usb/x/y''"
    using mount_normalize_id [OF normal_render [OF good_demo(4)]] unfolding render_demo [symmetric] .
  then have r: "resolve_fs ''/mnt/usb/x/y'' vfs_demo = Inr (Mounted 2, ''/x/y'', True)"
    by (simp add: resolve_fs_def find_fs_def vfs_demo_def covers_def slash_def)
  have "resolve_fs (render [''mnt'', ''usb'', ''x'', ''y'']) vfs_demo = Inr (Mounted 2, ''/x/y'', True)"
    unfolding render_demo(4) [symmetric] by (rule r)
  note m = mount_resolution [OF vfs_demo_ok good_demo(4), unfolded this sum.case prod.case]
  have "\<exists>mp. mp \<in> set (mtab vfs_demo) \<and> mp_fs mp = Mounted 2"
    by (rule bexE [OF m], elim conjE, rule exI, erule conjI, assumption)
  then obtain mp where mp: "mp \<in> set (mtab vfs_demo)" "mp_fs mp = Mounted 2" by (elim exE conjE)
  then have "mp_path mp = ''/mnt/usb''" by (auto simp: vfs_demo_def)
  then show ?thesis using r mp(1) by (intro exI [of _ mp] conjI)
qed

text \<open>
  C25: a read-only mount cannot be changed. When a path resolves into a read-only mount, the four
  VFS operations that create or delete return ReadOnly and change nothing, and so do create_file,
  write_file, create_dir, remove_dir and remove_entry of the shell API: none falls back to the
  root file system. A copy with its destination there fails with the state unchanged, and a file
  opened there refuses every write.
\<close>

theorem readonly_mount_protected:
  assumes "full_path name st = p" "resolve_fs p st = Inr (fs, target, True)"
  shows "vfs_create ops p st = (Inl ReadOnly, st) \<and> vfs_mkdir ops p st = (Inl ReadOnly, st) \<and>
    vfs_rmdir ops p st = (Inl ReadOnly, st) \<and> vfs_remove ops p st = (Inl ReadOnly, st) \<and>
    create_file ops name st = (Inl ReadOnly, st) \<and> write_file ops name data st = (Inl ReadOnly, st) \<and>
    create_dir ops name st = (Inl ReadOnly, st) \<and> remove_dir ops name st = (Inl ReadOnly, st) \<and>
    remove_entry ops name st = (Inl ReadOnly, st) \<and>
    (\<exists>e. copy_file ops cancel source name st = Some (Inl e, st)) \<and>
    (case vfs_open ops p st of Inl e \<Rightarrow> True | Inr f \<Rightarrow> f_write ops buf f st' = (Inl ReadOnly, f, st'))"
proof -
  have g: "vfs_create ops p st = (Inl ReadOnly, st)" "vfs_mkdir ops p st = (Inl ReadOnly, st)"
    "vfs_rmdir ops p st = (Inl ReadOnly, st)" "vfs_remove ops p st = (Inl ReadOnly, st)"
    using assms(2) by (simp_all add: vfs_create_def vfs_mkdir_def vfs_rmdir_def vfs_remove_def through_rw_def)
  have "create_file ops name st = (Inl ReadOnly, st)" "write_file ops name data st = (Inl ReadOnly, st)"
    "create_dir ops name st = (Inl ReadOnly, st)" "remove_dir ops name st = (Inl ReadOnly, st)"
    "remove_entry ops name st = (Inl ReadOnly, st)"
    using g assms(1)
    by (simp_all add: create_file_def write_file_def create_dir_def remove_dir_def remove_entry_def Let_def)
  moreover have "\<exists>e. copy_file ops cancel source name st = Some (Inl e, st)"
    using g(1) assms(1) by (simp add: copy_file_def fresh_file_def split: sum.splits)
  moreover have "case vfs_open ops p st of Inl e \<Rightarrow> True | Inr f \<Rightarrow> f_write ops buf f st' = (Inl ReadOnly, f, st')"
    using assms(2) by (auto simp: vfs_open_def split: sum.splits)
  ultimately show ?thesis using g by simp
qed

theorem readonly_mount_protected_witness:
  "write_file empty_ops ''/proc/x'' [1, 2] vfs_demo = (Inl ReadOnly, vfs_demo) \<and>
   remove_entry empty_ops ''/proc/x'' vfs_demo = (Inl ReadOnly, vfs_demo)"
proof -
  have p: "full_path ''/proc/x'' vfs_demo = ''/proc/x''"
    by (simp add: get_current_dir_def vfs_demo_def resolve_path_def push_part_def slash_def render_def)
  have "good_parts [''proc'', ''x'']" "''/proc/x'' = render [''proc'', ''x'']"
    by (simp_all add: good_part_def slash_def render_def)
  then have "mount_normalize ''/proc/x'' = ''/proc/x''" using mount_normalize_id normal_render by metis
  then have "resolve_fs ''/proc/x'' vfs_demo = Inr (Mounted 0, ''/x'', True)"
    by (simp add: resolve_fs_def find_fs_def vfs_demo_def covers_def slash_def)
  from readonly_mount_protected [OF p this] show ?thesis by blast
qed

text \<open>
  C26: writing a file and reading it back. For a path that no mounted file system covers, whose
  parent directory exists in the root file system and which is not a directory itself, write_file
  succeeds whether or not the file existed, and read_file then returns exactly the data written (up
  to the 2 MiB limit of a whole-file read). Nothing else changes: no other path, no mount, no
  mounted file system, not the current directory; and the root file system stays well formed.
\<close>

theorem write_read_roundtrip:
  assumes "normal (get_current_dir st)" "uncovered (full_path name st) st" "ram_wf (root st)"
    "full_path name st \<noteq> [slash]" "tree_of (root st) (parent_path (full_path name st)) = Some Dir"
    "tree_of (root st) (full_path name st) \<noteq> Some Dir" "length d \<le> MAX_READ_BYTES"
  shows "\<exists>fs. write_file ops name d st = (Inr (), st\<lparr>root := fs\<rparr>) \<and>
    read_file ops name (st\<lparr>root := fs\<rparr>) = (Inr d, st\<lparr>root := fs\<rparr>) \<and> ram_wf fs \<and>
    tree_of fs = (tree_of (root st))(full_path name st \<mapsto> Data d)"
proof -
  let ?p = "full_path name st"
  have n: "normal ?p" using resolve_normal [OF assms(1)] .
  obtain fs where fs: "write_file ops name d st = (Inr (), st\<lparr>root := fs\<rparr>)" "ram_wf fs"
    "tree_of fs = (tree_of (root st))(?p \<mapsto> Data d)"
    using write_root [OF assms(2,3) n assms(4-6)] by blast
  let ?st = "st\<lparr>root := fs\<rparr>"
  have same: "full_path name ?st = ?p" by (simp add: get_current_dir_def)
  have "open_file ops name ?st = Inr (Root_file (handle_for ?p))"
    using open_root [where name = name and st = ?st and d = d and ops = ops] assms(2) n fs(2,3) unfolding same by (simp add: uncovered_def)
  then have "read_file ops name ?st = (Inr d, ?st)"
    using read_all_root [of ?st ?p d ops] fs(2,3) assms(7) by (simp add: read_file_def)
  then show ?thesis using fs by blast
qed

theorem write_read_roundtrip_witness:
  "fst (read_file empty_ops ''b'' (snd (write_file empty_ops ''b'' [7, 8] vfs_demo))) = Inr [7, 8]"
proof -
  have d: "normal (get_current_dir vfs_demo)" by (simp add: get_current_dir_def vfs_demo_def normal_demo)
  have w: "ram_wf (root vfs_demo)" by (simp add: vfs_demo_def ram_demo_wf)
  have t: "tree_of (root vfs_demo) = tree_of ram_demo" by (simp add: vfs_demo_def)
  have "length [7, 8 :: u8] \<le> MAX_READ_BYTES" by (simp add: MAX_READ_BYTES_def)
  then have "\<exists>fs. write_file empty_ops ''b'' [7, 8] vfs_demo = (Inr (), vfs_demo\<lparr>root := fs\<rparr>) \<and>
    read_file empty_ops ''b'' (vfs_demo\<lparr>root := fs\<rparr>) = (Inr [7, 8], vfs_demo\<lparr>root := fs\<rparr>) \<and> ram_wf fs \<and>
    tree_of fs = (tree_of (root vfs_demo))(full_path ''b'' vfs_demo \<mapsto> Data [7, 8])"
    by (intro write_read_roundtrip [OF d]) (simp_all add: vfs_demo_paths vfs_demo_uncovered w t parent_demo ram_demo_tree slash_def)
  then show ?thesis by auto
qed

text \<open>
  Copy_file copies. Between two different paths of the root file system, with the source a
  file and the destination absent or a file in an existing directory, the chunked loop ends (unless
  cancelled) and reports the length of the source; the destination then holds the source's content,
  whatever its size, the source keeps its own, and nothing else changes.
\<close>

theorem copy_file_correct:
  assumes "normal (get_current_dir st)" "uncovered (full_path src st) st" "uncovered (full_path dst st) st"
    "ram_wf (root st)" "tree_of (root st) (full_path src st) = Some (Data d)"
    "full_path dst st \<noteq> full_path src st" "full_path dst st \<noteq> [slash]"
    "tree_of (root st) (parent_path (full_path dst st)) = Some Dir"
    "tree_of (root st) (full_path dst st) \<noteq> Some Dir" "\<forall>k. \<not> cancel k"
  shows "\<exists>fs. copy_file ops cancel src dst st = Some (Inr (length d), st\<lparr>root := fs\<rparr>) \<and> ram_wf fs \<and>
    tree_of fs = (tree_of (root st))(full_path dst st \<mapsto> Data d)"
proof -
  let ?p = "full_path src st" and ?q = "full_path dst st"
  have n: "normal ?p" "normal ?q" using resolve_normal [OF assms(1)] by auto
  obtain fs where fs: "fresh_file ops ?q st = (Inr (Root_file (handle_for ?q)), st\<lparr>root := fs\<rparr>)" "ram_wf fs"
    "tree_of fs = (tree_of (root st))(?q \<mapsto> Data [])"
    using fresh_root [OF assms(3,4) n(2) assms(7-9)] by blast
  have o: "open_file ops src st = Inr (Root_file (handle_for ?p))"
    by (rule open_root [OF assms(2,4) n(1) assms(5)])
  have h: "(handle_for p)\<lparr>fpos := 0\<rparr> = handle_for p" for p by (simp add: handle_for_def)
  obtain fs' where "copy_loop ops cancel 0 (Root_file (handle_for ?p)) (Root_file (handle_for ?q)) 0 (st\<lparr>root := fs\<rparr>)
      = Some (Inr (length d), st\<lparr>root := fs\<rparr>\<lparr>root := fs'\<rparr>)" "ram_wf fs'" "tree_of fs' = (tree_of fs)(?q \<mapsto> Data d)"
    using copy_loop_root [of "st\<lparr>root := fs\<rparr>" ?p d ?q 0 cancel ops 0] fs assms(5,6,10) by (auto simp: h)
  then show ?thesis using o fs by (auto simp: copy_file_def)
qed

theorem copy_file_correct_witness:
  "\<exists>st. copy_file empty_ops (\<lambda>_. False) ''a'' ''b'' vfs_demo = Some (Inr 3, st) \<and>
     tree_of (root st) ''/tmp/b'' = Some (Data [1, 2, 3])"
proof -
  have d: "normal (get_current_dir vfs_demo)" by (simp add: get_current_dir_def vfs_demo_def normal_demo)
  have w: "ram_wf (root vfs_demo)" by (simp add: vfs_demo_def ram_demo_wf)
  have t: "tree_of (root vfs_demo) = tree_of ram_demo" by (simp add: vfs_demo_def)
  have "\<exists>fs. copy_file empty_ops (\<lambda>_. False) ''a'' ''b'' vfs_demo = Some (Inr (length [1, 2, 3 :: u8]), vfs_demo\<lparr>root := fs\<rparr>) \<and>
    ram_wf fs \<and> tree_of fs = (tree_of (root vfs_demo))(full_path ''b'' vfs_demo \<mapsto> Data [1, 2, 3])"
    by (intro copy_file_correct [OF d]) (simp_all add: vfs_demo_paths vfs_demo_uncovered w t parent_demo ram_demo_tree slash_def)
  then show ?thesis by (auto simp: vfs_demo_paths)
qed

text \<open>
  Copying a file onto itself destroys it. When source and destination resolve to the same
  file of the root file system, the destination is replaced by an empty file before the first read,
  so copy_file reports success with zero bytes and the content is gone.
\<close>

theorem copy_onto_itself_empties:
  assumes "normal (get_current_dir st)" "uncovered (full_path src st) st" "ram_wf (root st)"
    "tree_of (root st) (full_path src st) = Some (Data d)" "full_path dst st = full_path src st"
    "\<not> cancel 0"
  shows "\<exists>fs. copy_file ops cancel src dst st = Some (Inr 0, st\<lparr>root := fs\<rparr>) \<and> ram_wf fs \<and>
    tree_of fs = (tree_of (root st))(full_path src st \<mapsto> Data [])"
proof -
  let ?p = "full_path src st"
  have n: "normal ?p" using resolve_normal [OF assms(1)] .
  have r: "?p \<noteq> [slash]" using assms(3,4) by (auto simp: ram_wf_def)
  obtain e where "e \<in> set (entries (root st))" "ename e = ?p"
    using tree_of_None [of "root st" ?p] assms(4) by (auto simp: list_ex_iff)
  then have p: "tree_of (root st) (parent_path ?p) = Some Dir" using assms(3) r by (auto simp: ram_wf_def)
  obtain fs where fs: "fresh_file ops ?p st = (Inr (Root_file (handle_for ?p)), st\<lparr>root := fs\<rparr>)" "ram_wf fs"
    "tree_of fs = (tree_of (root st))(?p \<mapsto> Data [])"
    using fresh_root [OF assms(2,3) n r p] assms(4) by auto
  have o: "open_file ops src st = Inr (Root_file (handle_for ?p))"
    by (rule open_root [OF assms(2,3) n assms(4)])
  have "copy_loop ops cancel 0 (Root_file (handle_for ?p)) (Root_file (handle_for ?p)) 0 (st\<lparr>root := fs\<rparr>)
      = Some (Inr 0, st\<lparr>root := fs\<rparr>)"
    using fs(2,3) assms(6) by (subst copy_loop.simps) (simp add: Let_def file_read_tree handle_for_def)
  then show ?thesis using o fs assms(5) by (intro exI [of _ fs]) (simp add: copy_file_def)
qed

theorem copy_onto_itself_empties_witness:
  "\<exists>st. copy_file empty_ops (\<lambda>_. False) ''a'' ''./a'' vfs_demo = Some (Inr 0, st) \<and>
     tree_of (root st) ''/tmp/a'' = Some (Data [])"
proof -
  have d: "normal (get_current_dir vfs_demo)" by (simp add: get_current_dir_def vfs_demo_def normal_demo)
  have w: "ram_wf (root vfs_demo)" by (simp add: vfs_demo_def ram_demo_wf)
  have t: "tree_of (root vfs_demo) = tree_of ram_demo" by (simp add: vfs_demo_def)
  have s: "full_path ''./a'' vfs_demo = full_path ''a'' vfs_demo"
    by (simp add: get_current_dir_def vfs_demo_def resolve_path_def push_part_def slash_def)
  have "\<exists>fs. copy_file empty_ops (\<lambda>_. False) ''a'' ''./a'' vfs_demo = Some (Inr 0, vfs_demo\<lparr>root := fs\<rparr>) \<and>
    ram_wf fs \<and> tree_of fs = (tree_of (root vfs_demo))(full_path ''a'' vfs_demo \<mapsto> Data [])"
    by (rule copy_onto_itself_empties [OF d _ w _ s, of "[1, 2, 3]"])
      (simp_all add: vfs_demo_paths vfs_demo_uncovered t ram_demo_tree)
  then show ?thesis by (auto simp: vfs_demo_paths)
qed

end
