(* ===== verification/Disk.thy ===== *)
theory Disk
  imports Ramfs
begin

text \<open>
  The block layer: the trait \<open>DiskIo\<close> and its wrappers (\<open>fs/disk.rs\<close>, \<open>PartitionDisk\<close> of
  \<open>fs/partition.rs\<close>, \<open>WholeDisk\<close> and \<open>SharedDisk\<close>) and the registry of disks
  (\<open>fs/disk_manager.rs\<close>). A \<open>Box<dyn DiskIo>\<close> is a record of its operations over the state of the
  device; a wrapper is a function from such a record to another. Sectors are 512 bytes.
\<close>

section \<open>The trait\<close>

text \<open>A read is given the length of its buffer and returns the buffer filled.\<close>

record 'd disk_ops =
  rd :: "nat \<Rightarrow> nat \<Rightarrow> 'd \<Rightarrow> (fs_error + bytes) \<times> 'd"
  wr :: "nat \<Rightarrow> bytes \<Rightarrow> 'd \<Rightarrow> (fs_error + unit) \<times> 'd"
  ssize :: "'d \<Rightarrow> nat"
  ronly :: "'d \<Rightarrow> bool"
  rd_lba :: "nat \<Rightarrow> nat \<Rightarrow> 'd \<Rightarrow> (fs_error + bytes) \<times> 'd"

text \<open>The default methods of the trait, over a device that only implements \<open>read\<close>.\<close>

definition default_disk :: "(nat \<Rightarrow> nat \<Rightarrow> 'd \<Rightarrow> (fs_error + bytes) \<times> 'd) \<Rightarrow> 'd disk_ops" where
  "default_disk r = \<lparr>rd = r, wr = (\<lambda>_ _ d. (Inl ReadOnly, d)), ssize = (\<lambda>_. 512),
     ronly = (\<lambda>_. False), rd_lba = r\<rparr>"

section \<open>Wrappers\<close>

text \<open>\<open>CountingDisk\<close>: the two counters are statics of the kernel and wrap.\<close>

type_synonym 'd counted = "'d \<times> u64 \<times> u64"

definition count_read :: "((fs_error + bytes) \<times> 'd) \<Rightarrow> nat \<Rightarrow> u64 \<times> u64 \<Rightarrow> (fs_error + bytes) \<times> 'd counted" where
  "count_read x len c =
     (case x of
        (Inl e, d) \<Rightarrow> (Inl e, d, c)
      | (Inr bs, d) \<Rightarrow> (Inr bs, d, fst c + of_nat len, snd c))"

definition counting_disk :: "'d disk_ops \<Rightarrow> 'd counted disk_ops" where
  "counting_disk inner =
     \<lparr>rd = (\<lambda>s n (d, c). count_read (rd inner s n d) n c),
      wr = (\<lambda>s buf (d, c).
        case wr inner s buf d of
          (Inl e, d) \<Rightarrow> (Inl e, d, c)
        | (Inr u, d) \<Rightarrow> (Inr u, d, fst c, snd c + of_nat (length buf))),
      ssize = (\<lambda>(d, c). ssize inner d),
      ronly = (\<lambda>(d, c). ronly inner d),
      rd_lba = (\<lambda>l n (d, c). count_read (rd_lba inner l n d) n c)\<rparr>"

definition io_stats :: "'d counted \<Rightarrow> nat \<times> nat" where
  "io_stats s = (unat (fst (snd s)), unat (snd (snd s)))"

text \<open>\<open>WholeDisk\<close> and \<open>SharedDisk\<close> forward every call.\<close>

definition whole_disk :: "'d disk_ops \<Rightarrow> 'd disk_ops" where
  "whole_disk inner =
     \<lparr>rd = (\<lambda>s n d. rd inner s n d), wr = (\<lambda>s buf d. wr inner s buf d), ssize = (\<lambda>d. ssize inner d),
      ronly = (\<lambda>d. ronly inner d), rd_lba = (\<lambda>l n d. rd_lba inner l n d)\<rparr>"

text \<open>\<open>PartitionDisk\<close>: a window of \<open>n\<close> sectors from \<open>off\<close>. \<open>len\<close> is the length of the buffer.\<close>

definition window_check :: "nat \<Rightarrow> nat \<Rightarrow> nat \<Rightarrow> fs_error option" where
  "window_check n sector len =
     (if len = 0 \<or> len mod 512 \<noteq> 0 then Some InvalidPath
      else
        case checked_add64 sector (len div 512) of
          None \<Rightarrow> Some IoError
        | Some end_sector \<Rightarrow> if end_sector > n then Some IoError else None)"

definition in_window :: "nat \<Rightarrow> nat \<Rightarrow> nat \<Rightarrow> nat \<Rightarrow> (nat \<Rightarrow> 'd \<Rightarrow> (fs_error + 'r) \<times> 'd) \<Rightarrow> 'd \<Rightarrow> (fs_error + 'r) \<times> 'd" where
  "in_window off n sector len act d =
     (case window_check n sector len of
        Some e \<Rightarrow> (Inl e, d)
      | None \<Rightarrow>
          (case checked_add64 off sector of
             None \<Rightarrow> (Inl IoError, d)
           | Some target \<Rightarrow> act target d))"

definition window_read_lba :: "'d disk_ops \<Rightarrow> nat \<Rightarrow> nat \<Rightarrow> nat \<Rightarrow> 'd \<Rightarrow> (fs_error + bytes) \<times> 'd" where
  "window_read_lba inner off lba len d =
     (let ss = max (ssize inner d) 512 in
      case checked_mul64 off 512 of
        None \<Rightarrow> (Inl IoError, d)
      | Some base \<Rightarrow>
          (case checked_mul64 lba ss of
             None \<Rightarrow> (Inl IoError, d)
           | Some rel \<Rightarrow>
               (case checked_add64 base rel of
                  None \<Rightarrow> (Inl IoError, d)
                | Some byte \<Rightarrow>
                    if byte mod 512 \<noteq> 0 then (Inl InvalidPath, d)
                    else rd inner (byte div 512) len d)))"

definition partition_disk :: "'d disk_ops \<Rightarrow> nat \<Rightarrow> nat \<Rightarrow> 'd disk_ops" where
  "partition_disk inner off n =
     \<lparr>rd = (\<lambda>s len. in_window off n s len (\<lambda>t. rd inner t len)),
      wr = (\<lambda>s buf. in_window off n s (length buf) (\<lambda>t. wr inner t buf)),
      ssize = ssize inner, ronly = ronly inner,
      rd_lba = window_read_lba inner off\<rparr>"

section \<open>The registry\<close>

text \<open>
  \<open>DiskEntry\<close>: \<open>dev\<close> names the shared device. Labels are the code points of a Rust string.
\<close>

record disk_entry =
  de_disk :: string
  kind :: string
  sectors :: nat
  offset :: nat
  fs_type :: string
  driver :: string
  model :: "nat list"
  serial :: "nat list"
  sector_size :: nat
  label :: "nat list"
  dev :: nat

type_synonym disk_manager = "disk_entry list"

definition offset_bytes :: "disk_entry \<Rightarrow> u64" where
  "offset_bytes e = of_nat (offset e) * 512"

definition size_mb :: "disk_entry \<Rightarrow> u64" where
  "size_mb e = (of_nat (sectors e) * 512) div (1024 * 1024)"

definition dm_new :: disk_manager where "dm_new = []"

definition add_entry :: "disk_entry \<Rightarrow> disk_manager \<Rightarrow> nat \<times> disk_manager" where
  "add_entry e mgr = (length (mgr @ [e]) - 1, mgr @ [e])"

definition dm_get :: "nat \<Rightarrow> disk_manager \<Rightarrow> disk_entry option" where
  "dm_get i mgr = (if i < length mgr then Some (mgr ! i) else None)"

definition dm_open :: "(nat \<Rightarrow> 'd disk_ops) \<Rightarrow> nat \<Rightarrow> disk_manager \<Rightarrow> 'd counted disk_ops option" where
  "dm_open devs i mgr =
     (case dm_get i mgr of
        None \<Rightarrow> None
      | Some e \<Rightarrow>
          if sectors e = 0 then Some (counting_disk (whole_disk (devs (dev e))))
          else Some (counting_disk (partition_disk (devs (dev e)) (offset e) (sectors e))))"

definition dm_info :: "nat \<Rightarrow> disk_manager \<Rightarrow> (string \<times> string \<times> nat \<times> string) option" where
  "dm_info i mgr = map_option (\<lambda>e. (de_disk e, kind e, sectors e, fs_type e)) (dm_get i mgr)"

definition find_by_name :: "string \<Rightarrow> disk_manager \<Rightarrow> nat option" where
  "find_by_name name mgr = position (\<lambda>e. de_disk e = name) mgr"

definition remove_by_driver :: "string \<Rightarrow> disk_manager \<Rightarrow> nat \<times> disk_manager" where
  "remove_by_driver d mgr =
     (let mgr' = filter (\<lambda>e. driver e \<noteq> d) mgr in (length mgr - length mgr', mgr'))"

text \<open>\<open>eq_ignore_ascii_case\<close> folds the letters A to Z.\<close>

definition ascii_lower :: "nat \<Rightarrow> nat" where
  "ascii_lower c = (if 65 \<le> c \<and> c \<le> 90 then c + 32 else c)"

definition find_by_label :: "nat list \<Rightarrow> disk_manager \<Rightarrow> nat option" where
  "find_by_label l mgr =
     position (\<lambda>e. label e \<noteq> [] \<and> map ascii_lower (label e) = map ascii_lower l) mgr"

definition dm_count :: "disk_manager \<Rightarrow> nat" where "dm_count mgr = length mgr"

section \<open>What a device promises\<close>

text \<open>
  The contract of a block device of \<open>cap\<close> sectors, with \<open>content\<close> reading the bytes of its state.
  Requests inside the device may fail, but a read never changes the content and, when it succeeds,
  returns it; a write touches only its own range and, when it succeeds, stores the buffer there.
\<close>

locale block_device =
  fixes ops :: "'d disk_ops" and cap :: nat and content :: "'d \<Rightarrow> nat \<Rightarrow> u8"
  assumes read_law: "0 < len \<Longrightarrow> 512 dvd len \<Longrightarrow> s + len div 512 \<le> cap \<Longrightarrow> rd ops s len d = (r, d') \<Longrightarrow>
      content d' = content d \<and> (\<forall>bs. r = Inr bs \<longrightarrow> bs = map (content d) [512 * s ..< 512 * s + len])"
    and write_law: "buf \<noteq> [] \<Longrightarrow> 512 dvd length buf \<Longrightarrow> s + length buf div 512 \<le> cap \<Longrightarrow>
      wr ops s buf d = (w, d') \<Longrightarrow>
      (\<forall>i. i < 512 * s \<or> 512 * s + length buf \<le> i \<longrightarrow> content d' i = content d i) \<and>
      (\<forall>j < length buf. w = Inr () \<longrightarrow> content d' (512 * s + j) = buf ! j)"
begin

lemma write_read:
  assumes "buf \<noteq> []" "512 dvd length buf" "s + length buf div 512 \<le> cap"
    "wr ops s buf d = (Inr (), d1)" "rd ops s (length buf) d1 = (Inr bs, d2)"
  shows "bs = buf"
proof -
  have "0 < length buf" using assms(1) by simp
  then have "bs = map (content d1) [512 * s ..< 512 * s + length buf]"
    using read_law [OF _ assms(2,3,5)] by simp
  moreover have "content d1 (512 * s + j) = buf ! j" if "j < length buf" for j
    using write_law [OF assms(1-4)] that by simp
  ultimately show ?thesis by (intro nth_equalityI) auto
qed

lemma write_keeps:
  assumes "buf \<noteq> []" "512 dvd length buf" "s + length buf div 512 \<le> cap"
    "i < 512 * s \<or> 512 * s + length buf \<le> i"
  shows "content (snd (wr ops s buf d)) i = content d i"
  using write_law [OF assms(1-3)] assms(4) by (metis prod.collapse)

end

text \<open>The three outcomes of a request to a window.\<close>

lemma window_check_ok:
  "window_check n s len = None \<longleftrightarrow> 0 < len \<and> 512 dvd len \<and> s + len div 512 \<le> n \<and> s + len div 512 \<le> u64_max"
  by (auto simp: window_check_def checked_add64_def mod_eq_0_iff_dvd)

lemma in_window_cases:
  assumes "off + n \<le> u64_max"
  shows "in_window off n s len act d =
    (if 0 < len \<and> 512 dvd len \<and> s + len div 512 \<le> n then act (off + s) d
     else (Inl (the (window_check n s len)), d))"
proof (cases "window_check n s len")
  case None
  then show ?thesis
    using assms window_check_ok [of n s len] by (auto simp: in_window_def checked_add64_def)
next
  case (Some e)
  then have "\<not> (0 < len \<and> 512 dvd len \<and> s + len div 512 \<le> n)"
    using window_check_ok [of n s len] assms by auto
  then show ?thesis using Some by (auto simp: in_window_def)
qed

lemma map_upt_shift: "map f [a + x ..< a + x + k] = map (\<lambda>i. f (a + i)) [x ..< x + k]"
  by (intro nth_equalityI) (auto simp: add.assoc)

lemma window_device:
  assumes "block_device inner cap content" "off + n \<le> cap" "cap \<le> u64_max"
  shows "block_device (partition_disk inner off n) n (\<lambda>d i. content d (512 * off + i))"
proof (unfold_locales, goal_cases)
  case (1 len s d r d')
  then have "rd inner (off + s) len d = (r, d')"
    using assms(2,3) by (simp add: partition_disk_def in_window_cases)
  moreover have "off + s + len div 512 \<le> cap" using 1(3) assms(2) by simp
  ultimately have r: "content d' = content d"
    "\<And>bs. r = Inr bs \<Longrightarrow> bs = map (content d) [512 * (off + s) ..< 512 * (off + s) + len]"
    using block_device.read_law [OF assms(1) 1(1,2), of "off + s" d r d'] by auto
  then show ?case
    using map_upt_shift [of "content d" "512 * off" "512 * s" len] by (simp add: distrib_left)
next
  case (2 buf s d w d')
  then have "wr inner (off + s) buf d = (w, d')"
    using assms(2,3) by (simp add: partition_disk_def in_window_cases)
  moreover have "off + s + length buf div 512 \<le> cap" using 2(3) assms(2) by simp
  ultimately have w: "\<forall>i. i < 512 * (off + s) \<or> 512 * (off + s) + length buf \<le> i \<longrightarrow> content d' i = content d i"
    "\<forall>j < length buf. w = Inr () \<longrightarrow> content d' (512 * (off + s) + j) = buf ! j"
    using block_device.write_law [OF assms(1) 2(1,2), of "off + s" d w d'] by auto
  then show ?case by (auto simp: distrib_left add.assoc)
qed

text \<open>A memory device, for the examples: \<open>cap\<close> sectors whose state is its content.\<close>

definition mem_disk :: "nat \<Rightarrow> (nat \<Rightarrow> u8) disk_ops" where
  "mem_disk cap =
     (default_disk (\<lambda>s n d.
        if s + n div 512 \<le> cap then (Inr (map d [512 * s ..< 512 * s + n]), d) else (Inl IoError, d)))
     \<lparr>wr := (\<lambda>s buf d.
        if s + length buf div 512 \<le> cap
        then (Inr (), \<lambda>i. if 512 * s \<le> i \<and> i < 512 * s + length buf then buf ! (i - 512 * s) else d i)
        else (Inl IoError, d))\<rparr>"

lemma mem_device: "block_device (mem_disk cap) cap (\<lambda>d. d)"
proof (unfold_locales, goal_cases)
  case (1 len s d r d')
  then show ?case by (auto simp: mem_disk_def default_disk_def)
next
  case (2 buf s d w d')
  then show ?case by (auto simp: mem_disk_def default_disk_def)
qed

interpretation win: block_device "partition_disk (mem_disk 64) 8 16" 16 "\<lambda>d i. d (512 * 8 + i)"
  by (rule window_device [OF mem_device]) (simp_all add: u64_max_def)

section \<open>Properties\<close>

text \<open>
  C29: a partition window confines its file system. Over any device that keeps the block device
  contract, and for a window inside it: a read or write of whole sectors within the window is
  exactly the device's request shifted by the window's start, and any other request fails without
  reaching the device; whatever is written through the window, even when the write fails, every
  byte of the device outside the window keeps its value; and what a successful write stored, a
  successful read of the same sectors returns. The window's read_lba is different: on a 512-byte
  device it forwards any sector number, inside the window or not.
\<close>

theorem partition_window_confined:
  assumes "block_device inner cap content" "off + n \<le> cap" "cap \<le> u64_max" "W = partition_disk inner off n"
  shows "(\<forall>s len d. rd W s len d =
      (if 0 < len \<and> 512 dvd len \<and> s + len div 512 \<le> n then rd inner (off + s) len d
       else (Inl (the (window_check n s len)), d))) \<and>
    (\<forall>s buf d. wr W s buf d =
      (if buf \<noteq> [] \<and> 512 dvd length buf \<and> s + length buf div 512 \<le> n then wr inner (off + s) buf d
       else (Inl (the (window_check n s (length buf))), d))) \<and>
    (\<forall>s buf d i. i < 512 * off \<or> 512 * (off + n) \<le> i \<longrightarrow> content (snd (wr W s buf d)) i = content d i) \<and>
    (\<forall>s buf d d1 bs d2. wr W s buf d = (Inr (), d1) \<longrightarrow> rd W s (length buf) d1 = (Inr bs, d2) \<longrightarrow> bs = buf) \<and>
    (\<forall>lba len d. ssize inner d \<le> 512 \<longrightarrow> 512 * (off + lba) \<le> u64_max \<longrightarrow>
      rd_lba W lba len d = rd inner (off + lba) len d)"
proof -
  have le: "off + n \<le> u64_max" using assms(2,3) by simp
  have r: "rd W s len d =
      (if 0 < len \<and> 512 dvd len \<and> s + len div 512 \<le> n then rd inner (off + s) len d
       else (Inl (the (window_check n s len)), d))" for s len d
    by (simp add: assms(4) partition_disk_def in_window_cases [OF le])
  have w: "wr W s buf d =
      (if buf \<noteq> [] \<and> 512 dvd length buf \<and> s + length buf div 512 \<le> n then wr inner (off + s) buf d
       else (Inl (the (window_check n s (length buf))), d))" for s buf d
    by (simp add: assms(4) partition_disk_def in_window_cases [OF le])
  have out: "content (snd (wr W s buf d)) i = content d i"
    if "i < 512 * off \<or> 512 * (off + n) \<le> i" for s buf d i
  proof (cases "buf \<noteq> [] \<and> 512 dvd length buf \<and> s + length buf div 512 \<le> n")
    case True
    then have c: "buf \<noteq> []" "512 dvd length buf" "off + s + length buf div 512 \<le> cap"
      using assms(2) by auto
    have "length buf = 512 * (length buf div 512)" using True by auto
    then have "512 * s + length buf \<le> 512 * n" using True by linarith
    then have "i < 512 * (off + s) \<or> 512 * (off + s) + length buf \<le> i"
      using that by (auto simp: distrib_left)
    then show ?thesis using block_device.write_keeps [OF assms(1) c] w True by simp
  qed (auto simp: w)
  have wrd: "bs = buf" if "wr W s buf d = (Inr (), d1)" "rd W s (length buf) d1 = (Inr bs, d2)" for s buf d d1 bs d2
  proof -
    have "buf \<noteq> []" "512 dvd length buf" "s + length buf div 512 \<le> n"
      using that(1) unfolding w by (auto split: if_splits)
    then show ?thesis
      using block_device.write_read [OF window_device [OF assms(1-3)]] that assms(4) by blast
  qed
  have l: "rd_lba W lba len d = rd inner (off + lba) len d"
    if "ssize inner d \<le> 512" "512 * (off + lba) \<le> u64_max" for lba len d
    using that assms(4)
    by (simp add: partition_disk_def window_read_lba_def Let_def max_absorb2 checked_add64_def checked_mul64_def)
  show ?thesis using r w out wrd l by blast
qed

theorem partition_window_confined_witness:
  "rd (partition_disk (mem_disk 64) 8 16) 16 512 (\<lambda>_. 7) = (Inl IoError, \<lambda>_. 7) \<and>
   rd_lba (partition_disk (mem_disk 64) 8 16) 16 512 (\<lambda>_. 7) = rd (mem_disk 64) 24 512 (\<lambda>_. 7)"
proof -
  let ?W = "partition_disk (mem_disk 64) 8 16"
  have "8 + 16 \<le> (64 :: nat)" "(64 :: nat) \<le> u64_max" by (simp_all add: u64_max_def)
  note p = partition_window_confined [OF mem_device this refl]
  have "rd ?W 16 512 (\<lambda>_. 7) = (Inl (the (window_check 16 16 512)), \<lambda>_. 7)" using p by simp
  moreover have "rd_lba ?W 16 512 (\<lambda>_. 7) = rd (mem_disk 64) (8 + 16) 512 (\<lambda>_. 7)"
    using p by (simp add: mem_disk_def default_disk_def u64_max_def)
  ultimately show ?thesis by (simp add: window_check_def checked_add64_def u64_max_def)
qed

end
