(* ===== verification/Partition.thy ===== *)
theory Partition
  imports Disk
begin

text \<open>
  Partition tables (\<open>fs/partition.rs\<close>): CRC32, the MBR with its chain of extended boot records,
  GPT, and the detection of file systems by their signatures. Sizes and sector numbers are
  natural numbers below \<open>2 ^ 64\<close>; where the code adds without a check the wrap-around of the
  release build is written out. A device read may change the state of the device, which every
  function threads; after a failed read the state is the one the device left.
\<close>

section \<open>Little endian fields\<close>

definition u16_of :: "bytes \<Rightarrow> nat \<Rightarrow> nat" where
  "u16_of buf off = le_nat [buf ! off, buf ! (off + 1)]"

definition u32_at :: "bytes \<Rightarrow> nat \<Rightarrow> nat" where
  "u32_at buf off = (if off + 4 \<le> length buf then le_nat (take 4 (drop off buf)) else 0)"

definition u64_at :: "bytes \<Rightarrow> nat \<Rightarrow> nat" where
  "u64_at buf off = (if off + 8 \<le> length buf then le_nat (take 8 (drop off buf)) else 0)"

section \<open>CRC32\<close>

definition crc_bit :: "u32 \<Rightarrow> u32" where
  "crc_bit crc = drop_bit 1 crc XOR (0xEDB88320 AND (- (crc AND 1)))"

definition crc_byte :: "u32 \<Rightarrow> u8 \<Rightarrow> u32" where
  "crc_byte crc b = (crc_bit ^^ 8) (crc XOR ucast b)"

definition crc32 :: "bytes \<Rightarrow> u32" where
  "crc32 data = NOT (foldl crc_byte 0xFFFFFFFF data)"

section \<open>Partitions\<close>

datatype part_kind = DataPart | Efi | LinuxPart | UnknownPart

fun kind_text :: "part_kind \<Rightarrow> string" where
  "kind_text DataPart = ''data''"
| "kind_text Efi = ''efi''"
| "kind_text LinuxPart = ''linux''"
| "kind_text UnknownPart = ''unknown''"

record partition =
  p_index :: nat
  p_start :: nat
  p_sectors :: nat
  p_kind :: part_kind
  p_label :: "nat list"

definition guid_eq :: "bytes \<Rightarrow> nat \<Rightarrow> bytes \<Rightarrow> bool" where
  "guid_eq buf off guid \<longleftrightarrow> off + 16 \<le> length buf \<and> take 16 (drop off buf) = guid"

text \<open>UTF-16 code units up to a zero; a surrogate is not a character and becomes a question mark.\<close>

fun utf16_loop :: "bytes \<Rightarrow> nat \<Rightarrow> nat \<Rightarrow> nat \<Rightarrow> nat list" where
  "utf16_loop buf off i 0 = []"
| "utf16_loop buf off i (Suc k) =
     (if off + i * 2 + 2 > length buf then []
      else
        let c = u16_of buf (off + i * 2) in
        if c = 0 then []
        else (if 0xD800 \<le> c \<and> c \<le> 0xDFFF then 63 else c) # utf16_loop buf off (i + 1) k)"

definition utf16_name :: "bytes \<Rightarrow> nat \<Rightarrow> nat \<Rightarrow> nat list" where
  "utf16_name buf off max_chars = utf16_loop buf off 0 max_chars"

section \<open>MBR\<close>

definition kind_from_mbr :: "u8 \<Rightarrow> part_kind" where
  "kind_from_mbr t =
     (if t \<in> set [0x01, 0x04, 0x06, 0x0B, 0x0C, 0x0E, 0x11, 0x14, 0x16, 0x1B, 0x1C, 0x1E] then DataPart
      else if t \<in> set [0x07, 0x17, 0x27] then DataPart
      else if t = 0x83 then LinuxPart
      else if t = 0xEF then Efi
      else UnknownPart)"

definition read_mbr_sector :: "'d disk_ops \<Rightarrow> nat \<Rightarrow> 'd \<Rightarrow> bytes option \<times> 'd" where
  "read_mbr_sector ops lba d =
     (case rd_lba ops lba (max (ssize ops d) 512) d of
        (Inl e, d) \<Rightarrow> (None, d)
      | (Inr buf, d) \<Rightarrow>
          if buf ! 510 \<noteq> 0x55 \<or> buf ! 511 \<noteq> 0xAA then (None, d) else (Some (take 512 buf), d))"

definition mbr_entry :: "bytes \<Rightarrow> nat \<Rightarrow> u8 \<times> nat \<times> nat" where
  "mbr_entry sector i =
     (let off = 446 + i * 16 in (sector ! (off + 4), u32_at sector (off + 8), u32_at sector (off + 12)))"

definition sector_ratio :: "'d disk_ops \<Rightarrow> 'd \<Rightarrow> nat" where
  "sector_ratio ops d = max (max (ssize ops d) 512 div 512) 1"

text \<open>The loop over the four primary entries: the partitions and the extended container, if any.\<close>

definition primary_step ::
  "nat \<Rightarrow> bytes \<Rightarrow> partition list \<times> nat option \<Rightarrow> nat \<Rightarrow> partition list \<times> nat option" where
  "primary_step ratio sector0 acc i =
     (case mbr_entry sector0 i of
        (ptype, start, n) \<Rightarrow>
          if ptype = 0 \<or> n = 0 then acc
          else if ptype = 0xEE then acc
          else if ptype = 0x05 \<or> ptype = 0x0F \<or> ptype = 0x85 then (fst acc, Some start)
          else
            (fst acc @ [\<lparr>p_index = i + 1, p_start = saturating_mul64 start ratio,
                p_sectors = saturating_mul64 n ratio, p_kind = kind_from_mbr ptype, p_label = []\<rparr>],
             snd acc))"

text \<open>
  The chain of extended boot records, bounded by 128 rounds (\<open>fuel\<close>). \<open>None\<close> is the early return
  of a failed \<open>checked_add\<close>.
\<close>

primrec ebr_chain ::
  "'d disk_ops \<Rightarrow> nat \<Rightarrow> nat \<Rightarrow> nat \<Rightarrow> nat \<Rightarrow> nat \<Rightarrow> partition list \<Rightarrow> 'd \<Rightarrow> partition list option \<times> 'd" where
  "ebr_chain ops ratio extended 0 ebr_lba idx parts d = (Some parts, d)"
| "ebr_chain ops ratio extended (Suc fuel) ebr_lba idx parts d =
     (case read_mbr_sector ops ebr_lba d of
        (None, d) \<Rightarrow> (Some parts, d)
      | (Some ebr, d) \<Rightarrow>
          (case mbr_entry ebr 0 of
             (ptype, rel_start, n) \<Rightarrow>
               (case (if ptype \<noteq> 0 \<and> n \<noteq> 0
                      then
                        (case checked_add64 ebr_lba rel_start of
                           None \<Rightarrow> None
                         | Some start \<Rightarrow>
                             Some (parts @ [\<lparr>p_index = idx, p_start = saturating_mul64 start ratio,
                                 p_sectors = saturating_mul64 n ratio, p_kind = kind_from_mbr ptype,
                                 p_label = []\<rparr>], min (idx + 1) 255))
                      else Some (parts, idx)) of
                  None \<Rightarrow> (None, d)
                | Some (parts, idx) \<Rightarrow>
                    (case mbr_entry ebr 1 of
                       (next_type, next_rel, next_n) \<Rightarrow>
                         if next_type = 0 \<or> next_n = 0 then (Some parts, d)
                         else
                           (case checked_add64 extended next_rel of
                              None \<Rightarrow> (None, d)
                            | Some nxt \<Rightarrow>
                                if nxt = ebr_lba then (Some parts, d)
                                else ebr_chain ops ratio extended fuel nxt idx parts d)))))"

definition parse_mbr :: "'d disk_ops \<Rightarrow> bytes \<Rightarrow> 'd \<Rightarrow> partition list option \<times> 'd" where
  "parse_mbr ops sector0 d =
     (let ratio = sector_ratio ops d in
      case foldl (primary_step ratio sector0) ([], None) [0, 1, 2, 3] of
        (parts, ext) \<Rightarrow>
          (case (case ext of
                   None \<Rightarrow> (Some parts, d)
                 | Some extended \<Rightarrow> ebr_chain ops ratio extended 128 extended 5 parts d) of
             (None, d) \<Rightarrow> (None, d)
           | (Some ps, d) \<Rightarrow> (if ps = [] then None else Some ps, d)))"

section \<open>GPT\<close>

definition GPT_SIG :: bytes where "GPT_SIG = bytes_of ''EFI PART''"

definition GUID_MS_BASIC_DATA :: bytes where
  "GUID_MS_BASIC_DATA =
     [0xA2, 0xA0, 0xD0, 0xEB, 0xE5, 0xB9, 0x33, 0x44, 0x87, 0xC0, 0x68, 0xB6, 0xB7, 0x26, 0x99, 0xC7]"

definition GUID_EFI_SYSTEM :: bytes where
  "GUID_EFI_SYSTEM =
     [0x28, 0x73, 0x2A, 0xC1, 0x1F, 0xF8, 0xD2, 0x11, 0xBA, 0x4B, 0x00, 0xA0, 0xC9, 0x3E, 0xC9, 0x3B]"

definition GUID_LINUX_DATA :: bytes where
  "GUID_LINUX_DATA =
     [0xAF, 0x3D, 0xC6, 0x0F, 0x83, 0x84, 0x72, 0x47, 0x8E, 0x79, 0x3D, 0x69, 0xD8, 0x47, 0x7D, 0xE4]"

text \<open>The checks on the header; the CRC is taken with its own field zeroed.\<close>

definition zero_crc_field :: "bytes \<Rightarrow> bytes" where
  "zero_crc_field h = take 16 h @ replicate 4 0 @ drop 20 h"

definition gpt_header_ok :: "bytes \<Rightarrow> bool" where
  "gpt_header_ok hdr \<longleftrightarrow>
     \<not> (length hdr < 92 \<or> take 8 hdr \<noteq> GPT_SIG) \<and>
     92 \<le> u32_at hdr 12 \<and> u32_at hdr 12 \<le> 512 \<and>
     unat (crc32 (zero_crc_field (take (u32_at hdr 12) hdr))) = u32_at hdr 16"

definition gpt_kind :: "bytes \<Rightarrow> part_kind" where
  "gpt_kind entry =
     (if guid_eq entry 0 GUID_EFI_SYSTEM then Efi
      else if guid_eq entry 0 GUID_LINUX_DATA then LinuxPart
      else if guid_eq entry 0 GUID_MS_BASIC_DATA then DataPart
      else UnknownPart)"

text \<open>
  The partition of entry \<open>i\<close>, if it has one. \<open>last - first + 1\<close> wraps for the largest range, and the
  index is truncated to a byte.
\<close>

definition gpt_partition :: "nat \<Rightarrow> nat \<Rightarrow> bytes \<Rightarrow> partition option" where
  "gpt_partition ss i entry =
     (if list_all (\<lambda>b. b = 0) (take 16 entry) then None
      else
        let first = u64_at entry 32; last_lba = u64_at entry 40 in
        if last_lba < first then None
        else
          let ratio = max (ss div 512) 1 in
          (case checked_mul64 first ratio of
             None \<Rightarrow> None
           | Some start \<Rightarrow>
               (case checked_mul64 ((last_lba - first + 1) mod 2 ^ 64) ratio of
                  None \<Rightarrow> None
                | Some n \<Rightarrow>
                    Some \<lparr>p_index = (i + 1) mod 256, p_start = start, p_sectors = n,
                      p_kind = gpt_kind entry, p_label = utf16_name entry 56 36\<rparr>)))"

text \<open>The bytes of entry \<open>i\<close>: from one sector, or from two when it lies on their boundary.\<close>

definition gpt_entry :: "'d disk_ops \<Rightarrow> nat \<Rightarrow> nat \<Rightarrow> nat \<Rightarrow> nat \<Rightarrow> 'd \<Rightarrow> bytes option \<times> 'd" where
  "gpt_entry ops ss entries_lba esize i d =
     (case checked_mul64 i esize of
        None \<Rightarrow> (None, d)
      | Some byte_offset \<Rightarrow>
          (case checked_add64 entries_lba (byte_offset div ss) of
             None \<Rightarrow> (None, d)
           | Some lba \<Rightarrow>
               let in_sector = byte_offset mod ss in
               if in_sector + esize > ss
               then
                 (case rd_lba ops lba ss d of
                    (Inl e, d) \<Rightarrow> (None, d)
                  | (Inr s1, d) \<Rightarrow>
                      (case rd_lba ops ((lba + 1) mod 2 ^ 64) ss d of
                         (Inl e, d) \<Rightarrow> (None, d)
                       | (Inr s2, d) \<Rightarrow> (Some (take esize (drop in_sector (s1 @ s2))), d)))
               else
                 (case rd_lba ops lba ss d of
                    (Inl e, d) \<Rightarrow> (None, d)
                  | (Inr s1, d) \<Rightarrow> (Some (take esize (drop in_sector s1)), d))))"

primrec gpt_loop ::
  "'d disk_ops \<Rightarrow> nat \<Rightarrow> nat \<Rightarrow> nat \<Rightarrow> nat list \<Rightarrow> partition list \<Rightarrow> 'd \<Rightarrow> partition list option \<times> 'd" where
  "gpt_loop ops ss entries_lba esize [] parts d = (Some parts, d)"
| "gpt_loop ops ss entries_lba esize (i # is) parts d =
     (case gpt_entry ops ss entries_lba esize i d of
        (None, d) \<Rightarrow> (None, d)
      | (Some entry, d) \<Rightarrow>
          gpt_loop ops ss entries_lba esize is
            (case gpt_partition ss i entry of None \<Rightarrow> parts | Some p \<Rightarrow> parts @ [p]) d)"

definition parse_gpt :: "'d disk_ops \<Rightarrow> 'd \<Rightarrow> partition list option \<times> 'd" where
  "parse_gpt ops d =
     (let ss = max (ssize ops d) 512 in
      case rd_lba ops 1 512 d of
        (Inl e, d) \<Rightarrow> (None, d)
      | (Inr hdr, d) \<Rightarrow>
          if \<not> gpt_header_ok hdr then (None, d)
          else
            let entries_lba = u64_at hdr 72; num = u32_at hdr 80; esize = u32_at hdr 84 in
            if \<not> (128 \<le> esize \<and> esize \<le> 4096) \<or> num = 0 \<or> num > 1024 then (None, d)
            else if esize > ss then (None, d)
            else
              (case gpt_loop ops ss entries_lba esize [0 ..< num] [] d of
                 (None, d) \<Rightarrow> (None, d)
               | (Some ps, d) \<Rightarrow> (if ps = [] then None else Some ps, d)))"

definition read_partitions :: "'d disk_ops \<Rightarrow> 'd \<Rightarrow> partition list \<times> 'd" where
  "read_partitions ops d =
     (case rd ops 0 512 d of
        (Inl e, d) \<Rightarrow> ([], d)
      | (Inr sector0, d) \<Rightarrow>
          let has_protective = list_ex (\<lambda>i. fst (mbr_entry sector0 i) = 0xEE) [0, 1, 2, 3] in
          (case (if has_protective then parse_gpt ops d else (None, d)) of
             (Some ps, d) \<Rightarrow> (ps, d)
           | (None, d) \<Rightarrow>
               (case parse_mbr ops sector0 d of
                  (Some ps, d) \<Rightarrow> (ps, d)
                | (None, d) \<Rightarrow>
                    (case parse_gpt ops d of
                       (Some ps, d) \<Rightarrow> (ps, d)
                     | (None, d) \<Rightarrow> ([], d)))))"

section \<open>Signatures of file systems\<close>

definition fat_family :: "bytes \<Rightarrow> string option" where
  "fat_family s =
     (if length s < 512 then None
      else
        let bps = u16_of s 11; spc = unat (s ! 13); reserved = u16_of s 14; fat_count = unat (s ! 16);
            root_entries = u16_of s 17; total16 = u16_of s 19; fat16 = u16_of s 22;
            total32 = u32_at s 32; fat32 = u32_at s 36 in
        if bps \<notin> set [512, 1024, 2048, 4096] \<or> spc \<notin> set [1, 2, 4, 8, 16, 32, 64, 128] then None
        else if reserved = 0 \<or> fat_count = 0 \<or> fat_count > 4 then None
        else
          let fat_size = (if fat16 \<noteq> 0 then fat16 else fat32) in
          if fat_size = 0 then None
          else
            let all_sectors = (if total16 \<noteq> 0 then total16 else total32) in
            if all_sectors < reserved then None
            else if fat16 = 0 \<and> fat32 \<noteq> 0 \<and> root_entries = 0 then Some ''fat32''
            else
              let root_dir_sectors = (root_entries * 32 + bps - 1) div bps;
                  data_start = reserved + fat_count * fat_size + root_dir_sectors in
              if data_start \<ge> all_sectors then None
              else
                let clusters = (all_sectors - data_start) div spc in
                Some (if clusters < 4085 then ''fat12'' else if clusters < 65525 then ''fat16'' else ''fat32''))"

text \<open>The type of a table without a file system, and the generation of an ext file system.\<close>

definition table_type :: "bytes \<Rightarrow> string option" where
  "table_type s =
     (if s ! 510 = 0x55 \<and> s ! 511 = 0xAA
      then
        if list_ex (\<lambda>i. s ! (446 + i * 16 + 4) = 0xEE) [0, 1, 2, 3] then Some ''gpt''
        else if list_ex (\<lambda>i. s ! (446 + i * 16 + 4) \<noteq> 0) [0, 1, 2, 3] then Some ''mbr''
        else None
      else None)"

definition ext_type :: "bytes \<Rightarrow> string" where
  "ext_type s =
     (if u16_of s (1024 + 56) = 0xEF53
      then
        let compat = word_of_nat (u32_at s (1024 + 92)) :: u32; incompat = word_of_nat (u32_at s (1024 + 96)) :: u32;
            ro_compat = word_of_nat (u32_at s (1024 + 100)) :: u32 in
        if incompat AND (0x40 OR 0x80 OR 0x200) \<noteq> 0 \<or> ro_compat AND 0x200 \<noteq> 0 then ''ext4''
        else if compat AND 0x4 \<noteq> 0 then ''ext3''
        else ''ext2''
      else ''unknown'')"

definition detect_fs_type :: "'d disk_ops \<Rightarrow> 'd \<Rightarrow> string \<times> 'd" where
  "detect_fs_type ops d =
     (case rd ops 0 2048 d of
        (Inl e, d) \<Rightarrow> (''unknown'', d)
      | (Inr s, d) \<Rightarrow>
          if take 8 (drop 3 s) = bytes_of ''NTFS    '' then (''ntfs'', d)
          else if take 8 (drop 3 s) = bytes_of ''EXFAT   '' then (''exfat'', d)
          else
            (case (if s ! 510 = 0x55 \<and> s ! 511 = 0xAA then fat_family s else None) of
               Some family \<Rightarrow> (family, d)
             | None \<Rightarrow>
                 (case rd ops 64 2048 d of
                    (r, d) \<Rightarrow>
                      if (case r of Inr pvd \<Rightarrow> take 5 (drop 1 pvd) = bytes_of ''CD001'' | Inl e \<Rightarrow> False)
                      then (''iso9660'', d)
                      else
                        (case table_type s of
                           Some t \<Rightarrow> (t, d)
                         | None \<Rightarrow> (ext_type s, d)))))"

definition part_name :: "string \<Rightarrow> nat \<Rightarrow> string" where
  "part_name disk_name idx =
     (if disk_name \<noteq> [] \<and> 48 \<le> (of_char (last disk_name) :: nat) \<and> (of_char (last disk_name) :: nat) \<le> 57
      then disk_name @ ''p'' @ decimal idx
      else disk_name @ decimal idx)"

section \<open>CRC32 tells one changed byte\<close>

text \<open>The top bit of the polynomial is set, so a step of the CRC can be undone.\<close>

lemma crc_bit_bits:
  "bit (crc_bit c) n \<longleftrightarrow> n < 32 \<and> (bit c (Suc n) \<noteq> (bit c 0 \<and> bit (0xEDB88320 :: u32) n))"
proof -
  have "c AND 1 = of_bool (bit c 0)" by (simp add: and_one_eq bit_0 odd_iff_mod_2_eq_one even_iff_mod_2_eq_zero)
  then have "- (c AND 1) = (if bit c 0 then - 1 else 0)" by simp
  then show ?thesis
    by (cases "bit c 0") (auto simp: crc_bit_def bit_xor_iff bit_and_iff bit_drop_bit_eq dest: bit_imp_le_length)
qed

lemma inj_crc_bit: "inj crc_bit"
proof (rule injI)
  fix a b assume eq: "crc_bit a = crc_bit b"
  have top: "\<not> bit (c :: u32) (Suc 31)" for c by (simp add: not_le bit_word.rep_eq)
  have poly: "bit (0xEDB88320 :: u32) 31" by simp
  have "bit (crc_bit a) 31 = bit (crc_bit b) 31" using eq by simp
  then have z: "bit a 0 = bit b 0" using top poly by (simp add: crc_bit_bits)
  have "bit a n = bit b n" for n
  proof (cases n)
    case (Suc m)
    have "bit (crc_bit a) m = bit (crc_bit b) m" using eq by simp
    then show ?thesis using z Suc by (auto simp: crc_bit_bits dest: bit_imp_le_length)
  qed (simp add: z)
  then show "a = b" by (simp add: bit_eq_iff)
qed

lemma xor_cancel: "(a :: u32) XOR b = c XOR b \<longleftrightarrow> a = c"
proof
  assume "a XOR b = c XOR b"
  then have "(a XOR b) XOR b = (c XOR b) XOR b" by simp
  then show "a = c" by (simp add: xor.assoc)
qed simp

lemma inj_crc_byte: "crc_byte c b = crc_byte d b \<Longrightarrow> c = d"
proof -
  assume "crc_byte c b = crc_byte d b"
  then have "c XOR ucast b = d XOR ucast b"
    unfolding crc_byte_def by (rule injD [OF inj_fn [OF inj_crc_bit]])
  then show ?thesis by (simp only: xor_cancel)
qed

lemma crc_byte_byte: "crc_byte c a = crc_byte c b \<Longrightarrow> a = b"
proof -
  assume "crc_byte c a = crc_byte c b"
  then have "c XOR ucast a = c XOR ucast b"
    unfolding crc_byte_def by (rule injD [OF inj_fn [OF inj_crc_bit]])
  then have "ucast a XOR c = ucast b XOR c" by (simp only: xor.commute)
  then have "(ucast a :: u32) = ucast b" by (simp only: xor_cancel)
  then have "bit (ucast a :: u32) n = bit (ucast b :: u32) n" for n by simp
  then have "n < 32 \<longrightarrow> bit a n = bit b n" for n by (simp add: bit_ucast_iff) blast
  moreover have "\<not> bit a n \<and> \<not> bit b n" if "\<not> n < 32" for n
    using that by (auto dest: bit_imp_le_length)
  ultimately show "a = b" by (auto simp: bit_eq_iff)
qed

lemma crc_fold_inj: "foldl crc_byte c xs = foldl crc_byte d xs \<Longrightarrow> c = d"
proof (induction xs arbitrary: c d)
  case (Cons x xs)
  then have "crc_byte c x = crc_byte d x" by simp
  then show ?case by (rule inj_crc_byte)
qed simp

lemma crc32_one_byte:
  assumes "crc32 (xs @ [a] @ ys) = crc32 (xs @ [b] @ ys)"
  shows "a = b"
proof -
  have "foldl crc_byte 0xFFFFFFFF (xs @ [a] @ ys) = foldl crc_byte 0xFFFFFFFF (xs @ [b] @ ys)"
    using assms unfolding crc32_def by (metis bit.double_compl)
  then show ?thesis by (auto dest: crc_fold_inj crc_byte_byte)
qed

section \<open>GPT headers\<close>

lemma zero_crc_nth:
  "20 \<le> length h \<Longrightarrow> i < length h \<Longrightarrow> zero_crc_field h ! i = (if 16 \<le> i \<and> i < 20 then 0 else h ! i)"
  by (auto simp: zero_crc_field_def nth_append)

lemma zero_crc_length [simp]: "20 \<le> length h \<Longrightarrow> length (zero_crc_field h) = length h"
  by (simp add: zero_crc_field_def)

lemma zero_crc_update:
  assumes "20 \<le> length h" "k < length h"
  shows "zero_crc_field (h[k := b]) = (if 16 \<le> k \<and> k < 20 then zero_crc_field h else (zero_crc_field h)[k := b])"
  by (rule nth_equalityI) (auto simp: assms zero_crc_nth nth_list_update)

lemma crc32_update: "k < length xs \<Longrightarrow> b \<noteq> xs ! k \<Longrightarrow> crc32 (xs[k := b]) \<noteq> crc32 xs"
  using crc32_one_byte [of "take k xs" b "drop (Suc k) xs" "xs ! k"]
  by (auto simp: upd_conv_take_nth_drop id_take_nth_drop [symmetric])

lemma take_drop_update:
  "k < m \<or> m + n \<le> k \<Longrightarrow> take n (drop m (xs[k := b])) = take n (drop m xs)"
  by (auto simp: drop_update_swap)

lemma u32_at_update: "k < m \<or> m + 4 \<le> k \<Longrightarrow> u32_at (h[k := b]) m = u32_at h m"
  by (simp add: u32_at_def take_drop_update)

lemma u32_at_changed:
  assumes "m \<le> k" "k < m + 4" "m + 4 \<le> length h" "b \<noteq> h ! k"
  shows "u32_at (h[k := b]) m \<noteq> u32_at h m"
proof
  let ?f = "\<lambda>h. take 4 (drop m h)"
  assume "u32_at (h[k := b]) m = u32_at h m"
  then have "le_nat (?f (h[k := b])) = le_nat (?f h)" using assms by (simp add: u32_at_def)
  moreover have "length (?f (h[k := b])) = 4" "length (?f h) = 4" using assms by auto
  ultimately have "?f (h[k := b]) = ?f h"
    using le_bytes_nat [of "?f (h[k := b])"] le_bytes_nat [of "?f h"] by metis
  then have "?f (h[k := b]) ! (k - m) = ?f h ! (k - m)" by simp
  then show False using assms by auto
qed

lemma gpt_header_changed:
  assumes "gpt_header_ok hdr" "length hdr = 512" "k < u32_at hdr 12" "k < 12 \<or> 16 \<le> k" "b \<noteq> hdr ! k"
  shows "\<not> gpt_header_ok (hdr[k := b])"
proof
  assume ok: "gpt_header_ok (hdr[k := b])"
  let ?n = "u32_at hdr 12" and ?h = "take (u32_at hdr 12) hdr"
  have n: "92 \<le> ?n" "?n \<le> 512" and crc: "unat (crc32 (zero_crc_field ?h)) = u32_at hdr 16"
    using assms(1) by (auto simp: gpt_header_ok_def)
  have "u32_at (hdr[k := b]) 12 = ?n" using u32_at_update assms(4) by simp
  then have crc': "unat (crc32 (zero_crc_field (?h[k := b]))) = u32_at (hdr[k := b]) 16"
    using ok by (simp add: gpt_header_ok_def take_update_swap)
  have len: "20 \<le> length ?h" "k < length ?h" using n assms(2,3) by auto
  show False
  proof (cases "16 \<le> k \<and> k < 20")
    case True
    then have "u32_at (hdr[k := b]) 16 \<noteq> u32_at hdr 16" using u32_at_changed [of 16 k hdr b] assms(2,5) by simp
    then show False using crc crc' True zero_crc_update [OF len] by simp
  next
    case False
    then have "u32_at (hdr[k := b]) 16 = u32_at hdr 16" using u32_at_update [of k 16] by auto
    then have "crc32 ((zero_crc_field ?h)[k := b]) = crc32 (zero_crc_field ?h)"
      using crc crc' False zero_crc_update [OF len, of b] by (simp add: word_unat_eq_iff)
    moreover have "zero_crc_field ?h ! k = hdr ! k" "k < length (zero_crc_field ?h)"
      using zero_crc_nth [OF len] False len assms(3) by auto
    ultimately show False using crc32_update [of k "zero_crc_field ?h" b] assms(5) by simp
  qed
qed

text \<open>Writing the CRC of a header into it, as a partitioning tool does.\<close>

definition gpt_seal :: "bytes \<Rightarrow> bytes" where
  "gpt_seal h = take 16 h @ le_bytes 4 (unat (crc32 (zero_crc_field (take (u32_at h 12) h)))) @ drop 20 h"

lemma gpt_seal_ok:
  assumes "length h = 512" "take 8 h = GPT_SIG" "92 \<le> u32_at h 12" "u32_at h 12 \<le> 512"
  shows "gpt_header_ok (gpt_seal h)" "length (gpt_seal h) = 512" "u32_at (gpt_seal h) 12 = u32_at h 12"
    "\<And>k. k < 512 \<Longrightarrow> k < 16 \<or> 20 \<le> k \<Longrightarrow> gpt_seal h ! k = h ! k"
proof -
  let ?n = "u32_at h 12"
  show l: "length (gpt_seal h) = 512" using assms(1) by (simp add: gpt_seal_def)
  show nth: "gpt_seal h ! k = h ! k" if "k < 512" "k < 16 \<or> 20 \<le> k" for k
    using that assms(1) by (auto simp: gpt_seal_def nth_append)
  have t: "take 4 (drop 12 (gpt_seal h)) = take 4 (drop 12 h)"
    by (rule nth_equalityI) (simp_all add: l assms(1) nth)
  then show n: "u32_at (gpt_seal h) 12 = ?n" using assms(1) l by (simp add: u32_at_def)
  have z: "zero_crc_field (take ?n (gpt_seal h)) = zero_crc_field (take ?n h)"
    by (rule nth_equalityI) (use assms l nth in \<open>auto simp: zero_crc_nth\<close>)
  have "unat c < 2 ^ 32" for c :: u32 using unsigned_less [of c] by simp
  then have "u32_at (gpt_seal h) 16 = unat (crc32 (zero_crc_field (take ?n h)))"
    using assms(1) by (simp add: u32_at_def gpt_seal_def le_nat_bytes)
  moreover have "take 8 (gpt_seal h) = take 8 h"
    by (rule nth_equalityI) (simp_all add: l assms(1) nth)
  ultimately show "gpt_header_ok (gpt_seal h)"
    unfolding gpt_header_ok_def n z l using assms(2-4) by simp
qed

section \<open>MBR images\<close>

text \<open>An entry of a boot record as a partitioning tool writes it: type, start and length.\<close>

type_synonym slot = "u8 \<times> nat \<times> nat"

definition slot_bytes :: "slot \<Rightarrow> bytes" where
  "slot_bytes s = (case s of (t, start, n) \<Rightarrow>
     [0, 0, 0, 0, t, 0, 0, 0] @ le_bytes 4 start @ le_bytes 4 n)"

definition mbr_image :: "slot \<Rightarrow> slot \<Rightarrow> slot \<Rightarrow> slot \<Rightarrow> bytes" where
  "mbr_image a b c e = replicate 446 0 @ slot_bytes a @ slot_bytes b @ slot_bytes c @ slot_bytes e @ [0x55, 0xAA]"

definition slot_ok :: "slot \<Rightarrow> bool" where
  "slot_ok s \<longleftrightarrow> fst (snd s) < 2 ^ 32 \<and> snd (snd s) < 2 ^ 32"

lemma length_slot_bytes [simp]: "length (slot_bytes s) = 16"
  by (simp add: slot_bytes_def split: prod.splits)

lemma length_mbr_image [simp]: "length (mbr_image a b c e) = 512"
  by (simp add: mbr_image_def)

lemma mbr_image_sig: "mbr_image a b c e ! 510 = 0x55" "mbr_image a b c e ! 511 = 0xAA"
  by (simp_all add: mbr_image_def nth_append)

lemma entry_at:
  assumes "slot_ok s" "img = pre @ slot_bytes s @ post" "length pre = 446 + i * 16"
  shows "mbr_entry img i = s"
proof -
  obtain t start n where s: "s = (t, start, n)" by (cases s) auto
  have b: "le_nat (le_bytes 4 start) = start" "le_nat (le_bytes 4 n) = n"
    using assms(1) by (simp_all add: slot_ok_def s le_nat_bytes)
  have "img ! (446 + i * 16 + 4) = t"
    by (simp add: assms(2) nth_append slot_bytes_def s assms(3) [symmetric])
  moreover have "drop (446 + i * 16 + 8) img = le_bytes 4 start @ le_bytes 4 n @ post"
    by (simp add: assms(2) slot_bytes_def s assms(3) [symmetric])
  moreover have "drop (446 + i * 16 + 12) img = le_bytes 4 n @ post"
    by (simp add: assms(2) slot_bytes_def s assms(3) [symmetric])
  moreover have "446 + i * 16 + 16 \<le> length img" by (simp add: assms(2,3))
  ultimately show ?thesis using b s by (simp add: mbr_entry_def u32_at_def)
qed

lemma mbr_image_entry:
  "slot_ok a \<Longrightarrow> mbr_entry (mbr_image a b c e) 0 = a"
  "slot_ok b \<Longrightarrow> mbr_entry (mbr_image a b c e) 1 = b"
  "slot_ok c \<Longrightarrow> mbr_entry (mbr_image a b c e) 2 = c"
  "slot_ok e \<Longrightarrow> mbr_entry (mbr_image a b c e) 3 = e"
proof -
  let ?z = "replicate 446 0 :: bytes"
  show "slot_ok a \<Longrightarrow> mbr_entry (mbr_image a b c e) 0 = a"
    by (rule entry_at [where pre = ?z]) (simp_all add: mbr_image_def)
  show "slot_ok b \<Longrightarrow> mbr_entry (mbr_image a b c e) 1 = b"
    by (rule entry_at [where pre = "?z @ slot_bytes a"]) (simp_all add: mbr_image_def)
  show "slot_ok c \<Longrightarrow> mbr_entry (mbr_image a b c e) 2 = c"
    by (rule entry_at [where pre = "?z @ slot_bytes a @ slot_bytes b"]) (simp_all add: mbr_image_def)
  show "slot_ok e \<Longrightarrow> mbr_entry (mbr_image a b c e) 3 = e"
    by (rule entry_at [where pre = "?z @ slot_bytes a @ slot_bytes b @ slot_bytes c"]) (simp_all add: mbr_image_def)
qed

text \<open>
  The layout that a boot record and its chain describe: the primary partitions among the four
  slots, the start of the extended container (the last one wins), and the logical partitions, each
  given by the sector of its boot record, its type, its start relative to it and its length.
\<close>

definition is_extended :: "u8 \<Rightarrow> bool" where
  "is_extended t \<longleftrightarrow> t = 0x05 \<or> t = 0x0F \<or> t = 0x85"

fun primaries :: "nat \<Rightarrow> nat \<Rightarrow> slot list \<Rightarrow> partition list" where
  "primaries ratio i [] = []"
| "primaries ratio i ((t, start, n) # ss) =
     (if t \<noteq> 0 \<and> n \<noteq> 0 \<and> t \<noteq> 0xEE \<and> \<not> is_extended t
      then [\<lparr>p_index = i, p_start = saturating_mul64 start ratio, p_sectors = saturating_mul64 n ratio,
             p_kind = kind_from_mbr t, p_label = []\<rparr>] else []) @ primaries ratio (i + 1) ss"

fun container :: "nat option \<Rightarrow> slot list \<Rightarrow> nat option" where
  "container x [] = x"
| "container x ((t, start, n) # ss) = container (if is_extended t \<and> n \<noteq> 0 then Some start else x) ss"

type_synonym logical_part = "nat \<times> u8 \<times> nat \<times> nat"

fun logicals :: "nat \<Rightarrow> nat \<Rightarrow> logical_part list \<Rightarrow> partition list" where
  "logicals ratio i [] = []"
| "logicals ratio i ((x, t, r, n) # cs) =
     \<lparr>p_index = i, p_start = saturating_mul64 (x + r) ratio, p_sectors = saturating_mul64 n ratio,
       p_kind = kind_from_mbr t, p_label = []\<rparr> # logicals ratio (i + 1) cs"

text \<open>The device holds the boot records of the chain, each linked to the next.\<close>

fun link_ok :: "nat \<Rightarrow> nat \<Rightarrow> logical_part list \<Rightarrow> slot \<Rightarrow> bool" where
  "link_ok ext x [] l \<longleftrightarrow> l = (0, 0, 0)"
| "link_ok ext x ((y, _) # cs) (t, rel, n) \<longleftrightarrow> t \<noteq> 0 \<and> n \<noteq> 0 \<and> y = ext + rel \<and> y \<noteq> x"

fun chain_on :: "'d disk_ops \<Rightarrow> 'd \<Rightarrow> nat \<Rightarrow> logical_part list \<Rightarrow> bool" where
  "chain_on ops d ext [] \<longleftrightarrow> True"
| "chain_on ops d ext ((x, t, r, n) # cs) \<longleftrightarrow>
     t \<noteq> 0 \<and> n \<noteq> 0 \<and> slot_ok (t, r, n) \<and> x < 2 ^ 33 \<and>
     (\<exists>l pad. slot_ok l \<and> link_ok ext x cs l \<and>
        rd_lba ops x (max (ssize ops d) 512) d = (Inr (mbr_image (t, r, n) l (0, 0, 0) (0, 0, 0) @ pad), d)) \<and>
     chain_on ops d ext cs"

lemma ebr_chain_logicals:
  assumes "chain_on ops d ext ((x, c) # cs)" "length ((x, c) # cs) \<le> fuel" "idx + length ((x, c) # cs) \<le> 255"
    "ext < 2 ^ 32"
  shows "ebr_chain ops ratio ext fuel x idx parts d = (Some (parts @ logicals ratio idx ((x, c) # cs)), d)"
  using assms
proof (induction cs arbitrary: x c fuel idx parts)
  case Nil
  obtain t r n where c: "c = (t, r, n)" by (cases c) auto
  obtain f where f: "fuel = Suc f" using Nil by (cases fuel) auto
  obtain pad where rd: "rd_lba ops x (max (ssize ops d) 512) d =
      (Inr (mbr_image (t, r, n) (0, 0, 0) (0, 0, 0) (0, 0, 0) @ pad), d)"
    and ok: "slot_ok (t, r, n)" "slot_ok (0, 0, 0)" "t \<noteq> 0" "n \<noteq> 0" "x < 2 ^ 33"
    using Nil by (auto simp: c)
  have "x + r \<le> u64_max" using ok by (simp add: slot_ok_def u64_max_def)
  then show ?case
    using rd ok mbr_image_entry(1,2)
    by (simp add: f c read_mbr_sector_def nth_append mbr_image_sig [simplified] checked_add64_def)
next
  case (Cons c' cs)
  obtain t r n where c: "c = (t, r, n)" by (cases c) auto
  obtain y c2 where c': "c' = (y, c2)" by (cases c') auto
  obtain f where f: "fuel = Suc f" using Cons.prems by (cases fuel) auto
  obtain lt rel ln pad where rd: "rd_lba ops x (max (ssize ops d) 512) d =
      (Inr (mbr_image (t, r, n) (lt, rel, ln) (0, 0, 0) (0, 0, 0) @ pad), d)"
    and l: "slot_ok (lt, rel, ln)" "lt \<noteq> 0" "ln \<noteq> 0" "y = ext + rel" "y \<noteq> x"
    and ok: "slot_ok (t, r, n)" "t \<noteq> 0" "n \<noteq> 0" "x < 2 ^ 33" and ch: "chain_on ops d ext ((y, c2) # cs)"
    using Cons.prems(1) by (auto simp: c c')
  have a: "x + r \<le> u64_max" "ext + rel \<le> u64_max"
    using ok l(1) Cons.prems(4) by (simp_all add: slot_ok_def u64_max_def)
  let ?p = "\<lparr>p_index = idx, p_start = saturating_mul64 (x + r) ratio, p_sectors = saturating_mul64 n ratio,
       p_kind = kind_from_mbr t, p_label = []\<rparr>"
  have "ebr_chain ops ratio ext fuel x idx parts d = ebr_chain ops ratio ext f y (min (idx + 1) 255) (parts @ [?p]) d"
    using rd ok l a mbr_image_entry(1) [OF ok(1)] mbr_image_entry(2) [OF l(1)]
    by (simp add: f read_mbr_sector_def nth_append mbr_image_sig [simplified] checked_add64_def)
  moreover have "min (idx + 1) 255 = idx + 1" using Cons.prems(3) by simp
  moreover have "ebr_chain ops ratio ext f y (idx + 1) (parts @ [?p]) d =
      (Some ((parts @ [?p]) @ logicals ratio (idx + 1) ((y, c2) # cs)), d)"
    using Cons.prems(2,3,4) ch by (intro Cons.IH) (simp_all add: f c')
  ultimately show ?case by (simp add: c c')
qed

lemma primary_steps:
  assumes "\<forall>k < length ss. mbr_entry sec (i + k) = ss ! k"
  shows "foldl (primary_step ratio sec) (parts, x) [i ..< i + length ss] =
    (parts @ primaries ratio (i + 1) ss, container x ss)"
  using assms
proof (induction ss arbitrary: i parts x)
  case (Cons s ss)
  obtain t start n where s: "s = (t, start, n)" by (cases s) auto
  have e: "mbr_entry sec i = s" using Cons.prems by force
  have r: "\<forall>k < length ss. mbr_entry sec (Suc i + k) = ss ! k" using Cons.prems by force
  have "[i ..< i + length (s # ss)] = i # [Suc i ..< Suc i + length ss]" by (simp add: upt_rec)
  then show ?case
    using e Cons.IH [OF r] by (auto simp: s primary_step_def is_extended_def)
qed simp

lemma container_bound:
  "container z ss = Some x \<Longrightarrow> list_all slot_ok ss \<Longrightarrow> (\<forall>y. z = Some y \<longrightarrow> y < 2 ^ 32) \<Longrightarrow> x < 2 ^ 32"
proof (induction ss arbitrary: z)
  case (Cons s ss)
  obtain t start n where s: "s = (t, start, n)" by (cases s) auto
  show ?case
    by (rule Cons.IH [of "if is_extended t \<and> n \<noteq> 0 then Some start else z"])
      (use Cons.prems in \<open>auto simp: s slot_ok_def\<close>)
qed simp

section \<open>Properties\<close>

text \<open>
  C30: a damaged GPT header is never used. Take a header that the parser accepts and change any one
  byte that the header's CRC covers, or a byte of the CRC itself, to any other value (the four bytes
  of the header size, which say how much is covered, excepted): parse_gpt of a device that returns
  the changed header finds no partition table and reads nothing more.
\<close>

theorem gpt_corruption_rejected:
  assumes "gpt_header_ok hdr" "length hdr = 512" "k < u32_at hdr 12" "k < 12 \<or> 16 \<le> k" "b \<noteq> hdr ! k"
    "rd_lba ops 1 512 d = (Inr (hdr[k := b]), d')"
  shows "parse_gpt ops d = (None, d')"
  using gpt_header_changed [OF assms(1-5)] assms(6) by (simp add: parse_gpt_def Let_def)

definition gpt_sample :: bytes where
  "gpt_sample = gpt_seal (GPT_SIG @ le_bytes 4 0x10000 @ le_bytes 4 92 @ replicate 496 0)"

lemma gpt_sample_ok: "gpt_header_ok gpt_sample" "length gpt_sample = 512" "u32_at gpt_sample 12 = 92" "gpt_sample ! 80 = 0"
proof -
  let ?h = "GPT_SIG @ le_bytes 4 0x10000 @ le_bytes 4 92 @ replicate 496 0"
  have s: "length GPT_SIG = 8" by (simp add: GPT_SIG_def bytes_of_def)
  have l: "length ?h = 512" "take 8 ?h = GPT_SIG" using s by simp_all
  have "drop 12 ?h = le_bytes 4 92 @ replicate 496 0" using s by simp
  then have u: "u32_at ?h 12 = 92" using l by (simp add: u32_at_def le_nat_bytes)
  have "?h ! 80 = 0" using s by (simp add: nth_append)
  then show "gpt_header_ok gpt_sample" "length gpt_sample = 512" "u32_at gpt_sample 12 = 92" "gpt_sample ! 80 = 0"
    using gpt_seal_ok [OF l] u unfolding gpt_sample_def by simp_all
qed

theorem gpt_corruption_rejected_witness:
  "gpt_header_ok gpt_sample \<and>
   parse_gpt (default_disk (\<lambda>s n d. (Inr d, d))) (gpt_sample[80 := 7]) = (None, gpt_sample[80 := 7])"
proof -
  have "80 < u32_at gpt_sample 12" "(80 :: nat) < 12 \<or> 16 \<le> (80 :: nat)" "7 \<noteq> gpt_sample ! 80"
    by (simp_all add: gpt_sample_ok)
  from gpt_corruption_rejected [OF gpt_sample_ok(1,2) this, of "default_disk (\<lambda>s n d. (Inr d, d))"]
  show ?thesis by (simp add: default_disk_def gpt_sample_ok(1))
qed

text \<open>
  C31: an MBR and its chain of extended boot records read back as written. For a boot record written
  with any four entries and a chain of up to 128 logical partitions on the device, each boot record
  linked to the next by its second entry, parse_mbr returns exactly the layout: the primary
  partitions in order, numbered by their slot, without the empty, protective and extended entries,
  then every logical partition, numbered from 5, with its start relative to its own boot record,
  all scaled to 512-byte sectors; and nothing at all for an empty layout.
\<close>

theorem parse_mbr_layout:
  assumes "list_all slot_ok [a, b, c, e]"
    "container None [a, b, c, e] = (case chain of [] \<Rightarrow> None | l # ls \<Rightarrow> Some (fst l))"
    "chain_on ops d (case chain of [] \<Rightarrow> 0 | l # ls \<Rightarrow> fst l) chain" "length chain \<le> 128"
    "ps = primaries (sector_ratio ops d) 1 [a, b, c, e] @ logicals (sector_ratio ops d) 5 chain"
  shows "parse_mbr ops (mbr_image a b c e) d = (if ps = [] then None else Some ps, d)"
proof -
  let ?r = "sector_ratio ops d" and ?sec = "mbr_image a b c e"
  have m: "mbr_entry ?sec 0 = a" "mbr_entry ?sec 1 = b" "mbr_entry ?sec 2 = c" "mbr_entry ?sec 3 = e"
    using assms(1) by (simp_all only: list.pred_inject mbr_image_entry)
  have "mbr_entry ?sec (0 + k) = [a, b, c, e] ! k" if "k < 4" for k
  proof -
    have "k = 0 \<or> k = 1 \<or> k = 2 \<or> k = 3" using that by linarith
    then show ?thesis using m by (elim disjE) (simp_all add: numeral_2_eq_2 numeral_3_eq_3)
  qed
  then have "foldl (primary_step ?r ?sec) ([], None) [0 ..< 0 + length [a, b, c, e]] =
      ([] @ primaries ?r (0 + 1) [a, b, c, e], container None [a, b, c, e])"
    by (intro primary_steps) simp
  moreover have "[0 ..< 0 + length [a, b, c, e]] = [0, 1, 2, 3]" by (simp add: upt_rec)
  ultimately have f: "foldl (primary_step ?r ?sec) ([], None) [0, 1, 2, 3] =
      (primaries ?r 1 [a, b, c, e], container None [a, b, c, e])" by (simp add: numeral_2_eq_2 numeral_3_eq_3)
  show ?thesis
  proof (cases chain)
    case Nil
    then show ?thesis unfolding parse_mbr_def Let_def f assms(2) using assms(5) by simp
  next
    case (Cons l ls)
    obtain x y where l: "l = (x, y)" by (cases l) auto
    have "container None [a, b, c, e] = Some x" using assms(2) Cons l by simp
    then have "x < 2 ^ 32" using container_bound [OF _ assms(1), of None] by simp
    then have "ebr_chain ops ?r x 128 x 5 (primaries ?r 1 [a, b, c, e]) d =
        (Some (primaries ?r 1 [a, b, c, e] @ logicals ?r 5 ((x, y) # ls)), d)"
      using assms(3,4) Cons l by (intro ebr_chain_logicals) simp_all
    then show ?thesis unfolding parse_mbr_def Let_def f assms(2) using assms(5) Cons l by (cases y) simp
  qed
qed

theorem parse_mbr_layout_witness:
  "map p_index (the (fst (parse_mbr (default_disk (\<lambda>s n d. (Inr (d s), d)))
       (mbr_image (0x83, 2048, 100) (0x05, 4096, 900) (0, 0, 0) (0, 0, 0))
       (\<lambda>s. if s = 4096 then mbr_image (0x07, 63, 200) (0x05, 500, 300) (0, 0, 0) (0, 0, 0)
            else mbr_image (0x0B, 63, 200) (0, 0, 0) (0, 0, 0) (0, 0, 0))))) = [1, 5, 6]"
proof -
  let ?ops = "default_disk (\<lambda>s n d. (Inr (d s), d)) :: (nat \<Rightarrow> bytes) disk_ops"
  let ?d = "\<lambda>s :: nat. if s = 4096 then mbr_image (0x07, 63, 200) (0x05, 500, 300) (0, 0, 0) (0, 0, 0)
            else mbr_image (0x0B, 63, 200) (0, 0, 0) (0, 0, 0) (0, 0, 0)"
  let ?chain = "[(4096, 0x07, 63, 200), (4596, 0x0B, 63, 200)] :: logical_part list"
  have c: "chain_on ?ops ?d (case ?chain of [] \<Rightarrow> 0 | l # ls \<Rightarrow> fst l) ?chain"
    by (simp add: default_disk_def slot_ok_def) (rule exI [of _ "0x05"], rule exI [of _ 500], intro conjI exI [of _ 300] exI [of _ "[]"], simp_all)
  have ok: "list_all slot_ok [(0x83, 2048, 100), (0x05, 4096, 900), (0, 0, 0), (0, 0, 0)]"
    and ct: "container None [(0x83, 2048, 100), (0x05, 4096, 900), (0, 0, 0), (0, 0, 0)] =
      (case ?chain of [] \<Rightarrow> None | l # ls \<Rightarrow> Some (fst l))"
    by (simp_all add: slot_ok_def is_extended_def)
  from parse_mbr_layout [OF ok ct c _ refl] show ?thesis by (simp add: is_extended_def)
qed

end
