(* ===== verification/Fat.thy ===== *)
theory Fat
  imports Disk
begin

text \<open>
  The lower half of the FAT32 driver (\<open>fs/fat32.rs\<close>): sectors, FAT entries, cluster chains, allocation
  and release, and writing a range of a file. A function takes the disk's operations and the
  geometry and runs on the state of the disk; an \<open>io\<close> is a computation that may fail, and \<open>bnd\<close> is the
  code's \<open>?\<close>. Clusters and entries (\<open>u32\<close>) are numbers: \<open>x & FAT_MASK\<close> is \<open>x mod 2 ^ 28\<close>.
\<close>

section \<open>Computations on a disk\<close>

type_synonym ('d, 'a) io = "'d \<Rightarrow> (fs_error + 'a) \<times> 'd"

definition ok :: "'a \<Rightarrow> ('d, 'a) io" where
  "ok a d = (Inr a, d)"

definition err :: "fs_error \<Rightarrow> ('d, 'a) io" where
  "err e d = (Inl e, d)"

definition bnd :: "('d, 'a) io \<Rightarrow> ('a \<Rightarrow> ('d, 'b) io) \<Rightarrow> ('d, 'b) io" where
  "bnd m k d = (case m d of (Inl e, d1) \<Rightarrow> (Inl e, d1) | (Inr a, d1) \<Rightarrow> k a d1)"

text \<open>A \<open>for\<close> loop whose body may leave the function with \<open>?\<close>.\<close>

primrec for_each :: "('x \<Rightarrow> ('d, unit) io) \<Rightarrow> 'x list \<Rightarrow> ('d, unit) io" where
  "for_each f [] = ok ()"
| "for_each f (x # xs) = bnd (f x) (\<lambda>_. for_each f xs)"

text \<open>The same, collecting a result from each round.\<close>

primrec gather :: "('x \<Rightarrow> ('d, 'a) io) \<Rightarrow> 'x list \<Rightarrow> ('d, 'a list) io" where
  "gather f [] = ok []"
| "gather f (x # xs) = bnd (f x) (\<lambda>a. bnd (gather f xs) (\<lambda>as. ok (a # as)))"

definition read_sector :: "'d disk_ops \<Rightarrow> nat \<Rightarrow> ('d, bytes) io" where
  "read_sector ops s d = (case rd ops s 512 d of (Inl _, d1) \<Rightarrow> (Inl IoError, d1) | (Inr b, d1) \<Rightarrow> (Inr b, d1))"

definition write_sector :: "'d disk_ops \<Rightarrow> nat \<Rightarrow> bytes \<Rightarrow> ('d, unit) io" where
  "write_sector ops s buf d = (case wr ops s buf d of (Inl _, d1) \<Rightarrow> (Inl IoError, d1) | (Inr _, d1) \<Rightarrow> (Inr (), d1))"

text \<open>\<open>buf[off..off + n].copy_from_slice(bs)\<close>.\<close>

definition put_at :: "nat \<Rightarrow> bytes \<Rightarrow> bytes \<Rightarrow> bytes" where
  "put_at off bs buf = take off buf @ bs @ drop (off + length bs) buf"

definition field32 :: "bytes \<Rightarrow> nat \<Rightarrow> nat" where
  "field32 buf off = le_nat (take 4 (drop off buf))"

section \<open>Geometry\<close>

record geo =
  fat_start :: nat
  fat_count :: nat
  fat_size :: nat
  data_start :: nat
  spc :: nat
  cluster_size :: nat
  root_cluster :: nat
  fs_info_sector :: nat
  total_clusters :: nat
  volume_label :: bytes

definition cluster_to_sector :: "geo \<Rightarrow> nat \<Rightarrow> nat option" where
  "cluster_to_sector g c = (if c < 2 then None else Some (data_start g + (c - 2) * spc g))"

text \<open>\<open>.ok_or(FsError::InvalidPath)?\<close>.\<close>

definition cluster_base :: "geo \<Rightarrow> nat \<Rightarrow> ('d, nat) io" where
  "cluster_base g c = (case cluster_to_sector g c of None \<Rightarrow> err InvalidPath | Some s \<Rightarrow> ok s)"

section \<open>FAT entries\<close>

definition FAT_EOC :: nat where "FAT_EOC = 0x0FFFFFFF"
definition FAT_FREE :: nat where "FAT_FREE = 0"

definition fat_get :: "'d disk_ops \<Rightarrow> geo \<Rightarrow> nat \<Rightarrow> ('d, nat) io" where
  "fat_get ops g c =
     bnd (read_sector ops (fat_start g + c * 4 div 512)) (\<lambda>buf. ok (field32 buf (c * 4 mod 512) mod 2 ^ 28))"

definition fat_set :: "'d disk_ops \<Rightarrow> geo \<Rightarrow> nat \<Rightarrow> nat \<Rightarrow> ('d, unit) io" where
  "fat_set ops g c v =
     (let sector_in_fat = c * 4 div 512; entry = c * 4 mod 512 in
      bnd (read_sector ops (fat_start g + sector_in_fat)) (\<lambda>buf.
        let old = field32 buf entry;
            updated = old div 2 ^ 28 * 2 ^ 28 + v mod 2 ^ 28;
            buf1 = put_at entry (le_bytes 4 updated) buf
        in for_each (\<lambda>copy. write_sector ops (fat_start g + copy * fat_size g + sector_in_fat) buf1)
             [0..<max (fat_count g) 1]))"

definition is_end_of_chain :: "nat \<Rightarrow> bool" where
  "is_end_of_chain v \<longleftrightarrow> v \<ge> 0x0FFFFFF8"

text \<open>\<open>next < 2 || is_end_of_chain(next)\<close>.\<close>

definition last_link :: "nat \<Rightarrow> bool" where
  "last_link v \<longleftrightarrow> v < 2 \<or> is_end_of_chain v"

text \<open>The loop stops after \<open>limit + 1\<close> clusters, whatever the table says.\<close>

primrec chain_loop :: "'d disk_ops \<Rightarrow> geo \<Rightarrow> nat \<Rightarrow> nat \<Rightarrow> ('d, nat list) io" where
  "chain_loop ops g 0 c = ok []"
| "chain_loop ops g (Suc n) c =
     bnd (fat_get ops g c) (\<lambda>nxt.
       if last_link nxt then ok [c] else bnd (chain_loop ops g n nxt) (\<lambda>cs. ok (c # cs)))"

definition chain :: "'d disk_ops \<Rightarrow> geo \<Rightarrow> nat \<Rightarrow> ('d, nat list) io" where
  "chain ops g start = (if start < 2 then ok [] else chain_loop ops g (total_clusters g + 2 + 1) start)"

definition free_chain :: "'d disk_ops \<Rightarrow> geo \<Rightarrow> nat \<Rightarrow> ('d, unit) io" where
  "free_chain ops g start =
     bnd (chain ops g start) (for_each (\<lambda>c. fat_set ops g c FAT_FREE))"

section \<open>Allocation\<close>

definition update_fsinfo :: "'d disk_ops \<Rightarrow> geo \<Rightarrow> nat \<Rightarrow> ('d, unit) io" where
  "update_fsinfo ops g next_free =
     (if fs_info_sector g = 0 \<or> fs_info_sector g = 0xFFFF then ok ()
      else bnd (read_sector ops (fs_info_sector g)) (\<lambda>buf.
        if field32 buf 0 \<noteq> 0x41615252 then ok ()
        else if field32 buf 484 \<noteq> 0x61417272 then ok ()
        else
          let free = field32 buf 488;
              buf1 = (if free \<noteq> 0xFFFFFFFF \<and> free > 0 then put_at 488 (le_bytes 4 (free - 1)) buf else buf)
          in write_sector ops (fs_info_sector g) (put_at 492 (le_bytes 4 next_free) buf1)))"

definition link_prev :: "'d disk_ops \<Rightarrow> geo \<Rightarrow> nat option \<Rightarrow> nat \<Rightarrow> ('d, unit) io" where
  "link_prev ops g prev c = (case prev of None \<Rightarrow> ok () | Some p \<Rightarrow> fat_set ops g p c)"

text \<open>\<open>let _ = ...\<close>: the result is dropped, the effect stays.\<close>

definition ignoring :: "('d, unit) io \<Rightarrow> ('d, unit) io" where
  "ignoring m d = (Inr (), snd (m d))"

primrec alloc_scan :: "'d disk_ops \<Rightarrow> geo \<Rightarrow> nat option \<Rightarrow> nat list \<Rightarrow> ('d, nat) io" where
  "alloc_scan ops g prev [] = err DiskFull"
| "alloc_scan ops g prev (c # cs) =
     bnd (fat_get ops g c) (\<lambda>v.
       if v = FAT_FREE then
         bnd (fat_set ops g c FAT_EOC) (\<lambda>_.
           bnd (link_prev ops g prev c) (\<lambda>_. bnd (ignoring (update_fsinfo ops g c)) (\<lambda>_. ok c)))
       else alloc_scan ops g prev cs)"

text \<open>\<open>total_clusters + 2\<close> is a \<open>u32\<close>.\<close>

definition alloc_cluster :: "'d disk_ops \<Rightarrow> geo \<Rightarrow> nat option \<Rightarrow> ('d, nat) io" where
  "alloc_cluster ops g prev = alloc_scan ops g prev [2..<(total_clusters g + 2) mod 2 ^ 32]"

section \<open>File data\<close>

definition read_cluster :: "'d disk_ops \<Rightarrow> geo \<Rightarrow> nat \<Rightarrow> ('d, bytes) io" where
  "read_cluster ops g c =
     bnd (cluster_base g c) (\<lambda>s.
       bnd (gather (\<lambda>i. read_sector ops (s + i)) [0..<spc g]) (\<lambda>bs. ok (concat bs)))"

definition read_chain :: "'d disk_ops \<Rightarrow> geo \<Rightarrow> nat \<Rightarrow> ('d, bytes) io" where
  "read_chain ops g start =
     bnd (chain ops g start) (\<lambda>cs. bnd (gather (read_cluster ops g) cs) (\<lambda>bs. ok (concat bs)))"

text \<open>
  The loop over sectors: whole sectors are written, partial ones read, patched and written. Each
  round consumes data, so its length is fuel enough.
\<close>

primrec sector_loop :: "'d disk_ops \<Rightarrow> geo \<Rightarrow> nat \<Rightarrow> nat \<Rightarrow> nat \<Rightarrow> nat \<Rightarrow> bytes \<Rightarrow> ('d, unit) io" where
  "sector_loop ops g 0 base index off data = ok ()"
| "sector_loop ops g (Suc n) base index off data =
     (if data = [] then ok ()
      else if index \<ge> spc g then err IoError
      else
        let len = min (512 - off) (length data) in
        bnd (if off = 0 \<and> len = 512 then write_sector ops (base + index) (take len data)
             else bnd (read_sector ops (base + index)) (\<lambda>buf.
               write_sector ops (base + index) (put_at off (take len data) buf)))
          (\<lambda>_. sector_loop ops g n base (index + 1) 0 (drop len data)))"

definition write_cluster_range :: "'d disk_ops \<Rightarrow> geo \<Rightarrow> nat \<Rightarrow> nat \<Rightarrow> bytes \<Rightarrow> ('d, unit) io" where
  "write_cluster_range ops g c within data =
     bnd (cluster_base g c) (\<lambda>base.
       sector_loop ops g (length data) base (within div 512) (within mod 512) data)"

text \<open>The next cluster of the chain, allocated if there is none.\<close>

definition next_cluster :: "'d disk_ops \<Rightarrow> geo \<Rightarrow> nat \<Rightarrow> ('d, nat) io" where
  "next_cluster ops g c =
     bnd (fat_get ops g c) (\<lambda>nxt. if last_link nxt then alloc_cluster ops g (Some c) else ok nxt)"

primrec walk_to :: "'d disk_ops \<Rightarrow> geo \<Rightarrow> nat \<Rightarrow> nat \<Rightarrow> ('d, nat) io" where
  "walk_to ops g 0 c = ok c"
| "walk_to ops g (Suc n) c = bnd (next_cluster ops g c) (walk_to ops g n)"

primrec data_loop :: "'d disk_ops \<Rightarrow> geo \<Rightarrow> nat \<Rightarrow> nat \<Rightarrow> nat \<Rightarrow> bytes \<Rightarrow> ('d, unit) io" where
  "data_loop ops g 0 c pos data = ok ()"
| "data_loop ops g (Suc n) c pos data =
     (if data = [] then ok ()
      else
        let within = pos mod cluster_size g;
            chunk = min (cluster_size g - within) (length data) in
        bnd (write_cluster_range ops g c within (take chunk data)) (\<lambda>_.
          if chunk < length data
          then bnd (next_cluster ops g c) (\<lambda>c1. data_loop ops g n c1 (pos + chunk) (drop chunk data))
          else ok ()))"

text \<open>\<open>start\<close> is a \<open>&mut u32\<close>: the second component is its value afterwards, also on an error.\<close>

definition write_range ::
  "'d disk_ops \<Rightarrow> geo \<Rightarrow> nat \<Rightarrow> nat \<Rightarrow> bytes \<Rightarrow> 'd \<Rightarrow> ((fs_error + nat) \<times> nat) \<times> 'd" where
  "write_range ops g start off data d =
     (if data = [] then ((Inr off, start), d)
      else
        case (if start < 2 then alloc_cluster ops g None d else (Inr start, d)) of
          (Inl e, d1) \<Rightarrow> ((Inl e, start), d1)
        | (Inr first, d1) \<Rightarrow>
            (case bnd (walk_to ops g (off div cluster_size g) first) (\<lambda>c.
                    bnd (data_loop ops g (length data) c off data) (\<lambda>_. ok (off + length data))) d1 of
               (r, d2) \<Rightarrow> ((r, first), d2)))"


section \<open>A reliable volume\<close>

text \<open>The content of a device as sectors.\<close>

definition sector_of :: "('d \<Rightarrow> nat \<Rightarrow> u8) \<Rightarrow> 'd \<Rightarrow> nat \<Rightarrow> bytes" where
  "sector_of content d s = map (content d) [512 * s ..< 512 * s + 512]"

lemma length_sector [simp]: "length (sector_of content d s) = 512"
  by (simp add: sector_of_def)

lemma sector_nth: "i < 512 \<Longrightarrow> sector_of content d s ! i = content d (512 * s + i)"
  by (simp add: sector_of_def)

text \<open>A block device none of whose requests inside its capacity fails.\<close>

locale reliable_device = block_device ops cap content
  for ops :: "'d disk_ops" and cap :: nat and content :: "'d \<Rightarrow> nat \<Rightarrow> u8" +
  assumes read_works: "0 < len \<Longrightarrow> 512 dvd len \<Longrightarrow> s + len div 512 \<le> cap \<Longrightarrow>
      \<exists>bs d'. rd ops s len d = (Inr bs, d')"
    and write_works: "buf \<noteq> [] \<Longrightarrow> 512 dvd length buf \<Longrightarrow> s + length buf div 512 \<le> cap \<Longrightarrow>
      \<exists>d'. wr ops s buf d = (Inr (), d')"
begin

abbreviation sector :: "'d \<Rightarrow> nat \<Rightarrow> bytes" where
  "sector \<equiv> sector_of content"

lemma read_sector_ok:
  assumes "s < cap"
  obtains d' where "read_sector ops s d = (Inr (sector d s), d')" "sector d' = sector d"
proof -
  obtain bs d' where r: "rd ops s 512 d = (Inr bs, d')"
    using read_works [of 512 s d] assms by auto
  then have "content d' = content d" "bs = sector d s"
    using read_law [OF _ _ _ r] assms by (auto simp: sector_of_def)
  then show thesis using that [of d'] r by (simp add: read_sector_def sector_of_def fun_eq_iff)
qed

lemma write_sector_ok:
  assumes "s < cap" "length buf = 512"
  obtains d' where "write_sector ops s buf d = (Inr (), d')" "sector d' = (sector d)(s := buf)"
proof -
  have ne: "buf \<noteq> []" using assms(2) by auto
  then obtain d' where w: "wr ops s buf d = (Inr (), d')"
    using write_works [of buf s d] assms by auto
  have law: "i < 512 * s \<or> 512 * s + 512 \<le> i \<Longrightarrow> content d' i = content d i"
    "j < 512 \<Longrightarrow> content d' (512 * s + j) = buf ! j" for i j
    using write_law [OF ne _ _ w] assms by auto
  have "sector d' t = ((sector d)(s := buf)) t" for t
  proof (cases "t = s")
    case True
    then show ?thesis using law(2) assms(2) by (intro nth_equalityI) (auto simp: sector_nth)
  next
    case False
    then have "512 * t + i < 512 * s \<or> 512 * s + 512 \<le> 512 * t + i" if "i < 512" for i
      using that by linarith
    then show ?thesis using law(1) False by (intro nth_equalityI) (auto simp: sector_nth)
  qed
  then have "sector d' = (sector d)(s := buf)" by (rule ext)
  then show thesis using that [of d'] w by (simp add: write_sector_def)
qed

end

lemma put_at_length [simp]: "off + length bs \<le> length buf \<Longrightarrow> length (put_at off bs buf) = length buf"
  by (simp add: put_at_def)

lemma put_at_nth:
  assumes "off + length bs \<le> length buf" "i < length buf"
  shows "put_at off bs buf ! i = (if off \<le> i \<and> i < off + length bs then bs ! (i - off) else buf ! i)"
  using assms by (auto simp: put_at_def nth_append min_def)

lemma field32_put_at:
  assumes "off + 4 \<le> length buf" "i + 4 \<le> length buf" "i = off \<or> i + 4 \<le> off \<or> off + 4 \<le> i" "v < 2 ^ 32"
  shows "field32 (put_at off (le_bytes 4 v) buf) i = (if i = off then v else field32 buf i)"
proof -
  have t: "take 4 (drop i (put_at off (le_bytes 4 v) buf))
      = (if i = off then le_bytes 4 v else take 4 (drop i buf))"
    using assms(1-3) by (intro nth_equalityI) (auto simp: put_at_nth)
  show ?thesis using assms(4) by (simp add: field32_def t le_nat_bytes)
qed


section \<open>The volume as a table and cluster contents\<close>

definition fat_of :: "geo \<Rightarrow> (nat \<Rightarrow> bytes) \<Rightarrow> nat \<Rightarrow> nat" where
  "fat_of g S c = field32 (S (fat_start g + c * 4 div 512)) (c * 4 mod 512) mod 2 ^ 28"

definition cluster_of :: "geo \<Rightarrow> (nat \<Rightarrow> bytes) \<Rightarrow> nat \<Rightarrow> bytes" where
  "cluster_of g S c = concat (map (\<lambda>i. S (data_start g + (c - 2) * spc g + i)) [0..<spc g])"

text \<open>All copies of the table are the same.\<close>

definition mirrored :: "geo \<Rightarrow> (nat \<Rightarrow> bytes) \<Rightarrow> bool" where
  "mirrored g S \<longleftrightarrow>
     (\<forall>copy < fat_count g. \<forall>s < fat_size g. S (fat_start g + copy * fat_size g + s) = S (fat_start g + s))"

abbreviation clusters :: "geo \<Rightarrow> nat" where
  "clusters g \<equiv> total_clusters g + 2"

text \<open>A geometry whose areas follow each other inside the device, with an entry for every cluster.\<close>

definition geo_ok :: "geo \<Rightarrow> nat \<Rightarrow> bool" where
  "geo_ok g cap \<longleftrightarrow>
     1 \<le> fat_count g \<and> 0 < spc g \<and> cluster_size g = 512 * spc g \<and>
     fat_start g + fat_count g * fat_size g \<le> data_start g \<and>
     data_start g + total_clusters g * spc g \<le> cap \<and>
     clusters g * 4 \<le> fat_size g * 512 \<and> clusters g \<le> 0x0FFFFFF7 \<and>
     (fs_info_sector g < fat_start g \<or> fs_info_sector g = 0xFFFF)"

text \<open>The abstract volume: the table \<open>f\<close> and the contents \<open>D\<close> of the clusters.\<close>

definition vol :: "geo \<Rightarrow> (nat \<Rightarrow> bytes) \<Rightarrow> (nat \<Rightarrow> nat) \<Rightarrow> (nat \<Rightarrow> bytes) \<Rightarrow> bool" where
  "vol g S f D \<longleftrightarrow>
     mirrored g S \<and> (\<forall>c < clusters g. fat_of g S c = f c) \<and>
     (\<forall>c. 2 \<le> c \<and> c < clusters g \<longrightarrow> cluster_of g S c = D c)"

lemma entry_offset: "c * 4 mod 512 = c mod 128 * 4" for c :: nat
  using mod_mult_mult2 [of c 4 128] by simp

lemma entry_place:
  assumes "geo_ok g cap" "c < clusters g"
  shows "c * 4 div 512 < fat_size g" "c * 4 mod 512 + 4 \<le> 512" "c * 4 = 512 * (c * 4 div 512) + c * 4 mod 512"
proof -
  have "c * 4 < fat_size g * 512" using assms by (simp add: geo_ok_def)
  then show "c * 4 div 512 < fat_size g" by (simp add: less_mult_imp_div_less)
  have "c mod 128 < 128" by simp
  then show "c * 4 mod 512 + 4 \<le> 512" unfolding entry_offset by linarith
  show "c * 4 = 512 * (c * 4 div 512) + c * 4 mod 512" by (rule mult_div_mod_eq [symmetric])
qed

lemma copy_place:
  assumes "geo_ok g cap" "copy < fat_count g" "s < fat_size g"
  shows "fat_start g + copy * fat_size g + s < data_start g" "data_start g \<le> cap"
proof -
  have "copy * fat_size g + s < Suc copy * fat_size g" using assms(3) by simp
  also have "\<dots> \<le> fat_count g * fat_size g" using assms(2) by (intro mult_le_mono1) simp
  finally show "fat_start g + copy * fat_size g + s < data_start g" using assms(1) by (simp add: geo_ok_def)
  show "data_start g \<le> cap" using assms(1) by (simp add: geo_ok_def)
qed

lemma data_place:
  assumes "geo_ok g cap" "2 \<le> c" "c < clusters g" "i < spc g"
  shows "data_start g + (c - 2) * spc g + i < cap"
proof -
  have "(c - 2) * spc g + i < Suc (c - 2) * spc g" using assms(4) by simp
  also have "\<dots> \<le> total_clusters g * spc g" using assms(2,3) by (intro mult_le_mono1) simp
  finally show ?thesis using assms(1) by (simp add: geo_ok_def)
qed

text \<open>Sectors of the table and of the clusters are disjoint, and those of different clusters are too.\<close>

lemma div_unique: "k < n \<Longrightarrow> k' < n \<Longrightarrow> a * n + k = a' * n + k' \<Longrightarrow> a = a' \<and> k = k'" for n :: nat
  by (metis add.commute div_mult_self1 mod_mult_self1 div_less mod_less less_zeroE gr0I add_0)

lemma vol_outside:
  assumes "geo_ok g cap" "vol g S f D"
    "\<And>s. fat_start g \<le> s \<Longrightarrow> S' s = S s"
  shows "vol g S' f D"
proof -
  have "fat_start g \<le> data_start g" using assms(1) by (simp add: geo_ok_def)
  then have "fat_of g S' c = fat_of g S c" "cluster_of g S' c = cluster_of g S c" for c
    using assms(3) by (simp_all add: fat_of_def cluster_of_def)
  moreover have "mirrored g S'" using assms(2,3) by (simp add: vol_def mirrored_def)
  ultimately show ?thesis using assms(2) by (simp add: vol_def)
qed

text \<open>Writing one sector of the table to all its copies.\<close>

lemma vol_fat_update:
  assumes "geo_ok g cap" "vol g S f D" "c < clusters g" "k = c * 4 div 512" "e = c * 4 mod 512"
    "\<And>s. length (S s) = 512" "old = field32 (S (fat_start g + k)) e"
    "buf = put_at e (le_bytes 4 (old div 2 ^ 28 * 2 ^ 28 + v mod 2 ^ 28)) (S (fat_start g + k))"
    "\<And>s. S' s = (if \<exists>copy < fat_count g. s = fat_start g + copy * fat_size g + k then buf else S s)"
  shows "vol g S' (f(c := v mod 2 ^ 28)) D"
proof -
  note place = entry_place [OF assms(1,3), folded assms(4,5)]
  have hit: "(\<exists>copy' < fat_count g. fat_start g + copy * fat_size g + s = fat_start g + copy' * fat_size g + k)
      \<longleftrightarrow> s = k" if "copy < fat_count g" "s < fat_size g" for copy s
    using div_unique [OF that(2) place(1)] that by (metis add.assoc add_left_cancel)
  have copies: "S' (fat_start g + copy * fat_size g + s) = (if s = k then buf else S (fat_start g + copy * fat_size g + s))"
    if "copy < fat_count g" "s < fat_size g" for copy s
    unfolding assms(9) hit [OF that] ..
  have first: "S' (fat_start g + s) = (if s = k then buf else S (fat_start g + s))" if "s < fat_size g" for s
    using copies [of 0 s] that assms(1) by (simp add: geo_ok_def)
  have "mirrored g S'"
    using assms(2) unfolding mirrored_def vol_def by (simp add: copies first)
  moreover have "fat_of g S' c' = (f(c := v mod 2 ^ 28)) c'" if c': "c' < clusters g" for c'
  proof (cases "c' * 4 div 512 = k")
    case True
    note place' = entry_place [OF assms(1) c']
    have "old < 2 ^ 32"
      using le_nat_bound [of "take 4 (drop e (S (fat_start g + k)))"] assms(6) place(2)
      by (simp add: assms(7) field32_def)
    then have "old div 2 ^ 28 < 16" by (intro less_mult_imp_div_less) simp
    moreover have "v mod 2 ^ 28 < 2 ^ 28" by (rule mod_less_divisor) simp
    ultimately have v: "old div 2 ^ 28 * 2 ^ 28 + v mod 2 ^ 28 < 2 ^ 32" by simp
    have "c' * 4 mod 512 = e \<or> c' * 4 mod 512 + 4 \<le> e \<or> e + 4 \<le> c' * 4 mod 512"
      unfolding assms(5) entry_offset by (cases "c mod 128" "c' mod 128" rule: linorder_cases) simp_all
    then have "field32 buf (c' * 4 mod 512)
        = (if c' * 4 mod 512 = e then old div 2 ^ 28 * 2 ^ 28 + v mod 2 ^ 28
           else field32 (S (fat_start g + k)) (c' * 4 mod 512))"
      unfolding assms(8) using place(2) place'(2) assms(6) v by (intro field32_put_at) simp_all
    moreover have "c' = c" if "c' * 4 mod 512 = e"
    proof -
      have "c' * 4 = 512 * (c' * 4 div 512) + c' * 4 mod 512" by (rule place'(3))
      also have "\<dots> = 512 * k + e" by (simp only: True that)
      also have "\<dots> = c * 4" by (rule place(3) [symmetric])
      finally show ?thesis by simp
    qed
    then have "c' * 4 mod 512 = e \<longleftrightarrow> c' = c" using assms(5) by blast
    moreover have "fat_of g S c' = f c'" using assms(2) c' by (simp add: vol_def)
    moreover have "fat_of g S' c' = field32 buf (c' * 4 mod 512) mod 2 ^ 28"
      unfolding fat_of_def True using first [OF place(1)] by simp
    moreover have "fat_of g S c' = field32 (S (fat_start g + k)) (c' * 4 mod 512) mod 2 ^ 28"
      unfolding fat_of_def True ..
    moreover have "(x * 2 ^ 28 + v mod 2 ^ 28) mod 2 ^ 28 = v mod 2 ^ 28" for x :: nat
      by (simp only: mod_mult_self3 mod_mod_trivial)
    ultimately show ?thesis by (simp only: fun_upd_apply split: if_split) blast
  next
    case False
    then have "c' \<noteq> c" using assms(4) by auto
    moreover have "fat_of g S c' = f c'" using assms(2) c' by (simp add: vol_def)
    ultimately show ?thesis
      using False first [of "c' * 4 div 512"] entry_place(1) [OF assms(1) c'] by (simp add: fat_of_def)
  qed
  moreover have "cluster_of g S' c' = cluster_of g S c'" for c'
  proof -
    have "S' (data_start g + j) = S (data_start g + j)" for j
      using copy_place(1) [OF assms(1) _ place(1)] unfolding assms(9) by fastforce
    then show ?thesis by (simp add: cluster_of_def add.assoc)
  qed
  ultimately show ?thesis using assms(2) by (simp add: vol_def)
qed


lemma length_concat_blocks: "list_all (\<lambda>x. length x = k) xs \<Longrightarrow> length (concat xs) = k * length xs"
  by (induction xs) auto

lemma put_at_inside:
  "off + length bs \<le> length x \<Longrightarrow> put_at (length A + off) bs (A @ x @ B) = A @ put_at off bs x @ B"
  by (simp add: put_at_def)

lemma concat_put_at:
  assumes "list_all (\<lambda>x. length x = k) xs" "i < length xs" "off + length bs \<le> k"
  shows "concat (xs[i := put_at off bs (xs ! i)]) = put_at (k * i + off) bs (concat xs)"
proof -
  have xs: "xs = take i xs @ xs ! i # drop (Suc i) xs" using assms(2) by (rule id_take_nth_drop)
  have "list_all (\<lambda>x. length x = k) (take i xs)"
    using assms(1) by (auto simp: list_all_iff dest: in_set_takeD)
  then have A: "length (concat (take i xs)) = k * i"
    using assms(2) by (simp add: length_concat_blocks)
  have "off + length bs \<le> length (xs ! i)" using assms by (simp add: list_all_length)
  moreover have "concat xs = concat (take i xs) @ xs ! i @ concat (drop (Suc i) xs)"
    by (subst xs) simp
  moreover have "concat (xs[i := y]) = concat (take i xs) @ y @ concat (drop (Suc i) xs)" for y
    using assms(2) by (simp add: upd_conv_take_nth_drop)
  ultimately show ?thesis using put_at_inside A by metis
qed

lemma put_at_put_at:
  assumes "off + length a + length b \<le> length buf"
  shows "put_at (off + length a) b (put_at off a buf) = put_at off (a @ b) buf"
  using assms by (intro nth_equalityI) (auto simp: put_at_nth nth_append)

lemma put_at_Nil [simp]: "put_at off [] buf = buf"
  by (simp add: put_at_def)

lemma put_at_whole: "length bs = length buf \<Longrightarrow> put_at 0 bs buf = bs"
  by (simp add: put_at_def)

lemma length_cluster_of:
  "(\<And>s. length (S s) = 512) \<Longrightarrow> length (cluster_of g S c) = 512 * spc g"
  unfolding cluster_of_def by (subst length_concat_blocks [where k = 512]) (auto simp: list_all_iff)

lemma vol_data_update:
  assumes "geo_ok g cap" "vol g S f D" "2 \<le> c" "c < clusters g" "i < spc g" "off + length bs \<le> 512"
    "\<And>s. length (S s) = 512" "s = data_start g + (c - 2) * spc g + i"
  shows "vol g (S(s := put_at off bs (S s))) f (D(c := put_at (512 * i + off) bs (D c)))"
proof -
  let ?S = "S(s := put_at off bs (S s))"
  have "fat_start g + copy * fat_size g + t \<noteq> s" if "copy < fat_count g" "t < fat_size g" for copy t
    using copy_place(1) [OF assms(1) that] assms(8) by auto
  then have fat: "?S (fat_start g + copy * fat_size g + t) = S (fat_start g + copy * fat_size g + t)"
    if "copy < fat_count g" "t < fat_size g" for copy t using that by auto
  have first: "?S (fat_start g + t) = S (fat_start g + t)" if "t < fat_size g" for t
    using fat [of 0 t] that assms(1) by (simp add: geo_ok_def)
  have "mirrored g ?S"
    unfolding mirrored_def
  proof (intro allI impI)
    fix copy t assume "copy < fat_count g" "t < fat_size g"
    then show "?S (fat_start g + copy * fat_size g + t) = ?S (fat_start g + t)"
      using fat first assms(2) by (simp only: vol_def mirrored_def)
  qed
  moreover have "fat_of g ?S c' = f c'" if "c' < clusters g" for c'
    using assms(2) that first entry_place(1) [OF assms(1) that] by (simp add: fat_of_def vol_def)
  moreover have "cluster_of g ?S c' = (D(c := put_at (512 * i + off) bs (D c))) c'"
    if c': "2 \<le> c'" "c' < clusters g" for c'
  proof -
    let ?xs = "\<lambda>T c. map (\<lambda>i. T (data_start g + (c - 2) * spc g + i)) [0..<spc g]"
    have D: "cluster_of g S c' = D c'" using assms(2) c' by (simp add: vol_def)
    show ?thesis
    proof (cases "c' = c")
      case True
      have "?xs ?S c = (?xs S c)[i := put_at off bs (?xs S c ! i)]"
        using assms(5,8) by (intro nth_equalityI) (auto simp: nth_list_update)
      then have "cluster_of g ?S c = put_at (512 * i + off) bs (cluster_of g S c)"
        unfolding cluster_of_def using assms(5-7) by (subst concat_put_at [symmetric]) (auto simp: list_all_iff)
      then show ?thesis using True D by simp
    next
      case False
      have "data_start g + (c' - 2) * spc g + j \<noteq> s" if "j < spc g" for j
      proof
        assume "data_start g + (c' - 2) * spc g + j = s"
        then have "c' - 2 = c - 2" using div_unique [OF that assms(5)] assms(8) by (metis add.assoc add_left_cancel)
        then show False using False c'(1) assms(3) by simp
      qed
      then have "?xs ?S c' = ?xs S c'" by simp
      then have "cluster_of g ?S c' = cluster_of g S c'" unfolding cluster_of_def by (rule arg_cong)
      then show ?thesis using False D by simp
    qed
  qed
  ultimately show ?thesis using assms(2) by (simp add: vol_def)
qed

section \<open>The operations on the volume\<close>

lemma bnd_simps:
  "m d = (Inr a, d1) \<Longrightarrow> bnd m k d = k a d1" "m d = (Inl e, d1) \<Longrightarrow> bnd m k d = (Inl e, d1)"
  "bnd (ok a) k = k a" "bnd (err e) k = err e"
  by (auto simp: bnd_def ok_def err_def)

locale fat_volume = reliable_device ops cap content
  for ops :: "'d disk_ops" and cap :: nat and content :: "'d \<Rightarrow> nat \<Rightarrow> u8" +
  fixes g :: geo
  assumes geometry: "geo_ok g cap"
begin

abbreviation rel :: "'d \<Rightarrow> (nat \<Rightarrow> nat) \<Rightarrow> (nat \<Rightarrow> bytes) \<Rightarrow> bool" where
  "rel d \<equiv> vol g (sector d)"

lemma fat_get_ok:
  assumes "rel d f D" "c < clusters g"
  obtains d' where "fat_get ops g c d = (Inr (f c), d')" "rel d' f D"
proof -
  have "fat_start g + c * 4 div 512 < cap"
    using copy_place [OF geometry, of 0] entry_place(1) [OF geometry assms(2)] geometry
    by (fastforce simp: geo_ok_def)
  then obtain d' where "read_sector ops (fat_start g + c * 4 div 512) d
      = (Inr (sector d (fat_start g + c * 4 div 512)), d')" "sector d' = sector d"
    by (rule read_sector_ok)
  then show thesis
    using that [of d'] assms by (simp add: fat_get_def bnd_simps(1) ok_def vol_def fat_of_def)
qed

lemma write_copies:
  assumes "\<forall>s \<in> set ss. s < cap" "length buf = 512"
  shows "\<exists>d'. for_each (\<lambda>s. write_sector ops s buf) ss d = (Inr (), d') \<and>
    sector d' = (\<lambda>s. if s \<in> set ss then buf else sector d s)"
  using assms(1)
proof (induction ss arbitrary: d)
  case (Cons s ss)
  obtain d1 where d1: "write_sector ops s buf d = (Inr (), d1)" "sector d1 = (sector d)(s := buf)"
    using write_sector_ok [of s buf d] Cons.prems assms(2) by auto
  then show ?case
    using Cons.IH [of d1] Cons.prems by (auto simp: bnd_simps(1) fun_eq_iff)
qed (simp add: ok_def)

lemma for_each_map: "for_each (\<lambda>x. f (h x)) xs = for_each f (map h xs)"
  by (induction xs) simp_all

lemma fat_set_ok:
  assumes "rel d f D" "c < clusters g"
  obtains d' where "fat_set ops g c v d = (Inr (), d')" "rel d' (f(c := v mod 2 ^ 28)) D"
proof -
  define k e where "k = c * 4 div 512" and "e = c * 4 mod 512"
  note place = entry_place [OF geometry assms(2), folded k_def e_def]
  have one: "1 \<le> fat_count g" using geometry by (simp add: geo_ok_def)
  have in_cap: "fat_start g + copy * fat_size g + k < cap" if "copy < fat_count g" for copy
    using copy_place [OF geometry that place(1)] by simp
  then obtain d1 where d1: "read_sector ops (fat_start g + k) d = (Inr (sector d (fat_start g + k)), d1)"
    "sector d1 = sector d"
    using read_sector_ok [of "fat_start g + k" d] one by (metis One_nat_def add_0_right less_eq_Suc_le mult_0)
  define old where "old = field32 (sector d (fat_start g + k)) e"
  define buf where "buf = put_at e (le_bytes 4 (old div 2 ^ 28 * 2 ^ 28 + v mod 2 ^ 28)) (sector d (fat_start g + k))"
  have len: "length buf = 512" using place(2) by (simp add: buf_def)
  let ?ss = "map (\<lambda>copy. fat_start g + copy * fat_size g + k) [0..<fat_count g]"
  obtain d2 where d2: "for_each (\<lambda>s. write_sector ops s buf) ?ss d1 = (Inr (), d2)"
    "sector d2 = (\<lambda>s. if s \<in> set ?ss then buf else sector d1 s)"
    using write_copies [OF _ len, of ?ss d1] in_cap by fastforce
  have "fat_set ops g c v d = (Inr (), d2)"
    unfolding fat_set_def Let_def k_def [symmetric] e_def [symmetric] bnd_simps(1) [of "read_sector ops (fat_start g + k)" d, OF d1(1)]
      old_def [symmetric] buf_def [symmetric] max_absorb1 [OF one]
      for_each_map [where h = "\<lambda>copy. fat_start g + copy * fat_size g + k" and f = "\<lambda>s. write_sector ops s buf"]
    by (rule d2(1))
  moreover have "rel d2 (f(c := v mod 2 ^ 28)) D"
    by (rule vol_fat_update [OF geometry assms k_def e_def length_sector old_def buf_def])
      (use d1(2) d2(2) in auto)
  ultimately show thesis by (rule that)
qed

end


section \<open>Chains in the table\<close>

fun links :: "(nat \<Rightarrow> nat) \<Rightarrow> nat list \<Rightarrow> bool" where
  "links f [] = True"
| "links f [c] = is_end_of_chain (f c)"
| "links f (c # c' # cs) \<longleftrightarrow> f c = c' \<and> links f (c' # cs)"

text \<open>\<open>cs\<close> are the clusters of a file that starts at \<open>start\<close> (an empty file starts below 2).\<close>

definition owns :: "geo \<Rightarrow> (nat \<Rightarrow> nat) \<Rightarrow> nat \<Rightarrow> nat list \<Rightarrow> bool" where
  "owns g f start cs \<longleftrightarrow>
     (if cs = [] then start < 2
      else hd cs = start \<and> distinct cs \<and> list_all (\<lambda>c. 2 \<le> c \<and> c < clusters g) cs \<and> links f cs)"

definition free_clusters :: "geo \<Rightarrow> (nat \<Rightarrow> nat) \<Rightarrow> nat set" where
  "free_clusters g f = {c. 2 \<le> c \<and> c < clusters g \<and> f c = 0}"

lemma links_cong: "(\<And>c. c \<in> set cs \<Longrightarrow> f c = f' c) \<Longrightarrow> links f cs = links f' cs"
  by (induction f cs rule: links.induct) auto

lemma links_nth: "links f cs \<Longrightarrow> Suc i < length cs \<Longrightarrow> f (cs ! i) = cs ! Suc i"
  by (induction f cs arbitrary: i rule: links.induct) (auto simp: nth_Cons split: nat.splits)

lemma links_last: "links f cs \<Longrightarrow> cs \<noteq> [] \<Longrightarrow> is_end_of_chain (f (last cs))"
  by (induction f cs rule: links.induct) auto

lemma links_snoc:
  "links f cs \<Longrightarrow> cs \<noteq> [] \<Longrightarrow> distinct (cs @ [n]) \<Longrightarrow> is_end_of_chain v \<Longrightarrow>
    links (f(n := v, last cs := n)) (cs @ [n])"
proof (induction f cs rule: links.induct)
  case (3 f c c' cs)
  then have "c \<noteq> last (c' # cs)" "c \<noteq> n" by auto
  moreover have "c \<notin> set (c' # cs @ [n])" using "3.prems"(3) by auto
  ultimately show ?case using 3 by auto
qed auto

lemma owns_bounds: "owns g f start cs \<Longrightarrow> c \<in> set cs \<Longrightarrow> 2 \<le> c \<and> c < clusters g"
  by (auto simp: owns_def list_all_iff split: if_splits)

lemma owns_length: "owns g f start cs \<Longrightarrow> length cs \<le> total_clusters g"
proof -
  assume o: "owns g f start cs"
  then have "set cs \<subseteq> {2..<clusters g}" using owns_bounds by auto
  then have "card (set cs) \<le> total_clusters g" using card_mono [of "{2..<clusters g}" "set cs"] by simp
  then show ?thesis using o by (auto simp: owns_def distinct_card split: if_splits)
qed

lemma owns_not_free: "owns g f start cs \<Longrightarrow> c \<in> set cs \<Longrightarrow> f c \<noteq> 0"
proof -
  assume o: "owns g f start cs" and c: "c \<in> set cs"
  then obtain i where i: "i < length cs" "c = cs ! i" by (auto simp: in_set_conv_nth)
  have l: "links f cs" using o c by (auto simp: owns_def split: if_splits)
  show ?thesis
  proof (cases "Suc i < length cs")
    case True
    then have "2 \<le> cs ! Suc i" using owns_bounds [OF o] by simp
    then show ?thesis using links_nth [OF l True] i by simp
  next
    case False
    then have "i = length cs - 1" "cs \<noteq> []" using i(1) by auto
    then have "c = last cs" using i(2) by (simp add: last_conv_nth)
    moreover have "is_end_of_chain (f (last cs))" using links_last [OF l \<open>cs \<noteq> []\<close>] .
    ultimately show ?thesis by (simp add: is_end_of_chain_def)
  qed
qed

lemma free_clusters_finite [simp]: "finite (free_clusters g f)"
  unfolding free_clusters_def by (rule finite_subset [of _ "{..<clusters g}"]) auto

text \<open>How a file may grow: clusters that were free are appended, nothing else of the table changes.\<close>

definition grown :: "geo \<Rightarrow> nat \<Rightarrow> (nat \<Rightarrow> nat) \<Rightarrow> nat list \<Rightarrow> (nat \<Rightarrow> nat) \<Rightarrow> nat list \<Rightarrow> bool" where
  "grown g start f cs f' cs' \<longleftrightarrow>
     owns g f' start cs' \<and> (\<exists>new. cs' = cs @ new \<and> set new \<subseteq> free_clusters g f) \<and>
     (\<forall>c. c \<notin> set cs' \<longrightarrow> f' c = f c) \<and>
     card (free_clusters g f') + length cs' = card (free_clusters g f) + length cs"

text \<open>The table after an allocation.\<close>

definition marked :: "(nat \<Rightarrow> nat) \<Rightarrow> nat option \<Rightarrow> nat \<Rightarrow> nat \<Rightarrow> nat" where
  "marked f prev c = (case prev of None \<Rightarrow> f(c := FAT_EOC) | Some p \<Rightarrow> f(c := FAT_EOC, p := c))"

lemma grown_refl: "owns g f start cs \<Longrightarrow> grown g start f cs f cs"
  by (simp add: grown_def)

lemma grown_trans:
  assumes "grown g start f cs f1 cs1" "grown g start f1 cs1 f2 cs2"
  shows "grown g start f cs f2 cs2"
proof -
  obtain new1 new2 where n: "cs1 = cs @ new1" "set new1 \<subseteq> free_clusters g f"
    "cs2 = cs1 @ new2" "set new2 \<subseteq> free_clusters g f1"
    using assms by (auto simp: grown_def)
  have "distinct cs2" using assms(2) by (auto simp: grown_def owns_def split: if_splits)
  then have "f1 c = f c" if "c \<in> set new2" for c
    using assms(1) n(3) that by (auto simp: grown_def)
  then have "set new2 \<subseteq> free_clusters g f" using n(4) by (auto simp: free_clusters_def)
  then show ?thesis using assms n by (auto simp: grown_def)
qed

lemma grown_append:
  assumes "owns g f start cs" "cs \<noteq> []" "n \<in> free_clusters g f" "is_end_of_chain v"
  shows "grown g start f cs (f(n := v, last cs := n)) (cs @ [n])"
proof -
  have n: "2 \<le> n" "n < clusters g" "f n = 0" using assms(3) by (auto simp: free_clusters_def)
  have new: "n \<notin> set cs" using owns_not_free [OF assms(1)] n(3) by blast
  have v: "v \<noteq> 0" "n \<noteq> 0" using assms(4) n by (auto simp: is_end_of_chain_def)
  have o: "hd cs = start" "distinct cs" "list_all (\<lambda>c. 2 \<le> c \<and> c < clusters g) cs" "links f cs"
    using assms(1,2) by (auto simp: owns_def)
  have "owns g (f(n := v, last cs := n)) start (cs @ [n])"
    using links_snoc [OF o(4) assms(2) _ assms(4), of n] o new n assms(2) by (simp add: owns_def)
  moreover have "f (last cs) \<noteq> 0" using owns_not_free [OF assms(1)] assms(2) by simp
  then have "free_clusters g (f(n := v, last cs := n)) = free_clusters g f - {n}"
    using v assms(2) by (auto simp: free_clusters_def)
  then have "Suc (card (free_clusters g (f(n := v, last cs := n)))) = card (free_clusters g f)"
    using card_Suc_Diff1 [OF free_clusters_finite assms(3)] by (simp only:)
  ultimately show ?thesis using assms(2,3) by (auto simp: grown_def)
qed


context fat_volume
begin

lemma small: "clusters g < 2 ^ 28" "c < clusters g \<Longrightarrow> \<not> is_end_of_chain c" "clusters g mod 2 ^ 32 = clusters g"
  using geometry by (simp_all add: geo_ok_def is_end_of_chain_def)

lemma chain_loop_ok:
  assumes "rel d f D" "cs \<noteq> []" "links f cs" "list_all (\<lambda>c. 2 \<le> c \<and> c < clusters g) cs" "length cs \<le> n"
  shows "\<exists>d'. chain_loop ops g n (hd cs) d = (Inr cs, d') \<and> rel d' f D"
  using assms
proof (induction f cs arbitrary: n d rule: links.induct)
  case (2 f c)
  then obtain m where m: "n = Suc m" by (cases n) auto
  obtain d1 where "fat_get ops g c d = (Inr (f c), d1)" "rel d1 f D"
    using fat_get_ok 2 by (metis list.pred_inject(2))
  then show ?case using 2 by (auto simp: m bnd_simps(1) last_link_def ok_def)
next
  case (3 f c c' cs)
  then obtain m where m: "n = Suc m" by (cases n) auto
  obtain d1 where d1: "fat_get ops g c d = (Inr (f c), d1)" "rel d1 f D"
    using fat_get_ok "3.prems" by (metis list.pred_inject(2))
  moreover have "\<not> last_link c'" using "3.prems"(4) small(2) by (simp add: last_link_def)
  moreover have "f c = c'" using "3.prems"(3) by simp
  moreover obtain d2 where "chain_loop ops g m c' d1 = (Inr (c' # cs), d2)" "rel d2 f D"
    using "3.IH" [of d1 m] d1(2) "3.prems" m by auto
  ultimately show ?case by (auto simp: m bnd_simps(1) ok_def)
qed simp

lemma chain_ok:
  assumes "rel d f D" "owns g f start cs"
  obtains d' where "chain ops g start d = (Inr cs, d')" "rel d' f D"
proof (cases "cs = []")
  case True
  then show thesis using that [of d] assms by (simp add: chain_def owns_def ok_def)
next
  case False
  then have o: "hd cs = start" "list_all (\<lambda>c. 2 \<le> c \<and> c < clusters g) cs" "links f cs"
    using assms(2) by (auto simp: owns_def)
  then have "\<not> start < 2" using False by (cases cs) auto
  moreover obtain d' where "chain_loop ops g (total_clusters g + 2 + 1) (hd cs) d = (Inr cs, d')" "rel d' f D"
    using chain_loop_ok [OF assms(1) False o(3,2), of "total_clusters g + 2 + 1"] owns_length [OF assms(2)] by auto
  ultimately show thesis using that o(1) by (simp add: chain_def)
qed

lemma free_each_ok:
  assumes "rel d f D" "\<forall>c \<in> set cs. c < clusters g"
  shows "\<exists>d'. for_each (\<lambda>c. fat_set ops g c FAT_FREE) cs d = (Inr (), d') \<and>
    rel d' (\<lambda>c. if c \<in> set cs then 0 else f c) D"
  using assms
proof (induction cs arbitrary: d f)
  case (Cons c cs)
  obtain d1 where d1: "fat_set ops g c FAT_FREE d = (Inr (), d1)" "rel d1 (f(c := FAT_FREE mod 2 ^ 28)) D"
    using fat_set_ok [OF Cons.prems(1)] Cons.prems(2) by (metis list.set_intros(1))
  obtain d2 where "for_each (\<lambda>c. fat_set ops g c FAT_FREE) cs d1 = (Inr (), d2)"
    "rel d2 (\<lambda>x. if x \<in> set cs then 0 else (f(c := FAT_FREE mod 2 ^ 28)) x) D"
    using Cons.IH [OF d1(2)] Cons.prems(2) by auto
  moreover have "(\<lambda>x. if x \<in> set cs then 0 else (f(c := FAT_FREE mod 2 ^ 28)) x)
      = (\<lambda>x. if x \<in> set (c # cs) then 0 else f x)"
    by (auto simp: FAT_FREE_def)
  ultimately show ?case using d1(1) by (auto simp: bnd_simps(1))
qed (simp add: ok_def)

lemma free_chain_ok:
  assumes "rel d f D" "owns g f start cs"
  shows "\<exists>d'. free_chain ops g start d = (Inr (), d') \<and> rel d' (\<lambda>c. if c \<in> set cs then 0 else f c) D"
proof -
  obtain d1 where "chain ops g start d = (Inr cs, d1)" "rel d1 f D" using chain_ok [OF assms] .
  then show ?thesis
    using free_each_ok [of d1 f D cs] owns_bounds [OF assms(2)] by (auto simp: free_chain_def bnd_simps(1))
qed

lemma update_fsinfo_rel:
  assumes "rel d f D"
  shows "rel (snd (update_fsinfo ops g c d)) f D"
proof (cases "fs_info_sector g = 0 \<or> fs_info_sector g = 0xFFFF")
  case True
  then show ?thesis using assms by (simp add: update_fsinfo_def ok_def)
next
  case False
  let ?s = "fs_info_sector g"
  have s: "?s < fat_start g" "?s < cap"
    using False geometry copy_place(2) [OF geometry, of 0 0] by (auto simp: geo_ok_def)
  obtain d1 where d1: "read_sector ops ?s d = (Inr (sector d ?s), d1)" "sector d1 = sector d"
    using read_sector_ok [OF s(2)] .
  have r1: "rel d1 f D" using assms d1(2) by simp
  have w: "rel (snd (write_sector ops ?s buf d1)) f D" if "length buf = 512" for buf
  proof -
    obtain d2 where "write_sector ops ?s buf d1 = (Inr (), d2)" "sector d2 = (sector d1)(?s := buf)"
      using write_sector_ok [OF s(2) \<open>length buf = 512\<close>] .
    then show ?thesis using vol_outside [OF geometry r1, of "sector d2"] s(1) by simp
  qed
  have "length (put_at 488 (le_bytes 4 v) (sector d ?s)) = 512" for v by simp
  then show ?thesis
    using False d1(1) r1 w unfolding update_fsinfo_def by (auto simp: bnd_simps(1) ok_def Let_def)
qed

lemma alloc_scan_ok:
  assumes "rel d f D" "\<forall>c \<in> set cs. c < clusters g" "\<And>p. prev = Some p \<Longrightarrow> p < clusters g"
  shows "(case find (\<lambda>c. f c = 0) cs of
      None \<Rightarrow> \<exists>d'. alloc_scan ops g prev cs d = (Inl DiskFull, d') \<and> rel d' f D
    | Some c \<Rightarrow> \<exists>d'. alloc_scan ops g prev cs d = (Inr c, d') \<and>
        rel d' (marked f prev c) D)"
  using assms(1,2)
proof (induction cs arbitrary: d)
  case (Cons c cs)
  obtain d1 where d1: "fat_get ops g c d = (Inr (f c), d1)" "rel d1 f D"
    using fat_get_ok Cons.prems by (metis list.set_intros(1))
  show ?case
  proof (cases "f c = 0")
    case True
    have "FAT_EOC mod 2 ^ 28 = FAT_EOC" by (simp add: FAT_EOC_def)
    then obtain d2 where d2: "fat_set ops g c FAT_EOC d1 = (Inr (), d2)" "rel d2 (f(c := FAT_EOC)) D"
      using fat_set_ok [OF d1(2)] Cons.prems(2) by (metis list.set_intros(1))
    let ?f = "marked f prev c"
    have "\<exists>d3. link_prev ops g prev c d2 = (Inr (), d3) \<and> rel d3 ?f D"
    proof (cases prev)
      case None
      then show ?thesis using d2 by (simp add: link_prev_def ok_def marked_def)
    next
      case (Some p)
      have "c < clusters g" using Cons.prems(2) by simp
      then have "c mod 2 ^ 28 = c" using small(1) by (meson less_trans mod_less)
      then show ?thesis using fat_set_ok [OF d2(2) assms(3), OF Some, of c] Some by (auto simp: link_prev_def marked_def)
    qed
    then obtain d3 where d3: "link_prev ops g prev c d2 = (Inr (), d3)" "rel d3 ?f D" by blast
    then show ?thesis
      using True d1(1) d2(1) update_fsinfo_rel [OF d3(2), of c]
      by (simp add: bnd_simps(1) FAT_FREE_def ignoring_def ok_def bnd_def)
  next
    case False
    then show ?thesis
      using d1 Cons.IH [OF d1(2)] Cons.prems by (simp add: bnd_simps(1) FAT_FREE_def split: option.splits)
  qed
qed (simp add: err_def)

lemma alloc_cluster_ok:
  assumes "rel d f D" "\<And>p. prev = Some p \<Longrightarrow> p < clusters g"
  shows "(case find (\<lambda>c. f c = 0) [2..<clusters g] of
      None \<Rightarrow> \<exists>d'. alloc_cluster ops g prev d = (Inl DiskFull, d') \<and> rel d' f D
    | Some c \<Rightarrow> \<exists>d'. alloc_cluster ops g prev d = (Inr c, d') \<and>
        rel d' (marked f prev c) D)"
  unfolding alloc_cluster_def small(3) by (rule alloc_scan_ok [OF assms(1) _ assms(2)]) auto

end


section \<open>Reading and writing data\<close>

context fat_volume
begin

lemma cluster_base_ok: "2 \<le> c \<Longrightarrow> cluster_base g c = ok (data_start g + (c - 2) * spc g)"
  by (simp add: cluster_base_def cluster_to_sector_def)

lemma gather_ok:
  assumes "\<And>x d. x \<in> set xs \<Longrightarrow> P d \<Longrightarrow> \<exists>d'. h x d = (Inr (v x), d') \<and> P d'" "P d"
  shows "\<exists>d'. gather h xs d = (Inr (map v xs), d') \<and> P d'"
  using assms
proof (induction xs arbitrary: d)
  case (Cons x xs)
  obtain d1 where d1: "h x d = (Inr (v x), d1)" "P d1" using Cons.prems by fastforce
  then obtain d2 where "gather h xs d1 = (Inr (map v xs), d2)" "P d2"
    using Cons.IH [of d1] Cons.prems(1) by (metis list.set_intros(2))
  then show ?case using d1 by (auto simp: bnd_simps(1) ok_def)
qed (simp add: ok_def)

lemma read_cluster_ok:
  assumes "rel d f D" "2 \<le> c" "c < clusters g"
  shows "\<exists>d'. read_cluster ops g c d = (Inr (D c), d') \<and> rel d' f D"
proof -
  let ?s = "data_start g + (c - 2) * spc g"
  have "\<exists>d2. read_sector ops (?s + i) d1 = (Inr (sector d (?s + i)), d2) \<and> sector d2 = sector d"
    if "i \<in> set [0..<spc g]" "sector d1 = sector d" for i d1
    using read_sector_ok [of "?s + i" d1] data_place [OF geometry assms(2,3), of i] that by fastforce
  then obtain d' where "gather (\<lambda>i. read_sector ops (?s + i)) [0..<spc g] d
      = (Inr (map (\<lambda>i. sector d (?s + i)) [0..<spc g]), d')" "sector d' = sector d"
    using gather_ok [of "[0..<spc g]" "\<lambda>d'. sector d' = sector d" "\<lambda>i. read_sector ops (?s + i)"
        "\<lambda>i. sector d (?s + i)" d] by auto
  moreover have "cluster_of g (sector d) c = D c" using assms by (simp add: vol_def)
  ultimately show ?thesis
    using assms(1) by (simp add: read_cluster_def cluster_base_ok [OF assms(2)] bnd_simps(1,3) ok_def cluster_of_def)
qed

lemma read_chain_ok:
  assumes "rel d f D" "owns g f start cs"
  shows "\<exists>d'. read_chain ops g start d = (Inr (concat (map D cs)), d') \<and> rel d' f D"
proof -
  obtain d1 where d1: "chain ops g start d = (Inr cs, d1)" "rel d1 f D" using chain_ok [OF assms] .
  obtain d2 where "gather (read_cluster ops g) cs d1 = (Inr (map D cs), d2)" "rel d2 f D"
    using gather_ok [of cs "\<lambda>d. rel d f D" "read_cluster ops g" D d1] read_cluster_ok owns_bounds [OF assms(2)] d1(2)
    by blast
  then show ?thesis using d1(1) by (auto simp: read_chain_def bnd_simps(1) ok_def)
qed

lemma sector_loop_Nil: "sector_loop ops g n base index off [] = ok ()"
  by (cases n) simp_all

lemma sector_loop_ok:
  assumes "rel d f D" "2 \<le> c" "c < clusters g" "length data \<le> n" "off < 512"
    "512 * index + off + length data \<le> 512 * spc g"
  shows "\<exists>d'. sector_loop ops g n (data_start g + (c - 2) * spc g) index off data d = (Inr (), d') \<and>
    rel d' f (D(c := put_at (512 * index + off) data (D c)))"
  using assms(1,4-6)
proof (induction n arbitrary: d D index off data)
  case (Suc n)
  let ?base = "data_start g + (c - 2) * spc g"
  show ?case
  proof (cases "data = []")
    case True
    then show ?thesis using Suc.prems(1) by (simp add: ok_def)
  next
    case False
    define len where "len = min (512 - off) (length data)"
    have len: "0 < len" "off + len \<le> 512" "len \<le> length data" "length (take len data) = len"
      using False Suc.prems(3) by (auto simp: len_def)
    then have index: "index < spc g" using Suc.prems(4) by linarith
    let ?D = "D(c := put_at (512 * index + off) (take len data) (D c))"
    let ?buf = "put_at off (take len data) (sector d (?base + index))"
    have s: "?base + index < cap" by (rule data_place [OF geometry assms(2,3) index])
    have step: "\<exists>d1. (if off = 0 \<and> len = 512 then write_sector ops (?base + index) (take len data)
             else bnd (read_sector ops (?base + index)) (\<lambda>buf.
               write_sector ops (?base + index) (put_at off (take len data) buf))) d = (Inr (), d1) \<and>
        sector d1 = (sector d)(?base + index := ?buf)"
    proof (cases "off = 0 \<and> len = 512")
      case True
      then have b: "?buf = take len data" using len(4) by (simp add: put_at_whole)
      have "length (take len data) = 512" using len(4) True by simp
      then obtain d1 where "write_sector ops (?base + index) (take len data) d = (Inr (), d1)"
        "sector d1 = (sector d)(?base + index := take len data)" using write_sector_ok [OF s] by blast
      then show ?thesis unfolding b using True by auto
    next
      case False
      obtain d1 where d1: "read_sector ops (?base + index) d = (Inr (sector d (?base + index)), d1)"
        "sector d1 = sector d" using read_sector_ok [OF s] .
      moreover have "length ?buf = 512" using len(2,4) by simp
      then obtain d2 where "write_sector ops (?base + index) ?buf d1 = (Inr (), d2)"
        "sector d2 = (sector d1)(?base + index := ?buf)" using write_sector_ok [OF s] by blast
      ultimately show ?thesis using False by (auto simp: bnd_simps(1))
    qed
    then obtain d1 where d1: "(if off = 0 \<and> len = 512 then write_sector ops (?base + index) (take len data)
             else bnd (read_sector ops (?base + index)) (\<lambda>buf.
               write_sector ops (?base + index) (put_at off (take len data) buf))) d = (Inr (), d1)"
      "sector d1 = (sector d)(?base + index := ?buf)" by blast
    have r1: "rel d1 f ?D"
      unfolding d1(2) using len(2,4)
      by (intro vol_data_update [OF geometry Suc.prems(1) assms(2,3) index _ length_sector refl]) simp
    have "\<exists>d'. sector_loop ops g n ?base (index + 1) 0 (drop len data) d1 = (Inr (), d') \<and>
        rel d' f (?D(c := put_at (512 * (index + 1) + 0) (drop len data) (?D c)))"
    proof (cases "drop len data = []")
      case True
      then show ?thesis using r1 by (simp add: sector_loop_Nil ok_def)
    next
      case False
      then have "512 * (index + 1) + 0 + length (drop len data) \<le> 512 * spc g"
        using Suc.prems(4) by (auto simp: len_def min_def split: if_splits)
      moreover have "length (drop len data) \<le> n" using Suc.prems(2) len(1) by simp
      ultimately show ?thesis by (intro Suc.IH [OF r1]) simp_all
    qed
    then obtain d2 where d2: "sector_loop ops g n ?base (index + 1) 0 (drop len data) d1 = (Inr (), d2)"
      "rel d2 f (?D(c := put_at (512 * (index + 1) + 0) (drop len data) (?D c)))" by blast
    have "put_at (512 * (index + 1) + 0) (drop len data) (put_at (512 * index + off) (take len data) (D c))
        = put_at (512 * index + off) data (D c)"
    proof (cases "drop len data = []")
      case True
      then have "take len data = data" by simp
      then show ?thesis using True by simp
    next
      case False
      then have "off + len = 512"
        using Suc.prems(3) by (auto simp: len_def min_def split: if_splits)
      then have "512 * (index + 1) + 0 = 512 * index + off + length (take len data)" using len(4) by simp
      moreover have "length (D c) = 512 * spc g"
        using Suc.prems(1) assms(2,3) length_cluster_of [of "sector d" g c] by (simp add: vol_def)
      moreover have "put_at (512 * index + off + length (take len data)) (drop len data)
          (put_at (512 * index + off) (take len data) (D c)) = put_at (512 * index + off) (take len data @ drop len data) (D c)"
        by (rule put_at_put_at) (use Suc.prems(4) len(3) \<open>length (D c) = 512 * spc g\<close> in simp)
      ultimately show ?thesis by (simp only: append_take_drop_id)
    qed
    then have "?D(c := put_at (512 * (index + 1) + 0) (drop len data) (?D c))
        = D(c := put_at (512 * index + off) data (D c))" by simp
    then have "rel d2 f (D(c := put_at (512 * index + off) data (D c)))" using d2(2) by (simp only:)
    moreover have "sector_loop ops g (Suc n) ?base index off data d = (Inr (), d2)"
      using False index d1(1) d2(1) by (simp add: Let_def len_def [symmetric] bnd_def)
    ultimately show ?thesis by blast
  qed
qed (auto simp: ok_def)

lemma write_cluster_ok:
  assumes "rel d f D" "2 \<le> c" "c < clusters g" "within + length data \<le> cluster_size g"
  shows "\<exists>d'. write_cluster_range ops g c within data d = (Inr (), d') \<and>
    rel d' f (D(c := put_at within data (D c)))"
proof -
  have "512 * (within div 512) + within mod 512 = within" by simp
  moreover have "cluster_size g = 512 * spc g" using geometry by (simp add: geo_ok_def)
  ultimately show ?thesis
    using sector_loop_ok [OF assms(1-3) order_refl, of "within mod 512" "within div 512" data] assms(4)
    by (simp add: write_cluster_range_def cluster_base_ok [OF assms(2)] bnd_simps(3))
qed

end


text \<open>How the contents of the clusters change: only those of the file.\<close>

definition only_in :: "nat list \<Rightarrow> (nat \<Rightarrow> bytes) \<Rightarrow> (nat \<Rightarrow> bytes) \<Rightarrow> bool" where
  "only_in cs D D' \<longleftrightarrow> (\<forall>c. c \<notin> set cs \<longrightarrow> D' c = D c)"

lemma grown_length: "grown g start f cs f' cs' \<Longrightarrow> length cs \<le> length cs'"
  by (auto simp: grown_def)

lemma grown_nth: "grown g start f cs f' cs' \<Longrightarrow> i < length cs \<Longrightarrow> cs' ! i = cs ! i"
  by (auto simp: grown_def nth_append)

context fat_volume
begin

lemma find_free: "find (\<lambda>c. f c = 0) [2..<clusters g] = Some c \<Longrightarrow> c \<in> free_clusters g f"
proof -
  assume "find (\<lambda>c. f c = 0) [2..<clusters g] = Some c"
  then have "c \<in> set [2..<clusters g]" "f c = 0" by (auto simp only: find_Some_iff nth_mem)
  then show ?thesis by (auto simp: free_clusters_def)
qed

lemma find_none_free: "find (\<lambda>c. f c = 0) [2..<clusters g] = None \<Longrightarrow> free_clusters g f = {}"
proof -
  assume "find (\<lambda>c. f c = 0) [2..<clusters g] = None"
  then have "f c \<noteq> 0" if "2 \<le> c" "c < clusters g" for c
    using that by (simp only: find_None_iff set_upt) fastforce
  then show ?thesis unfolding free_clusters_def by blast
qed

lemma next_cluster_ok:
  assumes "rel d f D" "owns g f start cs" "i < length cs"
    "Suc i < length cs + card (free_clusters g f)"
  obtains f' cs' d' where "next_cluster ops g (cs ! i) d = (Inr (cs' ! Suc i), d')" "rel d' f' D"
    "grown g start f cs f' cs'" "length cs' = max (length cs) (i + 2)"
proof -
  have c: "2 \<le> cs ! i" "cs ! i < clusters g" using owns_bounds [OF assms(2)] assms(3) by simp_all
  have l: "links f cs" "cs \<noteq> []" using assms(2,3) by (auto simp: owns_def split: if_splits)
  obtain d1 where d1: "fat_get ops g (cs ! i) d = (Inr (f (cs ! i)), d1)" "rel d1 f D"
    using fat_get_ok [OF assms(1) c(2)] .
  show thesis
  proof (cases "Suc i < length cs")
    case True
    then have n: "f (cs ! i) = cs ! Suc i" by (rule links_nth [OF l(1)])
    have "2 \<le> cs ! Suc i" "cs ! Suc i < clusters g" using owns_bounds [OF assms(2)] True by simp_all
    then have "\<not> last_link (cs ! Suc i)" using small(2) by (simp add: last_link_def)
    then show thesis
      using that [of cs d1 f] d1 n grown_refl [OF assms(2)] True
      by (simp add: next_cluster_def bnd_simps(1) ok_def)
  next
    case False
    then have "length cs = Suc i" using assms(3) by simp
    then have last: "cs ! i = last cs" "length cs = Suc i" using l(2) by (simp_all add: last_conv_nth)
    have "last_link (f (cs ! i))" using links_last [OF l] by (simp add: last(1) last_link_def)
    then have eq: "next_cluster ops g (cs ! i) d = alloc_cluster ops g (Some (cs ! i)) d1"
      using d1(1) by (simp add: next_cluster_def bnd_simps(1))
    have "free_clusters g f \<noteq> {}" using assms(4) last(2) by (auto simp: card_gt_0_iff)
    then obtain n where n: "find (\<lambda>c. f c = 0) [2..<clusters g] = Some n"
      using find_none_free by fastforce
    obtain d2 where d2: "alloc_cluster ops g (Some (cs ! i)) d1 = (Inr n, d2)"
      "rel d2 (f(n := FAT_EOC, last cs := n)) D"
      using alloc_cluster_ok [OF d1(2), of "Some (cs ! i)"] c(2) n last(1) by (auto simp: marked_def)
    have "is_end_of_chain FAT_EOC" by (simp add: is_end_of_chain_def FAT_EOC_def)
    then have "grown g start f cs (f(n := FAT_EOC, last cs := n)) (cs @ [n])"
      by (rule grown_append [OF assms(2) l(2) find_free [OF n]])
    then show thesis
      using that [of "cs @ [n]" d2] d2 eq last(2) by (simp add: nth_append)
  qed
qed

lemma walk_ok:
  assumes "rel d f D" "owns g f start cs" "i < length cs" "i + n < length cs + card (free_clusters g f)"
  shows "\<exists>f' cs' d'. walk_to ops g n (cs ! i) d = (Inr (cs' ! (i + n)), d') \<and> rel d' f' D \<and>
    grown g start f cs f' cs' \<and> length cs' = max (length cs) (i + n + 1)"
  using assms
proof (induction n arbitrary: d f cs i)
  case 0
  then show ?case using grown_refl [of g f start cs] by (auto simp: ok_def)
next
  case (Suc n)
  obtain f1 cs1 d1 where n: "next_cluster ops g (cs ! i) d = (Inr (cs1 ! Suc i), d1)" "rel d1 f1 D"
    "grown g start f cs f1 cs1" "length cs1 = max (length cs) (i + 2)"
    by (rule next_cluster_ok [OF Suc.prems(1-3)]) (use Suc.prems(4) in simp_all)
  have "Suc i < length cs1" "owns g f1 start cs1"
    "Suc i + n < length cs1 + card (free_clusters g f1)"
    using n(3,4) Suc.prems(4) by (auto simp: grown_def)
  then obtain f2 cs2 d2 where "walk_to ops g n (cs1 ! Suc i) d1 = (Inr (cs2 ! (Suc i + n)), d2)" "rel d2 f2 D"
    "grown g start f1 cs1 f2 cs2" "length cs2 = max (length cs1) (Suc i + n + 1)"
    using Suc.IH [OF n(2)] by blast
  then show ?case
    using n grown_trans [OF n(3)] by (auto simp: bnd_simps(1) intro!: exI [of _ f2] exI [of _ cs2])
qed

lemma cluster_len: "rel d f D \<Longrightarrow> 2 \<le> c \<Longrightarrow> c < clusters g \<Longrightarrow> length (D c) = cluster_size g"
  using length_cluster_of [of "sector d" g c] geometry by (simp add: vol_def geo_ok_def)

lemma contents_length:
  assumes "rel d f D" "owns g f0 start cs"
  shows "length (concat (map D cs)) = cluster_size g * length cs"
  using length_concat_blocks [where k = "cluster_size g" and xs = "map D cs"] owns_bounds [OF assms(2)]
    cluster_len [OF assms(1)] by (simp add: list_all_iff)

text \<open>Writing inside one cluster of the file is writing inside its contents.\<close>

lemma contents_update:
  assumes "rel d f D" "owns g f0 start cs" "i < length cs" "within + length bs \<le> cluster_size g"
  shows "concat (map (D(cs ! i := put_at within bs (D (cs ! i)))) cs)
    = put_at (cluster_size g * i + within) bs (concat (map D cs))"
proof -
  have "distinct cs" using assms(2,3) by (auto simp: owns_def split: if_splits)
  then have "map (D(cs ! i := put_at within bs (D (cs ! i)))) cs
      = (map D cs)[i := put_at within bs (map D cs ! i)]"
    using assms(3) by (intro nth_equalityI) (auto simp: nth_list_update nth_eq_iff_index_eq)
  moreover have "list_all (\<lambda>x. length x = cluster_size g) (map D cs)"
    using owns_bounds [OF assms(2)] cluster_len [OF assms(1)] by (simp add: list_all_iff)
  ultimately show ?thesis using concat_put_at [of "cluster_size g" "map D cs" i within bs] assms(3,4) by simp
qed

lemma contents_grown:
  assumes "grown g start f cs f' cs'" "\<forall>c. c \<notin> set cs \<longrightarrow> D' c = D c"
  shows "\<exists>rest. concat (map D' cs') = concat (map D' cs) @ rest \<and> concat (map D cs') = concat (map D cs) @ rest"
proof -
  obtain new where n: "cs' = cs @ new" using assms(1) by (auto simp: grown_def)
  have "distinct cs'" using assms(1) by (auto simp: grown_def owns_def split: if_splits)
  then have "map D' new = map D new" using assms(2) n by auto
  then have "concat (map D' new) = concat (map D new)" by (rule arg_cong)
  then show ?thesis unfolding n map_append concat_append by blast
qed

end


lemma put_at_append: "off + length bs \<le> length A \<Longrightarrow> put_at off bs (A @ rest) = put_at off bs A @ rest"
  by (simp add: put_at_def)

context fat_volume
begin

lemma csz_pos: "0 < cluster_size g"
  using geometry by (simp add: geo_ok_def)

text \<open>Writing a first part inside the known clusters, then the rest, is writing the whole.\<close>

lemma join_writes:
  assumes "rel d f D" "owns g f start cs" "i < length cs" "pos = cluster_size g * i + within"
    "within + length a \<le> cluster_size g" "grown g start f cs f2 cs2"
    "D1 = D(cs ! i := put_at within a (D (cs ! i)))"
    "concat (map D2 cs2) = put_at (pos + length a) b (concat (map D1 cs2))"
    "pos + length a + length b \<le> cluster_size g * length cs2"
  shows "concat (map D2 cs2) = put_at pos (a @ b) (concat (map D cs2))"
proof -
  have "\<forall>c. c \<notin> set cs \<longrightarrow> D1 c = D c" using assms(3,7) by auto
  then obtain rest where rest: "concat (map D1 cs2) = concat (map D1 cs) @ rest"
    "concat (map D cs2) = concat (map D cs) @ rest"
    using contents_grown [OF assms(6)] by blast
  have "concat (map D1 cs) = put_at pos a (concat (map D cs))"
    unfolding assms(4,7) by (rule contents_update [OF assms(1-3,5)])
  moreover have "pos + length a \<le> length (concat (map D cs))"
  proof -
    have "Suc i * cluster_size g \<le> length cs * cluster_size g" using assms(3) by (intro mult_le_mono1) simp
    then show ?thesis unfolding contents_length [OF assms(1,2)] using assms(4,5) by (simp add: mult.commute)
  qed
  ultimately have "concat (map D1 cs2) = put_at pos a (concat (map D cs2))"
    unfolding rest by (simp only: put_at_append)
  moreover have "owns g f2 start cs2" using assms(6) by (simp add: grown_def)
  then have "length (concat (map D cs2)) = cluster_size g * length cs2"
    by (rule contents_length [OF assms(1)])
  ultimately show ?thesis using assms(8,9) put_at_put_at by metis
qed

lemma data_loop_ok:
  assumes "rel d f D" "owns g f start cs" "pos div cluster_size g < length cs" "length data \<le> n" "data \<noteq> []"
    "(pos + length data - 1) div cluster_size g < length cs + card (free_clusters g f)"
  shows "\<exists>f' D' cs' d'. data_loop ops g n (cs ! (pos div cluster_size g)) pos data d = (Inr (), d') \<and>
    rel d' f' D' \<and> grown g start f cs f' cs' \<and>
    length cs' = max (length cs) ((pos + length data - 1) div cluster_size g + 1) \<and> only_in cs' D D' \<and>
    concat (map D' cs') = put_at pos data (concat (map D cs'))"
  using assms
proof (induction n arbitrary: d f D cs pos data)
  case (Suc n)
  define i within where "i = pos div cluster_size g" and "within = pos mod cluster_size g"
  define chunk where "chunk = min (cluster_size g - within) (length data)"
  have pos: "pos = cluster_size g * i + within" and w: "within < cluster_size g"
    using csz_pos by (simp_all add: i_def within_def)
  have i: "i < length cs" using Suc.prems(3) by (simp add: i_def)
  have c: "2 \<le> cs ! i" "cs ! i < clusters g" using owns_bounds [OF Suc.prems(2)] i by simp_all
  have chunk: "0 < chunk" "within + chunk \<le> cluster_size g" "length (take chunk data) = chunk"
    using Suc.prems(5) w by (auto simp: chunk_def)
  define D1 where "D1 = D(cs ! i := put_at within (take chunk data) (D (cs ! i)))"
  obtain d1 where d1: "write_cluster_range ops g (cs ! i) within (take chunk data) d = (Inr (), d1)" "rel d1 f D1"
    using write_cluster_ok [OF Suc.prems(1) c, of within "take chunk data"] chunk by (auto simp: D1_def)
  show ?case
  proof (cases "chunk < length data")
    case False
    then have all: "take chunk data = data" "within + length data \<le> cluster_size g"
      using chunk by (auto simp: chunk_def min_def split: if_splits)
    obtain k where k: "length data = Suc k" using Suc.prems(5) by (cases data) auto
    have "(pos + length data - 1) div cluster_size g = i"
      unfolding pos k using all(2) k by (intro div_nat_eqI) (simp_all add: mult.commute)
    moreover have "concat (map D1 cs) = put_at pos data (concat (map D cs))"
      unfolding D1_def all(1) pos by (rule contents_update [OF Suc.prems(1,2) i all(2)])
    moreover have "only_in cs D D1" using i by (auto simp: only_in_def D1_def)
    moreover have "data_loop ops g (Suc n) (cs ! i) pos data d = (Inr (), d1)"
      using False Suc.prems(5) d1(1)
      by (simp add: Let_def within_def [symmetric] chunk_def [symmetric] bnd_simps(1) ok_def)
    ultimately show ?thesis
      using d1(2) grown_refl [OF Suc.prems(2)] i unfolding i_def [symmetric]
      by (intro exI [of _ f] exI [of _ D1] exI [of _ cs] exI [of _ d1]) simp
  next
    case True
    define rest where "rest = drop chunk data"
    have full: "chunk = cluster_size g - within" using True by (auto simp: chunk_def)
    have pos1: "pos + chunk = cluster_size g * Suc i" using w by (simp add: pos full)
    then have div1: "(pos + chunk) div cluster_size g = Suc i" using csz_pos by simp
    have rest: "rest \<noteq> []" "length rest \<le> n" "pos + chunk + length rest = pos + length data"
      using True chunk(1) Suc.prems(4) by (auto simp: rest_def)
    have "Suc i \<le> (pos + length data - 1) div cluster_size g"
      using div_le_mono [of "pos + chunk" "pos + length data - 1" "cluster_size g"] True div1 by simp
    then have "Suc i < length cs + card (free_clusters g f)" using Suc.prems(6) by simp
    then obtain f1 cs1 d2 where n: "next_cluster ops g (cs ! i) d1 = (Inr (cs1 ! Suc i), d2)" "rel d2 f1 D1"
      "grown g start f cs f1 cs1" "length cs1 = max (length cs) (i + 2)"
      by (rule next_cluster_ok [OF d1(2) Suc.prems(2) i])
    have o1: "owns g f1 start cs1" "length cs1 + card (free_clusters g f1) = length cs + card (free_clusters g f)"
      using n(3) by (auto simp: grown_def)
    have "(pos + chunk) div cluster_size g < length cs1" using n(4) div1 by simp
    moreover have "(pos + chunk + length rest - 1) div cluster_size g < length cs1 + card (free_clusters g f1)"
      unfolding rest(3) using Suc.prems(6) o1(2) by simp
    ultimately obtain f2 D2 cs2 d3 where
      l: "data_loop ops g n (cs1 ! Suc i) (pos + chunk) rest d2 = (Inr (), d3)" "rel d3 f2 D2"
        "grown g start f1 cs1 f2 cs2" "only_in cs2 D1 D2"
        "length cs2 = max (length cs1) ((pos + length data - 1) div cluster_size g + 1)"
        "concat (map D2 cs2) = put_at (pos + chunk) rest (concat (map D1 cs2))"
      using Suc.IH [OF n(2) o1(1) _ rest(2,1), of "pos + chunk"] unfolding div1 rest(3) by blast
    have g2: "grown g start f cs f2 cs2" by (rule grown_trans [OF n(3) l(3)])
    have "i < length cs2" using i grown_length [OF g2] by simp
    then have "only_in cs2 D D2"
      using l(4) grown_nth [OF g2 i] nth_mem unfolding only_in_def D1_def by fastforce
    moreover have "pos + length data \<le> cluster_size g * length cs2"
    proof -
      let ?last = "pos + length data - 1"
      have "?last < cluster_size g * Suc (?last div cluster_size g)"
        using dividend_less_times_div [OF csz_pos, of ?last] by simp
      also have "\<dots> \<le> cluster_size g * length cs2" unfolding l(5) by (intro mult_le_mono2) simp
      finally show ?thesis using Suc.prems(5) by simp
    qed
    then have "concat (map D2 cs2) = put_at pos (take chunk data @ rest) (concat (map D cs2))"
      using chunk rest(3) l(6)
      by (intro join_writes [OF Suc.prems(1,2) i pos _ g2 D1_def]) simp_all
    moreover have "take chunk data @ rest = data" by (simp add: rest_def)
    moreover have "data_loop ops g (Suc n) (cs ! i) pos data d = (Inr (), d3)"
      using True Suc.prems(5) d1(1) n(1) l(1)
      by (simp add: Let_def within_def [symmetric] chunk_def [symmetric] rest_def [symmetric] bnd_simps(1))
    moreover have "length cs2 = max (length cs) ((pos + length data - 1) div cluster_size g + 1)"
      unfolding l(5) n(4) using \<open>Suc i \<le> (pos + length data - 1) div cluster_size g\<close> by linarith
    ultimately show ?thesis
      using l(2) g2 unfolding i_def [symmetric]
      by (intro exI [of _ f2] exI [of _ D2] exI [of _ cs2] exI [of _ d3]) simp
  qed
qed simp

end


context fat_volume
begin

lemma write_range_ok:
  assumes "rel d f D" "owns g f start cs" "data \<noteq> []"
    "(off + length data - 1) div cluster_size g < length cs + card (free_clusters g f)"
  shows "\<exists>f' D' cs' start' d'. write_range ops g start off data d = ((Inr (off + length data), start'), d') \<and>
    rel d' f' D' \<and> grown g start' f cs f' cs' \<and>
    length cs' = max (length cs) ((off + length data - 1) div cluster_size g + 1) \<and> only_in cs' D D' \<and>
    concat (map D' cs') = put_at off data (concat (map D cs'))"
proof -
  let ?last = "(off + length data - 1) div cluster_size g"
  let ?i = "off div cluster_size g"
  obtain k where k: "length data = Suc k" using assms(3) by (cases data) auto
  have il: "?i \<le> ?last" unfolding k by (intro div_le_mono) simp
  have "\<exists>f1 cs1 first d1. (if start < 2 then alloc_cluster ops g None d else (Inr start, d)) = (Inr first, d1) \<and>
      rel d1 f1 D \<and> grown g first f cs f1 cs1 \<and> length cs1 = max (length cs) 1 \<and> cs1 ! 0 = first"
  proof (cases "cs = []")
    case True
    then have start: "start < 2" using assms(2) by (simp add: owns_def)
    have "free_clusters g f \<noteq> {}" using assms(4) True by (auto simp: card_gt_0_iff)
    then obtain n where n: "find (\<lambda>c. f c = 0) [2..<clusters g] = Some n"
      using find_none_free by fastforce
    then obtain d1 where d1: "alloc_cluster ops g None d = (Inr n, d1)" "rel d1 (f(n := FAT_EOC)) D"
      using alloc_cluster_ok [OF assms(1), of None] by (auto simp: marked_def)
    have nf: "n \<in> free_clusters g f" by (rule find_free [OF n])
    then have "free_clusters g (f(n := FAT_EOC)) = free_clusters g f - {n}"
      by (auto simp: free_clusters_def FAT_EOC_def)
    then have "Suc (card (free_clusters g (f(n := FAT_EOC)))) = card (free_clusters g f)"
      using card_Suc_Diff1 [OF free_clusters_finite nf] by (simp only:)
    then have "grown g n f cs (f(n := FAT_EOC)) [n]"
      using nf True by (auto simp: grown_def owns_def free_clusters_def is_end_of_chain_def FAT_EOC_def)
    then show ?thesis using d1 start True by (intro exI [of _ "f(n := FAT_EOC)"] exI [of _ "[n]"]) simp
  next
    case False
    then have "hd cs \<in> set cs" by simp
    moreover have "hd cs = start" using assms(2) False by (simp add: owns_def)
    moreover from calculation have "2 \<le> hd cs" using owns_bounds [OF assms(2)] by blast
    ultimately show ?thesis
      using assms(1) grown_refl [OF assms(2)] False
      by (intro exI [of _ f] exI [of _ cs] exI [of _ start] exI [of _ d]) (auto simp: hd_conv_nth Suc_le_eq)
  qed
  then obtain f1 cs1 first d1 where
    a: "(if start < 2 then alloc_cluster ops g None d else (Inr start, d)) = (Inr first, d1)" "rel d1 f1 D"
      "grown g first f cs f1 cs1" "length cs1 = max (length cs) 1" "cs1 ! 0 = first" by blast
  have o1: "owns g f1 first cs1" "length cs1 + card (free_clusters g f1) = length cs + card (free_clusters g f)"
    using a(3) by (auto simp: grown_def)
  have "0 < length cs1" "0 + ?i < length cs1 + card (free_clusters g f1)"
    using a(4) o1(2) il assms(4) by simp_all
  then obtain f2 cs2 d2 where w: "walk_to ops g ?i (cs1 ! 0) d1 = (Inr (cs2 ! (0 + ?i)), d2)" "rel d2 f2 D"
    "grown g first f1 cs1 f2 cs2" "length cs2 = max (length cs1) (0 + ?i + 1)"
    using walk_ok [OF a(2) o1(1)] by blast
  have o2: "owns g f2 first cs2" "length cs2 + card (free_clusters g f2) = length cs + card (free_clusters g f)"
    using w(3) o1(2) by (auto simp: grown_def)
  have "?i < length cs2" "?last < length cs2 + card (free_clusters g f2)"
    using w(4) o2(2) assms(4) by simp_all
  then obtain f3 D3 cs3 d3 where l: "data_loop ops g (length data) (cs2 ! ?i) off data d2 = (Inr (), d3)"
    "rel d3 f3 D3" "grown g first f2 cs2 f3 cs3" "length cs3 = max (length cs2) (?last + 1)" "only_in cs3 D D3"
    "concat (map D3 cs3) = put_at off data (concat (map D cs3))"
    using data_loop_ok [OF w(2) o2(1) _ order_refl assms(3)] by blast
  have "write_range ops g start off data d = ((Inr (off + length data), first), d3)"
    using assms(3) w(1) l(1) a(5)
    by (simp add: write_range_def a(1) bnd_simps(1) ok_def)
  moreover have "grown g first f cs f3 cs3"
    using grown_trans [OF grown_trans [OF a(3) w(3)] l(3)] .
  moreover have "length cs3 = max (length cs) (?last + 1)"
    unfolding l(4) w(4) a(4) using il by linarith
  ultimately show ?thesis using l(2,5,6) by blast
qed

lemma overwritten:
  assumes "rel d f D" "owns g f0 start cs" "concat (map D' cs) = put_at off data (concat (map D cs))"
    "(off + length data - 1) div cluster_size g < length cs" "data \<noteq> []"
  shows "take (length data) (drop off (concat (map D' cs))) = data"
proof -
  let ?last = "off + length data - 1"
  have "?last < cluster_size g * Suc (?last div cluster_size g)"
    using dividend_less_times_div [OF csz_pos, of ?last] by simp
  also have "\<dots> \<le> cluster_size g * length cs" using assms(4) by (intro mult_le_mono2) simp
  finally have "off + length data \<le> length (concat (map D cs))"
    unfolding contents_length [OF assms(1,2)] using assms(5) by (simp add: Suc_le_eq)
  then show ?thesis unfolding assms(3) by (simp add: put_at_def)
qed

end

section \<open>A volume in memory\<close>

definition demo_geo :: geo where
  "demo_geo = \<lparr>fat_start = 1, fat_count = 2, fat_size = 1, data_start = 3, spc = 1, cluster_size = 512,
     root_cluster = 2, fs_info_sector = 0, total_clusters = 4, volume_label = []\<rparr>"

lemma mem_reliable: "reliable_device (mem_disk n) n (\<lambda>d. d)"
  by (intro reliable_device.intro mem_device reliable_device_axioms.intro)
    (auto simp: mem_disk_def default_disk_def)

interpretation demo: fat_volume "mem_disk 7" 7 "\<lambda>d. d" demo_geo
  by (intro fat_volume.intro mem_reliable fat_volume_axioms.intro) (simp add: geo_ok_def demo_geo_def)

text \<open>A window on a reliable device is one, so a FAT volume can lie in any partition of a disk.\<close>

lemma window_reliable:
  assumes "reliable_device inner cap content" "off + n \<le> cap" "cap \<le> u64_max"
  shows "reliable_device (partition_disk inner off n) n (\<lambda>d i. content d (512 * off + i))"
proof (intro reliable_device.intro window_device [OF _ assms(2,3)] reliable_device_axioms.intro, goal_cases)
  case 1
  show ?case using assms(1) by (simp add: reliable_device_def)
next
  case (2 len s d)
  then show ?case
    using reliable_device.read_works [OF assms(1) 2(1,2), of "off + s" d] assms(2,3)
    by (simp add: partition_disk_def in_window_cases)
next
  case (3 buf s d)
  then show ?case
    using reliable_device.write_works [OF assms(1) 3(1,2), of "off + s" d] assms(2,3)
    by (simp add: partition_disk_def in_window_cases)
qed

interpretation fat_part: fat_volume "partition_disk (mem_disk 64) 8 16" 16 "\<lambda>d i. d (512 * 8 + i)" demo_geo
  by (intro fat_volume.intro window_reliable [OF mem_reliable] fat_volume_axioms.intro)
    (simp_all add: u64_max_def geo_ok_def demo_geo_def)

lemma blank_volume: "vol demo_geo (sector_of (\<lambda>d. d) (\<lambda>_. 0)) (\<lambda>_. 0) (\<lambda>_. replicate 512 0)"
proof -
  have s: "sector_of (\<lambda>d. d) (\<lambda>_. 0) s = replicate 512 0" for s
    by (simp add: sector_of_def map_replicate_const)
  have z: "le_nat (replicate n 0) = 0" for n by (induction n) simp_all
  show ?thesis
    unfolding vol_def mirrored_def fat_of_def cluster_of_def field32_def
    by (simp add: s z demo_geo_def)
qed


section \<open>Properties\<close>

text \<open>
  C23: FAT allocation and release implement their abstract specification. On a reliable device with
  a well-formed geometry, for the volume with table \<open>f\<close> and cluster contents \<open>D\<close> (all copies of the
  table equal): \<open>alloc_cluster\<close> fails with DiskFull exactly when no cluster is free, and otherwise returns
  the lowest free one, marked as the end of a chain and linked from the given predecessor;
  \<open>free_chain\<close> of a file makes exactly its clusters free. Both keep the copies equal and touch
  no cluster's content.
\<close>

theorem fat_alloc_free:
  assumes "fat_volume ops cap content g" "vol g (sector_of content d) f D"
    "\<And>p. prev = Some p \<Longrightarrow> p < clusters g" "owns g f start cs"
  shows "(free_clusters g f = {} \<longrightarrow>
      (\<exists>d'. alloc_cluster ops g prev d = (Inl DiskFull, d') \<and> vol g (sector_of content d') f D)) \<and>
    (free_clusters g f \<noteq> {} \<longrightarrow>
      (\<exists>d' c. alloc_cluster ops g prev d = (Inr c, d') \<and> c = Min (free_clusters g f) \<and>
        vol g (sector_of content d') (marked f prev c) D)) \<and>
    (\<exists>d'. free_chain ops g start d = (Inr (), d') \<and>
      vol g (sector_of content d') (\<lambda>c. if c \<in> set cs then 0 else f c) D)"
proof -
  note fat = fat_volume.alloc_cluster_ok [OF assms(1-3)]
  have min: "c = Min (free_clusters g f)" if found: "find (\<lambda>c. f c = 0) [2..<clusters g] = Some c" for c
  proof (rule Min_eqI [symmetric])
    fix x assume x: "x \<in> free_clusters g f"
    obtain i where i: "i < length [2..<clusters g]" "c = [2..<clusters g] ! i"
      "\<forall>j < i. f ([2..<clusters g] ! j) \<noteq> 0"
      using found unfolding find_Some_iff by blast
    have c: "c = 2 + i" using i(1,2) nth_upt [of 2 i "clusters g"] by (simp del: upt_Suc)
    obtain k where k: "x = 2 + k" "k < clusters g - 2"
      using x by (auto simp: free_clusters_def le_iff_add)
    have "\<not> k < i"
    proof
      assume "k < i"
      then have "f ([2..<clusters g] ! k) \<noteq> 0" using i(3) by blast
      moreover have "[2..<clusters g] ! k = x" using nth_upt [of 2 k "clusters g"] k by simp
      ultimately show False using x by (simp add: free_clusters_def)
    qed
    then show "c \<le> x" using c k by simp
  qed (simp_all add: fat_volume.find_free [OF assms(1) found])
  have freed: "\<exists>d'. free_chain ops g start d = (Inr (), d') \<and>
      vol g (sector_of content d') (\<lambda>c. if c \<in> set cs then 0 else f c) D"
    using fat_volume.free_chain_ok [OF assms(1,2,4)] by auto
  show ?thesis
  proof (cases "find (\<lambda>c. f c = 0) [2..<clusters g]")
    case None
    then have "free_clusters g f = {}" using fat_volume.find_none_free [OF assms(1)] by blast
    then show ?thesis using fat [unfolded None] freed by simp
  next
    case (Some c)
    then have "free_clusters g f \<noteq> {}" using fat_volume.find_free [OF assms(1) Some] by blast
    moreover have "\<exists>d' c. alloc_cluster ops g prev d = (Inr c, d') \<and> c = Min (free_clusters g f) \<and>
        vol g (sector_of content d') (marked f prev c) D"
      using fat [unfolded Some] min [OF Some] by auto
    ultimately show ?thesis using freed by blast
  qed
qed

text \<open>
  C12: Writing a range of a FAT file. For a file that owns the clusters \<open>cs\<close>, if the clusters
  up to the last written byte can be had from the free ones: \<open>write_range\<close> succeeds with the
  new end; the chain keeps its clusters and is extended by free ones to exactly the length needed;
  reading the chain back gives the old contents (with what the new clusters held before)
  overwritten by the data at the offset, so the range reads back as the data; no cluster outside
  the file changes, in the table or in content.
\<close>

theorem fat_write_read:
  assumes "fat_volume ops cap content g" "vol g (sector_of content d) f D" "owns g f start cs"
    "data \<noteq> []" "final = (off + length data - 1) div cluster_size g"
    "final < length cs + card (free_clusters g f)"
  shows "\<exists>f' D' cs' start' d1 bytes d2.
    write_range ops g start off data d = ((Inr (off + length data), start'), d1) \<and>
    read_chain ops g start' d1 = (Inr bytes, d2) \<and> vol g (sector_of content d2) f' D' \<and>
    bytes = put_at off data (concat (map D cs')) \<and> take (length data) (drop off bytes) = data \<and>
    grown g start' f cs f' cs' \<and> length cs' = max (length cs) (final + 1) \<and> only_in cs' D D'"
proof -
  obtain f' D' cs' start' d1 where w:
    "write_range ops g start off data d = ((Inr (off + length data), start'), d1)"
    "vol g (sector_of content d1) f' D'" "grown g start' f cs f' cs'"
    "length cs' = max (length cs) (final + 1)" "only_in cs' D D'"
    "concat (map D' cs') = put_at off data (concat (map D cs'))"
    using fat_volume.write_range_ok [OF assms(1-4), of off] assms(5,6) by auto
  have o: "owns g f' start' cs'" using w(3) by (simp add: grown_def)
  obtain d2 where r: "read_chain ops g start' d1 = (Inr (concat (map D' cs')), d2)"
    "vol g (sector_of content d2) f' D'"
    using fat_volume.read_chain_ok [OF assms(1) w(2) o] by auto
  have "final < length cs'" using w(4) by simp
  then have "take (length data) (drop off (concat (map D' cs'))) = data"
    using fat_volume.overwritten [OF assms(1,2) o w(6) _ assms(4)] assms(5) by simp
  then show ?thesis using w r by blast
qed

lemma demo_volume: "fat_volume (mem_disk 7) 7 (\<lambda>d. d) demo_geo"
  by unfold_locales

lemma demo_free: "free_clusters demo_geo (\<lambda>_. 0) = {2, 3, 4, 5}"
  by (auto simp: free_clusters_def demo_geo_def)

theorem fat_alloc_free_witness:
  "\<exists>d'. alloc_cluster (mem_disk 7) demo_geo None (\<lambda>_. 0) = (Inr 2, d')"
proof -
  have "owns demo_geo (\<lambda>_. 0) 0 []" by (simp add: owns_def)
  then show ?thesis
    using fat_alloc_free [OF demo_volume blank_volume, of None 0 "[]"] unfolding demo_free by auto
qed

theorem fat_write_read_witness:
  "\<exists>start' d1. write_range (mem_disk 7) demo_geo 0 600 [1, 2, 3] (\<lambda>_. 0) = ((Inr 603, start'), d1)"
proof -
  have "owns demo_geo (\<lambda>_. 0) 0 []" by (simp add: owns_def)
  moreover have "(600 + length [1, 2, 3 :: u8] - 1) div cluster_size demo_geo = 1" by (simp add: demo_geo_def)
  ultimately show ?thesis
    using fat_write_read [OF demo_volume blank_volume, of 0 "[]" "[1, 2, 3]" 1 600] unfolding demo_free by auto
qed

end
