(* ===== verification/Rtc.thy ===== *)
theory Rtc
  imports Prelude "HOL-Library.Signed_Division"
begin

text \<open>
  The real time clock (\<open>timer/rtc.rs\<close>): reading the CMOS registers, decoding them, the conversion
  between calendar dates and days since 1970-01-01, and the wall clock. The device is the argument
  \<open>port\<close>, what one access through the index and data ports returns and does. \<open>i64\<close> values are
  integers: every date and every number of days here stays far within the type.
\<close>

section \<open>Reading the registers\<close>

record raw_rtc =
  r_second :: u8
  r_minute :: u8
  r_hour :: u8
  r_day :: u8
  r_month :: u8
  r_year :: u8
  r_century :: u8
  r_status_b :: u8

record rtc_time =
  t_year :: u16
  t_month :: u8
  t_day :: u8
  t_hour :: u8
  t_minute :: u8
  t_second :: u8

text \<open>\<open>cmos_read\<close>: the register number goes to the index port with bit 7 set.\<close>

definition cmos_read :: "(u8 \<Rightarrow> 's \<Rightarrow> u8 \<times> 's) \<Rightarrow> u8 \<Rightarrow> 's \<Rightarrow> u8 \<times> 's" where
  "cmos_read port reg = port (0x80 OR (reg AND 0x7F))"

primrec wait_update :: "nat \<Rightarrow> (u8 \<Rightarrow> 's \<Rightarrow> u8 \<times> 's) \<Rightarrow> 's \<Rightarrow> bool \<times> 's" where
  "wait_update 0 port s = (False, s)"
| "wait_update (Suc n) port s =
     (case cmos_read port 0x0A s of
        (v, s1) \<Rightarrow> if v AND 0x80 = 0 then (True, s1) else wait_update n port s1)"

primrec read_regs :: "(u8 \<Rightarrow> 's \<Rightarrow> u8 \<times> 's) \<Rightarrow> u8 list \<Rightarrow> 's \<Rightarrow> u8 list \<times> 's" where
  "read_regs port [] s = ([], s)"
| "read_regs port (r # rs) s =
     (case cmos_read port r s of
        (v, s1) \<Rightarrow> (case read_regs port rs s1 of (vs, s2) \<Rightarrow> (v # vs, s2)))"

definition raw_of :: "u8 \<Rightarrow> u8 list \<Rightarrow> raw_rtc" where
  "raw_of status_b v = \<lparr>r_second = v ! 0, r_minute = v ! 1, r_hour = v ! 2, r_day = v ! 3,
     r_month = v ! 4, r_year = v ! 5, r_century = v ! 6, r_status_b = status_b\<rparr>"

text \<open>\<open>century_register\<close>: the index from the FADT if it is a usable one.\<close>

definition century_register :: "u8 option \<Rightarrow> u8" where
  "century_register acpi_index =
     (case acpi_index of
        None \<Rightarrow> 0x32
      | Some i \<Rightarrow> if i \<noteq> 0 \<and> i < 0x80 then i else 0x32)"

primrec read_twice :: "nat \<Rightarrow> (u8 \<Rightarrow> 's \<Rightarrow> u8 \<times> 's) \<Rightarrow> u8 list \<Rightarrow> 's \<Rightarrow> raw_rtc option \<times> 's" where
  "read_twice 0 port regs s = (None, s)"
| "read_twice (Suc n) port regs s =
     (case cmos_read port 0x0B s of
        (status_b, s1) \<Rightarrow>
          (case read_regs port regs s1 of
             (a, s2) \<Rightarrow>
               (case read_regs port regs s2 of
                  (b, s3) \<Rightarrow>
                    if raw_of status_b a = raw_of status_b b then (Some (raw_of status_b a), s3)
                    else read_twice n port regs s3)))"

definition read_raw :: "u8 option \<Rightarrow> (u8 \<Rightarrow> 's \<Rightarrow> u8 \<times> 's) \<Rightarrow> 's \<Rightarrow> raw_rtc option \<times> 's" where
  "read_raw acpi_index port s =
     (case wait_update 100000 port s of
        (False, s1) \<Rightarrow> (None, s1)
      | (True, s1) \<Rightarrow>
          read_twice 5 port [0x00, 0x02, 0x04, 0x07, 0x08, 0x09, century_register acpi_index] s1)"

section \<open>Decoding\<close>

definition bcd_to_bin :: "u8 \<Rightarrow> u8" where
  "bcd_to_bin v = (v AND 0x0F) + (drop_bit 4 v AND 0x0F) * 10"

definition century_value :: "raw_rtc \<Rightarrow> bool \<Rightarrow> u16 option" where
  "century_value raw bcd =
     (let c = (if bcd then bcd_to_bin (r_century raw) else r_century raw)
      in if 19 \<le> c \<and> c \<le> 21 then Some (ucast c) else None)"

definition is_valid :: "rtc_time \<Rightarrow> bool" where
  "is_valid t \<longleftrightarrow>
     1970 \<le> t_year t \<and> t_year t \<le> 2199 \<and> 1 \<le> t_month t \<and> t_month t \<le> 12 \<and>
     1 \<le> t_day t \<and> t_day t \<le> 31 \<and> t_hour t < 24 \<and> t_minute t < 60 \<and> t_second t < 60"

definition decode_hour :: "(u8 \<Rightarrow> u8) \<Rightarrow> u8 \<Rightarrow> u8 \<Rightarrow> u8" where
  "decode_hour dec status_b hour =
     (if status_b AND 0x02 = 0 then
        let pm = (hour AND 0x80 \<noteq> 0);
            h = dec (hour AND 0x7F);
            h = (if h = 12 then 0 else h)
        in if pm then h + 12 else h
      else dec hour)"

definition decode :: "raw_rtc \<Rightarrow> rtc_time option" where
  "decode raw =
     (let bcd = (r_status_b raw AND 0x04 = 0);
          dec = (\<lambda>v. if bcd then bcd_to_bin v else v);
          year2 = dec (r_year raw);
          century = (case century_value raw bcd of
                       Some c \<Rightarrow> c | None \<Rightarrow> if year2 \<ge> 70 then 19 else 20);
          time = \<lparr>t_year = century * 100 + ucast year2, t_month = dec (r_month raw),
                  t_day = dec (r_day raw), t_hour = decode_hour dec (r_status_b raw) (r_hour raw),
                  t_minute = dec (r_minute raw), t_second = dec (r_second raw)\<rparr>
      in if is_valid time then Some time else None)"

definition rtc_read :: "u8 option \<Rightarrow> (u8 \<Rightarrow> 's \<Rightarrow> u8 \<times> 's) \<Rightarrow> 's \<Rightarrow> rtc_time option \<times> 's" where
  "rtc_read acpi_index port s =
     (case read_raw acpi_index port s of (raw, s1) \<Rightarrow> (Option.bind raw decode, s1))"

section \<open>Calendar\<close>

definition days_from_civil :: "int \<Rightarrow> int \<Rightarrow> int \<Rightarrow> int" where
  "days_from_civil y0 m d =
     (let y = (if m \<le> 2 then y0 - 1 else y0);
          era = (if y \<ge> 0 then y else y - 399) sdiv 400;
          yoe = y - era * 400;
          mp = (m + 9) smod 12;
          doy = (153 * mp + 2) sdiv 5 + d - 1;
          doe = yoe * 365 + yoe sdiv 4 - yoe sdiv 100 + doy
      in era * 146097 + doe - 719468)"

definition civil_from_days :: "int \<Rightarrow> int \<times> u32 \<times> u32" where
  "civil_from_days z0 =
     (let z = z0 + 719468;
          era = (if z \<ge> 0 then z else z - 146096) sdiv 146097;
          doe = z - era * 146097;
          yoe = (doe - doe sdiv 1460 + doe sdiv 36524 - doe sdiv 146096) sdiv 365;
          y = yoe + era * 400;
          doy = doe - (365 * yoe + yoe sdiv 4 - yoe sdiv 100);
          mp = (5 * doy + 2) sdiv 153;
          d = doy - (153 * mp + 2) sdiv 5 + 1;
          m = (if mp < 10 then mp + 3 else mp - 9)
      in (if m \<le> 2 then y + 1 else y, word_of_int m, word_of_int d))"

definition to_unix :: "rtc_time \<Rightarrow> u64" where
  "to_unix t =
     (let days = days_from_civil (uint (t_year t)) (uint (t_month t)) (uint (t_day t));
          secs = days * 86400 + uint (t_hour t) * 3600 + uint (t_minute t) * 60 + uint (t_second t)
      in if secs < 0 then 0 else word_of_int secs)"

record date_time =
  dt_unix :: u64
  dt_year :: int
  dt_month :: u32
  dt_day :: u32
  dt_hour :: u32
  dt_minute :: u32
  dt_second :: u32

definition from_unix :: "u64 \<Rightarrow> date_time" where
  "from_unix unix =
     (let days = uint unix div 86400; rem = uint unix mod 86400
      in case civil_from_days days of
           (year, month, day) \<Rightarrow>
             \<lparr>dt_unix = unix, dt_year = year, dt_month = month, dt_day = day,
              dt_hour = word_of_int (rem div 3600), dt_minute = word_of_int (rem mod 3600 div 60),
              dt_second = word_of_int (rem mod 60)\<rparr>)"

text \<open>\<open>format\<close>, for the years from 0 on that \<open>from_unix\<close> produces.\<close>

definition zero_pad :: "nat \<Rightarrow> string \<Rightarrow> string" where
  "zero_pad k s = replicate (k - length s) CHR ''0'' @ s"

definition dt_format :: "date_time \<Rightarrow> string" where
  "dt_format t =
     zero_pad 4 (decimal (nat (dt_year t))) @ ''-'' @ zero_pad 2 (decimal (unat (dt_month t))) @ ''-''
       @ zero_pad 2 (decimal (unat (dt_day t))) @ '' '' @ zero_pad 2 (decimal (unat (dt_hour t))) @ '':''
       @ zero_pad 2 (decimal (unat (dt_minute t))) @ '':'' @ zero_pad 2 (decimal (unat (dt_second t)))"

section \<open>Wall clock\<close>

record wall =
  boot_unix :: u64
  boot_ns :: u64

definition set_boot_time :: "u64 \<Rightarrow> u64 \<Rightarrow> wall \<Rightarrow> wall" where
  "set_boot_time unix ns w = w\<lparr>boot_unix := unix, boot_ns := ns\<rparr>"

definition has_wall_clock :: "wall \<Rightarrow> bool" where
  "has_wall_clock w \<longleftrightarrow> boot_unix w \<noteq> 0"

text \<open>\<open>now\<close> is \<open>timer::uptime_ns()\<close>; the subtraction saturates.\<close>

definition wall_clock :: "u64 \<Rightarrow> wall \<Rightarrow> date_time option" where
  "wall_clock now w =
     (if boot_unix w = 0 then None
      else
        let elapsed_s = (if boot_ns w \<le> now then now - boot_ns w else 0) div 1000000000
        in Some (from_unix (boot_unix w + elapsed_s)))"


section \<open>The reference calendar\<close>

definition leap :: "int \<Rightarrow> bool" where
  "leap y \<longleftrightarrow> y mod 4 = 0 \<and> y mod 100 \<noteq> 0 \<or> y mod 400 = 0"

definition month_len :: "int \<Rightarrow> int \<Rightarrow> int" where
  "month_len y m =
     (if m = 2 then (if leap y then 29 else 28) else if m \<in> {4, 6, 9, 11} then 30 else 31)"

definition year_len :: "int \<Rightarrow> int" where
  "year_len y = (if leap y then 366 else 365)"

definition date_ok :: "int \<Rightarrow> int \<Rightarrow> int \<Rightarrow> bool" where
  "date_ok y m d \<longleftrightarrow> 1 \<le> m \<and> m \<le> 12 \<and> 1 \<le> d \<and> d \<le> month_len y m"

text \<open>Days since 1970-01-01, counted year by year and month by month.\<close>

definition day_number :: "int \<Rightarrow> int \<Rightarrow> int \<Rightarrow> int" where
  "day_number y m d =
     (\<Sum>i\<leftarrow>[1970..y - 1]. year_len i) + (\<Sum>k\<leftarrow>[1..m - 1]. month_len y k) + (d - 1)"

section \<open>Lemmas on the calendar\<close>

lemma sdiv_pos: "0 \<le> a \<Longrightarrow> 0 < b \<Longrightarrow> a sdiv b = a div b" for a b :: int
  by (cases "a = 0") (simp_all add: signed_divide_int_def)

lemma smod_pos: "0 \<le> a \<Longrightarrow> 0 < b \<Longrightarrow> a smod b = a mod b" for a b :: int
  by (cases "a = 0") (simp_all add: signed_modulo_int_def signed_divide_int_def minus_div_mult_eq_mod)

lemma div_by_bounds: "b * q \<le> a \<Longrightarrow> a < b * q + b \<Longrightarrow> 0 < b \<Longrightarrow> a div b = q" for a b q :: int
  by (rule int_div_pos_eq [where r = "a - b * q"]) auto

definition year_days :: "int \<Rightarrow> int" where
  "year_days y = 365 * y + y div 4 - y div 100 + y div 400"

lemma days_closed:
  assumes "1 \<le> m" "m \<le> 12" "y' = (if m \<le> 2 then y - 1 else y)" "0 \<le> y'"
  shows "days_from_civil y m d = year_days y' + (153 * ((m + 9) mod 12) + 2) div 5 + d - 1 - 719468"
proof -
  define era yoe where "era = y' div 400" and "yoe = y' mod 400"
  have y': "y' = yoe + era * 400" and r: "0 \<le> yoe" "y' - era * 400 = yoe"
    using assms(4) by (simp_all add: era_def yoe_def minus_div_mult_eq_mod)
  have "y' = yoe + 4 * (100 * era)" "y' = yoe + 100 * (4 * era)" using y' by simp_all
  then have "y' div 4 = yoe div 4 + 100 * era" "y' div 100 = yoe div 100 + 4 * era"
    by (metis div_mult_self2 add.commute zero_neq_numeral)+
  moreover have e: "(if 0 \<le> y' then y' else y' - 399) sdiv 400 = era" "(m + 9) smod 12 = (m + 9) mod 12"
    "yoe sdiv 4 = yoe div 4" "yoe sdiv 100 = yoe div 100"
    "(153 * ((m + 9) mod 12) + 2) sdiv 5 = (153 * ((m + 9) mod 12) + 2) div 5"
    using assms(1,4) r(1) by (simp_all add: sdiv_pos smod_pos era_def)
  moreover have "y' div 400 = era" by (simp add: era_def)
  ultimately show ?thesis
    unfolding days_from_civil_def Let_def assms(3) [symmetric] e r(2) year_days_def using y' by linarith
qed

lemma mod_400: "x mod 4 = x mod 400 mod 4" "x mod 100 = x mod 400 mod 100" "x mod 4 = x mod 100 mod 4"
  for x :: int
  by (simp_all add: mod_mod_cancel)

lemma mod_400_0: "x mod 400 = 0 \<Longrightarrow> x mod 100 = 0" "x mod 100 = 0 \<Longrightarrow> x mod 4 = 0"
  "x mod 400 = 0 \<Longrightarrow> x mod 4 = 0" for x :: int
  using mod_400 [of x] by simp_all

lemma year_days_Suc: "year_days (y + 1) - year_days y = year_len (y + 1)"
proof -
  have step: "(y + 1) div k = y div k + (if (y + 1) mod k = 0 then 1 else 0)" if "0 < k" for k :: int
  proof (cases "y mod k = k - 1")
    case True
    then have "y + 1 = k * (y div k) + k" using mult_div_mod_eq [of k y] by linarith
    then have "y + 1 = k * (y div k + 1)" by (simp only: distrib_left mult_1_right)
    then show ?thesis using that by (metis mod_mult_self1_is_0 nonzero_mult_div_cancel_left less_irrefl)
  next
    case False
    moreover have "y mod k < k" "0 \<le> y mod k" using that by simp_all
    moreover have "y = k * (y div k) + y mod k" by simp
    ultimately have b: "k * (y div k) \<le> y + 1" "y + 1 < k * (y div k) + k" "y + 1 \<noteq> k * (y div k)"
      by linarith+
    then have d: "(y + 1) div k = y div k" using that by (intro div_by_bounds)
    then have "(y + 1) mod k \<noteq> 0" using b(3) mult_div_mod_eq [of k "y + 1"] by simp
    then show ?thesis using d by simp
  qed
  show ?thesis
    using mod_400_0 [of "y + 1"] unfolding year_days_def year_len_def leap_def by (auto simp: step)
qed


lemma month_cases:
  assumes "1 \<le> m" "m \<le> (12 :: int)"
  obtains "m = 1" | "m = 2" | "m = 3" | "m = 4" | "m = 5" | "m = 6" | "m = 7" | "m = 8" | "m = 9"
    | "m = 10" | "m = 11" | "m = 12"
proof -
  have "m = 1 \<or> m = 2 \<or> m = 3 \<or> m = 4 \<or> m = 5 \<or> m = 6 \<or> m = 7 \<or> m = 8 \<or> m = 9 \<or> m = 10 \<or>
      m = 11 \<or> m = 12"
    using assms by presburger
  then show thesis using that by blast
qed

lemma months_before:
  assumes "1 \<le> m" "m \<le> 12"
  shows "(\<Sum>k\<leftarrow>[1..m - 1]. month_len y k) =
    (if m \<le> 2 then (153 * ((m + 9) mod 12) + 2) div 5 - 306
     else (153 * ((m + 9) mod 12) + 2) div 5 + 59 + (if leap y then 1 else 0))"
  using assms by (cases rule: month_cases) (simp_all add: upto.simps month_len_def)

lemma year_starts: "1970 \<le> y \<Longrightarrow> days_from_civil y 1 1 = (\<Sum>i\<leftarrow>[1970..y - 1]. year_len i)"
proof (induction y rule: int_ge_induct)
  case base
  then show ?case by (simp add: days_closed year_days_def)
next
  case (step i)
  have "[1970..i + 1 - 1] = [1970..i - 1] @ [i]" using step.hyps by (simp add: upto_rec2)
  moreover have "days_from_civil (i + 1) 1 1 = days_from_civil i 1 1 + year_len i"
    using step.hyps year_days_Suc [of "i - 1"] by (simp add: days_closed)
  ultimately show ?case using step.IH by simp
qed

lemma days_reference:
  assumes "1970 \<le> y" "1 \<le> m" "m \<le> 12"
  shows "days_from_civil y m d = day_number y m d"
proof -
  have "days_from_civil y m d = days_from_civil y 1 1 + (\<Sum>k\<leftarrow>[1..m - 1]. month_len y k) + (d - 1)"
    using assms year_days_Suc [of "y - 1"] unfolding months_before [OF assms(2,3)]
    by (auto simp: days_closed year_len_def)
  then show ?thesis by (simp add: day_number_def year_starts [OF assms(1)])
qed

text \<open>The date of the reference calendar as the code's March-based year and day.\<close>

lemma march_month:
  assumes "date_ok y m d" "mp = (m + 9) mod 12" "doy = (153 * mp + 2) div 5 + d - 1"
  shows "(5 * doy + 2) div 153 = mp" "0 \<le> doy" "doy \<le> 365" "0 \<le> mp" "mp \<le> 11"
    "(if mp < 10 then mp + 3 else mp - 9) = m"
    "doy = 365 \<Longrightarrow> m = 2 \<and> leap y"
proof -
  have m: "1 \<le> m" "m \<le> 12" and d: "1 \<le> d" "d \<le> month_len y m" using assms(1) by (auto simp: date_ok_def)
  have len: "month_len y m \<le> (if m = 2 then (if leap y then 29 else 28) else if m \<in> {4, 6, 9, 11} then 30 else 31)"
    by (simp add: month_len_def)
  show "(5 * doy + 2) div 153 = mp"
    using m by (cases rule: month_cases)
      (use d len in \<open>auto simp: assms(2,3) intro!: div_by_bounds split: if_splits\<close>)
  show "0 \<le> doy" "doy \<le> 365" "0 \<le> mp" "mp \<le> 11" "(if mp < 10 then mp + 3 else mp - 9) = m"
    "doy = 365 \<Longrightarrow> m = 2 \<and> leap y"
    using m by (cases rule: month_cases; use d len in \<open>auto simp: assms(2,3) split: if_splits\<close>)+
qed


lemma year_recover:
  assumes "0 \<le> yoe" "yoe < 400" "0 \<le> doy" "doy \<le> 365" "doy = 365 \<Longrightarrow> leap (yoe + 1)"
    "doe = 365 * yoe + yoe div 4 - yoe div 100 + doy"
  shows "0 \<le> doe" "doe \<le> 146096"
    "(doe - doe div 1460 + doe div 36524 - doe div 146096) div 365 = yoe"
proof -
  define c q r where "c = yoe div 100" and "q = yoe mod 100 div 4" and "r = yoe mod 4"
  have "yoe mod 100 mod 4 = yoe mod 4" by (rule mod_mod_cancel) simp
  then have yoe: "yoe = 100 * c + 4 * q + r" unfolding c_def q_def r_def
    using mult_div_mod_eq [of 100 yoe] mult_div_mod_eq [of 4 "yoe mod 100"] by linarith
  have r: "0 \<le> r" "r \<le> 3" by (simp_all add: r_def)
  have "0 \<le> yoe mod 100" "yoe mod 100 < 100" "0 \<le> yoe mod 100 mod 4" by simp_all
  moreover have "4 * q + yoe mod 100 mod 4 = yoe mod 100" unfolding q_def by (rule mult_div_mod_eq)
  ultimately have "q \<le> 24" by linarith
  moreover have "0 \<le> q" by (simp add: q_def pos_imp_zdiv_nonneg_iff)
  ultimately have q: "0 \<le> q" "q \<le> 24" by simp_all
  have "0 \<le> c" using assms(1) by (simp add: c_def pos_imp_zdiv_nonneg_iff)
  moreover have "c \<le> 3" using assms(2) q r yoe by linarith
  ultimately have c: "0 \<le> c" "c \<le> 3" by simp_all
  have "yoe div 4 = 25 * c + q" using yoe r by (intro div_by_bounds) simp_all
  moreover have "yoe div 100 = c" by (simp add: c_def)
  ultimately have doe: "doe = 36524 * c + 1461 * q + 365 * r + doy"
    using assms(6) yoe by linarith
  have long: "doy = 365 \<Longrightarrow> r = 3 \<and> (q \<noteq> 24 \<or> c = 3)"
  proof -
    assume "doy = 365"
    then have "leap (yoe + 1)" by (rule assms(5))
    moreover have "(yoe + 1) mod 4 = (r + 1) mod 4"
      unfolding r_def by (simp add: mod_simps)
    moreover note mod_400_0(3) [of "yoe + 1"]
    ultimately have "(r + 1) mod 4 = 0" by (auto simp: leap_def)
    moreover have "r = 0 \<or> r = 1 \<or> r = 2 \<or> r = 3" using r by linarith
    ultimately have r3: "r = 3" by auto
    show ?thesis
    proof (cases "q = 24")
      case True
      then have y: "yoe + 1 = 100 * (c + 1)" using yoe r3 by simp
      then have "(yoe + 1) mod 100 = 0" by simp
      then have "100 * (c + 1) mod 400 = 0" using \<open>leap (yoe + 1)\<close> y by (simp add: leap_def)
      moreover have "c = 0 \<or> c = 1 \<or> c = 2 \<or> c = 3" using c by linarith
      ultimately show ?thesis using r3 by auto
    qed (simp add: r3)
  qed
  define e where "e = (if 1460 \<le> 24 * c + q + 365 * r + doy then 1 else 0 :: int)"
  define last where "last = (if doe = 146096 then 1 else 0 :: int)"
  show b: "0 \<le> doe" "doe \<le> 146096" unfolding doe using c q r assms(3,4) by linarith+
  have "doe div 1460 = 25 * c + q + e"
    unfolding doe e_def using c q r assms(3,4) by (intro div_by_bounds) auto
  moreover have "doe div 146096 = last"
    unfolding last_def using b by (intro div_by_bounds) auto
  moreover have small: "1461 * q + 365 * r + doy < 36524" if "doe \<noteq> 146096"
  proof (cases "doy = 365")
    case True
    then have "r = 3" "q = 24 \<longrightarrow> c = 3" using long by auto
    then have "q \<noteq> 24" using that True doe by auto
    then show ?thesis using q(2) r(2) True by linarith
  next
    case False
    then show ?thesis using q(2) r(2) assms(4) by linarith
  qed
  have "doe div 36524 = c + last"
  proof (cases "doe = 146096")
    case True
    then show ?thesis using c q r assms(4) doe unfolding last_def by (intro div_by_bounds) auto
  next
    case False
    then show ?thesis
      using small q r assms(3) doe unfolding last_def by (intro div_by_bounds) auto
  qed
  moreover note this
  ultimately have "doe - doe div 1460 + doe div 36524 - doe div 146096 = 365 * yoe + (doy - e)"
    using doe yoe by simp
  moreover have "0 \<le> doy - e" using c q r assms(3) unfolding e_def by auto
  moreover have "doy - e < 365"
    using long c q assms(4) unfolding e_def by (cases "doy = 365") auto
  ultimately show "(doe - doe div 1460 + doe div 36524 - doe div 146096) div 365 = yoe"
    by (intro div_by_bounds) simp_all
qed

lemma civil_roundtrip:
  assumes "date_ok y m d" "1970 \<le> y"
  shows "civil_from_days (days_from_civil y m d) = (y, word_of_int m, word_of_int d)"
proof -
  define mp where "mp = (m + 9) mod 12"
  define doy where "doy = (153 * mp + 2) div 5 + d - 1"
  define y' where "y' = (if m \<le> 2 then y - 1 else y)"
  define era yoe where "era = y' div 400" and "yoe = y' mod 400"
  define doe where "doe = 365 * yoe + yoe div 4 - yoe div 100 + doy"
  note march = march_month [OF assms(1) mp_def doy_def]
  have m: "1 \<le> m" "m \<le> 12" using assms(1) by (auto simp: date_ok_def)
  have y'0: "0 \<le> y'" using assms(2) by (simp add: y'_def)
  have y': "y' = yoe + era * 400" and yoe: "0 \<le> yoe" "yoe < 400" "0 \<le> era"
    using y'0 by (simp_all add: era_def yoe_def pos_imp_zdiv_nonneg_iff)
  have "leap (yoe + 1) = leap (y' + 1)"
  proof -
    have "y' + 1 = yoe + 1 + 400 * era" using y' by simp
    then have "(y' + 1) mod 400 = (yoe + 1) mod 400" by (metis mod_mult_self2)
    moreover from this have "(y' + 1) mod 4 = (yoe + 1) mod 4" "(y' + 1) mod 100 = (yoe + 1) mod 100"
      by (metis mod_400)+
    ultimately show ?thesis by (simp add: leap_def)
  qed
  then have "leap (yoe + 1)" if "doy = 365" using march(7) [OF that] by (simp add: y'_def)
  note year = year_recover [OF yoe(1,2) march(2,3) this doe_def]
  have "y' = yoe + 4 * (100 * era)" "y' = yoe + 100 * (4 * era)" using y' by simp_all
  then have "y' div 4 = yoe div 4 + 100 * era" "y' div 100 = yoe div 100 + 4 * era"
    by (metis div_mult_self2 add.commute zero_neq_numeral)+
  then have z: "days_from_civil y m d + 719468 = doe + era * 146097"
    using y' unfolding days_closed [OF m y'_def y'0] doe_def doy_def year_days_def mp_def [symmetric]
      era_def [symmetric] by linarith
  have e: "(if 0 \<le> doe + era * 146097 then doe + era * 146097 else doe + era * 146097 - 146096) sdiv 146097 = era"
    using year(1,2) yoe(3) by (simp add: sdiv_pos div_by_bounds)
  have s: "doe sdiv 1460 = doe div 1460" "doe sdiv 36524 = doe div 36524" "doe sdiv 146096 = doe div 146096"
    using year(1) by (simp_all add: sdiv_pos)
  have t: "doe - doe div 1460 + doe div 36524 - doe div 146096 \<ge> 0"
    using year(1,3) yoe(1) by (metis pos_imp_zdiv_nonneg_iff zero_less_numeral)
  have u: "(doe - doe div 1460 + doe div 36524 - doe div 146096) sdiv 365 = yoe"
    using t year(3) by (simp add: sdiv_pos)
  have v: "yoe sdiv 4 = yoe div 4" "yoe sdiv 100 = yoe div 100"
    "doe - (365 * yoe + yoe div 4 - yoe div 100) = doy"
    using yoe(1) by (simp_all add: sdiv_pos doe_def)
  have w: "(5 * doy + 2) sdiv 153 = mp" "(153 * mp + 2) sdiv 5 = (153 * mp + 2) div 5"
    using march(1,2,4) by (simp_all add: sdiv_pos)
  have x: "doy - (153 * mp + 2) div 5 + 1 = d" by (simp add: doy_def)
  have "(if m \<le> 2 then yoe + era * 400 + 1 else yoe + era * 400) = y"
    unfolding y' [symmetric] by (simp add: y'_def)
  then show ?thesis
    unfolding civil_from_days_def Let_def z e add_diff_cancel_right' s u v w x march(6) by simp
qed


section \<open>Bounds\<close>

lemma uint_0: "0 \<le> uint (w :: 'a :: len word)"
  by simp

lemma month_len_le: "month_len y m \<le> 31"
  by (simp add: month_len_def)

lemma year_days_mono: "0 \<le> a \<Longrightarrow> a \<le> b \<Longrightarrow> year_days a \<le> year_days b"
proof -
  assume "a \<le> b"
  then show ?thesis
  proof (induction b rule: int_ge_induct)
    case (step i)
    then show ?case using year_days_Suc [of i] by (simp add: year_len_def split: if_splits)
  qed simp
qed

lemma days_bounds:
  assumes "date_ok y m d" "1970 \<le> y" "y \<le> 2199"
  shows "0 \<le> days_from_civil y m d" "days_from_civil y m d < 100000"
proof -
  have m: "1 \<le> m" "m \<le> 12" "1 \<le> d" "d \<le> 31"
    using assms(1) month_len_le [of y m] by (auto simp: date_ok_def)
  define y' where "y' = (if m \<le> 2 then y - 1 else y)"
  define mp where "mp = (m + 9) mod 12"
  have days: "days_from_civil y m d = year_days y' + (153 * mp + 2) div 5 + d - 1 - 719468"
    unfolding mp_def using m(1,2) y'_def by (rule days_closed) (use assms(2) in \<open>simp add: y'_def\<close>)
  have "0 \<le> mp" "mp < 12" by (simp_all add: mp_def)
  then have doy: "0 \<le> (153 * mp + 2) div 5" "(153 * mp + 2) div 5 \<le> 337"
    using zdiv_mono1 [of "153 * mp + 2" 1685 5] by (simp_all add: pos_imp_zdiv_nonneg_iff)
  have "year_days y' \<le> year_days 2199"
    by (rule year_days_mono) (use assms(2,3) in \<open>auto simp: y'_def\<close>)
  then have "year_days y' \<le> 803168" by (simp add: year_days_def)
  then show "days_from_civil y m d < 100000" using days doy m by linarith
  show "0 \<le> days_from_civil y m d"
    unfolding days_reference [OF assms(2) m(1,2)] day_number_def
    using m by (intro add_nonneg_nonneg sum_list_nonneg) (auto simp: year_len_def month_len_def)
qed

text \<open>Hours, minutes and seconds of a number of seconds.\<close>

lemma clock_parts:
  fixes days h m s n :: int
  assumes "0 \<le> h" "h < 24" "0 \<le> m" "m < 60" "0 \<le> s" "s < 60" "n = days * 86400 + h * 3600 + m * 60 + s"
  shows "n div 86400 = days" "n mod 86400 div 3600 = h" "n mod 86400 mod 3600 div 60 = m"
    "n mod 86400 mod 60 = s"
proof -
  define rem where "rem = h * 3600 + m * 60 + s"
  have r: "0 \<le> rem" "rem < 86400" using assms(1-6) by (simp_all add: rem_def)
  have n: "n = 86400 * days + rem" using assms(7) by (simp add: rem_def)
  show "n div 86400 = days" using n r by (intro div_by_bounds) simp_all
  have m86: "n mod 86400 = rem" using n r by (simp add: mod_add_eq)
  have h: "rem div 3600 = h" using assms(1-6) unfolding rem_def by (intro div_by_bounds) simp_all
  then show "n mod 86400 div 3600 = h" by (simp add: m86)
  have "rem mod 3600 = m * 60 + s" using h by (simp add: rem_def minus_div_mult_eq_mod [symmetric])
  moreover have "(m * 60 + s) div 60 = m" using assms(3-6) by (intro div_by_bounds) simp_all
  ultimately show "n mod 86400 mod 3600 div 60 = m" by (simp only: m86)
  have "rem = 60 * (h * 60 + m) + s" by (simp add: rem_def)
  then have "rem mod 60 = s" using assms(5,6) by (simp only: mod_mult_self4) simp
  then show "n mod 86400 mod 60 = s" by (simp only: m86)
qed

section \<open>Properties\<close>

text \<open>
  C40: The conversion of BIOS time agrees with the calendar: for a time that the driver accepts and
  whose date exists, \<open>to_unix\<close> is the number of seconds since 1970, its days counted year by year
  and month by month, and \<open>DateTime::from_unix\<close> of it gives back the year, month, day, hour,
  minute and second.
\<close>

theorem unix_time_roundtrip:
  assumes "is_valid t" "date_ok (uint (t_year t)) (uint (t_month t)) (uint (t_day t))"
  shows "uint (to_unix t) = day_number (uint (t_year t)) (uint (t_month t)) (uint (t_day t)) * 86400
      + uint (t_hour t) * 3600 + uint (t_minute t) * 60 + uint (t_second t) \<and>
    from_unix (to_unix t) = \<lparr>dt_unix = to_unix t, dt_year = uint (t_year t),
      dt_month = ucast (t_month t), dt_day = ucast (t_day t), dt_hour = ucast (t_hour t),
      dt_minute = ucast (t_minute t), dt_second = ucast (t_second t)\<rparr>"
proof -
  let ?y = "uint (t_year t)" and ?m = "uint (t_month t)" and ?d = "uint (t_day t)"
  let ?h = "uint (t_hour t)" and ?min = "uint (t_minute t)" and ?s = "uint (t_second t)"
  have y: "1970 \<le> ?y" "?y \<le> 2199" and hms: "?h < 24" "?min < 60" "?s < 60"
    using assms(1) by (simp_all add: is_valid_def word_le_def word_less_def)
  define days where "days = days_from_civil ?y ?m ?d"
  define n where "n = days * 86400 + ?h * 3600 + ?min * 60 + ?s"
  have b: "0 \<le> days" "days < 100000" unfolding days_def by (rule days_bounds [OF assms(2) y])+
  have n: "0 \<le> n" "n < 18446744073709551616" unfolding n_def using b hms by simp_all
  have "to_unix t = word_of_int n"
    unfolding to_unix_def Let_def days_def [symmetric] n_def [symmetric] using n(1) by simp
  then have u: "uint (to_unix t) = n"
    using n by (simp add: uint_word_of_int_eq take_bit_int_eq_self)
  have d: "days = day_number ?y ?m ?d"
    unfolding days_def using assms(2) y(1) by (intro days_reference) (auto simp: date_ok_def)
  have c: "civil_from_days days = (?y, word_of_int ?m, word_of_int ?d)"
    unfolding days_def by (rule civil_roundtrip [OF assms(2) y(1)])
  note parts = clock_parts [OF uint_0 hms(1) uint_0 hms(2) uint_0 hms(3) n_def]
  have "from_unix (to_unix t) = \<lparr>dt_unix = to_unix t, dt_year = uint (t_year t),
      dt_month = ucast (t_month t), dt_day = ucast (t_day t), dt_hour = ucast (t_hour t),
      dt_minute = ucast (t_minute t), dt_second = ucast (t_second t)\<rparr>"
    unfolding from_unix_def Let_def u parts c prod.case ucast_eq by (rule refl)
  then show ?thesis using u n_def d by simp
qed

definition leap_day :: rtc_time where
  "leap_day = \<lparr>t_year = 2024, t_month = 2, t_day = 29, t_hour = 23, t_minute = 59, t_second = 58\<rparr>"

theorem unix_time_roundtrip_witness:
  "uint (to_unix leap_day) = 1709251198 \<and> dt_day (from_unix (to_unix leap_day)) = 29"
proof -
  have "is_valid leap_day" "date_ok (uint (t_year leap_day)) (uint (t_month leap_day)) (uint (t_day leap_day))"
    by (simp_all add: is_valid_def leap_day_def date_ok_def month_len_def leap_def)
  note t = unix_time_roundtrip [OF this]
  have "day_number 2024 2 29 = 19782"
    by (simp add: days_reference [symmetric] days_closed year_days_def)
  then show ?thesis using t by (simp add: leap_day_def)
qed

end
