(* ===== verification/Fat32.thy ===== *)
theory Fat32
  imports Fat Rtc
begin

text \<open>
  The upper half of the FAT32 driver (\<open>fs/fat32.rs\<close>): mounting from the boot sector, directory entries
  with long names, lookup of paths, and the operations of the traits \<open>FileSystem\<close> and \<open>File\<close>. Names
  are the bytes of Rust strings (UTF-8). The clock that \<open>dos_now\<close> reads is an argument, and the disk
  the file system shares with its open files is passed through.
\<close>

section \<open>Text\<close>

text \<open>UTF-8 of a character of the basic plane.\<close>

definition utf8 :: "nat \<Rightarrow> string" where
  "utf8 c =
     map char_of
       (if c < 0x80 then [c]
        else if c < 0x800 then [0xC0 + c div 64, 0x80 + c mod 64]
        else [0xE0 + c div 4096, 0x80 + c div 64 mod 64, 0x80 + c mod 64])"

definition upper :: "char \<Rightarrow> char" where
  "upper c = (if 97 \<le> code c \<and> code c \<le> 122 then char_of (code c - 32) else c)"

definition lower :: "char \<Rightarrow> char" where
  "lower c = (if 65 \<le> code c \<and> code c \<le> 90 then char_of (code c + 32) else c)"

definition eq_ignore_ascii_case :: "string \<Rightarrow> string \<Rightarrow> bool" where
  "eq_ignore_ascii_case s t \<longleftrightarrow> map lower s = map lower t"

definition field16 :: "bytes \<Rightarrow> nat \<Rightarrow> nat" where
  "field16 buf off = le_nat (take 2 (drop off buf))"

section \<open>Directory entries\<close>

record fat_entry =
  fe_name :: bytes
  fe_attr :: u8
  fe_reserved :: u8
  fe_tenths :: u8
  fe_ctime :: nat
  fe_cdate :: nat
  fe_adate :: nat
  fe_high :: nat
  fe_wtime :: nat
  fe_wdate :: nat
  fe_low :: nat
  fe_size :: nat

text \<open>\<open>ptr::read\<close> of a packed little-endian struct, and its bytes.\<close>

definition entry_at :: "bytes \<Rightarrow> nat \<Rightarrow> fat_entry" where
  "entry_at buf off =
     \<lparr>fe_name = take 11 (drop off buf), fe_attr = buf ! (off + 11), fe_reserved = buf ! (off + 12),
      fe_tenths = buf ! (off + 13), fe_ctime = field16 buf (off + 14), fe_cdate = field16 buf (off + 16),
      fe_adate = field16 buf (off + 18), fe_high = field16 buf (off + 20),
      fe_wtime = field16 buf (off + 22), fe_wdate = field16 buf (off + 24),
      fe_low = field16 buf (off + 26), fe_size = field32 buf (off + 28)\<rparr>"

definition entry_bytes :: "fat_entry \<Rightarrow> bytes" where
  "entry_bytes e =
     fe_name e @ [fe_attr e, fe_reserved e, fe_tenths e] @ le_bytes 2 (fe_ctime e) @
     le_bytes 2 (fe_cdate e) @ le_bytes 2 (fe_adate e) @ le_bytes 2 (fe_high e) @
     le_bytes 2 (fe_wtime e) @ le_bytes 2 (fe_wdate e) @ le_bytes 2 (fe_low e) @ le_bytes 4 (fe_size e)"

definition is_directory :: "fat_entry \<Rightarrow> bool" where
  "is_directory e \<longleftrightarrow> fe_attr e AND 0x10 \<noteq> 0"

definition is_regular :: "fat_entry \<Rightarrow> bool" where
  "is_regular e \<longleftrightarrow> \<not> is_directory e \<and> fe_attr e AND 0x08 = 0"

definition is_long_name :: "fat_entry \<Rightarrow> bool" where
  "is_long_name e \<longleftrightarrow> fe_attr e AND 0x0F = 0x0F"

definition is_free_entry :: "fat_entry \<Rightarrow> bool" where
  "is_free_entry e \<longleftrightarrow> fe_name e ! 0 = 0 \<or> fe_name e ! 0 = 0xE5"

definition is_end_entry :: "fat_entry \<Rightarrow> bool" where
  "is_end_entry e \<longleftrightarrow> fe_name e ! 0 = 0"

definition get_cluster :: "fat_entry \<Rightarrow> nat" where
  "get_cluster e = fe_high e * 2 ^ 16 + fe_low e"

definition set_cluster :: "nat \<Rightarrow> fat_entry \<Rightarrow> fat_entry" where
  "set_cluster c e = e\<lparr>fe_high := c div 2 ^ 16 mod 2 ^ 16, fe_low := c mod 2 ^ 16\<rparr>"

text \<open>The bytes of a name as text: \<open>c as char\<close> for the ones that are not blanks.\<close>

definition name_text :: "bytes \<Rightarrow> string" where
  "name_text bs = concat (map (\<lambda>b. utf8 (unat b)) (filter (\<lambda>b. b \<noteq> 32) bs))"

definition get_name :: "fat_entry \<Rightarrow> string" where
  "get_name e =
     (let ext = name_text (take 3 (drop 8 (fe_name e))) in
      name_text (take 8 (fe_name e)) @ (if ext = [] then [] else CHR ''.'' # ext))"

section \<open>Mounting\<close>

record fat_fs =
  ff_geo :: geo
  ff_mounted :: bool
  ff_read_only :: bool

text \<open>
  \<open>with_mode\<close>: the fields of the boot sector at their offsets. Sectors of 4096 bytes are counted as
  eight of 512. All refusals are the same error.
\<close>

definition bpb_scale :: "bytes \<Rightarrow> nat" where
  "bpb_scale b = (if field16 b 11 = 512 then 1 else 8)"

definition bpb_total :: "bytes \<Rightarrow> nat" where
  "bpb_total b = (if field16 b 19 \<noteq> 0 then field16 b 19 else field32 b 32) * bpb_scale b"

definition bpb_geo :: "bytes \<Rightarrow> geo" where
  "bpb_geo b =
     (let start = field16 b 14 * bpb_scale b; size = field32 b 36 * bpb_scale b; spc512 = unat (b ! 13) * bpb_scale b;
          data = start + unat (b ! 16) * size + (field16 b 17 * 32 + 511) div 512;
          info = field16 b 48 * bpb_scale b
      in \<lparr>fat_start = start, fat_count = unat (b ! 16), fat_size = size mod 2 ^ 32, data_start = data,
          spc = spc512, cluster_size = 512 * spc512, root_cluster = field32 b 44,
          fs_info_sector = (if info \<le> 0xFFFF then info else 0),
          total_clusters = (bpb_total b - data) div spc512 mod 2 ^ 32, volume_label = take 11 (drop 71 b)\<rparr>)"

definition bpb_valid :: "bytes \<Rightarrow> bool" where
  "bpb_valid b \<longleftrightarrow>
     (field16 b 11 = 512 \<or> field16 b 11 = 4096) \<and> field16 b 22 = 0 \<and> field16 b 17 = 0 \<and>
     unat (b ! 13) \<in> {1, 2, 4, 8, 16, 32, 64, 128} \<and> field16 b 14 \<noteq> 0 \<and> field32 b 36 \<noteq> 0 \<and>
     unat (b ! 16) \<noteq> 0 \<and> unat (b ! 16) \<le> 4 \<and> unat (b ! 13) * bpb_scale b \<le> 255 \<and>
     2 \<le> total_clusters (bpb_geo b)"

definition with_mode :: "'d disk_ops \<Rightarrow> bool \<Rightarrow> ('d, fat_fs) io" where
  "with_mode ops ro =
     bnd (read_sector ops 0) (\<lambda>b.
       if bpb_valid b then ok \<lparr>ff_geo = bpb_geo b, ff_mounted = False, ff_read_only = ro\<rparr> else err InvalidPath)"

definition fat_new :: "'d disk_ops \<Rightarrow> ('d, fat_fs) io" where
  "fat_new ops = with_mode ops True"

definition fat_new_rw :: "'d disk_ops \<Rightarrow> ('d, fat_fs) io" where
  "fat_new_rw ops = with_mode ops False"

definition fat_mount :: "fat_fs \<Rightarrow> (fs_error + unit) \<times> fat_fs" where
  "fat_mount fs = (Inr (), fs\<lparr>ff_mounted := True\<rparr>)"

definition fat_unmount :: "fat_fs \<Rightarrow> (fs_error + unit) \<times> fat_fs" where
  "fat_unmount fs = (Inr (), fs\<lparr>ff_mounted := False\<rparr>)"

definition fat_name :: "fat_fs \<Rightarrow> string" where "fat_name fs = ''fat32''"
definition fat_geo :: "fat_fs \<Rightarrow> geo" where "fat_geo fs = ff_geo fs"
definition fat_label :: "fat_fs \<Rightarrow> bytes" where "fat_label fs = volume_label (ff_geo fs)"
definition fat_is_read_only :: "fat_fs \<Rightarrow> bool" where "fat_is_read_only fs = ff_read_only fs"
definition fat_cluster_size :: "fat_fs \<Rightarrow> nat" where "fat_cluster_size fs = cluster_size (ff_geo fs)"

definition fat_device_read_only :: "'d disk_ops \<Rightarrow> 'd \<Rightarrow> bool" where
  "fat_device_read_only ops d = ronly ops d"

section \<open>Reading directories\<close>

record dir_slot =
  sl_entry :: fat_entry
  sl_sector :: nat
  sl_offset :: nat

text \<open>The entries found so far, and the long name parts waiting for their short entry.\<close>

type_synonym listing = "(dir_slot \<times> string) list"
type_synonym scan_state = "listing \<times> nat list list"

definition entry_offsets :: "nat list" where
  "entry_offsets = map (\<lambda>i. 32 * i) [0..<16]"

definition lfn_part :: "bytes \<Rightarrow> nat \<Rightarrow> nat list" where
  "lfn_part buf off = map (\<lambda>p. field16 buf (off + p)) [1, 3, 5, 7, 9, 14, 16, 18, 20, 22, 24, 28, 30]"

text \<open>\<open>char::from_u32(c).unwrap_or('?')\<close>: surrogates are no characters.\<close>

definition lfn_char :: "nat \<Rightarrow> string" where
  "lfn_char c =
     (if c = 0 \<or> c = 0xFFFF then [] else utf8 (if 0xD800 \<le> c \<and> c \<le> 0xDFFF then 63 else c))"

definition lfn_text :: "nat list list \<Rightarrow> string" where
  "lfn_text parts = concat (map lfn_char (concat (rev parts)))"

definition shown_name :: "fat_entry \<Rightarrow> nat list list \<Rightarrow> string" where
  "shown_name e lfn = (if lfn_text lfn = [] then get_name e else lfn_text lfn)"

definition dir_step :: "nat \<Rightarrow> bytes \<Rightarrow> nat \<Rightarrow> scan_state \<Rightarrow> scan_state" where
  "dir_step s buf off st =
     (let e = entry_at buf off in
      if is_free_entry e then (fst st, [])
      else if is_long_name e then (fst st, snd st @ [lfn_part buf off])
      else if fe_attr e AND 0x08 = 0
      then (fst st @ [(\<lparr>sl_entry = e, sl_sector = s, sl_offset = off\<rparr>, shown_name e (snd st))], [])
      else (fst st, []))"

text \<open>One sector; the flag says that the end mark was met.\<close>

primrec scan_sector :: "nat \<Rightarrow> bytes \<Rightarrow> nat list \<Rightarrow> scan_state \<Rightarrow> bool \<times> scan_state" where
  "scan_sector s buf [] st = (False, st)"
| "scan_sector s buf (off # offs) st =
     (if is_end_entry (entry_at buf off) then (True, st) else scan_sector s buf offs (dir_step s buf off st))"

primrec scan_sectors :: "'d disk_ops \<Rightarrow> nat list \<Rightarrow> scan_state \<Rightarrow> ('d, bool \<times> scan_state) io" where
  "scan_sectors ops [] st = ok (False, st)"
| "scan_sectors ops (s # ss) st =
     bnd (read_sector ops s) (\<lambda>buf.
       let r = scan_sector s buf entry_offsets st in
       if fst r then ok (True, snd r) else scan_sectors ops ss (snd r))"

primrec scan_clusters :: "'d disk_ops \<Rightarrow> geo \<Rightarrow> nat list \<Rightarrow> scan_state \<Rightarrow> ('d, listing) io" where
  "scan_clusters ops g [] st = ok (fst st)"
| "scan_clusters ops g (c # cs) st =
     bnd (cluster_base g c) (\<lambda>base.
       bnd (scan_sectors ops (map (\<lambda>i. base + i) [0..<spc g]) st) (\<lambda>r.
         if fst r then ok (fst (snd r)) else scan_clusters ops g cs (snd r)))"

definition read_dir :: "'d disk_ops \<Rightarrow> geo \<Rightarrow> nat \<Rightarrow> ('d, listing) io" where
  "read_dir ops g dir = bnd (chain ops g dir) (\<lambda>cs. scan_clusters ops g cs ([], []))"

definition find_in_dir :: "'d disk_ops \<Rightarrow> geo \<Rightarrow> nat \<Rightarrow> string \<Rightarrow> ('d, dir_slot option) io" where
  "find_in_dir ops g dir name =
     bnd (read_dir ops g dir) (\<lambda>es. ok (map_option fst (find (\<lambda>(_, n). eq_ignore_ascii_case n name) es)))"

section \<open>Paths\<close>

definition path_parts :: "string \<Rightarrow> string list" where
  "path_parts path = filter (\<lambda>p. p \<noteq> []) (split_on slash path)"

definition root_slot :: "geo \<Rightarrow> dir_slot" where
  "root_slot g =
     \<lparr>sl_entry = \<lparr>fe_name = 32 # replicate 10 0, fe_attr = 0x10, fe_reserved = 0, fe_tenths = 0,
        fe_ctime = 0, fe_cdate = 0, fe_adate = 0, fe_high = root_cluster g div 2 ^ 16 mod 2 ^ 16,
        fe_wtime = 0, fe_wdate = 0, fe_low = root_cluster g mod 2 ^ 16, fe_size = 0\<rparr>,
      sl_sector = 0, sl_offset = 0\<rparr>"

primrec find_parts :: "'d disk_ops \<Rightarrow> geo \<Rightarrow> string list \<Rightarrow> nat \<Rightarrow> ('d, dir_slot option) io" where
  "find_parts ops g [] cur = ok None"
| "find_parts ops g (p # ps) cur =
     bnd (find_in_dir ops g cur p) (\<lambda>r.
       case r of
         None \<Rightarrow> ok None
       | Some sl \<Rightarrow>
           if ps = [] then ok (Some sl)
           else if \<not> is_directory (sl_entry sl) then err NotADirectory
           else find_parts ops g ps (get_cluster (sl_entry sl)))"

definition find_path :: "'d disk_ops \<Rightarrow> geo \<Rightarrow> string \<Rightarrow> ('d, dir_slot option) io" where
  "find_path ops g path =
     (if path_parts path = [] then ok (Some (root_slot g))
      else find_parts ops g (path_parts path) (root_cluster g))"

primrec walk_dirs :: "'d disk_ops \<Rightarrow> geo \<Rightarrow> string list \<Rightarrow> nat \<Rightarrow> ('d, nat) io" where
  "walk_dirs ops g [] cur = ok cur"
| "walk_dirs ops g (p # ps) cur =
     bnd (find_in_dir ops g cur p) (\<lambda>r.
       case r of
         None \<Rightarrow> err NotFound
       | Some sl \<Rightarrow>
           if \<not> is_directory (sl_entry sl) then err NotADirectory
           else walk_dirs ops g ps (get_cluster (sl_entry sl)))"

definition parent_cluster :: "'d disk_ops \<Rightarrow> geo \<Rightarrow> string \<Rightarrow> ('d, nat \<times> string) io" where
  "parent_cluster ops g path =
     (let parts = path_parts path in
      if parts = [] then err InvalidPath
      else bnd (walk_dirs ops g (butlast parts) (root_cluster g)) (\<lambda>dir. ok (dir, List.last parts)))"

section \<open>Short names\<close>

definition is_valid_83 :: "char \<Rightarrow> bool" where
  "is_valid_83 c \<longleftrightarrow>
     48 \<le> code c \<and> code c \<le> 57 \<or> 65 \<le> code c \<and> code c \<le> 90 \<or> 97 \<le> code c \<and> code c \<le> 122 \<or>
     c \<in> set ''!#$%&'' \<or> code c = 39 \<or> c \<in> set ''()-@^_'' \<or> code c = 96 \<or> c \<in> set ''{}~''"

definition padded :: "nat \<Rightarrow> string \<Rightarrow> bytes" where
  "padded n s = map of_char s @ replicate (n - length s) 32"

definition to_83 :: "string \<Rightarrow> bytes option" where
  "to_83 name =
     (let up = map upper name;
          (base, ext) = (case rfind (CHR ''.'') up of
            Some p \<Rightarrow> (take p up, drop (p + 1) up)
          | None \<Rightarrow> (up, []))
      in
      if base = [] \<or> length base > 8 \<or> length ext > 3 then None
      else if list_all is_valid_83 base \<and> list_all is_valid_83 ext then Some (padded 8 base @ padded 3 ext)
      else None)"

text \<open>The date and the time of \<open>dos_now\<close>; the shifts are on \<open>u16\<close>.\<close>

definition dos_now :: "rtc_time option \<Rightarrow> nat \<times> nat" where
  "dos_now now =
     (case now of
        None \<Rightarrow> (0, 0)
      | Some t \<Rightarrow>
          let year = (of_nat (min (max (unat (t_year t)) 1980) 2107 - 1980) :: u16);
              date = push_bit 9 year OR push_bit 5 (ucast (t_month t)) OR ucast (t_day t);
              time = push_bit 11 (ucast (t_hour t)) OR push_bit 5 (ucast (t_minute t)) OR
                     (ucast (t_second t) div 2 :: u16)
          in (unat date, unat time))"

section \<open>Writing directories\<close>

definition put_entry :: "'d disk_ops \<Rightarrow> nat \<Rightarrow> nat \<Rightarrow> fat_entry \<Rightarrow> ('d, unit) io" where
  "put_entry ops s off e =
     bnd (read_sector ops s) (\<lambda>buf. write_sector ops s (put_at off (entry_bytes e) buf))"

definition set_entry :: "'d disk_ops \<Rightarrow> rtc_time option \<Rightarrow> dir_slot \<Rightarrow> nat \<Rightarrow> nat \<Rightarrow> ('d, unit) io" where
  "set_entry ops now sl c sz =
     bnd (read_sector ops (sl_sector sl)) (\<lambda>buf.
       let e = (set_cluster c (entry_at buf (sl_offset sl)))
             \<lparr>fe_size := sz, fe_wdate := fst (dos_now now), fe_wtime := snd (dos_now now)\<rparr>
       in write_sector ops (sl_sector sl) (put_at (sl_offset sl) (entry_bytes e) buf))"

definition free_offset :: "bytes \<Rightarrow> nat option" where
  "free_offset buf = find (\<lambda>off. buf ! off = 0 \<or> buf ! off = 0xE5) entry_offsets"

primrec free_in_sectors :: "'d disk_ops \<Rightarrow> nat list \<Rightarrow> ('d, (nat \<times> nat) option) io" where
  "free_in_sectors ops [] = ok None"
| "free_in_sectors ops (s # ss) =
     bnd (read_sector ops s) (\<lambda>buf.
       case free_offset buf of Some off \<Rightarrow> ok (Some (s, off)) | None \<Rightarrow> free_in_sectors ops ss)"

primrec free_in_clusters :: "'d disk_ops \<Rightarrow> geo \<Rightarrow> nat list \<Rightarrow> ('d, (nat \<times> nat) option) io" where
  "free_in_clusters ops g [] = ok None"
| "free_in_clusters ops g (c # cs) =
     bnd (cluster_base g c) (\<lambda>base.
       bnd (free_in_sectors ops (map (\<lambda>i. base + i) [0..<spc g])) (\<lambda>r.
         case r of Some x \<Rightarrow> ok (Some x) | None \<Rightarrow> free_in_clusters ops g cs))"

definition zero_cluster :: "'d disk_ops \<Rightarrow> geo \<Rightarrow> nat \<Rightarrow> ('d, unit) io" where
  "zero_cluster ops g base =
     for_each (\<lambda>i. write_sector ops (base + i) (replicate 512 0)) [0..<spc g]"

text \<open>A full directory gets a new cluster, linked behind its last one.\<close>

definition find_free_slot :: "'d disk_ops \<Rightarrow> geo \<Rightarrow> nat \<Rightarrow> ('d, nat \<times> nat) io" where
  "find_free_slot ops g dir =
     bnd (chain ops g dir) (\<lambda>cs.
       bnd (free_in_clusters ops g cs) (\<lambda>r.
         case r of
           Some x \<Rightarrow> ok x
         | None \<Rightarrow>
             bnd (alloc_cluster ops g (Some (if cs = [] then dir else List.last cs))) (\<lambda>new.
               bnd (cluster_base g new) (\<lambda>base.
                 bnd (zero_cluster ops g base) (\<lambda>_. ok (base, 0))))))"

section \<open>Operations on the volume\<close>

definition fat_lookup :: "'d disk_ops \<Rightarrow> fat_fs \<Rightarrow> string \<Rightarrow> ('d, (nat \<times> nat \<times> dir_slot) option) io" where
  "fat_lookup ops fs path =
     bnd (find_path ops (ff_geo fs) path) (\<lambda>r.
       case r of
         None \<Rightarrow> ok None
       | Some sl \<Rightarrow>
           if is_regular (sl_entry sl) then ok (Some (get_cluster (sl_entry sl), fe_size (sl_entry sl), sl))
           else err IsADirectory)"

definition fat_clusters :: "'d disk_ops \<Rightarrow> fat_fs \<Rightarrow> nat \<Rightarrow> ('d, nat list) io" where
  "fat_clusters ops fs start = chain ops (ff_geo fs) start"

definition write_at ::
  "'d disk_ops \<Rightarrow> fat_fs \<Rightarrow> nat \<Rightarrow> nat \<Rightarrow> bytes \<Rightarrow> 'd \<Rightarrow> ((fs_error + nat) \<times> nat) \<times> 'd" where
  "write_at ops fs start off data d =
     (if ff_read_only fs then ((Inl ReadOnly, start), d) else write_range ops (ff_geo fs) start off data d)"

definition publish_size ::
  "'d disk_ops \<Rightarrow> rtc_time option \<Rightarrow> fat_fs \<Rightarrow> dir_slot \<Rightarrow> nat \<Rightarrow> nat \<Rightarrow> ('d, unit) io" where
  "publish_size ops now fs sl start sz =
     (if ff_read_only fs then err ReadOnly else set_entry ops now sl start sz)"

definition fat_truncate :: "'d disk_ops \<Rightarrow> rtc_time option \<Rightarrow> fat_fs \<Rightarrow> string \<Rightarrow> ('d, unit) io" where
  "fat_truncate ops now fs path =
     (if ff_read_only fs then err ReadOnly
      else bnd (find_path ops (ff_geo fs) path) (\<lambda>r.
        case r of
          None \<Rightarrow> err NotFound
        | Some sl \<Rightarrow>
            if \<not> is_regular (sl_entry sl) then err IsADirectory
            else bnd (free_chain ops (ff_geo fs) (get_cluster (sl_entry sl))) (\<lambda>_. set_entry ops now sl 0 0)))"


section \<open>Open files\<close>

record fat_file =
  h_geo :: geo
  h_slot :: dir_slot
  h_start :: nat
  h_size :: nat
  h_pos :: nat
  h_data :: bytes
  h_read_only :: bool

definition fat_read :: "nat \<Rightarrow> fat_file \<Rightarrow> bytes \<times> fat_file" where
  "fat_read n h =
     (let pos = h_pos h in
      if pos \<ge> length (h_data h) then ([], h)
      else
        let to_read = min n (length (h_data h) - pos)
        in (take to_read (drop pos (h_data h)), h\<lparr>h_pos := pos + to_read\<rparr>))"

text \<open>
  The cached content is patched before the disk is written; \<open>start_cluster\<close> is updated even when
  the write fails, the position and the entry only when it succeeds.
\<close>

definition fat_write ::
  "'d disk_ops \<Rightarrow> rtc_time option \<Rightarrow> bytes \<Rightarrow> fat_file \<Rightarrow> 'd \<Rightarrow> (fs_error + nat) \<times> fat_file \<times> 'd" where
  "fat_write ops now buf h d =
     (if h_read_only h then (Inl ReadOnly, h, d)
      else
        let h1 = h\<lparr>h_data := patch (h_pos h) buf (h_data h)\<rparr> in
        case write_range ops (h_geo h) (h_start h) (h_pos h) buf d of
          ((Inl e, start), d1) \<Rightarrow> (Inl e, h1\<lparr>h_start := start\<rparr>, d1)
        | ((Inr new_end, start), d1) \<Rightarrow>
            let h2 = h1\<lparr>h_start := start, h_size := max (h_size h) new_end\<rparr> in
            case set_entry ops now (h_slot h) start (min (h_size h2) (2 ^ 32 - 1)) d1 of
              (Inl e, d2) \<Rightarrow> (Inl e, h2, d2)
            | (Inr _, d2) \<Rightarrow> (Inr (length buf), h2\<lparr>h_pos := h_pos h + length buf\<rparr>, d2))"

definition fat_seek :: "seek_from \<Rightarrow> fat_file \<Rightarrow> fs_error + nat \<times> fat_file" where
  "fat_seek pos h =
     (let new = (case pos of
         Start off \<Rightarrow> to_i64 (int off)
       | Current off \<Rightarrow> to_i64 (to_i64 (int (h_pos h)) + off)
       | End off \<Rightarrow> to_i64 (int (length (h_data h)) + off))
      in if new < 0 then Inl InvalidPath else Inr (nat new, h\<lparr>h_pos := nat new\<rparr>))"

definition fat_position :: "fat_file \<Rightarrow> nat" where "fat_position h = h_pos h"

definition fat_size_of :: "fat_file \<Rightarrow> nat" where "fat_size_of h = length (h_data h)"

section \<open>The file system\<close>

definition fat_open :: "'d disk_ops \<Rightarrow> fat_fs \<Rightarrow> string \<Rightarrow> ('d, fat_file) io" where
  "fat_open ops fs path =
     bnd (find_path ops (ff_geo fs) path) (\<lambda>r.
       case r of
         None \<Rightarrow> err NotFound
       | Some sl \<Rightarrow>
           let e = sl_entry sl in
           if is_directory e then err IsADirectory
           else if \<not> is_regular e then err NotFound
           else bnd (read_chain ops (ff_geo fs) (get_cluster e)) (\<lambda>bs.
             ok \<lparr>h_geo = ff_geo fs, h_slot = sl, h_start = get_cluster e, h_size = fe_size e, h_pos = 0,
                 h_data = take (fe_size e) bs, h_read_only = ff_read_only fs\<rparr>))"

definition new_entry :: "rtc_time option \<Rightarrow> bytes \<Rightarrow> u8 \<Rightarrow> nat \<Rightarrow> fat_entry" where
  "new_entry now name attr c =
     (case dos_now now of (date, time) \<Rightarrow>
       \<lparr>fe_name = name, fe_attr = attr, fe_reserved = 0, fe_tenths = 0, fe_ctime = time, fe_cdate = date,
        fe_adate = date, fe_high = c div 2 ^ 16 mod 2 ^ 16, fe_wtime = time, fe_wdate = date,
        fe_low = c mod 2 ^ 16, fe_size = 0\<rparr>)"

definition fresh_handle :: "fat_fs \<Rightarrow> dir_slot \<Rightarrow> fat_file" where
  "fresh_handle fs sl =
     \<lparr>h_geo = ff_geo fs, h_slot = sl, h_start = 0, h_size = 0, h_pos = 0, h_data = [], h_read_only = False\<rparr>"

text \<open>\<open>to_83(&name).ok_or(FsError::NotSupported)?\<close>.\<close>

definition short_name :: "string \<Rightarrow> ('d, bytes) io" where
  "short_name name = (case to_83 name of None \<Rightarrow> err NotSupported | Some n \<Rightarrow> ok n)"

definition fat_create :: "'d disk_ops \<Rightarrow> rtc_time option \<Rightarrow> fat_fs \<Rightarrow> string \<Rightarrow> ('d, fat_file) io" where
  "fat_create ops now fs path =
     (let g = ff_geo fs in
      if ff_read_only fs then err ReadOnly
      else bnd (parent_cluster ops g path) (\<lambda>(dir, name).
        bnd (short_name name) (\<lambda>name83.
          bnd (find_in_dir ops g dir name) (\<lambda>r.
            bnd (case r of
                Some sl \<Rightarrow>
                  if is_directory (sl_entry sl) then err IsADirectory
                  else bnd (free_chain ops g (get_cluster (sl_entry sl))) (\<lambda>_.
                    bnd (set_entry ops now sl 0 0) (\<lambda>_. ok sl))
              | None \<Rightarrow>
                  bnd (find_free_slot ops g dir) (\<lambda>(s, off).
                    let e = new_entry now name83 0x20 0 in
                    bnd (put_entry ops s off e) (\<lambda>_. ok \<lparr>sl_entry = e, sl_sector = s, sl_offset = off\<rparr>)))
              (\<lambda>sl. ok (fresh_handle fs sl))))))"

text \<open>The first byte of a deleted entry is \<open>0xE5\<close>.\<close>

definition erase_entry :: "'d disk_ops \<Rightarrow> dir_slot \<Rightarrow> ('d, unit) io" where
  "erase_entry ops sl =
     bnd (read_sector ops (sl_sector sl)) (\<lambda>buf. write_sector ops (sl_sector sl) (buf[sl_offset sl := 0xE5]))"

definition fat_remove :: "'d disk_ops \<Rightarrow> fat_fs \<Rightarrow> string \<Rightarrow> ('d, unit) io" where
  "fat_remove ops fs path =
     (if ff_read_only fs then err ReadOnly
      else bnd (find_path ops (ff_geo fs) path) (\<lambda>r.
        case r of
          None \<Rightarrow> err NotFound
        | Some sl \<Rightarrow>
            if is_directory (sl_entry sl) then err IsADirectory
            else bnd (free_chain ops (ff_geo fs) (get_cluster (sl_entry sl))) (\<lambda>_. erase_entry ops sl)))"

definition dot_name :: bytes where "dot_name = 46 # replicate 10 32"
definition dotdot_name :: bytes where "dotdot_name = 46 # 46 # replicate 9 32"

definition fat_mkdir :: "'d disk_ops \<Rightarrow> rtc_time option \<Rightarrow> fat_fs \<Rightarrow> string \<Rightarrow> ('d, unit) io" where
  "fat_mkdir ops now fs path =
     (let g = ff_geo fs in
      if ff_read_only fs then err ReadOnly
      else bnd (parent_cluster ops g path) (\<lambda>(dir, name).
        bnd (short_name name) (\<lambda>name83.
          bnd (find_in_dir ops g dir name) (\<lambda>r.
            if r \<noteq> None then err AlreadyExists
            else bnd (alloc_cluster ops g None) (\<lambda>new.
              bnd (cluster_base g new) (\<lambda>base.
                bnd (zero_cluster ops g base) (\<lambda>_.
                  let dot = new_entry now dot_name 0x10 new;
                      dotdot = new_entry now dotdot_name 0x10 (if dir = root_cluster g then 0 else dir)
                  in bnd (write_sector ops base
                            (put_at 32 (entry_bytes dotdot) (put_at 0 (entry_bytes dot) (replicate 512 0)))) (\<lambda>_.
                    bnd (find_free_slot ops g dir) (\<lambda>(s, off).
                      put_entry ops s off (new_entry now name83 0x10 new))))))))))"

definition is_dots :: "string \<Rightarrow> bool" where
  "is_dots name \<longleftrightarrow> name = ''.'' \<or> name = ''..'' \<or> name = []"

definition fat_rmdir :: "'d disk_ops \<Rightarrow> fat_fs \<Rightarrow> string \<Rightarrow> ('d, unit) io" where
  "fat_rmdir ops fs path =
     (let g = ff_geo fs in
      if ff_read_only fs then err ReadOnly
      else bnd (find_path ops g path) (\<lambda>r.
        case r of
          None \<Rightarrow> err NotFound
        | Some sl \<Rightarrow>
            let c = get_cluster (sl_entry sl) in
            if \<not> is_directory (sl_entry sl) then err NotADirectory
            else if c = root_cluster g \<or> c < 2 then err PermissionDenied
            else bnd (read_dir ops g c) (\<lambda>es.
              if \<not> list_all (\<lambda>(_, name). is_dots name) es then err NotEmpty
              else bnd (free_chain ops g c) (\<lambda>_. erase_entry ops sl))))"

definition mode_of :: "fat_entry \<Rightarrow> u16" where
  "mode_of e = (if is_directory e then 0x1ED else 0x1A4)"

definition type_of :: "fat_entry \<Rightarrow> file_type" where
  "type_of e = (if is_directory e then Directory else File)"

definition listed :: "dir_slot \<times> string \<Rightarrow> dir_entry" where
  "listed x = (case x of (sl, name) \<Rightarrow>
     \<lparr>de_name = name, de_type = type_of (sl_entry sl), de_size = fe_size (sl_entry sl),
      de_perm = permissions_new (mode_of (sl_entry sl)), de_uid = 0, de_gid = 0\<rparr>)"

definition fat_readdir :: "'d disk_ops \<Rightarrow> fat_fs \<Rightarrow> string \<Rightarrow> ('d, dir_entry list) io" where
  "fat_readdir ops fs path =
     (let g = ff_geo fs in
      bnd (find_path ops g path) (\<lambda>r.
        case r of
          None \<Rightarrow> err NotFound
        | Some sl \<Rightarrow>
            bnd (if path = [slash] \<or> path = [] then ok (root_cluster g)
                 else if \<not> is_directory (sl_entry sl) then err NotADirectory
                 else ok (get_cluster (sl_entry sl))) (\<lambda>c.
              bnd (read_dir ops g c) (\<lambda>es. ok (map listed (filter (\<lambda>(_, name). \<not> is_dots name) es))))))"

definition fat_exists :: "'d disk_ops \<Rightarrow> fat_fs \<Rightarrow> string \<Rightarrow> 'd \<Rightarrow> bool \<times> 'd" where
  "fat_exists ops fs path d =
     (case find_path ops (ff_geo fs) path d of
        (Inr (Some _), d1) \<Rightarrow> (True, d1)
      | (_, d1) \<Rightarrow> (False, d1))"

definition fat_stat :: "'d disk_ops \<Rightarrow> fat_fs \<Rightarrow> string \<Rightarrow> ('d, file_metadata) io" where
  "fat_stat ops fs path =
     bnd (find_path ops (ff_geo fs) path) (\<lambda>r.
       case r of
         None \<Rightarrow> err NotFound
       | Some sl \<Rightarrow>
           ok \<lparr>de_name = (if path_parts path = [] then [slash] else List.last (path_parts path)),
               de_type = type_of (sl_entry sl), de_size = fe_size (sl_entry sl),
               de_perm = permissions_new (mode_of (sl_entry sl)), de_uid = 0, de_gid = 0,
               md_created = 0, md_modified = 0\<rparr>)"

section \<open>Entries and their bytes\<close>

definition entry_wf :: "fat_entry \<Rightarrow> bool" where
  "entry_wf e \<longleftrightarrow> length (fe_name e) = 11 \<and>
     list_all (\<lambda>n. n < 2 ^ 16) [fe_ctime e, fe_cdate e, fe_adate e, fe_high e, fe_wtime e, fe_wdate e, fe_low e] \<and>
     fe_size e < 2 ^ 32"

lemma length_entry_bytes [simp]: "length (entry_bytes e) = length (fe_name e) + 21"
  by (simp add: entry_bytes_def)

lemma entry_at_bytes:
  assumes "entry_wf e"
  shows "entry_at (entry_bytes e) 0 = e"
proof -
  have l: "length (fe_name e) = 11" and b: "le_nat (le_bytes 2 n) = n" if "n < 65536" for n
    using assms that le_nat_bytes [of n 2] by (simp_all add: entry_wf_def)
  have l: "length (fe_name e) = 11" and s: "le_nat (le_bytes 4 (fe_size e)) = fe_size e"
    using assms le_nat_bytes [of "fe_size e" 4] by (simp_all add: entry_wf_def)
  show ?thesis
    using assms l s b
    by (intro fat_entry.equality)
      (simp_all add: entry_at_def entry_bytes_def field16_def field32_def entry_wf_def nth_append)
qed

text \<open>An entry is a function of the 32 bytes of its slot.\<close>

lemma slice_nth: "i < n \<Longrightarrow> off + n \<le> length buf \<Longrightarrow> take n (drop off buf) ! i = buf ! (off + i)"
  by simp

lemma slice_slice: "drop i (take n (drop off buf)) = take (n - i) (drop (off + i) buf)"
  by (simp add: drop_take add.commute)

lemma entry_at_slice: "off + 32 \<le> length buf \<Longrightarrow> entry_at (take 32 (drop off buf)) 0 = entry_at buf off"
  by (simp add: entry_at_def field16_def field32_def slice_slice)

lemma lfn_part_slice: "off + 32 \<le> length buf \<Longrightarrow> lfn_part (take 32 (drop off buf)) 0 = lfn_part buf off"
  by (simp add: lfn_part_def field16_def slice_slice)

lemma entry_at_wf:
  assumes "off + 32 \<le> length buf"
  shows "entry_wf (entry_at buf off)"
proof -
  have "field16 buf i < 2 ^ 16" if "i + 2 \<le> length buf" for i
    using le_nat_bound [of "take 2 (drop i buf)"] that by (simp add: field16_def)
  moreover have "field32 buf (off + 28) < 2 ^ 32"
    using le_nat_bound [of "take 4 (drop (off + 28) buf)"] assms by (simp add: field32_def)
  ultimately show ?thesis using assms by (simp add: entry_at_def entry_wf_def)
qed

section \<open>A directory as a list of slots\<close>

text \<open>A slot of a directory is a cluster and the number of the entry in it.\<close>

definition addr :: "geo \<Rightarrow> nat \<times> nat \<Rightarrow> nat \<times> nat" where
  "addr g x = (data_start g + (fst x - 2) * spc g + snd x div 16, 32 * (snd x mod 16))"

definition chunk :: "(nat \<Rightarrow> bytes) \<Rightarrow> nat \<times> nat \<Rightarrow> bytes" where
  "chunk D x = take 32 (drop (32 * snd x) (D (fst x)))"

definition slots :: "geo \<Rightarrow> nat list \<Rightarrow> (nat \<times> nat) list" where
  "slots g cs = List.product cs [0..<16 * spc g]"

definition slot_entry :: "(nat \<Rightarrow> bytes) \<Rightarrow> nat \<times> nat \<Rightarrow> fat_entry" where
  "slot_entry D x = entry_at (chunk D x) 0"

definition slot_step :: "geo \<Rightarrow> (nat \<Rightarrow> bytes) \<Rightarrow> nat \<times> nat \<Rightarrow> scan_state \<Rightarrow> scan_state" where
  "slot_step g D x st =
     (let e = slot_entry D x in
      if is_free_entry e then (fst st, [])
      else if is_long_name e then (fst st, snd st @ [lfn_part (chunk D x) 0])
      else if fe_attr e AND 0x08 = 0
      then (fst st @ [(\<lparr>sl_entry = e, sl_sector = fst (addr g x), sl_offset = snd (addr g x)\<rparr>,
             shown_name e (snd st))], [])
      else (fst st, []))"

primrec scan_slots :: "geo \<Rightarrow> (nat \<Rightarrow> bytes) \<Rightarrow> (nat \<times> nat) list \<Rightarrow> scan_state \<Rightarrow> bool \<times> scan_state" where
  "scan_slots g D [] st = (False, st)"
| "scan_slots g D (x # xs) st =
     (if is_end_entry (slot_entry D x) then (True, st) else scan_slots g D xs (slot_step g D x st))"

definition dir_listing :: "geo \<Rightarrow> (nat \<Rightarrow> bytes) \<Rightarrow> nat list \<Rightarrow> listing" where
  "dir_listing g D cs = fst (snd (scan_slots g D (slots g cs) ([], [])))"

lemma scan_slots_append:
  "scan_slots g D (xs @ ys) st =
     (let r = scan_slots g D xs st in if fst r then r else scan_slots g D ys (snd r))"
  by (induction xs arbitrary: st) simp_all

lemma scan_slots_cong:
  "(\<And>x. x \<in> set xs \<Longrightarrow> chunk D x = chunk D' x) \<Longrightarrow> scan_slots g D xs st = scan_slots g D' xs st"
  by (induction xs arbitrary: st) (simp_all add: slot_step_def slot_entry_def Let_def)

lemma upt_mult: "[0..<k * n] = concat (map (\<lambda>i. map (\<lambda>j. k * i + j) [0..<k]) [0..<n])"
proof (induction n)
  case (Suc n)
  have "[0..<k * Suc n] = [0..<k * n] @ [k * n..<k * n + k]"
    by (subst upt_add_eq_append [symmetric]) (simp_all add: add.commute)
  moreover have "[k * n..<k * n + k] = map (\<lambda>j. k * n + j) [0..<k]"
    using map_add_upt [of "k * n" k] by (simp add: add.commute)
  ultimately show ?case using Suc by simp
qed simp

text \<open>The slots of a sector.\<close>

definition sector_slots :: "nat \<Rightarrow> nat \<Rightarrow> (nat \<times> nat) list" where
  "sector_slots c i = map (\<lambda>j. (c, 16 * i + j)) [0..<16]"

lemma slots_cluster: "slots g (c # cs) = concat (map (sector_slots c) [0..<spc g]) @ slots g cs"
proof -
  have "map (Pair c) [0..<16 * spc g] = concat (map (sector_slots c) [0..<spc g])"
    unfolding upt_mult map_concat sector_slots_def by (simp add: comp_def)
  then show ?thesis by (simp add: slots_def)
qed

lemma slots_Nil [simp]: "slots g [] = []"
  by (simp add: slots_def)

section \<open>Reading a directory of a volume\<close>

lemma concat_block:
  assumes "\<And>i. i < n \<Longrightarrow> length (h i) = k" "i < n"
  shows "take k (drop (k * i) (concat (map h [0..<n]))) = h i"
proof -
  have "[0..<n] = [0..<i] @ i # [Suc i..<n]"
    using assms(2) by (metis upt_rec less_imp_le_nat le0 upt_add_eq_append le_add_diff_inverse)
  then have "concat (map h [0..<n]) = concat (map h [0..<i]) @ h i @ concat (map h [Suc i..<n])" by simp
  moreover have "length (concat (map h [0..<i])) = k * i"
    using length_concat_blocks [of k "map h [0..<i]"] assms by (simp add: list_all_iff)
  ultimately show ?thesis using assms by simp
qed

lemma slot_in_sector:
  assumes "buf = take 512 (drop (512 * i) (D c))" "length buf = 512" "j < 16"
  shows "chunk D (c, 16 * i + j) = take 32 (drop (32 * j) buf)"
  using assms(3) unfolding assms(1) slice_slice chunk_def by (simp add: min_def algebra_simps)

lemma slot_step_in_sector:
  assumes "buf = take 512 (drop (512 * i) (D c))" "length buf = 512" "j < 16"
    "s = data_start g + (c - 2) * spc g + i"
  shows "entry_at buf (32 * j) = slot_entry D (c, 16 * i + j)"
    "dir_step s buf (32 * j) st = slot_step g D (c, 16 * i + j) st"
proof -
  note ch = slot_in_sector [where D = D and c = c and i = i, OF assms(1-3)]
  have o: "32 * j + 32 \<le> length buf" using assms(2,3) by simp
  show e: "entry_at buf (32 * j) = slot_entry D (c, 16 * i + j)"
    unfolding slot_entry_def ch entry_at_slice [OF o] ..
  show "dir_step s buf (32 * j) st = slot_step g D (c, 16 * i + j) st"
    using assms(3,4) unfolding dir_step_def slot_step_def e ch lfn_part_slice [OF o] by (simp add: addr_def Let_def)
qed

lemma scan_sector_slots:
  assumes "buf = take 512 (drop (512 * i) (D c))" "length buf = 512"
    "s = data_start g + (c - 2) * spc g + i" "\<forall>j \<in> set js. j < 16"
  shows "scan_sector s buf (map (\<lambda>j. 32 * j) js) st = scan_slots g D (map (\<lambda>j. (c, 16 * i + j)) js) st"
  using assms(4)
proof (induction js arbitrary: st)
  case (Cons j js)
  then show ?case using slot_step_in_sector [where D = D and c = c and i = i, OF assms(1,2) _ assms(3), of j] by simp
qed simp

context fat_volume
begin

lemma data_sector:
  assumes "rel d f D" "2 \<le> c" "c < clusters g" "i < spc g"
  shows "sector d (data_start g + (c - 2) * spc g + i) = take 512 (drop (512 * i) (D c))"
proof -
  have "D c = cluster_of g (sector d) c" using assms by (simp add: vol_def)
  then show ?thesis using concat_block [where h = "\<lambda>i. sector d (data_start g + (c - 2) * spc g + i)" and k = 512, OF _ assms(4)]
    by (simp add: cluster_of_def)
qed

lemma read_data_sector:
  assumes "rel d f D" "2 \<le> c" "c < clusters g" "i < spc g"
  obtains d' where "read_sector ops (data_start g + (c - 2) * spc g + i) d = (Inr (take 512 (drop (512 * i) (D c))), d')"
    "rel d' f D"
proof -
  obtain d' where "read_sector ops (data_start g + (c - 2) * spc g + i) d
      = (Inr (sector d (data_start g + (c - 2) * spc g + i)), d')" "sector d' = sector d"
    using read_sector_ok [OF data_place [OF geometry assms(2-4)]] .
  then show thesis using that [of d'] assms(1) data_sector [OF assms] by simp
qed

lemma length_data: "rel d f D \<Longrightarrow> 2 \<le> c \<Longrightarrow> c < clusters g \<Longrightarrow> length (D c) = 512 * spc g"
  using length_cluster_of [of "sector d" g c] by (simp add: vol_def)

lemma length_data_sector:
  "rel d f D \<Longrightarrow> 2 \<le> c \<Longrightarrow> c < clusters g \<Longrightarrow> i < spc g \<Longrightarrow> length (take 512 (drop (512 * i) (D c))) = 512"
  using data_sector length_sector by metis

lemma scan_sectors_ok:
  assumes "rel d f D" "2 \<le> c" "c < clusters g" "\<forall>i \<in> set ids. i < spc g"
  shows "\<exists>d'. scan_sectors ops (map (\<lambda>i. data_start g + (c - 2) * spc g + i) ids) st d =
      (Inr (scan_slots g D (concat (map (sector_slots c) ids)) st), d') \<and> rel d' f D"
  using assms(1,4)
proof (induction ids arbitrary: d st)
  case (Cons i ids)
  let ?buf = "take 512 (drop (512 * i) (D c))" and ?s = "data_start g + (c - 2) * spc g + i"
  have i: "i < spc g" using Cons.prems(2) by simp
  obtain d1 where d1: "read_sector ops ?s d = (Inr ?buf, d1)" "rel d1 f D"
    by (rule read_data_sector [OF Cons.prems(1) assms(2,3) i])
  have "scan_sector ?s ?buf entry_offsets st = scan_slots g D (sector_slots c i) st"
    unfolding entry_offsets_def sector_slots_def
    by (rule scan_sector_slots [where D = D and c = c and i = i, OF refl length_data_sector [OF Cons.prems(1) assms(2,3) i] refl]) simp
  moreover obtain d2 where "scan_sectors ops (map (\<lambda>i. data_start g + (c - 2) * spc g + i) ids)
      (snd (scan_slots g D (sector_slots c i) st)) d1 =
      (Inr (scan_slots g D (concat (map (sector_slots c) ids)) (snd (scan_slots g D (sector_slots c i) st))), d2)"
    "rel d2 f D"
    using Cons.IH [OF d1(2)] Cons.prems(2) by (metis list.set_intros(2))
  ultimately show ?case
    using d1 by (cases "scan_slots g D (sector_slots c i) st") (auto simp: bnd_simps(1) ok_def scan_slots_append Let_def)
qed (simp add: ok_def)

lemma scan_clusters_ok:
  assumes "rel d f D" "\<forall>c \<in> set cs. 2 \<le> c \<and> c < clusters g"
  shows "\<exists>d'. scan_clusters ops g cs st d = (Inr (fst (snd (scan_slots g D (slots g cs) st))), d') \<and> rel d' f D"
  using assms
proof (induction cs arbitrary: d st)
  case (Cons c cs)
  have c: "2 \<le> c" "c < clusters g" using Cons.prems(2) by simp_all
  obtain d1 where d1: "scan_sectors ops (map (\<lambda>i. data_start g + (c - 2) * spc g + i) [0..<spc g]) st d =
      (Inr (scan_slots g D (concat (map (sector_slots c) [0..<spc g])) st), d1)" "rel d1 f D"
    using scan_sectors_ok [OF Cons.prems(1) c, of "[0..<spc g]" st] by fastforce
  let ?r = "scan_slots g D (concat (map (sector_slots c) [0..<spc g])) st"
  obtain d2 where "scan_clusters ops g cs (snd ?r) d1 = (Inr (fst (snd (scan_slots g D (slots g cs) (snd ?r)))), d2)"
    "rel d2 f D"
    using Cons.IH [OF d1(2)] Cons.prems(2) by (metis list.set_intros(2))
  then show ?case
    using d1 by (cases ?r)
      (auto simp: cluster_base_ok [OF c(1)] bnd_simps(1,3) ok_def slots_cluster scan_slots_append Let_def)
qed (simp add: ok_def)

lemma read_dir_ok:
  assumes "rel d f D" "owns g f dir cs"
  obtains d' where "read_dir ops g dir d = (Inr (dir_listing g D cs), d')" "rel d' f D"
proof -
  obtain d1 where "chain ops g dir d = (Inr cs, d1)" "rel d1 f D" using chain_ok [OF assms] .
  moreover obtain d2 where "scan_clusters ops g cs ([], []) d1 = (Inr (dir_listing g D cs), d2)" "rel d2 f D"
    using scan_clusters_ok [OF calculation(2)] owns_bounds [OF assms(2)] unfolding dir_listing_def by blast
  ultimately show thesis using that by (simp add: read_dir_def bnd_simps(1))
qed

end

section \<open>Writing a slot\<close>

definition set_slot :: "(nat \<Rightarrow> bytes) \<Rightarrow> nat \<times> nat \<Rightarrow> bytes \<Rightarrow> nat \<Rightarrow> bytes" where
  "set_slot D x bs = D(fst x := put_at (32 * snd x) bs (D (fst x)))"

definition valid_slot :: "geo \<Rightarrow> nat \<times> nat \<Rightarrow> bool" where
  "valid_slot g x \<longleftrightarrow> 2 \<le> fst x \<and> fst x < clusters g \<and> snd x < 16 * spc g"

lemma slots_valid: "owns g f dir cs \<Longrightarrow> x \<in> set (slots g cs) \<Longrightarrow> valid_slot g x"
  using owns_bounds by (fastforce simp: slots_def valid_slot_def)

lemma put_at_other:
  assumes "i + n \<le> off \<or> off + length bs \<le> i" "off + length bs \<le> length buf" "i + n \<le> length buf"
  shows "take n (drop i (put_at off bs buf)) = take n (drop i buf)"
  using assms by (intro nth_equalityI) (auto simp: put_at_nth)

lemma put_at_same: "off + length bs \<le> length buf \<Longrightarrow> take (length bs) (drop off (put_at off bs buf)) = bs"
  by (simp add: put_at_def)

lemma chunk_set_other:
  assumes "x \<noteq> y" "length bs \<le> 32" "32 * snd x + 32 \<le> length (D (fst x))" "32 * snd y + 32 \<le> length (D (fst y))"
  shows "chunk (set_slot D x bs) y = chunk D y"
proof (cases "fst x = fst y")
  case True
  then have "snd y < snd x \<or> snd x < snd y" using assms(1) by (metis linorder_neqE_nat prod.collapse)
  then have "32 * snd y + 32 \<le> 32 * snd x \<or> 32 * snd x + length bs \<le> 32 * snd y" using assms(2) by linarith
  then show ?thesis
    using True assms by (simp add: chunk_def set_slot_def put_at_other)
qed (simp add: chunk_def set_slot_def)

lemma chunk_set_same:
  "length bs = 32 \<Longrightarrow> 32 * snd x + 32 \<le> length (D (fst x)) \<Longrightarrow> chunk (set_slot D x bs) x = bs"
  using put_at_same [of "32 * snd x" bs "D (fst x)"] by (simp add: chunk_def set_slot_def)

lemma chunk_erase:
  assumes "32 * snd x + 32 \<le> length (D (fst x))"
  shows "chunk (set_slot D x [v]) x = (chunk D x)[0 := v]"
  using assms unfolding chunk_def set_slot_def
  by (intro nth_equalityI) (auto simp: put_at_nth nth_list_update)

definition free_slot :: "geo \<Rightarrow> (nat \<Rightarrow> bytes) \<Rightarrow> nat list \<Rightarrow> (nat \<times> nat) option" where
  "free_slot g D cs = find (\<lambda>x. is_free_entry (slot_entry D x)) (slots g cs)"

lemma is_free_chunk: "0 < length (chunk D x) \<Longrightarrow>
    is_free_entry (slot_entry D x) \<longleftrightarrow> chunk D x ! 0 = 0 \<or> chunk D x ! 0 = 0xE5"
  by (simp add: is_free_entry_def slot_entry_def entry_at_def)

context fat_volume
begin

lemma slot_room: "rel d f D \<Longrightarrow> valid_slot g x \<Longrightarrow> 32 * snd x + 32 \<le> length (D (fst x))"
  using length_data [of d f D "fst x"] by (auto simp: valid_slot_def)

lemma rewrite_ok:
  assumes "rel d f D" "2 \<le> c" "c < clusters g" "i < spc g" "s = data_start g + (c - 2) * spc g + i"
    "buf = take 512 (drop (512 * i) (D c))" "off + length bs \<le> 512" "h buf = put_at off bs buf"
  shows "\<exists>d'. bnd (read_sector ops s) (\<lambda>buf. write_sector ops s (h buf)) d = (Inr (), d') \<and>
    rel d' f (D(c := put_at (512 * i + off) bs (D c)))"
proof -
  obtain d1 where d1: "read_sector ops s d = (Inr (sector d s), d1)" "sector d1 = sector d"
    using read_sector_ok data_place [OF geometry assms(2-4)] assms(5) by blast
  have b: "sector d s = buf" using data_sector [OF assms(1-4)] assms(5,6) by simp
  have "length (h (sector d s)) = 512" using assms(7,8) b length_sector by (metis put_at_length)
  then obtain d2 where d2: "write_sector ops s (h (sector d s)) d1 = (Inr (), d2)"
    "sector d2 = (sector d1)(s := h (sector d s))"
    using write_sector_ok data_place [OF geometry assms(2-4)] assms(5) by metis
  have "rel d2 f (D(c := put_at (512 * i + off) bs (D c)))"
    using vol_data_update [OF geometry assms(1-4,7) length_sector assms(5)] assms(8) d1(2) d2(2) b by simp
  then show ?thesis using d1(1) d2(1) by (simp add: bnd_simps(1))
qed

lemma rewrite_slot_ok:
  assumes "rel d f D" "valid_slot g x" "length bs \<le> 32"
    "\<And>buf. length buf = 512 \<Longrightarrow> chunk D x = take 32 (drop (snd (addr g x)) buf) \<Longrightarrow>
      h buf = put_at (snd (addr g x)) bs buf"
  shows "\<exists>d'. bnd (read_sector ops (fst (addr g x))) (\<lambda>buf. write_sector ops (fst (addr g x)) (h buf)) d = (Inr (), d') \<and>
    rel d' f (set_slot D x bs)"
proof -
  obtain c k where x: "x = (c, k)" by fastforce
  have c: "2 \<le> c" "c < clusters g" "k div 16 < spc g"
    using assms(2) by (auto simp: valid_slot_def x less_mult_imp_div_less mult.commute)
  have l: "length (take 512 (drop (512 * (k div 16)) (D c))) = 512"
    by (rule length_data_sector [OF assms(1) c])
  have j: "k mod 16 < 16" "16 * (k div 16) + k mod 16 = k" by simp_all
  have "chunk D x = take 32 (drop (32 * (k mod 16)) (take 512 (drop (512 * (k div 16)) (D c))))"
    using slot_in_sector [where D = D and c = c and i = "k div 16", OF refl l j(1)] j(2) x by simp
  then have "h (take 512 (drop (512 * (k div 16)) (D c)))
      = put_at (32 * (k mod 16)) bs (take 512 (drop (512 * (k div 16)) (D c)))"
    using assms(4) [OF l] by (simp add: addr_def x)
  moreover have "32 * (k mod 16) + length bs \<le> 512" using assms(3) j(1) by linarith
  moreover have "512 * (k div 16) + 32 * (k mod 16) = 32 * k" using j(2) by linarith
  ultimately show ?thesis
    using rewrite_ok [OF assms(1) c refl refl, of "32 * (k mod 16)" bs h]
    by (simp add: addr_def set_slot_def x)
qed

lemma put_entry_ok:
  assumes "rel d f D" "valid_slot g x" "entry_wf e"
  shows "\<exists>d'. put_entry ops (fst (addr g x)) (snd (addr g x)) e d = (Inr (), d') \<and>
    rel d' f (set_slot D x (entry_bytes e))"
  using assms(3) unfolding put_entry_def
  by (intro rewrite_slot_ok [OF assms(1,2)]) (auto simp: entry_wf_def)

lemma set_entry_ok:
  assumes "rel d f D" "valid_slot g x" "sl_sector sl = fst (addr g x)" "sl_offset sl = snd (addr g x)"
    "e = (set_cluster c (slot_entry D x))\<lparr>fe_size := sz, fe_wdate := fst (dos_now now), fe_wtime := snd (dos_now now)\<rparr>"
  shows "\<exists>d'. set_entry ops now sl c sz d = (Inr (), d') \<and> rel d' f (set_slot D x (entry_bytes e))"
proof -
  have "length (fe_name e) = 11" using slot_room [OF assms(1,2)]
    by (simp add: assms(5) set_cluster_def slot_entry_def entry_at_def chunk_def)
  moreover have "entry_at buf (snd (addr g x)) = slot_entry D x"
    if "length buf = 512" "chunk D x = take 32 (drop (snd (addr g x)) buf)" for buf
  proof -
    have "snd x mod 16 < 16" by simp
    then have "snd (addr g x) + 32 \<le> length buf" unfolding addr_def that(1) snd_conv by linarith
    then show ?thesis using entry_at_slice that(2) by (simp add: slot_entry_def)
  qed
  ultimately show ?thesis
    unfolding set_entry_def assms(3,4) Let_def
    by (intro rewrite_slot_ok [OF assms(1,2)]) (simp_all add: assms(5))
qed

lemma erase_entry_ok:
  assumes "rel d f D" "valid_slot g x" "sl_sector sl = fst (addr g x)" "sl_offset sl = snd (addr g x)"
  shows "\<exists>d'. erase_entry ops sl d = (Inr (), d') \<and> rel d' f (set_slot D x [0xE5])"
proof -
  have "buf[snd (addr g x) := 0xE5] = put_at (snd (addr g x)) [0xE5] buf" if "length buf = 512" for buf
  proof -
    have "snd x mod 16 < 16" by simp
    then have "snd (addr g x) < length buf" unfolding addr_def that(1) snd_conv by linarith
    then show ?thesis by (simp add: put_at_def upd_conv_take_nth_drop)
  qed
  then show ?thesis
    unfolding erase_entry_def assms(3,4) by (intro rewrite_slot_ok [OF assms(1,2)]) simp_all
qed

end

section \<open>Finding and making room\<close>

lemma for_each_append: "for_each h (xs @ ys) = bnd (for_each h xs) (\<lambda>_. for_each h ys)"
  by (induction xs) (auto simp: bnd_def ok_def fun_eq_iff split: prod.splits sum.splits)

lemma free_offset_sector:
  assumes "buf = take 512 (drop (512 * i) (D c))" "length buf = 512" "s = data_start g + (c - 2) * spc g + i"
  shows "map_option (\<lambda>off. (s, off)) (free_offset buf)
    = map_option (addr g) (find (\<lambda>x. is_free_entry (slot_entry D x)) (sector_slots c i))"
proof -
  have free: "is_free_entry (slot_entry D (c, 16 * i + j)) \<longleftrightarrow> buf ! (32 * j) = 0 \<or> buf ! (32 * j) = 0xE5"
    if "j < 16" for j
    using slot_in_sector [where D = D and c = c and i = i, OF assms(1,2) that] assms(2) that
    by (simp add: is_free_chunk)
  have "map_option (\<lambda>off. (s, off)) (find (\<lambda>off. buf ! off = 0 \<or> buf ! off = 0xE5) (map (\<lambda>j. 32 * j) js))
      = map_option (addr g) (find (\<lambda>x. is_free_entry (slot_entry D x)) (map (\<lambda>j. (c, 16 * i + j)) js))"
    if "\<forall>j \<in> set js. j < 16" for js
    using that
  proof (induction js)
    case (Cons j js)
    then show ?case using free [of j] assms(3) by (simp add: addr_def)
  qed simp
  then show ?thesis by (simp add: free_offset_def entry_offsets_def sector_slots_def)
qed

context fat_volume
begin

lemma free_in_sectors_ok:
  assumes "rel d f D" "2 \<le> c" "c < clusters g" "\<forall>i \<in> set ids. i < spc g"
  shows "\<exists>d'. free_in_sectors ops (map (\<lambda>i. data_start g + (c - 2) * spc g + i) ids) d =
      (Inr (map_option (addr g) (find (\<lambda>x. is_free_entry (slot_entry D x)) (concat (map (sector_slots c) ids)))), d') \<and>
    rel d' f D"
  using assms(1,4)
proof (induction ids arbitrary: d)
  case (Cons i ids)
  let ?buf = "take 512 (drop (512 * i) (D c))" and ?s = "data_start g + (c - 2) * spc g + i"
  have i: "i < spc g" using Cons.prems(2) by simp
  obtain d1 where d1: "read_sector ops ?s d = (Inr ?buf, d1)" "rel d1 f D"
    by (rule read_data_sector [OF Cons.prems(1) assms(2,3) i])
  note off = free_offset_sector [where D = D and c = c and i = i,
      OF refl length_data_sector [OF Cons.prems(1) assms(2,3) i] refl]
  obtain d2 where d2: "free_in_sectors ops (map (\<lambda>i. data_start g + (c - 2) * spc g + i) ids) d1 =
      (Inr (map_option (addr g) (find (\<lambda>x. is_free_entry (slot_entry D x)) (concat (map (sector_slots c) ids)))), d2)"
    "rel d2 f D"
    using Cons.IH [OF d1(2)] Cons.prems(2) by (metis list.set_intros(2))
  show ?case
  proof (cases "free_offset ?buf")
    case None
    then show ?thesis using d1 d2 off by (auto simp: bnd_simps(1) find_append)
  next
    case (Some fo)
    then have hit: "map_option (addr g) (find (\<lambda>x. is_free_entry (slot_entry D x)) (sector_slots c i)) = Some (?s, fo)"
      using off [of g] by simp
    then obtain x where "find (\<lambda>x. is_free_entry (slot_entry D x)) (sector_slots c i) = Some x" by auto
    then show ?thesis using d1 Some hit by (simp add: bnd_simps(1) find_append ok_def)
  qed
qed (simp add: ok_def)

lemma free_in_clusters_ok:
  assumes "rel d f D" "\<forall>c \<in> set cs. 2 \<le> c \<and> c < clusters g"
  shows "\<exists>d'. free_in_clusters ops g cs d = (Inr (map_option (addr g) (free_slot g D cs)), d') \<and> rel d' f D"
  using assms
proof (induction cs arbitrary: d)
  case (Cons c cs)
  have c: "2 \<le> c" "c < clusters g" using Cons.prems(2) by simp_all
  let ?r = "find (\<lambda>x. is_free_entry (slot_entry D x)) (concat (map (sector_slots c) [0..<spc g]))"
  obtain d1 where d1: "free_in_sectors ops (map (\<lambda>i. data_start g + (c - 2) * spc g + i) [0..<spc g]) d =
      (Inr (map_option (addr g) ?r), d1)" "rel d1 f D"
    using free_in_sectors_ok [OF Cons.prems(1) c, of "[0..<spc g]"] by fastforce
  obtain d2 where "free_in_clusters ops g cs d1 = (Inr (map_option (addr g) (free_slot g D cs)), d2)" "rel d2 f D"
    using Cons.IH [OF d1(2)] Cons.prems(2) by (metis list.set_intros(2))
  then show ?case
    using d1 by (cases ?r)
      (auto simp: cluster_base_ok [OF c(1)] bnd_simps(1,3) ok_def slots_cluster find_append free_slot_def)
qed (simp add: ok_def free_slot_def)

lemma zero_sectors_ok:
  assumes "rel d f D" "2 \<le> c" "c < clusters g" "m \<le> spc g"
  shows "\<exists>d'. for_each (\<lambda>i. write_sector ops (data_start g + (c - 2) * spc g + i) (replicate 512 0)) [0..<m] d
      = (Inr (), d') \<and> rel d' f (D(c := put_at 0 (replicate (512 * m) 0) (D c)))"
  using assms(4)
proof (induction m)
  case 0
  then show ?case using assms(1) by (simp add: ok_def)
next
  case (Suc m)
  let ?base = "data_start g + (c - 2) * spc g" and ?z = "\<lambda>m. replicate (512 * m) (0 :: u8)"
  have m: "m < spc g" using Suc.prems by simp
  obtain d1 where d1: "for_each (\<lambda>i. write_sector ops (?base + i) (replicate 512 0)) [0..<m] d = (Inr (), d1)"
    "rel d1 f (D(c := put_at 0 (?z m) (D c)))"
    using Suc.IH m less_imp_le_nat by blast
  obtain d2 where d2: "write_sector ops (?base + m) (replicate 512 0) d1 = (Inr (), d2)"
    "sector d2 = (sector d1)(?base + m := replicate 512 0)"
    using write_sector_ok [OF data_place [OF geometry assms(2,3) m]] by (metis length_replicate)
  have "rel d2 f (D(c := put_at (512 * m) (replicate 512 0) (put_at 0 (?z m) (D c))))"
    using vol_data_update [OF geometry d1(2) assms(2,3) m, of 0 "replicate 512 0", OF _ length_sector refl] d2(2)
    by (simp add: put_at_whole)
  moreover have "512 * m + 512 \<le> length (D c)"
  proof -
    have "512 * Suc m \<le> 512 * spc g" using m by (intro mult_le_mono2) simp
    then show ?thesis using length_data [OF assms(1-3)] by simp
  qed
  then have "put_at (0 + length (?z m)) (replicate 512 0) (put_at 0 (?z m) (D c)) = put_at 0 (?z m @ replicate 512 0) (D c)"
    by (intro put_at_put_at) simp
  then have "put_at (512 * m) (replicate 512 0) (put_at 0 (?z m) (D c)) = put_at 0 (?z (Suc m)) (D c)"
    by (simp add: replicate_add [symmetric] add.commute)
  ultimately have "rel d2 f (D(c := put_at 0 (?z (Suc m)) (D c)))" by (simp only:)
  moreover have "for_each (\<lambda>i. write_sector ops (?base + i) (replicate 512 0)) [0..<Suc m] d = (Inr (), d2)"
    using d1(1) d2(1) by (simp add: for_each_append bnd_simps(1) ok_def)
  ultimately show ?case by blast
qed

lemma zero_cluster_ok:
  assumes "rel d f D" "2 \<le> c" "c < clusters g"
  shows "\<exists>d'. zero_cluster ops g (data_start g + (c - 2) * spc g) d = (Inr (), d') \<and>
    rel d' f (D(c := replicate (512 * spc g) 0))"
  using zero_sectors_ok [OF assms order_refl] length_data [OF assms]
  by (simp add: zero_cluster_def put_at_whole)

text \<open>The directory that \<open>find_free_slot\<close> leaves: the same, or one empty cluster longer.\<close>

lemma find_free_slot_ok:
  assumes "rel d f D" "owns g f dir cs" "cs \<noteq> []" "free_slot g D cs \<noteq> None \<or> free_clusters g f \<noteq> {}"
  obtains x f' D' cs' d' where "find_free_slot ops g dir d = (Inr (addr g x), d')" "rel d' f' D'"
    "grown g dir f cs f' cs'" "free_slot g D' cs' = Some x"
    "cs' = cs \<and> D' = D \<and> f' = f \<or>
      free_slot g D cs = None \<and> (\<exists>n. cs' = cs @ [n] \<and> n \<in> free_clusters g f \<and> D' = D(n := replicate (512 * spc g) 0) \<and> x = (n, 0))"
proof -
  obtain d1 where d1: "chain ops g dir d = (Inr cs, d1)" "rel d1 f D" using chain_ok [OF assms(1,2)] .
  obtain d2 where d2: "free_in_clusters ops g cs d1 = (Inr (map_option (addr g) (free_slot g D cs)), d2)" "rel d2 f D"
    using free_in_clusters_ok [OF d1(2)] owns_bounds [OF assms(2)] by blast
  show thesis
  proof (cases "free_slot g D cs")
    case (Some x)
    then show thesis
      using that [of x d2 f D cs] d1(1) d2 grown_refl [OF assms(2)] by (simp add: find_free_slot_def bnd_simps(1) ok_def)
  next
    case None
    then have fne: "free_clusters g f \<noteq> {}" using assms(4) by simp
    then obtain n where n: "find (\<lambda>c. f c = 0) [2..<clusters g] = Some n"
      using find_none_free by fastforce
    have nf: "n \<in> free_clusters g f" by (rule find_free [OF n])
    have nb: "2 \<le> n" "n < clusters g" using nf by (auto simp: free_clusters_def)
    have lb: "List.last cs < clusters g" using owns_bounds [OF assms(2)] assms(3) by simp
    let ?f = "f(n := FAT_EOC, List.last cs := n)"
    obtain d3 where d3: "alloc_cluster ops g (Some (List.last cs)) d2 = (Inr n, d3)" "rel d3 ?f D"
      using alloc_cluster_ok [OF d2(2), of "Some (List.last cs)"] lb n by (auto simp: marked_def)
    obtain d4 where d4: "zero_cluster ops g (data_start g + (n - 2) * spc g) d3 = (Inr (), d4)"
      "rel d4 ?f (D(n := replicate (512 * spc g) 0))" using zero_cluster_ok [OF d3(2) nb] by blast
    have g: "grown g dir f cs ?f (cs @ [n])"
      by (rule grown_append [OF assms(2,3) nf]) (simp add: is_end_of_chain_def FAT_EOC_def)
    let ?D = "D(n := replicate (512 * spc g) 0)"
    have new: "n \<notin> set cs" using owns_not_free [OF assms(2), of n] nf by (auto simp: free_clusters_def)
    have "find (\<lambda>x. is_free_entry (slot_entry ?D x)) (slots g cs) = None"
    proof -
      have "slot_entry ?D x = slot_entry D x" if "x \<in> set (slots g cs)" for x
        using that new by (auto simp: slots_def slot_entry_def chunk_def)
      then show ?thesis using None by (auto simp: free_slot_def find_None_iff)
    qed
    moreover have "0 < spc g" using geometry by (simp add: geo_ok_def)
    then obtain rest where rest: "slots g [n] = (n, 0) # rest" by (cases "16 * spc g") (auto simp: slots_def upt_rec)
    have "32 \<le> 512 * spc g" using \<open>0 < spc g\<close> by simp
    then have "chunk ?D (n, 0) = replicate 32 0" by (simp add: chunk_def min_def)
    then have "is_free_entry (slot_entry ?D (n, 0))" by (simp add: is_free_chunk)
    moreover have "slots g (cs @ [n]) = slots g cs @ slots g [n]" by (simp add: slots_def product_concat_map)
    ultimately have "free_slot g ?D (cs @ [n]) = Some (n, 0)" by (simp add: free_slot_def find_append rest)
    moreover have "find_free_slot ops g dir d = (Inr (addr g (n, 0)), d4)"
      using d1(1) d2(1) d3(1) d4(1) None assms(3)
      by (simp add: find_free_slot_def bnd_simps cluster_base_ok [OF nb(1)] ok_def addr_def)
    ultimately show thesis using that [of "(n, 0)" d4 ?f ?D "cs @ [n]"] d4(2) g None nf by blast
  qed
qed

end

section \<open>Listings\<close>

definition slot_of :: "geo \<Rightarrow> nat \<times> nat \<Rightarrow> fat_entry \<Rightarrow> dir_slot" where
  "slot_of g x e = \<lparr>sl_entry = e, sl_sector = fst (addr g x), sl_offset = snd (addr g x)\<rparr>"

text \<open>An entry that a listing shows.\<close>

definition live :: "fat_entry \<Rightarrow> bool" where
  "live e \<longleftrightarrow> \<not> is_free_entry e \<and> \<not> is_long_name e \<and> fe_attr e AND 0x08 = 0"

text \<open>
  The scan reaches the slot \<open>x\<close> with the listing \<open>L\<close> and the long name parts \<open>p\<close>, and what follows the
  slot adds \<open>R\<close>.
\<close>

definition at_slot :: "geo \<Rightarrow> (nat \<Rightarrow> bytes) \<Rightarrow> nat list \<Rightarrow> nat \<times> nat \<Rightarrow> listing \<Rightarrow> nat list list \<Rightarrow> listing \<Rightarrow> bool" where
  "at_slot g D cs x L p R \<longleftrightarrow>
     (\<exists>pre post. slots g cs = pre @ x # post \<and> scan_slots g D pre ([], []) = (False, L, p) \<and>
        R = fst (snd (scan_slots g D post ([], []))))"

text \<open>Behind the first end mark there are only end marks.\<close>

definition well_ended :: "geo \<Rightarrow> (nat \<Rightarrow> bytes) \<Rightarrow> nat list \<Rightarrow> bool" where
  "well_ended g D cs \<longleftrightarrow>
     (\<exists>A B. slots g cs = A @ B \<and> (\<forall>y \<in> set A. \<not> is_end_entry (slot_entry D y)) \<and>
        (\<forall>y \<in> set B. is_end_entry (slot_entry D y)))"

lemma end_free: "is_end_entry e \<Longrightarrow> is_free_entry e"
  by (simp add: is_end_entry_def is_free_entry_def)

lemma slot_step_add: "slot_step g D x (A @ B, p) = (A @ fst (slot_step g D x (B, p)), snd (slot_step g D x (B, p)))"
  by (simp add: slot_step_def Let_def)

lemma scan_slots_add:
  "scan_slots g D xs (A @ B, p) =
     (fst (scan_slots g D xs (B, p)), A @ fst (snd (scan_slots g D xs (B, p))), snd (snd (scan_slots g D xs (B, p))))"
proof (induction xs arbitrary: B p)
  case (Cons x xs)
  then show ?case
    using slot_step_add [of g D x A B p] by (cases "slot_step g D x (B, p)") simp
qed simp

lemma listing_at:
  assumes "at_slot g D cs x L p R"
  shows "is_end_entry (slot_entry D x) \<Longrightarrow> dir_listing g D cs = L"
    "is_free_entry (slot_entry D x) \<Longrightarrow> \<not> is_end_entry (slot_entry D x) \<Longrightarrow> dir_listing g D cs = L @ R"
    "live (slot_entry D x) \<Longrightarrow>
      dir_listing g D cs = L @ (slot_of g x (slot_entry D x), shown_name (slot_entry D x) p) # R"
proof -
  obtain pre post where s: "slots g cs = pre @ x # post" "scan_slots g D pre ([], []) = (False, L, p)"
    "R = fst (snd (scan_slots g D post ([], [])))"
    using assms by (auto simp: at_slot_def)
  note run = dir_listing_def s(1) scan_slots_append s(2) Let_def
  show "dir_listing g D cs = L" if "is_end_entry (slot_entry D x)"
    using that by (simp add: run)
  show "dir_listing g D cs = L @ R" if "is_free_entry (slot_entry D x)" "\<not> is_end_entry (slot_entry D x)"
    using that scan_slots_add [of g D post L "[]" "[]"] by (simp add: run slot_step_def s(3))
  show "dir_listing g D cs = L @ (slot_of g x (slot_entry D x), shown_name (slot_entry D x) p) # R"
    if "live (slot_entry D x)"
  proof -
    have "\<not> is_end_entry (slot_entry D x)" using that end_free by (auto simp: live_def)
    then show ?thesis
      using that scan_slots_add [of g D post "L @ [(slot_of g x (slot_entry D x), shown_name (slot_entry D x) p)]" "[]" "[]"]
      by (simp add: run slot_step_def s(3) live_def slot_of_def)
  qed
qed

lemma at_slot_in: "at_slot g D cs x L p R \<Longrightarrow> x \<in> set (slots g cs)"
  by (auto simp: at_slot_def)

lemma distinct_slots: "distinct cs \<Longrightarrow> distinct (slots g cs)"
  by (simp add: slots_def distinct_product)

lemma at_slot_cong:
  assumes "at_slot g D cs x L p R" "distinct cs" "\<And>y. y \<in> set (slots g cs) \<Longrightarrow> y \<noteq> x \<Longrightarrow> chunk D' y = chunk D y"
  shows "at_slot g D' cs x L p R"
proof -
  obtain pre post where s: "slots g cs = pre @ x # post" "scan_slots g D pre ([], []) = (False, L, p)"
    "R = fst (snd (scan_slots g D post ([], [])))"
    using assms by (auto simp: at_slot_def)
  have "x \<notin> set pre" "x \<notin> set post" using distinct_slots [OF assms(2), of g] s(1) by auto
  then have "scan_slots g D' pre ([], []) = scan_slots g D pre ([], [])"
    "scan_slots g D' post ([], []) = scan_slots g D post ([], [])"
    using assms(3) s(1) by (auto intro!: scan_slots_cong)
  then show ?thesis unfolding at_slot_def using s by metis
qed

lemma at_slotI:
  assumes "slots g cs = pre @ x # post" "fst (scan_slots g D pre ([], [])) = False"
  shows "at_slot g D cs x (fst (snd (scan_slots g D pre ([], [])))) (snd (snd (scan_slots g D pre ([], []))))
    (fst (snd (scan_slots g D post ([], []))))"
  unfolding at_slot_def using assms
  by (intro exI [of _ pre] exI [of _ post] conjI) (simp_all add: prod_eq_iff)

lemma listing_member:
  assumes "(sl, n) \<in> set (dir_listing g D cs)"
  obtains x L p R where "at_slot g D cs x L p R" "live (slot_entry D x)" "sl = slot_of g x (slot_entry D x)"
    "n = shown_name (slot_entry D x) p"
proof -
  have "(sl, n) \<in> set (fst (snd (scan_slots g D xs st))) \<Longrightarrow> (sl, n) \<notin> set (fst st) \<Longrightarrow>
      \<exists>pre x post. xs = pre @ x # post \<and> fst (scan_slots g D pre st) = False \<and> live (slot_entry D x) \<and>
        sl = slot_of g x (slot_entry D x) \<and> n = shown_name (slot_entry D x) (snd (snd (scan_slots g D pre st)))" for xs st
  proof (induction xs arbitrary: st)
    case (Cons x xs)
    then have ne: "\<not> is_end_entry (slot_entry D x)" by (auto split: if_splits)
    show ?case
    proof (cases "(sl, n) \<in> set (fst (slot_step g D x st))")
      case True
      then have "live (slot_entry D x)" "sl = slot_of g x (slot_entry D x)" "n = shown_name (slot_entry D x) (snd st)"
        using Cons.prems(2) by (auto simp: slot_step_def Let_def live_def slot_of_def split: if_splits)
      then show ?thesis by (intro exI [of _ "[]"] exI [of _ x] exI [of _ xs]) simp
    next
      case False
      then obtain pre y post where "xs = pre @ y # post" "fst (scan_slots g D pre (slot_step g D x st)) = False"
        "live (slot_entry D y)" "sl = slot_of g y (slot_entry D y)"
        "n = shown_name (slot_entry D y) (snd (snd (scan_slots g D pre (slot_step g D x st))))"
        using Cons.IH [of "slot_step g D x st"] Cons.prems(1) ne by auto
      then show ?thesis using ne by (intro exI [of _ "x # pre"] exI [of _ y] exI [of _ post]) simp
    qed
  qed simp
  from this [of "slots g cs" "([], [])"] assms obtain pre x post where
    "slots g cs = pre @ x # post" "fst (scan_slots g D pre ([], [])) = False" "live (slot_entry D x)"
    "sl = slot_of g x (slot_entry D x)" "n = shown_name (slot_entry D x) (snd (snd (scan_slots g D pre ([], []))))"
    by (auto simp: dir_listing_def)
  then show thesis by (intro that [OF at_slotI])
qed

text \<open>The long name parts that wait at the first free slot, or at the end of a full directory.\<close>

definition leftover :: "geo \<Rightarrow> (nat \<Rightarrow> bytes) \<Rightarrow> nat list \<Rightarrow> nat list list" where
  "leftover g D cs =
     snd (snd (scan_slots g D (takeWhile (\<lambda>x. \<not> is_free_entry (slot_entry D x)) (slots g cs)) ([], [])))"

lemma scan_no_end: "\<forall>x \<in> set xs. \<not> is_end_entry (slot_entry D x) \<Longrightarrow> fst (scan_slots g D xs st) = False"
  by (induction xs arbitrary: st) auto

lemma first_free_split:
  assumes "find P xs = Some x"
  obtains post where "xs = takeWhile (\<lambda>y. \<not> P y) xs @ x # post" "P x"
proof -
  obtain post where "dropWhile (\<lambda>y. \<not> P y) xs = x # post"
    using assms by (auto simp: find_dropWhile comp_def split: list.splits)
  moreover have "P x" using assms by (auto simp: find_Some_iff)
  ultimately show thesis using that takeWhile_dropWhile_id [of "\<lambda>y. \<not> P y" xs] by metis
qed

lemma free_slot_at:
  assumes "free_slot g D cs = Some x"
  shows "is_free_entry (slot_entry D x)" "\<exists>L R. at_slot g D cs x L (leftover g D cs) R"
proof -
  let ?pre = "takeWhile (\<lambda>x. \<not> is_free_entry (slot_entry D x)) (slots g cs)"
  obtain post where s: "slots g cs = ?pre @ x # post" "is_free_entry (slot_entry D x)"
    using first_free_split [OF assms [unfolded free_slot_def]] .
  show "is_free_entry (slot_entry D x)" by (rule s(2))
  have "\<forall>y \<in> set ?pre. \<not> is_end_entry (slot_entry D y)" using end_free by (auto dest: set_takeWhileD)
  then show "\<exists>L R. at_slot g D cs x L (leftover g D cs) R"
    using at_slotI [OF s(1) scan_no_end] unfolding leftover_def by blast
qed

lemma at_end_R:
  assumes "at_slot g D cs x L p R" "well_ended g D cs" "is_end_entry (slot_entry D x)"
  shows "R = []"
proof -
  obtain pre post where s: "slots g cs = pre @ x # post" "R = fst (snd (scan_slots g D post ([], [])))"
    using assms by (auto simp: at_slot_def)
  obtain A B where w: "slots g cs = A @ B" "\<forall>y \<in> set A. \<not> is_end_entry (slot_entry D y)"
    "\<forall>y \<in> set B. is_end_entry (slot_entry D y)" using assms(2) unfolding well_ended_def by blast
  have "pre @ x # post = A @ B" "x \<notin> set A" using s(1) w(1,2) assms(3) by auto
  then have "set post \<subseteq> set B" by (auto simp: append_eq_append_conv2 Cons_eq_append_conv)
  then have "\<forall>y \<in> set post. is_end_entry (slot_entry D y)" using w(3) by blast
  then show ?thesis using s(2) by (cases post) simp_all
qed

lemma listing_before:
  assumes "at_slot g D cs x L p R" "well_ended g D cs" "is_free_entry (slot_entry D x)"
  shows "dir_listing g D cs = L @ R"
  using listing_at(1,2) [OF assms(1)] at_end_R [OF assms(1,2)] assms(3) by (cases "is_end_entry (slot_entry D x)") auto

section \<open>Short names as text\<close>

lemma valid_83_code:
  assumes "is_valid_83 c"
  shows "32 < code c" "code c < 128"
  using assms by (auto simp: is_valid_83_def)

lemma name_text_padded:
  assumes "list_all is_valid_83 s"
  shows "name_text (padded n s) = s"
proof -
  have c: "utf8 (unat (of_char c :: u8)) = [c]" "(of_char c :: u8) \<noteq> 32" if "is_valid_83 c" for c
  proof -
    have k: "32 < code c" "code c < 128" by (rule valid_83_code [OF that])+
    have "unat (of_char c :: u8) = code c"
      using k unat_of_nat [of "code c", where 'a = 8] by (simp only: of_nat_of_char) simp
    moreover from this have "(of_char c :: u8) \<noteq> 32" using k by auto
    ultimately show "utf8 (unat (of_char c :: u8)) = [c]" "(of_char c :: u8) \<noteq> 32"
      using k by (simp_all add: utf8_def)
  qed
  have "filter (\<lambda>b. b \<noteq> 32) (map of_char s :: bytes) = map of_char s"
    using assms c(2) by (auto simp: filter_id_conv list_all_iff)
  moreover have "concat (map (\<lambda>b. utf8 (unat b)) (map of_char s :: bytes)) = s"
    using assms c(1) by (induction s) auto
  ultimately show ?thesis by (simp add: name_text_def padded_def)
qed

lemma length_padded [simp]: "length s \<le> n \<Longrightarrow> length (padded n s) = n"
  by (simp add: padded_def)

lemma name_text_split:
  assumes "list_all is_valid_83 base" "list_all is_valid_83 ext" "length base \<le> 8" "length ext \<le> 3"
    "fe_name e = padded 8 base @ padded 3 ext"
  shows "get_name e = base @ (if ext = [] then [] else CHR ''.'' # ext)"
  using assms by (simp add: get_name_def name_text_padded)

lemma rfind_SomeD:
  assumes "rfind c s = Some p"
  shows "p < length s" "s = take p s @ c # drop (p + 1) s"
proof -
  obtain i where i: "position (\<lambda>x. x = c) (rev s) = Some i" "p = length s - 1 - i"
    using assms by (auto simp: rfind_def)
  then have "i < length s" "rev s ! i = c" using position_SomeD [OF i(1)] by auto
  then show p: "p < length s" using i(2) by linarith
  have "s ! p = c" using \<open>rev s ! i = c\<close> \<open>i < length s\<close> i(2) by (simp add: rev_nth)
  then show "s = take p s @ c # drop (p + 1) s" using id_take_nth_drop [OF p] by simp
qed

lemma lower_upper [simp]: "lower (upper c) = lower c"
  by (auto simp: lower_def upper_def)

lemma to_83_parts:
  assumes "to_83 name = Some n"
  obtains base ext where "n = padded 8 base @ padded 3 ext" "base \<noteq> []" "length base \<le> 8" "length ext \<le> 3"
    "list_all is_valid_83 base" "list_all is_valid_83 ext"
    "map upper name = base \<and> ext = [] \<or> map upper name = base @ CHR ''.'' # ext"
proof (cases "rfind (CHR ''.'') (map upper name)")
  case None
  then show thesis using assms that [of "map upper name" "[]"] by (auto simp: to_83_def Let_def split: if_splits)
next
  case (Some p)
  then show thesis
    using assms that [of "take p (map upper name)" "drop (p + 1) (map upper name)"] rfind_SomeD(2) [OF Some]
    by (auto simp: to_83_def Let_def split: if_splits)
qed

lemma to_83_length: "to_83 name = Some n \<Longrightarrow> length n = 11"
  by (auto elim: to_83_parts)

text \<open>The name an entry shows is the name it was made from, unless that ends in a dot.\<close>

lemma to_83_shown:
  assumes "to_83 name = Some n" "fe_name e = n"
  shows "get_name e = (if List.last name = CHR ''.'' then butlast (map upper name) else map upper name)"
    "eq_ignore_ascii_case (get_name e) name \<longleftrightarrow> List.last name \<noteq> CHR ''.''"
proof -
  obtain base ext where p: "n = padded 8 base @ padded 3 ext" "base \<noteq> []" "length base \<le> 8" "length ext \<le> 3"
    "list_all is_valid_83 base" "list_all is_valid_83 ext"
    "map upper name = base \<and> ext = [] \<or> map upper name = base @ CHR ''.'' # ext"
    using assms(1) by (rule to_83_parts)
  have ne: "name \<noteq> []" using p(2,7) by auto
  have dot: "upper c = CHR ''.'' \<longleftrightarrow> c = CHR ''.''" for c
    by (auto simp: upper_def char_of_eq_iff take_bit_nat_def)
  have last: "List.last (map upper name) = upper (List.last name)" using ne by (rule last_map)
  have v: "\<not> is_valid_83 (CHR ''.'')" by (simp add: is_valid_83_def)
  have b: "List.last base \<noteq> CHR ''.''" "ext \<noteq> [] \<Longrightarrow> List.last ext \<noteq> CHR ''.''"
    using p(2,5,6) v by (metis last_in_set list_all_iff)+
  have g: "get_name e = base @ (if ext = [] then [] else CHR ''.'' # ext)"
    using name_text_split [OF p(5,6,3,4)] assms(2) p(1) by simp
  show n: "get_name e = (if List.last name = CHR ''.'' then butlast (map upper name) else map upper name)"
    using p(7) b p(2) last dot [of "List.last name"] unfolding g by (auto simp: last_append split: if_splits)
  have "length (butlast (map upper name)) \<noteq> length name" using ne by (cases name) simp_all
  then show "eq_ignore_ascii_case (get_name e) name \<longleftrightarrow> List.last name \<noteq> CHR ''.''"
    unfolding n eq_ignore_ascii_case_def by (auto simp: comp_def dest: arg_cong [where f = length])
qed

section \<open>A new entry in a directory\<close>

lemma dos_now_bound: "fst (dos_now now) < 2 ^ 16" "snd (dos_now now) < 2 ^ 16"
proof -
  have u: "unat (w :: u16) < 2 ^ 16" for w using unsigned_less [of w] by simp
  show "fst (dos_now now) < 2 ^ 16" "snd (dos_now now) < 2 ^ 16"
    by (cases now; simp only: dos_now_def option.case Let_def fst_conv snd_conv u; simp)+
qed

lemma new_entry_fields [simp]:
  "fe_name (new_entry now n a c) = n" "fe_attr (new_entry now n a c) = a" "fe_size (new_entry now n a c) = 0"
  "fe_high (new_entry now n a c) = c div 2 ^ 16 mod 2 ^ 16" "fe_low (new_entry now n a c) = c mod 2 ^ 16"
  by (simp_all add: new_entry_def split: prod.split)

lemma new_entry_wf: "length n = 11 \<Longrightarrow> entry_wf (new_entry now n a c)"
  using dos_now_bound [of now] by (cases "dos_now now") (simp add: new_entry_def entry_wf_def)

lemma cluster_halves: "c < 2 ^ 32 \<Longrightarrow> c div 2 ^ 16 mod 2 ^ 16 * 2 ^ 16 + c mod 2 ^ 16 = c" for c :: nat
proof -
  assume "c < 2 ^ 32"
  then have "c div 2 ^ 16 < 2 ^ 16" by (intro less_mult_imp_div_less) simp
  then show ?thesis by (simp only: mod_less div_mult_mod_eq)
qed

lemma get_set_cluster [simp]: "c < 2 ^ 32 \<Longrightarrow> get_cluster (set_cluster c e) = c"
  using cluster_halves [of c] by (simp add: get_cluster_def set_cluster_def)

lemma live_short_entry:
  assumes "to_83 name = Some n" "fe_name e = n" "fe_attr e = 0x20 \<or> fe_attr e = 0x10"
  shows "live e"
proof -
  obtain base ext where p: "n = padded 8 base @ padded 3 ext" "base \<noteq> []" "list_all is_valid_83 base"
    using assms(1) by (rule to_83_parts)
  obtain c cs where b: "base = c # cs" using p(2) by (cases base) auto
  have k: "32 < code c" "code c < 128" using p(3) valid_83_code [of c] by (simp_all add: b)
  have "fe_name e ! 0 = of_char c" by (simp add: assms(2) p(1) b padded_def)
  moreover have "unat (of_char c :: u8) = code c"
    using k unat_of_nat [of "code c", where 'a = 8] by (simp only: of_nat_of_char) simp
  then have "(of_char c :: u8) \<noteq> 0" "(of_char c :: u8) \<noteq> 0xE5" using k by auto
  ultimately show ?thesis using assms(3) by (auto simp: live_def is_free_entry_def is_long_name_def)
qed

lemma set_slot_entry:
  "entry_wf e \<Longrightarrow> 32 * snd x + 32 \<le> length (D (fst x)) \<Longrightarrow> slot_entry (set_slot D x (entry_bytes e)) x = e"
  by (simp add: slot_entry_def chunk_set_same entry_at_bytes entry_wf_def)

lemma well_ended_set:
  assumes "well_ended g D cs" "free_slot g D cs = Some x" "distinct cs" "entry_wf e" "\<not> is_end_entry e"
    "\<And>y. y \<in> set (slots g cs) \<Longrightarrow> 32 * snd y + 32 \<le> length (D (fst y))"
  shows "well_ended g (set_slot D x (entry_bytes e)) cs"
proof -
  let ?D = "set_slot D x (entry_bytes e)" and ?free = "\<lambda>x. is_free_entry (slot_entry D x)"
  obtain A B where w: "slots g cs = A @ B" "\<forall>y \<in> set A. \<not> is_end_entry (slot_entry D y)"
    "\<forall>y \<in> set B. is_end_entry (slot_entry D y)" using assms(1) unfolding well_ended_def by blast
  have found: "find ?free (A @ B) = Some x" using assms(2) w(1) by (simp add: free_slot_def)
  then have x: "x \<in> set (slots g cs)" using find_SomeD w(1) by fastforce
  have dist: "distinct (A @ B)" using distinct_slots [OF assms(3), of g] w(1) by simp
  have other: "slot_entry ?D y = slot_entry D y" if "y \<noteq> x" "y \<in> set (A @ B)" for y
    using that x w(1) assms(4,6) chunk_set_other [of x y "entry_bytes e" D] by (simp add: slot_entry_def entry_wf_def)
  have at_x: "\<not> is_end_entry (slot_entry ?D x)" using set_slot_entry [of e x D] assms(4-6) x by simp
  have AB: "\<not> is_end_entry (slot_entry ?D y)" if "y \<in> set A" for y
    using that at_x other [of y] w(2) by (cases "y = x") auto
  show ?thesis
  proof (cases "x \<in> set A")
    case True
    then have "x \<notin> set B" using dist by auto
    then have "is_end_entry (slot_entry ?D y)" if "y \<in> set B" for y
      using that other [of y] w(3) by (cases "y = x") auto
    then show ?thesis unfolding well_ended_def using w(1) AB by blast
  next
    case False
    then have "find ?free A = None" using found find_SomeD by (fastforce simp: find_append split: option.splits)
    then have fB: "find ?free B = Some x" using found by (simp add: find_append)
    then obtain b B' where B: "B = b # B'" by (cases B) auto
    then have bx: "b = x" using fB w(3) end_free by simp
    have "is_end_entry (slot_entry ?D y)" if "y \<in> set B'" for y
    proof -
      have "y \<noteq> x" using that dist B bx by auto
      then show ?thesis using that other [of y] w(3) B by simp
    qed
    moreover have "slots g cs = (A @ [x]) @ B'" using w(1) B bx by simp
    moreover have "\<forall>y \<in> set (A @ [x]). \<not> is_end_entry (slot_entry ?D y)" using AB at_x by auto
    ultimately show ?thesis unfolding well_ended_def by blast
  qed
qed

lemma slots_append: "slots g (cs @ cs') = slots g cs @ slots g cs'"
  by (simp add: slots_def product_concat_map)

lemma no_free_slot: "free_slot g D cs = None \<Longrightarrow> y \<in> set (slots g cs) \<Longrightarrow> \<not> is_free_entry (slot_entry D y)"
  unfolding free_slot_def find_None_iff by blast

lemma well_ended_zero:
  assumes "free_slot g D cs = None" "\<And>y. y \<in> set (slots g cs) \<Longrightarrow> chunk D' y = chunk D y"
    "\<And>y. y \<in> set (slots g [n]) \<Longrightarrow> is_end_entry (slot_entry D' y)"
  shows "well_ended g D' (cs @ [n])"
  unfolding well_ended_def slots_append
proof (intro exI conjI ballI)
  show "slots g cs @ slots g [n] = slots g cs @ slots g [n]" ..
  fix y assume y: "y \<in> set (slots g cs)"
  then have "\<not> is_free_entry (slot_entry D y)" by (rule no_free_slot [OF assms(1)])
  then show "\<not> is_end_entry (slot_entry D' y)" using end_free assms(2) [OF y] by (auto simp: slot_entry_def)
qed (rule assms(3))

lemma leftover_extend:
  assumes "free_slot g D cs = None" "free_slot g D' (cs @ [n]) = Some (n, 0)" "0 < spc g"
    "\<And>y. y \<in> set (slots g cs) \<Longrightarrow> chunk D' y = chunk D y"
  shows "leftover g D' (cs @ [n]) = leftover g D cs"
proof -
  have nf: "\<not> is_free_entry (slot_entry D y)" "\<not> is_free_entry (slot_entry D' y)" if "y \<in> set (slots g cs)" for y
    using no_free_slot [OF assms(1) that] assms(4) [OF that] by (simp_all add: slot_entry_def)
  obtain rest where rest: "slots g [n] = (n, 0) # rest" using assms(3) by (cases "16 * spc g") (auto simp: slots_def upt_rec)
  have "is_free_entry (slot_entry D' (n, 0))" using find_SomeD assms(2) by (fastforce simp: free_slot_def)
  then have "takeWhile (\<lambda>x. \<not> is_free_entry (slot_entry D' x)) (slots g cs @ slots g [n]) = slots g cs"
    using nf(2) rest by (simp add: takeWhile_append2)
  moreover have "takeWhile (\<lambda>x. \<not> is_free_entry (slot_entry D x)) (slots g cs) = slots g cs"
    using nf(1) by (simp add: takeWhile_eq_all_conv)
  moreover have "scan_slots g D' (slots g cs) ([], []) = scan_slots g D (slots g cs) ([], [])"
    by (rule scan_slots_cong) (rule assms(4))
  ultimately show ?thesis unfolding leftover_def slots_append by (simp only:)
qed

lemma listing_extend:
  assumes "free_slot g D cs = None" "\<And>y. y \<in> set (slots g cs) \<Longrightarrow> chunk D' y = chunk D y"
    "\<And>y. y \<in> set (slots g [n]) \<Longrightarrow> is_end_entry (slot_entry D' y)"
  shows "dir_listing g D' (cs @ [n]) = dir_listing g D cs"
proof -
  have "scan_slots g D' (slots g cs) ([], []) = scan_slots g D (slots g cs) ([], [])"
    by (rule scan_slots_cong) (rule assms(2))
  moreover have "fst (snd (scan_slots g D' (slots g [n]) st)) = fst st" for st
    using assms(3) by (cases "slots g [n]") simp_all
  ultimately show ?thesis by (simp add: dir_listing_def slots_append scan_slots_append Let_def)
qed

context fat_volume
begin

lemma slot_rooms: "rel d f D \<Longrightarrow> owns g f' dir cs \<Longrightarrow> y \<in> set (slots g cs) \<Longrightarrow> 32 * snd y + 32 \<le> length (D (fst y))"
  using slot_room slots_valid by blast

lemma zero_end:
  assumes "y \<in> set (slots g [n])" "D n = replicate (512 * spc g) 0"
  shows "is_end_entry (slot_entry D y)"
proof -
  have y: "fst y = n" "snd y < 16 * spc g" using assms(1) by (auto simp: slots_def)
  then have "32 * snd y + 32 \<le> 512 * spc g" by linarith
  then have "chunk D y = replicate 32 0" using y assms(2) by (simp add: chunk_def min_def)
  then show ?thesis by (simp add: slot_entry_def entry_at_def is_end_entry_def)
qed

text \<open>
  What \<open>find_free_slot\<close> and \<open>put_entry\<close> do to a listing: the new entry is inserted, and it is shown
  under the long name parts that were left over before its slot, if there are any.
\<close>

lemma new_entry_ok:
  assumes "rel d f D" "owns g f dir cs" "cs \<noteq> []" "free_slot g D cs \<noteq> None \<or> free_clusters g f \<noteq> {}"
    "well_ended g D cs" "entry_wf e" "live e"
  obtains x f1 D1 cs1 L R d1 d2 where
    "find_free_slot ops g dir d = (Inr (addr g x), d1)"
    "put_entry ops (fst (addr g x)) (snd (addr g x)) e d1 = (Inr (), d2)"
    "rel d2 f1 D1" "grown g dir f cs f1 cs1" "dir_listing g D cs = L @ R"
    "at_slot g D1 cs1 x L (leftover g D cs) R" "slot_entry D1 x = e" "well_ended g D1 cs1"
    "\<And>c. c \<notin> set cs1 \<Longrightarrow> D1 c = D c" "length cs1 = length cs + (if free_slot g D cs = None then 1 else 0)"
proof -
  obtain x f1 D0 cs1 d1 where r: "find_free_slot ops g dir d = (Inr (addr g x), d1)" "rel d1 f1 D0"
    "grown g dir f cs f1 cs1" "free_slot g D0 cs1 = Some x"
    "cs1 = cs \<and> D0 = D \<and> f1 = f \<or>
      free_slot g D cs = None \<and> (\<exists>n. cs1 = cs @ [n] \<and> n \<in> free_clusters g f \<and> D0 = D(n := replicate (512 * spc g) 0) \<and> x = (n, 0))"
    by (rule find_free_slot_ok [OF assms(1-4)])
  have o1: "owns g f1 dir cs1" using r(3) by (simp add: grown_def)
  then have dist: "distinct cs1" by (auto simp: owns_def split: if_splits)
  have same: "dir_listing g D0 cs1 = dir_listing g D cs \<and> leftover g D0 cs1 = leftover g D cs \<and>
      well_ended g D0 cs1 \<and> (\<forall>c. c \<notin> set cs1 \<longrightarrow> D0 c = D c) \<and>
      length cs1 = length cs + (if free_slot g D cs = None then 1 else 0)"
  proof (cases "free_slot g D cs")
    case Some
    then show ?thesis using r(5) assms(5) by auto
  next
    case None
    then obtain n where n: "cs1 = cs @ [n]" "D0 = D(n := replicate (512 * spc g) 0)" "x = (n, 0)"
      using r(4,5) by auto
    have z: "\<And>y. y \<in> set (slots g [n]) \<Longrightarrow> is_end_entry (slot_entry D0 y)"
      by (erule zero_end) (simp add: n(2))
    have "n \<notin> set cs" using dist n(1) by simp
    then have ch: "\<And>y. y \<in> set (slots g cs) \<Longrightarrow> chunk D0 y = chunk D y"
      by (auto simp: n(2) chunk_def slots_def)
    have "0 < spc g" using geometry by (simp add: geo_ok_def)
    then show ?thesis
      using None leftover_extend [OF None r(4) [unfolded n(1,3)] _ ch] listing_extend [OF None ch z]
        well_ended_zero [OF None ch z] n(1,2) by auto
  qed
  have xs: "x \<in> set (slots g cs1)" using r(4) find_SomeD unfolding free_slot_def by fastforce
  have vx: "valid_slot g x" by (rule slots_valid [OF o1 xs])
  obtain d2 where d2: "put_entry ops (fst (addr g x)) (snd (addr g x)) e d1 = (Inr (), d2)"
    "rel d2 f1 (set_slot D0 x (entry_bytes e))"
    using put_entry_ok [OF r(2) vx assms(6)] by blast
  note room = slot_rooms [OF r(2) o1]
  obtain L R where LR: "at_slot g D0 cs1 x L (leftover g D cs) R"
    using free_slot_at(2) [OF r(4)] same by auto
  have "dir_listing g D cs = L @ R"
    using listing_before [OF LR _ free_slot_at(1) [OF r(4)]] same by simp
  moreover have "at_slot g (set_slot D0 x (entry_bytes e)) cs1 x L (leftover g D cs) R"
    using assms(6) room xs chunk_set_other [of x _ "entry_bytes e" D0]
    by (intro at_slot_cong [OF LR dist]) (auto simp: entry_wf_def)
  moreover have "slot_entry (set_slot D0 x (entry_bytes e)) x = e"
    using set_slot_entry [OF assms(6), of x D0] room [OF xs] by simp
  moreover have "well_ended g (set_slot D0 x (entry_bytes e)) cs1"
    using assms(7) same end_free [of e] room by (intro well_ended_set [OF _ r(4) dist assms(6)]) (auto simp: live_def)
  moreover have "set_slot D0 x (entry_bytes e) c = D c" if "c \<notin> set cs1" for c
    using that same xs by (auto simp: set_slot_def slots_def)
  ultimately show thesis using that r(1,3) d2 same by blast
qed

lemma find_in_dir_ok:
  assumes "rel d f D" "owns g f dir cs"
  obtains d' where "find_in_dir ops g dir name d =
      (Inr (map_option fst (find (\<lambda>(_, n). eq_ignore_ascii_case n name) (dir_listing g D cs))), d')" "rel d' f D"
  using read_dir_ok [OF assms] that by (force simp: find_in_dir_def bnd_simps(1) ok_def)

end

section \<open>Files of the root directory\<close>

lemma find_path_name:
  assumes "path_parts path = [name]"
  shows "find_path ops g path = find_in_dir ops g (root_cluster g) name"
  unfolding find_path_def assms
  by (rule ext) (auto simp: bnd_def ok_def split: prod.splits sum.splits option.splits)

lemma parent_cluster_name: "path_parts path = [name] \<Longrightarrow> parent_cluster ops g path = ok (root_cluster g, name)"
  by (rule ext) (simp add: parent_cluster_def bnd_simps)

lemma find_unique:
  "\<forall>y \<in> set (L @ R). \<not> P y \<Longrightarrow> find P (L @ x # R) = (if P x then Some x else None)"
  by (auto simp: find_append find_None_iff split: option.splits dest: find_SomeD)

abbreviation named :: "string \<Rightarrow> dir_slot \<times> string \<Rightarrow> bool" where
  "named name \<equiv> \<lambda>(_, n). eq_ignore_ascii_case n name"

lemma set_cluster_fields [simp]:
  "fe_name (set_cluster c e) = fe_name e" "fe_attr (set_cluster c e) = fe_attr e"
  by (simp_all add: set_cluster_def)

lemma live_update [simp]:
  "live (e\<lparr>fe_size := sz, fe_wdate := wd, fe_wtime := wt\<rparr>) = live e"
  "live (set_cluster c e) = live e"
  "get_cluster (e\<lparr>fe_size := sz, fe_wdate := wd, fe_wtime := wt\<rparr>) = get_cluster e"
  "get_name (e\<lparr>fe_size := sz, fe_wdate := wd, fe_wtime := wt\<rparr>) = get_name e"
  "get_name (set_cluster c e) = get_name e"
  by (simp_all add: live_def is_free_entry_def is_long_name_def get_cluster_def get_name_def)

context fat_volume
begin

lemma fat_create_ok:
  assumes "rel d f D" "owns g f (root_cluster g) cs" "cs \<noteq> []"
    "free_slot g D cs \<noteq> None \<or> free_clusters g f \<noteq> {}" "well_ended g D cs"
    "ff_geo fs = g" "\<not> ff_read_only fs" "path_parts path = [name]" "to_83 name = Some n83"
    "find (named name) (dir_listing g D cs) = None" "e = new_entry now n83 0x20 0"
  obtains x f1 D1 cs1 L R d1 where
    "fat_create ops now fs path d = (Inr (fresh_handle fs (slot_of g x e)), d1)"
    "rel d1 f1 D1" "grown g (root_cluster g) f cs f1 cs1" "dir_listing g D cs = L @ R"
    "at_slot g D1 cs1 x L (leftover g D cs) R" "slot_entry D1 x = e" "well_ended g D1 cs1"
    "\<And>c. c \<notin> set cs1 \<Longrightarrow> D1 c = D c" "length cs1 = length cs + (if free_slot g D cs = None then 1 else 0)"
proof -
  have e: "entry_wf e" "live e"
    using new_entry_wf [of n83 now] live_short_entry [OF assms(9)] to_83_length [OF assms(9)] by (simp_all add: assms(11))
  obtain d0 where d0: "find_in_dir ops g (root_cluster g) name d = (Inr None, d0)" "rel d0 f D"
    using find_in_dir_ok [OF assms(1,2), of name] assms(10) by (metis option.map(1))
  obtain x f1 D1 cs1 L R d1 d2 where r:
    "find_free_slot ops g (root_cluster g) d0 = (Inr (addr g x), d1)"
    "put_entry ops (fst (addr g x)) (snd (addr g x)) e d1 = (Inr (), d2)"
    "rel d2 f1 D1" "grown g (root_cluster g) f cs f1 cs1" "dir_listing g D cs = L @ R"
    "at_slot g D1 cs1 x L (leftover g D cs) R" "slot_entry D1 x = e" "well_ended g D1 cs1"
    "\<And>c. c \<notin> set cs1 \<Longrightarrow> D1 c = D c" "length cs1 = length cs + (if free_slot g D cs = None then 1 else 0)"
    by (rule new_entry_ok [OF d0(2) assms(2-5) e]) blast
  have "fat_create ops now fs path d = (Inr (fresh_handle fs (slot_of g x e)), d2)"
    using assms(6,7) d0(1) r(1,2)
    by (cases "addr g x") (simp add: fat_create_def Let_def parent_cluster_name [OF assms(8)] bnd_simps short_name_def
        assms(9,11) slot_of_def ok_def)
  then show thesis using that r by blast
qed

lemma first_write_ok:
  assumes "rel d f D" "owns g f dir cs" "at_slot g D cs x L p R" "data \<noteq> []" "length data < 2 ^ 32"
    "(length data - 1) div cluster_size g < card (free_clusters g f)"
    "ff_geo fs = g" "h = fresh_handle fs (slot_of g x e)" "slot_entry D x = e0"
  obtains start f1 D1 fcs h' d1 where "fat_write ops now data h d = (Inr (length data), h', d1)" "rel d1 f1 D1"
    "owns g f1 start fcs" "set fcs \<subseteq> free_clusters g f" "owns g f1 dir cs" "\<And>c. c \<notin> set fcs \<Longrightarrow> f1 c = f c"
    "at_slot g D1 cs x L p R" "slot_entry D1 x = (set_cluster start e0)
      \<lparr>fe_size := length data, fe_wdate := fst (dos_now now), fe_wtime := snd (dos_now now)\<rparr>"
    "take (length data) (concat (map D1 fcs)) = data" "\<And>c. c \<notin> set fcs \<Longrightarrow> c \<notin> set cs \<Longrightarrow> D1 c = D c" "start < 2 ^ 32"
proof -
  have "owns g f 0 []" by (simp add: owns_def)
  then obtain f1 D1 fcs start d1 where w: "write_range ops g 0 0 data d = ((Inr (length data), start), d1)"
    "rel d1 f1 D1" "grown g start f [] f1 fcs" "length fcs = max 0 ((length data - 1) div cluster_size g + 1)"
    "only_in fcs D D1" "concat (map D1 fcs) = put_at 0 data (concat (map D fcs))"
    using write_range_ok [OF assms(1) _ assms(4), of 0 "[]" 0] assms(6) by auto
  have o: "owns g f1 start fcs" "set fcs \<subseteq> free_clusters g f" "\<And>c. c \<notin> set fcs \<Longrightarrow> f1 c = f c"
    using w(3) by (auto simp: grown_def)
  have ne: "fcs \<noteq> []" using w(4) by auto
  then have start: "start \<in> set fcs" using o(1) by (auto simp: owns_def)
  then have "start < clusters g" using owns_bounds [OF o(1)] by blast
  then have s32: "start < 2 ^ 32" using small(1) by simp
  have disj: "c \<notin> set fcs" if "c \<in> set cs" for c
    using o(2) owns_not_free [OF assms(2) that] by (auto simp: free_clusters_def)
  have od: "owns g f1 dir cs"
    using assms(2) o(3) disj links_cong [of cs f1 f] by (auto simp: owns_def split: if_splits)
  have D1: "D1 c = D c" if "c \<notin> set fcs" for c using w(5) that by (auto simp: only_in_def)
  have xs: "x \<in> set (slots g cs)" by (rule at_slot_in [OF assms(3)])
  have vx: "valid_slot g x" by (rule slots_valid [OF assms(2) xs])
  have xc: "fst x \<in> set cs" using xs by (auto simp: slots_def)
  have x1: "slot_entry D1 x = e0" using D1 [OF disj [OF xc]] assms(9) by (simp add: slot_entry_def chunk_def)
  define e1 where "e1 = (set_cluster start e0)
      \<lparr>fe_size := length data, fe_wdate := fst (dos_now now), fe_wtime := snd (dos_now now)\<rparr>"
  have min: "min (length data) (2 ^ 32 - 1) = length data" using assms(5) by simp
  obtain d2 where d2: "set_entry ops now (h_slot h) start (length data) d1 = (Inr (), d2)"
    "rel d2 f1 (set_slot D1 x (entry_bytes e1))"
    using set_entry_ok [where sl = "h_slot h" and e = e1 and c = start and sz = "length data" and now = now,
        OF w(2) vx] x1
    by (auto simp: assms(8) fresh_handle_def slot_of_def e1_def)
  note room = slot_rooms [OF w(2) assms(2)]
  have "entry_wf e0"
    using entry_at_wf [of 0 "chunk D1 x"] room [OF xs] unfolding x1 [symmetric] by (simp add: slot_entry_def chunk_def)
  then have e1: "entry_wf e1"
    using assms(5) s32 dos_now_bound [of now] by (simp add: e1_def entry_wf_def set_cluster_def)
  let ?D = "set_slot D1 x (entry_bytes e1)"
  have chx: "chunk ?D y = chunk D y" if "y \<in> set (slots g cs)" "y \<noteq> x" for y
  proof -
    have "fst y \<in> set cs" using that(1) by (auto simp: slots_def)
    then have "chunk D1 y = chunk D y" using D1 disj by (simp add: chunk_def)
    then show ?thesis using chunk_set_other [of x y "entry_bytes e1" D1] that e1 room xs by (simp add: entry_wf_def)
  qed
  have "distinct cs" using assms(2) by (auto simp: owns_def split: if_splits)
  then have at: "at_slot g ?D cs x L p R" by (rule at_slot_cong [OF assms(3)]) (rule chx)
  have len: "length data \<le> length (concat (map D fcs))"
  proof -
    have "length data - 1 < cluster_size g * Suc ((length data - 1) div cluster_size g)"
      using dividend_less_times_div [OF csz_pos, of "length data - 1"] by simp
    then show ?thesis using contents_length [OF assms(1) o(1)] w(4) assms(4) by (cases data) auto
  qed
  have "?D c = D1 c" if "c \<in> set fcs" for c using that disj [OF xc] by (auto simp: set_slot_def)
  then have "map ?D fcs = map D1 fcs" by (intro map_cong refl)
  then have "concat (map ?D fcs) = put_at 0 data (concat (map D fcs))" using w(6) by metis
  then have data: "take (length data) (concat (map ?D fcs)) = data"
    using put_at_same [of 0 data "concat (map D fcs)"] len by simp
  have "fat_write ops now data h d = (Inr (length data), h\<lparr>h_data := patch 0 data [], h_start := start,
      h_size := length data, h_pos := length data\<rparr>, d2)"
    using w(1) d2(1) min assms(7) by (simp add: fat_write_def assms(8) fresh_handle_def Let_def)
  moreover have "?D c = D c" if "c \<notin> set fcs" "c \<notin> set cs" for c
    using that xc D1 by (auto simp: set_slot_def)
  ultimately show thesis
    using that d2(2) o od at set_slot_entry [OF e1, of x D1] room [OF xs] data s32 unfolding e1_def by blast
qed

lemma fat_open_ok:
  assumes "rel d f D" "owns g f (root_cluster g) cs" "path_parts path = [name]" "ff_geo fs = g"
    "find (named name) (dir_listing g D cs) = Some (slot_of g x e, n)" "is_regular e" "owns g f (get_cluster e) fcs"
  obtains h d1 where "fat_open ops fs path d = (Inr h, d1)" "rel d1 f D" "h_pos h = 0"
    "h_data h = take (fe_size e) (concat (map D fcs))"
proof -
  obtain d1 where d1: "find_in_dir ops g (root_cluster g) name d = (Inr (Some (slot_of g x e)), d1)" "rel d1 f D"
    using find_in_dir_ok [OF assms(1,2), of name] assms(5) by (metis fst_conv option.map(2))
  obtain d2 where d2: "read_chain ops g (get_cluster e) d1 = (Inr (concat (map D fcs)), d2)" "rel d2 f D"
    using read_chain_ok [OF d1(2) assms(7)] by blast
  show thesis
    using that [of "\<lparr>h_geo = g, h_slot = slot_of g x e, h_start = get_cluster e, h_size = fe_size e, h_pos = 0,
        h_data = take (fe_size e) (concat (map D fcs)), h_read_only = ff_read_only fs\<rparr>" d2] assms(6) d1(1) d2
    by (simp add: fat_open_def find_path_name [OF assms(3)] assms(4) bnd_simps(1) Let_def slot_of_def is_regular_def ok_def)
qed

end

section \<open>Removing\<close>

lemma at_slot_unique:
  assumes "at_slot g D cs x L p R" "at_slot g D cs x L' p' R'" "distinct cs"
  shows "L = L' \<and> p = p' \<and> R = R'"
proof -
  obtain pre post where s: "slots g cs = pre @ x # post" "scan_slots g D pre ([], []) = (False, L, p)"
    "R = fst (snd (scan_slots g D post ([], [])))" using assms(1) by (auto simp: at_slot_def)
  obtain pre' post' where s': "slots g cs = pre' @ x # post'" "scan_slots g D pre' ([], []) = (False, L', p')"
    "R' = fst (snd (scan_slots g D post' ([], [])))" using assms(2) by (auto simp: at_slot_def)
  have d: "distinct (slots g cs)" by (rule distinct_slots [OF assms(3)])
  have "x \<notin> set pre" "x \<notin> set post" using d unfolding s(1) by simp_all
  moreover have "x \<notin> set pre'" "x \<notin> set post'" using d unfolding s'(1) by simp_all
  ultimately have "pre = pre' \<and> post = post'" using s(1) s'(1) by (metis append_Cons_eq_iff)
  then show ?thesis using s s' by simp
qed

lemma well_ended_change:
  assumes "well_ended g D cs" "x \<in> set (slots g cs)" "\<not> is_end_entry (slot_entry D x)" "\<not> is_end_entry (slot_entry D' x)"
    "\<And>y. y \<in> set (slots g cs) \<Longrightarrow> y \<noteq> x \<Longrightarrow> slot_entry D' y = slot_entry D y"
  shows "well_ended g D' cs"
proof -
  have "is_end_entry (slot_entry D' y) = is_end_entry (slot_entry D y)" if "y \<in> set (slots g cs)" for y
    using assms(3-5) that by (cases "y = x") auto
  moreover obtain A B where "slots g cs = A @ B" "\<forall>y \<in> set A. \<not> is_end_entry (slot_entry D y)"
    "\<forall>y \<in> set B. is_end_entry (slot_entry D y)" using assms(1) unfolding well_ended_def by blast
  ultimately have "slots g cs = A @ B \<and> (\<forall>y \<in> set A. \<not> is_end_entry (slot_entry D' y)) \<and>
    (\<forall>y \<in> set B. is_end_entry (slot_entry D' y))" by auto
  then show ?thesis unfolding well_ended_def by blast
qed

context fat_volume
begin

lemma fat_remove_ok:
  assumes "rel d f D" "owns g f (root_cluster g) cs" "well_ended g D cs" "ff_geo fs = g" "\<not> ff_read_only fs"
    "path_parts path = [name]" "at_slot g D cs x L p R" "e = slot_entry D x" "live e" "is_regular e"
    "find (named name) (dir_listing g D cs) = Some (slot_of g x e, n)"
    "owns g f (get_cluster e) fcs" "set fcs \<inter> set cs = {}"
  obtains d1 D1 where "fat_remove ops fs path d = (Inr (), d1)" "rel d1 (\<lambda>c. if c \<in> set fcs then 0 else f c) D1"
    "D1 = set_slot D x [0xE5]" "owns g (\<lambda>c. if c \<in> set fcs then 0 else f c) (root_cluster g) cs" "well_ended g D1 cs"
    "at_slot g D1 cs x L p R" "is_free_entry (slot_entry D1 x)" "dir_listing g D1 cs = L @ R"
proof -
  let ?f = "\<lambda>c. if c \<in> set fcs then 0 else f c" and ?D = "set_slot D x [0xE5]"
  have xs: "x \<in> set (slots g cs)" by (rule at_slot_in [OF assms(7)])
  have vx: "valid_slot g x" by (rule slots_valid [OF assms(2) xs])
  note room = slot_rooms [OF assms(1,2)]
  obtain d1 where d1: "find_in_dir ops g (root_cluster g) name d = (Inr (Some (slot_of g x e)), d1)" "rel d1 f D"
    using find_in_dir_ok [OF assms(1,2), of name] assms(11) by (metis fst_conv option.map(2))
  obtain d2 where d2: "free_chain ops g (get_cluster e) d1 = (Inr (), d2)" "rel d2 ?f D"
    using free_chain_ok [OF d1(2) assms(12)] by blast
  obtain d3 where d3: "erase_entry ops (slot_of g x e) d2 = (Inr (), d3)" "rel d3 ?f ?D"
    using erase_entry_ok [OF d2(2) vx, of "slot_of g x e"] by (auto simp: slot_of_def)
  have other: "chunk ?D y = chunk D y" if "y \<in> set (slots g cs)" "y \<noteq> x" for y
    using chunk_set_other [of x y "[0xE5]" D] that room xs by simp
  have "length (chunk D x) = 32" using room [OF xs] by (simp add: chunk_def)
  then have x1: "fe_name (slot_entry ?D x) ! 0 = 0xE5"
    using chunk_erase [of x D "0xE5"] room [OF xs] by (simp add: slot_entry_def entry_at_def)
  then have free: "is_free_entry (slot_entry ?D x)" "\<not> is_end_entry (slot_entry ?D x)"
    by (simp_all add: is_free_entry_def is_end_entry_def)
  have dist: "distinct cs" using assms(2) by (auto simp: owns_def split: if_splits)
  have at: "at_slot g ?D cs x L p R" by (rule at_slot_cong [OF assms(7) dist]) (rule other)
  have "\<not> is_end_entry (slot_entry D x)" using assms(8,9) end_free by (auto simp: live_def)
  then have we: "well_ended g ?D cs"
    using well_ended_change [OF assms(3) xs _ free(2)] other by (simp add: slot_entry_def)
  have "links ?f cs = links f cs" using assms(13) by (intro links_cong) auto
  then have o: "owns g ?f (root_cluster g) cs" using assms(2) by (auto simp: owns_def)
  have "fat_remove ops fs path d = (Inr (), d3)"
    using assms(4,5,10) d1(1) d2(1) d3(1)
    by (simp add: fat_remove_def find_path_name [OF assms(6)] bnd_simps(1) is_regular_def slot_of_def)
  then show thesis using that d3(2) o we at free listing_at(2) [OF at] by blast
qed

end


section \<open>Properties\<close>

lemma field_bounds: "field16 b i < 2 ^ 16" "field32 b i < 2 ^ 32"
proof -
  have "le_nat bs < 256 ^ n" if "length bs \<le> n" for bs :: bytes and n
    using le_nat_bound [of bs] power_increasing [OF that, of "256 :: nat"] by linarith
  from this [of "take 2 (drop i b)" 2] this [of "take 4 (drop i b)" 4]
  show "field16 b i < 2 ^ 16" "field32 b i < 2 ^ 32" by (simp_all add: field16_def field32_def)
qed

lemma bpb_scale_cases: "bpb_scale b = 2 ^ 0 \<or> bpb_scale b = 2 ^ 3"
  by (simp add: bpb_scale_def)

text \<open>The casts to \<open>u32\<close> and \<open>u8\<close> lose nothing: the number of clusters fits.\<close>

lemma bpb_clusters:
  assumes "bpb_valid b"
  shows "0 < spc (bpb_geo b)" "total_clusters (bpb_geo b) = (bpb_total b - data_start (bpb_geo b)) div spc (bpb_geo b)"
proof -
  have s: "1 \<le> unat (b ! 13)" "0 < bpb_scale b" using assms by (auto simp: bpb_valid_def bpb_scale_def)
  then show spc: "0 < spc (bpb_geo b)" by (simp add: bpb_geo_def Let_def)
  have "bpb_scale b \<le> spc (bpb_geo b)" using s by (simp add: bpb_geo_def Let_def)
  moreover have "bpb_total b < 2 ^ 32 * bpb_scale b"
    using field_bounds(1) [of b 19] field_bounds(2) [of b 32] s(2) by (simp add: bpb_total_def)
  ultimately have "bpb_total b - data_start (bpb_geo b) < 2 ^ 32 * spc (bpb_geo b)"
    by (meson le_less_trans less_le_trans diff_le_self mult_le_mono2)
  then have "(bpb_total b - data_start (bpb_geo b)) div spc (bpb_geo b) < 2 ^ 32"
    by (rule less_mult_imp_div_less)
  then show "total_clusters (bpb_geo b) = (bpb_total b - data_start (bpb_geo b)) div spc (bpb_geo b)"
    by (simp add: bpb_geo_def Let_def)
qed

lemma bpb_spc:
  assumes "bpb_valid b"
  shows "spc (bpb_geo b) \<in> (\<lambda>k. 2 ^ k) ` {0..7}"
proof -
  have "unat (b ! 13) \<in> (\<lambda>k. 2 ^ k) ` set [0, 1, 2, 3, 4, 5, 6, 7]" using assms by (auto simp: bpb_valid_def)
  then obtain k where "unat (b ! 13) = 2 ^ k" by blast
  then obtain j where j: "spc (bpb_geo b) = 2 ^ j"
    using bpb_scale_cases [of b] power_add [of 2 k] by (metis bpb_geo_def geo.select_convs(5))
  moreover have "spc (bpb_geo b) < 2 ^ 8" using assms by (simp add: bpb_valid_def bpb_geo_def Let_def)
  ultimately have "(2 :: nat) ^ j < 2 ^ 8" by simp
  then have "j < 8" by (simp only: power_strict_increasing_iff)
  then show ?thesis using j by auto
qed

text \<open>
  C5: What mounting a FAT32 volume establishes. When the boot sector is accepted, nothing was written,
  there are one to four copies of the table, a cluster is a power of two of sectors, and the data area
  as the driver sees it fills the sectors that the boot sector claims but for less than one cluster (no
  cast truncates). If moreover the device has those sectors, the table has an entry for every cluster and
  the FSInfo sector is a reserved one, which the driver does not check, then the geometry is well formed:
  all that is proved of chains, allocation and files holds on the mounted volume.
\<close>

theorem fat_mount_geometry:
  assumes "reliable_device ops cap content" "0 < cap" "with_mode ops ro d = (Inr fs, d1)" "g = ff_geo fs"
  shows "sector_of content d1 = sector_of content d \<and> ff_read_only fs = ro \<and> \<not> ff_mounted fs \<and>
    fat_count g \<in> {1..4} \<and> spc g \<in> (\<lambda>k. 2 ^ k) ` {0..7} \<and> 2 \<le> total_clusters g \<and>
    data_start g + total_clusters g * spc g \<le> bpb_total (sector_of content d 0) \<and>
    bpb_total (sector_of content d 0) < data_start g + Suc (total_clusters g) * spc g \<and>
    (bpb_total (sector_of content d 0) \<le> cap \<and> clusters g * 4 \<le> fat_size g * 512 \<and> clusters g \<le> 0x0FFFFFF7 \<and>
      (fs_info_sector g < fat_start g \<or> fs_info_sector g = 0xFFFF) \<longrightarrow> fat_volume ops cap content g)"
proof -
  let ?b = "sector_of content d 0"
  obtain d0 where d0: "read_sector ops 0 d = (Inr ?b, d0)" "sector_of content d0 = sector_of content d"
    using reliable_device.read_sector_ok [OF assms(1,2)] by metis
  have v: "bpb_valid ?b" and r: "d1 = d0" "fs = \<lparr>ff_geo = bpb_geo ?b, ff_mounted = False, ff_read_only = ro\<rparr>"
    using assms(3) unfolding with_mode_def bnd_simps(1) [of "read_sector ops 0" d, OF d0(1)]
    by (simp_all add: ok_def err_def split: if_splits)
  have g: "g = bpb_geo ?b" using r assms(4) by simp
  note c = bpb_clusters [OF v, folded g]
  have ne: "data_start g \<le> bpb_total ?b" using c(2) v by (cases "data_start g \<le> bpb_total ?b") (simp_all add: bpb_valid_def g)
  have fits: "data_start g + total_clusters g * spc g \<le> bpb_total ?b"
    using ne div_times_less_eq_dividend [of "bpb_total ?b - data_start g" "spc g"] unfolding c(2) by linarith
  have full: "bpb_total ?b < data_start g + Suc (total_clusters g) * spc g"
    using ne dividend_less_div_times [OF c(1), of "bpb_total ?b - data_start g"] unfolding c(2) by simp
  have "geo_ok g cap"
    if "bpb_total ?b \<le> cap" "clusters g * 4 \<le> fat_size g * 512" "clusters g \<le> 0x0FFFFFF7"
      "fs_info_sector g < fat_start g \<or> fs_info_sector g = 0xFFFF"
  proof -
    have "fat_start g + fat_count g * fat_size g \<le> data_start g"
      by (simp add: g bpb_geo_def Let_def) (intro trans_le_add1 mult_le_mono2 mod_less_eq_dividend)
    moreover have "1 \<le> fat_count g" "cluster_size g = 512 * spc g"
      using v by (simp_all add: g bpb_geo_def Let_def bpb_valid_def)
    ultimately show ?thesis using c(1) fits that by (simp add: geo_ok_def)
  qed
  then have "fat_volume ops cap content g"
    if "bpb_total ?b \<le> cap \<and> clusters g * 4 \<le> fat_size g * 512 \<and> clusters g \<le> 0x0FFFFFF7 \<and>
      (fs_info_sector g < fat_start g \<or> fs_info_sector g = 0xFFFF)"
    using that assms(1) by (intro fat_volume.intro fat_volume_axioms.intro) simp_all
  moreover have "fat_count g \<in> {1..4}" "2 \<le> total_clusters g"
    using v by (auto simp: g bpb_valid_def bpb_geo_def Let_def)
  ultimately show ?thesis
    using r d0(2) fits full bpb_spc [OF v, folded g] by simp
qed

text \<open>
  C13: Short names. When a name has an 8.3 form, the entry that \<open>create\<close> and \<open>mkdir\<close> make for it is
  listed, and shows the name in upper case, so a lookup that ignores case finds it under the name it was
  made with. The one exception is a name that ends in a dot: the dot is lost, and a lookup never finds it.
\<close>

theorem fat_short_names:
  assumes "to_83 name = Some n" "attr = 0x20 \<or> attr = 0x10" "e = new_entry now n attr c"
  shows "entry_at (entry_bytes e) 0 = e \<and> live e \<and> get_cluster e = c mod 2 ^ 32 \<and>
    get_name e = (if List.last name = CHR ''.'' then butlast (map upper name) else map upper name) \<and>
    (eq_ignore_ascii_case (get_name e) name \<longleftrightarrow> List.last name \<noteq> CHR ''.'')"
proof -
  have n: "fe_name e = n" "fe_attr e = attr" by (simp_all add: assms(3))
  have "c div 2 ^ 16 mod 2 ^ 16 * 2 ^ 16 + c mod 2 ^ 16 = c mod (2 ^ 16 * 2 ^ 16)"
    by (simp only: mod_mult2_eq mult.commute)
  then have "get_cluster e = c mod 2 ^ 32" by (simp add: assms(3) get_cluster_def)
  moreover have "entry_wf e" using to_83_length [OF assms(1)] new_entry_wf assms(3) by simp
  ultimately show ?thesis
    using to_83_shown [OF assms(1) n(1)] live_short_entry [OF assms(1) n(1)] assms(2) n(2) entry_at_bytes by simp
qed

text \<open>
  C21: A file created in the root directory keeps what is written to it. On a reliable volume with a
  well-formed root directory, for a name with an 8.3 form that is not in use (and does not end in a dot),
  no long name parts left over before the free slot, and room for the data: \<open>create\<close>, \<open>write\<close> and a later
  \<open>open\<close> succeed, and reading the reopened file returns the data. The listing is the old one with the
  new name inserted, and no cluster that belonged to anything but the root directory changes, in the
  table or in content.
\<close>

theorem fat_create_write_read:
  assumes "fat_volume ops cap content g" "vol g (sector_of content d) f D" "ff_geo fs = g" "\<not> ff_read_only fs"
    "owns g f (root_cluster g) cs" "cs \<noteq> []" "well_ended g D cs" "path_parts path = [name]"
    "to_83 name = Some n83" "List.last name \<noteq> CHR ''.''" "find (named name) (dir_listing g D cs) = None"
    "leftover g D cs = []" "data \<noteq> []" "length data < 2 ^ 32"
    "(length data - 1) div cluster_size g + (if free_slot g D cs = None then 1 else 0) < card (free_clusters g f)"
  shows "\<exists>h1 d1 h2 d2 h3 d3 f' D' cs' L R sl.
    fat_create ops now fs path d = (Inr h1, d1) \<and> fat_write ops now data h1 d1 = (Inr (length data), h2, d2) \<and>
    fat_open ops fs path d2 = (Inr h3, d3) \<and> fst (fat_read (length data) h3) = data \<and>
    vol g (sector_of content d3) f' D' \<and> owns g f' (root_cluster g) cs' \<and>
    dir_listing g D cs = L @ R \<and> dir_listing g D' cs' = L @ (sl, map upper name) # R \<and>
    (\<forall>c. f c \<noteq> 0 \<longrightarrow> c \<notin> set cs \<longrightarrow> f' c = f c \<and> D' c = D c)"
proof -
  let ?e = "new_entry now n83 0x20 0"
  have "free_slot g D cs \<noteq> None \<or> free_clusters g f \<noteq> {}" using assms(15) by (auto split: if_splits)
  then obtain x f1 D1 cs1 L R d1 where c:
    "fat_create ops now fs path d = (Inr (fresh_handle fs (slot_of g x ?e)), d1)"
    "vol g (sector_of content d1) f1 D1" "grown g (root_cluster g) f cs f1 cs1" "dir_listing g D cs = L @ R"
    "at_slot g D1 cs1 x L (leftover g D cs) R" "slot_entry D1 x = ?e" "\<And>c. c \<notin> set cs1 \<Longrightarrow> D1 c = D c"
    "length cs1 = length cs + (if free_slot g D cs = None then 1 else 0)"
    using fat_volume.fat_create_ok [OF assms(1,2,5,6) _ assms(7,3,4,8,9,11) refl] by metis
  obtain new where n: "cs1 = cs @ new" "set new \<subseteq> free_clusters g f" "\<And>c. c \<notin> set cs1 \<Longrightarrow> f1 c = f c"
    "owns g f1 (root_cluster g) cs1" "card (free_clusters g f1) + length cs1 = card (free_clusters g f) + length cs"
    using c(3) by (auto simp: grown_def)
  have room: "(length data - 1) div cluster_size g < card (free_clusters g f1)"
    using assms(15) n(5) c(8) by (simp split: if_splits)
  obtain start f2 D2 fcs h2 d2 where w:
    "fat_write ops now data (fresh_handle fs (slot_of g x ?e)) d1 = (Inr (length data), h2, d2)"
    "vol g (sector_of content d2) f2 D2" "owns g f2 start fcs" "set fcs \<subseteq> free_clusters g f1"
    "owns g f2 (root_cluster g) cs1" "\<And>c. c \<notin> set fcs \<Longrightarrow> f2 c = f1 c" "at_slot g D2 cs1 x L (leftover g D cs) R"
    "slot_entry D2 x = (set_cluster start ?e)\<lparr>fe_size := length data, fe_wdate := fst (dos_now now), fe_wtime := snd (dos_now now)\<rparr>"
    "take (length data) (concat (map D2 fcs)) = data" "\<And>c. c \<notin> set fcs \<Longrightarrow> c \<notin> set cs1 \<Longrightarrow> D2 c = D1 c" "start < 2 ^ 32"
    using fat_volume.first_write_ok [OF assms(1) c(2) n(4) c(5) assms(13,14) room assms(3) refl c(6)] by metis
  let ?e1 = "slot_entry D2 x"
  have live: "live ?e1" using live_short_entry [OF assms(9), of ?e] by (simp add: w(8))
  have nm: "shown_name ?e1 [] = map upper name"
    using to_83_shown(1) [OF assms(9), of ?e] assms(10) by (simp add: w(8) shown_name_def lfn_text_def)
  have lst: "dir_listing g D2 cs1 = L @ (slot_of g x ?e1, map upper name) # R"
    using listing_at(3) [OF w(7) live] assms(12) nm by simp
  have "\<forall>y \<in> set (L @ R). \<not> named name y" using assms(11) unfolding c(4) find_None_iff by blast
  moreover have "named name (slot_of g x ?e1, map upper name)" by (simp add: eq_ignore_ascii_case_def comp_def)
  ultimately have found: "find (named name) (dir_listing g D2 cs1) = Some (slot_of g x ?e1, map upper name)"
    unfolding lst by (simp only: find_unique if_True)
  have reg: "is_regular ?e1" by (simp add: w(8) is_regular_def is_directory_def)
  have gc: "get_cluster ?e1 = start" using w(11) by (simp add: w(8))
  obtain h3 d3 where r: "fat_open ops fs path d2 = (Inr h3, d3)" "vol g (sector_of content d3) f2 D2" "h_pos h3 = 0"
    "h_data h3 = take (fe_size ?e1) (concat (map D2 fcs))"
    using fat_volume.fat_open_ok [OF assms(1) w(2,5) assms(8,3) found reg] w(3) unfolding gc by metis
  have "h_data h3 = data" using r(4) w(9) by (simp add: w(8))
  then have "fst (fat_read (length data) h3) = data" using r(3) assms(13) by (simp add: fat_read_def)
  moreover have "f2 c = f c \<and> D2 c = D c" if "f c \<noteq> 0" "c \<notin> set cs" for c
  proof -
    have c1: "c \<notin> set cs1" using that n(1,2) by (auto simp: free_clusters_def)
    moreover have "c \<notin> set fcs" using w(4) n(3) [OF c1] that(1) by (auto simp: free_clusters_def)
    ultimately show ?thesis using w(6,10) n(3) c(7) by simp
  qed
  ultimately show ?thesis using c(1,4) w(1,5) r(1,2) lst by blast
qed

text \<open>
  C22: A deleted long name comes back. When a file with a long name is removed, only its short entry is
  freed: if that slot is the first free one, the next file created gets it, and the parts of the long name
  in front of it now belong to the new file. It is listed under the deleted name, and opening it under the
  name it was created with reports that there is no such file.
\<close>

theorem fat_orphan_name:
  assumes "fat_volume ops cap content g" "vol g (sector_of content d) f D" "ff_geo fs = g" "\<not> ff_read_only fs"
    "owns g f (root_cluster g) cs" "cs \<noteq> []" "well_ended g D cs" "path_parts path = [old]"
    "at_slot g D cs x L p R" "e = slot_entry D x" "live e" "is_regular e" "lfn_text p \<noteq> []"
    "find (named old) (dir_listing g D cs) = Some (slot_of g x e, lfn_text p)"
    "owns g f (get_cluster e) fcs" "set fcs \<inter> set cs = {}" "free_slot g (set_slot D x [0xE5]) cs = Some x"
    "path_parts path2 = [name]" "to_83 name = Some n83" "find (named name) (L @ R) = None"
    "\<not> eq_ignore_ascii_case (lfn_text p) name"
  shows "\<exists>d1 h d2 d3 f' D' cs' L' R' sl.
    fat_remove ops fs path d = (Inr (), d1) \<and> fat_create ops now fs path2 d1 = (Inr h, d2) \<and>
    fat_open ops fs path2 d2 = (Inl NotFound, d3) \<and> vol g (sector_of content d3) f' D' \<and>
    owns g f' (root_cluster g) cs' \<and> L' @ R' = L @ R \<and> dir_listing g D' cs' = L' @ (sl, lfn_text p) # R'"
proof -
  let ?e = "new_entry now n83 0x20 0"
  let ?f = "\<lambda>c. if c \<in> set fcs then 0 else f c"
  have cs: "distinct cs" using assms(5) by (auto simp: owns_def split: if_splits)
  obtain d1 D1 where r: "fat_remove ops fs path d = (Inr (), d1)" "vol g (sector_of content d1) ?f D1"
    "D1 = set_slot D x [0xE5]" "owns g ?f (root_cluster g) cs" "well_ended g D1 cs"
    "at_slot g D1 cs x L p R" "is_free_entry (slot_entry D1 x)" "dir_listing g D1 cs = L @ R"
    by (rule fat_volume.fat_remove_ok [OF assms(1,2,5,7,3,4,8-12,14-16)])
  have fs1: "free_slot g D1 cs = Some x" using assms(17) r(3) by simp
  have lo: "leftover g D1 cs = p"
    using free_slot_at(2) [OF fs1] at_slot_unique [OF r(6) _ cs] by blast
  have new: "find (named name) (dir_listing g D1 cs) = None" using assms(20) r(8) by simp
  have some: "free_slot g D1 cs \<noteq> None \<or> free_clusters g ?f \<noteq> {}" using fs1 by simp
  obtain x' f2 D2 cs2 L' R' d2 where c:
    "fat_create ops now fs path2 d1 = (Inr (fresh_handle fs (slot_of g x' ?e)), d2)"
    "vol g (sector_of content d2) f2 D2" "grown g (root_cluster g) ?f cs f2 cs2" "dir_listing g D1 cs = L' @ R'"
    "at_slot g D2 cs2 x' L' (leftover g D1 cs) R'" "slot_entry D2 x' = ?e" "well_ended g D2 cs2"
    "\<And>c. c \<notin> set cs2 \<Longrightarrow> D2 c = D1 c" "length cs2 = length cs + (if free_slot g D1 cs = None then 1 else 0)"
    by (rule fat_volume.fat_create_ok [where now = now, OF assms(1) r(2,4) assms(6) some r(5) assms(3,4,18,19) new refl])
      (rule that)
  have o: "owns g f2 (root_cluster g) cs2" using c(3) by (simp add: grown_def)
  have live: "live (slot_entry D2 x')" using live_short_entry [OF assms(19), of ?e] by (simp add: c(6))
  have lst: "dir_listing g D2 cs2 = L' @ (slot_of g x' (slot_entry D2 x'), lfn_text p) # R'"
    using listing_at(3) [OF c(5) live] assms(13) by (simp add: lo shown_name_def)
  have LR: "L' @ R' = L @ R" using c(4) r(8) by simp
  have "\<forall>y \<in> set (L' @ R'). \<not> named name y" using assms(20) unfolding LR find_None_iff by blast
  then have "find (named name) (dir_listing g D2 cs2) = None"
    unfolding lst using assms(21) by (simp only: find_unique) simp
  then obtain d3 where "find_in_dir ops g (root_cluster g) name d2 = (Inr None, d3)" "vol g (sector_of content d3) f2 D2"
    using fat_volume.find_in_dir_ok [OF assms(1) c(2) o, of name] by (metis option.map(1))
  moreover from this have "fat_open ops fs path2 d2 = (Inl NotFound, d3)"
    by (simp add: fat_open_def find_path_name [OF assms(18)] assms(3) bnd_simps(1) err_def)
  ultimately show ?thesis using r(1) c(1) o LR lst by blast
qed

section \<open>Volumes in memory\<close>

text \<open>A disk for \<open>demo_geo\<close> with a given table and given contents of its clusters 2 to 5.\<close>

definition demo_sector :: "(nat \<Rightarrow> nat) \<Rightarrow> (nat \<Rightarrow> bytes) \<Rightarrow> nat \<Rightarrow> bytes" where
  "demo_sector f D s =
     (if s = 1 \<or> s = 2 then concat (map (\<lambda>c. le_bytes 4 (f c)) [0..<6]) @ replicate 488 0
      else if 3 \<le> s \<and> s < 7 then D (s - 1) else replicate 512 0)"

definition demo_image :: "(nat \<Rightarrow> nat) \<Rightarrow> (nat \<Rightarrow> bytes) \<Rightarrow> nat \<Rightarrow> u8" where
  "demo_image f D i = demo_sector f D (i div 512) ! (i mod 512)"

lemma demo_image_vol:
  assumes "\<forall>c < 6. f c < 2 ^ 28" "\<forall>c \<in> {2..5}. length (D c) = 512"
  shows "vol demo_geo (sector_of (\<lambda>d. d) (demo_image f D)) f D"
proof -
  have len: "length (demo_sector f D s) = 512" for s
  proof -
    have "3 \<le> s \<and> s < 7 \<Longrightarrow> s - 1 \<in> {2..5}" by auto
    then show ?thesis using assms(2) by (simp add: demo_sector_def length_concat_blocks [where k = 4] list_all_iff)
  qed
  have s: "sector_of (\<lambda>d. d) (demo_image f D) s = demo_sector f D s" for s
    using len [of s] by (intro nth_equalityI) (simp_all add: sector_of_def demo_image_def)
  have fat: "fat_of demo_geo (demo_sector f D) c = f c" if "c < 6" for c
  proof -
    have "take 4 (drop (4 * c) (concat (map (\<lambda>c. le_bytes 4 (f c)) [0..<6]))) = le_bytes 4 (f c)"
      using concat_block [where h = "\<lambda>c. le_bytes 4 (f c)" and k = 4, OF _ that] by simp
    moreover have "4 * c + 4 \<le> length (concat (map (\<lambda>c. le_bytes 4 (f c)) [0..<6]))"
      using that by (simp add: length_concat_blocks [where k = 4] list_all_iff)
    moreover have "f c < 2 ^ 28" using assms(1) that by blast
    moreover from this have "le_nat (le_bytes 4 (f c)) = f c" by (intro le_nat_bytes) simp
    ultimately show ?thesis
      using that by (simp add: fat_of_def demo_geo_def demo_sector_def field32_def mult.commute)
  qed
  have "cluster_of demo_geo (demo_sector f D) c = D c" if "2 \<le> c" "c < 6" for c
    using that by (simp add: cluster_of_def demo_geo_def demo_sector_def)
  moreover have "mirrored demo_geo (demo_sector f D)"
    unfolding mirrored_def
  proof (intro allI impI)
    fix copy s assume "copy < fat_count demo_geo" "s < fat_size demo_geo"
    then have "s = 0" "copy = 0 \<or> copy = 1" by (auto simp: demo_geo_def)
    then show "demo_sector f D (fat_start demo_geo + copy * fat_size demo_geo + s) = demo_sector f D (fat_start demo_geo + s)"
      by (auto simp: demo_geo_def demo_sector_def)
  qed
  ultimately show ?thesis
    using fat unfolding s vol_def by (simp add: demo_geo_def)
qed

definition demo_fs :: fat_fs where
  "demo_fs = \<lparr>ff_geo = demo_geo, ff_mounted = True, ff_read_only = False\<rparr>"

text \<open>An empty root directory.\<close>

definition empty_fat :: "nat \<Rightarrow> nat" where "empty_fat = (\<lambda>_. 0)(2 := 0x0FFFFFFF)"
definition empty_data :: "nat \<Rightarrow> bytes" where "empty_data = (\<lambda>_. replicate 512 0)"

lemma empty_free: "free_clusters demo_geo empty_fat = {3, 4, 5}"
  by (auto simp: free_clusters_def demo_geo_def empty_fat_def)

lemma empty_slots: "x \<in> set (slots demo_geo [2]) \<Longrightarrow> is_end_entry (slot_entry empty_data x)"
  by (rule demo.zero_end) (simp_all add: empty_data_def demo_geo_def)

lemma empty_root:
  "owns demo_geo empty_fat 2 [2]" "well_ended demo_geo empty_data [2]" "dir_listing demo_geo empty_data [2] = []"
  "leftover demo_geo empty_data [2] = []" "free_slot demo_geo empty_data [2] \<noteq> None"
proof -
  obtain x xs where s: "slots demo_geo [2] = x # xs" by (cases "slots demo_geo [2]") (auto simp: slots_def demo_geo_def upt_rec)
  then have x: "is_end_entry (slot_entry empty_data x)" "is_free_entry (slot_entry empty_data x)"
    using empty_slots [of x] end_free by simp_all
  show "owns demo_geo empty_fat 2 [2]" by (simp add: owns_def demo_geo_def empty_fat_def is_end_of_chain_def)
  show "well_ended demo_geo empty_data [2]"
    unfolding well_ended_def using empty_slots by (intro exI [of _ "[]"] exI [of _ "slots demo_geo [2]"]) simp
  show "dir_listing demo_geo empty_data [2] = []" "leftover demo_geo empty_data [2] = []"
    "free_slot demo_geo empty_data [2] \<noteq> None"
    using x by (simp_all add: dir_listing_def leftover_def free_slot_def s)
qed

theorem fat_create_write_read_witness:
  "\<exists>h1 d1. fat_create (mem_disk 7) None demo_fs ''/a.txt'' (demo_image empty_fat empty_data) = (Inr h1, d1)"
proof -
  have v: "vol demo_geo (sector_of (\<lambda>d. d) (demo_image empty_fat empty_data)) empty_fat empty_data"
    by (rule demo_image_vol) (simp_all add: empty_fat_def empty_data_def)
  have r: "root_cluster demo_geo = 2" "ff_geo demo_fs = demo_geo" "\<not> ff_read_only demo_fs"
    by (simp_all add: demo_geo_def demo_fs_def)
  have p: "path_parts ''/a.txt'' = [''a.txt'']" by code_simp
  obtain n where n: "to_83 ''a.txt'' = Some n" by (cases "to_83 ''a.txt''") (code_simp, simp)
  have "(length [1, 2, 3 :: u8] - 1) div cluster_size demo_geo +
      (if free_slot demo_geo empty_data [2] = None then 1 else 0) < card (free_clusters demo_geo empty_fat)"
    using empty_root(5) unfolding empty_free by (simp add: demo_geo_def)
  moreover have "owns demo_geo empty_fat (root_cluster demo_geo) [2]" using empty_root(1) r(1) by simp
  ultimately show ?thesis
    using fat_create_write_read [where data = "[1, 2, 3]" and now = None,
        OF demo_volume v r(2,3) _ _ empty_root(2) p n _ _ empty_root(4)] empty_root(3) by auto
qed

theorem fat_short_names_witness:
  "get_name (new_entry None (map of_char ''README  TXT'') 0x20 7) = ''README.TXT''"
proof -
  have "to_83 ''readme.txt'' = Some (map of_char ''README  TXT'')" by code_simp
  moreover have "List.last ''readme.txt'' \<noteq> CHR ''.''" "map upper ''readme.txt'' = ''README.TXT''" by code_simp+
  ultimately show ?thesis using fat_short_names [where now = None and c = 7 and attr = "0x20", OF _ _ refl] by auto
qed

text \<open>A boot sector for the same geometry.\<close>

definition demo_boot :: bytes where
  "demo_boot = replicate 11 0 @ [0, 2, 1, 1, 0, 2, 0, 0, 7, 0, 0xF8, 0, 0] @ replicate 12 0 @ [1, 0, 0, 0] @
     replicate 4 0 @ [2, 0, 0, 0] @ replicate 464 0"

theorem fat_mount_geometry_witness:
  "\<exists>fs d1. with_mode (mem_disk 7) True (\<lambda>i. if i < 512 then demo_boot ! i else 0) = (Inr fs, d1) \<and>
    fat_volume (mem_disk 7) 7 (\<lambda>d. d) (ff_geo fs)"
proof -
  let ?d = "\<lambda>i. if i < 512 then demo_boot ! i else 0"
  have "length demo_boot = 512" by (simp add: demo_boot_def)
  then have b: "sector_of (\<lambda>d. d) ?d 0 = demo_boot" by (intro nth_equalityI) (simp_all add: sector_of_def)
  obtain d0 where d0: "read_sector (mem_disk 7) 0 ?d = (Inr demo_boot, d0)"
    using reliable_device.read_sector_ok [OF mem_reliable [of 7], of 0 ?d] b by auto
  have z: "le_nat (replicate n 0) = 0" for n by (induction n) simp_all
  have f: "field16 demo_boot 11 = 512" "field16 demo_boot 14 = 1" "field16 demo_boot 17 = 0" "field16 demo_boot 19 = 7"
    "field16 demo_boot 22 = 0" "field16 demo_boot 48 = 0" "field32 demo_boot 36 = 1"
    "demo_boot ! 13 = 1" "demo_boot ! 16 = 2"
    by (simp_all add: demo_boot_def field16_def field32_def nth_append z)
  then have g: "bpb_total demo_boot = 7" "total_clusters (bpb_geo demo_boot) = 4" "fat_size (bpb_geo demo_boot) = 1"
    "fat_start (bpb_geo demo_boot) = 1" "fs_info_sector (bpb_geo demo_boot) = 0"
    by (simp_all add: bpb_total_def bpb_scale_def bpb_geo_def Let_def)
  have v: "bpb_valid demo_boot" using f g(2) by (simp add: bpb_valid_def bpb_scale_def)
  have w: "with_mode (mem_disk 7) True ?d = (Inr \<lparr>ff_geo = bpb_geo demo_boot, ff_mounted = False, ff_read_only = True\<rparr>, d0)"
    using d0 v by (simp add: with_mode_def bnd_simps(1) ok_def)
  show ?thesis
    using fat_mount_geometry [OF mem_reliable [of 7] _ w refl, unfolded b] w g by auto
qed

text \<open>A root directory with one file, \<open>FILE\<close> with the long name \<open>longfile\<close>, in cluster 3.\<close>

definition long_head :: bytes where
  "long_head = [0x41, 108, 0, 111, 0, 110, 0, 103, 0, 102, 0, 0x0F, 0, 0, 105, 0, 108, 0, 101, 0, 0, 0,
       0xFF, 0xFF, 0xFF, 0xFF, 0, 0, 0xFF, 0xFF, 0xFF, 0xFF] @
     entry_bytes (new_entry None (map of_char ''FILE       '') 0x20 3)"

definition long_dir :: bytes where "long_dir = long_head @ replicate 448 0"

definition long_data :: "nat \<Rightarrow> bytes" where "long_data = (\<lambda>_. replicate 512 0)(2 := long_dir)"
definition long_fat :: "nat \<Rightarrow> nat" where "long_fat = (\<lambda>_. 0)(2 := 0x0FFFFFFF, 3 := 0x0FFFFFFF)"

lemma long_length: "length long_head = 64" "length long_dir = 512"
  by (simp_all add: long_head_def long_dir_def)

lemma long_slots:
  obtains rest where "slots demo_geo [2] = [(2, 0)] @ (2, 1) # rest" "\<forall>x \<in> set rest. is_end_entry (slot_entry long_data x)"
proof -
  have "slots demo_geo [2] = [(2, 0)] @ (2, 1) # map (Pair 2) [2..<16]"
    by (simp add: slots_def demo_geo_def upt_rec)
  moreover have "is_end_entry (slot_entry long_data (2, k))" if "2 \<le> k" "k < 16" for k
  proof -
    have "drop (32 * k) long_dir = replicate (448 - (32 * k - 64)) 0"
      using that long_length(1) unfolding long_dir_def by simp
    then show ?thesis using that by (simp add: slot_entry_def chunk_def long_data_def is_end_entry_def entry_at_def)
  qed
  ultimately show thesis by (intro that) auto
qed

lemma long_chunks:
  "chunk long_data (2, 0) = take 32 long_head" "chunk long_data (2, 1) = drop 32 long_head"
  using long_length(1) by (simp_all add: chunk_def long_data_def long_dir_def)

lemma long_short_entry:
  "slot_entry long_data (2, 1) = new_entry None (map of_char ''FILE       '') 0x20 3"
proof -
  have "drop 32 long_head = entry_bytes (new_entry None (map of_char ''FILE       '') 0x20 3)"
    by (simp add: long_head_def)
  then show ?thesis
    using entry_at_bytes [OF new_entry_wf, of "map of_char ''FILE       ''" None "0x20" 3]
    unfolding slot_entry_def long_chunks by simp
qed

lemma long_first:
  "is_long_name (slot_entry long_data (2, 0))" "\<not> is_free_entry (slot_entry long_data (2, 0))"
  "lfn_part (chunk long_data (2, 0)) 0 = [108, 111, 110, 103, 102, 105, 108, 101, 0, 0xFFFF, 0xFFFF, 0xFFFF, 0xFFFF]"
  by (simp_all add: slot_entry_def long_chunks long_head_def is_long_name_def is_free_entry_def entry_at_def
      lfn_part_def field16_def)

abbreviation long_parts :: "nat list list" where
  "long_parts \<equiv> [[108, 111, 110, 103, 102, 105, 108, 101, 0, 0xFFFF, 0xFFFF, 0xFFFF, 0xFFFF]]"

lemma long_text: "lfn_text long_parts = ''longfile''"
  by (simp add: lfn_text_def lfn_char_def utf8_def char_of_eq_iff)

lemma long_root:
  "owns demo_geo long_fat 2 [2]" "owns demo_geo long_fat 3 [3]" "well_ended demo_geo long_data [2]"
  "live (slot_entry long_data (2, 1))" "at_slot demo_geo long_data [2] (2, 1) [] long_parts []"
proof -
  show "owns demo_geo long_fat 2 [2]" "owns demo_geo long_fat 3 [3]"
    by (simp_all add: owns_def demo_geo_def long_fat_def is_end_of_chain_def)
  show live: "live (slot_entry long_data (2, 1))"
    unfolding long_short_entry by (simp add: live_def is_free_entry_def is_long_name_def)
  then have ne: "\<not> is_end_entry (slot_entry long_data (2, 0))" "\<not> is_end_entry (slot_entry long_data (2, 1))"
    using long_first(2) end_free by (auto simp: live_def)
  obtain rest where rest: "slots demo_geo [2] = [(2, 0)] @ (2, 1) # rest"
    "\<forall>x \<in> set rest. is_end_entry (slot_entry long_data x)" by (rule long_slots)
  show "well_ended demo_geo long_data [2]"
    unfolding well_ended_def by (intro exI [of _ "[(2, 0), (2, 1)]"] exI [of _ rest]) (use ne rest in simp)
  have "fst (snd (scan_slots demo_geo long_data rest ([], []))) = []"
    using rest(2) by (cases rest) simp_all
  moreover have "scan_slots demo_geo long_data [(2, 0)] ([], []) = (False, [], long_parts)"
    using ne(1) long_first by (simp add: slot_step_def)
  ultimately show "at_slot demo_geo long_data [2] (2, 1) [] long_parts []"
    unfolding at_slot_def rest(1) by (intro exI [of _ "[(2, 0)]"] exI [of _ rest]) (simp only: append_Cons append_Nil)
qed

theorem fat_orphan_name_witness:
  "\<exists>d1 h d2 d3. fat_remove (mem_disk 7) demo_fs ''/longfile'' (demo_image long_fat long_data) = (Inr (), d1) \<and>
    fat_create (mem_disk 7) None demo_fs ''/new'' d1 = (Inr h, d2) \<and>
    fat_open (mem_disk 7) demo_fs ''/new'' d2 = (Inl NotFound, d3)"
proof -
  have v: "vol demo_geo (sector_of (\<lambda>d. d) (demo_image long_fat long_data)) long_fat long_data"
    by (rule demo_image_vol) (simp_all add: long_fat_def long_data_def long_length)
  have r: "root_cluster demo_geo = 2" "ff_geo demo_fs = demo_geo" "\<not> ff_read_only demo_fs"
    by (simp_all add: demo_geo_def demo_fs_def)
  have o: "owns demo_geo long_fat (root_cluster demo_geo) [2]" using long_root(1) r(1) by simp
  have p: "path_parts ''/longfile'' = [''longfile'']" "path_parts ''/new'' = [''new'']" by code_simp+
  obtain n where n: "to_83 ''new'' = Some n" by (cases "to_83 ''new''") (code_simp, simp)
  let ?e = "slot_entry long_data (2, 1)"
  have reg: "is_regular ?e" "get_cluster ?e = 3"
    unfolding long_short_entry by (simp_all add: is_regular_def is_directory_def get_cluster_def)
  have "shown_name ?e long_parts = lfn_text long_parts" by (simp add: shown_name_def long_text)
  then have lst: "dir_listing demo_geo long_data [2] = [(slot_of demo_geo (2, 1) ?e, lfn_text long_parts)]"
    using listing_at(3) [OF long_root(5,4)] by simp
  have f: "find (named ''longfile'') (dir_listing demo_geo long_data [2]) = Some (slot_of demo_geo (2, 1) ?e, lfn_text long_parts)"
    unfolding lst long_text by (simp add: eq_ignore_ascii_case_def)
  let ?D = "set_slot long_data (2, 1) [0xE5]"
  have l: "32 * snd x + 32 \<le> length (long_data (fst x))" if "x = (2, 0) \<or> x = (2, 1)" for x
    using that by (auto simp: long_data_def long_length)
  have "slot_entry ?D (2, 0) = slot_entry long_data (2, 0)"
    using chunk_set_other [of "(2, 1)" "(2, 0)" "[0xE5]" long_data] l [of "(2, 0)"] l [of "(2, 1)"] by (simp add: slot_entry_def)
  moreover have "length (chunk long_data (2, 1)) = 32" unfolding long_chunks using long_length(1) by simp
  then have "is_free_entry (slot_entry ?D (2, 1))"
    using chunk_erase [of "(2, 1)" long_data "0xE5"] l [of "(2, 1)"] by (simp add: slot_entry_def is_free_entry_def entry_at_def)
  moreover obtain rest where "slots demo_geo [2] = [(2, 0)] @ (2, 1) # rest" by (rule long_slots)
  ultimately have fs: "free_slot demo_geo ?D [2] = Some (2, 1)"
    using long_first(2) by (simp add: free_slot_def)
  have ne: "\<not> eq_ignore_ascii_case (lfn_text long_parts) ''new''" unfolding long_text by code_simp
  show ?thesis
    using fat_orphan_name [where now = None, OF demo_volume v r(2,3) o _ long_root(3) p(1) long_root(5) refl long_root(4)
        reg(1) _ f _ _ fs p(2) n _ ne, of "[3]"] long_root(2) reg(2) long_text by auto
qed

end
