(* ===== verification/Lexer.thy ===== *)
theory Lexer
  imports Prelude
begin

text \<open>
  The tokenizer of Vibra Script (\<open>script/lexer.rs\<close>). A Rust string is its UTF-8 bytes, one \<open>char\<close>
  each; the code splits only at ASCII characters, so walking over bytes and walking over Unicode
  characters give the same tokens. \<open>None\<close> is the panic of an overflowing literal, with \<open>checks\<close> on.
\<close>

datatype token =
    TNumber int | TStr string | TIdent string
  | TVar | TIf | TElse | TWhile | TFn | TReturn | TExit | TPrint | TBeep | TSleep | TExec | TLet
  | TPlus | TMinus | TStar | TSlash | TPercent | TEq | TNe | TLt | TGt | TLe | TGe | TAssign | TNot
  | TLParen | TRParen | TLBrace | TRBrace | TSemicolon | TComma | TColon
  | TNewline | TEof

definition is_alpha :: "char \<Rightarrow> bool" where
  "is_alpha c \<longleftrightarrow> 65 \<le> code c \<and> code c \<le> 90 \<or> 97 \<le> code c \<and> code c \<le> 122"

definition is_ident :: "char \<Rightarrow> bool" where
  "is_ident c \<longleftrightarrow> is_alpha c \<or> is_digit c \<or> c = CHR ''_''"

abbreviation NL :: char where "NL \<equiv> CHR 0x0A"

definition is_blank :: "char \<Rightarrow> bool" where
  "is_blank c \<longleftrightarrow> c = CHR '' '' \<or> c = CHR 0x09 \<or> c = CHR 0x0D"

text \<open>The digits of a literal: the value and the rest of the text.\<close>

fun lex_digits :: "bool \<Rightarrow> int \<Rightarrow> string \<Rightarrow> (int \<times> string) option" where
  "lex_digits checks num [] = Some (num, [])"
| "lex_digits checks num (c # cs) =
     (if is_digit c
      then
        (case arith checks (num * 10) of
           None \<Rightarrow> None
         | Some n10 \<Rightarrow>
             (case arith checks (n10 + (int (code c) - 48)) of
                None \<Rightarrow> None
              | Some n \<Rightarrow> lex_digits checks n cs))
      else Some (num, c # cs))"

definition keyword :: "string \<Rightarrow> token" where
  "keyword ident =
     (if ident = ''var'' \<or> ident = ''let'' then TVar
      else if ident = ''if'' then TIf
      else if ident = ''else'' then TElse
      else if ident = ''while'' then TWhile
      else if ident = ''fn'' then TFn
      else if ident = ''return'' \<or> ident = ''ret'' then TReturn
      else if ident = ''exit'' \<or> ident = ''quit'' then TExit
      else if ident = ''print'' \<or> ident = ''echo'' then TPrint
      else if ident = ''beep'' \<or> ident = ''sound'' then TBeep
      else if ident = ''sleep'' \<or> ident = ''wait'' then TSleep
      else if ident = ''exec'' \<or> ident = ''run'' then TExec
      else if ident = ''let'' then TLet
      else if ident = ''true'' then TNumber 1
      else if ident = ''false'' then TNumber 0
      else if ident = ''null'' \<or> ident = ''nil'' then TNumber 0
      else TIdent ident)"

definition backslash :: char where "backslash = CHR 0x5C"
definition dquote :: char where "dquote = CHR 0x22"
definition squote :: char where "squote = CHR 0x27"

text \<open>What an escape pushes; an unknown one keeps its backslash.\<close>

definition escape :: "char \<Rightarrow> string" where
  "escape c =
     (if c = CHR ''n'' then [NL]
      else if c = CHR ''t'' then [CHR 0x09]
      else if c = backslash then [backslash]
      else if c = dquote then [dquote]
      else if c = squote then [squote]
      else [backslash, c])"

text \<open>The text up to the closing quote, which may be missing.\<close>

fun lex_string :: "char \<Rightarrow> string \<Rightarrow> string \<Rightarrow> string \<times> string" where
  "lex_string quote acc [] = (acc, [])"
| "lex_string quote acc (c # cs) =
     (if c = quote then (acc, cs)
      else if c = backslash
      then (case cs of [] \<Rightarrow> (acc @ [c], []) | e # cs' \<Rightarrow> lex_string quote (acc @ escape e) cs')
      else lex_string quote (acc @ [c]) cs)"

text \<open>An operator or separator at \<open>c\<close>, followed by \<open>cs\<close>; unknown characters give no token.\<close>

definition one_or_two :: "token \<Rightarrow> token \<Rightarrow> string \<Rightarrow> token list \<times> string" where
  "one_or_two t1 t2 cs = (if cs \<noteq> [] \<and> hd cs = CHR ''='' then ([t2], tl cs) else ([t1], cs))"

definition lex_op :: "char \<Rightarrow> string \<Rightarrow> token list \<times> string" where
  "lex_op c cs =
     (if c = CHR ''+'' then ([TPlus], cs)
      else if c = CHR ''-'' then ([TMinus], cs)
      else if c = CHR ''*'' then ([TStar], cs)
      else if c = CHR ''/'' then ([TSlash], cs)
      else if c = CHR ''%'' then ([TPercent], cs)
      else if c = CHR ''('' then ([TLParen], cs)
      else if c = CHR '')'' then ([TRParen], cs)
      else if c = CHR ''{'' then ([TLBrace], cs)
      else if c = CHR ''}'' then ([TRBrace], cs)
      else if c = CHR '';'' then ([TSemicolon], cs)
      else if c = CHR '','' then ([TComma], cs)
      else if c = CHR '':'' then ([TColon], cs)
      else if c = CHR ''!'' then one_or_two TNot TNe cs
      else if c = CHR ''='' then one_or_two TAssign TEq cs
      else if c = CHR ''<'' then one_or_two TLt TLe cs
      else if c = CHR ''>'' then one_or_two TGt TGe cs
      else ([], cs))"

lemma lex_digits_length: "lex_digits checks num cs = Some (n, rest) \<Longrightarrow> length rest \<le> length cs"
  by (induction cs arbitrary: num) (auto split: if_splits option.splits intro: le_SucI)

lemma lex_digits_first:
  "is_digit c \<Longrightarrow> lex_digits checks num (c # cs) = Some (n, rest) \<Longrightarrow> length rest < length (c # cs)"
  by (auto split: option.splits dest!: lex_digits_length)

lemma lex_string_length: "length (snd (lex_string quote acc cs)) \<le> length cs"
proof (induction "length cs" arbitrary: acc cs rule: less_induct)
  case less
  show ?case
  proof (cases cs)
    case (Cons c ds)
    then have l: "length ds < length cs" "length (tl ds) < length cs" by auto
    have *: "length (snd (lex_string quote a ds)) \<le> length cs"
      "length (snd (lex_string quote a (tl ds))) \<le> length cs" for a
      using less [OF l(1), of a] less [OF l(2), of a] l by linarith+
    show ?thesis
    proof (cases ds)
      case Nil
      then show ?thesis using * Cons by simp
    next
      case (Cons e es)
      then show ?thesis using * \<open>cs = c # ds\<close> by simp
    qed
  qed simp
qed

lemma if_length: "length (snd x) \<le> n \<Longrightarrow> length (snd y) \<le> n \<Longrightarrow> length (snd (if b then x else y)) \<le> n"
  by simp

lemma lex_op_length: "length (snd (lex_op c cs)) \<le> length cs"
  unfolding lex_op_def by (intro if_length) (simp_all add: one_or_two_def)

function lex :: "bool \<Rightarrow> string \<Rightarrow> token list option" where
  "lex checks [] = Some []"
| "lex checks (c # cs) =
     (if is_blank c then lex checks cs
      else if c = CHR ''#'' then lex checks (dropWhile (\<lambda>x. x \<noteq> NL) cs)
      else if c = NL then map_option ((#) TNewline) (lex checks cs)
      else if is_digit c
      then
        (case lex_digits checks 0 (c # cs) of
           None \<Rightarrow> None
         | Some (num, rest) \<Rightarrow> map_option ((#) (TNumber num)) (lex checks rest))
      else if is_alpha c \<or> c = CHR ''_''
      then map_option ((#) (keyword (takeWhile is_ident (c # cs)))) (lex checks (dropWhile is_ident cs))
      else if c = dquote \<or> c = squote
      then
        (case lex_string c [] cs of
           (s, rest) \<Rightarrow> map_option ((#) (TStr s)) (lex checks rest))
      else
        (case lex_op c cs of
           (ts, rest) \<Rightarrow> map_option ((@) ts) (lex checks rest)))"
  by pat_completeness auto
termination
proof (relation "measure (\<lambda>(checks, cs). length cs)", goal_cases)
  case (5 checks c cs x y z)
  then have "lex_digits checks 0 (c # cs) = Some (y, z)" by (simp only:)
  from lex_digits_first [OF 5(4) this] show ?case by simp
next
  case (7 checks c cs x y)
  then show ?case using lex_string_length [of c "[]" cs] by (metis in_measure case_prod_conv le_imp_less_Suc length_Cons snd_conv)
next
  case (8 checks c cs x y)
  then show ?case using lex_op_length [of c cs] by (metis in_measure case_prod_conv le_imp_less_Suc length_Cons snd_conv)
qed (auto simp: le_imp_less_Suc length_dropWhile_le)

definition tokenize :: "bool \<Rightarrow> string \<Rightarrow> token list option" where
  "tokenize checks source = map_option (\<lambda>ts. ts @ [TEof]) (lex checks source)"

section \<open>Printing tokens\<close>

text \<open>
  A printer for token lists, the inverse of the tokenizer: every token is followed by a blank, and a
  string escapes its quotes and backslashes.
\<close>

definition quote_char :: "char \<Rightarrow> string" where
  "quote_char c = (if c = dquote \<or> c = backslash then [backslash, c] else [c])"

fun token_text :: "token \<Rightarrow> string" where
  "token_text (TNumber n) = decimal (nat n)"
| "token_text (TStr s) = dquote # concat (map quote_char s) @ [dquote]"
| "token_text (TIdent s) = s"
| "token_text TVar = ''var''"
| "token_text TIf = ''if''"
| "token_text TElse = ''else''"
| "token_text TWhile = ''while''"
| "token_text TFn = ''fn''"
| "token_text TReturn = ''return''"
| "token_text TExit = ''exit''"
| "token_text TPrint = ''print''"
| "token_text TBeep = ''beep''"
| "token_text TSleep = ''sleep''"
| "token_text TExec = ''exec''"
| "token_text TLet = ''let''"
| "token_text TPlus = ''+''"
| "token_text TMinus = ''-''"
| "token_text TStar = ''*''"
| "token_text TSlash = ''/''"
| "token_text TPercent = ''%''"
| "token_text TEq = ''==''"
| "token_text TNe = ''!=''"
| "token_text TLt = ''<''"
| "token_text TGt = ''>''"
| "token_text TLe = ''<=''"
| "token_text TGe = ''>=''"
| "token_text TAssign = ''=''"
| "token_text TNot = ''!''"
| "token_text TLParen = ''(''"
| "token_text TRParen = '')''"
| "token_text TLBrace = ''{''"
| "token_text TRBrace = ''}''"
| "token_text TSemicolon = '';''"
| "token_text TComma = '',''"
| "token_text TColon = '':''"
| "token_text TNewline = [NL]"
| "token_text TEof = []"

definition valid_ident :: "string \<Rightarrow> bool" where
  "valid_ident s \<longleftrightarrow> s \<noteq> [] \<and> (is_alpha (hd s) \<or> hd s = CHR ''_'') \<and> list_all is_ident s \<and> keyword s = TIdent s"

text \<open>The tokens that a source text can hold: no end mark, no \<open>TLet\<close>, which no text produces.\<close>

fun printable :: "token \<Rightarrow> bool" where
  "printable (TNumber n) \<longleftrightarrow> 0 \<le> n \<and> n \<le> i64_max"
| "printable (TIdent s) \<longleftrightarrow> valid_ident s"
| "printable t \<longleftrightarrow> t \<noteq> TEof \<and> t \<noteq> TLet"

definition source_of :: "token list \<Rightarrow> string" where
  "source_of ts = concat (map (\<lambda>t. token_text t @ '' '') ts)"

lemma digit_plain: "is_digit c \<Longrightarrow> \<not> is_blank c \<and> c \<noteq> CHR ''#'' \<and> c \<noteq> NL"
  by (auto simp: is_digit_def is_blank_def)

lemma alpha_plain:
  "is_alpha c \<or> c = CHR ''_'' \<Longrightarrow> \<not> is_blank c \<and> c \<noteq> CHR ''#'' \<and> c \<noteq> NL \<and> \<not> is_digit c"
  by (auto simp: is_alpha_def is_digit_def is_blank_def)

lemma lex_digits_decimal:
  assumes "0 \<le> num" "num * 10 ^ length (decimal n) + int n \<le> i64_max"
  shows "lex_digits checks num (decimal n @ rest) =
    lex_digits checks (num * 10 ^ length (decimal n) + int n) rest"
  using assms
proof (induction n arbitrary: rest rule: decimal.induct)
  case (1 n)
  have step: "lex_digits checks m (char_of (48 + d) # rest) = lex_digits checks (m * 10 + int d) rest"
    if "0 \<le> m" "d < 10" "m * 10 + int d \<le> i64_max" for m d
    using that by (simp add: arith_in_range i64_min_def)
  show ?case
  proof (cases "n < 10")
    case True
    then have d: "decimal n = [char_of (48 + n)]" by (subst decimal.simps) simp
    show ?thesis using step [of num n] 1(2,3) True unfolding d by simp
  next
    case False
    let ?m = "num * 10 ^ length (decimal (n div 10)) + int (n div 10)"
    have d: "decimal n = decimal (n div 10) @ [char_of (48 + n mod 10)]"
      using False by (subst decimal.simps) simp
    have sum: "?m * 10 + int (n mod 10) = num * 10 ^ length (decimal n) + int n"
    proof -
      have "int n = 10 * int (n div 10) + int (n mod 10)" by (metis div_mult_mod_eq mult.commute of_nat_add of_nat_mult of_nat_numeral)
      then show ?thesis unfolding d by (simp add: algebra_simps)
    qed
    have ge: "0 \<le> ?m" using 1(2) by simp
    have up: "m \<le> m * 10 + int k" if "0 \<le> m" for m k using that of_nat_0_le_iff [of k] by linarith
    have "?m \<le> ?m * 10 + int (n mod 10)" by (rule up [OF ge])
    then have le: "?m \<le> i64_max" "0 \<le> ?m" using 1(3) sum ge by linarith+
    have "lex_digits checks num (decimal n @ rest) =
        lex_digits checks ?m (char_of (48 + n mod 10) # rest)"
      using 1(1) [OF False 1(2) le(1)] unfolding d by simp
    also have "\<dots> = lex_digits checks (?m * 10 + int (n mod 10)) rest"
      using le(2) 1(3) sum by (intro step) auto
    finally show ?thesis unfolding sum .
  qed
qed

lemma lex_string_quoted:
  "lex_string dquote acc (concat (map quote_char s) @ dquote # rest) = (acc @ s, rest)"
proof (induction s arbitrary: acc)
  case (Cons c s)
  have ne: "backslash \<noteq> dquote" by (simp add: backslash_def dquote_def)
  have e: "escape dquote = [dquote]" "escape backslash = [backslash]"
    by (simp_all add: escape_def dquote_def backslash_def squote_def)
  show ?case using Cons ne e by (auto simp: quote_char_def)
qed simp

section \<open>Reading printed tokens\<close>

lemma lex_blank [simp]: "lex checks (CHR '' '' # cs) = lex checks cs"
  by (simp add: is_blank_def)

text \<open>The branches of the tokenizer, by the class of the first character.\<close>

lemma lex_branch_name:
  "is_alpha c \<or> c = CHR ''_'' \<Longrightarrow> lex checks (c # cs) =
    map_option ((#) (keyword (takeWhile is_ident (c # cs)))) (lex checks (dropWhile is_ident cs))"
  using alpha_plain [of c] by (simp only: lex.simps(2) if_False if_True simp_thms)

lemma lex_branch_digit:
  "is_digit c \<Longrightarrow> lex checks (c # cs) =
    (case lex_digits checks 0 (c # cs) of
       None \<Rightarrow> None
     | Some (num, rest) \<Rightarrow> map_option ((#) (TNumber num)) (lex checks rest))"
  using digit_plain [of c] by (simp only: lex.simps(2) if_False if_True simp_thms)

definition op_char :: "char \<Rightarrow> bool" where
  "op_char c \<longleftrightarrow> \<not> is_blank c \<and> c \<noteq> CHR ''#'' \<and> c \<noteq> NL \<and> \<not> is_digit c \<and> \<not> is_alpha c \<and> c \<noteq> CHR ''_'' \<and>
     c \<noteq> dquote \<and> c \<noteq> squote"

lemma lex_branch_op:
  "op_char c \<Longrightarrow> lex checks (c # cs) =
    (case lex_op c cs of (ts, rest) \<Rightarrow> map_option ((@) ts) (lex checks rest))"
  unfolding op_char_def by (simp only: lex.simps(2) if_False if_True simp_thms)

lemma lex_number:
  assumes "0 \<le> n" "n \<le> i64_max"
  shows "lex checks (decimal (nat n) @ CHR '' '' # cs) = map_option ((#) (TNumber n)) (lex checks cs)"
proof -
  obtain c ds where d: "decimal (nat n) = c # ds" using decimal_nonempty by (cases "decimal (nat n)") auto
  have c: "is_digit c" using decimal_digits [of "nat n"] d by simp
  have "lex_digits checks 0 (decimal (nat n) @ CHR '' '' # cs) = lex_digits checks (int (nat n)) (CHR '' '' # cs)"
    using lex_digits_decimal [of 0 "nat n" checks "CHR '' '' # cs"] assms by simp
  also have "\<dots> = Some (n, CHR '' '' # cs)" using assms by (simp add: is_digit_def)
  finally show ?thesis
    unfolding d append_Cons lex_branch_digit [OF c] by (simp del: lex_digits.simps lex.simps)
qed

lemma takeWhile_ident:
  "list_all is_ident s \<Longrightarrow> takeWhile is_ident (s @ CHR '' '' # cs) = s"
  "list_all is_ident s \<Longrightarrow> dropWhile is_ident (s @ CHR '' '' # cs) = CHR '' '' # cs"
  by (induction s) (simp_all add: is_ident_def is_alpha_def is_digit_def)

lemma lex_word:
  assumes "s \<noteq> []" "is_alpha (hd s) \<or> hd s = CHR ''_''" "list_all is_ident s"
  shows "lex checks (s @ CHR '' '' # cs) = map_option ((#) (keyword s)) (lex checks cs)"
proof -
  obtain c ds where s: "s = c # ds" using assms(1) by (cases s) auto
  have d: "dropWhile is_ident (ds @ CHR '' '' # cs) = CHR '' '' # cs"
    "takeWhile is_ident (c # ds @ CHR '' '' # cs) = s"
    using takeWhile_ident [of s cs] takeWhile_ident [of ds cs] assms(3) s by auto
  have c: "is_alpha c \<or> c = CHR ''_''" using assms(2) s by simp
  show ?thesis
    unfolding s append_Cons lex_branch_name [OF c] d by (simp only: lex_blank s)
qed

lemma lex_quoted:
  "lex checks (dquote # concat (map quote_char s) @ dquote # cs) = map_option ((#) (TStr s)) (lex checks cs)"
  using lex_string_quoted [of "[]" s cs]
  by (simp add: is_blank_def is_digit_def is_alpha_def dquote_def)

lemma lex_newline: "lex checks (NL # cs) = map_option ((#) TNewline) (lex checks cs)"
  by (simp add: is_blank_def)

text \<open>The operators, one by one: none starts like a blank, a comment, a number or a name.\<close>

lemma lex_operator:
  assumes "t \<in> set [TPlus, TMinus, TStar, TSlash, TPercent, TEq, TNe, TLt, TGt, TLe, TGe, TAssign, TNot,
      TLParen, TRParen, TLBrace, TRBrace, TSemicolon, TComma, TColon]"
  shows "lex checks (token_text t @ CHR '' '' # cs) = map_option ((#) t) (lex checks cs)"
proof -
  have c: "op_char CHR ''+''" "op_char CHR ''-''" "op_char CHR ''*''" "op_char CHR ''/''" "op_char CHR ''%''"
    "op_char CHR ''(''" "op_char CHR '')''" "op_char CHR ''{''" "op_char CHR ''}''" "op_char CHR '';''"
    "op_char CHR '',''" "op_char CHR '':''" "op_char CHR ''!''" "op_char CHR ''=''" "op_char CHR ''<''" "op_char CHR ''>''"
    by (simp_all add: op_char_def is_blank_def is_digit_def is_alpha_def dquote_def squote_def)
  have o: "lex_op CHR ''+'' ds = ([TPlus], ds)" "lex_op CHR ''-'' ds = ([TMinus], ds)"
    "lex_op CHR ''*'' ds = ([TStar], ds)" "lex_op CHR ''/'' ds = ([TSlash], ds)"
    "lex_op CHR ''%'' ds = ([TPercent], ds)" "lex_op CHR ''('' ds = ([TLParen], ds)"
    "lex_op CHR '')'' ds = ([TRParen], ds)" "lex_op CHR ''{'' ds = ([TLBrace], ds)"
    "lex_op CHR ''}'' ds = ([TRBrace], ds)" "lex_op CHR '';'' ds = ([TSemicolon], ds)"
    "lex_op CHR '','' ds = ([TComma], ds)" "lex_op CHR '':'' ds = ([TColon], ds)"
    "lex_op CHR ''!'' ds = one_or_two TNot TNe ds" "lex_op CHR ''='' ds = one_or_two TAssign TEq ds"
    "lex_op CHR ''<'' ds = one_or_two TLt TLe ds" "lex_op CHR ''>'' ds = one_or_two TGt TGe ds" for ds
    by (simp_all add: lex_op_def)
  have a: "(@) [x] = (#) x" for x :: token by auto
  have "t = TPlus \<or> t = TMinus \<or> t = TStar \<or> t = TSlash \<or> t = TPercent \<or> t = TEq \<or> t = TNe \<or> t = TLt \<or>
      t = TGt \<or> t = TLe \<or> t = TGe \<or> t = TAssign \<or> t = TNot \<or> t = TLParen \<or> t = TRParen \<or> t = TLBrace \<or>
      t = TRBrace \<or> t = TSemicolon \<or> t = TComma \<or> t = TColon"
    using assms by simp
  then show ?thesis
    by (elim disjE) (simp_all add: c [THEN lex_branch_op] o one_or_two_def a del: lex.simps)
qed

lemma lex_printed:
  assumes "printable t"
  shows "lex checks (token_text t @ CHR '' '' # cs) = map_option ((#) t) (lex checks cs)"
proof -
  have words: "valid_ident s \<Longrightarrow> s \<noteq> [] \<and> (is_alpha (hd s) \<or> hd s = CHR ''_'') \<and> list_all is_ident s \<and> keyword s = TIdent s" for s
    by (simp add: valid_ident_def)
  have kw: "lex checks (s @ CHR '' '' # cs) = map_option ((#) (keyword s)) (lex checks cs)"
    if "s \<in> set [''var'', ''if'', ''else'', ''while'', ''fn'', ''return'', ''exit'', ''print'', ''beep'', ''sleep'', ''exec'']" for s
    by (rule lex_word) (use that in \<open>auto simp: is_ident_def is_alpha_def\<close>)
  have key: "keyword ''var'' = TVar" "keyword ''if'' = TIf" "keyword ''else'' = TElse" "keyword ''while'' = TWhile"
    "keyword ''fn'' = TFn" "keyword ''return'' = TReturn" "keyword ''exit'' = TExit" "keyword ''print'' = TPrint"
    "keyword ''beep'' = TBeep" "keyword ''sleep'' = TSleep" "keyword ''exec'' = TExec"
    by (simp_all add: keyword_def)
  note word = kw [of "''var''"] kw [of "''if''"] kw [of "''else''"] kw [of "''while''"] kw [of "''fn''"]
    kw [of "''return''"] kw [of "''exit''"] kw [of "''print''"] kw [of "''beep''"] kw [of "''sleep''"] kw [of "''exec''"]
  show ?thesis
  proof (cases t)
    case (TNumber n)
    then show ?thesis using assms lex_number [of n checks cs] by (simp del: lex.simps)
  next
    case (TStr s)
    then show ?thesis using lex_quoted [of checks s "CHR '' '' # cs"] by (simp del: lex.simps)
  next
    case (TIdent s)
    then show ?thesis using assms words [of s] lex_word [of s checks cs] by (simp del: lex.simps)
  next
    case TNewline
    then show ?thesis using lex_newline [of checks "CHR '' '' # cs"] by (simp del: lex.simps)
  qed (use assms word key lex_operator [of t checks cs] in \<open>simp_all del: lex.simps\<close>)
qed

lemma lex_source: "list_all printable ts \<Longrightarrow> lex checks (source_of ts) = Some ts"
  by (induction ts) (simp_all add: source_of_def lex_printed)

section \<open>Properties\<close>

text \<open>
  Printing and reading tokens is a round trip. For every list of tokens that a source text can
  hold, in the dev and in the release build, tokenizing its printed text returns exactly these
  tokens and the end mark: no token is merged, split, reordered or lost, and strings keep every
  character through their escapes.
\<close>

theorem tokenize_roundtrip:
  assumes "list_all printable ts"
  shows "tokenize checks (source_of ts) = Some (ts @ [TEof])"
  by (simp add: tokenize_def lex_source [OF assms])

theorem tokenize_roundtrip_witness:
  "tokenize True ''x = 10 '' = Some [TIdent ''x'', TAssign, TNumber 10, TEof]"
proof -
  have d: "decimal 10 = ''10''" by (simp add: decimal.simps char_of_def bit_iff_odd)
  have "valid_ident ''x''" by (simp add: valid_ident_def is_alpha_def is_ident_def keyword_def)
  then have "list_all printable [TIdent ''x'', TAssign, TNumber 10]" by (simp add: i64_max_def)
  from tokenize_roundtrip [OF this, of True] show ?thesis by (simp add: source_of_def d)
qed

end
