(* ===== verification/Parser.thy ===== *)
theory Parser
  imports Lexer
begin

text \<open>
  The recursive descent parser of Vibra Script (\<open>script/parser.rs\<close>). The parser's position is the list
  of remaining tokens; past the end it sees \<open>TEof\<close>. \<open>expr\<close>, \<open>term\<close> and \<open>factor\<close> of the source are one
  loop over their own operators, here \<open>parse_level\<close> 0, 1 and 2. The functions take fuel, and \<open>None\<close>
  means that it ran out: \<open>parse\<close> passes an amount that the lemmas below show to be enough for every
  token list. Error texts are values with the tokens they name.
\<close>

section \<open>Syntax trees\<close>

datatype binop = BAdd | BSub | BMul | BDiv | BMod | BEq | BNe | BLt | BGt | BLe | BGe

datatype unop = UNot | UNeg

datatype expr =
    ENumber int | EStr string | EVar string | EBin expr binop expr | EUn unop expr | ECall string "expr list"

datatype stmt =
    SVarDecl string expr | SAssign string expr | SPrint "expr list" | SIf expr "stmt list" "stmt list"
  | SWhile expr "stmt list" | SBeep expr | SSleep expr | SExit | SExpr expr

datatype parse_error = Expected token token | ExpectedName token | Unexpected token

type_synonym 'a presult = "(parse_error + 'a \<times> token list) option"

section \<open>The parser\<close>

definition peek :: "token list \<Rightarrow> token" where
  "peek ts = (case ts of [] \<Rightarrow> TEof | t # _ \<Rightarrow> t)"

definition advance :: "token list \<Rightarrow> token list" where
  "advance ts = drop 1 ts"

abbreviation ret :: "'a \<Rightarrow> token list \<Rightarrow> 'a presult" where
  "ret a ts \<equiv> Some (Inr (a, ts))"

text \<open>The operator \<open>?\<close>: an error ends the caller too.\<close>

definition bind_p :: "'a presult \<Rightarrow> ('a \<Rightarrow> token list \<Rightarrow> 'b presult) \<Rightarrow> 'b presult" where
  "bind_p x g =
     (case x of
        None \<Rightarrow> None
      | Some (Inl e) \<Rightarrow> Some (Inl e)
      | Some (Inr (a, ts)) \<Rightarrow> g a ts)"

definition expect :: "token \<Rightarrow> token list \<Rightarrow> unit presult" where
  "expect t ts = (if peek ts = t then ret () (advance ts) else Some (Inl (Expected t (peek ts))))"

text \<open>The operators of \<open>expr\<close> (level 0), \<open>term\<close> (1) and \<open>factor\<close> (2).\<close>

definition level_op :: "nat \<Rightarrow> token \<Rightarrow> binop option" where
  "level_op lvl t =
     (if lvl = 0 then (if t = TPlus then Some BAdd else if t = TMinus then Some BSub else None)
      else if lvl = 1
      then (if t = TStar then Some BMul else if t = TSlash then Some BDiv
            else if t = TPercent then Some BMod else None)
      else if lvl = 2
      then (if t = TEq then Some BEq else if t = TNe then Some BNe else if t = TLt then Some BLt
            else if t = TGt then Some BGt else if t = TLe then Some BLe
            else if t = TGe then Some BGe else None)
      else None)"

fun parse_level :: "nat \<Rightarrow> nat \<Rightarrow> token list \<Rightarrow> expr presult"
and level_loop :: "nat \<Rightarrow> nat \<Rightarrow> expr \<Rightarrow> token list \<Rightarrow> expr presult"
and unary :: "nat \<Rightarrow> token list \<Rightarrow> expr presult"
and atom :: "nat \<Rightarrow> token list \<Rightarrow> expr presult" where
  "parse_level 0 lvl ts = None"
| "parse_level (Suc f) lvl ts =
     (if lvl < 3 then bind_p (parse_level f (lvl + 1) ts) (\<lambda>left. level_loop f lvl left) else unary f ts)"
| "level_loop 0 lvl left ts = None"
| "level_loop (Suc f) lvl left ts =
     (case level_op lvl (peek ts) of
        None \<Rightarrow> ret left ts
      | Some op \<Rightarrow>
          bind_p (parse_level f (lvl + 1) (advance ts)) (\<lambda>right. level_loop f lvl (EBin left op right)))"
| "unary 0 ts = None"
| "unary (Suc f) ts =
     (if peek ts = TMinus then bind_p (atom f (advance ts)) (\<lambda>e. ret (EUn UNeg e))
      else if peek ts = TNot then bind_p (atom f (advance ts)) (\<lambda>e. ret (EUn UNot e))
      else atom f ts)"
| "atom 0 ts = None"
| "atom (Suc f) ts =
     (case peek ts of
        TNumber n \<Rightarrow> ret (ENumber n) (advance ts)
      | TStr s \<Rightarrow> ret (EStr s) (advance ts)
      | TIdent name \<Rightarrow> ret (EVar name) (advance ts)
      | TLParen \<Rightarrow>
          bind_p (parse_level f 0 (advance ts)) (\<lambda>e ts. bind_p (expect TRParen ts) (\<lambda>_. ret e))
      | t \<Rightarrow> Some (Inl (Unexpected t)))"

fun print_args :: "nat \<Rightarrow> expr list \<Rightarrow> token list \<Rightarrow> expr list presult" where
  "print_args 0 args ts = None"
| "print_args (Suc f) args ts =
     (if peek ts = TNewline \<or> peek ts = TEof \<or> peek ts = TSemicolon then ret args ts
      else
        bind_p (parse_level f 0 ts) (\<lambda>e ts.
          print_args f (args @ [e]) (if peek ts = TComma then advance ts else ts)))"

definition skip_seps :: "token list \<Rightarrow> token list" where
  "skip_seps ts = dropWhile (\<lambda>t. t = TSemicolon \<or> t = TNewline) ts"

text \<open>
  \<open>block\<close> is the loop over a body up to its closing brace; that of \<open>while\<close> also skips semicolons
  (\<open>semi\<close>). A bare block is parsed and its statements are dropped, as in the source.
\<close>

fun parse_stmt :: "nat \<Rightarrow> token list \<Rightarrow> stmt presult"
and parse_if :: "nat \<Rightarrow> token list \<Rightarrow> stmt presult"
and parse_while :: "nat \<Rightarrow> token list \<Rightarrow> stmt presult"
and block :: "nat \<Rightarrow> bool \<Rightarrow> stmt list \<Rightarrow> token list \<Rightarrow> stmt list presult" where
  "parse_stmt 0 ts0 = None"
| "parse_stmt (Suc f) ts0 =
     (let ts = skip_seps ts0 in
      case peek ts of
        TVar \<Rightarrow>
          (case peek (advance ts) of
             TIdent name \<Rightarrow>
               bind_p (expect TAssign (advance (advance ts))) (\<lambda>_ ts.
                 bind_p (parse_level f 0 ts) (\<lambda>e. ret (SVarDecl name e)))
           | t \<Rightarrow> Some (Inl (ExpectedName t)))
      | TIf \<Rightarrow> parse_if f ts
      | TWhile \<Rightarrow> parse_while f ts
      | TPrint \<Rightarrow> bind_p (print_args f [] (advance ts)) (\<lambda>args. ret (SPrint args))
      | TBeep \<Rightarrow> bind_p (parse_level f 0 (advance ts)) (\<lambda>e. ret (SBeep e))
      | TSleep \<Rightarrow> bind_p (parse_level f 0 (advance ts)) (\<lambda>e. ret (SSleep e))
      | TExit \<Rightarrow> ret SExit (advance ts)
      | TLBrace \<Rightarrow> bind_p (block f False [] (advance ts)) (\<lambda>_. ret (SExpr (ENumber 0)))
      | TIdent name \<Rightarrow>
          if peek (advance ts) = TAssign
          then bind_p (parse_level f 0 (advance (advance ts))) (\<lambda>e. ret (SAssign name e))
          else ret (SExpr (EVar name)) (advance ts)
      | _ \<Rightarrow> bind_p (parse_level f 0 ts) (\<lambda>e. ret (SExpr e)))"
| "parse_if 0 ts = None"
| "parse_if (Suc f) ts =
     bind_p (parse_level f 0 (advance ts)) (\<lambda>cond ts.
     bind_p (expect TLBrace ts) (\<lambda>_ ts.
     bind_p (block f False [] ts) (\<lambda>then_body ts.
       if peek ts = TElse
       then
         bind_p (expect TLBrace (advance ts)) (\<lambda>_ ts.
         bind_p (block f False [] ts) (\<lambda>else_body. ret (SIf cond then_body else_body)))
       else ret (SIf cond then_body []) ts)))"
| "parse_while 0 ts = None"
| "parse_while (Suc f) ts =
     bind_p (parse_level f 0 (advance ts)) (\<lambda>cond ts.
     bind_p (expect TLBrace ts) (\<lambda>_ ts.
     bind_p (block f True [] ts) (\<lambda>body. ret (SWhile cond body))))"
| "block 0 semi acc ts = None"
| "block (Suc f) semi acc ts =
     (if peek ts = TRBrace \<or> peek ts = TEof then ret acc (advance ts)
      else if peek ts = TNewline \<or> (semi \<and> peek ts = TSemicolon) then block f semi acc (advance ts)
      else bind_p (parse_stmt f ts) (\<lambda>s. block f semi (acc @ [s])))"

fun parse_loop :: "nat \<Rightarrow> stmt list \<Rightarrow> token list \<Rightarrow> (parse_error + stmt list) option" where
  "parse_loop 0 acc ts = None"
| "parse_loop (Suc f) acc ts =
     (if ts = [] then Some (Inr acc)
      else if peek ts = TEof then Some (Inr acc)
      else if peek ts = TNewline \<or> peek ts = TSemicolon then parse_loop f acc (advance ts)
      else
        (case parse_stmt f ts of
           None \<Rightarrow> None
         | Some (Inl e) \<Rightarrow> Some (Inl e)
         | Some (Inr (s, ts)) \<Rightarrow> parse_loop f (acc @ [s]) ts))"

definition parse :: "token list \<Rightarrow> (parse_error + stmt list) option" where
  "parse ts = parse_loop (8 * length ts + 12) [] ts"

section \<open>The fuel is enough\<close>

text \<open>
  \<open>good n x\<close>: the parser returned, and on success it left fewer than \<open>n\<close> tokens.
\<close>

definition good :: "nat \<Rightarrow> 'a presult \<Rightarrow> bool" where
  "good n x \<longleftrightarrow> (case x of None \<Rightarrow> False | Some (Inl e) \<Rightarrow> True | Some (Inr (a, ts)) \<Rightarrow> length ts < n)"

lemma good_simps [simp]: "good n (ret a ts) \<longleftrightarrow> length ts < n" "good n (Some (Inl e))"
  by (simp_all add: good_def)

lemma good_mono: "good m x \<Longrightarrow> m \<le> n \<Longrightarrow> good n x"
  by (auto simp: good_def split: option.splits sum.splits)

lemma good_bind:
  assumes "good m x" "\<And>a ts. length ts < m \<Longrightarrow> good n (g a ts)"
  shows "good n (bind_p x g)"
proof (cases x)
  case (Some r)
  then show ?thesis using assms by (cases r) (auto simp: good_def bind_p_def)
qed (use assms in \<open>simp add: good_def\<close>)

lemma peek_advance: "peek ts \<noteq> TEof \<Longrightarrow> Suc (length (advance ts)) = length ts"
  by (cases ts) (auto simp: peek_def advance_def)

lemma length_advance: "length (advance ts) \<le> length ts"
  by (simp add: advance_def)

lemma good_expect: "t \<noteq> TEof \<Longrightarrow> good (length ts) (expect t ts)"
  using peek_advance [of ts] by (auto simp: expect_def)

lemma level_op_eof: "level_op lvl (peek ts) = Some op \<Longrightarrow> peek ts \<noteq> TEof"
  by (auto simp: level_op_def split: if_splits)

lemma expr_good:
  "lvl \<le> 3 \<Longrightarrow> 6 * length ts + 6 \<le> f + lvl \<Longrightarrow> good (length ts) (parse_level f lvl ts)"
  "6 * length ts + 3 \<le> f \<Longrightarrow> lvl \<le> 2 \<Longrightarrow> good (Suc (length ts)) (level_loop f lvl left ts)"
  "6 * length ts + 2 \<le> f \<Longrightarrow> good (length ts) (unary f ts)"
  "6 * length ts + 1 \<le> f \<Longrightarrow> good (length ts) (atom f ts)"
proof (induction f lvl ts and f lvl left ts and f ts and f ts rule: parse_level_level_loop_unary_atom.induct)
  case (2 f lvl ts)
  show ?case
  proof (cases "lvl < 3")
    case True
    then have p: "good (length ts) (parse_level f (lvl + 1) ts)" using 2 by simp
    moreover have "good (length ts) (level_loop f lvl a ts')" if "length ts' < length ts" for a ts'
    proof -
      have "good (Suc (length ts')) (level_loop f lvl a ts')" using 2(2) [OF True] 2(4,5) True that by simp
      then show ?thesis by (rule good_mono) (use that in simp)
    qed
    ultimately show ?thesis using True by (auto intro: good_bind)
  next
    case False
    then show ?thesis using 2 by simp
  qed
next
  case (4 f lvl left ts)
  show ?case
  proof (cases "level_op lvl (peek ts)")
    case (Some op)
    then have l: "Suc (length (advance ts)) = length ts" using level_op_eof peek_advance by blast
    then have "good (length (advance ts)) (parse_level f (lvl + 1) (advance ts))" using 4(1) [OF Some] 4(3,4) by simp
    moreover have "good (Suc (length ts)) (level_loop f lvl (EBin left op a) ts')" if "length ts' < length (advance ts)" for a ts'
    proof -
      have "good (Suc (length ts')) (level_loop f lvl (EBin left op a) ts')" using 4(2) [OF Some] 4(3,4) that l by simp
      then show ?thesis by (rule good_mono) (use that l in simp)
    qed
    ultimately show ?thesis using Some by (auto intro: good_bind)
  qed simp
next
  case (6 f ts)
  have l: "peek ts = TMinus \<or> peek ts = TNot \<Longrightarrow> Suc (length (advance ts)) = length ts"
    using peek_advance by fastforce
  have a: "good (length ts) (bind_p (atom f (advance ts)) (\<lambda>e. ret (g e)))" if "peek ts = TMinus \<or> peek ts = TNot" for g
  proof (rule good_bind)
    show "good (length (advance ts)) (atom f (advance ts))"
      using that 6(1) 6(2) 6(4) l [OF that] by (cases "peek ts = TMinus") auto
  qed (use l [OF that] in simp)
  show ?case using a 6(3,4) by auto
next
  case (8 f ts)
  have l: "peek ts \<noteq> TEof \<Longrightarrow> Suc (length (advance ts)) = length ts" by (rule peek_advance)
  have p: "good (length ts) (bind_p (parse_level f 0 (advance ts)) (\<lambda>e ts. bind_p (expect TRParen ts) (\<lambda>_. ret e)))"
    if "peek ts = TLParen"
  proof (rule good_bind)
    show "good (length (advance ts)) (parse_level f 0 (advance ts))" using 8 that l by simp
  next
    fix a :: expr and ts' :: "token list" assume "length ts' < length (advance ts)"
    then show "good (length ts) (bind_p (expect TRParen ts') (\<lambda>_. ret a))"
      using l that by (intro good_bind [OF good_expect]) auto
  qed
  show ?case using p l by (auto split: token.split)
qed simp_all

lemma print_args_good: "6 * length ts + 8 \<le> f \<Longrightarrow> good (Suc (length ts)) (print_args f args ts)"
proof (induction f args ts rule: print_args.induct)
  case (2 f args ts)
  show ?case
  proof (cases "peek ts = TNewline \<or> peek ts = TEof \<or> peek ts = TSemicolon")
    case False
    then have "good (length ts) (parse_level f 0 ts)" using 2(2) by (intro expr_good(1)) auto
    moreover have "good (Suc (length ts)) (print_args f (args @ [e]) (if peek ts' = TComma then advance ts' else ts'))"
      if "length ts' < length ts" for e ts'
    proof -
      let ?r = "if peek ts' = TComma then advance ts' else ts'"
      have l: "length ?r \<le> length ts'" using length_advance [of ts'] by simp
      have "good (Suc (length ?r)) (print_args f (args @ [e]) ?r)"
        by (rule 2(1) [OF False]) (use 2(2) that l in linarith)
      then show ?thesis by (rule good_mono) (use that l in linarith)
    qed
    ultimately show ?thesis using False by (auto intro: good_bind)
  qed auto
qed simp

lemma peek_skip: "length (skip_seps ts) \<le> length ts"
  by (simp add: skip_seps_def length_dropWhile_le)

lemma good_then: "good n x \<Longrightarrow> good n (bind_p x (\<lambda>a. ret (g a)))"
  by (rule good_bind) auto

lemma stmt_good:
  "8 * length ts + 10 \<le> f \<Longrightarrow> good (length ts) (parse_stmt f ts)"
  "8 * length ts + 9 \<le> f \<Longrightarrow> peek ts \<noteq> TEof \<Longrightarrow> good (length ts) (parse_if f ts)"
  "8 * length ts + 9 \<le> f \<Longrightarrow> peek ts \<noteq> TEof \<Longrightarrow> good (length ts) (parse_while f ts)"
  "8 * length ts + 11 \<le> f \<Longrightarrow> good (Suc (length ts)) (block f semi acc ts)"
proof (induction f ts and f ts and f ts and f semi acc ts rule: parse_stmt_parse_if_parse_while_block.induct)
  case (2 f ts0)
  define ts where "ts = skip_seps ts0"
  have le: "length ts \<le> length ts0" unfolding ts_def by (rule peek_skip)
  have l1: "Suc (length (advance ts)) = length ts" if "peek ts \<noteq> TEof" using that by (rule peek_advance)
  have l2: "length (advance (advance ts)) \<le> length (advance ts)" by (rule length_advance)
  have fuel: "6 * length ts + 8 \<le> f" "8 * length ts + 9 \<le> f" using 2(4) le by linarith+
  have g: "good (length ts) x \<Longrightarrow> good (length ts0) x" for x :: "stmt presult" using good_mono le by blast
  have e0: "good (length ts) (parse_level f 0 ts)" using fuel by (intro expr_good(1)) auto
  have e1: "good (length ts) (parse_level f 0 (advance ts))" if "peek ts \<noteq> TEof"
    by (rule good_mono [OF expr_good(1)]) (use fuel l1 [OF that] in auto)
  have e2: "good (length ts) (parse_level f 0 (advance (advance ts)))" if "peek ts \<noteq> TEof"
    by (rule good_mono [OF expr_good(1)]) (use fuel l1 [OF that] l2 in auto)
  have pr: "good (length ts) (print_args f [] (advance ts))" if "peek ts \<noteq> TEof"
    by (rule good_mono [OF print_args_good]) (use fuel l1 [OF that] in auto)
  have var: "good (length ts) (bind_p (expect TAssign (advance (advance ts))) (\<lambda>_ ts.
      bind_p (parse_level f 0 ts) (\<lambda>e. ret (SVarDecl name e))))" if "peek ts \<noteq> TEof" for name
  proof (rule good_bind [OF good_expect])
    fix a :: unit and ts' :: "token list" assume "length ts' < length (advance (advance ts))"
    then show "good (length ts) (bind_p (parse_level f 0 ts') (\<lambda>e. ret (SVarDecl name e)))"
      using fuel l1 [OF that] l2 by (intro good_then good_mono [OF expr_good(1)]) auto
  qed simp
  have iw: "peek ts = TIf \<Longrightarrow> good (length ts) (parse_if f ts)" "peek ts = TWhile \<Longrightarrow> good (length ts) (parse_while f ts)"
    using 2(1) [OF ts_def] 2(2) [OF ts_def] fuel by auto
  have bl: "good (length ts) (block f False [] (advance ts))" if "peek ts = TLBrace"
  proof -
    have "good (Suc (length (advance ts))) (block f False [] (advance ts))"
      using 2(3) [OF ts_def that] fuel l1 that by auto
    then show ?thesis by (rule good_mono) (use l1 that in auto)
  qed
  have "good (length ts) (parse_stmt (Suc f) ts0)"
    unfolding parse_stmt.simps Let_def ts_def [symmetric]
    using e0 e1 e2 pr var iw bl l1 by (auto intro!: good_then split: token.split)
  then show ?case by (rule g)
next
  case (4 f ts)
  have l: "Suc (length (advance ts)) = length ts" by (rule peek_advance [OF 4(4)])
  have bl: "good (Suc (length us)) (block f False [] us)" if "Suc (length us) < length ts" for us
    using 4(1,3) that by simp
  have el: "good (length ts) (bind_p (expect TLBrace (advance us)) (\<lambda>_ ts.
      bind_p (block f False [] ts) (\<lambda>else_body. ret (SIf cond then_body else_body))))"
    if "Suc (length us) < length ts" "peek us = TElse" for us cond then_body
  proof (rule good_bind [OF good_expect])
    fix a :: unit and vs :: "token list" assume "length vs < length (advance us)"
    then have v: "Suc (length vs) < length ts" using that length_advance [of us] by linarith
    then show "good (length ts) (bind_p (block f False [] vs) (\<lambda>else_body. ret (SIf cond then_body else_body)))"
      by (intro good_then good_mono [OF bl]) auto
  qed simp
  show ?case unfolding parse_if.simps
  proof (rule good_bind)
    show "good (length (advance ts)) (parse_level f 0 (advance ts))"
      by (rule expr_good(1)) (use 4(3) l in auto)
  next
    fix cond and us :: "token list" assume u: "length us < length (advance ts)"
    show "good (length ts) (bind_p (expect TLBrace us) (\<lambda>_ ts.
        bind_p (block f False [] ts) (\<lambda>then_body ts.
          if peek ts = TElse
          then bind_p (expect TLBrace (advance ts)) (\<lambda>_ ts.
            bind_p (block f False [] ts) (\<lambda>else_body. ret (SIf cond then_body else_body)))
          else ret (SIf cond then_body []) ts)))"
    proof (rule good_bind [OF good_expect])
      fix a :: unit and vs :: "token list" assume v: "length vs < length us"
      show "good (length ts) (bind_p (block f False [] vs) (\<lambda>then_body ts.
          if peek ts = TElse
          then bind_p (expect TLBrace (advance ts)) (\<lambda>_ ts.
            bind_p (block f False [] ts) (\<lambda>else_body. ret (SIf cond then_body else_body)))
          else ret (SIf cond then_body []) ts))"
      proof (rule good_bind [OF bl])
        show "Suc (length vs) < length ts" using u v l by linarith
      next
        fix tb and ws :: "token list" assume "length ws < Suc (length vs)"
        then have "Suc (length ws) < length ts" using u v l by linarith
        then show "good (length ts) (if peek ws = TElse
          then bind_p (expect TLBrace (advance ws)) (\<lambda>_ ts.
            bind_p (block f False [] ts) (\<lambda>else_body. ret (SIf cond tb else_body)))
          else ret (SIf cond tb []) ws)"
          using el by simp
      qed
    qed simp
  qed
next
  case (6 f ts)
  have l: "Suc (length (advance ts)) = length ts" by (rule peek_advance [OF 6(3)])
  show ?case unfolding parse_while.simps
  proof (rule good_bind)
    show "good (length (advance ts)) (parse_level f 0 (advance ts))"
      by (rule expr_good(1)) (use 6(2) l in auto)
  next
    fix cond and us :: "token list" assume u: "length us < length (advance ts)"
    show "good (length ts) (bind_p (expect TLBrace us) (\<lambda>_ ts.
        bind_p (block f True [] ts) (\<lambda>body. ret (SWhile cond body))))"
    proof (rule good_bind [OF good_expect])
      fix a :: unit and vs :: "token list" assume v: "length vs < length us"
      then have "good (Suc (length vs)) (block f True [] vs)" using 6(1,2) u l by simp
      then show "good (length ts) (bind_p (block f True [] vs) (\<lambda>body. ret (SWhile cond body)))"
        by (rule good_then [OF good_mono]) (use u v l in linarith)
    qed simp
  qed
next
  case (8 f semi acc ts)
  have l: "Suc (length (advance ts)) = length ts" if "peek ts \<noteq> TEof" using that by (rule peek_advance)
  let ?fin = "peek ts = TRBrace \<or> peek ts = TEof" and ?skip = "peek ts = TNewline \<or> (semi \<and> peek ts = TSemicolon)"
  consider (e) ?fin | (s) "\<not> ?fin" ?skip | (p) "\<not> ?fin" "\<not> ?skip" by blast
  then show ?case
  proof cases
    case e
    then show ?thesis using length_advance [of ts] by (simp add: le_imp_less_Suc)
  next
    case s
    then have "good (Suc (length (advance ts))) (block f semi acc (advance ts))" using 8(1,4) l by auto
    then have "good (Suc (length ts)) (block f semi acc (advance ts))" by (rule good_mono) (use length_advance in auto)
    then show ?thesis using s by simp
  next
    case p
    have "good (length ts) (parse_stmt f ts)" using 8(2) [OF p] 8(4) by simp
    moreover have "good (Suc (length ts)) (block f semi (acc @ [x]) us)" if "length us < length ts" for x us
      by (rule good_mono [OF 8(3) [OF p]]) (use 8(4) that in auto)
    ultimately have "good (Suc (length ts)) (bind_p (parse_stmt f ts) (\<lambda>s. block f semi (acc @ [s])))"
      by (rule good_bind)
    then show ?thesis using p by auto
  qed
qed simp_all

lemma loop_total: "8 * length ts + 12 \<le> f \<Longrightarrow> parse_loop f acc ts \<noteq> None"
proof (induction f acc ts rule: parse_loop.induct)
  case (2 f acc ts)
  have g: "good (length ts) (parse_stmt f ts)" using 2(3) by (intro stmt_good(1)) simp
  have l: "Suc (length (advance ts)) = length ts" if "peek ts \<noteq> TEof" using that by (rule peek_advance)
  let ?sep = "peek ts = TNewline \<or> peek ts = TSemicolon"
  consider (e) "ts = [] \<or> peek ts = TEof" | (s) "ts \<noteq> []" "peek ts \<noteq> TEof" ?sep
    | (p) "ts \<noteq> []" "peek ts \<noteq> TEof" "\<not> ?sep" by blast
  then show ?case
  proof cases
    case e
    then show ?thesis by auto
  next
    case s
    then show ?thesis using 2(1,3) l by simp
  next
    case p
    show ?thesis
    proof (cases "parse_stmt f ts")
      case None
      then show ?thesis using g by (simp add: good_def)
    next
      case (Some r)
      show ?thesis
      proof (cases r)
        case (Inl e)
        then show ?thesis using p Some by simp
      next
        case (Inr st)
        obtain st1 us where st: "st = (st1, us)" by fastforce
        have "length us < length ts" using g Some Inr st by (simp add: good_def)
        then have "parse_loop f (acc @ [st1]) us \<noteq> None"
          using 2(2) [OF p Some Inr st [symmetric]] 2(3) by simp
        then show ?thesis using p Some Inr st by simp
      qed
    qed
  qed
qed simp

section \<open>Printing programs\<close>

text \<open>
  A printer from syntax trees to tokens, the inverse of the parser: a comma after every argument of
  \<open>print\<close>, a line per statement and both branches of an \<open>if\<close>. The levels of the operators are those of
  the language: sums bind weakest, then products, then comparisons (unlike in other languages); the
  operators of a level associate to the left, and a sign applies to an atom. An operand stands in
  parentheses only where these rules would read it differently: \<open>expr_tokens k e\<close> prints \<open>e\<close> where an
  operand of level \<open>k\<close> is expected, and 4 expects an atom.
\<close>

fun op_token :: "binop \<Rightarrow> token" where
  "op_token BAdd = TPlus" | "op_token BSub = TMinus" | "op_token BMul = TStar" | "op_token BDiv = TSlash"
| "op_token BMod = TPercent" | "op_token BEq = TEq" | "op_token BNe = TNe" | "op_token BLt = TLt"
| "op_token BGt = TGt" | "op_token BLe = TLe" | "op_token BGe = TGe"

fun op_level :: "binop \<Rightarrow> nat" where
  "op_level BAdd = 0" | "op_level BSub = 0" | "op_level BMul = 1" | "op_level BDiv = 1"
| "op_level BMod = 1" | "op_level BEq = 2" | "op_level BNe = 2" | "op_level BLt = 2"
| "op_level BGt = 2" | "op_level BLe = 2" | "op_level BGe = 2"

fun unop_token :: "unop \<Rightarrow> token" where
  "unop_token UNot = TNot" | "unop_token UNeg = TMinus"

definition parens :: "bool \<Rightarrow> token list \<Rightarrow> token list" where
  "parens b ts = (if b then TLParen # ts @ [TRParen] else ts)"

fun expr_tokens :: "nat \<Rightarrow> expr \<Rightarrow> token list" where
  "expr_tokens k (ENumber n) = [TNumber n]"
| "expr_tokens k (EStr s) = [TStr s]"
| "expr_tokens k (EVar x) = [TIdent x]"
| "expr_tokens k (EBin l b r) = parens (op_level b < k)
     (expr_tokens (op_level b) l @ op_token b # expr_tokens (Suc (op_level b)) r)"
| "expr_tokens k (EUn u e) = parens (3 < k) (unop_token u # expr_tokens 4 e)"
| "expr_tokens k (ECall f es) = []"

text \<open>The trees the language can express: the parser never builds a call.\<close>

fun no_call :: "expr \<Rightarrow> bool" where
  "no_call (EBin l b r) \<longleftrightarrow> no_call l \<and> no_call r"
| "no_call (EUn u e) \<longleftrightarrow> no_call e"
| "no_call (ECall f es) \<longleftrightarrow> False"
| "no_call e \<longleftrightarrow> True"

fun stmt_tokens :: "stmt \<Rightarrow> token list" where
  "stmt_tokens (SVarDecl x e) = TVar # TIdent x # TAssign # expr_tokens 0 e"
| "stmt_tokens (SAssign x e) = TIdent x # TAssign # expr_tokens 0 e"
| "stmt_tokens (SPrint es) = TPrint # concat (map (\<lambda>e. expr_tokens 0 e @ [TComma]) es)"
| "stmt_tokens (SIf c t e) =
     TIf # expr_tokens 0 c @ TLBrace # concat (map (\<lambda>s. stmt_tokens s @ [TNewline]) t) @
     TRBrace # TElse # TLBrace # concat (map (\<lambda>s. stmt_tokens s @ [TNewline]) e) @ [TRBrace]"
| "stmt_tokens (SWhile c b) =
     TWhile # expr_tokens 0 c @ TLBrace # concat (map (\<lambda>s. stmt_tokens s @ [TNewline]) b) @ [TRBrace]"
| "stmt_tokens (SBeep e) = TBeep # expr_tokens 0 e"
| "stmt_tokens (SSleep e) = TSleep # expr_tokens 0 e"
| "stmt_tokens SExit = [TExit]"
| "stmt_tokens (SExpr e) = expr_tokens 4 e"

definition body_tokens :: "stmt list \<Rightarrow> token list" where
  "body_tokens ss = concat (map (\<lambda>s. stmt_tokens s @ [TNewline]) ss)"

fun stmt_wf :: "stmt \<Rightarrow> bool" where
  "stmt_wf (SVarDecl x e) \<longleftrightarrow> no_call e"
| "stmt_wf (SAssign x e) \<longleftrightarrow> no_call e"
| "stmt_wf (SPrint es) \<longleftrightarrow> list_all no_call es"
| "stmt_wf (SIf c t e) \<longleftrightarrow> no_call c \<and> list_all stmt_wf t \<and> list_all stmt_wf e"
| "stmt_wf (SWhile c b) \<longleftrightarrow> no_call c \<and> list_all stmt_wf b"
| "stmt_wf (SBeep e) \<longleftrightarrow> no_call e"
| "stmt_wf (SSleep e) \<longleftrightarrow> no_call e"
| "stmt_wf SExit \<longleftrightarrow> True"
| "stmt_wf (SExpr e) \<longleftrightarrow> no_call e"

section \<open>Reading printed expressions\<close>

lemma level_op_token: "level_op lvl (op_token b) = (if lvl = op_level b then Some b else None)"
  by (cases b) (auto simp: level_op_def)

lemma peek_Cons [simp]: "peek (t # ts) = t"
  by (simp add: peek_def)

lemma advance_Cons [simp]: "advance (t # ts) = ts"
  by (simp add: advance_def)

lemma bind_simps [simp]: "bind_p (ret a ts) g = g a ts" "bind_p (Some (Inl e)) g = Some (Inl e)"
  by (simp_all add: bind_p_def)

lemma expect_Cons [simp]: "expect t (t # ts) = ret () ts"
  by (simp add: expect_def)

text \<open>\<open>stops lvl t\<close>: no loop from level \<open>lvl\<close> on continues at \<open>t\<close>.\<close>

definition stops :: "nat \<Rightarrow> token \<Rightarrow> bool" where
  "stops lvl t \<longleftrightarrow> (\<forall>k \<ge> lvl. level_op k t = None)"

lemma stops_simps [simp]:
  "stops lvl TRParen" "stops lvl TLBrace" "stops lvl TComma" "stops lvl TNewline" "stops lvl TEof"
  by (simp_all add: stops_def level_op_def)

lemma stops_Suc: "stops lvl t \<Longrightarrow> stops (Suc lvl) t"
  by (simp add: stops_def)

text \<open>An expression read at one level is read at every lower level that its end does not continue.\<close>

lemma level_down:
  assumes "\<And>f. 6 * length ts + 6 \<le> f + Suc lvl \<Longrightarrow> parse_level f (Suc lvl) ts = ret e rest"
    "stops lvl (peek rest)" "lvl < 3" "6 * length ts + 6 \<le> f + lvl" "length rest < length ts"
  shows "parse_level f lvl ts = ret e rest"
proof -
  obtain g where f: "f = Suc g" using assms(3,4) by (cases f) auto
  obtain h where g: "g = Suc h" using assms(3,4) f by (cases g) auto
  have "parse_level g (Suc lvl) ts = ret e rest" using assms(1,4) f by simp
  moreover have "level_loop g lvl e rest = ret e rest" using assms(2) g by (simp add: stops_def)
  ultimately show ?thesis using f assms(3) by simp
qed

lemma level_of_atom:
  assumes "\<And>f. 6 * length ts + 1 \<le> f \<Longrightarrow> atom f ts = ret e rest" "peek ts \<noteq> TMinus" "peek ts \<noteq> TNot"
    "stops lvl (peek rest)" "lvl \<le> 3" "6 * length ts + 6 \<le> f + lvl" "length rest < length ts"
  shows "parse_level f lvl ts = ret e rest"
  using assms(4-6)
proof (induction "3 - lvl" arbitrary: lvl f)
  case 0
  then obtain g h where f: "f = Suc g" "g = Suc h" "lvl = 3" by (cases f; cases "f - 1") auto
  then show ?case using 0 assms(1-3) by simp
next
  case (Suc n)
  show ?case
    by (rule level_down) (use Suc assms(7) stops_Suc in auto)
qed

lemma expr_head:
  "no_call e \<Longrightarrow> peek (expr_tokens k e @ rest) \<notin> {TRBrace, TEof, TNewline, TSemicolon}"
  "no_call e \<Longrightarrow> 0 < length (expr_tokens k e)"
proof (induction e arbitrary: k rest)
  case (EUn u e)
  { case 1 then show ?case by (cases u) (auto simp: parens_def) }
  { case 2 then show ?case by (simp add: parens_def) }
qed (auto simp: parens_def)

text \<open>
  What the functions do on printed expressions: \<open>atom\<close> on an atom, \<open>parse_level\<close> on an operand of its
  level, and, where more operators of the level may follow, \<open>parse_level\<close> as the loop that has the
  printed expression as its left operand.
\<close>

definition reads_atom :: "expr \<Rightarrow> bool" where
  "reads_atom e \<longleftrightarrow> (\<forall>rest f. 6 * length (expr_tokens 4 e @ rest) + 1 \<le> f \<longrightarrow> atom f (expr_tokens 4 e @ rest) = ret e rest)"

definition reads :: "expr \<Rightarrow> nat \<Rightarrow> bool" where
  "reads e k \<longleftrightarrow> (\<forall>rest f. stops k (peek rest) \<longrightarrow> 6 * length (expr_tokens k e @ rest) + 6 \<le> f + k \<longrightarrow>
     parse_level f k (expr_tokens k e @ rest) = ret e rest)"

definition loops :: "expr \<Rightarrow> nat \<Rightarrow> bool" where
  "loops e k \<longleftrightarrow> (\<forall>rest f R. stops (Suc k) (peek rest) \<longrightarrow>
     (\<forall>g. 6 * length rest + 3 \<le> g \<longrightarrow> level_loop g k e rest = R) \<longrightarrow>
     6 * length (expr_tokens k e @ rest) + 6 \<le> f + k \<longrightarrow> parse_level f k (expr_tokens k e @ rest) = R)"

lemma loops_reads:
  assumes "loops e k" shows "reads e k"
  unfolding reads_def
proof (intro allI impI)
  fix rest f assume st: "stops k (peek rest)" and f: "6 * length (expr_tokens k e @ rest) + 6 \<le> f + k"
  have "level_loop g k e rest = ret e rest" if "6 * length rest + 3 \<le> g" for g
    using st that by (cases g) (auto simp: stops_def)
  then show "parse_level f k (expr_tokens k e @ rest) = ret e rest"
    using assms st f stops_Suc unfolding loops_def by blast
qed

lemma reads_loops:
  assumes "reads e (Suc k)" "expr_tokens (Suc k) e = expr_tokens k e" "k < 3" "no_call e"
  shows "loops e k"
  unfolding loops_def
proof (intro allI impI)
  fix rest f R
  assume st: "stops (Suc k) (peek rest)" and R: "\<forall>g. 6 * length rest + 3 \<le> g \<longrightarrow> level_loop g k e rest = R"
    and f: "6 * length (expr_tokens k e @ rest) + 6 \<le> f + k"
  obtain g where g: "f = Suc g" using f assms(3) by (cases f) auto
  have "parse_level g (Suc k) (expr_tokens k e @ rest) = ret e rest"
    using assms(1,2) st f g by (simp add: reads_def)
  moreover have "level_loop g k e rest = R" using R f g assms(3) expr_head(2) [OF assms(4), of k] by simp
  ultimately show "parse_level f k (expr_tokens k e @ rest) = R" using g assms(3) by simp
qed

lemma bin_loops:
  assumes "loops l (op_level b)" "reads r (Suc (op_level b))"
  shows "loops (EBin l b r) (op_level b)"
  unfolding loops_def
proof (intro allI impI)
  let ?k = "op_level b" and ?e = "EBin l b r"
  fix rest f R
  assume st: "stops (Suc ?k) (peek rest)" and R: "\<forall>g. 6 * length rest + 3 \<le> g \<longrightarrow> level_loop g ?k ?e rest = R"
    and f: "6 * length (expr_tokens ?k ?e @ rest) + 6 \<le> f + ?k"
  let ?us = "expr_tokens (Suc ?k) r @ rest"
  have ts: "expr_tokens ?k ?e @ rest = expr_tokens ?k l @ op_token b # ?us" by (simp add: parens_def)
  have "level_loop g ?k l (op_token b # ?us) = R" if g: "6 * length (op_token b # ?us) + 3 \<le> g" for g
  proof -
    obtain h where h: "g = Suc h" using g by (cases g) auto
    have "parse_level h (Suc ?k) ?us = ret r rest" using assms(2) st g h by (simp add: reads_def)
    moreover have "level_loop h ?k ?e rest = R" using R g h by simp
    ultimately show ?thesis using h by (simp add: level_op_token)
  qed
  moreover have "stops (Suc ?k) (op_token b)" by (auto simp: stops_def level_op_token)
  ultimately show "parse_level f ?k (expr_tokens ?k ?e @ rest) = R"
    using assms(1) f unfolding loops_def ts by (metis peek_Cons)
qed

lemma op_level_bound [simp]: "op_level b < 4"
  by (cases b) simp_all

lemma atom_head: "no_call e \<Longrightarrow> peek (expr_tokens 4 e @ rest) \<noteq> TMinus \<and> peek (expr_tokens 4 e @ rest) \<noteq> TNot"
  by (cases e) (auto simp: parens_def)

text \<open>An operand that is printed as an atom is read on every level.\<close>

lemma atom_reads:
  assumes "reads_atom e" "no_call e" "expr_tokens k e = expr_tokens 4 e" "k \<le> 3"
  shows "reads e k"
  unfolding reads_def
proof (intro allI impI)
  fix rest f assume st: "stops k (peek rest)" and f: "6 * length (expr_tokens k e @ rest) + 6 \<le> f + k"
  have "peek (expr_tokens 4 e @ rest) \<noteq> TMinus \<and> peek (expr_tokens 4 e @ rest) \<noteq> TNot"
    using assms(2) by (rule atom_head)
  then show "parse_level f k (expr_tokens k e @ rest) = ret e rest"
    unfolding assms(3)
    by (intro level_of_atom) (use assms st f expr_head(2) [OF assms(2), of 4] in \<open>auto simp: reads_atom_def\<close>)
qed

lemma paren_atom:
  assumes "reads e 0" "expr_tokens 4 e = TLParen # expr_tokens 0 e @ [TRParen]"
  shows "reads_atom e"
  unfolding reads_atom_def
proof (intro allI impI)
  fix rest f assume f: "6 * length (expr_tokens 4 e @ rest) + 1 \<le> f"
  then obtain g where g: "f = Suc g" by (cases f) auto
  have "parse_level g 0 (expr_tokens 0 e @ TRParen # rest) = ret e (TRParen # rest)"
    using assms f g by (simp add: reads_def)
  then show "atom f (expr_tokens 4 e @ rest) = ret e rest" using assms(2) g by simp
qed

lemma reads_all: "no_call e \<Longrightarrow> reads_atom e \<and> (\<forall>k \<le> 3. reads e k) \<and> (\<forall>k < 3. loops e k)"
proof (induction e)
  case (EBin l b r)
  let ?e = "EBin l b r" and ?k = "op_level b"
  have k: "?k \<le> 2" by (cases b) auto
  have "?k < 3" "Suc ?k \<le> 3" using k by linarith+
  then have "loops l ?k" "reads r (Suc ?k)" using EBin.IH EBin.prems by (metis no_call.simps(1))+
  then have at: "loops ?e ?k" by (rule bin_loops)
  have low: "loops ?e j" if "j \<le> ?k" for j
    using that
  proof (induction "?k - j" arbitrary: j)
    case 0
    then show ?case using at by simp
  next
    case (Suc n)
    then have "reads ?e (Suc j)" by (intro loops_reads) auto
    then show ?case by (rule reads_loops) (use Suc k EBin.prems in \<open>auto simp: parens_def\<close>)
  qed
  have ra: "reads_atom ?e" by (rule paren_atom) (use loops_reads low k in \<open>auto simp: parens_def\<close>)
  have rd: "reads ?e j" if "j \<le> 3" for j
  proof (cases "j \<le> ?k")
    case True
    then show ?thesis by (intro loops_reads low)
  next
    case False
    then show ?thesis using ra that k EBin.prems by (intro atom_reads) (auto simp: parens_def)
  qed
  have "loops ?e j" if "j < 3" for j
  proof (cases "j \<le> ?k")
    case True
    then show ?thesis by (rule low)
  next
    case False
    then show ?thesis using rd [of "Suc j"] that EBin.prems by (intro reads_loops) (auto simp: parens_def)
  qed
  then show ?case using ra rd by blast
next
  case (EUn u e)
  let ?e = "EUn u e"
  have a: "reads_atom e" "no_call e" using EUn by auto
  have 3: "reads ?e 3"
    unfolding reads_def
  proof (intro allI impI)
    fix rest f assume f: "6 * length (expr_tokens 3 ?e @ rest) + 6 \<le> f + 3"
    have "2 \<le> f" using f by simp
    then obtain i where i: "f = Suc (Suc i)" using le_Suc_ex [of 2 f] by auto
    have "atom i (expr_tokens 4 e @ rest) = ret e rest" using a(1) f i by (simp add: reads_atom_def parens_def)
    then show "parse_level f 3 (expr_tokens 3 ?e @ rest) = ret ?e rest" using i by (cases u) (simp_all add: parens_def)
  qed
  have lp: "loops ?e 2" "loops ?e 1" "loops ?e 0"
  proof -
    show 2: "loops ?e 2" by (rule reads_loops) (use 3 EUn.prems in \<open>auto simp: parens_def eval_nat_numeral\<close>)
    show 1: "loops ?e 1" by (rule reads_loops) (use loops_reads [OF 2] EUn.prems in \<open>auto simp: parens_def eval_nat_numeral\<close>)
    show "loops ?e 0" by (rule reads_loops) (use loops_reads [OF 1] EUn.prems in \<open>auto simp: parens_def eval_nat_numeral\<close>)
  qed
  have lps: "loops ?e k" if "k < 3" for k
  proof -
    have "k = 0 \<or> k = 1 \<or> k = 2" using that by auto
    then show ?thesis using lp by auto
  qed
  have rd: "reads ?e k" if "k \<le> 3" for k
    using 3 lps [THEN loops_reads] that by (cases "k = 3") auto
  have "reads_atom ?e" by (rule paren_atom) (use rd in \<open>auto simp: parens_def\<close>)
  then show ?case using lps rd by blast
next
  case (ECall f es)
  then show ?case by simp
next
  case (ENumber n)
  have a: "reads_atom (ENumber n)"
    unfolding reads_atom_def by (intro allI impI, rename_tac rest f, case_tac f) auto
  have rd: "reads (ENumber n) k" if "k \<le> 3" for k by (rule atom_reads [OF a]) (use that in auto)
  have "loops (ENumber n) k" if "k < 3" for k by (rule reads_loops) (use rd that in auto)
  with a rd show ?case by blast
next
  case (EStr s)
  have a: "reads_atom (EStr s)"
    unfolding reads_atom_def by (intro allI impI, rename_tac rest f, case_tac f) auto
  have rd: "reads (EStr s) k" if "k \<le> 3" for k by (rule atom_reads [OF a]) (use that in auto)
  have "loops (EStr s) k" if "k < 3" for k by (rule reads_loops) (use rd that in auto)
  with a rd show ?case by blast
next
  case (EVar x)
  have a: "reads_atom (EVar x)"
    unfolding reads_atom_def by (intro allI impI, rename_tac rest f, case_tac f) auto
  have rd: "reads (EVar x) k" if "k \<le> 3" for k by (rule atom_reads [OF a]) (use that in auto)
  have "loops (EVar x) k" if "k < 3" for k by (rule reads_loops) (use rd that in auto)
  with a rd show ?case by blast
qed

lemma level_tokens:
  assumes "no_call e" "stops 0 (peek rest)" "6 * length (expr_tokens 0 e @ rest) + 6 \<le> f"
  shows "parse_level f 0 (expr_tokens 0 e @ rest) = ret e rest"
  using reads_all [OF assms(1)] assms(2,3) by (simp add: reads_def)

lemma level_tokens_atom:
  assumes "no_call e" "stops 0 (peek rest)" "6 * length (expr_tokens 4 e @ rest) + 6 \<le> f"
  shows "parse_level f 0 (expr_tokens 4 e @ rest) = ret e rest"
proof (rule level_of_atom)
  show "atom f (expr_tokens 4 e @ rest) = ret e rest" if "6 * length (expr_tokens 4 e @ rest) + 1 \<le> f" for f
    using reads_all [OF assms(1)] that by (simp add: reads_atom_def)
  show "peek (expr_tokens 4 e @ rest) \<noteq> TMinus" "peek (expr_tokens 4 e @ rest) \<noteq> TNot"
    using assms(1) atom_head by auto
qed (use assms expr_head(2) [OF assms(1), of 4] in auto)

section \<open>Reading printed programs\<close>

lemma args_tokens:
  assumes "list_all no_call es"
    "6 * length (concat (map (\<lambda>e. expr_tokens 0 e @ [TComma]) es) @ TNewline # rest) + 8 \<le> f"
  shows "print_args f args (concat (map (\<lambda>e. expr_tokens 0 e @ [TComma]) es) @ TNewline # rest) =
    ret (args @ es) (TNewline # rest)"
  using assms
proof (induction es arbitrary: f args)
  case Nil
  then show ?case by (cases f) auto
next
  case (Cons e es)
  let ?us = "concat (map (\<lambda>e. expr_tokens 0 e @ [TComma]) es) @ TNewline # rest"
  obtain g where f: "f = Suc g" using Cons.prems by (cases f) auto
  have e: "no_call e" "list_all no_call es" using Cons.prems by auto
  have p: "peek (expr_tokens 0 e @ TComma # ?us) \<notin> {TNewline, TEof, TSemicolon}"
    using expr_head(1) [OF e(1), of 0 "TComma # ?us"] by auto
  have "parse_level g 0 (expr_tokens 0 e @ TComma # ?us) = ret e (TComma # ?us)"
    by (rule level_tokens [OF e(1)]) (use Cons.prems f in auto)
  moreover have "print_args g (args @ [e]) ?us = ret ((args @ [e]) @ es) (TNewline # rest)"
    by (rule Cons.IH [OF e(2)]) (use Cons.prems f in auto)
  ultimately show ?case using p f by simp
qed

lemma stmt_head:
  "stmt_wf s \<Longrightarrow> peek (stmt_tokens s @ rest) \<notin> {TRBrace, TEof, TNewline, TSemicolon}"
proof (cases s)
  case (SExpr e)
  moreover assume "stmt_wf s"
  ultimately show ?thesis using expr_head(1) [of e 4 rest] by auto
qed auto

lemma skip_head: "peek ts \<noteq> TNewline \<Longrightarrow> peek ts \<noteq> TSemicolon \<Longrightarrow> skip_seps ts = ts"
  by (cases ts) (auto simp: skip_seps_def)

lemma body_simps [simp]:
  "body_tokens [] = []" "body_tokens (s # ss) = stmt_tokens s @ TNewline # body_tokens ss"
  by (simp_all add: body_tokens_def)

lemma body_read:
  assumes "\<And>s f rest. s \<in> set ss \<Longrightarrow> 8 * length (stmt_tokens s @ TNewline # rest) + 10 \<le> f \<Longrightarrow>
      parse_stmt f (stmt_tokens s @ TNewline # rest) = ret s (TNewline # rest)"
    "list_all stmt_wf ss" "8 * length (body_tokens ss @ TRBrace # rest) + 11 \<le> f"
  shows "block f semi acc (body_tokens ss @ TRBrace # rest) = ret (acc @ ss) rest"
  using assms
proof (induction ss arbitrary: f acc)
  case Nil
  then show ?case by (cases f) auto
next
  case (Cons s ss)
  let ?us = "body_tokens ss @ TRBrace # rest"
  have "3 \<le> f" using Cons.prems(3) by simp
  then obtain h where f: "f = Suc (Suc h)" using le_Suc_ex [of 2 f] by auto
  have s: "parse_stmt (Suc h) (stmt_tokens s @ TNewline # ?us) = ret s (TNewline # ?us)"
    by (rule Cons.prems(1)) (use Cons.prems(3) f in auto)
  have b: "block h semi (acc @ [s]) ?us = ret ((acc @ [s]) @ ss) rest"
    by (rule Cons.IH) (use Cons.prems f in auto)
  have "peek (stmt_tokens s @ TNewline # ?us) \<notin> {TRBrace, TEof, TNewline, TSemicolon}"
    using stmt_head Cons.prems(2) by simp
  then show ?case using s b f by simp
qed

lemma stmt_read:
  "stmt_wf s \<Longrightarrow> 8 * length (stmt_tokens s @ TNewline # rest) + 10 \<le> f \<Longrightarrow>
    parse_stmt f (stmt_tokens s @ TNewline # rest) = ret s (TNewline # rest)"
proof (induction s arbitrary: f rest rule: stmt_tokens.induct)
  case (1 x e)
  then obtain g where f: "f = Suc g" by (cases f) auto
  have "parse_level g 0 (expr_tokens 0 e @ TNewline # rest) = ret e (TNewline # rest)"
    by (rule level_tokens) (use 1 f in auto)
  then show ?case using f by (simp add: skip_head)
next
  case (2 x e)
  then obtain g where f: "f = Suc g" by (cases f) auto
  have "parse_level g 0 (expr_tokens 0 e @ TNewline # rest) = ret e (TNewline # rest)"
    by (rule level_tokens) (use 2 f in auto)
  then show ?case using f by (simp add: skip_head)
next
  case (3 es)
  then obtain g where f: "f = Suc g" by (cases f) auto
  have "print_args g [] (concat (map (\<lambda>e. expr_tokens 0 e @ [TComma]) es) @ TNewline # rest) =
      ret ([] @ es) (TNewline # rest)"
    by (rule args_tokens) (use 3 f in auto)
  then show ?case using f by (simp add: skip_head)
next
  case (4 c t e)
  let ?tb = "concat (map (\<lambda>s. stmt_tokens s @ [TNewline]) t)" and ?eb = "concat (map (\<lambda>s. stmt_tokens s @ [TNewline]) e)"
  let ?e = "?eb @ TRBrace # TNewline # rest" and ?t = "?tb @ TRBrace # TElse # TLBrace # ?eb @ TRBrace # TNewline # rest"
  have wf: "no_call c" "list_all stmt_wf t" "list_all stmt_wf e" using 4(3) by auto
  have "3 \<le> f" using 4(4) by simp
  then obtain h where f: "f = Suc (Suc h)" using le_Suc_ex [of 2 f] by auto
  have "parse_level h 0 (expr_tokens 0 c @ TLBrace # ?t) = ret c (TLBrace # ?t)"
    by (rule level_tokens [OF wf(1)]) (use 4(4) f in auto)
  moreover have "block h False [] ?t = ret ([] @ t) (TElse # TLBrace # ?e)"
    by (rule body_read [OF _ wf(2), unfolded body_tokens_def])
      (use 4(1,4) wf(2) f in \<open>auto simp: list_all_iff\<close>)
  moreover have "block h False [] ?e = ret ([] @ e) (TNewline # rest)"
    by (rule body_read [OF _ wf(3), unfolded body_tokens_def])
      (use 4(2,4) wf(3) f in \<open>auto simp: list_all_iff\<close>)
  ultimately show ?case using f by (simp add: skip_head)
next
  case (5 c b)
  let ?b = "concat (map (\<lambda>s. stmt_tokens s @ [TNewline]) b) @ TRBrace # TNewline # rest"
  have wf: "no_call c" "list_all stmt_wf b" using 5(2) by auto
  have "3 \<le> f" using 5(3) by simp
  then obtain h where f: "f = Suc (Suc h)" using le_Suc_ex [of 2 f] by auto
  have "parse_level h 0 (expr_tokens 0 c @ TLBrace # ?b) = ret c (TLBrace # ?b)"
    by (rule level_tokens [OF wf(1)]) (use 5(3) f in auto)
  moreover have "block h True [] ?b = ret ([] @ b) (TNewline # rest)"
    by (rule body_read [OF _ wf(2), unfolded body_tokens_def])
      (use 5(1,3) wf(2) f in \<open>auto simp: list_all_iff\<close>)
  ultimately show ?case using f by (simp add: skip_head)
next
  case (6 e)
  then obtain g where f: "f = Suc g" by (cases f) auto
  have "parse_level g 0 (expr_tokens 0 e @ TNewline # rest) = ret e (TNewline # rest)"
    by (rule level_tokens) (use 6 f in auto)
  then show ?case using f by (simp add: skip_head)
next
  case (7 e)
  then obtain g where f: "f = Suc g" by (cases f) auto
  have "parse_level g 0 (expr_tokens 0 e @ TNewline # rest) = ret e (TNewline # rest)"
    by (rule level_tokens) (use 7 f in auto)
  then show ?case using f by (simp add: skip_head)
next
  case 8
  then show ?case by (cases f) (auto simp: skip_head)
next
  case (9 e)
  then obtain g where f: "f = Suc g" by (cases f) auto
  have "parse_level g 0 (expr_tokens 4 e @ TNewline # rest) = ret e (TNewline # rest)"
    by (rule level_tokens_atom) (use 9 f in auto)
  then show ?case using f 9 by (cases e) (auto simp: skip_head parens_def)
qed

lemma program_read:
  assumes "list_all stmt_wf prog" "8 * length (body_tokens prog @ [TEof]) + 12 \<le> f"
  shows "parse_loop f acc (body_tokens prog @ [TEof]) = Some (Inr (acc @ prog))"
  using assms
proof (induction prog arbitrary: f acc)
  case Nil
  then show ?case by (cases f) auto
next
  case (Cons s ss)
  let ?us = "body_tokens ss @ [TEof]"
  have "3 \<le> f" using Cons.prems(2) by simp
  then obtain h where f: "f = Suc (Suc h)" using le_Suc_ex [of 2 f] by auto
  have s: "parse_stmt (Suc h) (stmt_tokens s @ TNewline # ?us) = ret s (TNewline # ?us)"
    by (rule stmt_read) (use Cons.prems f in auto)
  have b: "parse_loop h (acc @ [s]) ?us = Some (Inr ((acc @ [s]) @ ss))"
    by (rule Cons.IH) (use Cons.prems f in auto)
  have "peek (stmt_tokens s @ TNewline # ?us) \<notin> {TRBrace, TEof, TNewline, TSemicolon}"
    using stmt_head Cons.prems(1) by simp
  then show ?case using s b f by simp
qed

section \<open>Properties\<close>

text \<open>
  C33: parsing always ends. For every list of tokens, well formed or not, the parser returns a
  program or an error: no loop of the parser, in an expression, an argument list, a block or the
  program, can spin without consuming a token.
\<close>

theorem parse_total:
  "\<exists>r. parse ts = Some r"
  using loop_total [of ts "8 * length ts + 12" "[]"] by (auto simp: parse_def)

text \<open>
  C34: printing a program and reading it back is a round trip, through the tokenizer and the parser
  together. The printer puts parentheses only where the levels of the operators require them (sums weakest, then
  products, then comparisons, each associating to the left, a sign before an atom; an expression that is a
  statement is printed as an atom), and every program of the language, however its statements and
  expressions nest, is exactly what parsing its printed text gives: the parser has these levels and this
  associativity, and blocks end where they should. A program of the language has no calls (the parser
  builds none), identifiers for names that are no keywords, and literals from 0 to \<open>i64::MAX\<close>.
\<close>

theorem program_roundtrip:
  assumes "list_all stmt_wf prog" "list_all printable (body_tokens prog)"
  shows "\<exists>ts. tokenize checks (source_of (body_tokens prog)) = Some ts \<and> parse ts = Some (Inr prog)"
proof -
  have "tokenize checks (source_of (body_tokens prog)) = Some (body_tokens prog @ [TEof])"
    by (simp add: tokenize_def lex_source [OF assms(2)])
  moreover have "parse (body_tokens prog @ [TEof]) = Some (Inr prog)"
    using program_read [OF assms(1), of "8 * length (body_tokens prog @ [TEof]) + 12" "[]"]
    by (simp add: parse_def)
  ultimately show ?thesis by blast
qed

theorem program_roundtrip_witness:
  "\<exists>ts. tokenize True (''while x < 10 { x = 1 + 2 * 3 < x - - 4 - ( 5 - 6 ) '' @ [NL] @ '' } '' @ [NL] @ '' '') = Some ts \<and>
     parse ts = Some (Inr [SWhile (EBin (EVar ''x'') BLt (ENumber 10))
       [SAssign ''x'' (EBin (EBin (EBin (ENumber 1) BAdd
            (EBin (ENumber 2) BMul (EBin (ENumber 3) BLt (EVar ''x'')))) BSub (EUn UNeg (ENumber 4)))
          BSub (EBin (ENumber 5) BSub (ENumber 6)))]])"
proof -
  let ?prog = "[SWhile (EBin (EVar ''x'') BLt (ENumber 10))
       [SAssign ''x'' (EBin (EBin (EBin (ENumber 1) BAdd
            (EBin (ENumber 2) BMul (EBin (ENumber 3) BLt (EVar ''x'')))) BSub (EUn UNeg (ENumber 4)))
          BSub (EBin (ENumber 5) BSub (ENumber 6)))]]"
  have v: "valid_ident ''x''" by (simp add: valid_ident_def is_alpha_def is_ident_def keyword_def)
  have d: "decimal 10 = ''10''" "decimal (Suc 0) = ''1''" "decimal 2 = ''2''" "decimal 3 = ''3''" "decimal 4 = ''4''"
    "decimal 5 = ''5''" "decimal 6 = ''6''"
    by (simp_all add: decimal.simps char_of_def bit_iff_odd)
  have "list_all stmt_wf ?prog" by simp
  moreover have "list_all printable (body_tokens ?prog)" using v by (simp add: i64_max_def parens_def)
  ultimately have "\<exists>ts. tokenize True (source_of (body_tokens ?prog)) = Some ts \<and> parse ts = Some (Inr ?prog)"
    by (rule program_roundtrip)
  then show ?thesis by (simp add: source_of_def parens_def d)
qed

end
