(* ===== verification/Vm.thy ===== *)
theory Vm
  imports Parser "HOL-Library.Signed_Division"
begin

text \<open>
  The interpreter of Vibra Script (\<open>script/vm.rs\<close>, \<open>script/mod.rs\<close>). A run may panic, which is the
  value \<open>None\<close>: on overflow with \<open>checks\<close> on (the dev profile), on a remainder by zero, and on the
  division of the smallest number by minus one. What the script does to the outside is the list of
  events in the state; the answers of \<open>is_cancelled\<close> are an argument, the \<open>k\<close>-th answer being
  \<open>cancel k\<close>.
\<close>

section \<open>Values\<close>

datatype vm_value = VNum int | VStr string | VNil

text \<open>\<open>str::parse\<close> and \<open>Display\<close> of an \<open>i64\<close>.\<close>

definition parse_i64 :: "string \<Rightarrow> int option" where
  "parse_i64 s =
     (let neg = (s \<noteq> [] \<and> hd s = CHR ''-'');
          ds = (if s \<noteq> [] \<and> (hd s = CHR ''-'' \<or> hd s = CHR ''+'') then tl s else s);
          n = (if neg then - digits_value ds else digits_value ds)
      in if ds = [] \<or> \<not> list_all is_digit ds then None
         else if i64_min \<le> n \<and> n \<le> i64_max then Some n else None)"

definition i64_text :: "int \<Rightarrow> string" where
  "i64_text n = (if n < 0 then CHR ''-'' # decimal (nat (- n)) else decimal (nat n))"

fun to_num :: "vm_value \<Rightarrow> int" where
  "to_num (VNum n) = n"
| "to_num (VStr s) = (case parse_i64 s of None \<Rightarrow> 0 | Some n \<Rightarrow> n)"
| "to_num VNil = 0"

fun to_str :: "vm_value \<Rightarrow> string" where
  "to_str (VNum n) = i64_text n"
| "to_str (VStr s) = s"
| "to_str VNil = ''null''"

section \<open>The machine\<close>

datatype event = Text string | Beep nat | Sleep nat

record vm =
  vars :: "string \<rightharpoonup> vm_value"
  events :: "event list"
  polls :: nat

definition vm_new :: vm where
  "vm_new = \<lparr>vars = Map.empty, events = [], polls = 0\<rparr>"

definition get_var :: "string \<Rightarrow> vm \<Rightarrow> vm_value" where
  "get_var x m = (case vars m x of None \<Rightarrow> VNil | Some v \<Rightarrow> v)"

definition set_var :: "string \<Rightarrow> vm_value \<Rightarrow> vm \<Rightarrow> vm" where
  "set_var x v m = m\<lparr>vars := (vars m)(x \<mapsto> v)\<rparr>"

definition emit :: "event \<Rightarrow> vm \<Rightarrow> vm" where
  "emit e m = m\<lparr>events := events m @ [e]\<rparr>"

definition print_text :: "string \<Rightarrow> vm \<Rightarrow> vm" where
  "print_text t m = emit (Text t) m"

definition println_text :: "string \<Rightarrow> vm \<Rightarrow> vm" where
  "println_text t m = emit (Text [NL]) (emit (Text t) m)"

definition poll :: "vm \<Rightarrow> vm" where
  "poll m = m\<lparr>polls := polls m + 1\<rparr>"

section \<open>Expressions\<close>

definition truth :: "bool \<Rightarrow> vm_value" where
  "truth b = VNum (if b then 1 else 0)"

text \<open>Rust's \<open>/\<close> and \<open>%\<close> truncate towards zero and panic when the quotient does not fit.\<close>

definition bin_value :: "bool \<Rightarrow> binop \<Rightarrow> vm_value \<Rightarrow> vm_value \<Rightarrow> vm_value option" where
  "bin_value checks b lv rv =
     (let l = to_num lv; r = to_num rv in
      case b of
        BAdd \<Rightarrow>
          (case (lv, rv) of
             (VStr a, VStr c) \<Rightarrow> Some (VStr (a @ c))
           | _ \<Rightarrow> map_option VNum (arith checks (l + r)))
      | BSub \<Rightarrow> map_option VNum (arith checks (l - r))
      | BMul \<Rightarrow> map_option VNum (arith checks (l * r))
      | BDiv \<Rightarrow>
          if r = 0 then Some (VNum 0)
          else if l = i64_min \<and> r = -1 then None
          else Some (VNum (l sdiv r))
      | BMod \<Rightarrow>
          if r = 0 \<or> l = i64_min \<and> r = -1 then None
          else Some (VNum (l smod r))
      | BEq \<Rightarrow> Some (truth (l = r))
      | BNe \<Rightarrow> Some (truth (l \<noteq> r))
      | BLt \<Rightarrow> Some (truth (l < r))
      | BGt \<Rightarrow> Some (truth (l > r))
      | BLe \<Rightarrow> Some (truth (l \<le> r))
      | BGe \<Rightarrow> Some (truth (l \<ge> r)))"

definition un_value :: "bool \<Rightarrow> unop \<Rightarrow> vm_value \<Rightarrow> vm_value option" where
  "un_value checks u v =
     (case u of UNot \<Rightarrow> Some (truth (to_num v = 0)) | UNeg \<Rightarrow> map_option VNum (arith checks (- to_num v)))"

definition call_fn :: "bool \<Rightarrow> string \<Rightarrow> vm_value list \<Rightarrow> vm \<Rightarrow> (vm_value \<times> vm) option" where
  "call_fn checks name args m =
     (if name = ''len''
      then Some (VNum (case args of VStr s # _ \<Rightarrow> int (length s) | _ \<Rightarrow> 0), m)
      else if name = ''abs''
      then
        (case args of
           [] \<Rightarrow> Some (VNum 0, m)
         | v # _ \<Rightarrow> map_option (\<lambda>n. (VNum n, m)) (arith checks \<bar>to_num v\<bar>))
      else Some (VNil, println_text (''Unknown function: '' @ name) m))"

fun eval :: "bool \<Rightarrow> expr \<Rightarrow> vm \<Rightarrow> (vm_value \<times> vm) option"
and eval_list :: "bool \<Rightarrow> expr list \<Rightarrow> vm \<Rightarrow> (vm_value list \<times> vm) option" where
  "eval checks (ENumber n) m = Some (VNum n, m)"
| "eval checks (EStr s) m = Some (VStr s, m)"
| "eval checks (EVar x) m = Some (get_var x m, m)"
| "eval checks (EBin l b r) m =
     (case eval checks l m of
        None \<Rightarrow> None
      | Some (lv, m) \<Rightarrow>
          (case eval checks r m of
             None \<Rightarrow> None
           | Some (rv, m) \<Rightarrow> map_option (\<lambda>v. (v, m)) (bin_value checks b lv rv)))"
| "eval checks (EUn u e) m =
     (case eval checks e m of
        None \<Rightarrow> None
      | Some (v, m) \<Rightarrow> map_option (\<lambda>v. (v, m)) (un_value checks u v))"
| "eval checks (ECall f es) m =
     (case eval_list checks es m of None \<Rightarrow> None | Some (vs, m) \<Rightarrow> call_fn checks f vs m)"
| "eval_list checks [] m = Some ([], m)"
| "eval_list checks (e # es) m =
     (case eval checks e m of
        None \<Rightarrow> None
      | Some (v, m) \<Rightarrow>
          (case eval_list checks es m of None \<Rightarrow> None | Some (vs, m) \<Rightarrow> Some (v # vs, m)))"

section \<open>Statements\<close>

type_synonym outcome = "((string + unit) \<times> vm) option"

definition MAX_ITERATIONS :: nat where "MAX_ITERATIONS = 10000000"

definition limit_message :: string where "limit_message = ''[Script] iteration limit exceeded''"

definition print_strs :: "string list \<Rightarrow> vm \<Rightarrow> vm" where
  "print_strs strs m =
     (case strs of [] \<Rightarrow> m | s # ss \<Rightarrow> foldl (\<lambda>m s. print_text s (print_text '' '' m)) (print_text s m) ss)"

text \<open>
  The head of the \<open>while\<close> loop: a panic, the end of the loop (\<open>Inl\<close>, without an error) or one more
  round (\<open>Inr\<close>).
\<close>

definition while_test :: "(nat \<Rightarrow> bool) \<Rightarrow> (vm \<Rightarrow> (vm_value \<times> vm) option) \<Rightarrow> vm \<Rightarrow> (vm + vm) option" where
  "while_test cancel cond m =
     (case cond m of
        None \<Rightarrow> None
      | Some (v, m) \<Rightarrow>
          if to_num v = 0 then Some (Inl m)
          else if cancel (polls m) then Some (Inl (println_text (NL # ''[Script] Cancelled by user'') (poll m)))
          else Some (Inr (poll m)))"

primrec while_loop :: "(nat \<Rightarrow> bool) \<Rightarrow> (vm \<Rightarrow> (vm_value \<times> vm) option) \<Rightarrow> (vm \<Rightarrow> outcome) \<Rightarrow> nat \<Rightarrow> vm \<Rightarrow> outcome" where
  "while_loop cancel cond body 0 m =
     (case while_test cancel cond m of
        None \<Rightarrow> None
      | Some (Inl m) \<Rightarrow> Some (Inr (), m)
      | Some (Inr m) \<Rightarrow> Some (Inl limit_message, m))"
| "while_loop cancel cond body (Suc left) m =
     (case while_test cancel cond m of
        None \<Rightarrow> None
      | Some (Inl m) \<Rightarrow> Some (Inr (), m)
      | Some (Inr m) \<Rightarrow>
          (case body m of
             None \<Rightarrow> None
           | Some (Inl e, m) \<Rightarrow> Some (Inl e, m)
           | Some (Inr _, m) \<Rightarrow> while_loop cancel cond body left m))"

fun exec :: "bool \<Rightarrow> (nat \<Rightarrow> bool) \<Rightarrow> stmt \<Rightarrow> vm \<Rightarrow> outcome"
and exec_list :: "bool \<Rightarrow> (nat \<Rightarrow> bool) \<Rightarrow> stmt list \<Rightarrow> vm \<Rightarrow> outcome" where
  "exec checks cancel (SVarDecl x e) m =
     (case eval checks e m of None \<Rightarrow> None | Some (v, m) \<Rightarrow> Some (Inr (), set_var x v m))"
| "exec checks cancel (SAssign x e) m =
     (case eval checks e m of None \<Rightarrow> None | Some (v, m) \<Rightarrow> Some (Inr (), set_var x v m))"
| "exec checks cancel (SPrint es) m =
     (case eval_list checks es m of
        None \<Rightarrow> None
      | Some (vs, m) \<Rightarrow> Some (Inr (), println_text [] (print_strs (map to_str vs) m)))"
| "exec checks cancel (SIf c t e) m =
     (case eval checks c m of
        None \<Rightarrow> None
      | Some (v, m) \<Rightarrow> if to_num v \<noteq> 0 then exec_list checks cancel t m else exec_list checks cancel e m)"
| "exec checks cancel (SWhile c b) m =
     while_loop cancel (eval checks c) (\<lambda>m. exec_list checks cancel b m) MAX_ITERATIONS m"
| "exec checks cancel (SBeep e) m =
     (case eval checks e m of
        None \<Rightarrow> None
      | Some (v, m) \<Rightarrow> Some (Inr (), emit (Beep (nat (to_num v mod 2 ^ 32))) m))"
| "exec checks cancel (SSleep e) m =
     (case eval checks e m of
        None \<Rightarrow> None
      | Some (v, m) \<Rightarrow> Some (Inr (), emit (Sleep (nat (to_num v mod 2 ^ 64))) m))"
| "exec checks cancel SExit m = Some (Inr (), m)"
| "exec checks cancel (SExpr e) m =
     (case eval checks e m of None \<Rightarrow> None | Some (v, m) \<Rightarrow> Some (Inr (), m))"
| "exec_list checks cancel [] m = Some (Inr (), m)"
| "exec_list checks cancel (s # ss) m =
     (case exec checks cancel s m of
        None \<Rightarrow> None
      | Some (Inl e, m) \<Rightarrow> Some (Inl e, m)
      | Some (Inr _, m) \<Rightarrow> exec_list checks cancel ss m)"

section \<open>Running a script\<close>

datatype script_error = ParseError parse_error | Message string

datatype script_result = Finished | Failed script_error | Exited

fun run :: "bool \<Rightarrow> (nat \<Rightarrow> bool) \<Rightarrow> stmt list \<Rightarrow> vm \<Rightarrow> (script_result \<times> vm) option" where
  "run checks cancel [] m = Some (Finished, m)"
| "run checks cancel (s # ss) m =
     (if cancel (polls m)
      then Some (Finished, println_text (NL # ''[Script] Cancelled by user (Ctrl+Z)'') (poll m))
      else
        (case exec checks cancel s (poll m) of
           None \<Rightarrow> None
         | Some (Inl e, m) \<Rightarrow> Some (Failed (Message e), m)
         | Some (Inr _, m) \<Rightarrow> run checks cancel ss m))"

definition execute :: "bool \<Rightarrow> (nat \<Rightarrow> bool) \<Rightarrow> stmt list \<Rightarrow> (script_result \<times> vm) option" where
  "execute checks cancel prog = run checks cancel prog vm_new"

definition run_script :: "bool \<Rightarrow> (nat \<Rightarrow> bool) \<Rightarrow> string \<Rightarrow> (script_result \<times> event list) option" where
  "run_script checks cancel source =
     (case tokenize checks source of
        None \<Rightarrow> None
      | Some ts \<Rightarrow>
          if ts = [] then Some (Finished, [])
          else
            (case parse ts of
               None \<Rightarrow> None
             | Some (Inl e) \<Rightarrow> Some (Failed (ParseError e), [])
             | Some (Inr prog) \<Rightarrow> map_option (\<lambda>(r, m). (r, events m)) (execute checks cancel prog)))"

section \<open>The two build profiles\<close>

text \<open>
  \<open>x\<close> panics or gives what \<open>y\<close> gives. Every construct of the interpreter is monotone in this order.
\<close>

definition le_opt :: "'a option \<Rightarrow> 'a option \<Rightarrow> bool" where
  "le_opt x y \<longleftrightarrow> x = None \<or> x = y"

named_theorems agree

lemma le_refl [agree]: "le_opt x x"
  by (simp add: le_opt_def)

lemma le_case [agree]:
  "le_opt x y \<Longrightarrow> (\<And>a. le_opt (f a) (g a)) \<Longrightarrow>
    le_opt (case x of None \<Rightarrow> None | Some a \<Rightarrow> f a) (case y of None \<Rightarrow> None | Some a \<Rightarrow> g a)"
  by (auto simp: le_opt_def split: option.splits)

lemma le_prod [agree]:
  "(\<And>a b. le_opt (f a b) (g a b)) \<Longrightarrow> le_opt (case p of (a, b) \<Rightarrow> f a b) (case p of (a, b) \<Rightarrow> g a b)"
  by (simp split: prod.split)

lemma le_sum [agree]:
  "(\<And>a. le_opt (f a) (f' a)) \<Longrightarrow> (\<And>b. le_opt (g b) (g' b)) \<Longrightarrow>
    le_opt (case s of Inl a \<Rightarrow> f a | Inr b \<Rightarrow> g b) (case s of Inl a \<Rightarrow> f' a | Inr b \<Rightarrow> g' b)"
  by (simp split: sum.split)

lemma le_if [agree]: "le_opt x x' \<Longrightarrow> le_opt y y' \<Longrightarrow> le_opt (if b then x else y) (if b then x' else y')"
  by simp

lemma le_map [agree]: "le_opt x y \<Longrightarrow> le_opt (map_option f x) (map_option f y)"
  by (auto simp: le_opt_def)

lemma le_arith [agree]: "le_opt (arith True n) (arith False n)"
  using arith_agree [of n] by (cases "arith True n") (auto simp: le_opt_def)

lemma bin_value_agree [agree]: "le_opt (bin_value True b l r) (bin_value False b l r)"
  by (cases b; cases l; cases r) (auto simp: bin_value_def Let_def intro!: agree)

lemma un_value_agree [agree]: "le_opt (un_value True u w) (un_value False u w)"
  by (cases u) (auto simp: un_value_def intro!: agree)

lemma call_fn_agree [agree]: "le_opt (call_fn True f vs m) (call_fn False f vs m)"
  by (auto simp: call_fn_def intro!: agree split: list.split)

lemma eval_list_agree:
  "(\<And>e m. e \<in> set es \<Longrightarrow> le_opt (eval True e m) (eval False e m)) \<Longrightarrow>
    le_opt (eval_list True es m) (eval_list False es m)"
  by (induction es arbitrary: m) (auto intro!: agree)

lemma eval_agree [agree]: "le_opt (eval True e m) (eval False e m)"
  by (induction e arbitrary: m) (auto intro!: agree eval_list_agree)

lemma while_test_agree [agree]:
  "(\<And>m. le_opt (cond m) (cond' m)) \<Longrightarrow> le_opt (while_test cancel cond m) (while_test cancel cond' m)"
  unfolding while_test_def by (intro agree)

lemma while_loop_agree:
  assumes "\<And>m. le_opt (cond m) (cond' m)" "\<And>m. le_opt (body m) (body' m)"
  shows "le_opt (while_loop cancel cond body n m) (while_loop cancel cond' body' n m)"
  by (induction n arbitrary: m) (auto intro!: agree assms)

lemma exec_list_agree:
  "(\<And>s m. s \<in> set ss \<Longrightarrow> le_opt (exec True cancel s m) (exec False cancel s m)) \<Longrightarrow>
    le_opt (exec_list True cancel ss m) (exec_list False cancel ss m)"
  by (induction ss arbitrary: m) (auto intro!: agree)

lemma exec_agree [agree]: "le_opt (exec True cancel s m) (exec False cancel s m)"
  by (induction s arbitrary: m)
    (auto intro!: agree while_loop_agree exec_list_agree eval_list_agree)

lemma run_agree [agree]: "le_opt (run True cancel prog m) (run False cancel prog m)"
  by (induction prog arbitrary: m) (auto intro!: agree)

lemma lex_digits_agree [agree]: "le_opt (lex_digits True n cs) (lex_digits False n cs)"
  by (induction cs arbitrary: n) (auto intro!: agree simp del: lex_digits.simps simp add: lex_digits.simps)

lemma lex_agree [agree]: "le_opt (lex True cs) (lex False cs)"
proof (induction "True" cs rule: lex.induct)
  case (2 c cs)
  have if': "(b \<Longrightarrow> le_opt x x') \<Longrightarrow> (\<not> b \<Longrightarrow> le_opt y y') \<Longrightarrow>
      le_opt (if b then x else y) (if b then x' else y')" for b and x x' y y' :: "'b option"
    by simp
  have case': "le_opt x y \<Longrightarrow> (\<And>a. x = Some a \<Longrightarrow> le_opt (f a) (g a)) \<Longrightarrow>
      le_opt (case x of None \<Rightarrow> None | Some a \<Rightarrow> f a) (case y of None \<Rightarrow> None | Some a \<Rightarrow> g a)"
    for x y :: "'b option" and f g :: "'b \<Rightarrow> 'c option"
    by (auto simp: le_opt_def split: option.splits)
  show ?case
    unfolding lex.simps(2)
  proof (intro if' le_map, goal_cases)
    case 4
    then show ?case
      using 2(4) by (intro case' lex_digits_agree) (auto intro!: le_map simp del: lex_digits.simps)
  next
    case 6
    obtain st rest where "lex_string c [] cs = (st, rest)" by fastforce
    then show ?case using 2(6) 6 by (auto intro!: le_map)
  next
    case 7
    obtain ts rest where "lex_op c cs = (ts, rest)" by fastforce
    then show ?case using 2(7) 7 by (auto intro!: le_map)
  qed (use 2 in auto)
qed (simp add: le_refl)

section \<open>Numbers and their text\<close>

lemma parse_text:
  assumes "i64_min \<le> n" "n \<le> i64_max"
  shows "parse_i64 (i64_text n) = Some n"
proof -
  have h: "hd (decimal k) \<noteq> CHR ''-'' \<and> hd (decimal k) \<noteq> CHR ''+''" for k
    using decimal_digits [of k] decimal_nonempty [of k] by (cases "decimal k") (auto simp: is_digit_def)
  show ?thesis
    using assms h [of "nat n"] decimal_digits [of "nat n"] decimal_digits [of "nat (- n)"]
    by (auto simp: i64_text_def parse_i64_def Let_def digits_value_decimal)
qed

section \<open>Arithmetic of scripts\<close>

definition in_i64 :: "int \<Rightarrow> bool" where
  "in_i64 n \<longleftrightarrow> i64_min \<le> n \<and> n \<le> i64_max"

text \<open>
  Expressions over numbers: literals, variables that hold numbers, sums, differences, products and signs; the
  integer such an expression stands for; and all its parts.
\<close>

fun number_expr :: "vm \<Rightarrow> expr \<Rightarrow> bool" where
  "number_expr m (ENumber n) \<longleftrightarrow> in_i64 n"
| "number_expr m (EVar x) \<longleftrightarrow> (case vars m x of Some (VNum n) \<Rightarrow> in_i64 n | _ \<Rightarrow> False)"
| "number_expr m (EBin l b r) \<longleftrightarrow> b \<in> {BAdd, BSub, BMul} \<and> number_expr m l \<and> number_expr m r"
| "number_expr m (EUn u e) \<longleftrightarrow> u = UNeg \<and> number_expr m e"
| "number_expr m e \<longleftrightarrow> False"

fun exact :: "vm \<Rightarrow> expr \<Rightarrow> int" where
  "exact m (ENumber n) = n"
| "exact m (EVar x) = (case vars m x of Some (VNum n) \<Rightarrow> n | _ \<Rightarrow> 0)"
| "exact m (EBin l BAdd r) = exact m l + exact m r"
| "exact m (EBin l BSub r) = exact m l - exact m r"
| "exact m (EBin l BMul r) = exact m l * exact m r"
| "exact m (EUn UNeg e) = - exact m e"
| "exact m e = 0"

fun parts :: "expr \<Rightarrow> expr list" where
  "parts (EBin l b r) = EBin l b r # parts l @ parts r"
| "parts (EUn u e) = EUn u e # parts e"
| "parts e = [e]"

definition fits :: "vm \<Rightarrow> expr \<Rightarrow> bool" where
  "fits m e \<longleftrightarrow> list_all (\<lambda>p. in_i64 (exact m p)) (parts e)"

text \<open>Division towards zero, the sign of the remainder that of the dividend.\<close>

definition quotient :: "int \<Rightarrow> int \<Rightarrow> int" where
  "quotient a b = sgn a * sgn b * (\<bar>a\<bar> div \<bar>b\<bar>)"

definition remainder :: "int \<Rightarrow> int \<Rightarrow> int" where
  "remainder a b = sgn a * (\<bar>a\<bar> mod \<bar>b\<bar>)"

lemma to_i64_id: "in_i64 n \<Longrightarrow> to_i64 n = n"
  by (simp add: in_i64_def i64_min_def i64_max_def to_i64_def sint_sbintrunc' signed_take_bit_int_eq_self)

lemma to_i64_in [simp]: "in_i64 (to_i64 n)"
  using to_i64_range [of n] by (simp add: in_i64_def)

lemma to_i64_ops:
  "to_i64 (to_i64 a + to_i64 b) = to_i64 (a + b)" "to_i64 (to_i64 a - to_i64 b) = to_i64 (a - b)"
  "to_i64 (to_i64 a * to_i64 b) = to_i64 (a * b)" "to_i64 (- to_i64 a) = to_i64 (- a)"
  by (simp_all add: to_i64_def)

lemma arith_eq: "arith False n = Some (to_i64 n)" "arith True n = (if in_i64 n then Some n else None)"
  using to_i64_id [of n] by (auto simp: arith_def in_i64_def)

lemma ring_values:
  "bin_value checks BAdd (VNum a) (VNum c) = map_option VNum (arith checks (a + c))"
  "bin_value checks BSub (VNum a) (VNum c) = map_option VNum (arith checks (a - c))"
  "bin_value checks BMul (VNum a) (VNum c) = map_option VNum (arith checks (a * c))"
  by (simp_all add: bin_value_def)

lemma number_wraps: "number_expr m e \<Longrightarrow> eval False e m = Some (VNum (to_i64 (exact m e)), m)"
proof (induction e)
  case (EBin l b r)
  then show ?case by (auto simp: ring_values arith_eq to_i64_ops)
next
  case (EUn u e)
  then show ?case by (auto simp: un_value_def arith_eq to_i64_ops)
next
  case (EVar x)
  then show ?case by (auto simp: get_var_def to_i64_id split: option.splits vm_value.splits)
qed (auto simp: to_i64_id)

lemma number_checked: "number_expr m e \<Longrightarrow> eval True e m = (if fits m e then Some (VNum (exact m e), m) else None)"
proof (induction e)
  case (EBin l b r)
  then show ?case by (auto simp: ring_values arith_eq fits_def)
next
  case (EUn u e)
  then show ?case by (auto simp: un_value_def arith_eq fits_def)
next
  case (EVar x)
  then show ?case by (auto simp: get_var_def fits_def split: option.splits vm_value.splits)
qed (auto simp: fits_def)

lemma fits_exact: "fits m e \<Longrightarrow> in_i64 (exact m e)"
  by (cases e) (auto simp: fits_def)

lemma number_fits: "number_expr m e \<Longrightarrow> fits m e \<Longrightarrow> eval checks e m = Some (VNum (exact m e), m)"
  using number_wraps [of m e] number_checked [of m e] fits_exact [of m e] by (cases checks) (simp_all add: to_i64_id)

lemma quotient_sdiv: "l sdiv r = quotient l r" "l smod r = remainder l r"
  by (simp_all add: quotient_def remainder_def signed_divide_int_def signed_modulo_int_def)

text \<open>The two are the division towards zero.\<close>

lemma quotient_remainder: "b \<noteq> 0 \<Longrightarrow> a = quotient a b * b + remainder a b \<and> \<bar>remainder a b\<bar> < \<bar>b\<bar>"
proof
  assume b: "b \<noteq> 0"
  have "a = sgn a * (\<bar>b\<bar> * (\<bar>a\<bar> div \<bar>b\<bar>) + \<bar>a\<bar> mod \<bar>b\<bar>)" by (simp add: sgn_mult_abs)
  also have "\<dots> = quotient a b * b + remainder a b"
    by (simp add: quotient_def remainder_def distrib_left abs_sgn [of b] mult.assoc mult.left_commute)
  finally show "a = quotient a b * b + remainder a b" .
  have "\<bar>remainder a b\<bar> \<le> \<bar>a\<bar> mod \<bar>b\<bar>" using b by (simp add: remainder_def abs_mult abs_sgn_eq)
  also have "\<dots> < \<bar>b\<bar>" using b by simp
  finally show "\<bar>remainder a b\<bar> < \<bar>b\<bar>" .
qed

section \<open>The iteration limit\<close>

text \<open>
  \<open>rounds n m\<close>: the state after \<open>n\<close> rounds of a loop that goes on (the condition holds, nobody cancels, the
  body ends without an error).
\<close>

primrec rounds :: "(nat \<Rightarrow> bool) \<Rightarrow> (vm \<Rightarrow> (vm_value \<times> vm) option) \<Rightarrow> (vm \<Rightarrow> outcome) \<Rightarrow> nat \<Rightarrow> vm \<Rightarrow> vm option" where
  "rounds cancel cond body 0 m = Some m"
| "rounds cancel cond body (Suc n) m =
     (case cond m of
        None \<Rightarrow> None
      | Some (v, m1) \<Rightarrow>
          if to_num v = 0 \<or> cancel (polls m1) then None
          else (case body (m1\<lparr>polls := polls m1 + 1\<rparr>) of
                  Some (Inr _, m2) \<Rightarrow> rounds cancel cond body n m2
                | _ \<Rightarrow> None))"

lemma while_loop_rounds:
  "rounds cancel cond body n m = Some m1 \<Longrightarrow> while_loop cancel cond body (n + k) m = while_loop cancel cond body k m1"
proof (induction n arbitrary: m)
  case (Suc n)
  obtain m2 m3 where m: "while_test cancel cond m = Some (Inr m2)" "body m2 = Some (Inr (), m3)" "rounds cancel cond body n m3 = Some m1"
    using Suc.prems by (auto simp: while_test_def poll_def split: option.splits sum.splits prod.splits if_splits)
  then show ?case using Suc.IH [OF m(3)] by simp
qed simp

section \<open>Properties\<close>

text \<open>
  The dev and the release build agree. The two profiles differ in what they do on arithmetic
  overflow, in literals and at run time; a script that the dev build runs without a panic, to its
  end, to a parse error or to a run-time error, gives the same result and the same output, beeps
  and sleeps in the release build.
\<close>

theorem profiles_agree:
  assumes "run_script True cancel source = Some r"
  shows "run_script False cancel source = Some r"
proof -
  have "le_opt (tokenize True source) (tokenize False source)"
    unfolding tokenize_def by (intro agree)
  then have "le_opt (run_script True cancel source) (run_script False cancel source)"
    unfolding run_script_def execute_def by (auto intro!: agree)
  then show ?thesis using assms by (simp add: le_opt_def)
qed

theorem profiles_agree_witness:
  "run_script False (\<lambda>_. False) ''exit '' = Some (Finished, [])"
proof -
  have "list_all printable [TExit]" by simp
  then have "lex True (source_of [TExit]) = Some [TExit]" by (rule lex_source)
  moreover have "source_of [TExit] = ''exit ''" by (simp add: source_of_def)
  ultimately have "tokenize True ''exit '' = Some [TExit, TEof]" by (simp add: tokenize_def)
  moreover have "parse [TExit, TEof] = Some (Inr [SExit])"
    by (simp add: parse_def eval_nat_numeral skip_head)
  ultimately have "run_script True (\<lambda>_. False) ''exit '' = Some (Finished, [])"
    by (simp add: run_script_def execute_def vm_new_def poll_def)
  then show ?thesis by (rule profiles_agree)
qed

text \<open>
  C35: arithmetic of scripts. For an expression of any depth over numbers, sums, differences, products and signs,
  the release build gives the exact integer brought into the range of 64-bit signed numbers once, as if it had not
  wrapped at every step; the dev build gives the exact integer if the exact value of every part is in range, and
  otherwise panics. Where all parts of two such operands are in range, both builds divide towards zero (a
  division by zero gives 0), take remainders with the sign of the dividend (a remainder by zero panics), both panic
  on the smallest number and minus one, and compare the exact integers, with 1 and 0 as the truth values. No
  such expression changes the variables or prints.
\<close>

theorem script_arithmetic:
  assumes "number_expr m e" "number_expr m f"
  shows "eval False e m = Some (VNum (to_i64 (exact m e)), m) \<and>
    eval True e m = (if fits m e then Some (VNum (exact m e), m) else None) \<and>
    (fits m e \<longrightarrow> fits m f \<longrightarrow>
      (let a = exact m e; b = exact m f; result = (\<lambda>n. Some (VNum n, m)) in
       eval checks (EBin e BDiv f) m =
         (if b = 0 then result 0 else if a = - (2 ^ 63) \<and> b = - 1 then None else result (quotient a b)) \<and>
       eval checks (EBin e BMod f) m = (if b = 0 \<or> a = - (2 ^ 63) \<and> b = - 1 then None else result (remainder a b)) \<and>
       eval checks (EBin e BEq f) m = result (if a = b then 1 else 0) \<and>
       eval checks (EBin e BNe f) m = result (if a \<noteq> b then 1 else 0) \<and>
       eval checks (EBin e BLt f) m = result (if a < b then 1 else 0) \<and>
       eval checks (EBin e BGt f) m = result (if b < a then 1 else 0) \<and>
       eval checks (EBin e BLe f) m = result (if a \<le> b then 1 else 0) \<and>
       eval checks (EBin e BGe f) m = result (if b \<le> a then 1 else 0) \<and>
       eval checks (EUn UNot e) m = result (if a = 0 then 1 else 0)))"
proof -
  have ops: "eval checks (EBin e b f) m = map_option (\<lambda>v. (v, m)) (bin_value checks b (VNum (exact m e)) (VNum (exact m f)))"
    if "fits m e" "fits m f" for b
    using number_fits [OF assms(1) that(1)] number_fits [OF assms(2) that(2)] by simp
  show ?thesis
    using number_wraps [OF assms(1)] number_checked [OF assms(1)] number_fits [OF assms(1)]
    by (auto simp: ops bin_value_def un_value_def truth_def quotient_sdiv i64_min_def Let_def simp del: eval.simps(4))
qed

theorem script_arithmetic_witness:
  "eval False (EBin (EBin (ENumber (2 ^ 62)) BMul (ENumber 6)) BSub (EBin (ENumber (2 ^ 62)) BMul (ENumber 4))) vm_new =
      Some (VNum (- (2 ^ 63)), vm_new) \<and>
    eval True (EBin (EBin (ENumber (2 ^ 62)) BMul (ENumber 6)) BSub (EBin (ENumber (2 ^ 62)) BMul (ENumber 4))) vm_new = None \<and>
    eval True (EBin (ENumber (- 7)) BDiv (EBin (ENumber 5) BSub (ENumber 3))) vm_new = Some (VNum (- 3), vm_new) \<and>
    eval False (EBin (ENumber (- 7)) BMod (EBin (ENumber 5) BSub (ENumber 3))) vm_new = Some (VNum (- 1), vm_new)"
proof -
  let ?e = "EBin (EBin (ENumber (2 ^ 62)) BMul (ENumber 6)) BSub (EBin (ENumber (2 ^ 62)) BMul (ENumber 4))"
  let ?f = "EBin (ENumber 5) BSub (ENumber 3)"
  have n: "number_expr vm_new ?e" "number_expr vm_new ?f" "number_expr vm_new (ENumber (- 7))"
    by (simp_all add: in_i64_def i64_min_def i64_max_def)
  have f: "\<not> fits vm_new ?e" "fits vm_new ?f" "fits vm_new (ENumber (- 7))"
    by (simp_all add: fits_def in_i64_def i64_min_def i64_max_def)
  have q: "quotient (- 7) 2 = - 3" "remainder (- 7) 2 = - 1" by (simp_all add: quotient_def remainder_def)
  have w: "to_i64 (exact vm_new ?e) = - (2 ^ 63)" by (simp add: to_i64_def)
  show ?thesis
    using script_arithmetic [OF n(1,2), of True] script_arithmetic [OF n(3,2), of True] script_arithmetic [OF n(3,2), of False] f q w
    by (simp add: Let_def del: eval.simps)
qed

text \<open>
  C36: a loop that would never end is stopped. Let \<open>n\<close> rounds of a while statement be done, \<open>n\<close> at most ten million:
  the condition not zero, no cancellation, and the body ending without a panic or an error, each time. If the
  condition then panics, so does the statement; if it is zero, the statement ends there; if the user has
  cancelled, it prints so and ends without an error. Otherwise, after ten million rounds the statement ends with the limit
  error, without another round; before that, the body runs, and its panic or error is that of the
  statement. So a body whose rounds always go on is executed exactly ten million times.
\<close>

theorem while_stops:
  assumes "rounds cancel (eval checks c) (exec_list checks cancel b) n m = Some m1" "n \<le> 10000000"
  shows "exec checks cancel (SWhile c b) m =
    (case eval checks c m1 of
       None \<Rightarrow> None
     | Some (v, m2) \<Rightarrow>
         let m3 = m2\<lparr>polls := polls m2 + 1\<rparr> in
         if to_num v = 0 then Some (Inr (), m2)
         else if cancel (polls m2) then Some (Inr (), println_text (NL # ''[Script] Cancelled by user'') m3)
         else if n = 10000000 then Some (Inl ''[Script] iteration limit exceeded'', m3)
         else (case exec_list checks cancel b m3 of
                 None \<Rightarrow> None
               | Some (Inl e, m4) \<Rightarrow> Some (Inl e, m4)
               | Some (Inr _, m4) \<Rightarrow> exec checks cancel (SWhile c b) m))"
proof -
  obtain k where k: "MAX_ITERATIONS = n + k" "k = 0 \<longleftrightarrow> n = 10000000"
    using assms(2) by (auto simp: MAX_ITERATIONS_def dest: le_Suc_ex)
  have e: "exec checks cancel (SWhile c b) m = while_loop cancel (eval checks c) (exec_list checks cancel b) k m1"
    using while_loop_rounds [OF assms(1)] by (simp add: k(1))
  show ?thesis
  proof (cases k)
    case 0
    then show ?thesis using k(2) unfolding e
      by (auto simp: limit_message_def while_test_def poll_def Let_def split: option.split sum.split)
  next
    case (Suc j)
    then have "n \<noteq> 10000000" using k(2) by simp
    then show ?thesis unfolding e Suc
      by (auto simp: while_test_def poll_def Let_def split: option.split sum.split)
  qed
qed

lemma endless_rounds:
  "rounds (\<lambda>_. False) (eval True (ENumber 1)) (exec_list True (\<lambda>_. False) []) n m = Some (m\<lparr>polls := polls m + n\<rparr>)"
  by (induction n arbitrary: m) simp_all

theorem while_stops_witness:
  "exec True (\<lambda>_. False) (SWhile (ENumber 1) []) vm_new =
     Some (Inl ''[Script] iteration limit exceeded'', vm_new\<lparr>polls := 10000001\<rparr>)"
  using while_stops [OF endless_rounds [of 10000000 vm_new]]
  by (simp add: vm_new_def Let_def del: exec.simps)

end
