(* ===== verification/Net.thy ===== *)
theory Net
  imports Path
begin

text \<open>
  The network stack (\<open>net/mod.rs\<close>, \<open>net/arp.rs\<close>, \<open>net/ip.rs\<close>, \<open>net/icmp.rs\<close>) over the rings of the
  e1000 driver (\<open>send_packet\<close> and \<open>recv_packet\<close> of \<open>drivers/e1000.rs\<close>).

  All the statics of the four files are one record \<open>net\<close>. A handler returns \<open>None\<close> when the code
  panics. \<open>arp::resolve\<close> spins until another task has stored an answer or three seconds have gone
  by: what the other tasks do to the network's state in that time is the argument \<open>others\<close> of
  everything that may send. Addresses are byte lists (\<open>[u8; 6]\<close> and \<open>[u8; 4]\<close>), packed structures
  are their bytes, with \<open>to_be\<close> on the little-endian target as \<open>be16\<close>.
\<close>

section \<open>Sixteen-bit fields\<close>

definition be16 :: "u16 \<Rightarrow> bytes" where
  "be16 w = [ucast (drop_bit 8 w), ucast w]"

definition le16 :: "u16 \<Rightarrow> bytes" where
  "le16 w = rev (be16 w)"

definition from_be16 :: "u8 \<Rightarrow> u8 \<Rightarrow> u16" where
  "from_be16 a b = push_bit 8 (ucast a) OR ucast b"

lemma from_be16_be16 [simp]: "from_be16 (be16 w ! 0) (be16 w ! Suc 0) = w"
  unfolding be16_def from_be16_def
  by (rule bit_word_eqI) (auto simp: bit_simps)

lemma length_be16 [simp]: "length (be16 w) = 2" "length (le16 w) = 2"
  by (simp_all add: be16_def le16_def)

section \<open>The e1000 rings\<close>

record rx_desc =
  rx_length :: u16
  rx_status :: u8

record tx_desc =
  tx_length :: u16
  tx_cmd :: u8
  tx_status :: u8

text \<open>The descriptor rings and buffers in memory, the driver's indices and the two registers written.\<close>

record e1000 =
  nic_mac :: bytes
  rx_descs :: "rx_desc list"
  rx_buffers :: "bytes list"
  rx_head :: nat
  tx_descs :: "tx_desc list"
  tx_buffers :: "bytes list"
  tx_tail :: nat
  reg_rdh :: nat
  reg_tdt :: nat

definition RX_DESC_COUNT :: nat where "RX_DESC_COUNT = 32"
definition TX_DESC_COUNT :: nat where "TX_DESC_COUNT = 8"
definition RX_BUFFER_SIZE :: nat where "RX_BUFFER_SIZE = 2048"

text \<open>\<open>ptr::copy_nonoverlapping(src, dst, n)\<close>, for \<open>n\<close> within both.\<close>

definition copy_into :: "nat \<Rightarrow> bytes \<Rightarrow> bytes \<Rightarrow> bytes" where
  "copy_into n src dst = take n src @ drop n dst"

definition send_packet :: "bytes \<Rightarrow> e1000 option \<Rightarrow> bool \<times> e1000 option" where
  "send_packet data ctrl =
     (case ctrl of
        None \<Rightarrow> (False, None)
      | Some c \<Rightarrow>
          let slot = tx_tail c;
              data_len = min (length data) RX_BUFFER_SIZE;
              tail = (tx_tail c + 1) mod TX_DESC_COUNT
          in (True, Some (c\<lparr>
               tx_buffers := (tx_buffers c)[slot := copy_into data_len data (tx_buffers c ! slot)],
               tx_descs := (tx_descs c)[slot :=
                 (tx_descs c ! slot)\<lparr>tx_length := of_nat data_len, tx_cmd := 0x0B, tx_status := 0\<rparr>],
               tx_tail := tail, reg_tdt := tail\<rparr>)))"

text \<open>\<open>None\<close>, or the number of bytes copied and the buffer after the copy.\<close>

definition recv_packet :: "bytes \<Rightarrow> e1000 option \<Rightarrow> (nat \<times> bytes) option \<times> e1000 option" where
  "recv_packet buf ctrl =
     (case ctrl of
        None \<Rightarrow> (None, None)
      | Some c \<Rightarrow>
          let slot = rx_head c; desc = rx_descs c ! slot
          in if rx_status desc AND 1 = 0 then (None, Some c)
             else
               let copy_len = min (unat (rx_length desc)) (length buf);
                   head = (rx_head c + 1) mod RX_DESC_COUNT
               in (Some (copy_len, copy_into copy_len (rx_buffers c ! slot) buf),
                   Some (c\<lparr>rx_descs := (rx_descs c)[slot := desc\<lparr>rx_status := 0, rx_length := 0\<rparr>],
                           rx_head := head, reg_rdh := head\<rparr>)))"

section \<open>State of the stack\<close>

record net_interface =
  i_mac :: bytes
  i_ip :: bytes
  i_gateway :: bytes
  i_mask :: bytes

record arp_entry =
  a_ip :: bytes
  a_mac :: bytes

record net =
  iface :: "net_interface option"
  net_initialized :: bool
  arp_table :: "arp_entry list"
  arp_pending :: "bytes option"
  arp_resolved :: "bytes option"
  nic :: "e1000 option"
  rx_packets :: u64
  rx_bytes :: u64
  tx_packets :: u64
  tx_bytes :: u64
  reply_id :: u16
  reply_seq :: u16
  reply_avail :: bool
  net_buf :: bytes

definition net_boot :: "e1000 option \<Rightarrow> net" where
  "net_boot c = \<lparr>iface = None, net_initialized = False, arp_table = [], arp_pending = None,
     arp_resolved = None, nic = c, rx_packets = 0, rx_bytes = 0, tx_packets = 0, tx_bytes = 0,
     reply_id = 0, reply_seq = 0, reply_avail = False, net_buf = replicate 2048 0\<rparr>"

definition net_init :: "bytes \<Rightarrow> net \<Rightarrow> net" where
  "net_init m st =
     st\<lparr>iface := Some \<lparr>i_mac = m, i_ip = [10, 0, 2, 15], i_gateway = [10, 0, 2, 2],
                      i_mask = [255, 255, 255, 0]\<rparr>,
        net_initialized := True\<rparr>"

definition net_stats :: "net \<Rightarrow> u64 \<times> u64 \<times> u64 \<times> u64" where
  "net_stats st = (rx_packets st, rx_bytes st, tx_packets st, tx_bytes st)"

definition get_local_mac :: "net \<Rightarrow> bytes" where
  "get_local_mac st = (case iface st of Some i \<Rightarrow> i_mac i | None \<Rightarrow> replicate 6 0)"

definition get_local_ip :: "net \<Rightarrow> bytes" where
  "get_local_ip st = (case iface st of Some i \<Rightarrow> i_ip i | None \<Rightarrow> replicate 4 0)"

definition get_gateway :: "net \<Rightarrow> bytes" where
  "get_gateway st = (case iface st of Some i \<Rightarrow> i_gateway i | None \<Rightarrow> replicate 4 0)"

definition get_subnet_mask :: "net \<Rightarrow> bytes" where
  "get_subnet_mask st = (case iface st of Some i \<Rightarrow> i_mask i | None \<Rightarrow> replicate 4 0)"


section \<open>Ethernet output\<close>

definition send_ethernet :: "bytes \<Rightarrow> u16 \<Rightarrow> bytes \<Rightarrow> net \<Rightarrow> net" where
  "send_ethernet dst ether_type payload st =
     (let frame = dst @ get_local_mac st @ be16 ether_type @ payload
      in case send_packet frame (nic st) of
           (ok, c) \<Rightarrow>
             if ok
             then st\<lparr>nic := c, tx_packets := tx_packets st + 1,
                     tx_bytes := tx_bytes st + of_nat (length frame)\<rparr>
             else st\<lparr>nic := c\<rparr>)"

section \<open>ARP\<close>

definition BROADCAST_MAC :: bytes where "BROADCAST_MAC = replicate 6 0xFF"

definition table_lookup :: "bytes \<Rightarrow> arp_entry list \<Rightarrow> bytes option" where
  "table_lookup ip t = map_option a_mac (find (\<lambda>e. a_ip e = ip) t)"

definition table_add :: "bytes \<Rightarrow> bytes \<Rightarrow> arp_entry list \<Rightarrow> arp_entry list" where
  "table_add ip m t =
     (if list_ex (\<lambda>e. a_ip e = ip) t then update_first (\<lambda>e. a_ip e = ip) (\<lambda>e. e\<lparr>a_mac := m\<rparr>) t
      else t @ [\<lparr>a_ip = ip, a_mac = m\<rparr>])"

definition arp_add_entry :: "bytes \<Rightarrow> bytes \<Rightarrow> net \<Rightarrow> net" where
  "arp_add_entry ip m st = st\<lparr>arp_table := table_add ip m (arp_table st)\<rparr>"

text \<open>The bytes of an \<open>ArpPacket\<close>, filled in field by field.\<close>

definition arp_packet :: "u16 \<Rightarrow> bytes \<Rightarrow> bytes \<Rightarrow> bytes \<Rightarrow> bytes \<Rightarrow> bytes" where
  "arp_packet opcode sender_mac sender_ip target_mac target_ip =
     be16 1 @ be16 0x0800 @ [6, 4] @ be16 opcode @ sender_mac @ sender_ip @ target_mac @ target_ip"

definition send_arp_request :: "bytes \<Rightarrow> bytes \<Rightarrow> bytes \<Rightarrow> net \<Rightarrow> net" where
  "send_arp_request target_ip src_mac src_ip =
     send_ethernet BROADCAST_MAC 0x0806 (arp_packet 1 src_mac src_ip (replicate 6 0) target_ip)"

definition send_arp_reply :: "bytes \<Rightarrow> bytes \<Rightarrow> bytes \<Rightarrow> bytes \<Rightarrow> net \<Rightarrow> net" where
  "send_arp_reply target_mac target_ip src_mac src_ip =
     send_ethernet target_mac 0x0806 (arp_packet 2 src_mac src_ip target_mac target_ip)"

text \<open>
  \<open>others\<close> is applied where the code waits: the state the last look at \<open>ARP_RESOLVED_MAC\<close> finds.
\<close>

definition arp_resolve :: "(net \<Rightarrow> net) \<Rightarrow> bytes \<Rightarrow> bytes \<Rightarrow> bytes \<Rightarrow> net \<Rightarrow> bytes option \<times> net" where
  "arp_resolve others target_ip src_mac src_ip st =
     (case table_lookup target_ip (arp_table st) of
        Some m \<Rightarrow> (Some m, st)
      | None \<Rightarrow>
          let st1 = send_arp_request target_ip src_mac src_ip st;
              st2 = others (st1\<lparr>arp_pending := Some target_ip, arp_resolved := None\<rparr>)
          in (arp_resolved st2, st2\<lparr>arp_pending := None\<rparr>))"

definition slice :: "nat \<Rightarrow> nat \<Rightarrow> bytes \<Rightarrow> bytes" where
  "slice i n bs = take n (drop i bs)"

definition handle_arp :: "bytes \<Rightarrow> net \<Rightarrow> net" where
  "handle_arp payload st =
     (if length payload < 28 then st
      else
        let opcode = from_be16 (payload ! 6) (payload ! 7);
            sender_mac = slice 8 6 payload;
            sender_ip = slice 14 4 payload;
            target_ip = slice 24 4 payload;
            local_ip = get_local_ip st
        in if opcode = 1 then
             (if target_ip = local_ip
              then send_arp_reply sender_mac sender_ip (get_local_mac st) local_ip
                     (arp_add_entry sender_ip sender_mac st)
              else st)
           else if opcode = 2 then
             (let st1 = arp_add_entry sender_ip sender_mac st
              in if arp_pending st1 = Some sender_ip then st1\<lparr>arp_resolved := Some sender_mac\<rparr> else st1)
           else st)"

section \<open>IP\<close>

text \<open>The sum of the 16-bit words, in a \<open>u32\<close>; a last odd byte is padded with zero.\<close>

fun sum_words :: "bytes \<Rightarrow> u32 \<Rightarrow> u32" where
  "sum_words (a # b # rest) s = sum_words rest (s + (push_bit 8 (ucast a) OR ucast b))"
| "sum_words [a] s = s + push_bit 8 (ucast a)"
| "sum_words [] s = s"

lemma unat_drop16: "unat (drop_bit 16 s) = unat s div 65536" for s :: u32
proof -
  have "unat s < 4294967296" using unsigned_less [of s, where ?'a = nat] by simp
  then show ?thesis
    unfolding unsigned_drop_bit_eq by (simp add: drop_bit_eq_div take_bit_nat_eq_self)
qed

lemma fold_carry_less:
  assumes "drop_bit 16 s \<noteq> (0 :: u32)"
  shows "unat ((s AND 0xFFFF) + drop_bit 16 s) = unat s mod 65536 + unat s div 65536"
    "unat ((s AND 0xFFFF) + drop_bit 16 s) < unat s"
proof -
  have m: "(0xFFFF :: u32) = mask 16" by (simp add: mask_eq_exp_minus_1)
  have a: "unat (s AND 0xFFFF) = unat s mod 65536"
    unfolding m take_bit_eq_mask [symmetric] unsigned_take_bit_eq by (simp add: take_bit_eq_mod)
  have b: "unat s < 4294967296" using unsigned_less [of s, where ?'a = nat] by simp
  have "unat s mod 65536 + unat s div 65536 < 4294967296" using b by simp
  then show e: "unat ((s AND 0xFFFF) + drop_bit 16 s) = unat s mod 65536 + unat s div 65536"
    by (simp add: unat_word_ariths a unat_drop16)
  have "unat (drop_bit 16 s) \<noteq> 0" using assms unsigned_eq_0_iff by blast
  then have "unat s div 65536 \<noteq> 0" by (simp only: unat_drop16) simp
  then show "unat ((s AND 0xFFFF) + drop_bit 16 s) < unat s"
    unfolding e using div_mult_mod_eq [of "unat s" 65536] by linarith
qed

function fold_carry :: "u32 \<Rightarrow> u32" where
  "fold_carry s = (if drop_bit 16 s \<noteq> 0 then fold_carry ((s AND 0xFFFF) + drop_bit 16 s) else s)"
  by pat_completeness auto
termination
  by (relation "measure unat") (simp_all add: fold_carry_less(2))

declare fold_carry.simps [simp del]

definition internet_checksum :: "bytes \<Rightarrow> u16" where
  "internet_checksum data = ucast (NOT (fold_carry (sum_words data 0)))"


definition ip_header :: "u16 \<Rightarrow> u8 \<Rightarrow> u16 \<Rightarrow> bytes \<Rightarrow> bytes \<Rightarrow> bytes" where
  "ip_header total_len protocol checksum src_ip dst_ip =
     [0x45, 0] @ be16 total_len @ le16 0x1234 @ le16 0x4000 @ [64, protocol] @ be16 checksum
       @ src_ip @ dst_ip"

definition is_same_subnet :: "bytes \<Rightarrow> bytes \<Rightarrow> bytes \<Rightarrow> bool" where
  "is_same_subnet ip1 ip2 m \<longleftrightarrow> list_all (\<lambda>i. ip1 ! i AND m ! i = ip2 ! i AND m ! i) [0..<4]"

definition send_ip :: "(net \<Rightarrow> net) \<Rightarrow> bytes \<Rightarrow> u8 \<Rightarrow> bytes \<Rightarrow> net \<Rightarrow> net" where
  "send_ip others dst_ip protocol payload st =
     (let src_ip = get_local_ip st;
          total_len = of_nat (20 + length payload);
          csum = internet_checksum (ip_header total_len protocol 0 src_ip dst_ip);
          packet = ip_header total_len protocol csum src_ip dst_ip @ payload;
          target_ip = (if is_same_subnet dst_ip src_ip (get_subnet_mask st) then dst_ip
                       else get_gateway st)
      in case arp_resolve others target_ip (get_local_mac st) src_ip st of
           (Some m, st1) \<Rightarrow> send_ethernet m 0x0800 packet st1
         | (None, st1) \<Rightarrow> st1)"

text \<open>\<open>parse_ip\<close> reads up to four parts with \<open>str::parse::<u8>\<close> (an optional plus sign, decimal digits, no overflow).\<close>

definition parse_u8 :: "string \<Rightarrow> u8 option" where
  "parse_u8 s =
     (let ds = (if s \<noteq> [] \<and> hd s = CHR ''+'' then tl s else s)
      in if ds = [] \<or> \<not> list_all is_digit ds \<or> digits_value ds > 255 then None
         else Some (word_of_int (digits_value ds)))"

definition parse_ip :: "string \<Rightarrow> bytes" where
  "parse_ip s =
     (let parts = map (\<lambda>p. case parse_u8 p of Some v \<Rightarrow> v | None \<Rightarrow> 0) (take 4 (split_on CHR ''.'' s))
      in parts @ replicate (4 - length parts) 0)"

definition ip_to_str :: "bytes \<Rightarrow> string" where
  "ip_to_str ip = decimal (unat (ip ! 0)) @ ''.'' @ decimal (unat (ip ! 1)) @ ''.''
     @ decimal (unat (ip ! 2)) @ ''.'' @ decimal (unat (ip ! 3))"

section \<open>ICMP\<close>

definition icmp_message :: "u8 \<Rightarrow> u16 \<Rightarrow> u16 \<Rightarrow> u16 \<Rightarrow> bytes \<Rightarrow> bytes" where
  "icmp_message msg_type checksum ident sequence payload =
     [msg_type, 0] @ be16 checksum @ be16 ident @ be16 sequence @ payload"

definition send_echo :: "u8 \<Rightarrow> (net \<Rightarrow> net) \<Rightarrow> bytes \<Rightarrow> u16 \<Rightarrow> u16 \<Rightarrow> bytes \<Rightarrow> net \<Rightarrow> net" where
  "send_echo msg_type others dst_ip ident sequence payload =
     send_ip others dst_ip 1
       (icmp_message msg_type (internet_checksum (icmp_message msg_type 0 ident sequence payload))
          ident sequence payload)"

definition send_echo_request :: "(net \<Rightarrow> net) \<Rightarrow> bytes \<Rightarrow> u16 \<Rightarrow> u16 \<Rightarrow> bytes \<Rightarrow> net \<Rightarrow> net" where
  "send_echo_request = send_echo 8"

definition send_echo_reply :: "(net \<Rightarrow> net) \<Rightarrow> bytes \<Rightarrow> u16 \<Rightarrow> u16 \<Rightarrow> bytes \<Rightarrow> net \<Rightarrow> net" where
  "send_echo_reply = send_echo 0"

definition set_reply_received :: "u16 \<Rightarrow> u16 \<Rightarrow> net \<Rightarrow> net" where
  "set_reply_received ident sq st = st\<lparr>reply_id := ident, reply_seq := sq, reply_avail := True\<rparr>"

definition icmp_pending_reply :: "u16 \<Rightarrow> u16 \<Rightarrow> net \<Rightarrow> bool \<times> net" where
  "icmp_pending_reply ident sq st =
     (if reply_avail st \<and> reply_id st = ident \<and> reply_seq st = sq
      then (True, st\<lparr>reply_avail := False\<rparr>) else (False, st))"

definition handle_icmp :: "(net \<Rightarrow> net) \<Rightarrow> bytes \<Rightarrow> bytes \<Rightarrow> net \<Rightarrow> net" where
  "handle_icmp others src_ip data st =
     (if length data < 8 then st
      else
        let msg_type = data ! 0;
            ident = from_be16 (data ! 4) (data ! 5);
            sequence = from_be16 (data ! 6) (data ! 7)
        in if msg_type = 8 then send_echo_reply others src_ip ident sequence (drop 8 data) st
           else if msg_type = 0 then set_reply_received ident sequence st
           else st)"

section \<open>Input\<close>

definition handle_ip :: "(net \<Rightarrow> net) \<Rightarrow> bytes \<Rightarrow> net \<Rightarrow> net option" where
  "handle_ip others p st =
     (if length p < 20 then Some st
      else
        let version = drop_bit 4 (p ! 0) AND 0x0F;
            ihl = unat (p ! 0 AND 0x0F) * 4;
            total_len = unat (from_be16 (p ! 2) (p ! 3));
            dst_ip = slice 16 4 p;
            hdr_copy = (take 20 p)[10 := 0, 11 := 0]
        in if version \<noteq> 4 then Some st
           else if length p < total_len then Some st
           else if dst_ip \<noteq> get_local_ip st \<and> dst_ip \<noteq> [255, 255, 255, 255] then Some st
           else if internet_checksum hdr_copy \<noteq> from_be16 (p ! 10) (p ! 11) then Some st
           else if ihl > total_len then None
           else if p ! 9 = 1
                then Some (handle_icmp others (slice 12 4 p) (slice ihl (total_len - ihl) p) st)
           else Some st)"

definition handle_ethernet :: "(net \<Rightarrow> net) \<Rightarrow> bytes \<Rightarrow> net \<Rightarrow> net option" where
  "handle_ethernet others frame st =
     (if length frame < 14 then Some st
      else
        let st1 = st\<lparr>rx_packets := rx_packets st + 1,
                     rx_bytes := rx_bytes st + of_nat (length frame)\<rparr>;
            dst_mac = take 6 frame;
            ether_type = from_be16 (frame ! 12) (frame ! 13);
            payload = drop 14 frame
        in if dst_mac \<noteq> replicate 6 0xFF \<and> dst_mac \<noteq> get_local_mac st1 then Some st1
           else if ether_type = 0x0806 then Some (handle_arp payload st1)
           else if ether_type = 0x0800 then handle_ip others payload st1
           else Some st1)"

text \<open>
  \<open>poll_recv\<close> takes one frame into a buffer of its own, \<open>poll_recv_static\<close> into \<open>NET_BUF\<close>,
  \<open>poll_recv_once\<close> drains the ring; the fuel of the drain is one more than the number of
  descriptors, enough while the device completes none meanwhile (\<open>drain_empties\<close>).
\<close>


primrec poll_drain :: "nat \<Rightarrow> (net \<Rightarrow> net) \<Rightarrow> bytes \<Rightarrow> net \<Rightarrow> net option" where
  "poll_drain 0 others buf st = Some st"
| "poll_drain (Suc n) others buf st =
     (case recv_packet buf (nic st) of
        (None, c) \<Rightarrow> Some (st\<lparr>nic := c\<rparr>)
      | (Some (len, buf1), c) \<Rightarrow>
          (case handle_ethernet others (take len buf1) (st\<lparr>nic := c\<rparr>) of
             None \<Rightarrow> None
           | Some st1 \<Rightarrow> poll_drain n others buf1 st1))"

definition poll_recv_once :: "(net \<Rightarrow> net) \<Rightarrow> net \<Rightarrow> net option" where
  "poll_recv_once others st =
     (if \<not> net_initialized st then Some st
      else poll_drain (RX_DESC_COUNT + 1) others (replicate 2048 0) st)"

definition poll_recv :: "(net \<Rightarrow> net) \<Rightarrow> net \<Rightarrow> net option" where
  "poll_recv others st =
     (if \<not> net_initialized st then Some st
      else
        case recv_packet (replicate 2048 0) (nic st) of
          (None, c) \<Rightarrow> Some (st\<lparr>nic := c\<rparr>)
        | (Some (len, buf), c) \<Rightarrow> handle_ethernet others (take len buf) (st\<lparr>nic := c\<rparr>))"

definition poll_recv_static :: "(net \<Rightarrow> net) \<Rightarrow> net \<Rightarrow> net option" where
  "poll_recv_static others st =
     (if \<not> net_initialized st then Some st
      else
        case recv_packet (net_buf st) (nic st) of
          (None, c) \<Rightarrow> Some (st\<lparr>nic := c\<rparr>)
        | (Some (len, buf), c) \<Rightarrow>
            handle_ethernet others (take len buf) (st\<lparr>nic := c, net_buf := buf\<rparr>))"


section \<open>The checksum over numbers\<close>

text \<open>The sum as a number, and end-around carry as arithmetic modulo 65535.\<close>

fun word_total :: "bytes \<Rightarrow> nat" where
  "word_total (a # b # rest) = unat a * 256 + unat b + word_total rest"
| "word_total [a] = unat a * 256"
| "word_total [] = 0"

definition ones_sum :: "nat \<Rightarrow> nat" where
  "ones_sum n = (if n = 0 then 0 else (n - 1) mod 65535 + 1)"

lemma unat_byte: "unat (b :: u8) < 256"
  using unsigned_less [of b] by simp

lemma word_of_bytes: "unat (push_bit 8 (ucast a) OR ucast b :: u32) = unat a * 256 + unat b" for a b :: u8
proof -
  have "(push_bit 8 (ucast a) OR ucast b :: u32) = push_bit 8 (ucast a) + ucast b"
    by (rule disjunctive_add_eq_or [symmetric]) (rule bit_word_eqI, auto simp: bit_simps dest: bit_imp_le_length)
  moreover have "unat (push_bit 8 (ucast a) + ucast b :: u32) = unat a * 256 + unat b"
    using unat_byte [of a] unat_byte [of b]
    by (simp add: push_bit_eq_mult unat_word_ariths unsigned_ucast_eq take_bit_nat_eq_self)
  ultimately show ?thesis by simp
qed

lemma word_total_le: "word_total data \<le> 65535 * ((length data + 1) div 2)"
proof (induction data rule: word_total.induct)
  case (1 a b rest)
  then show ?case using unat_byte [of a] unat_byte [of b] by simp
next
  case (2 a)
  then show ?case using unat_byte [of a] by simp
qed simp

lemma sum_words_total:
  "unat s + word_total data < 4294967296 \<Longrightarrow> unat (sum_words data s) = unat s + word_total data"
proof (induction data s rule: sum_words.induct)
  case (1 a b rest s)
  then have "unat (s + (push_bit 8 (ucast a) OR ucast b)) = unat s + (unat a * 256 + unat b)"
    by (simp add: unat_word_ariths word_of_bytes)
  then show ?case using 1 by simp
next
  case (2 a s)
  have "unat (push_bit 8 (ucast a) :: u32) = unat a * 256" using word_of_bytes [of a 0] by simp
  then show ?case using 2 by (simp add: unat_word_ariths)
qed simp

lemma ones_sum_step: "0 < n div 65536 \<Longrightarrow> ones_sum (n mod 65536 + n div 65536) = ones_sum n"
proof -
  assume d: "0 < n div 65536"
  let ?m = "n mod 65536 + n div 65536"
  have "n = n mod 65536 + 65536 * (n div 65536)" by simp
  then have "n - 1 = (?m - 1) + 65535 * (n div 65536)" using d by linarith
  then have "(n - 1) mod 65535 = (?m - 1) mod 65535" by (metis mod_mult_self2 mult.commute)
  then show ?thesis using d unfolding ones_sum_def by fastforce
qed

lemma fold_carry_sum: "unat (fold_carry s) = ones_sum (unat s)"
proof (induction s rule: fold_carry.induct)
  case (1 s)
  show ?case
  proof (cases "drop_bit 16 s = 0")
    case True
    then have "unat s < 65536" using unat_drop16 [of s] by (simp add: div_eq_0_iff)
    then have "ones_sum (unat s) = unat s" by (auto simp: ones_sum_def)
    then show ?thesis using True by (subst fold_carry.simps) simp
  next
    case False
    then have "0 < unat s div 65536"
      by (metis gr0I unat_drop16 unsigned_eq_0_iff)
    then show ?thesis
      using False 1 by (subst fold_carry.simps) (simp add: fold_carry_less(1) ones_sum_step)
  qed
qed

lemma ones_sum_le: "ones_sum n \<le> 65535"
proof -
  have "(n - 1) mod 65535 < 65535" by simp
  then show ?thesis unfolding ones_sum_def by (auto simp del: mod_less_divisor)
qed

lemma unat_not16: "unat (NOT w) = 65535 - unat w" for w :: u16
proof -
  have "unat (- 1 - w) = unat (- 1 :: u16) - unat w" by (rule unat_sub) simp
  moreover have "unat (- 1 :: u16) = 65535"
    by (simp add: unsigned_minus_1_eq_mask mask_eq_exp_minus_1)
  moreover have "NOT w = - 1 - w" by (simp add: not_eq_complement)
  ultimately show ?thesis by simp
qed

lemma unat_internet_checksum:
  assumes "length data \<le> 131070"
  shows "unat (internet_checksum data) = 65535 - ones_sum (word_total data)"
proof -
  have "word_total data < 4294967296"
    using word_total_le [of data] assms by (simp add: div_le_mono)
  then have f: "unat (fold_carry (sum_words data 0)) = ones_sum (word_total data)"
    by (simp add: fold_carry_sum sum_words_total)
  define s where "s = fold_carry (sum_words data 0)"
  have "internet_checksum data = NOT (ucast s)"
    unfolding internet_checksum_def s_def
    by (rule bit_word_eqI) (auto simp: bit_simps)
  moreover have "unat (ucast s :: u16) = ones_sum (word_total data)"
    using ones_sum_le [of "word_total data"] f [folded s_def]
    by (simp add: unsigned_ucast_eq take_bit_nat_eq_self)
  ultimately show ?thesis by (simp add: unat_not16)
qed


lemma word_total_append:
  "even (length pre) \<Longrightarrow> word_total (pre @ rest) = word_total pre + word_total rest"
  by (induction pre rule: word_total.induct) auto

lemma word_total_be16: "word_total (be16 w @ rest) = unat w + word_total rest"
proof -
  have "unat (ucast (drop_bit 8 w) :: u8) = unat w div 256"
    using unsigned_less [of w, where ?'a = nat]
    by (simp only: unsigned_ucast_eq unsigned_drop_bit_eq)
      (simp add: drop_bit_eq_div take_bit_nat_eq_self div_less_iff_less_mult)
  moreover have "unat (ucast w :: u8) = unat w mod 256"
    by (simp only: unsigned_ucast_eq) (simp add: take_bit_eq_mod)
  ultimately show ?thesis by (simp add: be16_def)
qed

lemma ones_sum_complement: "ones_sum (n + (65535 - ones_sum n)) = 65535"
proof (cases "n = 0")
  case False
  define q r where "q = (n - 1) div 65535" and "r = (n - 1) mod 65535"
  have "n - 1 = q * 65535 + r" unfolding q_def r_def by simp
  moreover have "r < 65535" unfolding r_def by simp
  moreover have "ones_sum n = r + 1" using False by (simp add: ones_sum_def r_def)
  moreover have "Suc q * 65535 = q * 65535 + 65535" by simp
  ultimately have "n + (65535 - ones_sum n) = Suc q * 65535" using False by linarith
  moreover have "ones_sum (Suc q * 65535) = 65535" for q
  proof -
    have "Suc q * 65535 - 1 = 65534 + q * 65535" by simp
    then show ?thesis unfolding ones_sum_def by (simp only: mod_mult_self1) simp
  qed
  ultimately show ?thesis by simp
qed (simp add: ones_sum_def)

lemma ones_sum_eq:
  assumes "ones_sum (s + a) = ones_sum (s + b)" "a < b" "b \<le> 65535"
  shows "a = 0 \<and> b = 65535"
proof -
  have "s + b - 1 - (s + a - 1) \<le> 65535" "0 < s + b" using assms(2,3) by auto
  moreover have "s + a \<noteq> 0"
    using assms(1) \<open>0 < s + b\<close> by (auto simp: ones_sum_def split: if_splits)
  moreover from this have "(s + a - 1) mod 65535 = (s + b - 1) mod 65535"
    using assms(1) \<open>0 < s + b\<close> unfolding ones_sum_def by (metis add_right_cancel less_irrefl)
  then have "65535 dvd (s + b - 1) - (s + a - 1)"
    by (metis mod_eq_dvd_iff_nat assms(2) diff_le_mono less_imp_le nat_add_left_cancel_le)
  ultimately have "65535 dvd b - a" "b - a \<le> 65535" using assms by auto
  then have "b - a = 65535" using assms(2) by (auto elim: dvdE)
  then show ?thesis using assms(2,3) by linarith
qed

section \<open>The rings\<close>

definition nic_ok :: "e1000 \<Rightarrow> bool" where
  "nic_ok c \<longleftrightarrow>
     length (tx_descs c) = TX_DESC_COUNT \<and> length (tx_buffers c) = TX_DESC_COUNT \<and>
     list_all (\<lambda>b. length b = RX_BUFFER_SIZE) (tx_buffers c) \<and> tx_tail c < TX_DESC_COUNT \<and>
     length (rx_descs c) = RX_DESC_COUNT \<and> length (rx_buffers c) = RX_DESC_COUNT \<and>
     list_all (\<lambda>b. length b = RX_BUFFER_SIZE) (rx_buffers c) \<and> rx_head c < RX_DESC_COUNT"

text \<open>The frame of the descriptor before the tail: what the device was given last.\<close>

definition queued :: "e1000 \<Rightarrow> bytes" where
  "queued c =
     (let slot = (tx_tail c + (TX_DESC_COUNT - 1)) mod TX_DESC_COUNT
      in take (unat (tx_length (tx_descs c ! slot))) (tx_buffers c ! slot))"

lemma send_packet_ok:
  assumes "nic_ok c"
  obtains c' where "send_packet data (Some c) = (True, Some c')" "nic_ok c'"
    "queued c' = take RX_BUFFER_SIZE data" "nic_mac c' = nic_mac c"
proof -
  let ?n = "min (length data) RX_BUFFER_SIZE"
  obtain c' where c': "send_packet data (Some c) = (True, Some c')"
    by (simp add: send_packet_def Let_def)
  have len: "length (tx_buffers c ! tx_tail c) = RX_BUFFER_SIZE"
    using assms by (simp add: nic_ok_def list_all_length)
  have "tx_tail c < 8" using assms by (simp add: nic_ok_def TX_DESC_COUNT_def)
  then have slot: "((tx_tail c + 1) mod TX_DESC_COUNT + (TX_DESC_COUNT - 1)) mod TX_DESC_COUNT = tx_tail c"
    by (simp add: TX_DESC_COUNT_def mod_simps)
  have n: "unat (of_nat ?n :: u16) = ?n"
    by (simp add: unat_of_nat RX_BUFFER_SIZE_def)
  have copy: "take ?n (copy_into ?n data buf) = take RX_BUFFER_SIZE data" for buf
    by (simp add: copy_into_def min_def)
  have copy_len: "length (copy_into ?n data (tx_buffers c ! tx_tail c)) = RX_BUFFER_SIZE"
    by (simp add: copy_into_def len)
  have "nic_ok c'"
    using assms c' copy_len
    by (auto simp: send_packet_def nic_ok_def Let_def list_all_length nth_list_update TX_DESC_COUNT_def)
  moreover have "queued c' = take RX_BUFFER_SIZE data"
    using assms c' slot n copy by (auto simp: send_packet_def queued_def nic_ok_def Let_def)
  moreover have "nic_mac c' = nic_mac c" using c' by (auto simp: send_packet_def Let_def)
  ultimately show thesis using that c' by blast
qed

lemma recv_packet_ok: "nic_ok c \<Longrightarrow> recv_packet buf (Some c) = (r, Some c') \<Longrightarrow> nic_ok c'"
  by (auto simp: recv_packet_def nic_ok_def Let_def RX_DESC_COUNT_def split: if_splits)


section \<open>Packets\<close>

lemma four_bytes:
  assumes "length ip = 4" obtains a b c d where "ip = [a, b, c, d]"
  using assms by (auto simp: length_Suc_conv numeral_eq_Suc)

lemma length_ip_header:
  "length src = 4 \<Longrightarrow> length dst = 4 \<Longrightarrow> length (ip_header len pr ck src dst) = 20"
  by (simp add: ip_header_def)

lemma ip_header_fields:
  assumes "length src = 4" "length dst = 4" "p = ip_header len pr ck src dst @ payload"
  shows "p ! 0 = 0x45" "from_be16 (p ! 2) (p ! 3) = len" "p ! 9 = pr"
    "from_be16 (p ! 10) (p ! 11) = ck" "slice 12 4 p = src" "slice 16 4 p = dst"
    "(take 20 p)[10 := 0, 11 := 0] = ip_header len pr 0 src dst" "drop 20 p = payload"
proof -
  obtain a b c d where s: "src = [a, b, c, d]" using assms(1) by (rule four_bytes)
  obtain e f g h where t: "dst = [e, f, g, h]" using assms(2) by (rule four_bytes)
  have be: "from_be16 (ucast (drop_bit 8 w)) (ucast w) = w" for w
    using from_be16_be16 [of w] by (simp add: be16_def)
  note simps = assms(3) s t ip_header_def be16_def le16_def slice_def be
  show "p ! 0 = 0x45" "from_be16 (p ! 2) (p ! 3) = len" "p ! 9 = pr"
    "from_be16 (p ! 10) (p ! 11) = ck" "slice 12 4 p = src" "slice 16 4 p = dst"
    "(take 20 p)[10 := 0, 11 := 0] = ip_header len pr 0 src dst" "drop 20 p = payload"
    by (simp_all add: simps)
qed

lemma icmp_fields:
  fixes ty ck ident sq payload
  defines "d \<equiv> icmp_message ty ck ident sq payload"
  shows "length d = 8 + length payload" "d ! 0 = ty" "from_be16 (d ! 4) (d ! 5) = ident"
    "from_be16 (d ! 6) (d ! 7) = sq" "drop 8 d = payload"
proof -
  have be: "from_be16 (ucast (drop_bit 8 w)) (ucast w) = w" for w
    using from_be16_be16 [of w] by (simp add: be16_def)
  show "length d = 8 + length payload" "d ! 0 = ty" "from_be16 (d ! 4) (d ! 5) = ident"
    "from_be16 (d ! 6) (d ! 7) = sq" "drop 8 d = payload"
    by (simp_all add: d_def icmp_message_def be16_def be)
qed

text \<open>A packet as \<open>send_ip\<close> builds it passes the checks of \<open>handle_ip\<close> at its destination.\<close>

definition ip_packet :: "u8 \<Rightarrow> bytes \<Rightarrow> bytes \<Rightarrow> bytes \<Rightarrow> bytes" where
  "ip_packet protocol src dst payload =
     (let total_len = of_nat (20 + length payload)
      in ip_header total_len protocol (internet_checksum (ip_header total_len protocol 0 src dst)) src dst
           @ payload)"

lemma handle_ip_packet:
  assumes "length src = 4" "length dst = 4" "dst = get_local_ip st" "length payload \<le> 65515"
  shows "handle_ip others (ip_packet 1 src dst payload) st = Some (handle_icmp others src payload st)"
proof -
  define tot :: u16 where "tot = of_nat (20 + length payload)"
  define ck where "ck = internet_checksum (ip_header tot 1 0 src dst)"
  define p where "p = ip_header tot 1 ck src dst @ payload"
  note f = ip_header_fields [OF assms(1,2) p_def]
  have p: "ip_packet 1 src dst payload = p"
    by (simp only: ip_packet_def p_def ck_def tot_def Let_def)
  have tot: "unat tot = 20 + length payload"
    using assms(4) unfolding tot_def unat_of_nat by simp
  have len: "length p = 20 + length payload"
    by (simp add: p_def length_ip_header [OF assms(1,2)])
  have v: "drop_bit 4 (0x45 :: u8) AND 0x0F = 4" "unat ((0x45 :: u8) AND 0x0F) * 4 = 20"
    by (simp_all add: drop_bit_eq_div)
  have s: "slice 20 (length payload) p = payload"
    by (simp add: slice_def f(8))
  show ?thesis
    unfolding p handle_ip_def Let_def f(1-7) v tot len
    using s by (simp add: assms(3) ck_def)
qed

definition next_hop :: "bytes \<Rightarrow> net \<Rightarrow> bytes" where
  "next_hop dst_ip st =
     (if is_same_subnet dst_ip (get_local_ip st) (get_subnet_mask st) then dst_ip
      else get_gateway st)"

text \<open>An interface that has been initialised over a driver in its normal state.\<close>

definition net_ready :: "net \<Rightarrow> bool" where
  "net_ready st \<longleftrightarrow>
     iface st \<noteq> None \<and> length (get_local_mac st) = 6 \<and> length (get_local_ip st) = 4 \<and>
     (case nic st of None \<Rightarrow> False | Some c \<Rightarrow> nic_ok c)"

definition wire :: "net \<Rightarrow> bytes" where
  "wire st = (case nic st of None \<Rightarrow> [] | Some c \<Rightarrow> queued c)"

lemma send_ethernet_ready:
  assumes "net_ready st"
  obtains st' where "send_ethernet dst et payload st = st'" "net_ready st'"
    "wire st' = take RX_BUFFER_SIZE (dst @ get_local_mac st @ be16 et @ payload)"
    "iface st' = iface st" "arp_table st' = arp_table st" "arp_pending st' = arp_pending st"
    "tx_packets st' = tx_packets st + 1"
proof -
  obtain c where c: "nic st = Some c" "nic_ok c"
    using assms by (auto simp: net_ready_def split: option.splits)
  let ?frame = "dst @ get_local_mac st @ be16 et @ payload"
  obtain c' where c': "send_packet ?frame (Some c) = (True, Some c')" "nic_ok c'"
    "queued c' = take RX_BUFFER_SIZE ?frame"
    using send_packet_ok [OF c(2)] by metis
  show thesis
    by (rule that [OF refl])
      (use assms c c' in \<open>simp_all add: send_ethernet_def net_ready_def wire_def get_local_mac_def get_local_ip_def\<close>)
qed


lemma send_ip_ready:
  assumes "net_ready st" "table_lookup (next_hop dst st) (arp_table st) = Some m"
    "length m = 6" "length dst = 4" "length payload \<le> 2014"
  obtains st' where "send_ip others dst pr payload st = st'" "net_ready st'"
    "wire st' = m @ get_local_mac st @ be16 0x0800 @ ip_packet pr (get_local_ip st) dst payload"
    "iface st' = iface st" "arp_table st' = arp_table st"
proof -
  let ?packet = "ip_packet pr (get_local_ip st) dst payload"
  have "length (m @ get_local_mac st @ be16 0x0800 @ ?packet) \<le> RX_BUFFER_SIZE"
    using assms by (simp add: net_ready_def ip_packet_def Let_def length_ip_header RX_BUFFER_SIZE_def)
  then have t: "take RX_BUFFER_SIZE (m @ get_local_mac st @ be16 0x0800 @ ?packet)
      = m @ get_local_mac st @ be16 0x0800 @ ?packet" by (rule take_all)
  have "send_ip others dst pr payload st = send_ethernet m 0x0800 ?packet st"
    using assms(2) by (simp add: send_ip_def arp_resolve_def next_hop_def ip_packet_def Let_def)
  then show thesis
    using send_ethernet_ready [OF assms(1), of m "0x0800" ?packet] that t by metis
qed

text \<open>A frame for this host with an IPv4 packet for this host reaches \<open>handle_icmp\<close>.\<close>

lemma handle_ethernet_icmp:
  assumes "net_ready st" "length src_mac = 6" "length src = 4" "length payload \<le> 65515"
  obtains st1 where "net_ready st1" "iface st1 = iface st" "arp_table st1 = arp_table st"
    "handle_ethernet others (get_local_mac st @ src_mac @ be16 0x0800 @
       ip_packet 1 src (get_local_ip st) payload) st = Some (handle_icmp others src payload st1)"
proof -
  let ?p = "ip_packet 1 src (get_local_ip st) payload"
  let ?frame = "get_local_mac st @ src_mac @ be16 0x0800 @ ?p"
  define st1 where "st1 = st\<lparr>rx_packets := rx_packets st + 1,
    rx_bytes := rx_bytes st + of_nat (length ?frame)\<rparr>"
  have same: "get_local_mac st1 = get_local_mac st" "get_local_ip st1 = get_local_ip st"
    by (simp_all add: st1_def get_local_mac_def get_local_ip_def)
  have l: "length (get_local_mac st) = 6" "length (get_local_ip st) = 4"
    using assms(1) by (simp_all add: net_ready_def)
  then have f: "\<not> length ?frame < 14" "take 6 ?frame = get_local_mac st"
    "from_be16 (?frame ! 12) (?frame ! 13) = 0x0800" "drop 14 ?frame = ?p"
    using assms(2) by (simp_all add: nth_append be16_def from_be16_def drop_bit_eq_div push_bit_eq_mult)
  have "handle_ethernet others ?frame st = handle_ip others ?p st1"
    unfolding handle_ethernet_def st1_def [symmetric] Let_def f same using f(1) by simp
  moreover have "handle_ip others ?p st1 = Some (handle_icmp others src payload st1)"
    by (rule handle_ip_packet [OF assms(3) l(2) same(2) [symmetric] assms(4)])
  moreover have k: "iface st1 = iface st" "arp_table st1 = arp_table st" "nic st1 = nic st"
    by (simp_all add: st1_def)
  moreover from this same have "net_ready st1" using assms(1) by (simp add: net_ready_def)
  ultimately show thesis by (intro that [of st1]) simp_all
qed


section \<open>ARP exchange\<close>

text \<open>The contract of a table of addresses, and what follows from it alone.\<close>

locale address_table =
  fixes look :: "'k \<Rightarrow> 't \<Rightarrow> 'v option"
    and put :: "'k \<Rightarrow> 'v \<Rightarrow> 't \<Rightarrow> 't"
  assumes look_put: "look k (put k' v t) = (if k = k' then Some v else look k t)"
begin

lemma known_stays: "look k t \<noteq> None \<Longrightarrow> look k (put k' v t) \<noteq> None"
  by (simp add: look_put)

lemma last_answer: "look k (fold (\<lambda>(k, v). put k v) answers t)
    = (case map_of (rev answers) k of None \<Rightarrow> look k t | Some v \<Rightarrow> Some v)"
proof (induction answers arbitrary: t)
  case (Cons a answers)
  then show ?case
    by (cases a) (auto simp: look_put map_add_def split: option.splits)
qed simp

end

lemma find_update_first:
  "find (\<lambda>e. a_ip e = ip) (update_first (\<lambda>e. a_ip e = ip') (\<lambda>e. e\<lparr>a_mac := m\<rparr>) t) =
     (if ip = ip' then map_option (\<lambda>e. e\<lparr>a_mac := m\<rparr>) (find (\<lambda>e. a_ip e = ip) t)
      else find (\<lambda>e. a_ip e = ip) t)"
  by (induction t) auto

lemma find_none: "list_ex (\<lambda>e. a_ip e = ip) t \<longleftrightarrow> find (\<lambda>e. a_ip e = ip) t \<noteq> None"
  by (induction t) auto

interpretation arp: address_table table_lookup table_add
proof
  fix k k' v and t :: "arp_entry list"
  show "table_lookup k (table_add k' v t) = (if k = k' then Some v else table_lookup k t)"
    by (auto simp: table_lookup_def table_add_def find_update_first find_none find_append
        split: option.splits)
qed

lemma arp_fields:
  assumes "length smac = 6" "length sip = 4" "length tmac = 6" "length tip = 4"
    "p = arp_packet opc smac sip tmac tip"
  shows "length p = 28" "from_be16 (p ! 6) (p ! 7) = opc" "slice 8 6 p = smac" "slice 14 4 p = sip"
    "slice 24 4 p = tip"
proof -
  have be: "from_be16 (ucast (drop_bit 8 w)) (ucast w) = w" for w
    using from_be16_be16 [of w] by (simp add: be16_def)
  show "length p = 28" "from_be16 (p ! 6) (p ! 7) = opc" "slice 8 6 p = smac" "slice 14 4 p = sip"
    "slice 24 4 p = tip"
    using assms by (simp_all add: arp_packet_def be16_def be slice_def)
qed

text \<open>
  With nobody else taking frames from the driver, an address that is not in the table is never
  resolved: the loop of \<open>resolve\<close> does not poll, so the answer stays in the receive ring.
\<close>

lemma resolve_alone:
  assumes "table_lookup ip (arp_table st) = None"
  shows "fst (arp_resolve id ip m src st) = None"
  using assms by (simp add: arp_resolve_def Let_def)

section \<open>Dotted addresses\<close>

lemma parse_u8_decimal: "n < 256 \<Longrightarrow> parse_u8 (decimal n) = Some (of_nat n)"
proof -
  assume n: "n < 256"
  have "hd (decimal n) \<noteq> CHR ''+''"
    using decimal_digits [of n] decimal_nonempty [of n]
    by (cases "decimal n") (auto simp: is_digit_def)
  then show ?thesis
    using n decimal_digits [of n] by (simp add: parse_u8_def digits_value_decimal)
qed

lemma split_on_prefix: "c \<notin> set p \<Longrightarrow> split_on c (p @ c # rest) = p # split_on c rest"
  by (induction p) auto

lemma split_on_one: "c \<notin> set p \<Longrightarrow> split_on c p = [p]"
  by (induction p) auto

lemma decimal_no_dot: "CHR ''.'' \<notin> set (decimal n)"
  using decimal_digits [of n] by (auto simp: list_all_iff is_digit_def)

lemma parse_ip_to_str: "length ip = 4 \<Longrightarrow> parse_ip (ip_to_str ip) = ip"
proof -
  assume "length ip = 4"
  then obtain a b c d where ip: "ip = [a, b, c, d]" by (rule four_bytes)
  have "split_on CHR ''.'' (ip_to_str ip)
      = [decimal (unat a), decimal (unat b), decimal (unat c), decimal (unat d)]"
    by (simp add: ip ip_to_str_def split_on_prefix split_on_one decimal_no_dot)
  then show ?thesis
    using unat_byte by (simp add: parse_ip_def parse_u8_decimal ip)
qed


section \<open>Scenarios\<close>

lemma handle_ethernet_arp:
  assumes "net_ready st" "dst = BROADCAST_MAC \<or> dst = get_local_mac st" "length src_mac = 6"
  obtains st1 where "net_ready st1" "iface st1 = iface st" "arp_table st1 = arp_table st"
    "handle_ethernet others (dst @ src_mac @ be16 0x0806 @ p) st = Some (handle_arp p st1)"
proof -
  let ?frame = "dst @ src_mac @ be16 0x0806 @ p"
  define st1 where "st1 = st\<lparr>rx_packets := rx_packets st + 1,
    rx_bytes := rx_bytes st + of_nat (length ?frame)\<rparr>"
  have same: "get_local_mac st1 = get_local_mac st" "get_local_ip st1 = get_local_ip st"
    by (simp_all add: st1_def get_local_mac_def get_local_ip_def)
  have "length dst = 6"
    using assms(1,2) by (auto simp: net_ready_def BROADCAST_MAC_def)
  then have f: "\<not> length ?frame < 14" "take 6 ?frame = dst"
    "from_be16 (?frame ! 12) (?frame ! 13) = 0x0806" "drop 14 ?frame = p"
    using assms(3) by (simp_all add: nth_append be16_def from_be16_def drop_bit_eq_div push_bit_eq_mult)
  have "handle_ethernet others ?frame st = Some (handle_arp p st1)"
    unfolding handle_ethernet_def st1_def [symmetric] Let_def f same
    using f(1) assms(2) by (auto simp: BROADCAST_MAC_def)
  moreover have k: "iface st1 = iface st" "arp_table st1 = arp_table st" "nic st1 = nic st"
    by (simp_all add: st1_def)
  moreover from this same have "net_ready st1" using assms(1) by (simp add: net_ready_def)
  ultimately show thesis by (intro that [of st1]) simp_all
qed

lemma local_cong:
  "iface st' = iface st \<Longrightarrow> get_local_mac st' = get_local_mac st"
  "iface st' = iface st \<Longrightarrow> get_local_ip st' = get_local_ip st"
  "iface st' = iface st \<Longrightarrow> get_subnet_mask st' = get_subnet_mask st"
  "iface st' = iface st \<Longrightarrow> get_gateway st' = get_gateway st"
  "iface st' = iface st \<Longrightarrow> next_hop dst st' = next_hop dst st"
  by (simp_all add: get_local_mac_def get_local_ip_def get_subnet_mask_def get_gateway_def next_hop_def)

lemma ready_lengths:
  "net_ready st \<Longrightarrow> length (get_local_mac st) = 6" "net_ready st \<Longrightarrow> length (get_local_ip st) = 4"
  by (simp_all add: net_ready_def)

lemma short_frame: "length f \<le> RX_BUFFER_SIZE \<Longrightarrow> take RX_BUFFER_SIZE f = f"
  by simp

lemma arp_frame_wire:
  assumes "net_ready st" "length dst = 6" "length p = 28"
  obtains st' where "send_ethernet dst 0x0806 p st = st'" "net_ready st'"
    "wire st' = dst @ get_local_mac st @ be16 0x0806 @ p" "iface st' = iface st"
    "arp_table st' = arp_table st"
proof -
  have "length (dst @ get_local_mac st @ be16 0x0806 @ p) \<le> RX_BUFFER_SIZE"
    using assms by (simp add: RX_BUFFER_SIZE_def ready_lengths)
  then show thesis
    using send_ethernet_ready [OF assms(1), of dst "0x0806" p] short_frame that by metis
qed

lemma handle_arp_request:
  assumes "net_ready st" "length smac = 6" "length sip = 4" "length tmac = 6"
  obtains st' where "handle_arp (arp_packet 1 smac sip tmac (get_local_ip st)) st = st'"
    "net_ready st'" "iface st' = iface st" "table_lookup sip (arp_table st') = Some smac"
    "wire st' = smac @ get_local_mac st @ be16 0x0806
       @ arp_packet 2 (get_local_mac st) (get_local_ip st) smac sip"
proof -
  let ?p = "arp_packet 1 smac sip tmac (get_local_ip st)"
  let ?reply = "arp_packet 2 (get_local_mac st) (get_local_ip st) smac sip"
  define st1 where "st1 = arp_add_entry sip smac st"
  have i: "iface st1 = iface st" "nic st1 = nic st" by (simp_all add: st1_def arp_add_entry_def)
  then have r: "net_ready st1"
    using assms(1) by (simp add: net_ready_def local_cong(1,2) [OF i(1)])
  note f = arp_fields [OF assms(2,3,4) ready_lengths(2) [OF assms(1)] refl, of 1]
  have "handle_arp ?p st = send_ethernet smac 0x0806 ?reply st1"
    unfolding handle_arp_def Let_def f by (simp add: send_arp_reply_def st1_def)
  moreover have "length ?reply = 28"
    using arp_fields(1) [OF ready_lengths [OF assms(1)] assms(2,3) refl] .
  moreover have "table_lookup sip (arp_table st1) = Some smac"
    by (simp add: st1_def arp_add_entry_def arp.look_put)
  ultimately show thesis
    using arp_frame_wire [OF r assms(2), of ?reply] that local_cong(1) [OF i(1)] i(1) by metis
qed

lemma handle_arp_reply:
  assumes "net_ready st" "length smac = 6" "length sip = 4" "length tmac = 6" "length tip = 4"
  obtains st' where "handle_arp (arp_packet 2 smac sip tmac tip) st = st'"
    "net_ready st'" "iface st' = iface st" "table_lookup sip (arp_table st') = Some smac"
proof -
  note f = arp_fields [OF assms(2-5) refl, of 2]
  let ?st' = "handle_arp (arp_packet 2 smac sip tmac tip) st"
  have k: "iface ?st' = iface st" "nic ?st' = nic st" "arp_table ?st' = table_add sip smac (arp_table st)"
    unfolding handle_arp_def Let_def f by (simp_all add: arp_add_entry_def)
  then have "net_ready ?st'"
    using assms(1) by (simp add: net_ready_def local_cong(1,2) [OF k(1)])
  then show thesis
    using k by (intro that [of ?st']) (simp_all add: arp.look_put)
qed


lemma request_answered:
  assumes "net_ready st" "length src = 4" "length payload \<le> 2006" "length m = 6"
    "table_lookup (next_hop src st) (arp_table st) = Some m"
  obtains st' where
    "handle_icmp others src (icmp_message 8 ck ident sq payload) st = st'" "net_ready st'" "iface st' = iface st"
    "wire st' = m @ get_local_mac st @ be16 0x0800 @ ip_packet 1 (get_local_ip st) src
       (icmp_message 0 (internet_checksum (icmp_message 0 0 ident sq payload)) ident sq payload)"
proof -
  let ?reply = "icmp_message 0 (internet_checksum (icmp_message 0 0 ident sq payload)) ident sq payload"
  have "handle_icmp others src (icmp_message 8 ck ident sq payload) st = send_ip others src 1 ?reply st"
    unfolding handle_icmp_def Let_def icmp_fields by (simp add: send_echo_reply_def send_echo_def)
  moreover have "length ?reply \<le> 2014" using assms(3) by (simp add: icmp_fields(1))
  ultimately show thesis
    using send_ip_ready [OF assms(1,5,4,2), of ?reply others 1] that by metis
qed

text \<open>Sender and receiver of an echo exchange whose tables know each other.\<close>

lemma ping_known:
  assumes "net_ready A" "net_ready B" "length payload \<le> 2006"
    "table_lookup (next_hop (get_local_ip B) A) (arp_table A) = Some (get_local_mac B)"
    "table_lookup (next_hop (get_local_ip A) B) (arp_table B) = Some (get_local_mac A)"
  shows "\<exists>B' A'. let A1 = send_echo_request o1 (get_local_ip B) ident sq payload A in
    handle_ethernet o2 (wire A1) B = Some B' \<and> handle_ethernet o3 (wire B') A1 = Some A' \<and>
    fst (icmp_pending_reply ident sq A')"
proof -
  note la = ready_lengths [OF assms(1)] and lb = ready_lengths [OF assms(2)]
  let ?request = "icmp_message 8 (internet_checksum (icmp_message 8 0 ident sq payload)) ident sq payload"
  let ?reply = "icmp_message 0 (internet_checksum (icmp_message 0 0 ident sq payload)) ident sq payload"
  have short: "length ?request \<le> 2014" "length ?request \<le> 65515" "length ?reply \<le> 65515"
    using assms(3) by (simp_all add: icmp_fields(1))
  obtain A1 where A1: "send_echo_request o1 (get_local_ip B) ident sq payload A = A1" "net_ready A1"
    "wire A1 = get_local_mac B @ get_local_mac A @ be16 0x0800
       @ ip_packet 1 (get_local_ip A) (get_local_ip B) ?request" "iface A1 = iface A"
    using send_ip_ready [OF assms(1,4) lb short(1), of o1 1]
    unfolding send_echo_request_def send_echo_def by metis
  obtain B1 where B1: "net_ready B1" "iface B1 = iface B" "arp_table B1 = arp_table B"
    "handle_ethernet o2 (wire A1) B = Some (handle_icmp o2 (get_local_ip A) ?request B1)"
    unfolding A1(3) by (rule handle_ethernet_icmp [OF assms(2) la short(2)])
  have hop: "table_lookup (next_hop (get_local_ip A) B1) (arp_table B1) = Some (get_local_mac A)"
    using assms(5) by (simp add: B1(3) local_cong(5) [OF B1(2)])
  obtain B' where B': "handle_icmp o2 (get_local_ip A) ?request B1 = B'"
    "wire B' = get_local_mac A @ get_local_mac B @ be16 0x0800
       @ ip_packet 1 (get_local_ip B) (get_local_ip A) ?reply"
    using request_answered [OF B1(1) la(2) assms(3) la(1) hop]
    unfolding local_cong(1,2) [OF B1(2)] by metis
  obtain A2 where A2: "handle_ethernet o3 (wire B') A1 = Some (handle_icmp o3 (get_local_ip B) ?reply A2)"
    unfolding B'(2) local_cong(1,2) [OF A1(4), symmetric]
    by (rule handle_ethernet_icmp [OF A1(2) lb short(3)])
  have "fst (icmp_pending_reply ident sq (handle_icmp o3 (get_local_ip B) ?reply A2))"
    unfolding handle_icmp_def Let_def icmp_fields
    by (simp add: set_reply_received_def icmp_pending_reply_def)
  then show ?thesis
    using A2 B1(4) by (simp add: A1(1) B'(1))
qed

text \<open>An ARP answer that arrives while its address is waited for.\<close>

lemma awaited_reply:
  assumes "net_ready st" "arp_pending st = Some sip" "length src = 6" "length smac = 6" "length sip = 4" "length tmac = 6" "length tip = 4"
  obtains st' where "handle_ethernet others (get_local_mac st @ src @ be16 0x0806 @ arp_packet 2 smac sip tmac tip) st = Some st'"
    "arp_resolved st' = Some smac" "net_ready st'" "iface st' = iface st" "table_lookup sip (arp_table st') = Some smac"
proof -
  let ?p = "arp_packet 2 smac sip tmac tip"
  let ?frame = "get_local_mac st @ src @ be16 0x0806 @ ?p"
  define st1 where "st1 = st\<lparr>rx_packets := rx_packets st + 1, rx_bytes := rx_bytes st + of_nat (length ?frame)\<rparr>"
  have i: "iface st1 = iface st" "nic st1 = nic st" "arp_pending st1 = Some sip" using assms(2) by (simp_all add: st1_def)
  have r: "net_ready st1" using assms(1) i(1,2) by (simp add: net_ready_def local_cong(1,2) [OF i(1)])
  have f: "\<not> length ?frame < 14" "take 6 ?frame = get_local_mac st"
    "from_be16 (?frame ! 12) (?frame ! 13) = 0x0806" "drop 14 ?frame = ?p"
    using assms(3) ready_lengths(1) [OF assms(1)]
    by (simp_all add: nth_append be16_def from_be16_def drop_bit_eq_div push_bit_eq_mult)
  have e: "handle_ethernet others ?frame st = Some (handle_arp ?p st1)"
    unfolding handle_ethernet_def st1_def [symmetric] Let_def f local_cong(1) [OF i(1)] using f(1) by simp
  have a: "arp_resolved (handle_arp ?p st1) = Some smac"
    unfolding handle_arp_def Let_def arp_fields [OF assms(4-7) refl] using i(3) by (simp add: arp_add_entry_def)
  obtain st' where "handle_arp ?p st1 = st'" "net_ready st'" "iface st' = iface st1" "table_lookup sip (arp_table st') = Some smac"
    using handle_arp_reply [OF r assms(4-7)] by metis
  then show thesis using e a i(1) that by metis
qed

text \<open>The first echo request to an address, with and without an answer in the time \<open>arp_resolve\<close> waits.\<close>

lemma send_ip_hop:
  "send_ip others dst pr p st =
     (case arp_resolve others (next_hop dst st) (get_local_mac st) (get_local_ip st) st of
        (Some m, st1) \<Rightarrow>
          send_ethernet m 0x0800
            (let n = of_nat (20 + length p)
             in ip_header n pr (internet_checksum (ip_header n pr 0 (get_local_ip st) dst)) (get_local_ip st) dst @ p) st1
      | (None, st1) \<Rightarrow> st1)"
  by (simp only: send_ip_def next_hop_def Let_def)

lemma echo_resolved:
  assumes "arp_resolve o1 (next_hop dst st) (get_local_mac st) (get_local_ip st) st = (Some m, st1)"
    "iface st1 = iface st" "table_lookup (next_hop dst st) (arp_table st1) = Some m"
  shows "send_echo_request o1 dst ident sq payload st = send_echo_request o2 dst ident sq payload st1"
proof -
  have "arp_resolve o2 (next_hop dst st1) (get_local_mac st1) (get_local_ip st1) st1 = (Some m, st1)"
    using assms(3) by (simp add: arp_resolve_def local_cong(5) [OF assms(2)])
  then show ?thesis
    using assms(1) by (simp add: send_echo_request_def send_echo_def send_ip_hop local_cong(1,2,5) [OF assms(2)])
qed

lemma echo_unresolved:
  assumes "table_lookup (next_hop dst st) (arp_table st) = None"
  shows "send_echo_request (\<lambda>s. s) dst ident sq payload st =
    (send_arp_request (next_hop dst st) (get_local_mac st) (get_local_ip st) st)\<lparr>arp_pending := None, arp_resolved := None\<rparr>"
  using assms by (simp add: send_echo_request_def send_echo_def send_ip_hop arp_resolve_def Let_def)

text \<open>A frame of 34 bytes whose packet claims to be shorter than its own header.\<close>

definition short_packet :: "bytes \<Rightarrow> bytes \<Rightarrow> bytes" where
  "short_packet m ip =
     m @ replicate 6 0 @ be16 0x0800
       @ ip_header 0 1 (internet_checksum (ip_header 0 1 0 [0, 0, 0, 0] ip)) [0, 0, 0, 0] ip"

definition accepted :: "bytes \<Rightarrow> net \<Rightarrow> bool" where
  "accepted p st \<longleftrightarrow>
     20 \<le> length p \<and> drop_bit 4 (p ! 0) AND 0x0F = 4 \<and>
     unat (from_be16 (p ! 2) (p ! 3)) \<le> length p \<and>
     (slice 16 4 p = get_local_ip st \<or> slice 16 4 p = [255, 255, 255, 255]) \<and>
     internet_checksum ((take 20 p)[10 := 0, 11 := 0]) = from_be16 (p ! 10) (p ! 11)"

lemma handle_ip_panics:
  "handle_ip others p st = None \<longleftrightarrow>
     accepted p st \<and> unat (from_be16 (p ! 2) (p ! 3)) < unat (p ! 0 AND 0x0F) * 4"
  unfolding handle_ip_def accepted_def Let_def by (simp add: not_less)

lemma accepted_cong: "iface st' = iface st \<Longrightarrow> accepted p st' = accepted p st"
  unfolding accepted_def using local_cong(2) [of st' st] by simp


lemma unat_max16: "unat x = 65535 \<Longrightarrow> x = 0xFFFF" for x :: u16
  by (simp add: word_unat_eq_iff)

section \<open>Draining the receive ring\<close>

definition rx_ring :: "net \<Rightarrow> (rx_desc list \<times> nat) option" where
  "rx_ring st = map_option (\<lambda>c. (rx_descs c, rx_head c)) (nic st)"

definition completed :: "rx_desc list \<Rightarrow> nat" where
  "completed ds = length (filter (\<lambda>d. rx_status d AND 1 \<noteq> 0) ds)"

definition drained :: "net \<Rightarrow> bool" where
  "drained st \<longleftrightarrow>
     (case rx_ring st of None \<Rightarrow> True | Some (ds, i) \<Rightarrow> rx_status (ds ! i) AND 1 = 0)"

lemma send_ethernet_ring: "rx_ring (send_ethernet dst et p st) = rx_ring st"
  by (auto simp: send_ethernet_def send_packet_def rx_ring_def Let_def split: option.split)

lemma handle_ethernet_ring:
  assumes others: "\<And>s. rx_ring (others s) = rx_ring s"
    and "handle_ethernet others frame st = Some st'"
  shows "rx_ring st' = rx_ring st"
proof -
  have r: "rx_ring (s\<lparr>arp_pending := a\<rparr>) = rx_ring s" "rx_ring (s\<lparr>arp_resolved := b\<rparr>) = rx_ring s"
    "rx_ring (s\<lparr>arp_table := t\<rparr>) = rx_ring s" for s a b t
    by (simp_all add: rx_ring_def)
  have resolve: "rx_ring s' = rx_ring s" if "arp_resolve others ip m src s = (x, s')" for ip m src s x s'
    using that unfolding arp_resolve_def Let_def send_arp_request_def
    by (auto simp: r others send_ethernet_ring split: option.splits)
  have ip: "rx_ring (send_ip others dst pr p s) = rx_ring s" for dst pr p s
    unfolding send_ip_def Let_def
    by (auto simp: send_ethernet_ring dest: resolve split: prod.splits option.splits)
  have icmp: "rx_ring (handle_icmp others src p s) = rx_ring s" for src p s
    unfolding handle_icmp_def Let_def send_echo_reply_def send_echo_def set_reply_received_def
    by (simp add: ip) (simp add: rx_ring_def)
  have arp: "rx_ring (handle_arp p s) = rx_ring s" for p s
    unfolding handle_arp_def Let_def send_arp_reply_def
    by (simp add: send_ethernet_ring) (simp add: r arp_add_entry_def)
  have handle: "rx_ring s' = rx_ring s" if "handle_ip others p s = Some s'" for p s s'
    using that unfolding handle_ip_def Let_def by (auto simp: icmp split: if_splits)
  have "rx_ring (st\<lparr>rx_packets := n, rx_bytes := k\<rparr>) = rx_ring st" for n k
    by (simp add: rx_ring_def)
  then show ?thesis
    using assms(2) unfolding handle_ethernet_def Let_def
    by (auto simp: arp split: if_splits dest!: handle)
qed

lemma completed_less:
  "i < length ds \<Longrightarrow> rx_status (ds ! i) AND 1 \<noteq> 0 \<Longrightarrow> rx_status d = 0 \<Longrightarrow>
    Suc (completed (ds[i := d])) = completed ds"
  by (induction ds arbitrary: i) (auto simp: completed_def less_Suc_eq_0_disj nth_Cons split: nat.splits)

lemma drain_empties:
  assumes others: "\<And>s. rx_ring (others s) = rx_ring s"
  shows "rx_ring st = Some (ds, i) \<Longrightarrow> i < RX_DESC_COUNT \<Longrightarrow> length ds = RX_DESC_COUNT \<Longrightarrow>
    completed ds < n \<Longrightarrow> poll_drain n others buf st = Some st' \<Longrightarrow> drained st'"
proof (induction n arbitrary: st ds i buf)
  case (Suc n)
  then obtain c where c: "nic st = Some c" "rx_descs c = ds" "rx_head c = i"
    by (auto simp: rx_ring_def)
  show ?case
  proof (cases "rx_status (ds ! i) AND 1 = 0")
    case True
    then have "recv_packet buf (nic st) = (None, nic st)" by (simp add: recv_packet_def c Let_def)
    then have "st' = st" using Suc.prems(5) by simp
    then show ?thesis using True Suc.prems(1) by (simp add: drained_def)
  next
    case False
    define ds1 where "ds1 = ds[i := (ds ! i)\<lparr>rx_status := 0, rx_length := 0\<rparr>]"
    define i1 where "i1 = (i + 1) mod RX_DESC_COUNT"
    obtain r c1 where rc: "recv_packet buf (nic st) = (Some r, Some c1)"
      "rx_descs c1 = ds1" "rx_head c1 = i1"
      using False by (simp add: recv_packet_def c Let_def ds1_def i1_def)
    obtain len buf1 where r: "r = (len, buf1)" by (cases r)
    obtain st1 where st1: "handle_ethernet others (take len buf1) (st\<lparr>nic := Some c1\<rparr>) = Some st1"
      "poll_drain n others buf1 st1 = Some st'"
      using Suc.prems(5) by (auto simp: rc r split: option.splits)
    have "rx_ring st1 = Some (ds1, i1)"
      using handle_ethernet_ring [OF others st1(1)] rc by (simp add: rx_ring_def)
    moreover have "completed ds1 < n"
      using completed_less [of i ds "(ds ! i)\<lparr>rx_status := 0, rx_length := 0\<rparr>"] False Suc.prems(2-4)
      by (simp add: ds1_def)
    moreover have "i1 < RX_DESC_COUNT" "length ds1 = RX_DESC_COUNT"
      using Suc.prems by (simp_all add: i1_def ds1_def RX_DESC_COUNT_def)
    ultimately show ?thesis using Suc.IH st1(2) by blast
  qed
qed simp

section \<open>Two hosts\<close>

definition demo_nic :: e1000 where
  "demo_nic = \<lparr>nic_mac = [2, 0, 0, 0, 0, 1],
     rx_descs = replicate 32 \<lparr>rx_length = 0, rx_status = 0\<rparr>, rx_buffers = replicate 32 (replicate 2048 0),
     rx_head = 0, tx_descs = replicate 8 \<lparr>tx_length = 0, tx_cmd = 0, tx_status = 0\<rparr>,
     tx_buffers = replicate 8 (replicate 2048 0), tx_tail = 0, reg_rdh = 0, reg_tdt = 0\<rparr>"

definition host_a :: net where
  "host_a = net_init [2, 0, 0, 0, 0, 1] (net_boot (Some demo_nic))"

definition host_b :: net where
  "host_b = (net_boot (Some demo_nic))\<lparr>iface := Some \<lparr>i_mac = [2, 0, 0, 0, 0, 2],
     i_ip = [10, 0, 2, 2], i_gateway = [10, 0, 2, 2], i_mask = [255, 255, 255, 0]\<rparr>,
     net_initialized := True\<rparr>"

lemma demo_nic_ok: "nic_ok demo_nic"
  by (simp add: nic_ok_def demo_nic_def TX_DESC_COUNT_def RX_DESC_COUNT_def RX_BUFFER_SIZE_def
      list_all_iff)

lemma host_addresses:
  "get_local_mac host_a = [2, 0, 0, 0, 0, 1]" "get_local_ip host_a = [10, 0, 2, 15]"
  "get_local_mac host_b = [2, 0, 0, 0, 0, 2]" "get_local_ip host_b = [10, 0, 2, 2]"
  "get_subnet_mask host_a = [255, 255, 255, 0]" "get_subnet_mask host_b = [255, 255, 255, 0]"
  by (simp_all add: host_a_def host_b_def net_init_def get_local_mac_def get_local_ip_def
      get_subnet_mask_def)

lemma hosts_ready: "net_ready host_a" "net_ready host_b"
  unfolding net_ready_def host_addresses
  by (simp_all add: host_a_def host_b_def net_init_def net_boot_def demo_nic_ok)

lemma hosts_near:
  "is_same_subnet (get_local_ip host_b) (get_local_ip host_a) (get_subnet_mask host_a)"
  "is_same_subnet (get_local_ip host_a) (get_local_ip host_b) (get_subnet_mask host_b)"
  unfolding host_addresses is_same_subnet_def by (simp_all add: upt_rec)

section \<open>Properties\<close>

text \<open>
  C37: The internet checksum protects the field it is written into: for data of at most 131070
  bytes with a zeroed 16-bit field at an even offset, writing the checksum there makes the
  checksum of the whole zero, and two contents of any 16-bit word at an even offset have the same
  checksum only if they are equal or are 0x0000 and 0xFFFF, the two zeros of ones' complement.
\<close>

theorem checksum_protects:
  assumes "even (length pre)" "length pre + 2 + length post \<le> 131070"
  shows "internet_checksum (pre @ be16 (internet_checksum (pre @ be16 0 @ post)) @ post) = 0 \<and>
    (internet_checksum (pre @ be16 v @ post) = internet_checksum (pre @ be16 w @ post) \<longrightarrow>
      v = w \<or> {v, w} = {0, 0xFFFF})"
proof -
  define s where "s = word_total pre + word_total post"
  have total: "word_total (pre @ be16 x @ post) = s + unat x" for x
    using assms(1) by (simp add: word_total_append word_total_be16 s_def)
  have sum: "unat (internet_checksum (pre @ be16 x @ post)) = 65535 - ones_sum (s + unat x)" for x
    using assms(2) by (simp add: unat_internet_checksum total)
  have "unat (internet_checksum (pre @ be16 (internet_checksum (pre @ be16 0 @ post)) @ post)) = 0"
    unfolding sum using ones_sum_complement [of s] by simp
  moreover have "unat x \<le> 65535" for x :: u16
    using unsigned_less [of x, where ?'a = nat] by simp
  then have "unat x = 0 \<and> unat y = 65535" if "unat x < unat y"
    "internet_checksum (pre @ be16 x @ post) = internet_checksum (pre @ be16 y @ post)" for x y
    using that sum [of x] sum [of y] ones_sum_eq [of s "unat x" "unat y"]
      ones_sum_le [of "s + unat x"] ones_sum_le [of "s + unat y"] by simp
  then have ends: "x = 0 \<and> y = 0xFFFF" if "unat x < unat y"
    "internet_checksum (pre @ be16 x @ post) = internet_checksum (pre @ be16 y @ post)" for x y
    using that by (metis unsigned_eq_0_iff unat_max16)
  then have "v = w \<or> {v, w} = {0, 0xFFFF}"
    if "internet_checksum (pre @ be16 v @ post) = internet_checksum (pre @ be16 w @ post)"
  proof (cases "unat v" "unat w" rule: linorder_cases)
    case less
    then show ?thesis using ends [OF less that] by simp
  next
    case equal
    then show ?thesis by (simp add: word_unat_eq_iff)
  next
    case greater
    then show ?thesis using ends [OF greater that [symmetric]] by auto
  qed
  ultimately show ?thesis by (auto simp: unsigned_eq_0_iff)
qed

theorem checksum_protects_witness:
  "internet_checksum ([0x45, 0] @ be16 (internet_checksum ([0x45, 0] @ be16 0 @ [1, 2, 3])) @ [1, 2, 3]) = 0 \<and>
    internet_checksum ([0x45, 0] @ be16 7 @ [1, 2, 3]) \<noteq> internet_checksum ([0x45, 0] @ be16 9 @ [1, 2, 3])"
  using checksum_protects [of "[0x45, 0]" "[1, 2, 3]" 7 9] by (auto simp: doubleton_eq_iff)

text \<open>
  C38: Two hosts with their interface initialised over a driver in its normal state, each in the subnet of
  the other, where A does not know B's hardware address, complete a ping, but not with the first echo
  request: it is the ARP request that A sends in its place. Where no other task of A handles frames while
  \<open>arp::resolve\<close> waits (the waiting loop does not), the first echo request is lost: A has sent only the ARP request.
  B answers it; once A has handled the answer, its next echo request goes to B's address, B answers it and A
  records the answer of that identifier and sequence number. Where another task of A handles B's answer during
  the wait, the first echo request already goes out, with the same exchange. Every frame is the one that the
  driver was given, so the payload is one that fits the driver's buffers (2006 bytes).
\<close>

theorem cold_ping:
  assumes "net_ready A" "net_ready B" "length payload \<le> 2006"
    "is_same_subnet (get_local_ip B) (get_local_ip A) (get_subnet_mask A)"
    "is_same_subnet (get_local_ip A) (get_local_ip B) (get_subnet_mask B)"
    "table_lookup (get_local_ip B) (arp_table A) = None"
  shows "\<exists>B1 A2 B2 A4 B3 A5.
    let A1 = send_echo_request (\<lambda>s. s) (get_local_ip B) ident first lost A;
        A3 = send_echo_request others (get_local_ip B) ident sq payload A2;
        deliver = (\<lambda>s. the (handle_ethernet others (wire B1) s));
        A1' = send_echo_request deliver (get_local_ip B) ident sq payload A
    in wire A1 = BROADCAST_MAC @ get_local_mac A @ be16 0x0806 @
         arp_packet 1 (get_local_mac A) (get_local_ip A) (replicate 6 0) (get_local_ip B) \<and>
       handle_ethernet others (wire A1) B = Some B1 \<and> handle_ethernet others (wire B1) A1 = Some A2 \<and>
       handle_ethernet others (wire A3) B1 = Some B2 \<and> handle_ethernet others (wire B2) A3 = Some A4 \<and>
       fst (icmp_pending_reply ident sq A4) \<and>
       handle_ethernet others (wire A1') B1 = Some B3 \<and> handle_ethernet others (wire B3) A1' = Some A5 \<and>
       fst (icmp_pending_reply ident sq A5)"
proof -
  note la = ready_lengths [OF assms(1)] and lb = ready_lengths [OF assms(2)]
  let ?request = "arp_packet 1 (get_local_mac A) (get_local_ip A) (replicate 6 0) (get_local_ip B)"
  let ?reply = "arp_packet 2 (get_local_mac B) (get_local_ip B) (get_local_mac A) (get_local_ip A)"
  have bc: "length BROADCAST_MAC = 6" and z: "length (replicate 6 (0 :: u8)) = 6"
    by (simp_all add: BROADCAST_MAC_def)
  have hop: "next_hop (get_local_ip B) A = get_local_ip B" "next_hop (get_local_ip A) B = get_local_ip A"
    using assms(4,5) by (simp_all add: next_hop_def)
  obtain R where R: "send_arp_request (get_local_ip B) (get_local_mac A) (get_local_ip A) A = R"
    "net_ready R" "wire R = BROADCAST_MAC @ get_local_mac A @ be16 0x0806 @ ?request" "iface R = iface A"
    using arp_frame_wire [OF assms(1) bc arp_fields(1) [OF la z lb(2) refl]]
    unfolding send_arp_request_def by metis
  define A1 where "A1 = send_echo_request (\<lambda>s. s) (get_local_ip B) ident first lost A"
  have A1: "A1 = R\<lparr>arp_pending := None, arp_resolved := None\<rparr>"
    using echo_unresolved [of "get_local_ip B" A ident first lost] assms(6) by (simp add: hop R(1) A1_def)
  have same: "iface (R\<lparr>arp_pending := x, arp_resolved := y\<rparr>) = iface A" "wire (R\<lparr>arp_pending := x, arp_resolved := y\<rparr>) = wire R"
    "net_ready (R\<lparr>arp_pending := x, arp_resolved := y\<rparr>)" for x y
    using R(2,4) by (simp_all add: wire_def net_ready_def get_local_mac_def get_local_ip_def)
  obtain B0 where B0: "net_ready B0" "iface B0 = iface B"
    "handle_ethernet others (wire R) B = Some (handle_arp ?request B0)"
    unfolding R(3) by (rule handle_ethernet_arp [OF assms(2) disjI1 [OF refl] la(1)])
  obtain B1 where B1: "handle_arp ?request B0 = B1" "net_ready B1" "iface B1 = iface B"
    "table_lookup (get_local_ip A) (arp_table B1) = Some (get_local_mac A)"
    "wire B1 = get_local_mac A @ get_local_mac B @ be16 0x0806 @ ?reply"
    using handle_arp_request [OF B0(1) la z] unfolding local_cong(1,2) [OF B0(2)] B0(2) by metis
  have iA1: "iface A1 = iface A" "net_ready A1" "wire A1 = wire R" using same by (simp_all add: A1)
  obtain A' where A': "net_ready A'" "iface A' = iface A"
    "handle_ethernet others (wire B1) A1 = Some (handle_arp ?reply A')"
    using handle_ethernet_arp [OF iA1(2) _ lb(1), of "get_local_mac A" others ?reply] iA1(1)
    unfolding B1(5) local_cong(1) [OF iA1(1)] by metis
  obtain A2 where A2: "handle_arp ?reply A' = A2" "net_ready A2" "iface A2 = iface A"
    "table_lookup (get_local_ip B) (arp_table A2) = Some (get_local_mac B)"
    using handle_arp_reply [OF A'(1) lb la] A'(2) by metis
  have hopB: "next_hop (get_local_ip A) B1 = get_local_ip A" using hop(2) by (simp add: local_cong(5) [OF B1(3)])
  have late: "\<exists>B2 A4. let A3 = send_echo_request others (get_local_ip B) ident sq payload A2 in
      handle_ethernet others (wire A3) B1 = Some B2 \<and> handle_ethernet others (wire B2) A3 = Some A4 \<and>
      fst (icmp_pending_reply ident sq A4)"
    using ping_known [OF A2(2) B1(2) assms(3), of others ident sq others others] A2(3,4) B1(3,4) hop hopB
    by (simp add: local_cong(1,2,5) [OF A2(3)] local_cong(1,2) [OF B1(3)])
  define deliver where "deliver = (\<lambda>s. the (handle_ethernet others (wire B1) s))"
  let ?W = "R\<lparr>arp_pending := Some (get_local_ip B), arp_resolved := None\<rparr>"
  have pW: "arp_pending ?W = Some (get_local_ip B)" by simp
  have mW: "get_local_mac ?W = get_local_mac A" by (rule local_cong(1)) (rule same(1))
  obtain D where D: "handle_ethernet others (wire B1) ?W = Some D" "arp_resolved D = Some (get_local_mac B)"
    "net_ready D" "iface D = iface A" "table_lookup (get_local_ip B) (arp_table D) = Some (get_local_mac B)"
    using awaited_reply [OF same(3) pW lb(1) lb la, of others] unfolding mW B1(5) same(1) by metis
  let ?D = "D\<lparr>arp_pending := None\<rparr>"
  have iD: "iface ?D = iface A" "net_ready ?D" "table_lookup (get_local_ip B) (arp_table ?D) = Some (get_local_mac B)"
    using D(3-5) by (simp_all add: net_ready_def get_local_mac_def get_local_ip_def)
  have "arp_resolve deliver (next_hop (get_local_ip B) A) (get_local_mac A) (get_local_ip A) A = (Some (get_local_mac B), ?D)"
    using assms(6) D(1,2) by (simp add: arp_resolve_def hop R(1) deliver_def Let_def)
  then have first: "send_echo_request deliver (get_local_ip B) ident sq payload A =
      send_echo_request others (get_local_ip B) ident sq payload ?D"
    by (rule echo_resolved) (use iD hop in simp_all)
  have early: "\<exists>B3 A5. let A1' = send_echo_request deliver (get_local_ip B) ident sq payload A in
      handle_ethernet others (wire A1') B1 = Some B3 \<and> handle_ethernet others (wire B3) A1' = Some A5 \<and>
      fst (icmp_pending_reply ident sq A5)"
    unfolding first
    using ping_known [OF iD(2) B1(2) assms(3), of others ident sq others others] iD(3) B1(3,4) hop hopB
    by (simp add: local_cong(1,2,5) [OF iD(1)] local_cong(1,2) [OF B1(3)])
  have sent: "wire A1 = BROADCAST_MAC @ get_local_mac A @ be16 0x0806 @ ?request"
    "handle_ethernet others (wire A1) B = Some B1" "handle_ethernet others (wire B1) A1 = Some A2"
    using iA1(3) R(3) B0(3) B1(1) A'(3) A2(1) by simp_all
  show ?thesis
    using late early sent unfolding Let_def deliver_def A1_def by blast
qed

theorem cold_ping_witness:
  "\<exists>B1 A2 B2 A4 B3 A5.
    let A1 = send_echo_request (\<lambda>s. s) (get_local_ip host_b) 0xBEEF 0 [0] host_a;
        A3 = send_echo_request id (get_local_ip host_b) 0xBEEF 1 [1, 2, 3] A2;
        deliver = (\<lambda>s. the (handle_ethernet id (wire B1) s));
        A1' = send_echo_request deliver (get_local_ip host_b) 0xBEEF 1 [1, 2, 3] host_a
    in wire A1 = BROADCAST_MAC @ get_local_mac host_a @ be16 0x0806 @
         arp_packet 1 (get_local_mac host_a) (get_local_ip host_a) (replicate 6 0) (get_local_ip host_b) \<and>
       handle_ethernet id (wire A1) host_b = Some B1 \<and> handle_ethernet id (wire B1) A1 = Some A2 \<and>
       handle_ethernet id (wire A3) B1 = Some B2 \<and> handle_ethernet id (wire B2) A3 = Some A4 \<and>
       fst (icmp_pending_reply 0xBEEF 1 A4) \<and>
       handle_ethernet id (wire A1') B1 = Some B3 \<and> handle_ethernet id (wire B3) A1' = Some A5 \<and>
       fst (icmp_pending_reply 0xBEEF 1 A5)"
  by (rule cold_ping [OF hosts_ready _ hosts_near])
    (simp_all add: host_a_def net_init_def net_boot_def table_lookup_def)

text \<open>
  C39: Which frames panic the kernel: exactly those addressed to this host (or to everyone) that
  carry an IPv4 packet for this host with a correct header checksum whose total length is below
  its header length. For every initialised interface such a frame of 34 bytes exists, so any
  neighbour can stop the machine.
\<close>

theorem remote_panic:
  assumes "net_ready st"
  shows "(handle_ethernet others frame st = None \<longleftrightarrow>
      34 \<le> length frame \<and> (take 6 frame = replicate 6 0xFF \<or> take 6 frame = get_local_mac st) \<and>
      from_be16 (frame ! 12) (frame ! 13) = 0x0800 \<and> accepted (drop 14 frame) st \<and>
      unat (from_be16 (frame ! 16) (frame ! 17)) < unat (frame ! 14 AND 0x0F) * 4) \<and>
    handle_ethernet others (short_packet (get_local_mac st) (get_local_ip st)) st = None"
proof -
  have panics: "handle_ethernet others f st = None \<longleftrightarrow>
      34 \<le> length f \<and> (take 6 f = replicate 6 0xFF \<or> take 6 f = get_local_mac st) \<and>
      from_be16 (f ! 12) (f ! 13) = 0x0800 \<and> accepted (drop 14 f) st \<and>
      unat (from_be16 (f ! 16) (f ! 17)) < unat (f ! 14 AND 0x0F) * 4" for f
  proof (cases "34 \<le> length f")
    case True
    define st1 where "st1 = st\<lparr>rx_packets := rx_packets st + 1, rx_bytes := rx_bytes st + of_nat (length f)\<rparr>"
    have i: "iface st1 = iface st" by (simp add: st1_def)
    have "drop 14 f ! 2 = f ! 16" "drop 14 f ! 3 = f ! 17" "drop 14 f ! 0 = f ! 14"
      using True by simp_all
    then show ?thesis
      using True unfolding handle_ethernet_def st1_def [symmetric] Let_def local_cong(1) [OF i]
      by (auto simp: handle_ip_panics accepted_cong [OF i])
  next
    case False
    then have "\<not> 20 \<le> length (drop 14 f)" by simp
    then have "handle_ip others (drop 14 f) st' \<noteq> None" for st'
      unfolding handle_ip_panics accepted_def by blast
    then show ?thesis using False unfolding handle_ethernet_def Let_def by simp
  qed
  let ?m = "get_local_mac st" and ?ip = "get_local_ip st"
  let ?p = "ip_header 0 1 (internet_checksum (ip_header 0 1 0 [0, 0, 0, 0] ?ip)) [0, 0, 0, 0] ?ip"
  note l = ready_lengths [OF assms]
  have len: "length ?p = 20" using l(2) by (simp add: length_ip_header)
  have f: "drop 14 (short_packet ?m ?ip) = ?p" "take 6 (short_packet ?m ?ip) = ?m"
    "from_be16 (short_packet ?m ?ip ! 12) (short_packet ?m ?ip ! 13) = 0x0800"
    "length (short_packet ?m ?ip) = 34"
    using l len by (simp_all add: short_packet_def nth_append be16_def from_be16_def drop_bit_eq_div push_bit_eq_mult)
  have at: "short_packet ?m ?ip ! (14 + k) = ?p ! k" for k
    using nth_drop [of 14 "short_packet ?m ?ip" k] unfolding f by simp
  note fields = ip_header_fields [of "[0, 0, 0, 0]" ?ip ?p 0 1 "internet_checksum (ip_header 0 1 0 [0, 0, 0, 0] ?ip)" "[]"]
  have v: "drop_bit 4 (0x45 :: u8) AND 0x0F = 4" "unat ((0x45 :: u8) AND 0x0F) = 5"
    by (simp_all add: drop_bit_eq_div)
  have p: "?p ! 0 = 0x45" "from_be16 (?p ! 2) (?p ! 3) = 0" "slice 16 4 ?p = ?ip"
    "from_be16 (?p ! 10) (?p ! 11) = internet_checksum (ip_header 0 1 0 [0, 0, 0, 0] ?ip)"
    "(take 20 ?p)[10 := 0, 11 := 0] = ip_header 0 1 0 [0, 0, 0, 0] ?ip"
    using fields l(2) by simp_all
  then have "accepted ?p st" unfolding accepted_def p len v by simp
  then have "handle_ethernet others (short_packet ?m ?ip) st = None"
    using f at [of 0] at [of 2] at [of 3] p(1,2) v(2) unfolding panics f(1) by simp
  then show ?thesis using panics by blast
qed

theorem remote_panic_witness:
  "handle_ethernet id (short_packet [2, 0, 0, 0, 0, 1] [10, 0, 2, 15]) host_a = None"
  using remote_panic [OF hosts_ready(1)] unfolding host_addresses by simp

end
