(* ===== verification/Paging.thy ===== *)
theory Paging
  imports Pmm
begin

text \<open>
  Virtual memory (\<open>kernel/src/memory/paging.rs\<close>, and the buffers of \<open>memory/dma.rs\<close>): the walk of the page
  tables, entries read and written through the direct map, the sandbox test, and write combining.

  Memory is a function from the address of an 8-byte word to its value, the one \<open>alloc_frame_zeroed\<close>
  of the frame allocator clears. Control registers and MSRs are fields of the state; the processor's
  translation cache is not modelled, so invalidating it has no effect, and neither is printing.
  Sums of addresses are those of the release profile, where they wrap; the debug profile panics there.
  Only \<open>set_write_combining\<close> is modelled as the debug profile runs it, with the panic as \<open>None\<close>.
\<close>

section \<open>Constants and state\<close>

definition ENTRY_PRESENT :: u64 where "ENTRY_PRESENT = 1"
definition ENTRY_WRITABLE :: u64 where "ENTRY_WRITABLE = 2"
definition ENTRY_USER :: u64 where "ENTRY_USER = 4"
definition ENTRY_HUGE_PAGE :: u64 where "ENTRY_HUGE_PAGE = 0x80"
definition ENTRY_NX :: u64 where "ENTRY_NX = 0x8000000000000000"
definition ADDRESS_MASK :: u64 where "ADDRESS_MASK = 0x000FFFFFFFFFF000"
definition PAGE_4K_MASK :: u64 where "PAGE_4K_MASK = 0xFFF"
definition PAGE_2M_MASK :: u64 where "PAGE_2M_MASK = 0x1FFFFF"
definition PAGE_1G_MASK :: u64 where "PAGE_1G_MASK = 0x3FFFFFFF"
definition PAGE_2M_ADDRESS_MASK :: u64 where "PAGE_2M_ADDRESS_MASK = ADDRESS_MASK AND NOT PAGE_2M_MASK"
definition PAGE_1G_ADDRESS_MASK :: u64 where "PAGE_1G_ADDRESS_MASK = ADDRESS_MASK AND NOT PAGE_1G_MASK"

definition PTE_PAT :: u64 where "PTE_PAT = 0x80"
definition PTE_PWT :: u64 where "PTE_PWT = 8"
definition PTE_PCD :: u64 where "PTE_PCD = 0x10"
definition HUGE_PAT :: u64 where "HUGE_PAT = 0x1000"

datatype page_size = Size4KiB | Size2MiB | Size1GiB

fun page_bytes :: "page_size \<Rightarrow> u64" where
  "page_bytes Size4KiB = 4096"
| "page_bytes Size2MiB = 0x200000"
| "page_bytes Size1GiB = 0x40000000"

record mapping =
  physical_address :: u64
  map_size :: page_size
  map_flags :: u64

record paging =
  pg_mem :: "nat \<Rightarrow> u64"
  pg_frames :: pmm
  pg_hhdm :: u64
  pg_cr0 :: u64
  pg_cr3 :: u64
  pg_cr4 :: u64
  pg_efer :: u64
  pg_pat :: u64
  pg_cpuid :: "u32 \<Rightarrow> u32 \<times> u32"
  pg_failures :: u64
  pg_new_pml4 :: u64
  pg_ready :: bool

text \<open>\<open>pg_cpuid leaf\<close>: the registers EAX and EDX that the processor answers.\<close>

definition cpu_has_nx :: "paging \<Rightarrow> bool" where
  "cpu_has_nx st \<longleftrightarrow> \<not> fst (pg_cpuid st 0x80000000) < 0x80000001 \<and>
     snd (pg_cpuid st 0x80000001) AND push_bit 20 1 \<noteq> 0"

definition nx_enabled :: "paging \<Rightarrow> bool" where
  "nx_enabled st \<longleftrightarrow> pg_efer st AND push_bit 11 1 \<noteq> 0"

definition nx_flags :: "paging \<Rightarrow> bool \<Rightarrow> u64" where
  "nx_flags st executable = (if executable \<or> \<not> nx_enabled st then 0 else ENTRY_NX)"

definition paging_init :: "u64 \<Rightarrow> paging \<Rightarrow> paging" where
  "paging_init hhdm_offset st = st\<lparr>pg_hhdm := hhdm_offset\<rparr>"

definition current_root_phys :: "paging \<Rightarrow> u64" where
  "current_root_phys st = pg_cr3 st AND ADDRESS_MASK"

definition la57_enabled :: "paging \<Rightarrow> bool" where
  "la57_enabled st \<longleftrightarrow> pg_cr4 st AND push_bit 12 1 \<noteq> 0"

section \<open>Entries\<close>

definition index :: "u64 \<Rightarrow> nat \<Rightarrow> nat" where
  "index address shift = unat (drop_bit shift address AND 0x1FF)"

definition read_raw_entry :: "paging \<Rightarrow> u64 \<Rightarrow> nat \<Rightarrow> u64" where
  "read_raw_entry st table_phys i = pg_mem st (unat (pg_hhdm st + table_phys) + 8 * i)"

definition read_entry :: "paging \<Rightarrow> u64 \<Rightarrow> nat \<Rightarrow> u64 option" where
  "read_entry st table_phys i =
     (let entry = pg_mem st (unat (pg_hhdm st + table_phys) + 8 * i)
      in if entry AND ENTRY_PRESENT \<noteq> 0 then Some entry else None)"

definition write_entry :: "u64 \<Rightarrow> nat \<Rightarrow> u64 \<Rightarrow> paging \<Rightarrow> paging" where
  "write_entry table_phys i x st =
     st\<lparr>pg_mem := (pg_mem st)(unat (pg_hhdm st + table_phys) + 8 * i := x)\<rparr>"

definition copy_table :: "u64 \<Rightarrow> u64 \<Rightarrow> paging \<Rightarrow> paging" where
  "copy_table destination source =
     fold (\<lambda>i st. write_entry destination i (read_raw_entry st source i) st) [0..<512]"

definition find_free_pml4_slot :: "paging \<Rightarrow> u64 \<Rightarrow> nat option" where
  "find_free_pml4_slot st root = find (\<lambda>i. read_raw_entry st root i AND ENTRY_PRESENT = 0) [0..<512]"

definition canonical_address :: "nat \<Rightarrow> u64" where
  "canonical_address slot =
     (let lower = push_bit 39 (of_nat slot)
      in if slot AND 0x100 \<noteq> 0 then lower OR 0xFFFF000000000000 else lower)"

definition present_entries :: "paging \<Rightarrow> u64 \<Rightarrow> nat" where
  "present_entries st root = length (filter (\<lambda>i. read_entry st root i \<noteq> None) [0..<512])"

definition allocate_zeroed_phys :: "paging \<Rightarrow> u64 option \<times> paging" where
  "allocate_zeroed_phys st =
     (case alloc_frame_zeroed (unat (pg_hhdm st)) (pg_frames st) (pg_mem st) of
        (None, fr, mm) \<Rightarrow> (None, st\<lparr>pg_frames := fr, pg_mem := mm\<rparr>)
      | (Some virt, fr, mm) \<Rightarrow> (Some (of_nat virt - pg_hhdm st), st\<lparr>pg_frames := fr, pg_mem := mm\<rparr>))"

section \<open>Translation\<close>

definition translate_from_root :: "paging \<Rightarrow> u64 \<Rightarrow> u64 \<Rightarrow> mapping option" where
  "translate_from_root st root virtual_address =
     (case (if la57_enabled st
            then map_option (\<lambda>e. e AND ADDRESS_MASK) (read_entry st root (index virtual_address 48))
            else Some root) of
        None \<Rightarrow> None
      | Some root \<Rightarrow>
     (case read_entry st root (index virtual_address 39) of
        None \<Rightarrow> None
      | Some pml4e \<Rightarrow>
     (case read_entry st (pml4e AND ADDRESS_MASK) (index virtual_address 30) of
        None \<Rightarrow> None
      | Some pdpte \<Rightarrow>
     if pdpte AND ENTRY_HUGE_PAGE \<noteq> 0
     then Some \<lparr>physical_address = (pdpte AND PAGE_1G_ADDRESS_MASK) OR (virtual_address AND PAGE_1G_MASK),
       map_size = Size1GiB, map_flags = pdpte\<rparr>
     else
     (case read_entry st (pdpte AND ADDRESS_MASK) (index virtual_address 21) of
        None \<Rightarrow> None
      | Some pde \<Rightarrow>
     if pde AND ENTRY_HUGE_PAGE \<noteq> 0
     then Some \<lparr>physical_address = (pde AND PAGE_2M_ADDRESS_MASK) OR (virtual_address AND PAGE_2M_MASK),
       map_size = Size2MiB, map_flags = pde\<rparr>
     else
     (case read_entry st (pde AND ADDRESS_MASK) (index virtual_address 12) of
        None \<Rightarrow> None
      | Some pte \<Rightarrow>
          Some \<lparr>physical_address = (pte AND ADDRESS_MASK) OR (virtual_address AND PAGE_4K_MASK),
            map_size = Size4KiB, map_flags = pte\<rparr>)))))"

definition translate :: "paging \<Rightarrow> u64 \<Rightarrow> mapping option" where
  "translate st virtual_address = translate_from_root st (current_root_phys st) virtual_address"

definition virt_to_phys :: "paging \<Rightarrow> u64 \<Rightarrow> u64 option" where
  "virt_to_phys st virtual_address = map_option physical_address (translate st virtual_address)"

definition dma_address :: "u64 \<Rightarrow> paging \<Rightarrow> u64 option \<times> paging" where
  "dma_address virt st =
     (case virt_to_phys st virt of
        Some phys \<Rightarrow> (Some phys, st)
      | None \<Rightarrow>
          if pg_hhdm st \<noteq> 0 \<and> pg_hhdm st \<le> virt then (Some (virt - pg_hhdm st), st)
          else (None, st\<lparr>pg_failures := pg_failures st + 1\<rparr>))"

text \<open>\<open>validate_space\<close>: how many of the regions are mapped, and how many are not.\<close>

definition validate_space :: "paging \<Rightarrow> u64 \<Rightarrow> (string \<times> u64) list \<Rightarrow> nat \<times> nat" where
  "validate_space st root regions =
     fold (\<lambda>(name, virtual_address) (mapped, failed).
        case translate_from_root st root virtual_address of
          Some _ \<Rightarrow> (mapped + 1, failed)
        | None \<Rightarrow> (mapped, failed + 1)) regions (0, 0)"

section \<open>The sandbox test\<close>

datatype sandbox_error =
  NotInitialized | NoPml4 | NoFreeSlot | NoPdpt | NoPd | NoPt | NoTestPage | TranslationMismatch

record sandbox_mapping =
  sb_root_phys :: u64
  sb_virtual_address :: u64
  sb_physical_address :: u64

text \<open>
  The four allocations of the closure, one after the other with their error values: the frames
  obtained (all of them, or those before the failure) are kept for the cleanup.
\<close>

fun sandbox_allocate :: "sandbox_error list \<Rightarrow> paging \<Rightarrow> sandbox_error option \<times> u64 list \<times> paging" where
  "sandbox_allocate [] st = (None, [], st)"
| "sandbox_allocate (e # es) st =
     (case allocate_zeroed_phys st of
        (None, st') \<Rightarrow> (Some e, [], st')
      | (Some f, st') \<Rightarrow> (case sandbox_allocate es st' of (r, fs, st'') \<Rightarrow> (r, f # fs, st'')))"

definition sandbox_body :: "u64 \<Rightarrow> paging \<Rightarrow> (sandbox_error + sandbox_mapping) \<times> u64 list \<times> paging" where
  "sandbox_body root st =
     (let st1 = copy_table root (current_root_phys st) st
      in case find_free_pml4_slot st1 root of
           None \<Rightarrow> (Inl NoFreeSlot, [], st1)
         | Some slot \<Rightarrow>
             (case sandbox_allocate [NoPdpt, NoPd, NoPt, NoTestPage] st1 of
                (Some e, fs, st2) \<Rightarrow> (Inl e, fs, st2)
              | (None, fs, st2) \<Rightarrow>
                  let virtual_address = canonical_address slot;
                      flags = ENTRY_PRESENT OR ENTRY_WRITABLE;
                      st3 = write_entry root slot (fs ! 0 OR flags) st2;
                      st4 = write_entry (fs ! 0) 0 (fs ! 1 OR flags) st3;
                      st5 = write_entry (fs ! 1) 0 (fs ! 2 OR flags) st4;
                      st6 = write_entry (fs ! 2) 0 (fs ! 3 OR flags) st5
                  in (case translate_from_root st6 root virtual_address of
                        Some m \<Rightarrow>
                          if physical_address m = fs ! 3 \<and> map_size m = Size4KiB
                          then Inr \<lparr>sb_root_phys = root, sb_virtual_address = virtual_address,
                                 sb_physical_address = fs ! 3\<rparr>
                          else Inl TranslationMismatch
                      | None \<Rightarrow> Inl TranslationMismatch, fs, st6)))"

definition sandbox_mapping_test :: "paging \<Rightarrow> (sandbox_error + sandbox_mapping) \<times> paging" where
  "sandbox_mapping_test st =
     (if pg_hhdm st = 0 then (Inl NotInitialized, st)
      else
        case allocate_zeroed_phys st of
          (None, st') \<Rightarrow> (Inl NoPml4, st')
        | (Some root, st') \<Rightarrow>
            (case sandbox_body root st' of
               (r, fs, st'') \<Rightarrow>
                 (r, fold (\<lambda>f s. if f \<noteq> 0 then s\<lparr>pg_frames := free_frame (unat f) (pg_frames s)\<rparr> else s)
                       (rev (root # fs)) st'')))"

section \<open>Write combining\<close>

definition enable_pat_write_combining :: "paging \<Rightarrow> bool \<times> paging" where
  "enable_pat_write_combining st =
     (let pat = pg_pat st; current = drop_bit 32 pat AND 0xFF
      in if current = 1 then (True, st)
         else let updated = (pat AND NOT (push_bit 32 0xFF)) OR push_bit 32 1;
                  st' = st\<lparr>pg_pat := updated\<rparr>
              in (drop_bit 32 (pg_pat st') AND 0xFF = 1, st'))"

record wc_report =
  wc_changed :: nat
  wc_already :: nat
  wc_unmapped :: nat
  leaf_flags :: u64

definition find_entry_for :: "paging \<Rightarrow> u64 \<Rightarrow> u64 \<Rightarrow> (u64 \<times> nat \<times> u64) option" where
  "find_entry_for st root address =
     (case (if la57_enabled st
            then map_option (\<lambda>e. e AND ADDRESS_MASK) (read_entry st root (index address 48))
            else Some root) of
        None \<Rightarrow> None
      | Some root \<Rightarrow>
     (case read_entry st root (index address 39) of
        None \<Rightarrow> None
      | Some pml4e \<Rightarrow>
     (case read_entry st (pml4e AND ADDRESS_MASK) (index address 30) of
        None \<Rightarrow> None
      | Some pdpte \<Rightarrow>
     if pdpte AND ENTRY_HUGE_PAGE \<noteq> 0
     then Some (pml4e AND ADDRESS_MASK, index address 30, HUGE_PAT)
     else
     (case read_entry st (pdpte AND ADDRESS_MASK) (index address 21) of
        None \<Rightarrow> None
      | Some pde \<Rightarrow>
     if pde AND ENTRY_HUGE_PAGE \<noteq> 0
     then Some (pdpte AND ADDRESS_MASK, index address 21, HUGE_PAT)
     else Some (pde AND ADDRESS_MASK, index address 12, PTE_PAT)))))"

text \<open>
  One turn of the loop of \<open>set_write_combining\<close>: the new report, the new tables, and the address where the next
  turn starts, \<open>None\<close> where the sum overflows.
\<close>

definition checked_next :: "u64 \<Rightarrow> u64 \<Rightarrow> u64 option" where
  "checked_next address page_size =
     (if unat address + unat page_size < 2 ^ 64 then Some (address + page_size) else None)"

definition next_page :: "u64 \<Rightarrow> u64 \<Rightarrow> u64 option" where
  "next_page address page_size =
     (if (unat (address div page_size) + 1) * unat page_size < 2 ^ 64
      then Some ((address div page_size + 1) * page_size) else None)"

definition wc_step :: "u64 \<Rightarrow> wc_report \<times> paging \<Rightarrow> u64 option \<times> wc_report \<times> paging" where
  "wc_step address = (\<lambda>(report, st).
     case translate st address of
       None \<Rightarrow> (checked_next address 4096, report\<lparr>wc_unmapped := wc_unmapped report + 1\<rparr>, st)
     | Some m \<Rightarrow>
         let page_size = page_bytes (map_size m)
         in case find_entry_for st (current_root_phys st) address of
              None \<Rightarrow> (checked_next address page_size, report, st)
            | Some (table_phys, i, pat_bit) \<Rightarrow>
                let existing = read_raw_entry st table_phys i;
                    report' = (if leaf_flags report = 0 then report\<lparr>leaf_flags := existing\<rparr> else report)
                in if existing AND pat_bit \<noteq> 0
                   then (next_page address page_size, report'\<lparr>wc_already := wc_already report' + 1\<rparr>, st)
                   else (next_page address page_size, report'\<lparr>wc_changed := wc_changed report' + 1\<rparr>,
                     write_entry table_phys i
                       ((existing OR pat_bit) AND NOT PTE_PWT AND NOT PTE_PCD) st))"

lemma checked_next_less: "checked_next a n = Some b \<Longrightarrow> 0 < n \<Longrightarrow> a < b"
  by (auto simp: checked_next_def word_less_nat_alt unat_word_ariths split: if_splits)

lemma next_page_less:
  assumes "next_page a n = Some b" "0 < n"
  shows "a < b"
proof -
  have n: "0 < unat n" using assms(2) by (simp add: word_less_nat_alt)
  have less: "unat a < (unat a div unat n + 1) * unat n"
    using dividend_less_div_times [OF n, of "unat a"] by simp
  have "(unat a div unat n + 1) * unat n < 2 ^ 64" "b = (a div n + 1) * n"
    using assms(1) by (auto simp: next_page_def unat_div_distrib split: if_splits)
  moreover have "unat a div unat n + 1 < 2 ^ 64"
    using calculation(1) n by (metis le_less_trans mult_le_mono2 nat_mult_1_right One_nat_def Suc_leI)
  ultimately have "unat b = (unat a div unat n + 1) * unat n"
    by (simp add: unat_word_ariths unat_div_distrib)
  with less show ?thesis by (simp add: word_less_nat_alt)
qed

lemma page_bytes_pos [simp]: "0 < page_bytes s"
  by (cases s) simp_all

lemma wc_step_less: "wc_step a (report, st) = (Some b, r) \<Longrightarrow> a < b"
  by (auto simp: wc_step_def Let_def split: option.splits prod.splits if_splits
      dest!: checked_next_less next_page_less)

function wc_loop :: "u64 \<Rightarrow> u64 \<Rightarrow> wc_report \<times> paging \<Rightarrow> (wc_report \<times> paging) option" where
  "wc_loop stop address s =
     (if address < stop
      then (case wc_step address s of
              (None, s') \<Rightarrow> None
            | (Some address', s') \<Rightarrow> wc_loop stop address' s')
      else Some s)"
  by pat_completeness auto
termination
proof (relation "measure (\<lambda>(stop, address, s). unat stop - unat address)")
  fix stop address s a x y
  assume "address < stop" "(a, y) = wc_step address s" "a = Some (x :: u64)"
  then have "address < x" using wc_step_less [of address "fst s" "snd s" x y] by simp
  with \<open>address < stop\<close>
  show "((stop, x, y), stop, address, s) \<in> measure (\<lambda>(stop, address, s). unat stop - unat address)"
    by (auto simp: word_less_nat_alt)
qed auto

declare wc_loop.simps [simp del]

text \<open>\<open>None\<close> is the overflow of a sum of addresses, a panic of the debug profile.\<close>

definition set_write_combining :: "u64 \<Rightarrow> u64 \<Rightarrow> paging \<Rightarrow> (wc_report \<times> paging) option" where
  "set_write_combining virt len st =
     (let report = \<lparr>wc_changed = 0, wc_already = 0, wc_unmapped = 0, leaf_flags = 0\<rparr>
      in if len = 0 \<or> pg_hhdm st = 0 then Some (report, st)
         else if unat virt + unat len + 0xFFF < 2 ^ 64
         then wc_loop ((virt + len + 0xFFF) AND NOT 0xFFF) (virt AND NOT 0xFFF) (report, st)
         else None)"

section \<open>Buffers for devices\<close>

text \<open>
  \<open>DmaBuffer\<close> (\<open>memory/dma.rs\<close>). The inner option of \<open>dma_allocate\<close> is the code's result, the outer
  one is \<open>None\<close> when the search of the frame allocator does not return.
\<close>

record dma_buffer =
  dma_virtual :: nat
  dma_physical :: nat
  requested_len :: nat
  page_count :: nat

definition dma_allocate :: "nat \<Rightarrow> paging \<Rightarrow> (dma_buffer option \<times> paging) option" where
  "dma_allocate n st =
     (if n = 0 then Some (None, st)
      else case checked_add64 n (FRAME_SIZE - 1) of
        None \<Rightarrow> Some (None, st)
      | Some padded \<Rightarrow>
          let pages = padded div FRAME_SIZE
          in case alloc_contiguous pages (pg_frames st) of
               None \<Rightarrow> None
             | Some (None, fr) \<Rightarrow> Some (None, st\<lparr>pg_frames := fr\<rparr>)
             | Some (Some phys, fr) \<Rightarrow>
                 (case checked_add64 (unat (pg_hhdm st)) phys of
                    Some virt \<Rightarrow>
                      if virt = 0
                      then Some (None, st\<lparr>pg_frames := snd (free_contiguous phys pages fr)\<rparr>)
                      else
                        (case checked_mul64 pages FRAME_SIZE of
                           None \<Rightarrow> Some (None, st\<lparr>pg_frames := fr\<rparr>)
                         | Some allocated \<Rightarrow>
                             Some (Some \<lparr>dma_virtual = virt, dma_physical = phys, requested_len = n, page_count = pages\<rparr>,
                               st\<lparr>pg_frames := fr,
                                 pg_mem := fold (\<lambda>i m. m(virt + 8 * i := 0)) [0..<allocated div 8] (pg_mem st)\<rparr>))
                  | None \<Rightarrow> Some (None, st\<lparr>pg_frames := snd (free_contiguous phys pages fr)\<rparr>)))"

definition allocated_len :: "dma_buffer \<Rightarrow> nat" where
  "allocated_len b = page_count b * FRAME_SIZE"

definition dma_drop :: "dma_buffer \<Rightarrow> paging \<Rightarrow> paging" where
  "dma_drop b st = st\<lparr>pg_frames := snd (free_contiguous (dma_physical b) (page_count b) (pg_frames st))\<rparr>"

section \<open>Page tables as a tree\<close>

text \<open>
  The specification of a walk. Tables are functions from an index to an entry, and levels count down
  from 3 (PML4) to 0 (page table). At level \<open>l\<close> an entry is missing, a leaf (a page of
  \<open>2 ^ (12 + 9 * l)\<close> bytes) or a link to a table of the level below.
\<close>

type_synonym tables = "u64 \<Rightarrow> nat \<Rightarrow> u64"

abbreviation present :: "u64 \<Rightarrow> bool" where
  "present e \<equiv> e AND ENTRY_PRESENT \<noteq> 0"

abbreviation huge :: "u64 \<Rightarrow> bool" where
  "huge e \<equiv> e AND ENTRY_HUGE_PAGE \<noteq> 0"

datatype step = Missing | Leaf | Link u64

definition entry_step :: "nat \<Rightarrow> u64 \<Rightarrow> step" where
  "entry_step l e =
     (if \<not> present e then Missing
      else if l = 0 \<or> l \<le> 2 \<and> huge e then Leaf
      else Link (e AND ADDRESS_MASK))"

definition lv :: "nat \<Rightarrow> u64 \<Rightarrow> nat" where
  "lv l v = index v (12 + 9 * l)"

primrec walk :: "tables \<Rightarrow> nat \<Rightarrow> u64 \<Rightarrow> u64 \<Rightarrow> (nat \<times> u64) option" where
  "walk E 0 t v = (case entry_step 0 (E t (lv 0 v)) of Leaf \<Rightarrow> Some (0, E t (lv 0 v)) | _ \<Rightarrow> None)"
| "walk E (Suc k) t v =
     (case entry_step (Suc k) (E t (lv (Suc k) v)) of
        Missing \<Rightarrow> None
      | Leaf \<Rightarrow> Some (Suc k, E t (lv (Suc k) v))
      | Link c \<Rightarrow> walk E k c v)"

text \<open>The table of level \<open>l\<close> on the way of \<open>v\<close>, and the bits that every entry of the way has.\<close>

primrec tab :: "tables \<Rightarrow> nat \<Rightarrow> u64 \<Rightarrow> u64 \<Rightarrow> nat \<Rightarrow> u64 option" where
  "tab E 0 t v l = (if l = 0 then Some t else None)"
| "tab E (Suc k) t v l =
     (if l = Suc k then Some t
      else case entry_step (Suc k) (E t (lv (Suc k) v)) of Link c \<Rightarrow> tab E k c v l | _ \<Rightarrow> None)"

primrec granted :: "tables \<Rightarrow> nat \<Rightarrow> u64 \<Rightarrow> u64 \<Rightarrow> u64" where
  "granted E 0 t v = (if entry_step 0 (E t (lv 0 v)) = Missing then 0 else E t (lv 0 v))"
| "granted E (Suc k) t v =
     (case entry_step (Suc k) (E t (lv (Suc k) v)) of
        Missing \<Rightarrow> 0
      | Leaf \<Rightarrow> E t (lv (Suc k) v)
      | Link c \<Rightarrow> E t (lv (Suc k) v) AND granted E k c v)"

text \<open>The address a leaf maps \<open>v\<close> to, and the root from which a walk starts.\<close>

definition leaf_phys :: "u64 \<Rightarrow> nat \<times> u64 \<Rightarrow> u64" where
  "leaf_phys v = (\<lambda>(l, e). (e AND ADDRESS_MASK AND NOT (mask (12 + 9 * l))) OR (v AND mask (12 + 9 * l)))"

definition leaf_mapping :: "u64 \<Rightarrow> nat \<times> u64 \<Rightarrow> mapping" where
  "leaf_mapping v = (\<lambda>(l, e). \<lparr>physical_address = leaf_phys v (l, e),
     map_size = (if l = 0 then Size4KiB else if l = 1 then Size2MiB else Size1GiB), map_flags = e\<rparr>)"

definition walk_root :: "paging \<Rightarrow> u64 \<Rightarrow> u64 \<Rightarrow> u64 option" where
  "walk_root st root v =
     (if la57_enabled st
      then map_option (\<lambda>e. e AND ADDRESS_MASK) (read_entry st root (index v 48))
      else Some root)"

lemma page_masks:
  "PAGE_4K_MASK = mask 12" "PAGE_2M_MASK = mask 21" "PAGE_1G_MASK = mask 30"
  "ADDRESS_MASK = mask 52 AND NOT (mask 12)"
  by (simp_all add: PAGE_4K_MASK_def PAGE_2M_MASK_def PAGE_1G_MASK_def ADDRESS_MASK_def mask_eq_exp_minus_1)

lemma read_entry_raw:
  "read_entry st t i = (if present (read_raw_entry st t i) then Some (read_raw_entry st t i) else None)"
  by (simp add: read_entry_def read_raw_entry_def Let_def)

lemma address_mask_4k: "ADDRESS_MASK AND NOT (mask 12) = ADDRESS_MASK"
  by (simp add: page_masks(4) and.assoc)

lemma leaf_mapping_code:
  "leaf_mapping v (0, e) = \<lparr>physical_address = (e AND ADDRESS_MASK) OR (v AND PAGE_4K_MASK),
     map_size = Size4KiB, map_flags = e\<rparr>"
  "leaf_mapping v (Suc 0, e) = \<lparr>physical_address = (e AND PAGE_2M_ADDRESS_MASK) OR (v AND PAGE_2M_MASK),
     map_size = Size2MiB, map_flags = e\<rparr>"
  "leaf_mapping v (Suc (Suc 0), e) = \<lparr>physical_address = (e AND PAGE_1G_ADDRESS_MASK) OR (v AND PAGE_1G_MASK),
     map_size = Size1GiB, map_flags = e\<rparr>"
proof -
  have 1: "e AND ADDRESS_MASK AND NOT (mask 12) = e AND ADDRESS_MASK"
    by (simp only: and.assoc address_mask_4k)
  have 2: "12 + 9 * Suc 0 = (21 :: nat)" "12 + 9 * Suc (Suc 0) = (30 :: nat)" "12 + 9 * 0 = (12 :: nat)"
    by simp_all
  show "leaf_mapping v (0, e) = \<lparr>physical_address = (e AND ADDRESS_MASK) OR (v AND PAGE_4K_MASK),
     map_size = Size4KiB, map_flags = e\<rparr>"
    unfolding leaf_mapping_def leaf_phys_def prod.case 2 1 page_masks(1) by simp
  show "leaf_mapping v (Suc 0, e) = \<lparr>physical_address = (e AND PAGE_2M_ADDRESS_MASK) OR (v AND PAGE_2M_MASK),
     map_size = Size2MiB, map_flags = e\<rparr>"
    unfolding leaf_mapping_def leaf_phys_def prod.case 2 PAGE_2M_ADDRESS_MASK_def page_masks(2) and.assoc
    by simp
  show "leaf_mapping v (Suc (Suc 0), e) = \<lparr>physical_address = (e AND PAGE_1G_ADDRESS_MASK) OR (v AND PAGE_1G_MASK),
     map_size = Size1GiB, map_flags = e\<rparr>"
    unfolding leaf_mapping_def leaf_phys_def prod.case 2 PAGE_1G_ADDRESS_MASK_def page_masks(3) and.assoc
    by simp
qed

lemma walk_levels:
  "walk E 3 t v =
     (let e3 = E t (index v 39) in if \<not> present e3 then None else
      let e2 = E (e3 AND ADDRESS_MASK) (index v 30) in if \<not> present e2 then None else
      if huge e2 then Some (Suc (Suc 0), e2) else
      let e1 = E (e2 AND ADDRESS_MASK) (index v 21) in if \<not> present e1 then None else
      if huge e1 then Some (Suc 0, e1) else
      let e0 = E (e1 AND ADDRESS_MASK) (index v 12) in if \<not> present e0 then None else Some (0, e0))"
  by (simp add: numeral_3_eq_3 entry_step_def lv_def Let_def)

lemma walk_top:
  "walk E 3 r v = (case entry_step 3 (E r (lv 3 v)) of Link c \<Rightarrow> walk E 2 c v | _ \<Rightarrow> None)"
proof -
  have n: "Suc 2 = 3" by simp
  have "entry_step 3 e \<noteq> Leaf" for e by (simp add: entry_step_def)
  with walk.simps(2) [of E 2 r v, unfolded n] show ?thesis by (simp split: step.split)
qed

lemma walk_leaf: "entry_step l (E t (lv l v)) = Leaf \<Longrightarrow> walk E l t v = Some (l, E t (lv l v))"
  by (cases l) simp_all

lemma translate_spec:
  "translate_from_root st root v =
     (case walk_root st root v of
        None \<Rightarrow> None
      | Some r \<Rightarrow> map_option (leaf_mapping v) (walk (read_raw_entry st) 3 r v))"
  unfolding translate_from_root_def walk_root_def read_entry_raw walk_levels Let_def
  by (simp split: option.split add: leaf_mapping_code)

lemma lv_less [simp]: "lv l v < 512"
proof -
  have "drop_bit (12 + 9 * l) v AND 0x1FF \<le> 0x1FF" by (rule word_and_le1)
  then show ?thesis by (simp add: lv_def index_def word_le_nat_alt)
qed

lemma tab_top [simp]: "tab E k t v k = Some t"
  by (cases k) simp_all

lemma tab_le: "tab E k t v l = Some x \<Longrightarrow> l \<le> k"
  by (induction k arbitrary: t) (auto split: if_splits step.splits simp: le_Suc_eq)

lemma tab_above: "k < l \<Longrightarrow> tab E k t v l = None"
  using tab_le [of E k t v l] by (cases "tab E k t v l") auto

lemma tab_aligned: "tab E k t v l = Some x \<Longrightarrow> t AND ADDRESS_MASK = t \<Longrightarrow> x AND ADDRESS_MASK = x"
  by (induction k arbitrary: t)
    (auto split: if_splits step.splits simp: entry_step_def and.assoc)

lemma tab_descend:
  "tab E k t v l = Some x \<Longrightarrow> i \<le> l \<Longrightarrow> tab E k t v i = tab E l x v i"
proof (induction k arbitrary: t)
  case (Suc k)
  then show ?case
    by (cases "l = Suc k") (auto split: step.splits dest!: tab_le simp del: tab.simps(1))
qed (auto split: if_splits)

lemma walk_descend: "tab E k t v l = Some x \<Longrightarrow> walk E k t v = walk E l x v"
  by (induction k arbitrary: t) (auto split: if_splits step.splits)

lemma tab_link:
  assumes "tab E k t v (Suc l) = Some x"
  shows "tab E k t v l = (case entry_step (Suc l) (E x (lv (Suc l) v)) of Link c \<Rightarrow> Some c | _ \<Rightarrow> None)"
  using tab_descend [OF assms, of l] by (simp split: step.split)

lemma tab_upper: "tab E k t v l = Some x \<Longrightarrow> l \<le> i \<Longrightarrow> i \<le> k \<Longrightarrow> \<exists>y. tab E k t v i = Some y"
proof (induction k arbitrary: t)
  case (Suc k)
  then show ?case by (cases "i = Suc k") (auto split: if_splits step.splits)
qed auto

lemma tab_frame:
  "(\<And>i x. l < i \<Longrightarrow> tab E k t v i = Some x \<Longrightarrow>
      entry_step i (E' x (lv i v)) = entry_step i (E x (lv i v))) \<Longrightarrow>
    l \<le> j \<Longrightarrow> tab E' k t v j = tab E k t v j"
proof (induction k arbitrary: t)
  case (Suc k)
  show ?case
  proof (cases "j < Suc k")
    case True
    have e: "entry_step (Suc k) (E' t (lv (Suc k) v)) = entry_step (Suc k) (E t (lv (Suc k) v))"
      using Suc.prems(1) [of "Suc k" t] True Suc.prems(2) by simp
    show ?thesis
    proof (cases "entry_step (Suc k) (E t (lv (Suc k) v))")
      case (Link c)
      have "tab E' k c v j = tab E k c v j"
      proof (rule Suc.IH [OF _ Suc.prems(2)])
        fix i x assume i: "l < i" "tab E k c v i = Some x"
        then show "entry_step i (E' x (lv i v)) = entry_step i (E x (lv i v))"
          using Suc.prems(1) [OF i(1), of x] Link tab_le [OF i(2)] by simp
      qed
      with Link e show ?thesis by simp
    qed (use e in simp_all)
  next
    case False
    then have "j = Suc k \<or> Suc k < j" by auto
    then show ?thesis by (metis tab_above tab_top)
  qed
qed simp

lemma walk_frame:
  "(\<And>i x. tab E k t v i = Some x \<Longrightarrow>
      entry_step i (E' x (lv i v)) = entry_step i (E x (lv i v)) \<and>
      (entry_step i (E x (lv i v)) = Leaf \<longrightarrow> E' x (lv i v) = E x (lv i v))) \<Longrightarrow>
    walk E' k t v = walk E k t v"
proof (induction k arbitrary: t)
  case 0
  from 0 [of 0 t] show ?case by (simp split: step.split)
next
  case (Suc k)
  note e = Suc.prems [of "Suc k" t, simplified]
  show ?case
  proof (cases "entry_step (Suc k) (E t (lv (Suc k) v))")
    case (Link c)
    have "walk E' k c v = walk E k c v"
    proof (rule Suc.IH)
      fix i x assume i: "tab E k c v i = Some x"
      then show "entry_step i (E' x (lv i v)) = entry_step i (E x (lv i v)) \<and>
          (entry_step i (E x (lv i v)) = Leaf \<longrightarrow> E' x (lv i v) = E x (lv i v))"
        using Suc.prems [of i x] Link tab_le [OF i] by simp
    qed
    with Link e show ?thesis by simp
  qed (use e in simp_all)
qed

lemma tab_share:
  "tab E k t v l = Some x \<Longrightarrow> (\<And>i. l < i \<Longrightarrow> i \<le> k \<Longrightarrow> lv i v = lv i w) \<Longrightarrow> l \<le> j \<Longrightarrow>
    tab E k t w j = tab E k t v j"
proof (induction k arbitrary: t)
  case (Suc k)
  show ?case
  proof (cases "l = Suc k")
    case False
    then have "l \<le> k" using tab_le [OF Suc.prems(1)] by simp
    then have "lv (Suc k) v = lv (Suc k) w" using Suc.prems(2) [of "Suc k"] by simp
    moreover obtain c where "entry_step (Suc k) (E t (lv (Suc k) v)) = Link c" "tab E k c v l = Some x"
      using Suc.prems(1) False by (auto split: step.splits)
    moreover from this have "tab E k c w j = tab E k c v j"
      using Suc.IH [of c] Suc.prems(2,3) by simp
    ultimately show ?thesis by simp
  next
    case True
    with Suc.prems(3) have "j = Suc k \<or> Suc k < j" by auto
    then show ?thesis by (metis tab_above tab_top)
  qed
qed auto

text \<open>No table is reached by two different ways.\<close>

definition tree :: "tables \<Rightarrow> u64 \<Rightarrow> bool" where
  "tree E r \<longleftrightarrow> (\<forall>v w i j x. tab E 3 r v i = Some x \<longrightarrow> tab E 3 r w j = Some x \<longrightarrow>
     i = j \<and> (\<forall>l. i < l \<and> l \<le> 3 \<longrightarrow> lv l v = lv l w))"

lemma treeD:
  assumes "tree E r" "tab E 3 r v i = Some x" "tab E 3 r w j = Some x"
  shows "i = j" "i < l \<Longrightarrow> l \<le> 3 \<Longrightarrow> lv l v = lv l w"
  using assms unfolding tree_def by blast+

text \<open>
  The two ways in which the code changes a tree. Entries keep their step (a flag added to a link):
  nothing a walk sees changes. Or an entry that leads nowhere becomes a link to a new table: exactly the
  addresses below that entry are walked through the new table.
\<close>

lemma same_steps:
  assumes "\<forall>w i x. tab E 3 r w i = Some x \<longrightarrow>
      entry_step i (E' x (lv i w)) = entry_step i (E x (lv i w)) \<and>
      (entry_step i (E x (lv i w)) = Leaf \<longrightarrow> E' x (lv i w) = E x (lv i w))"
  shows "tab E' 3 r = tab E 3 r" "walk E' 3 r = walk E 3 r" "tree E r \<Longrightarrow> tree E' r"
proof -
  show t: "tab E' 3 r = tab E 3 r"
    by (intro ext tab_frame [where l = 0]) (use assms in auto)
  show "walk E' 3 r = walk E 3 r"
    by (intro ext walk_frame) (use assms in blast)
  show "tree E r \<Longrightarrow> tree E' r" unfolding tree_def t .
qed

definition below :: "tables \<Rightarrow> u64 \<Rightarrow> nat \<Rightarrow> u64 \<Rightarrow> nat \<Rightarrow> u64 \<Rightarrow> bool" where
  "below E r l t i w \<longleftrightarrow> tab E 3 r w l = Some t \<and> lv l w = i"

lemma new_table:
  assumes tr: "tree E r" and tv: "tab E 3 r v (Suc l) = Some t"
    and stuck: "tab E 3 r v l = None"
    and fresh: "\<And>w i. tab E 3 r w i \<noteq> Some f"
    and same: "\<forall>w i x. tab E 3 r w i = Some x \<longrightarrow> x \<noteq> t \<or> lv i w \<noteq> lv (Suc l) v \<longrightarrow> E' x (lv i w) = E x (lv i w)"
    and link: "entry_step (Suc l) (E' t (lv (Suc l) v)) = Link f"
    and leaves: "\<And>w c. entry_step l (E' f (lv l w)) \<noteq> Link c"
  shows "tab E' 3 r w j = (if below E r (Suc l) t (lv (Suc l) v) w \<and> j = l then Some f else tab E 3 r w j)"
    "walk E' 3 r w = (if below E r (Suc l) t (lv (Suc l) v) w then walk E' l f w else walk E 3 r w)"
proof -
  let ?B = "below E r (Suc l) t (lv (Suc l) v) w"
  have out: "E' x (lv i w) = E x (lv i w)" if "\<not> ?B" "tab E 3 r w i = Some x" for i x
    using same that(2) that(1) treeD(1) [OF tr tv, of w i] that(2) by (auto simp: below_def)
  have up: "E' x (lv i w) = E x (lv i w)" if "Suc l < i" "tab E 3 r w i = Some x" for i x
    using same that(2) treeD(1) [OF tr tv, of w i] that by auto
  have inside: "tab E' 3 r w (Suc l) = Some t" if ?B
    using tab_frame [of "Suc l" E 3 r w E' "Suc l"] up that by (simp add: below_def)
  have low: "tab E' l f w j = (if j = l then Some f else None)" if "j \<le> l" for j
    using that leaves [of w] by (cases l) (auto split: step.split)
  have linked: "tab E' 3 r w l = Some f" if ?B
    using tab_link [OF inside [OF that]] link that by (simp add: below_def)
  show "walk E' 3 r w = (if ?B then walk E' l f w else walk E 3 r w)"
    using walk_descend [OF linked] walk_frame [of E 3 r w E'] out by auto
  have none: "tab E 3 r w j = None" if ?B "j \<le> l"
  proof -
    have "lv i v = lv i w" if "Suc l < i" "i \<le> 3" for i
      using treeD(2) [OF tr tv, of w "Suc l" i] \<open>?B\<close> that by (auto simp: below_def)
    then have "lv i v = lv i w" if "l < i" "i \<le> 3" for i
      using that \<open>?B\<close> by (cases "i = Suc l") (auto simp: below_def)
    then have "tab E 3 r w l = None"
      using tab_link [OF tv] stuck tab_link [of E 3 r w l t] \<open>?B\<close> by (simp add: below_def)
    then show ?thesis
      using tab_descend [of E 3 r w "Suc l" t j] tab_descend [of E 3 r w "Suc l" t l] \<open>?B\<close> \<open>j \<le> l\<close>
      by (auto simp: below_def split: step.splits)
  qed
  show "tab E' 3 r w j = (if ?B \<and> j = l then Some f else tab E 3 r w j)"
  proof (cases ?B)
    case False
    then show ?thesis using tab_frame [of j E 3 r w E' j] out by simp
  next
    case True
    show ?thesis
    proof (cases "j \<le> l")
      case True
      then show ?thesis
        using tab_descend [OF linked [OF \<open>?B\<close>] True] low [OF True] none [OF \<open>?B\<close> True] \<open>?B\<close> by auto
    next
      case False
      then have "tab E' 3 r w j = tab E 3 r w j"
        using tab_frame [of "Suc l" E 3 r w E' j] up by simp
      then show ?thesis using False by simp
    qed
  qed
qed

lemma new_table_tree:
  assumes tr: "tree E r" and tv: "tab E 3 r v (Suc l) = Some t"
    and fresh: "\<And>w i. tab E 3 r w i \<noteq> Some f"
    and tab': "\<And>w j. tab E' 3 r w j =
      (if below E r (Suc l) t (lv (Suc l) v) w \<and> j = l then Some f else tab E 3 r w j)"
  shows "tree E' r"
proof -
  have b: "lv i a = lv i b" if "below E r (Suc l) t (lv (Suc l) v) a" "below E r (Suc l) t (lv (Suc l) v) b"
    "l < i" "i \<le> 3" for a b i
    using that treeD(2) [OF tr, of a "Suc l" t b "Suc l" i] by (cases "i = Suc l") (auto simp: below_def)
  show ?thesis
    unfolding tree_def
  proof (intro allI impI)
    fix v w i j x assume vx: "tab E' 3 r v i = Some x" and wx: "tab E' 3 r w j = Some x"
    show "i = j \<and> (\<forall>m. i < m \<and> m \<le> 3 \<longrightarrow> lv m v = lv m w)"
    proof (cases "x = f")
      case True
      then show ?thesis using vx wx fresh b unfolding tab' by (metis option.inject)
    next
      case False
      then have "tab E 3 r v i = Some x" "tab E 3 r w j = Some x"
        using vx wx unfolding tab' by (auto split: if_splits)
      then show ?thesis using treeD [OF tr] by blast
    qed
  qed
qed

section \<open>Tables in memory\<close>

text \<open>
  The direct map covers the frames of the allocator, and its offset is a multiple of the page size.
  A space is well formed when its tables form a tree and none of them is a free frame.
\<close>

definition direct_map :: "paging \<Rightarrow> bool" where
  "direct_map st \<longleftrightarrow> 4096 dvd unat (pg_hhdm st) \<and> unat (pg_hhdm st) + MAX_FRAMES * FRAME_SIZE \<le> 2 ^ 64"

definition frame_addr :: "nat \<Rightarrow> u64" where
  "frame_addr i = of_nat (i * FRAME_SIZE)"

abbreviation free_pool :: "paging \<Rightarrow> nat set" where
  "free_pool st \<equiv> free_set (bitmap (pg_frames st))"

definition space_ok :: "nat set \<Rightarrow> paging \<Rightarrow> u64 \<Rightarrow> bool" where
  "space_ok U st r \<longleftrightarrow> direct_map st \<and> pmm_inv U (pg_frames st) \<and> r AND ADDRESS_MASK = r \<and>
     tree (read_raw_entry st) r \<and>
     (\<forall>i \<in> free_pool st. \<forall>w l. tab (read_raw_entry st) 3 r w l \<noteq> Some (frame_addr i))"

lemma and_clear: "(x AND (a AND NOT b)) AND b = (0 :: 'a :: len word)"
  by (rule bit_word_eqI) (auto simp: bit_simps)

lemma aligned_dvd:
  assumes "x AND ADDRESS_MASK = x" shows "4096 dvd unat x"
proof -
  have "x AND mask 12 = (x AND ADDRESS_MASK) AND mask 12" by (simp only: assms)
  also have "\<dots> = 0" unfolding page_masks(4) by (rule and_clear)
  finally have "take_bit 12 x = 0" by (simp add: take_bit_eq_mask)
  then have "take_bit 12 (unat x) = 0" by (simp flip: unsigned_take_bit_eq)
  then show ?thesis by (simp add: take_bit_eq_mod mod_eq_0_iff_dvd)
qed

lemma entry_address_inj:
  assumes h: "4096 dvd unat h" and "x AND ADDRESS_MASK = x" "y AND ADDRESS_MASK = y" "i < 512" "j < 512"
  shows "unat (h + x) + 8 * i = unat (h + y) + 8 * j \<longleftrightarrow> x = y \<and> i = j"
proof -
  have d: "4096 dvd unat (h + z)" if "z AND ADDRESS_MASK = z" for z
  proof -
    have "4096 dvd unat h + unat z" using h aligned_dvd [OF that] by (rule dvd_add)
    then show ?thesis by (simp add: unat_word_ariths dvd_mod)
  qed
  have q: "(4096 * a + 8 * i) div 4096 = a" if "i < 512" for a i :: nat
    using that by simp
  from d obtain a b where a: "unat (h + x) = 4096 * a" "unat (h + y) = 4096 * b"
    using assms(2,3) by (meson dvdE)
  have "unat (h + x) + 8 * i = unat (h + y) + 8 * j \<longleftrightarrow> a = b \<and> i = j"
    unfolding a using q [of i a] q [of j b] assms(4,5) by (metis add_left_cancel mult_left_cancel zero_neq_numeral)
  also have "a = b \<longleftrightarrow> unat (h + x) = unat (h + y)" using a by simp
  also have "\<dots> \<longleftrightarrow> x = y" by (metis add_left_cancel unsigned_word_eqI)
  finally show ?thesis .
qed

text \<open>The registers, which no operation on tables changes.\<close>

definition regs :: "paging \<Rightarrow> u64 \<times> u64 \<times> u64 \<times> u64 \<times> u64 \<times> bool" where
  "regs st = (pg_hhdm st, pg_cr0 st, pg_cr3 st, pg_cr4 st, pg_efer st, pg_ready st)"

lemma regs_simps:
  assumes "regs st' = regs st"
  shows "pg_hhdm st' = pg_hhdm st" "current_root_phys st' = current_root_phys st"
    "la57_enabled st' = la57_enabled st" "nx_flags st' = nx_flags st" "direct_map st' = direct_map st"
  using assms by (auto simp: regs_def current_root_phys_def la57_enabled_def nx_flags_def nx_enabled_def direct_map_def)

lemma write_entry_same [simp]:
  "pg_frames (write_entry t i x st) = pg_frames st" "regs (write_entry t i x st) = regs st"
  by (simp_all add: write_entry_def regs_def)

lemma direct_map_write [simp]: "direct_map (write_entry t i e st) = direct_map st"
  by (simp add: direct_map_def write_entry_def)

lemma read_write_entry:
  assumes "direct_map st" "x AND ADDRESS_MASK = x" "t AND ADDRESS_MASK = t" "i < 512" "j < 512"
  shows "read_raw_entry (write_entry t i e st) x j = (if x = t \<and> j = i then e else read_raw_entry st x j)"
  using entry_address_inj [of "pg_hhdm st" x t j i] assms
  by (auto simp: read_raw_entry_def write_entry_def direct_map_def)

lemma write_entries:
  fixes g :: "nat \<Rightarrow> u64"
  assumes "direct_map st" "t AND ADDRESS_MASK = t"
  defines "st' \<equiv> fold (\<lambda>i s. write_entry t i (g i) s) [0..<512] st"
  shows "pg_frames st' = pg_frames st" "regs st' = regs st"
    "x AND ADDRESS_MASK = x \<Longrightarrow> j < 512 \<Longrightarrow>
      read_raw_entry st' x j = (if x = t then g j else read_raw_entry st x j)"
proof -
  have all: "pg_frames (fold (\<lambda>i s. write_entry t i (g i) s) [0..<n] st) = pg_frames st \<and>
    regs (fold (\<lambda>i s. write_entry t i (g i) s) [0..<n] st) = regs st \<and>
    (x AND ADDRESS_MASK = x \<longrightarrow> j < 512 \<longrightarrow>
      read_raw_entry (fold (\<lambda>i s. write_entry t i (g i) s) [0..<n] st) x j =
        (if x = t \<and> j < n then g j else read_raw_entry st x j))" if "n \<le> 512" for n x j
    using that
  proof (induction n)
    case (Suc n)
    then show ?case
      using assms(2) regs_simps(5) [of "fold (\<lambda>i s. write_entry t i (g i) s) [0..<n] st" st] assms(1)
      by (auto simp: read_write_entry less_Suc_eq)
  qed simp
  show "pg_frames st' = pg_frames st" "regs st' = regs st"
    unfolding st'_def using all [of 512] by blast+
  show "x AND ADDRESS_MASK = x \<Longrightarrow> j < 512 \<Longrightarrow>
      read_raw_entry st' x j = (if x = t then g j else read_raw_entry st x j)"
    unfolding st'_def using all [of 512 x j] by auto
qed

lemma zeroed_words:
  "fold (\<lambda>i m. m(b + 8 * i := (0 :: u64))) [0..<n] m a = (if \<exists>i < n. a = b + 8 * i then 0 else m a)"
  by (induction n) (auto simp: less_Suc_eq)

lemma frame_addr_facts:
  assumes "i < MAX_FRAMES"
  shows "unat (frame_addr i) = i * FRAME_SIZE" "frame_addr i AND ADDRESS_MASK = frame_addr i"
proof -
  have less: "i * 4096 < 2 ^ 36" using assms by (simp add: MAX_FRAMES_def)
  then show frame: "unat (frame_addr i) = i * FRAME_SIZE"
    unfolding frame_addr_def FRAME_SIZE_def by (simp only: unat_of_nat) simp
  have e: "frame_addr i = push_bit 12 (of_nat i)"
    by (simp add: frame_addr_def FRAME_SIZE_def push_bit_eq_mult mult.commute)
  have "take_bit 52 (frame_addr i) = frame_addr i"
  proof (rule word_unat_eq_iff [THEN iffD2])
    have "unat (take_bit 52 (frame_addr i)) = take_bit 52 (unat (frame_addr i))"
      by (rule unsigned_take_bit_eq)
    also have "\<dots> = unat (frame_addr i)"
      unfolding frame by (rule take_bit_nat_eq_self) (use less in \<open>simp add: FRAME_SIZE_def\<close>)
    finally show "unat (take_bit 52 (frame_addr i)) = unat (frame_addr i)" .
  qed
  moreover have "frame_addr i AND NOT (mask 12) = frame_addr i"
    unfolding e by (rule bit_word_eqI) (auto simp: bit_simps)
  ultimately show "frame_addr i AND ADDRESS_MASK = frame_addr i"
    unfolding page_masks(4) by (metis and.assoc and.commute take_bit_eq_mask)
qed

lemma allocate_zeroed:
  assumes dm: "direct_map st" and inv: "pmm_inv U (pg_frames st)"
  obtains (none) "free_pool st = {}" "allocate_zeroed_phys st = (None, st)"
  | (frame) i st' where "i \<in> free_pool st" "allocate_zeroed_phys st = (Some (frame_addr i), st')"
      "free_pool st' = free_pool st - {i}" "pmm_inv U (pg_frames st')" "regs st' = regs st"
      "\<And>x j. x AND ADDRESS_MASK = x \<Longrightarrow> j < 512 \<Longrightarrow>
        read_raw_entry st' x j = (if x = frame_addr i then 0 else read_raw_entry st x j)"
  using inv
proof (cases rule: alloc_frame_cases)
  case empty
  then show ?thesis by (intro none) (simp_all add: allocate_zeroed_phys_def alloc_frame_zeroed_def)
next
  case (frame i)
  let ?h = "unat (pg_hhdm st)"
  define fr where "fr = snd (alloc_frame (pg_frames st))"
  define mm where "mm = fold (\<lambda>k m. m(?h + i * FRAME_SIZE + 8 * k := 0)) [0..<FRAME_SIZE div 8] (pg_mem st)"
  define st' where "st' = st\<lparr>pg_frames := fr, pg_mem := mm\<rparr>"
  have i: "i < MAX_FRAMES" using frame(1) inv by (auto simp: pmm_inv_def dest!: free_set_bound)
  have "(of_nat (?h + i * FRAME_SIZE) :: u64) = pg_hhdm st + frame_addr i"
    unfolding frame_addr_def by (simp only: of_nat_add unsigned_of_nat) simp
  then have e: "allocate_zeroed_phys st = (Some (frame_addr i), st')"
    using frame(2) by (simp add: allocate_zeroed_phys_def alloc_frame_zeroed_def st'_def fr_def mm_def)
  have bound: "?h + i * FRAME_SIZE < 2 ^ 64"
  proof -
    have "i * FRAME_SIZE < MAX_FRAMES * FRAME_SIZE" using i by simp
    then show ?thesis using dm unfolding direct_map_def by linarith
  qed
  then have addr: "unat (pg_hhdm st + frame_addr i) = ?h + i * FRAME_SIZE"
    using frame_addr_facts(1) [OF i] by (simp add: unat_word_ariths)
  have free: "free_pool st' = free_pool st - {i}"
    using frame by (simp add: st'_def fr_def free_set_used free_set_bound)
  show ?thesis
  proof (rule that(2) [OF frame(1) e free])
    show "pmm_inv U (pg_frames st')" using alloc_frame_inv [OF inv] by (simp add: st'_def fr_def)
    show "regs st' = regs st" by (simp add: regs_def st'_def)
    fix x j assume x: "x AND ADDRESS_MASK = x" and j: "j < (512 :: nat)"
    have "unat (pg_hhdm st + x) + 8 * j = unat (pg_hhdm st + frame_addr i) + 8 * k \<longleftrightarrow>
        x = frame_addr i \<and> j = k" if "k < 512" for k
      using entry_address_inj [OF _ x frame_addr_facts(2) [OF i] j that] dm by (simp add: direct_map_def)
    then have "(\<exists>k < 512. unat (pg_hhdm st + x) + 8 * j = unat (pg_hhdm st + frame_addr i) + 8 * k) \<longleftrightarrow>
        x = frame_addr i"
      using j by blast
    then show "read_raw_entry st' x j = (if x = frame_addr i then 0 else read_raw_entry st x j)"
      unfolding addr by (simp add: read_raw_entry_def st'_def mm_def zeroed_words FRAME_SIZE_def)
  qed
qed

end
