(* ===== verification/Vmm.thy ===== *)
theory Vmm
  imports Paging
begin

text \<open>
  The virtual memory manager (\<open>kernel/src/memory/vmm.rs\<close>): building and activating the kernel's address
  space, and mapping pages for user mode. Reloading CR3 to flush the translation cache has no effect here.
\<close>

section \<open>Address spaces\<close>

definition enable_efer_nxe :: "paging \<Rightarrow> paging" where
  "enable_efer_nxe st =
     (if pg_efer st AND push_bit 11 1 \<noteq> 0 then st
      else if \<not> cpu_has_nx st then st
      else st\<lparr>pg_efer := pg_efer st OR push_bit 11 1\<rparr>)"

definition enable_cr0_wp :: "paging \<Rightarrow> paging" where
  "enable_cr0_wp st =
     (if pg_cr0 st AND push_bit 16 1 = 0 then st\<lparr>pg_cr0 := pg_cr0 st OR push_bit 16 1\<rparr> else st)"

definition build_kernel_space :: "u64 \<Rightarrow> paging \<Rightarrow> u64 option \<times> paging" where
  "build_kernel_space hhdm st =
     (let current = hhdm + current_root_phys st
      in case alloc_frame_zeroed (unat hhdm) (pg_frames st) (pg_mem st) of
           (None, fr, mm) \<Rightarrow> (None, st\<lparr>pg_frames := fr, pg_mem := mm\<rparr>)
         | (Some virt, fr, mm) \<Rightarrow>
             let new_pml4_phys = of_nat virt - hhdm;
                 st1 = st\<lparr>pg_frames := fr, pg_mem := mm\<rparr>
             in if new_pml4_phys = 0 \<or> new_pml4_phys AND 0xFFF \<noteq> 0 \<or> new_pml4_phys < 0x100000
                then (None, st1)
                else
                  let (copied, m) = fold (\<lambda>i (copied, m).
                        let entry = m (unat current + 8 * i)
                        in (if entry AND ENTRY_PRESENT \<noteq> 0 then copied + 1 else copied,
                            m(virt + 8 * i := entry))) [0..<512] (0 :: nat, mm);
                      st2 = st1\<lparr>pg_mem := m\<rparr>
                  in if copied = 0 then (None, st2)
                     else (Some new_pml4_phys, st2\<lparr>pg_new_pml4 := new_pml4_phys\<rparr>))"

definition activate :: "u64 \<Rightarrow> (string \<times> u64) list \<Rightarrow> paging \<Rightarrow> bool \<times> paging" where
  "activate new_pml4_phys regions st =
     (let st1 = enable_cr0_wp (enable_efer_nxe st);
          (mapped, failed) = validate_space st1 new_pml4_phys regions
      in if failed \<noteq> 0 \<or> mapped = 0 then (False, st1)
         else (True, st1\<lparr>pg_cr3 := new_pml4_phys, pg_ready := True\<rparr>))"

definition vmm_init :: "u64 \<Rightarrow> (string \<times> u64) list \<Rightarrow> paging \<Rightarrow> u64 option \<times> paging" where
  "vmm_init hhdm regions st =
     (case build_kernel_space hhdm st of
        (None, st') \<Rightarrow> (None, st')
      | (Some pml4, st') \<Rightarrow>
          (case activate pml4 regions st' of
             (True, st'') \<Rightarrow> (Some pml4, st'')
           | (False, st'') \<Rightarrow> (None, st'')))"

section \<open>Mapping a page\<close>

definition pml4_table :: "paging \<Rightarrow> u64" where
  "pml4_table st =
     (if la57_enabled st
      then case read_entry st (current_root_phys st) 0 of
             Some entry \<Rightarrow> entry AND ADDRESS_MASK
           | None \<Rightarrow> current_root_phys st
      else current_root_phys st)"

text \<open>A new, empty table behind entry \<open>i\<close> of \<open>t\<close>: the last branch of each level.\<close>

definition link_new_table :: "u64 \<Rightarrow> nat \<Rightarrow> paging \<Rightarrow> u64 option \<times> paging" where
  "link_new_table t i st =
     (case allocate_zeroed_phys st of
        (None, st') \<Rightarrow> (None, st')
      | (Some frame_phys, st') \<Rightarrow>
          (Some frame_phys, write_entry t i (frame_phys OR ENTRY_PRESENT OR ENTRY_USER) st'))"

text \<open>A huge page replaced by a table of pages of the next smaller size, with the given flags.\<close>

definition split_page :: "u64 \<Rightarrow> nat \<Rightarrow> u64 \<Rightarrow> u64 \<Rightarrow> u64 \<Rightarrow> paging \<Rightarrow> u64 option \<times> paging" where
  "split_page t i huge_phys small flags st =
     (case allocate_zeroed_phys st of
        (None, st') \<Rightarrow> (None, st')
      | (Some frame_phys, st') \<Rightarrow>
          (Some frame_phys,
           write_entry t i (frame_phys OR ENTRY_PRESENT OR ENTRY_USER OR ENTRY_WRITABLE)
             (fold (\<lambda>k s. write_entry frame_phys k ((huge_phys + of_nat k * small) OR flags) s)
               [0..<512] st')))"

definition ensure_pdpt :: "u64 \<Rightarrow> nat \<Rightarrow> paging \<Rightarrow> u64 option \<times> paging" where
  "ensure_pdpt pml4 i st =
     (let pml4e = read_raw_entry st pml4 i
      in if pml4e AND ENTRY_PRESENT \<noteq> 0
         then (Some (pml4e AND 0x000FFFFFFFFFF000),
               if pml4e AND ENTRY_USER = 0 then write_entry pml4 i (pml4e OR ENTRY_USER) st else st)
         else link_new_table pml4 i st)"

definition ensure_pd :: "u64 \<Rightarrow> nat \<Rightarrow> paging \<Rightarrow> u64 option \<times> paging" where
  "ensure_pd pdpt i st =
     (let pdpt_entry = read_raw_entry st pdpt i
      in if pdpt_entry AND ENTRY_PRESENT \<noteq> 0
         then
           if pdpt_entry AND ENTRY_HUGE_PAGE \<noteq> 0
           then split_page pdpt i (pdpt_entry AND 0x0000007FC0000000) (2 * 1024 * 1024)
                  (ENTRY_PRESENT OR ENTRY_USER OR ENTRY_WRITABLE OR ENTRY_HUGE_PAGE) st
           else (Some (pdpt_entry AND 0x000FFFFFFFFFF000),
                 if pdpt_entry AND ENTRY_USER = 0 then write_entry pdpt i (pdpt_entry OR ENTRY_USER) st else st)
         else link_new_table pdpt i st)"

definition ensure_pt :: "u64 \<Rightarrow> nat \<Rightarrow> paging \<Rightarrow> u64 option \<times> paging" where
  "ensure_pt pd i st =
     (let pd_entry = read_raw_entry st pd i
      in if pd_entry AND ENTRY_PRESENT \<noteq> 0
         then
           if pd_entry AND ENTRY_HUGE_PAGE \<noteq> 0
           then split_page pd i (pd_entry AND 0x000FFFFFFFE00000) 4096
                  (ENTRY_PRESENT OR ENTRY_USER OR ENTRY_WRITABLE) st
           else (Some (pd_entry AND 0x000FFFFFFFFFF000), st)
         else link_new_table pd i st)"

definition map_user_pages :: "u64 \<Rightarrow> u64 \<Rightarrow> bool \<Rightarrow> bool \<Rightarrow> paging \<Rightarrow> bool \<times> paging" where
  "map_user_pages virt phys writable executable st =
     (case ensure_pdpt (pml4_table st) (index virt 39) st of
        (None, st1) \<Rightarrow> (False, st1)
      | (Some pdpt_phys, st1) \<Rightarrow>
     (case ensure_pd pdpt_phys (index virt 30) st1 of
        (None, st2) \<Rightarrow> (False, st2)
      | (Some pd_phys, st2) \<Rightarrow>
     (case ensure_pt pd_phys (index virt 21) st2 of
        (None, st3) \<Rightarrow> (False, st3)
      | (Some pt_phys, st3) \<Rightarrow>
          let flags = ENTRY_PRESENT OR ENTRY_USER OR (if writable then ENTRY_WRITABLE else 0) OR
                nx_flags st3 executable
          in (True, write_entry pt_phys (index virt 12) (phys OR flags) st3))))"

text \<open>Mapping a page at the first address of a free slot of the PML4 (slots 2 to 255).\<close>

definition map_user_page_fresh :: "u64 \<Rightarrow> bool \<Rightarrow> bool \<Rightarrow> paging \<Rightarrow> u64 option \<times> paging" where
  "map_user_page_fresh phys writable executable st =
     (let pml4 = pml4_table st
      in case find (\<lambda>slot. read_raw_entry st pml4 slot AND ENTRY_PRESENT = 0) [2..<256] of
           None \<Rightarrow> (None, st)
         | Some slot \<Rightarrow>
             let virt = push_bit 39 (of_nat slot);
                 link = ENTRY_PRESENT OR ENTRY_WRITABLE OR ENTRY_USER
             in (case allocate_zeroed_phys st of
                   (None, st1) \<Rightarrow> (None, st1)
                 | (Some pdpt_phys, st1) \<Rightarrow>
                     let st2 = write_entry pml4 slot (pdpt_phys OR link) st1
                     in (case allocate_zeroed_phys st2 of
                           (None, st3) \<Rightarrow> (None, st3)
                         | (Some pd_phys, st3) \<Rightarrow>
                             let st4 = write_entry pdpt_phys 0 (pd_phys OR link) st3
                             in (case allocate_zeroed_phys st4 of
                                   (None, st5) \<Rightarrow> (None, st5)
                                 | (Some pt_phys, st5) \<Rightarrow>
                                     let st6 = write_entry pd_phys 0 (pt_phys OR link) st5;
                                         flags = ENTRY_PRESENT OR ENTRY_USER OR
                                           (if writable then ENTRY_WRITABLE else 0) OR nx_flags st6 executable
                                     in (Some virt, write_entry pt_phys 0 (phys OR flags) st6)))))"

section \<open>Bits of entries\<close>

lemma masked_or:
  assumes "f AND ADDRESS_MASK = f" "c AND ADDRESS_MASK = 0"
  shows "(f OR c) AND ADDRESS_MASK = f" "d AND ADDRESS_MASK = 0 \<Longrightarrow> (f OR c) AND d = c AND d"
proof -
  show "(f OR c) AND ADDRESS_MASK = f"
    using assms by (simp add: bit.conj_disj_distrib2)
  assume d: "d AND ADDRESS_MASK = 0"
  have "f AND d = (f AND ADDRESS_MASK) AND d" by (simp only: assms(1))
  also have "\<dots> = f AND (d AND ADDRESS_MASK)" by (simp add: and.assoc and.commute and.left_commute)
  also have "\<dots> = 0" by (simp only: d and_zero_eq)
  finally show "(f OR c) AND d = c AND d" by (simp add: bit.conj_disj_distrib2)
qed

lemma flag_bits:
  "ENTRY_PRESENT AND ADDRESS_MASK = 0" "ENTRY_WRITABLE AND ADDRESS_MASK = 0" "ENTRY_USER AND ADDRESS_MASK = 0"
  "ENTRY_HUGE_PAGE AND ADDRESS_MASK = 0" "ENTRY_NX AND ADDRESS_MASK = 0"
  by (simp_all add: ENTRY_PRESENT_def ENTRY_WRITABLE_def ENTRY_USER_def ENTRY_HUGE_PAGE_def ENTRY_NX_def
      ADDRESS_MASK_def)

lemma link_step:
  assumes "f AND ADDRESS_MASK = f" "c AND ADDRESS_MASK = 0" "c AND ENTRY_PRESENT \<noteq> 0" "c AND ENTRY_HUGE_PAGE = 0"
  shows "entry_step (Suc l) (f OR c) = Link f"
  using assms masked_or [OF assms(1,2)] by (simp add: entry_step_def flag_bits)

lemma lv_word: "(of_nat (lv l w) :: u64) = take_bit 9 (drop_bit (12 + 9 * l) w)"
proof -
  have m: "(0x1FF :: u64) = mask 9" by (simp add: mask_eq_exp_minus_1)
  show ?thesis unfolding lv_def index_def m by (simp add: take_bit_eq_mask)
qed

lemma split_phys:
  assumes "s = 12 + 9 * l" "s \<le> 21" "b AND mask (s + 9) = 0" "b AND ADDRESS_MASK = b" "flags AND NOT (mask 12) = 0"
  shows "(((b + of_nat (lv l w) * 2 ^ s) OR flags) AND ADDRESS_MASK AND NOT (mask s)) OR (w AND mask s) =
    b OR (w AND mask (s + 9))"
proof -
  let ?x = "push_bit s (take_bit 9 (drop_bit s w))"
  have x: "of_nat (lv l w) * 2 ^ s = ?x"
    by (simp add: lv_word push_bit_eq_mult assms(1))
  have bb: "s + 9 \<le> n" if "bit b n" for n
  proof (rule ccontr)
    assume "\<not> s + 9 \<le> n"
    moreover
    have "\<not> bit (b AND mask (s + 9)) n" using assms(3) by simp
    ultimately show False using that by (auto simp: bit_simps dest: bit_imp_le_length)
  qed
  have fb: "n < 12" if "bit flags n" for n
  proof (rule ccontr)
    assume "\<not> n < 12"
    moreover
    have "\<not> bit (flags AND NOT (mask 12)) n" using assms(5) by simp
    ultimately show False using that by (auto simp: bit_simps dest: bit_imp_le_length)
  qed
  have ab: "bit b n \<Longrightarrow> bit ADDRESS_MASK n" for n
    using assms(4) by (metis bit_and_iff)
  have am: "bit ADDRESS_MASK n \<longleftrightarrow> 12 \<le> n \<and> n < 52" for n
    unfolding page_masks(4) by (auto simp: bit_simps)
  have "b AND ?x = 0"
    by (rule bit_word_eqI) (auto simp: bit_simps dest: bb)
  then have sum: "b + ?x = b OR ?x" by (rule disjunctive_add_eq_or)
  show ?thesis unfolding x sum
    by (rule bit_word_eqI)
      (use assms(1,2) in \<open>auto simp: bit_simps am dest: bb fb ab\<close>)
qed

section \<open>Steps that keep the translation\<close>

text \<open>
  The effect that every step of \<open>map_user_pages\<close> before the last has on the space: it stays well formed, every
  address keeps its physical address, at most one frame is taken, and above level \<open>l\<close> the way of \<open>v\<close>
  is as before.
\<close>

definition phys_at :: "paging \<Rightarrow> u64 \<Rightarrow> u64 \<Rightarrow> u64 option" where
  "phys_at st r w = map_option (leaf_phys w) (walk (read_raw_entry st) 3 r w)"

definition step_ok :: "nat set \<Rightarrow> u64 \<Rightarrow> u64 \<Rightarrow> nat \<Rightarrow> paging \<Rightarrow> paging \<Rightarrow> bool" where
  "step_ok U r v l st st' \<longleftrightarrow> space_ok U st' r \<and> regs st' = regs st \<and> phys_at st' r = phys_at st r \<and>
     card (free_pool st) \<le> card (free_pool st') + 1 \<and>
     (\<forall>i x. l < i \<longrightarrow> tab (read_raw_entry st) 3 r v i = Some x \<longrightarrow>
        tab (read_raw_entry st') 3 r v i = Some x \<and>
        (Suc l < i \<longrightarrow> read_raw_entry st' x (lv i v) = read_raw_entry st x (lv i v)))"

lemma space_okD:
  assumes "space_ok U st r"
  shows "direct_map st" "pmm_inv U (pg_frames st)" "r AND ADDRESS_MASK = r" "tree (read_raw_entry st) r"
    "i \<in> free_pool st \<Longrightarrow> tab (read_raw_entry st) 3 r w l \<noteq> Some (frame_addr i)"
    "i \<in> free_pool st \<Longrightarrow> frame_addr i AND ADDRESS_MASK = frame_addr i"
    "tab (read_raw_entry st) 3 r w l = Some x \<Longrightarrow> x AND ADDRESS_MASK = x"
proof -
  show "direct_map st" "pmm_inv U (pg_frames st)" "r AND ADDRESS_MASK = r" "tree (read_raw_entry st) r"
    using assms unfolding space_ok_def by blast+
  show "i \<in> free_pool st \<Longrightarrow> tab (read_raw_entry st) 3 r w l \<noteq> Some (frame_addr i)"
    using assms unfolding space_ok_def by blast
  show "i \<in> free_pool st \<Longrightarrow> frame_addr i AND ADDRESS_MASK = frame_addr i"
    using assms by (intro frame_addr_facts(2)) (auto simp: space_ok_def pmm_inv_def dest!: free_set_bound)
  show "tab (read_raw_entry st) 3 r w l = Some x \<Longrightarrow> x AND ADDRESS_MASK = x"
    using assms tab_aligned unfolding space_ok_def by blast
qed

lemma frame_addr_inj: "i < MAX_FRAMES \<Longrightarrow> j < MAX_FRAMES \<Longrightarrow> frame_addr i = frame_addr j \<longleftrightarrow> i = j"
  using frame_addr_facts(1) [of i] frame_addr_facts(1) [of j] by (metis FRAME_SIZE_pos(2) mult_cancel2)

lemma attach:
  assumes ok: "space_ok U st r" and tv: "tab (read_raw_entry st) 3 r v (Suc l) = Some t"
    and stuck: "tab (read_raw_entry st) 3 r v l = None"
    and i: "i \<in> free_pool st" and f: "f = frame_addr i"
    and fr: "free_pool st' = free_pool st - {i}" "pmm_inv U (pg_frames st')" "regs st' = regs st"
    and link: "entry_step (Suc l) (read_raw_entry st' t (lv (Suc l) v)) = Link f"
    and new: "\<And>w c. entry_step l (read_raw_entry st' f (lv l w)) \<noteq> Link c"
    and same: "\<And>x j. x AND ADDRESS_MASK = x \<Longrightarrow> j < 512 \<Longrightarrow> x \<noteq> f \<Longrightarrow> x \<noteq> t \<or> j \<noteq> lv (Suc l) v \<Longrightarrow>
      read_raw_entry st' x j = read_raw_entry st x j"
    and phys: "\<And>w. lv (Suc l) w = lv (Suc l) v \<Longrightarrow>
      (if entry_step l (read_raw_entry st' f (lv l w)) = Leaf
       then Some (leaf_phys w (l, read_raw_entry st' f (lv l w))) else None) =
      (if entry_step (Suc l) (read_raw_entry st t (lv (Suc l) v)) = Leaf
       then Some (leaf_phys w (Suc l, read_raw_entry st t (lv (Suc l) v))) else None)"
  shows "step_ok U r v l st st' \<and> tab (read_raw_entry st') 3 r v l = Some f"
proof
  let ?E = "read_raw_entry st" and ?E' = "read_raw_entry st'"
  note D = space_okD [OF ok]
  have fresh: "tab ?E 3 r w k \<noteq> Some f" for w k unfolding f using D(5) [OF i] .
  have keep: "?E' x (lv k w) = ?E x (lv k w)"
    if "tab ?E 3 r w k = Some x" "x \<noteq> t \<or> lv k w \<noteq> lv (Suc l) v" for w k x
    using same [OF D(7) [OF that(1)], of "lv k w"] that fresh by auto
  have "\<forall>w k x. tab ?E 3 r w k = Some x \<longrightarrow> x \<noteq> t \<or> lv k w \<noteq> lv (Suc l) v \<longrightarrow> ?E' x (lv k w) = ?E x (lv k w)"
    using keep by blast
  note N = new_table [OF D(4) tv stuck fresh this link new]
  have tr: "tree ?E' r" by (rule new_table_tree [OF D(4) tv fresh N(1)])
  have small: "j \<in> free_pool st \<Longrightarrow> j < MAX_FRAMES" for j
    using D(2) by (auto simp: pmm_inv_def dest!: free_set_bound)
  have "tab ?E' 3 r w k \<noteq> Some (frame_addr j)" if "j \<in> free_pool st'" for w k j
    using that fr(1) D(5) [of j w k] frame_addr_inj [of i j] small i unfolding N(1) f by auto
  then have ok': "space_ok U st' r"
    using tr fr(2) D(1,3) regs_simps(5) [OF fr(3)] by (simp add: space_ok_def)
  show "tab ?E' 3 r v l = Some f" using tv by (simp add: N(1) below_def)
  have leaf: "walk ?E' l f w = (if entry_step l (?E' f (lv l w)) = Leaf then Some (l, ?E' f (lv l w)) else None)" for w
    using new [of w] by (cases l) (auto split: step.split)
  have "entry_step (Suc l) (?E t (lv (Suc l) v)) \<noteq> Link c" for c
    using tab_link [OF tv] stuck by auto
  then have old: "walk ?E 3 r w = (if entry_step (Suc l) (?E t (lv (Suc l) v)) = Leaf
      then Some (Suc l, ?E t (lv (Suc l) v)) else None)" if "below ?E r (Suc l) t (lv (Suc l) v) w" for w
    using walk_descend [of ?E 3 r w "Suc l" t] that by (auto simp: below_def split: step.split)
  have "phys_at st' r w = phys_at st r w" for w
    using phys [of w] old [of w] by (auto simp: phys_at_def N(2) leaf below_def split: if_splits)
  moreover have "card (free_pool st) \<le> card (free_pool st') + 1"
    using i by (simp add: fr(1) card_Diff_singleton)
  moreover have "tab ?E' 3 r v k = Some x \<and> (Suc l < k \<longrightarrow> ?E' x (lv k v) = ?E x (lv k v))"
    if "l < k" "tab ?E 3 r v k = Some x" for k x
    using that keep [OF that(2)] treeD(1) [OF D(4) tv, of v k] by (auto simp: N(1))
  ultimately show "step_ok U r v l st st'"
    using ok' fr(3) unfolding step_ok_def by blast
qed

lemma step_ok_refl: "space_ok U st r \<Longrightarrow> step_ok U r v l st st"
  by (simp add: step_ok_def)

lemma mark_user:
  assumes ok: "space_ok U st r" and tv: "tab (read_raw_entry st) 3 r v (Suc l) = Some t"
    and e: "e = read_raw_entry st t (lv (Suc l) v)" "entry_step (Suc l) e = Link c"
    and st': "st' = write_entry t (lv (Suc l) v) (e OR ENTRY_USER) st"
  shows "step_ok U r v l st st'" "tab (read_raw_entry st') 3 r v l = Some c"
    "read_raw_entry st' t (lv (Suc l) v) = e OR ENTRY_USER"
    "tab (read_raw_entry st') 3 r = tab (read_raw_entry st) 3 r"
    "\<And>i x. i \<noteq> Suc l \<Longrightarrow> tab (read_raw_entry st) 3 r v i = Some x \<Longrightarrow>
       read_raw_entry st' x (lv i v) = read_raw_entry st x (lv i v)"
proof -
  let ?E = "read_raw_entry st" and ?E' = "read_raw_entry st'"
  note D = space_okD [OF ok]
  show "?E' t (lv (Suc l) v) = e OR ENTRY_USER"
    unfolding st' using read_write_entry [OF D(1) D(7) [OF tv] D(7) [OF tv]] by simp
  have "(e OR ENTRY_USER) AND b = e AND b" if "ENTRY_USER AND b = 0" for b
    using that by (simp add: bit.conj_disj_distrib2)
  then have u: "entry_step i (e OR ENTRY_USER) = entry_step i e" for i
    unfolding entry_step_def
    by (simp add: flag_bits ENTRY_USER_def ENTRY_PRESENT_def ENTRY_HUGE_PAGE_def ADDRESS_MASK_def)
  have rd: "?E' x (lv i w) = (if x = t \<and> lv i w = lv (Suc l) v then e OR ENTRY_USER else ?E x (lv i w))"
    if "tab ?E 3 r w i = Some x" for w i x
    unfolding st' by (rule read_write_entry [OF D(1) D(7) [OF that] D(7) [OF tv]]) simp_all
  have same: "\<forall>w i x. tab ?E 3 r w i = Some x \<longrightarrow>
      entry_step i (?E' x (lv i w)) = entry_step i (?E x (lv i w)) \<and>
      (entry_step i (?E x (lv i w)) = Leaf \<longrightarrow> ?E' x (lv i w) = ?E x (lv i w))"
  proof (intro allI impI, goal_cases)
    case (1 w i x)
    show ?case
    proof (cases "x = t \<and> lv i w = lv (Suc l) v")
      case True
      with 1 have i: "i = Suc l" using treeD(1) [OF D(4) tv] by blast
      then have "?E' x (lv i w) = e OR ENTRY_USER" "?E x (lv i w) = e" using rd [OF 1] True e(1) by simp_all
      then show ?thesis using u e(2) i by simp
    qed (use rd [OF 1] in auto)
  qed
  note S = same_steps [OF same]
  have ok': "space_ok U st' r"
    using ok S regs_simps(5) [of st' st] unfolding space_ok_def by (simp add: st')
  show other: "?E' x (lv k v) = ?E x (lv k v)" if "k \<noteq> Suc l" "tab ?E 3 r v k = Some x" for k x
  proof -
    have "x \<noteq> t" using treeD(1) [OF D(4) tv, of v k] that by auto
    then show ?thesis using rd [OF that(2)] by simp
  qed
  then have above: "tab ?E' 3 r v k = Some x \<and> (Suc l < k \<longrightarrow> ?E' x (lv k v) = ?E x (lv k v))"
    if "l < k" "tab ?E 3 r v k = Some x" for k x
    using that unfolding S(1) by simp
  show "tab ?E' 3 r = tab ?E 3 r" by (rule S(1))
  show "step_ok U r v l st st'"
    unfolding step_ok_def phys_at_def S(2) using ok' above by (simp add: st')
  show "tab ?E' 3 r v l = Some c" using tab_link [OF tv] e by (simp add: S(1))
qed

lemma attach_zeroed:
  assumes ok: "space_ok U st r" and tv: "tab (read_raw_entry st) 3 r v (Suc l) = Some t"
    and e: "entry_step (Suc l) (read_raw_entry st t (lv (Suc l) v)) = Missing"
    and c: "c AND ADDRESS_MASK = 0" "c AND ENTRY_PRESENT \<noteq> 0" "c AND ENTRY_HUGE_PAGE = 0"
  obtains (none) "free_pool st = {}" "allocate_zeroed_phys st = (None, st)"
  | (some) f st1 st' where "allocate_zeroed_phys st = (Some f, st1)" "st' = write_entry t (lv (Suc l) v) (f OR c) st1"
      "step_ok U r v l st st'" "tab (read_raw_entry st') 3 r v l = Some f"
      "read_raw_entry st' t (lv (Suc l) v) = f OR c" "\<And>j. j < 512 \<Longrightarrow> read_raw_entry st' f j = 0"
      "f AND ADDRESS_MASK = f"
proof -
  note D = space_okD [OF ok]
  show thesis
  proof (cases rule: allocate_zeroed [OF D(1,2)])
    case 1
    then show ?thesis by (rule none)
  next
    case (2 i st1)
    let ?f = "frame_addr i"
    define st' where "st' = write_entry t (lv (Suc l) v) (?f OR c) st1"
    have ne: "?f \<noteq> t" using D(5) [OF 2(1)] tv by metis
    have dm: "direct_map st1" using D(1) regs_simps(5) [OF 2(5)] by simp
    have rd: "read_raw_entry st' x j = (if x = t \<and> j = lv (Suc l) v then ?f OR c
        else if x = ?f then 0 else read_raw_entry st x j)" if "x AND ADDRESS_MASK = x" "j < 512" for x j
      unfolding st'_def using read_write_entry [OF dm that(1) D(7) [OF tv] lv_less that(2)] 2(6) [OF that] by auto
    have entry: "read_raw_entry st' t (lv (Suc l) v) = ?f OR c" using rd [OF D(7) [OF tv]] by simp
    have link: "entry_step (Suc l) (read_raw_entry st' t (lv (Suc l) v)) = Link ?f"
      unfolding entry by (rule link_step [OF D(6) [OF 2(1)] c])
    have zero: "read_raw_entry st' ?f j = 0" if "j < 512" for j
      using rd [OF D(6) [OF 2(1)] that] ne by simp
    have "step_ok U r v l st st' \<and> tab (read_raw_entry st') 3 r v l = Some ?f"
    proof (rule attach [OF ok tv _ 2(1) refl _ _ _ link])
      show "tab (read_raw_entry st) 3 r v l = None" using tab_link [OF tv] e by simp
      show "free_pool st' = free_pool st - {i}" "pmm_inv U (pg_frames st')" "regs st' = regs st"
        unfolding st'_def using 2(3,4,5) by simp_all
      show "(if entry_step l (read_raw_entry st' ?f (lv l w)) = Leaf
          then Some (leaf_phys w (l, read_raw_entry st' ?f (lv l w))) else None) =
        (if entry_step (Suc l) (read_raw_entry st t (lv (Suc l) v)) = Leaf
          then Some (leaf_phys w (Suc l, read_raw_entry st t (lv (Suc l) v))) else None)" for w
        using e zero by (simp add: entry_step_def)
      show "entry_step l (read_raw_entry st' ?f (lv l w)) \<noteq> Link d" for w d
        using zero by (simp add: entry_step_def)
    qed (use rd in auto)
    then show thesis by (intro some [OF 2(2) st'_def _ _ entry zero D(6) [OF 2(1)]]) blast+
  qed
qed

lemma link_new_table_ok:
  assumes ok: "space_ok U st r" and tv: "tab (read_raw_entry st) 3 r v (Suc l) = Some t"
    and e: "entry_step (Suc l) (read_raw_entry st t (lv (Suc l) v)) = Missing"
    and res: "link_new_table t (lv (Suc l) v) st = (res, st')"
  shows "(res = None \<and> st' = st \<and> free_pool st = {}) \<or>
    (\<exists>f. res = Some f \<and> step_ok U r v l st st' \<and> tab (read_raw_entry st') 3 r v l = Some f \<and>
      read_raw_entry st' t (lv (Suc l) v) = f OR (ENTRY_PRESENT OR ENTRY_USER))"
proof -
  let ?c = "ENTRY_PRESENT OR ENTRY_USER"
  have c: "?c AND ADDRESS_MASK = 0" "?c AND ENTRY_PRESENT \<noteq> 0" "?c AND ENTRY_HUGE_PAGE = 0"
    by (simp_all add: ENTRY_PRESENT_def ENTRY_USER_def ADDRESS_MASK_def ENTRY_HUGE_PAGE_def)
  show ?thesis
  proof (cases rule: attach_zeroed [OF ok tv e c])
    case 1
    then show ?thesis using res by (simp add: link_new_table_def)
  next
    case (2 f st1 st2)
    then have "res = Some f" "st' = st2" using res by (simp_all add: link_new_table_def)
    then show ?thesis using 2(3,4,5) by simp
  qed
qed

lemma split_page_ok:
  assumes ok: "space_ok U st r" and tv: "tab (read_raw_entry st) 3 r v (Suc l) = Some t"
    and e: "e = read_raw_entry st t (lv (Suc l) v)" "entry_step (Suc l) e = Leaf"
    and l: "s = 12 + 9 * l" "s \<le> 21"
    and b: "b = e AND ADDRESS_MASK AND NOT (mask (s + 9))"
    and flags: "flags AND NOT (mask 12) = 0" "entry_step l flags = Leaf"
    and res: "split_page t (lv (Suc l) v) b (2 ^ s) flags st = (res, st')"
  shows "(res = None \<and> st' = st \<and> free_pool st = {}) \<or>
    (\<exists>f. res = Some f \<and> step_ok U r v l st st' \<and> tab (read_raw_entry st') 3 r v l = Some f \<and>
      read_raw_entry st' t (lv (Suc l) v) = f OR (ENTRY_PRESENT OR ENTRY_USER OR ENTRY_WRITABLE))"
proof -
  note D = space_okD [OF ok]
  have bm: "b AND mask (s + 9) = 0" "b AND ADDRESS_MASK = b"
  proof -
    show "b AND mask (s + 9) = 0" unfolding b by (rule bit_word_eqI) (auto simp: bit_simps)
    show "b AND ADDRESS_MASK = b" unfolding b by (simp add: and.assoc and.commute and.left_commute)
  qed
  have small: "bit flags n \<Longrightarrow> n < 12" for n
  proof (rule ccontr)
    assume "bit flags n" "\<not> n < 12"
    then have "bit (flags AND NOT (mask 12)) n" by (auto simp: bit_simps dest: bit_imp_le_length)
    with flags(1) show False by simp
  qed
  define g where "g k = (b + of_nat k * 2 ^ s) OR flags" for k :: nat
  have g: "entry_step l (g (lv l w)) = Leaf" "leaf_phys w (l, g (lv l w)) = leaf_phys w (Suc l, e)" for w
  proof -
    have "leaf_phys w (l, g (lv l w)) = b OR (w AND mask (s + 9))"
      using split_phys [OF l bm flags(1), of w] by (simp add: leaf_phys_def g_def l(1))
    also have "\<dots> = leaf_phys w (Suc l, e)" unfolding leaf_phys_def b by (simp add: l(1) add.commute)
    finally show "leaf_phys w (l, g (lv l w)) = leaf_phys w (Suc l, e)" .
    have "present (x OR y)" "huge y \<Longrightarrow> huge (x OR y)" if "present y" for x y :: u64
    proof -
      have or: "(x OR y) AND c = 0 \<Longrightarrow> y AND c = 0" for c
        by (metis bit.conj_disj_distrib2 or_eq_0_iff)
      show "present (x OR y)" "huge y \<Longrightarrow> huge (x OR y)" using or that by blast+
    qed
    then show "entry_step l (g (lv l w)) = Leaf"
      using flags(2) unfolding g_def entry_step_def by (metis step.distinct(1,5))
  qed
  show ?thesis
  proof (cases rule: allocate_zeroed [OF D(1,2)])
    case 1
    then show ?thesis using res by (simp add: split_page_def)
  next
    case (2 i st1)
    let ?f = "frame_addr i"
    let ?c = "ENTRY_PRESENT OR ENTRY_USER OR ENTRY_WRITABLE"
    define st2 where "st2 = fold (\<lambda>k s. write_entry ?f k (g k) s) [0..<512] st1"
    have st': "res = Some ?f" "st' = write_entry t (lv (Suc l) v) (?f OR ?c) st2"
      using res 2(2) by (simp_all add: split_page_def st2_def g_def)
    have ne: "?f \<noteq> t" using D(5) [OF 2(1)] tv by metis
    have dm: "direct_map st1" using D(1) regs_simps(5) [OF 2(5)] by simp
    note W = write_entries [where g = g, OF dm D(6) [OF 2(1)], folded st2_def]
    have dm2: "direct_map st2" using dm regs_simps(5) [OF W(2)] by simp
    have rd: "read_raw_entry st' x j = (if x = t \<and> j = lv (Suc l) v then ?f OR ?c
        else if x = ?f then g j else read_raw_entry st x j)" if "x AND ADDRESS_MASK = x" "j < 512" for x j
      unfolding st' using read_write_entry [OF dm2 that(1) D(7) [OF tv] lv_less that(2)] W(3) [OF that] 2(6) [OF that]
      by auto
    have link: "entry_step (Suc l) (read_raw_entry st' t (lv (Suc l) v)) = Link ?f"
      using rd [OF D(7) [OF tv]] link_step [OF D(6) [OF 2(1)], of ?c l]
      by (simp add: ENTRY_PRESENT_def ENTRY_USER_def ENTRY_WRITABLE_def ADDRESS_MASK_def ENTRY_HUGE_PAGE_def)
    have new: "read_raw_entry st' ?f (lv l w) = g (lv l w)" for w
      using rd [OF D(6) [OF 2(1)], of "lv l w"] ne by simp
    have "step_ok U r v l st st' \<and> tab (read_raw_entry st') 3 r v l = Some ?f"
    proof (rule attach [OF ok tv _ 2(1) refl _ _ _ link])
      show "tab (read_raw_entry st) 3 r v l = None" using tab_link [OF tv] e by simp
      show "free_pool st' = free_pool st - {i}" "pmm_inv U (pg_frames st')" "regs st' = regs st"
        unfolding st' using 2(3,4,5) W(1,2) by simp_all
      show "entry_step l (read_raw_entry st' ?f (lv l w)) \<noteq> Link c" for w c
        unfolding new g(1) by simp
      show "(if entry_step l (read_raw_entry st' ?f (lv l w)) = Leaf
          then Some (leaf_phys w (l, read_raw_entry st' ?f (lv l w))) else None) =
        (if entry_step (Suc l) (read_raw_entry st t (lv (Suc l) v)) = Leaf
          then Some (leaf_phys w (Suc l, read_raw_entry st t (lv (Suc l) v))) else None)" for w
        unfolding new g e(1) [symmetric] using e(2) by simp
    qed (use rd in auto)
    moreover have "read_raw_entry st' t (lv (Suc l) v) = ?f OR ?c" using rd [OF D(7) [OF tv]] by simp
    ultimately show ?thesis using st'(1) by blast
  qed
qed

section \<open>The three levels\<close>

text \<open>
  The entry that a level is left with: \<open>f\<close> is the address of the table it leads to. A new table is linked
  without \<open>ENTRY_WRITABLE\<close>, a split page with it; an entry of level 1 that was a link keeps its flags, those of the
  levels above become accessible for user mode.
\<close>

definition linked_entry :: "nat \<Rightarrow> u64 \<Rightarrow> u64 \<Rightarrow> u64" where
  "linked_entry l f e =
     (case entry_step l e of
        Missing \<Rightarrow> f OR (ENTRY_PRESENT OR ENTRY_USER)
      | Leaf \<Rightarrow> f OR (ENTRY_PRESENT OR ENTRY_USER OR ENTRY_WRITABLE)
      | Link c \<Rightarrow> if l = 1 then e else e OR ENTRY_USER)"

definition ensured :: "nat set \<Rightarrow> u64 \<Rightarrow> u64 \<Rightarrow> nat \<Rightarrow> paging \<Rightarrow> u64 \<Rightarrow> u64 option \<Rightarrow> paging \<Rightarrow> bool" where
  "ensured U r v l st t res st' \<longleftrightarrow>
     (res = None \<and> st' = st \<and> free_pool st = {}) \<or>
     (\<exists>f. res = Some f \<and> step_ok U r v l st st' \<and> tab (read_raw_entry st') 3 r v l = Some f \<and>
        read_raw_entry st' t (lv (Suc l) v) = linked_entry (Suc l) f (read_raw_entry st t (lv (Suc l) v)) \<and>
        (\<forall>c. entry_step (Suc l) (read_raw_entry st t (lv (Suc l) v)) = Link c \<longrightarrow>
           tab (read_raw_entry st') 3 r v = tab (read_raw_entry st) 3 r v \<and>
           (\<forall>i x. i \<noteq> Suc l \<longrightarrow> tab (read_raw_entry st) 3 r v i = Some x \<longrightarrow>
              read_raw_entry st' x (lv i v) = read_raw_entry st x (lv i v))))"

lemma or_user_idle:
  assumes "e AND ENTRY_USER \<noteq> 0" shows "e OR ENTRY_USER = e"
proof -
  have u: "ENTRY_USER = 2 ^ 2" by (simp add: ENTRY_USER_def)
  have "bit e 2" using assms unfolding u by (simp only: and_exp_eq_0_iff_not_bit not_not)
  then have "bit (e OR 2 ^ 2) n = bit e n" for n
    by (simp only: bit_or_iff bit_exp_iff) auto
  then show ?thesis unfolding u by (rule bit_word_eqI)
qed

lemma link_or_mark:
  assumes ok: "space_ok U st r" and tv: "tab (read_raw_entry st) 3 r v (Suc l) = Some t" and "l \<noteq> 0"
    and e: "e = read_raw_entry st t (lv (Suc l) v)" "entry_step (Suc l) e = Link c"
    and st': "st' = (if e AND ENTRY_USER = 0 then write_entry t (lv (Suc l) v) (e OR ENTRY_USER) st else st)"
  shows "ensured U r v l st t (Some c) st'"
proof (cases "e AND ENTRY_USER = 0")
  case True
  then have w: "st' = write_entry t (lv (Suc l) v) (e OR ENTRY_USER) st" using st' by simp
  show ?thesis
    using mark_user [OF ok tv e w] e \<open>l \<noteq> 0\<close> unfolding ensured_def linked_entry_def by auto
next
  case False
  then show ?thesis
    using step_ok_refl [OF ok] tab_link [OF tv] e st' \<open>l \<noteq> 0\<close> or_user_idle [OF False]
    by (simp add: ensured_def linked_entry_def)
qed

lemma ensure_pdpt_ok:
  assumes ok: "space_ok U st r" and res: "ensure_pdpt r (lv 3 v) st = (res, st')"
  shows "ensured U r v 2 st r res st'"
proof -
  let ?e = "read_raw_entry st r (lv 3 v)"
  have tv: "tab (read_raw_entry st) 3 r v (Suc 2) = Some r" by (simp add: numeral_3_eq_3)
  have l3: "Suc 2 = 3" by simp
  show ?thesis
  proof (cases "present ?e")
    case False
    then have "entry_step (Suc 2) ?e = Missing" "link_new_table r (lv (Suc 2) v) st = (res, st')"
      using res by (simp_all add: ensure_pdpt_def entry_step_def Let_def)
    from link_new_table_ok [OF ok tv, unfolded l3, OF this [unfolded l3]] this(1) show ?thesis
      by (auto simp: ensured_def linked_entry_def)
  next
    case True
    have s: "entry_step (Suc 2) ?e = Link (?e AND ADDRESS_MASK)" using True by (simp add: entry_step_def)
    have "res = Some (?e AND ADDRESS_MASK)"
      "st' = (if ?e AND ENTRY_USER = 0 then write_entry r (lv 3 v) (?e OR ENTRY_USER) st else st)"
      using res True by (auto simp: ensure_pdpt_def Let_def ADDRESS_MASK_def)
    with link_or_mark [OF ok tv _ refl, unfolded l3, OF _ s [unfolded l3]] show ?thesis by simp
  qed
qed

lemma ensure_pd_ok:
  assumes ok: "space_ok U st r" and tv: "tab (read_raw_entry st) 3 r v 2 = Some t"
    and low: "entry_step 2 (read_raw_entry st t (lv 2 v)) = Leaf \<Longrightarrow>
      read_raw_entry st t (lv 2 v) AND 0x7FC0000000 = read_raw_entry st t (lv 2 v) AND ADDRESS_MASK AND NOT (mask 30)"
    and res: "ensure_pd t (lv 2 v) st = (res, st')"
  shows "ensured U r v 1 st t res st'"
proof -
  let ?e = "read_raw_entry st t (lv 2 v)"
  have l2: "Suc 1 = 2" by simp
  have tv': "tab (read_raw_entry st) 3 r v (Suc 1) = Some t" using tv unfolding l2 .
  consider (absent) "\<not> present ?e" | (huge) "present ?e" "huge ?e" | (link) "present ?e" "\<not> huge ?e" by blast
  then show ?thesis
  proof cases
    case absent
    then have "entry_step (Suc 1) ?e = Missing" "link_new_table t (lv (Suc 1) v) st = (res, st')"
      using res by (simp_all add: ensure_pd_def entry_step_def Let_def l2 del: One_nat_def)
    from link_new_table_ok [OF ok tv', unfolded l2, OF this [unfolded l2]] this(1) show ?thesis
      by (auto simp: ensured_def linked_entry_def l2 simp del: One_nat_def)
  next
    case huge
    then have leaf: "entry_step 2 ?e = Leaf" by (simp add: entry_step_def)
    let ?f = "ENTRY_PRESENT OR ENTRY_USER OR ENTRY_WRITABLE OR ENTRY_HUGE_PAGE"
    have flags: "?f AND NOT (mask 12) = 0" "entry_step 1 ?f = Leaf"
      by (simp_all add: ENTRY_PRESENT_def ENTRY_USER_def ENTRY_WRITABLE_def ENTRY_HUGE_PAGE_def entry_step_def
          mask_eq_exp_minus_1)
    have n: "(2 ^ 21 :: u64) = 2 * 1024 * 1024" "21 + 9 = (30 :: nat)" "(21 :: nat) = 12 + 9 * 1" "21 \<le> (21 :: nat)"
      by simp_all
    have "split_page t (lv 2 v) (?e AND 0x7FC0000000) (2 ^ 21) ?f st = (res, st')"
      using res huge unfolding n(1) by (simp add: ensure_pd_def Let_def)
    from split_page_ok [OF ok tv', unfolded l2, OF refl leaf n(3,4) _ flags this, unfolded n(2), OF low [OF leaf]] leaf
    show ?thesis by (auto simp: ensured_def linked_entry_def l2 simp del: One_nat_def)
  next
    case link
    have s: "entry_step 2 ?e = Link (?e AND ADDRESS_MASK)" using link by (simp add: entry_step_def)
    have "res = Some (?e AND ADDRESS_MASK)"
      "st' = (if ?e AND ENTRY_USER = 0 then write_entry t (lv 2 v) (?e OR ENTRY_USER) st else st)"
      using res link by (auto simp: ensure_pd_def Let_def ADDRESS_MASK_def)
    with link_or_mark [OF ok tv' _ refl, unfolded l2, OF _ s] show ?thesis by simp
  qed
qed

lemma ensure_pt_ok:
  assumes ok: "space_ok U st r" and tv: "tab (read_raw_entry st) 3 r v 1 = Some t"
    and res: "ensure_pt t (lv 1 v) st = (res, st')"
  shows "ensured U r v 0 st t res st'"
proof -
  let ?e = "read_raw_entry st t (lv 1 v)"
  have l1: "Suc 0 = 1" by simp
  have tv': "tab (read_raw_entry st) 3 r v (Suc 0) = Some t" using tv unfolding l1 .
  consider (absent) "\<not> present ?e" | (huge) "present ?e" "huge ?e" | (link) "present ?e" "\<not> huge ?e" by blast
  then show ?thesis
  proof cases
    case absent
    then have "entry_step 1 ?e = Missing" "link_new_table t (lv 1 v) st = (res, st')"
      using res by (simp_all add: ensure_pt_def entry_step_def Let_def)
    from link_new_table_ok [OF ok tv', unfolded l1, OF this] this(1) show ?thesis
      by (auto simp: ensured_def linked_entry_def)
  next
    case huge
    then have leaf: "entry_step 1 ?e = Leaf" by (simp add: entry_step_def)
    let ?f = "ENTRY_PRESENT OR ENTRY_USER OR ENTRY_WRITABLE"
    have flags: "?f AND NOT (mask 12) = 0" "entry_step 0 ?f = Leaf"
      by (simp_all add: ENTRY_PRESENT_def ENTRY_USER_def ENTRY_WRITABLE_def entry_step_def mask_eq_exp_minus_1)
    have n: "(2 ^ 12 :: u64) = 4096" "12 + 9 = (21 :: nat)" "(12 :: nat) = 12 + 9 * 0" "12 \<le> (21 :: nat)"
      by simp_all
    have m: "(0x000FFFFFFFE00000 :: u64) = ADDRESS_MASK AND NOT (mask 21)"
      by (simp add: ADDRESS_MASK_def mask_eq_exp_minus_1)
    have "split_page t (lv 1 v) (?e AND 0x000FFFFFFFE00000) (2 ^ 12) ?f st = (res, st')"
      using res huge unfolding n(1) by (simp add: ensure_pt_def Let_def)
    from split_page_ok [OF ok tv', unfolded l1, OF refl leaf n(3,4) _ flags this, unfolded n(2) m] leaf
    show ?thesis by (auto simp: ensured_def linked_entry_def)
  next
    case link
    have s: "entry_step 1 ?e = Link (?e AND ADDRESS_MASK)" using link by (simp add: entry_step_def)
    have "res = Some (?e AND ADDRESS_MASK)" "st' = st"
      using res link by (auto simp: ensure_pt_def Let_def ADDRESS_MASK_def)
    with step_ok_refl [OF ok] tab_link [OF tv'] s show ?thesis by (simp add: ensured_def linked_entry_def)
  qed
qed

section \<open>The last entry\<close>

text \<open>The 36 bits of an address that a walk looks at.\<close>

definition page_of :: "u64 \<Rightarrow> u64" where
  "page_of v = take_bit 36 (drop_bit 12 v)"

lemma page_levels: "page_of v = page_of w \<longleftrightarrow> (\<forall>l \<le> 3. lv l v = lv l w)"
proof -
  have lv_eq: "lv l v = lv l w \<longleftrightarrow> take_bit 9 (drop_bit (12 + 9 * l) v) = take_bit 9 (drop_bit (12 + 9 * l) w)" for l
  proof -
    have "unat (of_nat (lv l u) :: u64) = lv l u" for u unfolding lv_def index_def by simp
    then show ?thesis unfolding lv_word [symmetric] by metis
  qed
  have b: "bit (page_of u) (9 * l + j) = bit (take_bit 9 (drop_bit (12 + 9 * l) u)) j" if "l \<le> 3" "j < 9" for u l j
    using that by (auto simp: page_of_def bit_simps add.assoc intro!: arg_cong [where f = "bit u"])
  show ?thesis
  proof
    assume e: "page_of v = page_of w"
    show "\<forall>l \<le> 3. lv l v = lv l w"
    proof (intro allI impI)
      fix l :: nat assume l: "l \<le> 3"
      have "bit (take_bit 9 (drop_bit (12 + 9 * l) v)) j = bit (take_bit 9 (drop_bit (12 + 9 * l) w)) j" for j
      proof (cases "j < 9")
        case True
        then show ?thesis using b [OF l True, of v] b [OF l True, of w] e by simp
      qed (simp add: bit_simps)
      then show "lv l v = lv l w" unfolding lv_eq by (intro bit_word_eqI)
    qed
  next
    assume e: "\<forall>l \<le> 3. lv l v = lv l w"
    show "page_of v = page_of w"
    proof (rule bit_word_eqI)
      fix n assume "n < LENGTH(64)"
      show "bit (page_of v) n = bit (page_of w) n"
      proof (cases "n < 36")
        case True
        then have n: "n = 9 * (n div 9) + n mod 9" "n div 9 \<le> 3" "n mod 9 < 9" by auto
        show ?thesis
          using b [OF n(2,3), of v] b [OF n(2,3), of w] e n(1,2) unfolding lv_eq by metis
      qed (simp add: page_of_def bit_simps)
    qed
  qed
qed

text \<open>An entry that is not a link becomes a leaf, whatever it was: exactly the addresses below it change.\<close>

lemma put_leaf:
  assumes ok: "space_ok U st r" and tv: "tab (read_raw_entry st) 3 r v l = Some t"
    and old: "\<And>c. entry_step l (read_raw_entry st t (lv l v)) \<noteq> Link c" and e: "entry_step l e = Leaf"
    and st': "st' = write_entry t (lv l v) e st"
  shows "space_ok U st' r" "tab (read_raw_entry st') 3 r = tab (read_raw_entry st) 3 r"
    "walk (read_raw_entry st') 3 r w =
      (if below (read_raw_entry st) r l t (lv l v) w then Some (l, e) else walk (read_raw_entry st) 3 r w)"
    "\<And>i x. l < i \<Longrightarrow> tab (read_raw_entry st) 3 r v i = Some x \<Longrightarrow>
       read_raw_entry st' x (lv i v) = read_raw_entry st x (lv i v)"
    "read_raw_entry st' t (lv l v) = e"
proof -
  let ?E = "read_raw_entry st" and ?E' = "read_raw_entry st'"
  note D = space_okD [OF ok]
  have rd: "?E' x (lv i w) = (if x = t \<and> lv i w = lv l v then e else ?E x (lv i w))"
    if "tab ?E 3 r w i = Some x" for w i x
    unfolding st' by (rule read_write_entry [OF D(1) D(7) [OF that] D(7) [OF tv]]) simp_all
  have lev: "i = l" if "tab ?E 3 r w i = Some t" for w i
    using treeD(1) [OF D(4) tv that] by simp
  show t: "tab ?E' 3 r = tab ?E 3 r"
  proof (intro ext)
    fix w j
    show "tab ?E' 3 r w j = tab ?E 3 r w j"
    proof (cases "l \<le> j")
      case True
      have "?E' x (lv i w) = ?E x (lv i w)" if "l < i" "tab ?E 3 r w i = Some x" for i x
        using rd [OF that(2)] lev [of w i] that by auto
      then show ?thesis using tab_frame [of l ?E 3 r w ?E' j] True by simp
    next
      case False
      show ?thesis
      proof (cases "below ?E r l t (lv l v) w")
        case True
        then have wt: "tab ?E 3 r w l = Some t" "lv l w = lv l v" by (simp_all add: below_def)
        have "?E' x (lv i w) = ?E x (lv i w)" if "l < i" "tab ?E 3 r w i = Some x" for i x
          using rd [OF that(2)] lev [of w i] that by auto
        then have wt': "tab ?E' 3 r w l = Some t" using tab_frame [of l ?E 3 r w ?E' l] wt(1) by simp
        have "?E' t (lv l w) = e" using rd [OF wt(1)] wt(2) by simp
        then show ?thesis
          using tab_descend [OF wt(1), of j] tab_descend [OF wt', of j] False old e wt(2)
          by (cases l) (auto split: step.splits)
      next
        case out: False
        have "?E' x (lv i w) = ?E x (lv i w)" if "tab ?E 3 r w i = Some x" for i x
          using rd [OF that] lev [of w i] that out by (auto simp: below_def)
        then show ?thesis using tab_frame [of j ?E 3 r w ?E' j] by simp
      qed
    qed
  qed
  have "tree ?E' r" using D(4) by (simp add: tree_def t)
  then show "space_ok U st' r"
    using ok regs_simps(5) [of st' st] unfolding space_ok_def t by (simp add: st')
  show "?E' x (lv i v) = ?E x (lv i v)" if "l < i" "tab ?E 3 r v i = Some x" for i x
    using rd [OF that(2)] lev [of v i] that by auto
  show t0: "?E' t (lv l v) = e" using rd [OF tv] by simp
  show "walk ?E' 3 r w = (if below ?E r l t (lv l v) w then Some (l, e) else walk ?E 3 r w)"
  proof (cases "below ?E r l t (lv l v) w")
    case True
    then have "tab ?E' 3 r w l = Some t" "?E' t (lv l w) = e" using t t0 by (simp_all add: below_def)
    then show ?thesis using True walk_descend [of ?E' 3 r w l t] walk_leaf [of l ?E' t w] e by simp
  next
    case False
    have "?E' x (lv i w) = ?E x (lv i w)" if "tab ?E 3 r w i = Some x" for i x
      using rd [OF that] lev [of w i] that False by (auto simp: below_def)
    then show ?thesis using False walk_frame [of ?E 3 r w ?E'] by simp
  qed
qed

lemma below_page:
  assumes tr: "tree E r" and tv: "tab E 3 r v 0 = Some t"
  shows "below E r 0 t (lv 0 v) w \<longleftrightarrow> page_of w = page_of v"
proof
  assume b: "below E r 0 t (lv 0 v) w"
  have "lv l v = lv l w" if "l \<le> 3" for l
    using treeD(2) [OF tr tv, of w 0 l] that b by (cases l) (auto simp: below_def)
  then show "page_of w = page_of v" using page_levels [of w v] by simp
next
  assume "page_of w = page_of v"
  then have eq: "lv l v = lv l w" if "l \<le> 3" for l using that page_levels [of v w] by simp
  then show "below E r 0 t (lv 0 v) w"
    using tab_share [OF tv, of w 0] tv by (simp add: below_def)
qed

lemma write_leaf:
  assumes ok: "space_ok U st r" and tv: "tab (read_raw_entry st) 3 r v 0 = Some t"
    and e: "present e" and st': "st' = write_entry t (lv 0 v) e st"
  shows "space_ok U st' r" "tab (read_raw_entry st') 3 r = tab (read_raw_entry st) 3 r"
    "walk (read_raw_entry st') 3 r w = (if page_of w = page_of v then Some (0, e) else walk (read_raw_entry st) 3 r w)"
    "\<And>i x. 0 < i \<Longrightarrow> tab (read_raw_entry st) 3 r v i = Some x \<Longrightarrow>
       read_raw_entry st' x (lv i v) = read_raw_entry st x (lv i v)"
    "read_raw_entry st' t (lv 0 v) = e"
proof -
  have "entry_step 0 x \<noteq> Link c" "entry_step 0 e = Leaf" for x c using e by (simp_all add: entry_step_def)
  note P = put_leaf [OF ok tv this st']
  show "space_ok U st' r" "tab (read_raw_entry st') 3 r = tab (read_raw_entry st) 3 r"
    "\<And>i x. 0 < i \<Longrightarrow> tab (read_raw_entry st) 3 r v i = Some x \<Longrightarrow>
       read_raw_entry st' x (lv i v) = read_raw_entry st x (lv i v)" "read_raw_entry st' t (lv 0 v) = e"
    by (fact P)+
  show "walk (read_raw_entry st') 3 r w = (if page_of w = page_of v then Some (0, e) else walk (read_raw_entry st) 3 r w)"
    unfolding P(3) below_page [OF space_okD(4) [OF ok] tv] ..
qed

lemma granted_path:
  assumes "tab E 3 r v 2 = Some t2" "tab E 3 r v 1 = Some t1" "tab E 3 r v 0 = Some t0" "present (E t0 (lv 0 v))"
  shows "granted E 3 r v = E r (lv 3 v) AND E t2 (lv 2 v) AND E t1 (lv 1 v) AND E t0 (lv 0 v)"
proof -
  have n: "(2 :: nat) = Suc (Suc 0)" "(3 :: nat) = Suc (Suc (Suc 0))" "(1 :: nat) = Suc 0" by simp_all
  have a: "tab E 3 r v (Suc (Suc (Suc 0))) = Some r" "tab E 3 r v (Suc (Suc 0)) = Some t2" "tab E 3 r v (Suc 0) = Some t1"
    using assms(1,2) tab_top [of E 3 r v] by (simp_all add: n)
  have "entry_step 3 (E r (lv 3 v)) = Link t2" "entry_step 2 (E t2 (lv 2 v)) = Link t1"
    "entry_step 1 (E t1 (lv 1 v)) = Link t0"
    using tab_link [OF a(1)] tab_link [OF a(2)] tab_link [OF a(3)] assms(1-3)
    by (auto simp: n split: step.splits)
  then show ?thesis using assms(4) by (simp add: n entry_step_def [of 0])
qed

section \<open>Mapping a page, as a whole\<close>

lemma ensuredD:
  assumes "ensured U r v l st t (Some f) st'"
  shows "space_ok U st' r" "regs st' = regs st" "phys_at st' r = phys_at st r"
    "card (free_pool st) \<le> card (free_pool st') + 1" "tab (read_raw_entry st') 3 r v l = Some f"
    "read_raw_entry st' t (lv (Suc l) v) = linked_entry (Suc l) f (read_raw_entry st t (lv (Suc l) v))"
    "l < i \<Longrightarrow> tab (read_raw_entry st) 3 r v i = Some x \<Longrightarrow> tab (read_raw_entry st') 3 r v i = Some x"
    "Suc l < i \<Longrightarrow> tab (read_raw_entry st) 3 r v i = Some x \<Longrightarrow>
       read_raw_entry st' x (lv i v) = read_raw_entry st x (lv i v)"
    "entry_step (Suc l) (read_raw_entry st t (lv (Suc l) v)) = Link c \<Longrightarrow>
       tab (read_raw_entry st') 3 r v = tab (read_raw_entry st) 3 r v"
    "entry_step (Suc l) (read_raw_entry st t (lv (Suc l) v)) = Link c \<Longrightarrow> i \<noteq> Suc l \<Longrightarrow>
       tab (read_raw_entry st) 3 r v i = Some x \<Longrightarrow> read_raw_entry st' x (lv i v) = read_raw_entry st x (lv i v)"
proof -
  have A: "step_ok U r v l st st'" "tab (read_raw_entry st') 3 r v l = Some f"
    "read_raw_entry st' t (lv (Suc l) v) = linked_entry (Suc l) f (read_raw_entry st t (lv (Suc l) v))"
    "\<forall>c. entry_step (Suc l) (read_raw_entry st t (lv (Suc l) v)) = Link c \<longrightarrow>
       tab (read_raw_entry st') 3 r v = tab (read_raw_entry st) 3 r v \<and>
       (\<forall>i x. i \<noteq> Suc l \<longrightarrow> tab (read_raw_entry st) 3 r v i = Some x \<longrightarrow>
          read_raw_entry st' x (lv i v) = read_raw_entry st x (lv i v))"
    using assms by (simp_all add: ensured_def)
  note S = A(1) [unfolded step_ok_def]
  show "space_ok U st' r" "regs st' = regs st" "phys_at st' r = phys_at st r"
    "card (free_pool st) \<le> card (free_pool st') + 1"
    using S by blast+
  show "tab (read_raw_entry st') 3 r v l = Some f" by (rule A(2))
  show "read_raw_entry st' t (lv (Suc l) v) = linked_entry (Suc l) f (read_raw_entry st t (lv (Suc l) v))"
    by (rule A(3))
  show "l < i \<Longrightarrow> tab (read_raw_entry st) 3 r v i = Some x \<Longrightarrow> tab (read_raw_entry st') 3 r v i = Some x"
    using S by blast
  show "Suc l < i \<Longrightarrow> tab (read_raw_entry st) 3 r v i = Some x \<Longrightarrow>
       read_raw_entry st' x (lv i v) = read_raw_entry st x (lv i v)"
    using S by (meson Suc_lessD)
  show "entry_step (Suc l) (read_raw_entry st t (lv (Suc l) v)) = Link c \<Longrightarrow>
       tab (read_raw_entry st') 3 r v = tab (read_raw_entry st) 3 r v"
    "entry_step (Suc l) (read_raw_entry st t (lv (Suc l) v)) = Link c \<Longrightarrow> i \<noteq> Suc l \<Longrightarrow>
       tab (read_raw_entry st) 3 r v i = Some x \<Longrightarrow> read_raw_entry st' x (lv i v) = read_raw_entry st x (lv i v)"
    using A(4) by blast+
qed

lemma ensured_None: "ensured U r v l st t None st' \<Longrightarrow> st' = st \<and> free_pool st = {}"
  by (simp add: ensured_def)

text \<open>The 1 GiB pages whose base the code's mask keeps: those below 512 GiB.\<close>

definition low_leaf :: "tables \<Rightarrow> u64 \<Rightarrow> u64 \<Rightarrow> bool" where
  "low_leaf E r v \<longleftrightarrow> (\<forall>e. walk E 3 r v = Some (2, e) \<longrightarrow> e AND ADDRESS_MASK AND NOT (mask 39) = 0)"

lemma low_mask:
  assumes "e AND ADDRESS_MASK AND NOT (mask 39) = 0"
  shows "e AND 0x7FC0000000 = e AND ADDRESS_MASK AND NOT (mask 30)"
proof -
  have m: "(0x7FC0000000 :: u64) = mask 39 AND NOT (mask 30)" by (simp add: mask_eq_exp_minus_1)
  have z: "bit (e AND ADDRESS_MASK AND NOT (mask 39)) n = False" for n using assms by simp
  have am: "bit ADDRESS_MASK n \<longleftrightarrow> 12 \<le> n \<and> n < 52" for n
    unfolding page_masks(4) by (auto simp: bit_simps)
  show ?thesis
    unfolding m by (rule bit_word_eqI) (use z in \<open>auto simp: bit_simps am\<close>)
qed

lemma low_after_pdpt:
  assumes "space_ok U st r" "low_leaf (read_raw_entry st) r v" "ensured U r v 2 st r (Some t) st'"
    and leaf: "entry_step 2 (read_raw_entry st' t (lv 2 v)) = Leaf"
  shows "read_raw_entry st' t (lv 2 v) AND 0x7FC0000000 =
    read_raw_entry st' t (lv 2 v) AND ADDRESS_MASK AND NOT (mask 30)"
proof -
  have n: "Suc 2 = 3" by simp
  note D = ensuredD [OF assms(3), unfolded n]
  have w': "walk (read_raw_entry st') 3 r v = Some (2, read_raw_entry st' t (lv 2 v))"
    unfolding walk_descend [OF D(5)] using leaf by (rule walk_leaf)
  then have "phys_at st r v \<noteq> None" using D(3) by (metis option.simps(3,9) phys_at_def)
  then have "walk (read_raw_entry st) 3 r v \<noteq> None" by (simp add: phys_at_def)
  then obtain c where c: "entry_step 3 (read_raw_entry st r (lv 3 v)) = Link c"
    unfolding walk_top by (cases "entry_step 3 (read_raw_entry st r (lv 3 v))") simp_all
  have "tab (read_raw_entry st) 3 r v 2 = Some t" using D(5,9) c by simp
  moreover from this have e: "read_raw_entry st' t (lv 2 v) = read_raw_entry st t (lv 2 v)"
    using D(10) [OF c] by simp
  ultimately have "walk (read_raw_entry st) 3 r v = Some (2, read_raw_entry st' t (lv 2 v))"
    using walk_descend walk_leaf leaf by metis
  then show ?thesis using assms(2) low_mask by (simp add: low_leaf_def)
qed

lemma map_user_cases:
  assumes ok: "space_ok U st r" and r: "pml4_table st = r" and low: "low_leaf (read_raw_entry st) r v"
    and res: "map_user_pages v p w x st = (b, st')"
  obtains (mapped) t2 st1 t1 st2 t0 st3 where "b" "ensured U r v 2 st r (Some t2) st1"
      "ensured U r v 1 st1 t2 (Some t1) st2" "ensured U r v 0 st2 t1 (Some t0) st3"
      "st' = write_entry t0 (lv 0 v)
         (p OR (ENTRY_PRESENT OR ENTRY_USER OR (if w then ENTRY_WRITABLE else 0) OR nx_flags st x)) st3"
  | (full) "\<not> b" "space_ok U st' r" "phys_at st' r = phys_at st r" "regs st' = regs st" "free_pool st' = {}"
      "card (free_pool st) \<le> 2"
proof -
  have ix: "index v 39 = lv 3 v" "index v 30 = lv 2 v" "index v 21 = lv 1 v" "index v 12 = lv 0 v"
    by (simp_all add: lv_def)
  obtain o1 st1 where 1: "ensure_pdpt r (lv 3 v) st = (o1, st1)" by force
  note e1 = ensure_pdpt_ok [OF ok 1]
  show thesis
  proof (cases o1)
    case None
    with e1 ensured_None [of U r v 2 st r st1] res 1 r ix ok show thesis
      by (intro full) (simp_all add: map_user_pages_def)
  next
    case t2: (Some t2)
    note D1 = ensuredD [OF e1 [unfolded t2]]
    obtain o2 st2 where 2: "ensure_pd t2 (lv 2 v) st1 = (o2, st2)" by force
    note e2 = ensure_pd_ok [OF D1(1,5) low_after_pdpt [OF ok low e1 [unfolded t2]] 2]
    show thesis
    proof (cases o2)
      case None
      with e2 ensured_None [of U r v 1 st1 t2 st2] res 1 2 t2 r ix D1(1-4) show thesis
        by (intro full) (simp_all add: map_user_pages_def)
    next
      case t1: (Some t1)
      note D2 = ensuredD [OF e2 [unfolded t1]]
      obtain o3 st3 where 3: "ensure_pt t1 (lv 1 v) st2 = (o3, st3)" by force
      note e3 = ensure_pt_ok [OF D2(1,5) 3]
      show thesis
      proof (cases o3)
        case None
        with e3 ensured_None [of U r v 0 st2 t1 st3] res 1 2 3 t2 t1 r ix D1(1-4) D2(1-4) show thesis
          by (intro full) (simp_all add: map_user_pages_def)
      next
        case t0: (Some t0)
        have "regs st3 = regs st" using D1(2) D2(2) ensuredD(2) [OF e3 [unfolded t0]] by simp
        from regs_simps(4) [OF this] have "nx_flags st3 x = nx_flags st x" by (rule fun_cong)
        then have "b" "st' = write_entry t0 (lv 0 v)
            (p OR (ENTRY_PRESENT OR ENTRY_USER OR (if w then ENTRY_WRITABLE else 0) OR nx_flags st x)) st3"
          using res 1 2 3 t2 t1 t0 r ix by (simp_all add: map_user_pages_def)
        with e1 e2 e3 t2 t1 t0 show thesis by (intro mapped) simp_all
      qed
    qed
  qed
qed

section \<open>Properties\<close>

lemma virt_to_phys_at:
  assumes "\<not> la57_enabled st"
  shows "virt_to_phys st a = phys_at st (current_root_phys st) a"
    "translate st a = map_option (leaf_mapping a) (walk (read_raw_entry st) 3 (current_root_phys st) a)"
proof -
  have "physical_address (leaf_mapping a le) = leaf_phys a le" for le
    by (simp add: leaf_mapping_def split: prod.split)
  then show "virt_to_phys st a = phys_at st (current_root_phys st) a"
    using assms by (auto simp: virt_to_phys_def translate_def translate_spec walk_root_def phys_at_def
        option.map_comp comp_def)
  show "translate st a = map_option (leaf_mapping a) (walk (read_raw_entry st) 3 (current_root_phys st) a)"
    using assms by (simp add: translate_def translate_spec walk_root_def)
qed

definition leaf_entry :: "paging \<Rightarrow> u64 \<Rightarrow> bool \<Rightarrow> bool \<Rightarrow> u64" where
  "leaf_entry st p w x = p OR (ENTRY_PRESENT OR ENTRY_USER OR (if w then ENTRY_WRITABLE else 0) OR nx_flags st x)"

lemma leaf_entry_bits:
  assumes "p AND ADDRESS_MASK = p"
  shows "present (leaf_entry st p w x)" "leaf_entry st p w x AND ENTRY_USER \<noteq> 0"
    "leaf_entry st p w x AND ENTRY_WRITABLE \<noteq> 0 \<longleftrightarrow> w"
    "leaf_phys a (0, leaf_entry st p w x) = p OR (a AND 0xFFF)"
proof -
  let ?c = "ENTRY_PRESENT OR ENTRY_USER OR (if w then ENTRY_WRITABLE else 0) OR nx_flags st x"
  have c: "?c AND ADDRESS_MASK = 0" "?c AND ENTRY_PRESENT \<noteq> 0" "?c AND ENTRY_USER \<noteq> 0"
    "?c AND ENTRY_WRITABLE \<noteq> 0 \<longleftrightarrow> w"
    by (auto simp: nx_flags_def ENTRY_PRESENT_def ENTRY_USER_def ENTRY_WRITABLE_def ENTRY_NX_def ADDRESS_MASK_def)
  note m = masked_or [OF assms c(1)]
  show "present (leaf_entry st p w x)" "leaf_entry st p w x AND ENTRY_USER \<noteq> 0"
    "leaf_entry st p w x AND ENTRY_WRITABLE \<noteq> 0 \<longleftrightarrow> w"
    unfolding leaf_entry_def m(2) [OF flag_bits(1)] m(2) [OF flag_bits(2)] m(2) [OF flag_bits(3)]
    using c by blast+
  have "leaf_phys a (0, leaf_entry st p w x) = physical_address (leaf_mapping a (0, leaf_entry st p w x))"
    by (simp add: leaf_mapping_def)
  also have "\<dots> = p OR (a AND 0xFFF)"
    unfolding leaf_mapping_code leaf_entry_def using m(1) by (simp add: PAGE_4K_MASK_def)
  finally show "leaf_phys a (0, leaf_entry st p w x) = p OR (a AND 0xFFF)" .
qed

lemma low_leaf_translate:
  assumes "\<not> la57_enabled st" "\<forall>m. translate st v = Some m \<longrightarrow> map_size m = Size1GiB \<longrightarrow> physical_address m < 2 ^ 39"
  shows "low_leaf (read_raw_entry st) (current_root_phys st) v"
  unfolding low_leaf_def
proof (intro allI impI)
  fix e assume w: "walk (read_raw_entry st) 3 (current_root_phys st) v = Some (2, e)"
  have "translate st v = Some (leaf_mapping v (2, e))"
    unfolding virt_to_phys_at(2) [OF assms(1)] w by simp
  then have "physical_address (leaf_mapping v (2, e)) < 2 ^ 39"
    using assms(2) by (simp add: leaf_mapping_def)
  then have less: "leaf_phys v (2, e) < 2 ^ 39" by (simp add: leaf_mapping_def)
  have n: "12 + 9 * 2 = (30 :: nat)" by simp
  have "\<not> bit (leaf_phys v (2, e)) k" if "39 \<le> k" for k
  proof -
    have "take_bit 39 (leaf_phys v (2, e)) = leaf_phys v (2, e)"
      using less by (simp add: word_less_nat_alt take_bit_eq_mod word_mod_less_divisor word_unat_eq_iff unat_mod_distrib)
    then show ?thesis using that by (metis bit_take_bit_iff not_le)
  qed
  then have "bit (e AND ADDRESS_MASK AND NOT (mask 39)) k = False" for k
    unfolding leaf_phys_def prod.case n by (cases "39 \<le> k") (auto simp: bit_simps)
  then show "e AND ADDRESS_MASK AND NOT (mask 39) = 0" by (intro bit_word_eqI) simp
qed

text \<open>
  C9: mapping a page. On a well-formed address space with four levels of tables (and 1 GiB pages below
  512 GiB only, the base the code can split), map_user_pages returns in a well-formed space. On success
  the page of the address translates to the frame given, with exactly the flags asked for, and no other
  address changes its translation, even where 1 GiB or 2 MiB pages had to be split into tables; on
  failure nothing changes its translation and the frames ran out. At most three frames are used.
\<close>

theorem map_user_page_correct:
  assumes "space_ok U st (current_root_phys st)" "\<not> la57_enabled st" "p AND ADDRESS_MASK = p"
    "\<forall>m. translate st v = Some m \<longrightarrow> map_size m = Size1GiB \<longrightarrow> physical_address m < 2 ^ 39"
    "map_user_pages v p w x st = (b, st')"
  shows "space_ok U st' (current_root_phys st') \<and> regs st' = regs st \<and>
    (\<forall>a. virt_to_phys st' a =
      (if b \<and> page_of a = page_of v then Some (p OR (a AND 0xFFF)) else virt_to_phys st a)) \<and>
    (b \<longrightarrow> translate st' v = Some (leaf_mapping v (0, leaf_entry st p w x))) \<and>
    (\<not> b \<longrightarrow> free_pool st' = {}) \<and> card (free_pool st) \<le> card (free_pool st') + 3"
proof -
  let ?r = "current_root_phys st"
  have r: "pml4_table st = ?r" using assms(2) by (simp add: pml4_table_def)
  note low = low_leaf_translate [OF assms(2,4)]
  show ?thesis
  proof (cases rule: map_user_cases [OF assms(1) r low assms(5)])
    case (1 t2 st1 t1 st2 t0 st3)
    note D1 = ensuredD [OF 1(2)] and D2 = ensuredD [OF 1(3)] and D3 = ensuredD [OF 1(4)]
    have st': "st' = write_entry t0 (lv 0 v) (leaf_entry st p w x) st3" using 1(5) by (simp add: leaf_entry_def)
    note W = write_leaf [OF D3(1,5) leaf_entry_bits(1) [OF assms(3)] st']
    have rg: "regs st' = regs st" using D1(2) D2(2) D3(2) by (simp add: st')
    have la: "\<not> la57_enabled st'" and root: "current_root_phys st' = ?r"
      using assms(2) regs_simps [OF rg] by simp_all
    have old: "phys_at st3 ?r = phys_at st ?r" using D1(3) D2(3) D3(3) by simp
    have phys: "virt_to_phys st' a = (if page_of a = page_of v then Some (p OR (a AND 0xFFF)) else virt_to_phys st a)" for a
      using fun_cong [OF old, of a]
      unfolding virt_to_phys_at(1) [OF la] virt_to_phys_at(1) [OF assms(2)] root
      by (simp add: phys_at_def W(3) leaf_entry_bits(4) [OF assms(3)])
    have tr: "translate st' v = Some (leaf_mapping v (0, leaf_entry st p w x))"
      unfolding virt_to_phys_at(2) [OF la] root W(3) by simp
    have "card (free_pool st) \<le> card (free_pool st') + 3"
      using D1(4) D2(4) D3(4) by (simp add: st')
    with W(1) rg phys tr 1(1) root show ?thesis by simp
  next
    case 2
    have la: "\<not> la57_enabled st'" and root: "current_root_phys st' = ?r"
      using assms(2) regs_simps [OF 2(4)] by simp_all
    have "virt_to_phys st' a = virt_to_phys st a" for a
      unfolding virt_to_phys_at(1) [OF la] virt_to_phys_at(1) [OF assms(2)] root 2(3) ..
    with 2 root show ?thesis by simp
  qed
qed

lemma flag_bit:
  "x AND ENTRY_USER \<noteq> 0 \<longleftrightarrow> bit x 2" "x AND ENTRY_WRITABLE \<noteq> 0 \<longleftrightarrow> bit x 1"
proof -
  have u: "ENTRY_USER = 2 ^ 2" "ENTRY_WRITABLE = 2 ^ 1" by (simp_all add: ENTRY_USER_def ENTRY_WRITABLE_def)
  show "x AND ENTRY_USER \<noteq> 0 \<longleftrightarrow> bit x 2" unfolding u(1) by (simp only: and_exp_eq_0_iff_not_bit not_not)
  show "x AND ENTRY_WRITABLE \<noteq> 0 \<longleftrightarrow> bit x 1" unfolding u(2) by (simp only: and_exp_eq_0_iff_not_bit not_not)
qed

lemma linked_user:
  assumes "f AND ADDRESS_MASK = f" "l \<noteq> 1" shows "bit (linked_entry l f e) 2"
proof -
  have u: "bit (y OR ENTRY_USER) 2" "bit (ENTRY_PRESENT OR ENTRY_USER) 2"
    "bit (ENTRY_PRESENT OR ENTRY_USER OR ENTRY_WRITABLE) 2" for y
    unfolding flag_bit(1) [symmetric] by (simp_all add: ENTRY_USER_def ENTRY_PRESENT_def ENTRY_WRITABLE_def bit.conj_disj_distrib2)
  show ?thesis using assms(2) u by (simp add: linked_entry_def bit_or_iff split: step.split)
qed

lemma new_link_readonly:
  assumes "f AND ADDRESS_MASK = f" "entry_step l e = Missing" shows "\<not> bit (linked_entry l f e) 1"
proof -
  have "(f OR (ENTRY_PRESENT OR ENTRY_USER)) AND ENTRY_WRITABLE = (ENTRY_PRESENT OR ENTRY_USER) AND ENTRY_WRITABLE"
    by (rule masked_or(2) [OF assms(1) _ flag_bits(2)]) (simp add: bit.conj_disj_distrib2 flag_bits)
  also have "\<dots> = 0" by (simp add: ENTRY_PRESENT_def ENTRY_USER_def ENTRY_WRITABLE_def)
  finally have "\<not> bit (f OR (ENTRY_PRESENT OR ENTRY_USER)) 1" unfolding flag_bit(2) [symmetric] by simp
  then show ?thesis using assms(2) by (simp add: linked_entry_def)
qed

text \<open>The four entries on the way of a page that has been mapped.\<close>

lemma mapped_entries:
  assumes ok: "space_ok U st r" and p: "p AND ADDRESS_MASK = p"
    and e: "ensured U r v 2 st r (Some t2) st1" "ensured U r v 1 st1 t2 (Some t1) st2"
      "ensured U r v 0 st2 t1 (Some t0) st3"
    and st': "st' = write_entry t0 (lv 0 v) (leaf_entry st p w x) st3"
  shows "granted (read_raw_entry st') 3 r v =
    linked_entry 3 t2 (read_raw_entry st r (lv 3 v)) AND linked_entry 2 t1 (read_raw_entry st1 t2 (lv 2 v)) AND
    linked_entry 1 t0 (read_raw_entry st2 t1 (lv 1 v)) AND leaf_entry st p w x"
    "t2 AND ADDRESS_MASK = t2" "t1 AND ADDRESS_MASK = t1" "t0 AND ADDRESS_MASK = t0"
proof -
  have n: "Suc 2 = 3" "Suc 1 = 2" "Suc 0 = 1" by simp_all
  note D1 = ensuredD [OF e(1), unfolded n] and D2 = ensuredD [OF e(2), unfolded n] and D3 = ensuredD [OF e(3), unfolded n]
  note W = write_leaf [OF D3(1,5) leaf_entry_bits(1) [OF p] st']
  have t: "tab (read_raw_entry st3) 3 r v 2 = Some t2" "tab (read_raw_entry st3) 3 r v 1 = Some t1"
    using D3(7) D2(5,7) D1(5) by simp_all
  have 3: "read_raw_entry st' r (lv 3 v) = linked_entry 3 t2 (read_raw_entry st r (lv 3 v))"
    using W(4) [of 3 r] D3(8) [of 3 r] D2(8) [of 3 r] D1(6) by simp
  have 2: "read_raw_entry st' t2 (lv 2 v) = linked_entry 2 t1 (read_raw_entry st1 t2 (lv 2 v))"
    using W(4) [of 2 t2] t D3(8) [of 2 t2] D2(6,7) D1(5) by simp
  have 1: "read_raw_entry st' t1 (lv 1 v) = linked_entry 1 t0 (read_raw_entry st2 t1 (lv 1 v))"
    using W(4) [of 1 t1] t D3(6) by simp
  have "granted (read_raw_entry st') 3 r v =
      read_raw_entry st' r (lv 3 v) AND read_raw_entry st' t2 (lv 2 v) AND read_raw_entry st' t1 (lv 1 v) AND
      read_raw_entry st' t0 (lv 0 v)"
    by (rule granted_path) (use t D3(5) W leaf_entry_bits(1) [OF p] in simp_all)
  then show "granted (read_raw_entry st') 3 r v =
    linked_entry 3 t2 (read_raw_entry st r (lv 3 v)) AND linked_entry 2 t1 (read_raw_entry st1 t2 (lv 2 v)) AND
    linked_entry 1 t0 (read_raw_entry st2 t1 (lv 1 v)) AND leaf_entry st p w x"
    unfolding 3 2 1 W(5) .
  show "t2 AND ADDRESS_MASK = t2" "t1 AND ADDRESS_MASK = t1" "t0 AND ADDRESS_MASK = t0"
    using space_okD(7) D3(1,5) t by blast+
qed

lemma phys_None: "phys_at st r v = None \<Longrightarrow> tab (read_raw_entry st) 3 r v l = Some t \<Longrightarrow>
    entry_step l (read_raw_entry st t (lv l v)) \<noteq> Leaf"
  using walk_descend walk_leaf by (fastforce simp: phys_at_def)

lemma linked_over_link:
  assumes "entry_step l e = Link c" shows "bit (linked_entry l f e) 1 \<longleftrightarrow> bit e 1"
proof -
  have u: "ENTRY_USER = 2 ^ 2" by (simp add: ENTRY_USER_def)
  show ?thesis using assms unfolding linked_entry_def u by (auto simp: bit_or_iff bit_exp_iff)
qed

lemma split_writable:
  assumes "f AND ADDRESS_MASK = f" "entry_step l e = Leaf" shows "bit (linked_entry l f e) 1"
proof -
  have "bit (y OR (ENTRY_PRESENT OR ENTRY_USER OR ENTRY_WRITABLE)) 1" for y
    unfolding flag_bit(2) [symmetric]
    by (simp add: ENTRY_USER_def ENTRY_PRESENT_def ENTRY_WRITABLE_def bit.conj_disj_distrib2)
  then show ?thesis using assms(2) by (simp add: linked_entry_def)
qed

text \<open>The tables above the page directory stay when they were there, and the entry of the directory is found unchanged.\<close>

lemma upper_links:
  assumes "space_ok U st r" "ensured U r v 2 st r (Some t2) st1" "ensured U r v 1 st1 t2 (Some t1) st2"
    and t: "tab (read_raw_entry st) 3 r v 1 = Some t"
  shows "t1 = t" "tab (read_raw_entry st) 3 r v 2 = Some t2"
    "tab (read_raw_entry st2) 3 r v = tab (read_raw_entry st) 3 r v"
    "read_raw_entry st2 t1 (lv 1 v) = read_raw_entry st t (lv 1 v)"
    "entry_step 3 (read_raw_entry st r (lv 3 v)) = Link t2"
    "entry_step 2 (read_raw_entry st1 t2 (lv 2 v)) = Link t"
    "read_raw_entry st1 t2 (lv 2 v) = read_raw_entry st t2 (lv 2 v)"
proof -
  have n: "Suc 2 = 3" "Suc 1 = 2" "Suc 0 = 1" by simp_all
  note D1 = ensuredD [OF assms(2), unfolded n] and D2 = ensuredD [OF assms(3), unfolded n]
  obtain t' where t': "tab (read_raw_entry st) 3 r v 2 = Some t'" using tab_upper [OF t, of 2] by auto
  have 3: "entry_step 3 (read_raw_entry st r (lv 3 v)) = Link t'"
    using tab_link [of "read_raw_entry st" 3 r v 2 r, unfolded n] t' by (simp split: step.splits)
  have s1: "tab (read_raw_entry st1) 3 r v = tab (read_raw_entry st) 3 r v" using D1(9) [OF 3] .
  then have t2: "t2 = t'" using D1(5) t' by simp
  show 2: "entry_step 2 (read_raw_entry st1 t2 (lv 2 v)) = Link t"
    using tab_link [of "read_raw_entry st1" 3 r v 1 t2, unfolded n] t' t s1 t2 by (simp split: step.splits)
  show s2: "tab (read_raw_entry st2) 3 r v = tab (read_raw_entry st) 3 r v" using D2(9) [OF 2] s1 by simp
  then show t1: "t1 = t" using D2(5) t by simp
  show "read_raw_entry st2 t1 (lv 1 v) = read_raw_entry st t (lv 1 v)"
    using D2(10) [OF 2, of 1 t] D1(10) [OF 3, of 1 t] s1 t t1 by simp
  show "tab (read_raw_entry st) 3 r v 2 = Some t2" "entry_step 3 (read_raw_entry st r (lv 3 v)) = Link t2"
    using t' 3 t2 by simp_all
  show "read_raw_entry st1 t2 (lv 2 v) = read_raw_entry st t2 (lv 2 v)"
    using D1(10) [OF 3, of 2 t2] t' t2 by simp
qed

text \<open>
  C28: what a mapped page may be used for. The processor grants what all four entries on the way grant.
  Let paging have four levels (no LA57), let the space be well formed and the physical address a
  multiple of 4096, and if the page lies in a 1 GiB page let that one be below 512 GiB (its split drops
  the higher bits). Suppose map_user_pages succeeds. (1) Where the page directory existed before, the
  page is accessible to the user exactly if the last table is new (also when it comes from splitting a
  2 MiB page) or the entry of the directory had the user bit already: map_user_pages does not set it in
  an existing one. (2) Where the page was unmapped and had no last table, it is not writable, whatever
  was asked for, because the new tables are linked without the writable bit. (3) Where the page lay in
  a 2 MiB page, the table that replaces it is linked writable, and the page is writable exactly if
  that was asked for and the two entries above allow it.
\<close>

theorem map_user_permissions:
  assumes ok: "space_ok U st (current_root_phys st)" and la: "\<not> la57_enabled st" and p: "p AND ADDRESS_MASK = p"
    and low: "\<forall>m. translate st v = Some m \<longrightarrow> map_size m = Size1GiB \<longrightarrow> physical_address m < 2 ^ 39"
    and res: "map_user_pages v p w x st = (True, st')"
  shows "(\<forall>t. tab (read_raw_entry st) 3 (current_root_phys st) v 1 = Some t \<longrightarrow>
      (granted (read_raw_entry st') 3 (current_root_phys st) v AND ENTRY_USER \<noteq> 0 \<longleftrightarrow>
       tab (read_raw_entry st) 3 (current_root_phys st) v 0 = None \<or>
       read_raw_entry st t (lv 1 v) AND ENTRY_USER \<noteq> 0)) \<and>
    (virt_to_phys st v = None \<longrightarrow> tab (read_raw_entry st) 3 (current_root_phys st) v 0 = None \<longrightarrow>
      granted (read_raw_entry st') 3 (current_root_phys st) v AND ENTRY_WRITABLE = 0) \<and>
    (\<forall>t2 t. tab (read_raw_entry st) 3 (current_root_phys st) v 2 = Some t2 \<longrightarrow>
      tab (read_raw_entry st) 3 (current_root_phys st) v 1 = Some t \<longrightarrow>
      entry_step 1 (read_raw_entry st t (lv 1 v)) = Leaf \<longrightarrow>
      (granted (read_raw_entry st') 3 (current_root_phys st) v AND ENTRY_WRITABLE \<noteq> 0 \<longleftrightarrow>
       w \<and> read_raw_entry st (current_root_phys st) (lv 3 v) AND ENTRY_WRITABLE \<noteq> 0 \<and>
       read_raw_entry st t2 (lv 2 v) AND ENTRY_WRITABLE \<noteq> 0))"
proof -
  let ?r = "current_root_phys st"
  have r: "pml4_table st = ?r" using la by (simp add: pml4_table_def)
  have n: "Suc 2 = 3" "Suc 1 = 2" "Suc 0 = 1" by simp_all
  show ?thesis
  proof (cases rule: map_user_cases [OF ok r low_leaf_translate [OF la low] res])
    case (1 t2 st1 t1 st2 t0 st3)
    note D1 = ensuredD [OF 1(2), unfolded n] and D2 = ensuredD [OF 1(3), unfolded n]
    note M = mapped_entries [OF ok p 1(2,3,4) 1(5) [folded leaf_entry_def]]
    note up = upper_links [OF ok 1(2,3)]
    let ?e3 = "read_raw_entry st ?r (lv 3 v)" and ?e2 = "read_raw_entry st1 t2 (lv 2 v)"
      and ?e1 = "read_raw_entry st2 t1 (lv 1 v)"
    have "(granted (read_raw_entry st') 3 ?r v AND ENTRY_USER \<noteq> 0) =
        (tab (read_raw_entry st) 3 ?r v 0 = None \<or> read_raw_entry st t (lv 1 v) AND ENTRY_USER \<noteq> 0)"
      if t: "tab (read_raw_entry st) 3 ?r v 1 = Some t" for t
    proof -
      have l: "tab (read_raw_entry st) 3 ?r v 0 =
          (case entry_step 1 (read_raw_entry st t (lv 1 v)) of Link c \<Rightarrow> Some c | _ \<Rightarrow> None)"
        using tab_link [of "read_raw_entry st" 3 ?r v 0 t, unfolded n] t by (simp split: step.splits)
      have "bit (linked_entry 1 t0 ?e1) 2 \<longleftrightarrow>
          tab (read_raw_entry st) 3 ?r v 0 = None \<or> bit (read_raw_entry st t (lv 1 v)) 2"
      proof (cases "entry_step 1 ?e1")
        case (Link c)
        then show ?thesis using l up(4) [OF t] by (simp add: linked_entry_def)
      qed (use l up(4) [OF t] flag_bit(1) [symmetric] in \<open>auto simp: linked_entry_def bit_or_iff flag_bit
          ENTRY_USER_def ENTRY_PRESENT_def ENTRY_WRITABLE_def bit.conj_disj_distrib2\<close>)
      then show ?thesis
        using linked_user [OF M(2), of 3 ?e3] linked_user [OF M(3), of 2 ?e2] leaf_entry_bits(2) [OF p, of st w x]
        unfolding M(1) flag_bit by (simp add: bit_and_iff)
    qed
    moreover have "granted (read_raw_entry st') 3 ?r v AND ENTRY_WRITABLE = 0"
      if none: "virt_to_phys st v = None" "tab (read_raw_entry st) 3 ?r v 0 = None"
    proof -
      have ph: "phys_at st ?r v = None" "phys_at st1 ?r v = None" "phys_at st2 ?r v = None"
        using none(1) D1(3) D2(3) by (simp_all add: virt_to_phys_at(1) [OF la])
      have "entry_step 3 ?e3 = Missing \<or> entry_step 2 ?e2 = Missing \<or> entry_step 1 ?e1 = Missing"
      proof (rule ccontr)
        assume "\<not> ?thesis"
        then obtain a3 a2 a1 where a: "entry_step 3 ?e3 = Link a3" "entry_step 2 ?e2 = Link a2" "entry_step 1 ?e1 = Link a1"
          using phys_None [OF ph(1) tab_top] phys_None [OF ph(2) D1(5)] phys_None [OF ph(3) D2(5)]
          by (metis step.exhaust)
        have "tab (read_raw_entry st2) 3 ?r v 0 = Some a1"
          using tab_link [of "read_raw_entry st2" 3 ?r v 0 t1, unfolded n] D2(5) a(3) by simp
        then show False using D1(9) [OF a(1)] D2(9) [OF a(2)] none(2) by simp
      qed
      then have "\<not> bit (granted (read_raw_entry st') 3 ?r v) 1"
        using new_link_readonly [OF M(2)] new_link_readonly [OF M(3)] new_link_readonly [OF M(4)]
        unfolding M(1) by (auto simp: bit_and_iff)
      then show ?thesis using flag_bit(2) by blast
    qed
    moreover have "(granted (read_raw_entry st') 3 ?r v AND ENTRY_WRITABLE \<noteq> 0) =
        (w \<and> ?e3 AND ENTRY_WRITABLE \<noteq> 0 \<and> read_raw_entry st s (lv 2 v) AND ENTRY_WRITABLE \<noteq> 0)"
      if s: "tab (read_raw_entry st) 3 ?r v 2 = Some s" "tab (read_raw_entry st) 3 ?r v 1 = Some t"
        "entry_step 1 (read_raw_entry st t (lv 1 v)) = Leaf" for s t
    proof -
      note u = up [OF s(2)]
      have "s = t2" using s(1) u(2) by simp
      then show ?thesis
        using linked_over_link [OF u(5), of t2] linked_over_link [OF u(6), of t1] u(7)
          split_writable [OF M(4), of 1 ?e1] s(3) u(4) leaf_entry_bits(3) [OF p, of st w x]
        unfolding M(1) flag_bit by (auto simp: bit_and_iff)
    qed
    ultimately show ?thesis by blast
  qed simp
qed

lemma step_okD:
  assumes "step_ok U r v l st st'"
  shows "space_ok U st' r" "regs st' = regs st" "phys_at st' r = phys_at st r"
    "card (free_pool st) \<le> card (free_pool st') + 1"
    "l < i \<Longrightarrow> tab (read_raw_entry st) 3 r v i = Some x \<Longrightarrow> tab (read_raw_entry st') 3 r v i = Some x"
    "Suc l < i \<Longrightarrow> tab (read_raw_entry st) 3 r v i = Some x \<Longrightarrow>
       read_raw_entry st' x (lv i v) = read_raw_entry st x (lv i v)"
  using assms unfolding step_ok_def by (blast, blast, blast, blast, blast, meson Suc_lessD)

lemma canonical_bits:
  "bit (canonical_address slot) n \<longleftrightarrow> n < 64 \<and> (39 \<le> n \<and> bit slot (n - 39) \<or> slot AND 0x100 \<noteq> 0 \<and> 48 \<le> n)"
proof -
  let ?v = "canonical_address slot"
  let ?h = "0xFFFF000000000000 :: u64"
  have high: "bit ?h n \<longleftrightarrow> 48 \<le> n \<and> n < 64"
  proof -
    have "?h = push_bit 48 (mask 16)" by (simp add: push_bit_eq_mult mask_eq_exp_minus_1)
    then show ?thesis by (simp only: bit_push_bit_iff bit_mask_iff) auto
  qed
  show ?thesis
  proof (cases "slot AND 0x100 = 0")
    case True
    then have v: "?v = push_bit 39 (of_nat slot)" by (simp add: canonical_address_def Let_def)
    show ?thesis unfolding v using True by (auto simp: bit_push_bit_iff bit_of_nat_iff)
  next
    case False
    then have v: "?v = push_bit 39 (of_nat slot) OR ?h" by (simp add: canonical_address_def Let_def)
    show ?thesis unfolding v bit_or_iff high using False by (auto simp: bit_push_bit_iff bit_of_nat_iff)
  qed
qed

lemma canonical_offset: "canonical_address slot AND 0xFFF = 0"
proof -
  have m: "(0xFFF :: u64) = mask 12" by (simp add: mask_eq_exp_minus_1)
  show ?thesis unfolding m by (rule bit_word_eqI) (auto simp: bit_and_iff bit_mask_iff canonical_bits)
qed

lemma canonical_levels:
  assumes "slot < 512"
  shows "lv 3 (canonical_address slot) = slot" "l < 3 \<Longrightarrow> lv l (canonical_address slot) = 0"
proof -
  let ?v = "canonical_address slot"
  have "take_bit 9 slot = slot" using assms by (intro take_bit_nat_eq_self) simp
  then have small: "n < 9" if "bit slot n" for n using that by (metis bit_take_bit_iff)
  have inj: "a = b" if "(of_nat a :: u64) = of_nat b" "a < 512" "b < 512" for a b
  proof -
    have "unat (of_nat a :: u64) = unat (of_nat b :: u64)" using that(1) by simp
    then show ?thesis using that(2,3) by (simp add: unat_of_nat)
  qed
  have "(of_nat (lv 3 ?v) :: u64) = of_nat slot"
    unfolding lv_word by (rule bit_word_eqI) (auto simp: bit_take_bit_iff bit_drop_bit_eq canonical_bits bit_of_nat_iff dest: small)
  then show "lv 3 ?v = slot" by (rule inj) (use assms in simp_all)
  assume "l < 3"
  have "(of_nat (lv l ?v) :: u64) = of_nat 0"
    unfolding lv_word by (rule bit_word_eqI) (use \<open>l < 3\<close> in \<open>auto simp: bit_take_bit_iff bit_drop_bit_eq canonical_bits\<close>)
  then show "lv l ?v = 0" by (rule inj) simp_all
qed

lemma slot_levels:
  assumes "slot < 256"
  shows "lv 3 (push_bit 39 (of_nat slot)) = slot" "l < 3 \<Longrightarrow> lv l (push_bit 39 (of_nat slot)) = 0"
proof -
  have "take_bit 8 slot = slot" using assms by (intro take_bit_nat_eq_self) simp
  then have "\<not> bit slot 8" by (metis bit_take_bit_iff less_irrefl)
  then have "slot AND 2 ^ 8 = 0" by (simp only: and_exp_eq_0_iff_not_bit not_False_eq_True)
  then have "canonical_address slot = push_bit 39 (of_nat slot)" by (simp add: canonical_address_def)
  then show "lv 3 (push_bit 39 (of_nat slot)) = slot" "l < 3 \<Longrightarrow> lv l (push_bit 39 (of_nat slot)) = 0"
    using canonical_levels [of slot] assms by simp_all
qed

text \<open>
  The tables of a fresh slot: the chain of three new tables, each entry of which is linked with the flags
  \<open>c\<close>, or the frames ran out.
\<close>

lemma fresh_tables:
  assumes ok: "space_ok U st r" and lv: "lv 2 v = 0" "lv 1 v = 0"
    and miss: "entry_step 3 (read_raw_entry st r (lv 3 v)) = Missing"
    and c: "c AND ADDRESS_MASK = 0" "c AND ENTRY_PRESENT \<noteq> 0" "c AND ENTRY_HUGE_PAGE = 0"
  obtains (one) "allocate_zeroed_phys st = (None, st)" "free_pool st = {}"
  | (two) f2 st1 st2 where "allocate_zeroed_phys st = (Some f2, st1)" "st2 = write_entry r (lv 3 v) (f2 OR c) st1"
      "allocate_zeroed_phys st2 = (None, st2)" "free_pool st2 = {}"
      "space_ok U st2 r" "regs st2 = regs st" "phys_at st2 r = phys_at st r" "card (free_pool st) \<le> card (free_pool st2) + 1"
  | (three) f2 st1 st2 f1 st3 st4 where "allocate_zeroed_phys st = (Some f2, st1)"
      "st2 = write_entry r (lv 3 v) (f2 OR c) st1" "allocate_zeroed_phys st2 = (Some f1, st3)"
      "st4 = write_entry f2 0 (f1 OR c) st3" "allocate_zeroed_phys st4 = (None, st4)" "free_pool st4 = {}"
      "space_ok U st4 r" "regs st4 = regs st" "phys_at st4 r = phys_at st r" "card (free_pool st) \<le> card (free_pool st4) + 2"
  | (all) f2 st1 st2 f1 st3 st4 f0 st5 st6 where "allocate_zeroed_phys st = (Some f2, st1)"
      "st2 = write_entry r (lv 3 v) (f2 OR c) st1" "allocate_zeroed_phys st2 = (Some f1, st3)"
      "st4 = write_entry f2 0 (f1 OR c) st3" "allocate_zeroed_phys st4 = (Some f0, st5)"
      "st6 = write_entry f1 0 (f0 OR c) st5"
      "space_ok U st6 r" "regs st6 = regs st" "phys_at st6 r = phys_at st r" "card (free_pool st) \<le> card (free_pool st6) + 3"
      "tab (read_raw_entry st6) 3 r v 2 = Some f2" "tab (read_raw_entry st6) 3 r v 1 = Some f1"
      "tab (read_raw_entry st6) 3 r v 0 = Some f0"
      "read_raw_entry st6 r (lv 3 v) = f2 OR c" "read_raw_entry st6 f2 (lv 2 v) = f1 OR c"
      "read_raw_entry st6 f1 (lv 1 v) = f0 OR c"
proof -
  have n: "Suc 2 = 3" "Suc 1 = 2" "Suc 0 = 1" by simp_all
  have zero: "entry_step l 0 = Missing" for l by (simp add: entry_step_def)
  show thesis
  proof (cases rule: attach_zeroed [OF ok _ _ c, of v 2 r, unfolded n, OF tab_top miss])
    case 1
    then show ?thesis by (intro one)
  next
    case a: (2 f2 st1 st2)
    note A = step_okD [OF a(3), unfolded n]
    have m2: "entry_step 2 (read_raw_entry st2 f2 (lv 2 v)) = Missing" using a(6) lv zero by simp
    show ?thesis
    proof (cases rule: attach_zeroed [OF A(1) _ _ c, of v 1 f2, unfolded n, OF a(4) m2])
      case 1
      with a A show ?thesis by (intro two)
    next
      case b: (2 f1 st3 st4)
      note B = step_okD [OF b(3), unfolded n]
      have m1: "entry_step 1 (read_raw_entry st4 f1 (lv 1 v)) = Missing" using b(6) lv zero by simp
      show ?thesis
      proof (cases rule: attach_zeroed [OF B(1) _ _ c, of v 0 f1, unfolded n, OF b(4) m1])
        case 1
        show ?thesis
          by (rule three [OF a(1,2) b(1) _ 1(2,1) B(1)]) (use a b A(2-4) B(2-4) lv in simp_all)
      next
        case d: (2 f0 st5 st6)
        note D = step_okD [OF d(3), unfolded n]
        have 3: "read_raw_entry st6 r (lv 3 v) = f2 OR c" using D(6) [of 3 r] B(6) [of 3 r] a(5) by simp
        have t2: "tab (read_raw_entry st4) 3 r v 2 = Some f2" using B(5) [of 2] a(4) by simp
        then have 2: "read_raw_entry st6 f2 (lv 2 v) = f1 OR c" "tab (read_raw_entry st6) 3 r v 2 = Some f2"
          using D(5,6) [of 2 f2] b(5) by simp_all
        have t1: "tab (read_raw_entry st6) 3 r v 1 = Some f1" using D(5) [of 1 f1] b(4) by simp
        show ?thesis
          by (rule all [OF a(1,2) b(1) _ d(1) _ D(1) _ _ _ 2(2) t1 d(4) 3 2(1) d(5)])
            (use a b d A(2-4) B(2-4) D(2-4) lv in simp_all)
      qed
    qed
  qed
qed

text \<open>
  A page in a fresh slot: three new tables, each linked with \<open>ENTRY_WRITABLE\<close> and \<open>ENTRY_USER\<close>. When
  the frames run out on the way the slot stays taken, and leads nowhere.
\<close>

theorem map_user_page_fresh_correct:
  assumes ok: "space_ok U st (current_root_phys st)" and la: "\<not> la57_enabled st" and p: "p AND ADDRESS_MASK = p"
    and res: "map_user_page_fresh p w x st = (result, st')"
  shows "space_ok U st' (current_root_phys st') \<and> regs st' = regs st \<and>
    card (free_pool st) \<le> card (free_pool st') + 3 \<and>
    (case result of
       None \<Rightarrow> (\<forall>a. virt_to_phys st' a = virt_to_phys st a) \<and>
         (free_pool st' = {} \<or> (\<forall>i. 2 \<le> i \<and> i < 256 \<longrightarrow> present (read_raw_entry st (current_root_phys st) i)))
     | Some v \<Rightarrow> (\<exists>i. v = push_bit 39 (of_nat i) \<and> 2 \<le> i \<and> i < 256 \<and>
           \<not> present (read_raw_entry st (current_root_phys st) i)) \<and>
         (\<forall>a. virt_to_phys st' a =
            (if page_of a = page_of v then Some (p OR (a AND 0xFFF)) else virt_to_phys st a)) \<and>
         granted (read_raw_entry st') 3 (current_root_phys st) v AND ENTRY_USER \<noteq> 0 \<and>
         (granted (read_raw_entry st') 3 (current_root_phys st) v AND ENTRY_WRITABLE \<noteq> 0 \<longleftrightarrow> w))"
proof -
  let ?r = "current_root_phys st"
  let ?c = "ENTRY_PRESENT OR ENTRY_WRITABLE OR ENTRY_USER"
  have r: "pml4_table st = ?r" using la by (simp add: pml4_table_def)
  have c: "?c AND ADDRESS_MASK = 0" "?c AND ENTRY_PRESENT \<noteq> 0" "?c AND ENTRY_HUGE_PAGE = 0"
    by (simp_all add: ENTRY_PRESENT_def ENTRY_USER_def ENTRY_WRITABLE_def ADDRESS_MASK_def ENTRY_HUGE_PAGE_def)
  have phys: "virt_to_phys s a = phys_at s ?r a" "current_root_phys s = ?r" if "regs s = regs st" for s a
    using la regs_simps [OF that] virt_to_phys_at(1) by simp_all
  show ?thesis
  proof (cases "find (\<lambda>i. read_raw_entry st ?r i AND ENTRY_PRESENT = 0) [2..<256]")
    case None
    then have "result = None" "st' = st" using res unfolding map_user_page_fresh_def r Let_def None by simp_all
    then show ?thesis using None [unfolded find_None_iff set_upt] ok by auto
  next
    case (Some slot)
    from find_SomeD [OF this, unfolded set_upt]
    have slot: "2 \<le> slot" "slot < 256" "\<not> present (read_raw_entry st ?r slot)" by auto
    define v where "v = (push_bit 39 (of_nat slot) :: u64)"
    have lv: "lv 3 v = slot" "lv 2 v = 0" "lv 1 v = 0" "lv 0 v = 0"
      unfolding v_def using slot_levels [OF slot(2)] by simp_all
    have miss: "entry_step 3 (read_raw_entry st ?r (lv 3 v)) = Missing"
      unfolding lv using slot(3) by (simp add: entry_step_def)
    have res': "(result, st') = (case allocate_zeroed_phys st of
          (None, st1) \<Rightarrow> (None, st1)
        | (Some f2, st1) \<Rightarrow> (case allocate_zeroed_phys (write_entry ?r (lv 3 v) (f2 OR ?c) st1) of
            (None, st3) \<Rightarrow> (None, st3)
          | (Some f1, st3) \<Rightarrow> (case allocate_zeroed_phys (write_entry f2 0 (f1 OR ?c) st3) of
              (None, st5) \<Rightarrow> (None, st5)
            | (Some f0, st5) \<Rightarrow> (Some v, write_entry f0 0 (leaf_entry (write_entry f1 0 (f0 OR ?c) st5) p w x)
                (write_entry f1 0 (f0 OR ?c) st5)))))"
      using res [unfolded map_user_page_fresh_def r Let_def Some option.case v_def [symmetric]]
      unfolding lv(1) leaf_entry_def by (rule sym)
    show ?thesis
    proof (cases rule: fresh_tables [OF ok lv(2,3) miss c])
      case 1
      then show ?thesis using res' ok by simp
    next
      case (2 f2 st1 st2)
      then have "result = None" "st' = st2" using res' by simp_all
      then show ?thesis using 2 phys [OF 2(6)] phys [of st] by simp
    next
      case (3 f2 st1 st2 f1 st3 st4)
      then have "result = None" "st' = st4" using res' by simp_all
      then show ?thesis using 3 phys [OF 3(8)] phys [of st] by simp
    next
      case (4 f2 st1 st2 f1 st3 st4 f0 st5 st6)
      then have R: "result = Some v" "st' = write_entry f0 (lv 0 v) (leaf_entry st6 p w x) st6"
        using res' lv(4) by simp_all
      note W = write_leaf [OF 4(7,13) leaf_entry_bits(1) [OF p] R(2)]
      have rg: "regs st' = regs st" using 4(8) by (simp add: R(2))
      have "virt_to_phys st' a = (if page_of a = page_of v then Some (p OR (a AND 0xFFF)) else virt_to_phys st a)" for a
        using fun_cong [OF 4(9), of a] phys(1) [OF rg] phys(1) [of st]
        by (simp add: phys_at_def W(3) leaf_entry_bits(4) [OF p])
      moreover have "granted (read_raw_entry st') 3 ?r v = (f2 OR ?c) AND (f1 OR ?c) AND (f0 OR ?c) AND leaf_entry st6 p w x"
        using granted_path [of "read_raw_entry st'" ?r v f2 f1 f0] W(2,5) W(4) [of 3 ?r] W(4) [OF _ 4(11)] W(4) [OF _ 4(12)]
          4(11-16) leaf_entry_bits(1) [OF p] by simp
      moreover have "bit ?c 2" "bit ?c 1" unfolding flag_bit [symmetric]
        by (simp_all add: ENTRY_PRESENT_def ENTRY_USER_def ENTRY_WRITABLE_def)
      ultimately show ?thesis
        using R(1) W(1) rg phys(2) [OF rg] 4(10) slot leaf_entry_bits(2,3) [OF p, of st6 w x]
        unfolding flag_bit by (auto simp: bit_and_iff bit_or_iff v_def R(2))
    qed
  qed
qed

section \<open>Copying the root\<close>

lemma copy_entries:
  assumes dm: "direct_map st" and f: "f AND ADDRESS_MASK = f" and r: "r AND ADDRESS_MASK = r" and ne: "f \<noteq> r"
    and n: "n \<le> 512"
  defines "st' \<equiv> fold (\<lambda>i s. write_entry f i (read_raw_entry s r i) s) [0..<n] st"
  shows "pg_frames st' = pg_frames st \<and> regs st' = regs st \<and>
    (\<forall>x j. x AND ADDRESS_MASK = x \<longrightarrow> j < 512 \<longrightarrow>
      read_raw_entry st' x j = (if x = f \<and> j < n then read_raw_entry st r j else read_raw_entry st x j))"
  unfolding st'_def using n
proof (induction n)
  case (Suc n)
  let ?s = "fold (\<lambda>i s. write_entry f i (read_raw_entry s r i) s) [0..<n] st"
  have IH: "pg_frames ?s = pg_frames st" "regs ?s = regs st"
    "\<And>x j. x AND ADDRESS_MASK = x \<Longrightarrow> j < 512 \<Longrightarrow>
      read_raw_entry ?s x j = (if x = f \<and> j < n then read_raw_entry st r j else read_raw_entry st x j)"
    using Suc by auto
  have "direct_map ?s" using dm regs_simps(5) [OF IH(2)] by simp
  then have "read_raw_entry (write_entry f n (read_raw_entry ?s r n) ?s) x j =
      (if x = f \<and> j < Suc n then read_raw_entry st r j else read_raw_entry st x j)"
    if "x AND ADDRESS_MASK = x" "j < 512" for x j
    using read_write_entry [of ?s x f n j] that f Suc.prems IH(3) [OF that] IH(3) [OF r, of n] ne
    by (auto simp: less_Suc_eq)
  then show ?case using IH(1,2) by simp
qed simp

lemma copy_table_ok:
  assumes "direct_map st" "f AND ADDRESS_MASK = f" "r AND ADDRESS_MASK = r" "f \<noteq> r"
  shows "pg_frames (copy_table f r st) = pg_frames st" "regs (copy_table f r st) = regs st"
    "x AND ADDRESS_MASK = x \<Longrightarrow> j < 512 \<Longrightarrow>
      read_raw_entry (copy_table f r st) x j = (if x = f then read_raw_entry st r j else read_raw_entry st x j)"
  using copy_entries [OF assms order_refl] by (simp_all add: copy_table_def)

text \<open>Tables that a walk does not visit do not matter, and a copy of the root is walked like the root.\<close>

lemma walk_copied_root:
  assumes ok: "space_ok U st r" and i: "i \<in> free_pool st" and f: "f = frame_addr i"
    and reads: "\<forall>x j. x AND ADDRESS_MASK = x \<longrightarrow> j < 512 \<longrightarrow>
      read_raw_entry st' x j = (if x = f then read_raw_entry st r j else read_raw_entry st x j)"
  shows "walk (read_raw_entry st') 3 f v = walk (read_raw_entry st) 3 r v"
    "tab (read_raw_entry st') 3 f v l = (if l = 3 then Some f else tab (read_raw_entry st) 3 r v l)"
proof -
  let ?E = "read_raw_entry st" and ?E' = "read_raw_entry st'"
  note D = space_okD [OF ok] and rd = reads [rule_format]
  have n: "Suc 2 = 3" by simp
  have same: "?E' x (lv k v) = ?E x (lv k v)" if "tab ?E 3 r v k = Some x" for k x
    using rd [OF D(7) [OF that] lv_less] D(5) [OF i, of v k] that f by auto
  have top: "?E' f (lv 3 v) = ?E r (lv 3 v)" using rd [OF _ lv_less] D(6) [OF i] f by simp
  have sub: "tab ?E 3 r v k = Some x" if "entry_step 3 (?E r (lv 3 v)) = Link c" "tab ?E 2 c v k = Some x" for c k x
  proof -
    have "tab ?E 3 r v 2 = Some c" using tab_link [of ?E 3 r v 2 r, unfolded n] that(1) by simp
    then show ?thesis using tab_descend tab_le [OF that(2)] that(2) by metis
  qed
  show "walk ?E' 3 f v = walk ?E 3 r v"
  proof (cases "entry_step 3 (?E r (lv 3 v))")
    case (Link c)
    have "walk ?E' 2 c v = walk ?E 2 c v" by (rule walk_frame) (use same sub [OF Link] in simp)
    then show ?thesis by (simp add: walk_top top Link)
  qed (simp_all add: walk_top top)
  show "tab ?E' 3 f v l = (if l = 3 then Some f else tab ?E 3 r v l)"
  proof (cases "entry_step 3 (?E r (lv 3 v))")
    case (Link c)
    have "tab ?E' 2 c v l = tab ?E 2 c v l" by (rule tab_frame [where l = 0]) (use same sub [OF Link] in simp_all)
    then show ?thesis using tab.simps(2) [of ?E 2 r v l] tab.simps(2) [of ?E' 2 f v l] top Link unfolding n by simp
  qed (use tab.simps(2) [of ?E 2 r v l] tab.simps(2) [of ?E' 2 f v l] top in \<open>simp_all add: n\<close>)
qed

lemma copied_words:
  assumes "\<And>i j. i < n \<Longrightarrow> j < n \<Longrightarrow> a + 8 * i \<noteq> b + 8 * (j :: nat)"
  shows "fold (\<lambda>i (copied, m). (if P (m (a + 8 * i)) then copied + 1 else copied, m(b + 8 * i := m (a + 8 * i))))
      [0..<n] (0, m) =
    (length (filter (\<lambda>i. P (m (a + 8 * i))) [0..<n]), fold (\<lambda>i m. m(b + 8 * i := m (a + 8 * i))) [0..<n] m)"
  using assms
proof (induction n)
  case (Suc n)
  have "fold (\<lambda>i m. m(b + 8 * i := m (a + 8 * i))) [0..<k] m (a + 8 * n) = m (a + 8 * n)" if "k \<le> n" for k
    using that
  proof (induction k)
    case (Suc k)
    then have "a + 8 * n \<noteq> b + 8 * k" using Suc.prems Suc(2) \<open>\<And>i j. i < Suc n \<Longrightarrow> j < Suc n \<Longrightarrow> a + 8 * i \<noteq> b + 8 * j\<close> by simp
    then show ?case using Suc by simp
  qed simp
  from this [of n] Suc show ?case by (simp add: Let_def del: fun_upd_apply)
qed simp

lemma copy_table_memory:
  "copy_table f r st = st\<lparr>pg_mem := fold (\<lambda>i m. m(unat (pg_hhdm st + f) + 8 * i := m (unat (pg_hhdm st + r) + 8 * i)))
     [0..<512] (pg_mem st)\<rparr>"
proof -
  have "fold (\<lambda>i s. write_entry f i (read_raw_entry s r i) s) is st =
    st\<lparr>pg_mem := fold (\<lambda>i m. m(unat (pg_hhdm st + f) + 8 * i := m (unat (pg_hhdm st + r) + 8 * i))) is (pg_mem st)\<rparr>" for "is"
    by (induction "is" arbitrary: st) (simp_all add: write_entry_def read_raw_entry_def)
  then show ?thesis by (simp add: copy_table_def)
qed

text \<open>\<open>build_kernel_space\<close> in terms of the operations on tables.\<close>

lemma build_cases:
  assumes ok: "space_ok U st r" and r: "r = current_root_phys st" and h: "h = pg_hhdm st"
    and U: "\<forall>i \<in> U. 256 \<le> i" and res: "build_kernel_space h st = (result, st')"
  obtains (none) "free_pool st = {}" "result = None" "st' = st"
  | (some) i st1 where "i \<in> free_pool st" "allocate_zeroed_phys st = (Some (frame_addr i), st1)"
      "free_pool st1 = free_pool st - {i}" "pmm_inv U (pg_frames st1)" "regs st1 = regs st"
      "\<And>x j. x AND ADDRESS_MASK = x \<Longrightarrow> j < 512 \<Longrightarrow>
        read_raw_entry st1 x j = (if x = frame_addr i then 0 else read_raw_entry st x j)"
      "(\<exists>j < 512. present (read_raw_entry st r j)) \<longleftrightarrow> result \<noteq> None"
      "result \<noteq> None \<Longrightarrow> result = Some (frame_addr i) \<and> st' = (copy_table (frame_addr i) r st1)\<lparr>pg_new_pml4 := frame_addr i\<rparr>"
      "result = None \<Longrightarrow> st' = copy_table (frame_addr i) r st1"
proof -
  note D = space_okD [OF ok]
  show thesis
  proof (cases rule: allocate_zeroed [OF D(1,2)])
    case 1
    then have "result = None \<and> st' = st"
      using res h by (auto simp: build_kernel_space_def allocate_zeroed_phys_def Let_def split: prod.splits option.splits)
    then show thesis using 1(1) by (intro none) simp_all
  next
    case (2 i st1)
    let ?f = "frame_addr i"
    obtain virt fr mm where z: "alloc_frame_zeroed (unat h) (pg_frames st) (pg_mem st) = (Some virt, fr, mm)"
      "of_nat virt - h = ?f" "st1 = st\<lparr>pg_frames := fr, pg_mem := mm\<rparr>"
      using 2(2) h by (auto simp: allocate_zeroed_phys_def split: prod.splits option.splits)
    obtain k where k: "k \<in> free_pool st" "virt = unat h + k * FRAME_SIZE"
      using D(2) z(1) by (cases rule: alloc_frame_cases) (auto simp: alloc_frame_zeroed_def)
    have small: "j < MAX_FRAMES" if "j \<in> free_pool st" for j
      using that D(2) by (auto simp: pmm_inv_def dest!: free_set_bound)
    have "virt < 2 ^ 64"
    proof -
      have "k * FRAME_SIZE < MAX_FRAMES * FRAME_SIZE" using small [OF k(1)] by simp
      then show ?thesis using D(1) k(2) unfolding direct_map_def h by linarith
    qed
    then have virt: "virt = unat (h + ?f)"
      unfolding z(2) [symmetric] by (simp add: unat_of_nat)
    have "256 \<le> i" using 2(1) D(2) U by (auto simp: pmm_inv_def)
    then have low: "\<not> ?f < 0x100000" "?f \<noteq> 0"
      using frame_addr_facts(1) [OF small [OF 2(1)]] by (auto simp: word_less_nat_alt FRAME_SIZE_def)
    have al: "?f AND ADDRESS_MASK = ?f" by (rule D(6) [OF 2(1)])
    have "?f AND mask 12 = (?f AND ADDRESS_MASK) AND mask 12" by (simp only: al)
    also have "\<dots> = 0" unfolding page_masks(4) by (rule and_clear)
    finally have off: "?f AND 0xFFF = 0" by (simp add: mask_eq_exp_minus_1)
    have ne: "?f \<noteq> r" using D(5) [OF 2(1), of 0 3] by auto
    have apart: "unat (h + r) + 8 * a \<noteq> virt + 8 * b" if "a < 512" "b < 512" for a b :: nat
      unfolding virt using entry_address_inj [of h r ?f a b] D(1,3) al ne that h by (simp add: direct_map_def)
    have copied: "fold (\<lambda>i (copied, m). (if present (m (unat (h + r) + 8 * i)) then copied + 1 else copied,
          m(virt + 8 * i := m (unat (h + r) + 8 * i)))) [0..<512] (0, mm) =
      (length (filter (\<lambda>i. present (mm (unat (h + r) + 8 * i))) [0..<512]), pg_mem (copy_table ?f r st1))"
      using copied_words [of 512 "unat (h + r)" virt present mm, OF apart] z(3) h virt
      by (simp add: copy_table_memory)
    have none: "length (filter (\<lambda>j. present (mm (unat (h + r) + 8 * j))) [0..<512]) = 0 \<longleftrightarrow>
        \<not> (\<exists>j < 512. present (read_raw_entry st r j))"
    proof -
      have "mm (unat (h + r) + 8 * j) = read_raw_entry st r j" if "j < 512" for j
        using 2(6) [OF D(3) that] ne by (simp add: read_raw_entry_def z(3) h)
      then show ?thesis by (auto simp: filter_empty_conv)
    qed
    have c: "st\<lparr>pg_frames := fr, pg_mem := pg_mem (copy_table ?f r st1)\<rparr> = copy_table ?f r st1"
      unfolding copy_table_memory z(3) by simp
    have "(result, st') = (if \<not> (\<exists>j < 512. present (read_raw_entry st r j)) then (None, copy_table ?f r st1)
        else (Some ?f, (copy_table ?f r st1)\<lparr>pg_new_pml4 := ?f\<rparr>))"
      using res none low off c
      by (simp add: build_kernel_space_def r [symmetric] z(1,2) z(3) [symmetric] Let_def copied del: fun_upd_apply split: if_splits) auto
    then show thesis
      by (intro some [OF 2]) (auto split: if_splits)
  qed
qed

lemma validate_counts:
  "validate_space st root regions =
    (length (filter (\<lambda>(name, a). translate_from_root st root a \<noteq> None) regions),
     length (filter (\<lambda>(name, a). translate_from_root st root a = None) regions))"
proof -
  have "fold (\<lambda>(name, virtual_address) (mapped, failed).
        case translate_from_root st root virtual_address of
          Some _ \<Rightarrow> (mapped + 1, failed)
        | None \<Rightarrow> (mapped, failed + 1)) regions (m, f) =
    (m + length (filter (\<lambda>(name, a). translate_from_root st root a \<noteq> None) regions),
     f + length (filter (\<lambda>(name, a). translate_from_root st root a = None) regions))" for m f
    by (induction regions arbitrary: m f) (auto split: option.splits)
  then show ?thesis by (simp add: validate_space_def)
qed

text \<open>The two control bits have no influence on tables.\<close>

lemma enable_bits_same [simp]:
  "pg_mem (enable_cr0_wp (enable_efer_nxe st)) = pg_mem st" "pg_frames (enable_cr0_wp (enable_efer_nxe st)) = pg_frames st"
  "pg_hhdm (enable_cr0_wp (enable_efer_nxe st)) = pg_hhdm st" "pg_cr3 (enable_cr0_wp (enable_efer_nxe st)) = pg_cr3 st"
  "pg_cr4 (enable_cr0_wp (enable_efer_nxe st)) = pg_cr4 st" "pg_ready (enable_cr0_wp (enable_efer_nxe st)) = pg_ready st"
  by (simp_all add: enable_cr0_wp_def enable_efer_nxe_def)

lemma read_same: "pg_mem s = pg_mem t \<Longrightarrow> pg_hhdm s = pg_hhdm t \<Longrightarrow> read_raw_entry s = read_raw_entry t"
  by (intro ext) (simp add: read_raw_entry_def)

lemma translate_root_same:
  "\<not> la57_enabled s \<Longrightarrow> translate_from_root s root a = map_option (leaf_mapping a) (walk (read_raw_entry s) 3 root a)"
  by (simp add: translate_spec walk_root_def)

lemma space_ok_frame:
  assumes "space_ok U st r" "tab (read_raw_entry st') 3 r = tab (read_raw_entry st) 3 r"
    "pg_hhdm st' = pg_hhdm st" "pmm_inv U (pg_frames st')" "free_pool st' \<subseteq> free_pool st"
  shows "space_ok U st' r"
  using assms unfolding space_ok_def tree_def direct_map_def by auto

text \<open>The state after the root has been copied: both roots lead to the same translations.\<close>

lemma copied_root:
  assumes ok: "space_ok U st r" and i: "i \<in> free_pool st"
    and s: "free_pool s = free_pool st - {i}" "pmm_inv U (pg_frames s)" "regs s = regs st"
      "\<forall>x j. x AND ADDRESS_MASK = x \<longrightarrow> j < 512 \<longrightarrow>
        read_raw_entry s x j = (if x = frame_addr i then 0 else read_raw_entry st x j)"
    and k: "pg_mem k = pg_mem (copy_table (frame_addr i) r s)" "pg_hhdm k = pg_hhdm st" "pg_frames k = pg_frames s"
  shows "walk (read_raw_entry k) 3 (frame_addr i) v = walk (read_raw_entry st) 3 r v"
    "walk (read_raw_entry k) 3 r v = walk (read_raw_entry st) 3 r v"
    "space_ok U k (frame_addr i)" "space_ok U k r" "frame_addr i \<noteq> r" "frame_addr i AND ADDRESS_MASK = frame_addr i"
proof -
  let ?f = "frame_addr i"
  note D = space_okD [OF ok]
  show al: "?f AND ADDRESS_MASK = ?f" by (rule D(6) [OF i])
  have fresh: "tab (read_raw_entry st) 3 r w l \<noteq> Some ?f" for w l by (rule D(5) [OF i])
  then show ne: "?f \<noteq> r" by (metis tab_top)
  have dm: "direct_map s" using D(1) regs_simps(5) [OF s(3)] by simp
  note C = copy_table_ok [OF dm al D(3) ne]
  have e: "read_raw_entry k = read_raw_entry (copy_table ?f r s)"
    using k(1,2) regs_simps(1) [OF C(2)] regs_simps(1) [OF s(3)] by (intro read_same) simp_all
  have rd: "read_raw_entry k x j = (if x = ?f then read_raw_entry st r j else read_raw_entry st x j)"
    if "x AND ADDRESS_MASK = x" "j < 512" for x j
    unfolding e C(3) [OF that] using s(4) that D(3) ne by simp
  then have "\<forall>x j. x AND ADDRESS_MASK = x \<longrightarrow> j < 512 \<longrightarrow>
      read_raw_entry k x j = (if x = ?f then read_raw_entry st r j else read_raw_entry st x j)" by blast
  note W = walk_copied_root [OF ok i refl this]
  show "walk (read_raw_entry k) 3 ?f v = walk (read_raw_entry st) 3 r v" by (rule W(1))
  have same: "read_raw_entry k x (lv l w) = read_raw_entry st x (lv l w)" if "tab (read_raw_entry st) 3 r w l = Some x" for w l x
    using rd [OF D(7) [OF that] lv_less] fresh [of w l] that by auto
  show "walk (read_raw_entry k) 3 r v = walk (read_raw_entry st) 3 r v"
    by (rule walk_frame) (use same in simp)
  have "tab (read_raw_entry k) 3 r = tab (read_raw_entry st) 3 r"
    by (intro ext tab_frame [where l = 0]) (use same in simp_all)
  then show "space_ok U k r" using space_ok_frame [OF ok] k(2,3) s(1,2) by simp
  have "tree (read_raw_entry k) ?f"
    unfolding tree_def W(2)
  proof (intro allI impI)
    fix v w a b x
    assume a: "(if a = 3 then Some ?f else tab (read_raw_entry st) 3 r v a) = Some x"
      and b: "(if b = 3 then Some ?f else tab (read_raw_entry st) 3 r w b) = Some x"
    show "a = b \<and> (\<forall>l. a < l \<and> l \<le> 3 \<longrightarrow> lv l v = lv l w)"
    proof (cases "x = ?f")
      case True
      then have "a = 3" "b = 3" using a b fresh by (metis (full_types))+
      then show ?thesis by simp
    next
      case False
      then have "tab (read_raw_entry st) 3 r v a = Some x" "tab (read_raw_entry st) 3 r w b = Some x"
        using a b by (auto split: if_splits)
      then show ?thesis using treeD [OF D(4)] by blast
    qed
  qed
  moreover have "\<not> (if l = 3 then Some ?f else tab (read_raw_entry st) 3 r w l) = Some (frame_addr j)"
    if "j \<in> free_pool st - {i}" for j w l
  proof -
    have "?f \<noteq> frame_addr j"
      using frame_addr_inj [of i j] that i D(2) by (auto simp: pmm_inv_def dest!: free_set_bound)
    then show ?thesis using D(5) [of j w l] that by auto
  qed
  ultimately show "space_ok U k ?f"
    using D(1) k(2,3) s(1,2) al unfolding space_ok_def W(2) direct_map_def by auto
qed

text \<open>
  C10: the kernel's own root. vmm_init switches to a new root exactly when a frame is free, there are
  regions to keep and each of them is mapped; every address then translates as it did under the root of
  the boot loader, the new root is one frame of its own, and it is the one in CR3 and the one later
  mappings go to. Otherwise CR3 and the ready flag stay as they were; in both cases all translations stay.
\<close>

theorem vmm_init_switches:
  assumes ok: "space_ok U st (current_root_phys st)" and la: "\<not> la57_enabled st" and h: "h = pg_hhdm st"
    and U: "\<forall>i \<in> U. 256 \<le> i" and res: "vmm_init h regions st = (result, st')"
  shows "(\<forall>a. translate st' a = translate st a) \<and> space_ok U st' (current_root_phys st') \<and>
    (result \<noteq> None \<longleftrightarrow> free_pool st \<noteq> {} \<and> regions \<noteq> [] \<and> (\<forall>(name, a) \<in> set regions. translate st a \<noteq> None)) \<and>
    (result = None \<longrightarrow> pg_cr3 st' = pg_cr3 st \<and> pg_ready st' = pg_ready st) \<and>
    (\<forall>p. result = Some p \<longrightarrow> (\<exists>i \<in> free_pool st. p = frame_addr i \<and> free_pool st' = free_pool st - {i}) \<and>
       pg_cr3 st' = p \<and> p \<noteq> current_root_phys st \<and> pg_ready st' \<and> pg_new_pml4 st' = p)"
proof -
  let ?r = "current_root_phys st"
  note D = space_okD [OF ok]
  obtain b st1 where b: "build_kernel_space h st = (b, st1)" by force
  show ?thesis
  proof (cases rule: build_cases [OF ok refl h U b])
    case 1
    then have "result = None" "st' = st" using res b by (simp_all add: vmm_init_def)
    then show ?thesis using ok 1(1) by simp
  next
    case (2 i s)
    let ?f = "frame_addr i"
    have same: "pg_mem (copy_table ?f ?r s) = pg_mem st1 \<and> pg_frames st1 = pg_frames s \<and> regs st1 = regs s \<and>
        (b = Some p \<longrightarrow> p = ?f \<and> pg_new_pml4 st1 = ?f)" for p
    proof (cases "b = None")
      case True
      show ?thesis unfolding 2(9) [OF True] True by (simp add: copy_table_memory regs_def)
    next
      case False
      show ?thesis using 2(8) [OF False] by (simp add: copy_table_memory regs_def)
    qed
    then have k: "pg_mem st1 = pg_mem (copy_table ?f ?r s)" "pg_frames st1 = pg_frames s" "regs st1 = regs st"
      "b = Some p \<Longrightarrow> p = ?f \<and> pg_new_pml4 st1 = ?f" for p
      using 2(5) by simp_all
    then have kr: "pg_hhdm st1 = pg_hhdm st" "pg_cr3 st1 = pg_cr3 st" "pg_cr4 st1 = pg_cr4 st" "pg_ready st1 = pg_ready st"
      by (simp_all add: regs_def)
    let ?st2 = "enable_cr0_wp (enable_efer_nxe st1)"
    have rd: "\<forall>x j. x AND ADDRESS_MASK = x \<longrightarrow> j < 512 \<longrightarrow>
        read_raw_entry s x j = (if x = ?f then 0 else read_raw_entry st x j)" using 2(6) by blast
    have k2: "pg_mem ?st2 = pg_mem (copy_table ?f ?r s)" "pg_hhdm ?st2 = pg_hhdm st" "pg_frames ?st2 = pg_frames s"
      using k(1,2) kr(1) by simp_all
    note C = copied_root [OF ok 2(1,3,4,5) rd k2] and C1 = copied_root [OF ok 2(1,3,4,5) rd k(1) kr(1) k(2)]
    have e: "read_raw_entry ?st2 = read_raw_entry st1" by (rule read_same) simp_all
    have old: "translate st a = map_option (leaf_mapping a) (walk (read_raw_entry st) 3 ?r a)" for a
      by (rule virt_to_phys_at(2) [OF la])
    have la': "\<not> la57_enabled t" if "pg_cr4 t = pg_cr4 st" for t using la that by (simp add: la57_enabled_def)
    have pool: "free_pool st1 = free_pool st - {i}" using 2(3) k(2) by simp
    have keep: "translate t a = translate st a"
      if "pg_mem t = pg_mem st1" "pg_hhdm t = pg_hhdm st" "pg_cr4 t = pg_cr4 st" "current_root_phys t = ?r \<or> current_root_phys t = ?f" for t a
    proof -
      have "read_raw_entry t = read_raw_entry st1" using that(1,2) kr by (intro read_same) simp_all
      then show ?thesis using that(4) C1(1,2) by (auto simp: translate_def translate_root_same la' that(3) old)
    qed
    show ?thesis
    proof (cases b)
      case None
      then have "translate st a = None" for a
        using 2(7) unfolding old walk_top by (auto simp: entry_step_def)
      moreover have "result = None" "st' = st1" using None b res by (simp_all add: vmm_init_def)
      ultimately show ?thesis
        using keep [of st1] kr C1(4) by (cases regions) (auto simp: current_root_phys_def)
    next
      case (Some p)
      then have p: "p = ?f" "pg_new_pml4 st1 = ?f" using k(4) by simp_all
      have new: "translate_from_root ?st2 ?f a = translate st a" for a
        unfolding old using C1(1) e by (simp add: translate_root_same la' kr)
      define good where "good \<longleftrightarrow> regions \<noteq> [] \<and> (\<forall>(name, a) \<in> set regions. translate st a \<noteq> None)"
      have v: "(let (mapped, failed) = validate_space ?st2 ?f regions in failed \<noteq> 0 \<or> mapped = 0) \<longleftrightarrow> \<not> good"
        unfolding validate_counts new good_def by (cases regions) (auto simp: filter_empty_conv split: prod.splits)
      let ?t = "?st2\<lparr>pg_cr3 := ?f, pg_ready := True\<rparr>"
      have out: "(result, st') = (if good then (Some ?f, ?t) else (None, ?st2))"
        using res v unfolding vmm_init_def b Some p activate_def by (auto simp: Let_def split: prod.splits if_splits)
      have root: "current_root_phys ?t = ?f" using C1(6) by (simp add: current_root_phys_def)
      have "pg_new_pml4 ?st2 = ?f" using p(2) by (simp add: enable_cr0_wp_def enable_efer_nxe_def)
      moreover have "space_ok U ?t ?f"
        using space_ok_frame [OF C(3), of ?t] read_same [of ?t ?st2] C(3) unfolding space_ok_def by simp
      moreover have "current_root_phys ?st2 = ?r" using kr by (simp add: current_root_phys_def)
      ultimately show ?thesis
        using out keep [of ?t] keep [of ?st2] kr root C(4) C1(5) pool 2(1) k(2) good_def
        by (auto split: if_splits)
    qed
  qed
qed

section \<open>The sandbox test leaves no trace\<close>

text \<open>Frames that are not free again after they have been given back.\<close>

lemma give_back:
  assumes "pmm_inv U (pg_frames st)" "distinct js" "set js \<subseteq> U - free_pool st" "0 \<notin> set js"
  defines "st' \<equiv> fold (\<lambda>f s. if f \<noteq> 0 then s\<lparr>pg_frames := free_frame (unat f) (pg_frames s)\<rparr> else s) (map frame_addr js) st"
  shows "pmm_inv U (pg_frames st') \<and> free_pool st' = free_pool st \<union> set js \<and> pg_mem st' = pg_mem st \<and> regs st' = regs st"
  unfolding st'_def using assms(1-4)
proof (induction js arbitrary: st)
  case (Cons j js)
  have j: "j \<in> U" "j < max_frames (bitmap (pg_frames st))" "j \<notin> free_pool st" "j < MAX_FRAMES"
    using Cons.prems(1,3) by (auto simp: pmm_inv_def)
  then have a: "unat (frame_addr j) = j * FRAME_SIZE" by (intro frame_addr_facts(1))
  then have nz: "frame_addr j \<noteq> 0" using Cons.prems(4) by (auto simp: FRAME_SIZE_def)
  let ?s = "st\<lparr>pg_frames := free_frame (unat (frame_addr j)) (pg_frames st)\<rparr>"
  have fr: "free_frame (unat (frame_addr j)) (pg_frames st) =
      (pg_frames st)\<lparr>bitmap := set_frame_free (bitmap (pg_frames st)) j, free_frames := free_frames (pg_frames st) + 1\<rparr>"
    using j(2,3) by (simp add: free_frame_def a free_set_def Let_def)
  then have pool: "free_pool ?s = insert j (free_pool st)" using j(2) by (simp add: free_set_free)
  moreover have "pmm_inv U (pg_frames ?s)"
    using free_frame_inv [OF Cons.prems(1), of "unat (frame_addr j)"] j(1) a by simp
  ultimately show ?case
    using Cons.IH [of ?s] Cons.prems nz by (auto simp: regs_def)
qed simp

lemma sandbox_allocate_ok:
  assumes "direct_map st" "pmm_inv U (pg_frames st)" "sandbox_allocate es st = (r, fs, st')"
  shows "\<exists>js. fs = map frame_addr js \<and> distinct js \<and> set js \<subseteq> free_pool st \<and> free_pool st' = free_pool st - set js \<and>
    pmm_inv U (pg_frames st') \<and> regs st' = regs st \<and>
    (\<forall>x k. x AND ADDRESS_MASK = x \<longrightarrow> k < 512 \<longrightarrow>
      read_raw_entry st' x k = (if x \<in> set fs then 0 else read_raw_entry st x k)) \<and>
    (case r of None \<Rightarrow> length js = length es | Some e \<Rightarrow> e \<in> set es \<and> free_pool st' = {} \<and> length js < length es)"
  using assms
proof (induction es arbitrary: st r fs)
  case (Cons e es)
  show ?case
  proof (cases rule: allocate_zeroed [OF Cons.prems(1,2)])
    case 1
    then show ?thesis using Cons.prems by auto
  next
    case (2 i st1)
    obtain r' fs' where r: "sandbox_allocate es st1 = (r', fs', st')" "r = r'" "fs = frame_addr i # fs'"
      using Cons.prems(3) 2(2) by (auto split: prod.splits)
    have "direct_map st1" using Cons.prems(1) regs_simps(5) [OF 2(5)] by simp
    from Cons.IH [OF this 2(4) r(1)] obtain js where js: "fs' = map frame_addr js" "distinct js" "set js \<subseteq> free_pool st1"
      "free_pool st' = free_pool st1 - set js" "pmm_inv U (pg_frames st')" "regs st' = regs st1"
      "\<forall>x k. x AND ADDRESS_MASK = x \<longrightarrow> k < 512 \<longrightarrow>
        read_raw_entry st' x k = (if x \<in> set fs' then 0 else read_raw_entry st1 x k)"
      "case r' of None \<Rightarrow> length js = length es | Some e \<Rightarrow> e \<in> set es \<and> free_pool st' = {} \<and> length js < length es"
      by blast
    have "fs = map frame_addr (i # js)" "distinct (i # js)" "set (i # js) \<subseteq> free_pool st"
      "free_pool st' = free_pool st - set (i # js)" "regs st' = regs st"
      using js 2(1,3,5) r(3) by auto
    moreover have "read_raw_entry st' x k = (if x \<in> set fs then 0 else read_raw_entry st x k)"
      if "x AND ADDRESS_MASK = x" "k < 512" for x k
      using js(7) that 2(6) [OF that] r(3) by auto
    moreover have "case r of None \<Rightarrow> length (i # js) = length (e # es)
      | Some e' \<Rightarrow> e' \<in> set (e # es) \<and> free_pool st' = {} \<and> length (i # js) < length (e # es)"
      using js(8) r(2) by (auto split: option.splits)
    ultimately show ?thesis using js(5) by blast
  qed
qed simp

text \<open>What is written into frames that were free is not seen by a walk.\<close>

lemma unseen:
  assumes ok: "space_ok U st r" and J: "J \<subseteq> free_pool st"
    and rd: "\<forall>x k. x AND ADDRESS_MASK = x \<longrightarrow> k < 512 \<longrightarrow> x \<notin> frame_addr ` J \<longrightarrow>
      read_raw_entry s x k = read_raw_entry st x k"
  shows "tab (read_raw_entry s) 3 r = tab (read_raw_entry st) 3 r" "walk (read_raw_entry s) 3 r = walk (read_raw_entry st) 3 r"
proof -
  have same: "read_raw_entry s x (lv k v) = read_raw_entry st x (lv k v)" if "tab (read_raw_entry st) 3 r v k = Some x" for v k x
    using rd space_okD(7) [OF ok that] space_okD(5) [OF ok] J that lv_less by blast
  show "tab (read_raw_entry s) 3 r = tab (read_raw_entry st) 3 r"
    by (intro ext tab_frame [where l = 0]) (use same in simp_all)
  show "walk (read_raw_entry s) 3 r = walk (read_raw_entry st) 3 r"
    by (intro ext walk_frame) (use same in simp)
qed

text \<open>The chain that the test builds below its copy of the root is found by a walk.\<close>

lemma sandbox_chain:
  assumes E: "E root slot = f0 OR c" "E f0 0 = f1 OR c" "E f1 0 = f2 OR c" "E f2 0 = f3 OR c"
    and f: "f0 AND ADDRESS_MASK = f0" "f1 AND ADDRESS_MASK = f1" "f2 AND ADDRESS_MASK = f2" "f3 AND ADDRESS_MASK = f3"
    and c: "c AND ADDRESS_MASK = 0" "c AND ENTRY_PRESENT \<noteq> 0" "c AND ENTRY_HUGE_PAGE = 0"
    and lv: "lv 3 v = slot" "lv 2 v = 0" "lv 1 v = 0" "lv 0 v = 0"
  shows "walk E 3 root v = Some (0, f3 OR c)"
proof -
  have n: "(3 :: nat) = Suc (Suc (Suc 0))" "(2 :: nat) = Suc (Suc 0)" "(1 :: nat) = Suc 0" by simp_all
  have "present (f3 OR c)" using masked_or(2) [OF f(4) c(1) flag_bits(1)] c(2) by simp
  then have "entry_step 0 (f3 OR c) = Leaf" by (simp add: entry_step_def)
  then show ?thesis
    using E lv [unfolded n] link_step [OF f(1) c] link_step [OF f(2) c] link_step [OF f(3) c] unfolding n by simp
qed

lemma sandbox_body_ok:
  assumes ok: "space_ok U st r" and r: "r = current_root_phys st" and i: "i \<in> free_pool st" and f: "f = frame_addr i"
    and s1: "free_pool st1 = free_pool st - {i}" "pmm_inv U (pg_frames st1)" "regs st1 = regs st"
    and rd1: "\<forall>x k. x AND ADDRESS_MASK = x \<longrightarrow> k < 512 \<longrightarrow>
      read_raw_entry st1 x k = (if x = f then 0 else read_raw_entry st x k)"
    and la: "\<not> la57_enabled st" and body: "sandbox_body f st1 = (result, fs, st2)"
  shows "\<exists>js. fs = map frame_addr js \<and> distinct (i # js) \<and> set js \<subseteq> free_pool st \<and>
    free_pool st2 = free_pool st - set (i # js) \<and> pmm_inv U (pg_frames st2) \<and> regs st2 = regs st \<and>
    (\<forall>x k. x AND ADDRESS_MASK = x \<longrightarrow> k < 512 \<longrightarrow> x \<notin> frame_addr ` set (i # js) \<longrightarrow>
       read_raw_entry st2 x k = read_raw_entry st x k) \<and>
    result \<noteq> Inl TranslationMismatch \<and>
    ((\<exists>m. result = Inr m) \<longleftrightarrow> 5 \<le> card (free_pool st) \<and> (\<exists>k < 512. \<not> present (read_raw_entry st r k)))"
proof -
  note D = space_okD [OF ok]
  have al: "f AND ADDRESS_MASK = f" unfolding f by (rule D(6) [OF i])
  have ne: "f \<noteq> r" using D(5) [OF i] f by (metis tab_top)
  have root: "current_root_phys st1 = r" using regs_simps(2) [OF s1(3)] r by simp
  have dm1: "direct_map st1" using D(1) regs_simps(5) [OF s1(3)] by simp
  let ?k = "copy_table f r st1"
  note C = copy_table_ok [OF dm1 al D(3) ne]
  have dmk: "direct_map ?k" using dm1 regs_simps(5) [OF C(2)] by simp
  have rdk: "read_raw_entry ?k x k = (if x = f then read_raw_entry st r k else read_raw_entry st x k)"
    if "x AND ADDRESS_MASK = x" "k < 512" for x k
    using C(3) [OF that] rd1 that D(3) ne by simp
  have cardi: "card (free_pool st) = Suc (card (free_pool st1))"
    unfolding s1(1) by (rule card.remove [OF finite_free_set i])
  show ?thesis
  proof (cases "find_free_pml4_slot ?k f")
    case None
    then have "present (read_raw_entry st r k)" if "k < 512" for k
      using rdk [OF al that] that unfolding find_free_pml4_slot_def find_None_iff by auto
    moreover have "result = Inl NoFreeSlot" "fs = []" "st2 = ?k"
      using body None by (simp_all add: sandbox_body_def root)
    ultimately show ?thesis
      using s1 C(1,2) rdk f i by (intro exI [where x = "[]"]) auto
  next
    case (Some slot)
    have slot: "slot < 512" "\<not> present (read_raw_entry st r slot)"
      using find_SomeD [OF Some [unfolded find_free_pml4_slot_def]] rdk [OF al] by auto
    obtain e fs' s where a: "sandbox_allocate [NoPdpt, NoPd, NoPt, NoTestPage] ?k = (e, fs', s)"
      by (metis prod_cases3)
    have "pmm_inv U (pg_frames ?k)" using s1(2) C(1) by simp
    from sandbox_allocate_ok [OF dmk this a] obtain js where js: "fs' = map frame_addr js" "distinct js"
      "set js \<subseteq> free_pool ?k" "free_pool s = free_pool ?k - set js" "pmm_inv U (pg_frames s)" "regs s = regs ?k"
      "\<forall>x k. x AND ADDRESS_MASK = x \<longrightarrow> k < 512 \<longrightarrow>
        read_raw_entry s x k = (if x \<in> set fs' then 0 else read_raw_entry ?k x k)"
      "case e of None \<Rightarrow> length js = 4
        | Some e \<Rightarrow> e \<in> {NoPdpt, NoPd, NoPt, NoTestPage} \<and> free_pool s = {} \<and> length js < 4"
      by (auto split: option.splits)
    have pool: "free_pool ?k = free_pool st - {i}" using s1(1) C(1) by simp
    have cardj: "card (free_pool st) = Suc (length js + card (free_pool s))"
      using cardi js(3,4) pool s1(1) distinct_card [OF js(2)] card_mono [OF _ js(3)] by (simp add: card_Diff_subset)
    have common: "distinct (i # js)" "set js \<subseteq> free_pool st" "free_pool s = free_pool st - set (i # js)" "regs s = regs st"
      using js pool C(2) s1(3) by auto
    have rds: "read_raw_entry s x k = (if x \<in> set fs' then 0 else if x = f then read_raw_entry st r k else read_raw_entry st x k)"
      if "x AND ADDRESS_MASK = x" "k < 512" for x k
      using js(7) rdk that by simp
    show ?thesis
    proof (cases e)
      case (Some err)
      then have out: "result = Inl err" "fs = fs'" "st2 = s"
        using body a \<open>find_free_pml4_slot ?k f = Some slot\<close> by (simp_all add: sandbox_body_def root)
      have "card (free_pool st) < 5" "err \<noteq> TranslationMismatch" using js(8) Some cardj by auto
      then show ?thesis
        using out common js(1,5) rds f by (intro exI [where x = js]) auto
    next
      case None
      then have "length js = 4" using js(8) by simp
      then obtain j0 j1 j2 j3 where j: "js = [j0, j1, j2, j3]"
        by (auto simp: numeral_eq_Suc length_Suc_conv)
      let ?c = "ENTRY_PRESENT OR ENTRY_WRITABLE" and ?v = "canonical_address slot"
      let ?g0 = "frame_addr j0" and ?g1 = "frame_addr j1" and ?g2 = "frame_addr j2" and ?g3 = "frame_addr j3"
      let ?st = "write_entry ?g2 0 (?g3 OR ?c) (write_entry ?g1 0 (?g2 OR ?c)
        (write_entry ?g0 0 (?g1 OR ?c) (write_entry f slot (?g0 OR ?c) s)))"
      have g: "?g0 AND ADDRESS_MASK = ?g0" "?g1 AND ADDRESS_MASK = ?g1" "?g2 AND ADDRESS_MASK = ?g2"
        "?g3 AND ADDRESS_MASK = ?g3"
        using common(2) D(6) j by simp_all
      have dist: "distinct [f, ?g0, ?g1, ?g2, ?g3]"
      proof -
        have "a < MAX_FRAMES" if "a \<in> set (i # js)" for a
          using that i common(2) D(2) by (auto simp: pmm_inv_def dest!: free_set_bound)
        then have "inj_on frame_addr (set (i # js))" by (intro inj_onI) (simp add: frame_addr_inj)
        then have "distinct (map frame_addr (i # js))" using common(1) by (simp only: distinct_map)
        then show ?thesis using f j by simp
      qed
      have c: "?c AND ADDRESS_MASK = 0" "?c AND ENTRY_PRESENT \<noteq> 0" "?c AND ENTRY_HUGE_PAGE = 0"
        by (simp_all add: ENTRY_PRESENT_def ENTRY_WRITABLE_def ADDRESS_MASK_def ENTRY_HUGE_PAGE_def)
      have dms: "direct_map s" using dmk regs_simps(5) [OF js(6)] by simp
      have rd: "read_raw_entry ?st x k = (if x = ?g2 \<and> k = 0 then ?g3 OR ?c else if x = ?g1 \<and> k = 0 then ?g2 OR ?c
          else if x = ?g0 \<and> k = 0 then ?g1 OR ?c else if x = f \<and> k = slot then ?g0 OR ?c else read_raw_entry s x k)"
        if "x AND ADDRESS_MASK = x" "k < 512" for x k
        using dms that g al slot(1) by (simp add: read_write_entry)
      have w: "walk (read_raw_entry ?st) 3 f ?v = Some (0, ?g3 OR ?c)"
        by (rule sandbox_chain [where slot = slot, OF _ _ _ _ g c canonical_levels(1) [OF slot(1)]])
          (use rd [OF al slot(1)] rd [OF g(1)] rd [OF g(2)] rd [OF g(3)] dist canonical_levels(2) [OF slot(1)] in auto)
      have "regs ?st = regs st" using common(4) by simp
      then have "\<not> la57_enabled ?st" using la regs_simps(3) by metis
      then have "translate_from_root ?st f ?v = Some (leaf_mapping ?v (0, ?g3 OR ?c))"
        by (simp add: translate_root_same w)
      moreover have "physical_address (leaf_mapping ?v (0, ?g3 OR ?c)) = ?g3"
      proof -
        have "?v AND 0xFFF = 0" by (rule canonical_offset)
        then show ?thesis unfolding leaf_mapping_code using masked_or(1) [OF g(4) c(1)] by (simp add: PAGE_4K_MASK_def)
      qed
      moreover have "map_size (leaf_mapping ?v (0, ?g3 OR ?c)) = Size4KiB" by (simp add: leaf_mapping_def)
      ultimately have out: "\<exists>m. result = Inr m" "fs = fs'" "st2 = ?st"
        using body a None \<open>find_free_pml4_slot ?k f = Some slot\<close> js(1) j
        by (auto simp: sandbox_body_def root Let_def)
      have "5 \<le> card (free_pool st)" using cardj j by simp
      moreover have "read_raw_entry ?st x k = read_raw_entry st x k"
        if "x AND ADDRESS_MASK = x" "k < 512" "x \<notin> frame_addr ` set (i # js)" for x k
        using rd [OF that(1,2)] rds [OF that(1,2)] that(3) js(1) j f by auto
      ultimately show ?thesis
        using out common js(1,5) slot by (intro exI [where x = js]) auto
    qed
  qed
qed

text \<open>
  The self test of the paging code gives back all it took: the frames are free again, no register has
  changed, and all addresses translate as before.
\<close>

theorem sandbox_no_trace:
  assumes ok: "space_ok U st (current_root_phys st)" and la: "\<not> la57_enabled st" and h: "pg_hhdm st \<noteq> 0"
    and U: "0 \<notin> U" and res: "sandbox_mapping_test st = (result, st')"
  shows "free_pool st' = free_pool st \<and> regs st' = regs st \<and> space_ok U st' (current_root_phys st') \<and>
    (\<forall>a. translate st' a = translate st a) \<and> result \<noteq> Inl TranslationMismatch \<and>
    ((\<exists>m. result = Inr m) \<longleftrightarrow> 5 \<le> card (free_pool st) \<and>
       (\<exists>i < 512. \<not> present (read_raw_entry st (current_root_phys st) i)))"
proof -
  let ?r = "current_root_phys st" and ?E = "read_raw_entry st"
  note D = space_okD [OF ok]
  show ?thesis
  proof (cases rule: allocate_zeroed [OF D(1,2)])
    case 1
    then have "result = Inl NoPml4" "st' = st" using res h by (simp_all add: sandbox_mapping_test_def)
    then show ?thesis using ok 1(1) by simp
  next
    case (2 i st1)
    let ?f = "frame_addr i"
    obtain fs st2 where body: "sandbox_body ?f st1 = (result, fs, st2)"
      "st' = fold (\<lambda>f s. if f \<noteq> 0 then s\<lparr>pg_frames := free_frame (unat f) (pg_frames s)\<rparr> else s) (rev (?f # fs)) st2"
      using res h 2(2) by (auto simp: sandbox_mapping_test_def split: prod.splits)
    have "\<exists>js. fs = map frame_addr js \<and> distinct (i # js) \<and> set js \<subseteq> free_pool st \<and>
        free_pool st2 = free_pool st - set (i # js) \<and> pmm_inv U (pg_frames st2) \<and> regs st2 = regs st \<and>
        (\<forall>x k. x AND ADDRESS_MASK = x \<longrightarrow> k < 512 \<longrightarrow> x \<notin> frame_addr ` set (i # js) \<longrightarrow>
           read_raw_entry st2 x k = ?E x k) \<and>
        result \<noteq> Inl TranslationMismatch \<and>
        ((\<exists>m. result = Inr m) \<longleftrightarrow> 5 \<le> card (free_pool st) \<and> (\<exists>i < 512. \<not> present (?E ?r i)))"
      by (rule sandbox_body_ok [OF ok refl 2(1) refl 2(3,4,5) _ la body(1)]) (use 2(6) in blast)
    then obtain js where js: "fs = map frame_addr js" "distinct (i # js)" "set js \<subseteq> free_pool st"
        "free_pool st2 = free_pool st - set (i # js)" "pmm_inv U (pg_frames st2)" "regs st2 = regs st"
        "\<forall>x k. x AND ADDRESS_MASK = x \<longrightarrow> k < 512 \<longrightarrow> x \<notin> frame_addr ` set (i # js) \<longrightarrow>
           read_raw_entry st2 x k = ?E x k"
        "result \<noteq> Inl TranslationMismatch"
        "(\<exists>m. result = Inr m) \<longleftrightarrow> 5 \<le> card (free_pool st) \<and> (\<exists>i < 512. \<not> present (?E ?r i))"
      by (elim exE conjE) (rule that; assumption)
    have sub: "set (i # js) \<subseteq> free_pool st" using js(3) 2(1) by simp
    have inU: "free_pool st \<subseteq> U" using D(2) by (simp add: pmm_inv_def)
    have "rev (?f # fs) = map frame_addr (rev (i # js))" using js(1) by (simp add: rev_map)
    moreover have "distinct (rev (i # js))" "set (rev (i # js)) \<subseteq> U - free_pool st2" "0 \<notin> set (rev (i # js))"
      using js(2,4) sub inU U by auto
    ultimately have G: "pmm_inv U (pg_frames st') \<and> free_pool st' = free_pool st2 \<union> set (rev (i # js)) \<and> pg_mem st' = pg_mem st2 \<and>
        regs st' = regs st2"
      using give_back [OF js(5), of "rev (i # js)"] unfolding body(2) by simp
    then have rg: "regs st' = regs st" and pool: "free_pool st' = free_pool st"
      using js(4,6) sub by auto
    have "read_raw_entry st' = read_raw_entry st2"
      using G js(6) by (intro read_same) (simp_all add: regs_def)
    then have "\<forall>x k. x AND ADDRESS_MASK = x \<longrightarrow> k < 512 \<longrightarrow> x \<notin> frame_addr ` set (i # js) \<longrightarrow>
           read_raw_entry st' x k = ?E x k"
      using js(7) by simp
    note N = unseen [OF ok sub this]
    have "space_ok U st' ?r"
      by (rule space_ok_frame [OF ok N(1) regs_simps(1) [OF rg]]) (use G pool in blast)+
    moreover have root: "current_root_phys st' = ?r" and "\<not> la57_enabled st'" using regs_simps [OF rg] la by simp_all
    then have "translate st' a = translate st a" for a
      unfolding virt_to_phys_at(2) [OF la] virt_to_phys_at(2) [OF \<open>\<not> la57_enabled st'\<close>] root N(2) by simp
    ultimately show ?thesis using rg pool js(8,9) root by simp
  qed
qed

section \<open>Write combining\<close>

text \<open>The bit that selects the entry of the PAT in a leaf of level \<open>l\<close>.\<close>

definition pat_bit_of :: "nat \<Rightarrow> u64" where
  "pat_bit_of l = (if l = 0 then PTE_PAT else HUGE_PAT)"

lemma find_entry_walk:
  assumes "\<not> la57_enabled st" "walk (read_raw_entry st) 3 r a = Some (l, e)"
  shows "\<exists>t. find_entry_for st r a = Some (t, lv l a, pat_bit_of l) \<and> tab (read_raw_entry st) 3 r a l = Some t \<and>
    read_raw_entry st t (lv l a) = e \<and> entry_step l e = Leaf \<and> l \<le> 2"
proof -
  have n: "(3 :: nat) = Suc (Suc (Suc 0))" by simp
  have ix: "index a 39 = lv (Suc (Suc (Suc 0))) a" "index a 30 = lv (Suc (Suc 0)) a" "index a 21 = lv (Suc 0) a"
    "index a 12 = lv 0 a"
    by (simp_all add: lv_def)
  show ?thesis
    using assms unfolding find_entry_for_def n read_entry_raw ix pat_bit_of_def
    by (auto simp: entry_step_def split: if_splits)
qed

definition wc_entry :: "nat \<Rightarrow> u64 \<Rightarrow> u64" where
  "wc_entry l e = (e OR pat_bit_of l) AND NOT PTE_PWT AND NOT PTE_PCD"

lemma wc_bits:
  "bit (wc_entry l e) n \<longleftrightarrow> n < 64 \<and> (bit e n \<or> n = (if l = 0 then 7 else 12)) \<and> n \<noteq> 3 \<and> n \<noteq> 4"
proof -
  have u: "pat_bit_of l = push_bit (if l = 0 then 7 else 12) 1" "PTE_PWT = push_bit 3 1" "PTE_PCD = push_bit 4 1"
    by (simp_all add: pat_bit_of_def PTE_PAT_def HUGE_PAT_def PTE_PWT_def PTE_PCD_def push_bit_eq_mult)
  show ?thesis
    unfolding wc_entry_def u bit_and_iff bit_or_iff bit_not_iff bit_push_bit_iff bit_1_iff
    by (auto dest: bit_imp_le_length split: if_splits)
qed

lemma step_bits: "present e \<longleftrightarrow> bit e 0" "huge e \<longleftrightarrow> bit e 7"
proof -
  have u: "ENTRY_PRESENT = 2 ^ 0" "ENTRY_HUGE_PAGE = 2 ^ 7" by (simp_all add: ENTRY_PRESENT_def ENTRY_HUGE_PAGE_def)
  show "present e \<longleftrightarrow> bit e 0" unfolding u(1) by (simp only: and_exp_eq_0_iff_not_bit not_not)
  show "huge e \<longleftrightarrow> bit e 7" unfolding u(2) by (simp only: and_exp_eq_0_iff_not_bit not_not)
qed

lemma wc_entry_ok:
  assumes "entry_step l e = Leaf"
  shows "entry_step l (wc_entry l e) = Leaf" "leaf_phys w (l, wc_entry l e) = leaf_phys w (l, e)"
    "wc_entry l e AND pat_bit_of l \<noteq> 0"
proof -
  have am: "bit ADDRESS_MASK n \<longleftrightarrow> 12 \<le> n \<and> n < 52" for n
    unfolding page_masks(4) by (auto simp: bit_simps)
  have "present (wc_entry l e)" "l \<noteq> 0 \<Longrightarrow> huge (wc_entry l e)" "l \<le> 2"
    using assms unfolding entry_step_def step_bits wc_bits by (auto split: if_splits)
  then show "entry_step l (wc_entry l e) = Leaf" unfolding entry_step_def by (cases "l = 0") simp_all
  have "wc_entry l e AND ADDRESS_MASK AND NOT (mask (12 + 9 * l)) = e AND ADDRESS_MASK AND NOT (mask (12 + 9 * l))"
    by (rule bit_word_eqI) (auto simp: bit_and_iff bit_not_iff bit_mask_iff am wc_bits)
  then show "leaf_phys w (l, wc_entry l e) = leaf_phys w (l, e)" by (simp add: leaf_phys_def)
  have u: "pat_bit_of l = 2 ^ (if l = 0 then 7 else 12)" by (simp add: pat_bit_of_def PTE_PAT_def HUGE_PAT_def)
  show "wc_entry l e AND pat_bit_of l \<noteq> 0"
    unfolding u by (simp only: and_exp_eq_0_iff_not_bit not_not wc_bits) auto
qed

text \<open>Addresses in the same page of level \<open>l\<close> have the same way down to that level.\<close>

lemma same_page:
  assumes "drop_bit (12 + 9 * l) x = drop_bit (12 + 9 * l) a" "l \<le> i"
  shows "lv i x = lv i a"
proof -
  have n: "12 + 9 * i = 9 * (i - l) + (12 + 9 * l)" using assms(2) by simp
  have "drop_bit (12 + 9 * i) y = drop_bit (9 * (i - l)) (drop_bit (12 + 9 * l) y)" for y :: u64
    unfolding n by (rule drop_bit_drop_bit [symmetric])
  then show ?thesis unfolding lv_def index_def assms(1) by (simp only: assms(1))
qed

lemma walk_levels_cong: "(\<And>i. i \<le> k \<Longrightarrow> lv i x = lv i a) \<Longrightarrow> walk E k t x = walk E k t a"
  by (induction k arbitrary: t) (auto split: step.split)

lemma walk_same_leaf:
  assumes "walk E 3 r a = Some (l, e)" "tab E 3 r a l = Some t" "drop_bit (12 + 9 * l) x = drop_bit (12 + 9 * l) a"
    "entry_step l e = Leaf" "E t (lv l a) = e"
  shows "walk E 3 r x = Some (l, e)" "below E r l t (lv l a) x"
proof -
  have "tab E 3 r x l = tab E 3 r a l"
    by (rule tab_share [OF assms(2)]) (use same_page [OF assms(3)] in simp_all)
  moreover have "lv l x = lv l a" by (rule same_page [OF assms(3)]) simp
  ultimately show "walk E 3 r x = Some (l, e)" "below E r l t (lv l a) x"
    using walk_descend [of E 3 r x l t] walk_leaf [of l E t x] assms by (simp_all add: below_def)
qed

text \<open>One turn of the loop: which addresses it deals with, and what they find afterwards.\<close>

definition combined :: "paging \<Rightarrow> u64 \<Rightarrow> u64 \<Rightarrow> bool" where
  "combined st r x \<longleftrightarrow>
     (\<forall>l e. walk (read_raw_entry st) 3 r x = Some (l, e) \<longrightarrow> e AND pat_bit_of l \<noteq> 0)"

text \<open>
  What may happen to the page of \<open>x\<close>: nothing, or its entry, which did not have the PAT bit, is
  recoloured because \<open>a\<close> lies in the same page.
\<close>

definition recoloured :: "paging \<Rightarrow> paging \<Rightarrow> u64 \<Rightarrow> u64 \<Rightarrow> u64 \<Rightarrow> bool" where
  "recoloured st st' r a x \<longleftrightarrow>
     (\<exists>l e. walk (read_raw_entry st) 3 r x = Some (l, e) \<and> e AND pat_bit_of l = 0 \<and>
        walk (read_raw_entry st') 3 r x = Some (l, wc_entry l e) \<and>
        (\<forall>i. l \<le> i \<longrightarrow> i \<le> 3 \<longrightarrow> lv i x = lv i a))"

definition kept :: "paging \<Rightarrow> paging \<Rightarrow> u64 \<Rightarrow> u64 \<Rightarrow> bool" where
  "kept st st' r x \<longleftrightarrow> walk (read_raw_entry st') 3 r x = walk (read_raw_entry st) 3 r x"

lemma page_bytes_leaf: "page_bytes (map_size (leaf_mapping a (l, e))) = 2 ^ (12 + 9 * l)" if "l \<le> 2"
proof -
  have "l = 0 \<or> l = 1 \<or> l = 2" using that by auto
  then show ?thesis by (auto simp: leaf_mapping_def)
qed

lemma same_block: "unat x div 2 ^ s = unat a div 2 ^ s \<Longrightarrow> drop_bit s x = drop_bit s (a :: u64)"
  by (rule word_unat_eq_iff [THEN iffD2]) (simp only: unat_drop_bit_eq, simp add: drop_bit_eq_div)

lemma next_page_unat:
  assumes "next_page a (2 ^ s) = Some b" "s < 64"
  shows "unat b = (unat a div 2 ^ s + 1) * 2 ^ s"
proof -
  have "(2 :: nat) ^ s < 2 ^ 64" by (rule power_strict_increasing) (use assms(2) in simp_all)
  moreover have "(2 ^ s :: u64) = of_nat (2 ^ s)" by simp
  ultimately have p: "unat (2 ^ s :: u64) = 2 ^ s" by (simp only: unat_of_nat) simp
  have b: "(unat a div 2 ^ s + 1) * 2 ^ s < 2 ^ 64" "b = (a div 2 ^ s + 1) * 2 ^ s"
    using assms(1) p by (auto simp: next_page_def unat_div_distrib split: if_splits)
  have "unat a div 2 ^ s + 1 < 2 ^ 64" using b(1)
    by (metis le_less_trans mult.right_neutral mult_le_mono2 one_le_numeral one_le_power)
  then show ?thesis
    unfolding b(2) using b(1) p by (simp add: unat_word_ariths unat_div_distrib)
qed

lemma next_page_block:
  assumes "next_page a (2 ^ s) = Some b" "s < 64" "a \<le> x" "x < b"
  shows "drop_bit s x = drop_bit s a"
proof (rule same_block)
  have "unat x < (unat a div 2 ^ s + 1) * 2 ^ s" "unat a \<le> unat x"
    using assms(3,4) next_page_unat [OF assms(1,2)] by (simp_all add: word_le_nat_alt word_less_nat_alt)
  then show "unat x div 2 ^ s = unat a div 2 ^ s"
    by (metis Suc_eq_plus1 div_le_mono le_antisym less_Suc_eq_le less_mult_imp_div_less)
qed

lemma wc_turn:
  assumes ok: "space_ok U st r" and la: "\<not> la57_enabled st" and r: "r = current_root_phys st"
    and al: "2 ^ 12 dvd unat a" and step: "wc_step a (report, st) = (Some b, report', st')"
  shows "space_ok U st' r" "regs st' = regs st" "phys_at st' r = phys_at st r" "2 ^ 12 dvd unat b"
    "a \<le> x \<Longrightarrow> x < b \<Longrightarrow> combined st' r x" "combined st r x \<Longrightarrow> combined st' r x"
    "kept st st' r x \<or> recoloured st st' r a x"
proof -
  have tr: "translate st y = map_option (leaf_mapping y) (walk (read_raw_entry st) 3 r y)" for y
    using virt_to_phys_at(2) [OF la] r by simp
  have all: "space_ok U st' r \<and> regs st' = regs st \<and> phys_at st' r = phys_at st r \<and> 2 ^ 12 dvd unat b \<and>
      (\<forall>x. a \<le> x \<longrightarrow> x < b \<longrightarrow> combined st' r x) \<and> (\<forall>x. combined st r x \<longrightarrow> combined st' r x) \<and>
      (\<forall>x. kept st st' r x \<or> recoloured st st' r a x)"
  proof (cases "walk (read_raw_entry st) 3 r a")
    case None
    then have st': "st' = st" and b: "checked_next a 4096 = Some b"
      using step tr by (simp_all add: wc_step_def)
    have ub: "unat b = unat a + 4096"
      using b by (auto simp: checked_next_def unat_word_ariths split: if_splits)
    have "walk (read_raw_entry st) 3 r x = None" if "a \<le> x" "x < b" for x
    proof -
      obtain k where k: "unat a = 2 ^ 12 * k" using al by (rule dvdE)
      then have "2 ^ 12 * k \<le> unat x" "unat x < 2 ^ 12 * Suc k"
        using that ub by (simp_all add: word_le_nat_alt word_less_nat_alt)
      then have "unat x div 2 ^ 12 = k" by (rule div_nat_eqI)
      then have "unat x div 2 ^ 12 = unat a div 2 ^ 12" using k by simp
      from same_block [OF this] have "drop_bit (12 + 9 * 0) x = drop_bit (12 + 9 * 0) a" by simp
      then have "walk (read_raw_entry st) 3 r x = walk (read_raw_entry st) 3 r a"
        by (intro walk_levels_cong same_page [of 0]) simp_all
      then show ?thesis using None by simp
    qed
    moreover have "2 ^ 12 dvd unat b" unfolding ub using al by (rule dvd_add) simp
    ultimately show ?thesis using ok st' by (simp add: combined_def kept_def)
  next
    case (Some le)
    obtain l e where le: "le = (l, e)" by force
    note w = Some [unfolded le]
    obtain t where t: "find_entry_for st r a = Some (t, lv l a, pat_bit_of l)" "tab (read_raw_entry st) 3 r a l = Some t"
      "read_raw_entry st t (lv l a) = e" "entry_step l e = Leaf" "l \<le> 2"
      using find_entry_walk [OF la w] by blast
    have small: "12 + 9 * l < 64" using t(5) by simp
    have tra: "translate st a = Some (leaf_mapping a (l, e))" by (simp add: tr w)
    have turn: "next_page a (2 ^ (12 + 9 * l)) = Some b \<and>
        st' = (if e AND pat_bit_of l \<noteq> 0 then st else write_entry t (lv l a) (wc_entry l e) st)"
      using step t(1,3) page_bytes_leaf [OF t(5), of a e]
      by (auto simp: wc_step_def tra r [symmetric] Let_def wc_entry_def split: if_splits)
    then have block: "next_page a (2 ^ (12 + 9 * l)) = Some b" by blast
    have "(2 :: nat) ^ 12 dvd 2 ^ (12 + 9 * l)" by (rule le_imp_power_dvd) simp
    then have dvd: "2 ^ 12 dvd unat b"
      unfolding next_page_unat [OF block small] by (rule dvd_mult)
    have in_page: "drop_bit (12 + 9 * l) x = drop_bit (12 + 9 * l) a" if "a \<le> x" "x < b" for x
      by (rule next_page_block [OF block small that])
    note same = walk_same_leaf [OF w t(2) in_page t(4,3)]
    show ?thesis
    proof (cases "e AND pat_bit_of l \<noteq> 0")
      case True
      then have "st' = st" using turn by simp
      moreover have "combined st r x" if "a \<le> x" "x < b" for x
        using same(1) [OF that] True by (simp add: combined_def)
      ultimately show ?thesis using ok dvd by (simp add: kept_def)
    next
      case False
      then have st': "st' = write_entry t (lv l a) (wc_entry l e) st" using turn by simp
      have "\<And>c. entry_step l (read_raw_entry st t (lv l a)) \<noteq> Link c" using t(3,4) by simp
      note P = put_leaf [OF ok t(2) this wc_entry_ok(1) [OF t(4)] st']
      have old: "walk (read_raw_entry st) 3 r y = Some (l, e)" if "below (read_raw_entry st) r l t (lv l a) y" for y
        using that walk_descend [of "read_raw_entry st" 3 r y l t] walk_leaf [of l "read_raw_entry st" t y] t(3,4)
        by (simp add: below_def)
      have "phys_at st' r y = phys_at st r y" for y
        using old [of y] by (simp add: phys_at_def P(3) wc_entry_ok(2) [OF t(4)])
      moreover have "combined st' r y" if "combined st r y \<or> below (read_raw_entry st) r l t (lv l a) y" for y
        using that by (auto simp: combined_def P(3) wc_entry_ok(3) [OF t(4)])
      moreover have "kept st st' r y \<or> recoloured st st' r a y" for y
      proof (cases "below (read_raw_entry st) r l t (lv l a) y")
        case here: True
        then have y: "tab (read_raw_entry st) 3 r y l = Some t" "lv l y = lv l a" by (simp_all add: below_def)
        have "tree (read_raw_entry st) r" using ok by (simp add: space_ok_def)
        then have "lv i y = lv i a" if "l \<le> i" "i \<le> 3" for i
          using treeD(2) [of "read_raw_entry st" r y l t a l i] y t(2) that by (cases "i = l") simp_all
        then show ?thesis
          using here old [OF here] False P(3) [of y] unfolding recoloured_def by auto
      qed (simp add: kept_def P(3))
      ultimately show ?thesis
        using P(1) dvd same(2) by (auto simp: st')
    qed
  qed
  then show "space_ok U st' r" "regs st' = regs st" "phys_at st' r = phys_at st r" "2 ^ 12 dvd unat b"
    "a \<le> x \<Longrightarrow> x < b \<Longrightarrow> combined st' r x" "combined st r x \<Longrightarrow> combined st' r x"
    "kept st st' r x \<or> recoloured st st' r a x"
    by blast+
qed

lemma recoloured_in_range:
  assumes "walk (read_raw_entry st) 3 r x = Some (l, e)" "combined st' r x"
    "kept st st' r x \<or> (\<exists>y. recoloured st st' r y x)"
  shows "kept st st' r x \<and> e AND pat_bit_of l \<noteq> 0 \<or>
    walk (read_raw_entry st') 3 r x = Some (l, wc_entry l e) \<and> e AND pat_bit_of l = 0"
  using assms by (auto simp: kept_def recoloured_def combined_def)

lemma recoloured_twice:
  assumes "kept st st1 r x \<or> recoloured st st1 r a x" "kept st1 st2 r x \<or> recoloured st1 st2 r b x"
    and "\<And>l e. walk (read_raw_entry st) 3 r x = Some (l, e) \<Longrightarrow> entry_step l e = Leaf"
  shows "kept st st2 r x \<or> recoloured st st2 r a x \<or> recoloured st st2 r b x"
  using assms(1)
proof
  assume "kept st st1 r x"
  then show ?thesis using assms(2) by (auto simp: kept_def recoloured_def)
next
  assume rc: "recoloured st st1 r a x"
  then have "\<not> recoloured st1 st2 r b x"
    using wc_entry_ok(3) [OF assms(3)] by (auto simp: recoloured_def)
  then show ?thesis using rc assms(2) by (auto simp: kept_def recoloured_def)
qed

lemma wc_loop_ok:
  assumes "space_ok U st r" "\<not> la57_enabled st" "r = current_root_phys st" "2 ^ 12 dvd unat a"
    "wc_loop stop a (report, st) = Some (report', st')"
  shows "space_ok U st' r \<and> regs st' = regs st \<and> phys_at st' r = phys_at st r \<and>
    (\<forall>x. a \<le> x \<longrightarrow> x < stop \<longrightarrow> combined st' r x) \<and> (\<forall>x. combined st r x \<longrightarrow> combined st' r x) \<and>
    (\<forall>x. kept st st' r x \<or> (\<exists>y. a \<le> y \<and> y < stop \<and> 2 ^ 12 dvd unat y \<and> recoloured st st' r y x))"
  using assms
proof (induction stop a "(report, st)" arbitrary: report st rule: wc_loop.induct)
  case (1 stop a)
  show ?case
  proof (cases "a < stop")
    case False
    then show ?thesis using 1 by (auto simp: wc_loop.simps [of stop a] kept_def)
  next
    case True
    obtain ob rep2 st2 where step: "wc_step a (report, st) = (ob, rep2, st2)" by (metis prod_cases3)
    then obtain b where b: "ob = Some b" "wc_loop stop b (rep2, st2) = Some (report', st')"
      using 1(6) True by (auto simp: wc_loop.simps [of stop a] split: option.splits)
    note T = wc_turn [OF 1(2-5) step [unfolded b(1)]]
    have "\<not> la57_enabled st2" "r = current_root_phys st2" using regs_simps [OF T(2)] 1(3,4) by simp_all
    note R = 1(1) [OF True step [symmetric] b(1) T(1) this T(4) b(2)]
    have leaf: "entry_step l e = Leaf" if "walk (read_raw_entry st) 3 r x = Some (l, e)" for x l e
      using find_entry_walk [OF 1(3) that] by blast
    have ab: "a < b" using wc_step_less [of a report st b] step b(1) by simp
    have "kept st st' r x \<or> (\<exists>y. a \<le> y \<and> y < stop \<and> 2 ^ 12 dvd unat y \<and> recoloured st st' r y x)" for x
    proof (cases "kept st2 st' r x")
      case k: True
      have "kept st st' r x \<or> recoloured st st' r a x"
        using T(7) [of x] k by (auto simp: kept_def recoloured_def)
      then show ?thesis using True 1(5) by auto
    next
      case False
      then obtain y where y: "b \<le> y" "y < stop" "2 ^ 12 dvd unat y" "recoloured st2 st' r y x" using R by blast
      have "kept st st' r x \<or> recoloured st st' r a x \<or> recoloured st st' r y x"
        using recoloured_twice [OF T(7)] y(4) leaf by blast
      moreover have "a \<le> y" using ab y(1) by simp
      ultimately show ?thesis using True 1(5) y(2,3) by blast
    qed
    moreover have "\<forall>x. a \<le> x \<longrightarrow> x < stop \<longrightarrow> combined st' r x" using R T(5,6) by (metis leI)
    moreover have "space_ok U st' r" "regs st' = regs st" "phys_at st' r = phys_at st r"
      using R T(2,3) by argo+
    moreover have "\<forall>x. combined st r x \<longrightarrow> combined st' r x" using R T(6) by blast
    ultimately show ?thesis by blast
  qed
qed

text \<open>The bounds of the loop: the 4 KiB blocks that meet the range.\<close>

lemma wc_bounds:
  fixes virt len :: u64
  assumes sum: "unat virt + unat len + 0xFFF < 2 ^ 64"
  shows "2 ^ 12 dvd unat (virt AND NOT 0xFFF)"
    "virt \<le> a \<Longrightarrow> unat a < unat virt + unat len \<Longrightarrow>
       virt AND NOT 0xFFF \<le> a \<and> a < (virt + len + 0xFFF) AND NOT 0xFFF"
    "len \<noteq> 0 \<Longrightarrow> virt AND NOT 0xFFF \<le> y \<Longrightarrow> y < (virt + len + 0xFFF) AND NOT 0xFFF \<Longrightarrow> 2 ^ 12 dvd unat y \<Longrightarrow>
       \<exists>b. virt \<le> b \<and> unat b < unat virt + unat len \<and> drop_bit 12 b = drop_bit 12 y"
proof -
  let ?start = "virt AND NOT 0xFFF" and ?stop = "(virt + len + 0xFFF) AND NOT 0xFFF"
  have m: "(0xFFF :: u64) = mask 12" by (simp add: mask_eq_exp_minus_1)
  have us: "unat ?start = unat virt div 2 ^ 12 * 2 ^ 12" unfolding m by (rule unat_and_not_mask)
  have "unat (virt + len + 0xFFF) = unat virt + unat len + 0xFFF" using sum by (simp add: unat_word_ariths)
  then have ut: "unat ?stop = (unat virt + unat len + 0xFFF) div 2 ^ 12 * 2 ^ 12"
    unfolding m unat_and_not_mask by simp
  show "2 ^ 12 dvd unat ?start" unfolding us by simp
  show "?start \<le> a \<and> a < ?stop" if "virt \<le> a" "unat a < unat virt + unat len"
  proof -
    have "unat ?start \<le> unat virt" unfolding us by (rule div_times_less_eq_dividend)
    moreover have "unat a < unat ?stop"
      using that(2) mod_less_divisor [of 4096 "unat virt + unat len + 0xFFF"]
        div_mult_mod_eq [of "unat virt + unat len + 0xFFF" 4096] unfolding ut by simp
    ultimately show ?thesis using that(1) by (auto simp: word_le_nat_alt word_less_nat_alt)
  qed
  assume len: "len \<noteq> 0" and y: "?start \<le> y" "y < ?stop" "2 ^ 12 dvd unat y"
  obtain k where k: "unat y = 2 ^ 12 * k" using y(3) by (rule dvdE)
  have lo: "unat virt div 4096 * 4096 \<le> unat y" and hi: "unat y < (unat virt + unat len + 0xFFF) div 4096 * 4096"
    using y(1,2) us ut by (simp_all add: word_le_nat_alt word_less_nat_alt)
  have l0: "0 < unat len" using len by (simp add: unat_gt_0)
  show "\<exists>b. virt \<le> b \<and> unat b < unat virt + unat len \<and> drop_bit 12 b = drop_bit 12 y"
  proof (cases "virt \<le> y")
    case True
    have "unat y < unat virt + unat len" using k hi by simp
    then show ?thesis using True by blast
  next
    case False
    then have "unat y < unat virt" by (simp add: word_le_nat_alt)
    then have "unat virt div 4096 = k" using k lo by simp
    then have "unat virt div 2 ^ 12 = unat y div 2 ^ 12" using k by simp
    from same_block [OF this] show ?thesis using l0 by (intro exI [of _ virt]) simp
  qed
qed

text \<open>
  The entry of the page attribute table that the processor reads for a leaf: the PAT bit, in its place
  for the size of the page, then PCD and PWT. \<open>page_level\<close>: how many levels below the page.
\<close>

definition has_pat :: "mapping \<Rightarrow> bool" where
  "has_pat m \<longleftrightarrow> map_flags m AND (if map_size m = Size4KiB then PTE_PAT else HUGE_PAT) \<noteq> 0"

definition pat_index :: "mapping \<Rightarrow> nat" where
  "pat_index m = (if has_pat m then 4 else 0) + (if map_flags m AND PTE_PCD \<noteq> 0 then 2 else 0) +
     (if map_flags m AND PTE_PWT \<noteq> 0 then 1 else 0)"

fun page_level :: "page_size \<Rightarrow> nat" where
  "page_level Size4KiB = 0"
| "page_level Size2MiB = 1"
| "page_level Size1GiB = 2"

definition same_mapped_page :: "mapping \<Rightarrow> u64 \<Rightarrow> u64 \<Rightarrow> bool" where
  "same_mapped_page m a b \<longleftrightarrow> (\<forall>i. page_level (map_size m) \<le> i \<longrightarrow> i \<le> 3 \<longrightarrow> lv i a = lv i b)"

lemma leaf_mapping_pat:
  "l \<le> 2 \<Longrightarrow> has_pat (leaf_mapping a (l, e)) \<longleftrightarrow> e AND pat_bit_of l \<noteq> 0"
  "l \<le> 2 \<Longrightarrow> page_level (map_size (leaf_mapping a (l, e))) = l"
  by (auto simp: has_pat_def leaf_mapping_def pat_bit_of_def)

lemma wc_entry_index:
  assumes "entry_step l e = Leaf" "l \<le> 2"
  shows "pat_index (leaf_mapping a (l, wc_entry l e)) = 4"
proof -
  have u: "PTE_PWT = 2 ^ 3" "PTE_PCD = 2 ^ 4" by (simp_all add: PTE_PWT_def PTE_PCD_def)
  have "wc_entry l e AND PTE_PWT = 0" "wc_entry l e AND PTE_PCD = 0"
    unfolding u by (simp_all only: and_exp_eq_0_iff_not_bit wc_bits) simp_all
  then show ?thesis
    using wc_entry_ok(3) [OF assms(1)] leaf_mapping_pat(1) [OF assms(2)]
    by (simp add: pat_index_def) (simp add: leaf_mapping_def)
qed

text \<open>
  C32: write combining. Suppose \<open>paging::init\<close> has set a nonzero HHDM offset (with 0 the call returns
  an empty report and changes nothing), paging has four levels (no LA57), the space is well formed,
  and the call returns (\<open>None\<close> is the overflow check of a debug build; the release build differs only
  where a sum of addresses passes \<open>2 ^ 64\<close>). Then the space is well formed and every address has the
  same physical address as before. An address of the range that was mapped is in a page of the same
  size, and if its entry had no PAT bit, it now selects exactly entry 4 of the PAT, the one set up
  as write combining: the PAT bit, in the place for the page's size, is set, PWT and PCD are
  cleared, and no other bit of the entry changes. An entry that had the PAT bit is left as it is.
  That also holds where the range starts or ends inside a huge page; and a page in which no address
  of the range lies keeps its entry.
\<close>

theorem write_combining_correct:
  assumes ok: "space_ok U st (current_root_phys st)" and la: "\<not> la57_enabled st" and h: "pg_hhdm st \<noteq> 0"
    and res: "set_write_combining virt len st = Some (report, st')"
  shows "space_ok U st' (current_root_phys st') \<and> regs st' = regs st \<and>
    (\<forall>a. virt_to_phys st' a = virt_to_phys st a) \<and>
    (\<forall>a m. virt \<le> a \<longrightarrow> unat a < unat virt + unat len \<longrightarrow> translate st a = Some m \<longrightarrow>
      (\<exists>m'. translate st' a = Some m' \<and> map_size m' = map_size m \<and> has_pat m' \<and>
        pat_index m' = (if has_pat m then pat_index m else 4) \<and>
        map_flags m' =
          (if has_pat m then map_flags m
           else (map_flags m OR (if map_size m = Size4KiB then PTE_PAT else HUGE_PAT)) AND NOT PTE_PWT AND NOT PTE_PCD))) \<and>
    (\<forall>a m. translate st a = Some m \<longrightarrow>
      (\<forall>b. virt \<le> b \<longrightarrow> unat b < unat virt + unat len \<longrightarrow> \<not> same_mapped_page m a b) \<longrightarrow>
      translate st' a = Some m)"
proof (cases "len = 0")
  case True
  then have "st' = st" using res by (auto simp: set_write_combining_def)
  then show ?thesis using ok True by (auto simp: word_le_nat_alt)
next
  case False
  let ?r = "current_root_phys st" and ?start = "virt AND NOT 0xFFF" and ?stop = "(virt + len + 0xFFF) AND NOT 0xFFF"
  have loop: "wc_loop ?stop ?start (\<lparr>wc_changed = 0, wc_already = 0, wc_unmapped = 0, leaf_flags = 0\<rparr>, st) = Some (report, st')"
    using res False h by (auto simp: set_write_combining_def Let_def split: if_splits)
  have sum: "unat virt + unat len + 0xFFF < 2 ^ 64"
    using res False h by (auto simp: set_write_combining_def Let_def split: if_splits)
  note B = wc_bounds [OF sum]
  note L = wc_loop_ok [OF ok la refl B(1) loop]
  then have rg: "regs st' = regs st" and keep: "phys_at st' ?r = phys_at st ?r" by blast+
  have la': "\<not> la57_enabled st'" and root: "current_root_phys st' = ?r" using la regs_simps [OF rg] by simp_all
  note tr = virt_to_phys_at(2) [OF la] virt_to_phys_at(2) [OF la', unfolded root]
  have leaf: "entry_step l e = Leaf \<and> l \<le> 2" if "walk (read_raw_entry st) 3 ?r x = Some (l, e)" for x l e
    using find_entry_walk [OF la that] by blast
  have "\<exists>m'. translate st' a = Some m' \<and> map_size m' = map_size m \<and> has_pat m' \<and>
      pat_index m' = (if has_pat m then pat_index m else 4) \<and>
      map_flags m' =
        (if has_pat m then map_flags m
         else (map_flags m OR (if map_size m = Size4KiB then PTE_PAT else HUGE_PAT)) AND NOT PTE_PWT AND NOT PTE_PCD)"
    if a: "virt \<le> a" "unat a < unat virt + unat len" "translate st a = Some m" for a m
  proof -
    obtain l e where w: "walk (read_raw_entry st) 3 ?r a = Some (l, e)" "m = leaf_mapping a (l, e)"
      using a(3) unfolding tr by auto
    note lf = leaf [OF w(1)]
    have c: "combined st' ?r a" using L B(2) [OF a(1,2)] by blast
    have "kept st st' ?r a \<or> (\<exists>y. recoloured st st' ?r y a)" using L by blast
    from recoloured_in_range [OF w(1) c this]
    have "kept st st' ?r a \<and> has_pat m \<or> walk (read_raw_entry st') 3 ?r a = Some (l, wc_entry l e) \<and> \<not> has_pat m"
      unfolding w(2) using leaf_mapping_pat(1) lf by blast
    then show ?thesis
    proof
      assume "kept st st' ?r a \<and> has_pat m"
      then show ?thesis using w by (simp add: tr kept_def)
    next
      assume n: "walk (read_raw_entry st') 3 ?r a = Some (l, wc_entry l e) \<and> \<not> has_pat m"
      have "translate st' a = Some (leaf_mapping a (l, wc_entry l e))" using n by (simp add: tr)
      moreover have "map_size (leaf_mapping a (l, wc_entry l e)) = map_size m"
        "map_flags (leaf_mapping a (l, wc_entry l e)) = wc_entry l (map_flags m)"
        "pat_bit_of l = (if map_size m = Size4KiB then PTE_PAT else HUGE_PAT)"
        by (simp_all add: w(2) leaf_mapping_def pat_bit_of_def)
      moreover have "has_pat (leaf_mapping a (l, wc_entry l e))"
        using leaf_mapping_pat(1) wc_entry_ok(3) lf by blast
      moreover have "pat_index (leaf_mapping a (l, wc_entry l e)) = 4" using wc_entry_index lf by blast
      ultimately show ?thesis
        using n by (intro exI [of _ "leaf_mapping a (l, wc_entry l e)"]) (simp add: wc_entry_def)
    qed
  qed
  moreover have "translate st' a = Some m"
    if a: "translate st a = Some m"
      "\<forall>b. virt \<le> b \<longrightarrow> unat b < unat virt + unat len \<longrightarrow> \<not> same_mapped_page m a b" for a m
  proof -
    obtain l e where w: "walk (read_raw_entry st) 3 ?r a = Some (l, e)" "m = leaf_mapping a (l, e)"
      using a(1) unfolding tr by auto
    have "\<not> recoloured st st' ?r y a" if y: "?start \<le> y" "y < ?stop" "2 ^ 12 dvd unat y" for y
    proof
      assume rc: "recoloured st st' ?r y a"
      obtain b where b: "virt \<le> b" "unat b < unat virt + unat len" "drop_bit 12 b = drop_bit 12 y"
        using B(3) [OF False y] by blast
      have "lv i b = lv i y" for i using same_page [of 0 b y i] b(3) by simp
      then have "same_mapped_page m a b"
        using rc w leaf_mapping_pat(2) leaf [OF w(1)] by (auto simp: same_mapped_page_def recoloured_def)
      then show False using a(2) b(1,2) by blast
    qed
    then have "kept st st' ?r a" using L by blast
    then show ?thesis using w by (simp add: tr kept_def)
  qed
  moreover have "space_ok U st' (current_root_phys st')" unfolding root using L by blast
  moreover have "virt_to_phys st' a = virt_to_phys st a" for a
    unfolding virt_to_phys_at(1) [OF la'] virt_to_phys_at(1) [OF la] root keep ..
  ultimately show ?thesis using rg by blast
qed

section \<open>Buffers for devices\<close>

text \<open>
  A buffer is a run of frames that were free, its memory is zero through the direct map, nothing else is
  written, and dropping it gives back exactly its frames.
\<close>

theorem dma_buffer_roundtrip:
  assumes dm: "direct_map st" "pg_hhdm st \<noteq> 0" and inv: "pmm_inv U (pg_frames st)"
    and n: "0 < n" "n + (FRAME_SIZE - 1) \<le> u64_max"
  shows "\<exists>result st'. dma_allocate n st = Some (result, st') \<and>
    (case result of
       None \<Rightarrow> (\<forall>f. \<not> frame_range f ((n + (FRAME_SIZE - 1)) div FRAME_SIZE) \<subseteq> free_pool st) \<and> st' = st
     | Some b \<Rightarrow> n \<le> allocated_len b \<and> requested_len b = n \<and>
         dma_virtual b = unat (pg_hhdm st) + dma_physical b \<and>
         (\<exists>f. dma_physical b = f * FRAME_SIZE \<and> frame_range f (page_count b) \<subseteq> free_pool st \<and>
            free_pool st' = free_pool st - frame_range f (page_count b)) \<and>
         (\<forall>i < allocated_len b div 8. pg_mem st' (dma_virtual b + 8 * i) = 0) \<and>
         (\<forall>a. a < dma_virtual b \<or> dma_virtual b + allocated_len b \<le> a \<longrightarrow> pg_mem st' a = pg_mem st a) \<and>
         free_pool (dma_drop b st') = free_pool st \<and> pmm_inv U (pg_frames (dma_drop b st')))"
proof -
  let ?p = "(n + (FRAME_SIZE - 1)) div FRAME_SIZE" and ?h = "unat (pg_hhdm st)"
  have pages: "0 < ?p" "n \<le> ?p * FRAME_SIZE" "?p * FRAME_SIZE \<le> u64_max"
  proof -
    show "0 < ?p" using n(1) by (simp add: FRAME_SIZE_def div_greater_zero_iff)
    show "n \<le> ?p * FRAME_SIZE" unfolding FRAME_SIZE_def by simp
    show "?p * FRAME_SIZE \<le> u64_max" using n(2) div_times_less_eq_dividend order_trans by blast
  qed
  have add: "checked_add64 n (FRAME_SIZE - 1) = Some (n + (FRAME_SIZE - 1))" using n(2) by (simp add: checked_add64_def)
  obtain r fr where al: "alloc_contiguous ?p (pg_frames st) = Some (r, fr)"
    using pmm_pool.alloc_returns [OF inv pages(1)] by force
  show ?thesis
  proof (cases r)
    case None
    note N = pmm_pool.alloc_None [OF inv pages(1) al [unfolded None]]
    then have "dma_allocate n st = Some (None, st)"
      using n(1) al None add by (simp add: dma_allocate_def Let_def)
    then show ?thesis using N by auto
  next
    case (Some phys)
    from pmm_pool.alloc_Some [OF inv pages(1) al [unfolded Some]] obtain f where
      f: "phys = f * FRAME_SIZE" "frame_range f ?p \<subseteq> free_pool st"
      "free_set (bitmap fr) = free_pool st - frame_range f ?p" "pmm_inv U fr" by blast
    have "f \<in> free_pool st" using f(2) pages(1) by (auto simp: frame_range_def)
    then have "f < MAX_FRAMES" using inv by (auto simp: pmm_inv_def dest!: free_set_bound)
    then have "f * FRAME_SIZE < MAX_FRAMES * FRAME_SIZE" by simp
    then have "?h + phys \<le> u64_max" using dm(1) unfolding direct_map_def f(1) u64_max_def by linarith
    then have v: "checked_add64 ?h phys = Some (?h + phys)" "?h + phys \<noteq> 0"
      using dm(2) by (simp_all add: checked_add64_def unat_gt_0)
    have mul: "checked_mul64 ?p FRAME_SIZE = Some (?p * FRAME_SIZE)" using pages(3) by (simp add: checked_mul64_def)
    let ?b = "\<lparr>dma_virtual = ?h + phys, dma_physical = phys, requested_len = n, page_count = ?p\<rparr>"
    let ?st = "st\<lparr>pg_frames := fr,
      pg_mem := fold (\<lambda>i m. m(?h + phys + 8 * i := 0)) [0..<?p * FRAME_SIZE div 8] (pg_mem st)\<rparr>"
    have "dma_allocate n st = Some (Some ?b, ?st)"
      unfolding dma_allocate_def Let_def add option.case al Some prod.case v(1) mul using n(1) v(2) by simp
    moreover obtain u where "free_contiguous phys ?p fr = (True, u)" "pmm_inv U u" "free_set (bitmap u) = free_pool st"
      using pmm_pool.alloc_release [OF inv pages(1) al [unfolded Some]] by blast
    then have "free_pool (dma_drop ?b ?st) = free_pool st" "pmm_inv U (pg_frames (dma_drop ?b ?st))"
      by (simp_all add: dma_drop_def)
    moreover have "pg_mem ?st a = pg_mem st a" if "a < ?h + phys \<or> ?h + phys + ?p * FRAME_SIZE \<le> a" for a
    proof -
      have "\<not> (\<exists>i < ?p * FRAME_SIZE div 8. a = ?h + phys + 8 * i)"
        using that by auto
      then show ?thesis by (auto simp: zeroed_words)
    qed
    ultimately show ?thesis
      using f pages(2) by (intro exI [where x = "Some ?b"] exI [where x = "?st"]) (auto simp: allocated_len_def zeroed_words)
  qed
qed

section \<open>A concrete space\<close>

text \<open>
  Eight free frames from 1 MiB on, the direct map at 4 GiB, the root at 16 MiB; its first entry leads to a
  table whose first entry is a 1 GiB page at physical address 0.
\<close>

definition demo_root :: u64 where "demo_root = 0x1000000"
definition demo_pdpt :: u64 where "demo_pdpt = 0x1001000"

definition demo_space :: paging where
  "demo_space = \<lparr>pg_mem = (\<lambda>_. 0)(0x101000000 := 0x1001003, 0x101001000 := 0x83),
     pg_frames = \<lparr>bitmap = replicate 32 0xFF @ [0], free_frames = 8, total_frames = 8, next_hint = 256\<rparr>,
     pg_hhdm = 0x100000000, pg_cr0 = 0, pg_cr3 = demo_root, pg_cr4 = 0, pg_efer = 0, pg_pat = 0,
     pg_cpuid = (\<lambda>_. (0, 0)), pg_failures = 0, pg_new_pml4 = 0, pg_ready = False\<rparr>"

lemma demo_fields [simp]:
  "current_root_phys demo_space = demo_root" "la57_enabled demo_space = False"
  "pg_hhdm demo_space = 0x100000000"
  by (simp_all add: demo_space_def current_root_phys_def la57_enabled_def demo_root_def ADDRESS_MASK_def)

lemma demo_pool: "free_pool demo_space = {256..<264}"
proof -
  have full: "bit (0xFF :: u8) n" if "n < 8" for n
  proof -
    have "(0xFF :: u8) = mask 8" by (simp add: mask_eq_exp_minus_1)
    then show ?thesis using that by (simp only: bit_mask_iff) simp
  qed
  have low: "\<not> is_frame_free (replicate 32 0xFF @ [0]) i" if "i < 256" for i
    using that full [of "i mod 8"] by (simp add: is_frame_free_bit nth_append less_mult_imp_div_less)
  have high: "is_frame_free (replicate 32 0xFF @ [0]) i" if "256 \<le> i" "i < 264" for i
  proof -
    have "i div 8 = 32" using that by auto
    then show ?thesis by (simp add: is_frame_free_bit nth_append)
  qed
  have "free_set (replicate 32 0xFF @ [0]) = {256..<264}"
  proof (rule set_eqI)
    fix i show "i \<in> free_set (replicate 32 0xFF @ [0]) \<longleftrightarrow> i \<in> {256..<264}"
      using low [of i] high [of i] by (cases "i < 256") (auto simp: free_set_iff)
  qed
  then show ?thesis by (simp add: demo_space_def)
qed

lemma demo_read:
  "k < 512 \<Longrightarrow> read_raw_entry demo_space demo_root k = (if k = 0 then 0x1001003 else 0)"
  "k < 512 \<Longrightarrow> read_raw_entry demo_space demo_pdpt k = (if k = 0 then 0x83 else 0)"
  by (simp_all add: read_raw_entry_def demo_space_def demo_root_def demo_pdpt_def)

lemma demo_steps:
  "entry_step 3 (read_raw_entry demo_space demo_root (lv 3 v)) = (if lv 3 v = 0 then Link demo_pdpt else Missing)"
  "entry_step 2 (read_raw_entry demo_space demo_pdpt (lv 2 v)) = (if lv 2 v = 0 then Leaf else Missing)"
  unfolding demo_read(1) [OF lv_less] demo_read(2) [OF lv_less]
  by (simp_all add: entry_step_def ENTRY_PRESENT_def ENTRY_HUGE_PAGE_def ADDRESS_MASK_def demo_pdpt_def)

lemma demo_tab:
  "tab (read_raw_entry demo_space) 3 demo_root v l =
    (if l = 3 then Some demo_root else if l = 2 \<and> lv 3 v = 0 then Some demo_pdpt else None)"
proof -
  have n: "Suc 2 = 3" "Suc 1 = 2" by simp_all
  have "tab (read_raw_entry demo_space) 2 demo_pdpt v l = (if l = 2 then Some demo_pdpt else None)"
    using tab.simps(2) [of "read_raw_entry demo_space" 1 demo_pdpt v l, unfolded n]
    by (simp only: demo_steps) (simp split: if_splits)
  then show ?thesis
    using tab.simps(2) [of "read_raw_entry demo_space" 2 demo_root v l, unfolded n]
    by (simp only: demo_steps) (simp split: if_splits)
qed

lemma demo_walk:
  "walk (read_raw_entry demo_space) 3 demo_root v = (if lv 3 v = 0 \<and> lv 2 v = 0 then Some (2, 0x83) else None)"
proof -
  have n: "Suc 1 = 2" by simp
  have "walk (read_raw_entry demo_space) 2 demo_pdpt v = (if lv 2 v = 0 then Some (2, 0x83) else None)"
    using walk.simps(2) [of "read_raw_entry demo_space" 1 demo_pdpt v, unfolded n]
    by (simp only: demo_steps) (simp add: demo_read)
  then show ?thesis unfolding walk_top demo_steps by simp
qed

lemma demo_ok: "space_ok {256..<264} demo_space demo_root"
proof -
  have "tree (read_raw_entry demo_space) demo_root"
    unfolding tree_def demo_tab
  proof (intro allI impI)
    fix v w :: u64 and i j :: nat and x
    assume a: "(if i = 3 then Some demo_root else if i = 2 \<and> lv 3 v = 0 then Some demo_pdpt else None) = Some x"
      and b: "(if j = 3 then Some demo_root else if j = 2 \<and> lv 3 w = 0 then Some demo_pdpt else None) = Some x"
    have "demo_root \<noteq> demo_pdpt" by (simp add: demo_root_def demo_pdpt_def)
    with a b have "i = 3 \<and> j = 3 \<or> i = 2 \<and> j = 2 \<and> lv 3 v = 0 \<and> lv 3 w = 0" by (auto split: if_splits)
    then show "i = j \<and> (\<forall>l. i < l \<and> l \<le> 3 \<longrightarrow> lv l v = lv l w)"
      by (auto simp: le_Suc_eq numeral_3_eq_3)
  qed
  moreover have "demo_root \<noteq> frame_addr i \<and> demo_pdpt \<noteq> frame_addr i" if "i < 264" for i
  proof -
    have "unat (frame_addr i) = i * 4096"
      using frame_addr_facts(1) [of i] that by (simp add: MAX_FRAMES_def FRAME_SIZE_def)
    then have "unat (frame_addr i) < 0x1000000" using that by simp
    then show ?thesis by (auto simp: demo_root_def demo_pdpt_def)
  qed
  moreover have "pmm_inv {256..<264} (pg_frames demo_space)"
    unfolding pmm_inv_def demo_pool by (simp add: demo_space_def MAX_FRAMES_def) auto
  moreover have "direct_map demo_space" by (simp add: direct_map_def MAX_FRAMES_def FRAME_SIZE_def)
  ultimately show ?thesis
    unfolding space_ok_def demo_pool demo_tab
    by (auto simp: demo_root_def ADDRESS_MASK_def split: if_splits)
qed

lemma demo_translate:
  "translate demo_space a = (if lv 3 a = 0 \<and> lv 2 a = 0 then Some (leaf_mapping a (2, 0x83)) else None)"
  by (simp add: virt_to_phys_at(2) demo_walk)

lemma demo_phys:
  "virt_to_phys demo_space a = (if lv 3 a = 0 \<and> lv 2 a = 0 then Some (a AND PAGE_1G_MASK) else None)"
proof -
  have n: "(2 :: nat) = Suc (Suc 0)" by simp
  have "physical_address (leaf_mapping a (2, 0x83)) = a AND PAGE_1G_MASK"
    unfolding n leaf_mapping_code
    by (simp add: PAGE_1G_ADDRESS_MASK_def ADDRESS_MASK_def PAGE_1G_MASK_def)
  then show ?thesis by (simp add: virt_to_phys_def demo_translate)
qed

lemma demo_low: "\<forall>m. translate demo_space v = Some m \<longrightarrow> map_size m = Size1GiB \<longrightarrow> physical_address m < 2 ^ 39"
proof (intro allI impI)
  fix m assume "translate demo_space v = Some m"
  then have "physical_address m = v AND PAGE_1G_MASK"
    using demo_phys [of v] by (auto simp: virt_to_phys_def split: if_splits)
  also have "\<dots> \<le> PAGE_1G_MASK" by (rule word_and_le1)
  also have "\<dots> < 2 ^ 39" by (simp add: PAGE_1G_MASK_def)
  finally show "physical_address m < 2 ^ 39" .
qed

theorem map_user_page_correct_witness:
  "\<exists>st'. map_user_pages 0x605000 0x7000 True False demo_space = (True, st') \<and>
    virt_to_phys st' 0x605123 = Some 0x7123 \<and> virt_to_phys st' 0x604123 = Some 0x604123"
proof -
  obtain b st' where m: "map_user_pages 0x605000 0x7000 True False demo_space = (b, st')" by force
  note T = map_user_page_correct [OF _ _ _ demo_low m, of "{256..<264}", simplified, OF demo_ok]
  have "b" using T unfolding demo_pool by (cases b) (auto simp: ADDRESS_MASK_def)
  moreover have "page_of 0x605123 = page_of 0x605000" "page_of 0x604123 \<noteq> page_of 0x605000"
    by (simp_all add: page_of_def take_bit_eq_mask mask_eq_exp_minus_1 drop_bit_eq_div)
  moreover have "virt_to_phys demo_space 0x604123 = Some 0x604123"
    by (simp add: demo_phys lv_def index_def drop_bit_eq_div PAGE_1G_MASK_def)
  ultimately show ?thesis using T m by (simp add: ADDRESS_MASK_def)
qed

theorem map_user_permissions_witness:
  "\<exists>st'. map_user_pages 0x8000000000 0x7000 True False demo_space = (True, st') \<and>
    granted (read_raw_entry st') 3 demo_root 0x8000000000 AND ENTRY_WRITABLE = 0"
proof -
  obtain b st' where m: "map_user_pages 0x8000000000 0x7000 True False demo_space = (b, st')" by force
  have l: "lv 3 0x8000000000 = 1" by (simp add: lv_def index_def drop_bit_eq_div)
  have "b" using map_user_page_correct [OF _ _ _ demo_low m, of "{256..<264}", simplified, OF demo_ok]
    unfolding demo_pool by (cases b) (auto simp: ADDRESS_MASK_def)
  with m have m': "map_user_pages 0x8000000000 0x7000 True False demo_space = (True, st')" by simp
  from map_user_permissions [OF _ _ _ demo_low m', of "{256..<264}", simplified, OF demo_ok] m' show ?thesis
    by (simp add: ADDRESS_MASK_def demo_phys demo_tab l)
qed

theorem vmm_init_switches_witness:
  "\<exists>p st'. vmm_init 0x100000000 [(''kernel'', 0x1234)] demo_space = (Some p, st') \<and> pg_cr3 st' = p \<and>
    translate st' 0x1234 = Some (leaf_mapping 0x1234 (2, 0x83))"
proof -
  obtain r st' where m: "vmm_init 0x100000000 [(''kernel'', 0x1234)] demo_space = (r, st')" by force
  have t: "translate demo_space 0x1234 = Some (leaf_mapping 0x1234 (2, 0x83))"
    by (simp add: demo_translate lv_def index_def drop_bit_eq_div)
  from vmm_init_switches [OF _ _ _ _ m, of "{256..<264}", simplified, OF demo_ok] m t show ?thesis
    by (cases r) (simp_all add: demo_pool)
qed

theorem sandbox_no_trace_witness:
  "\<exists>m st'. sandbox_mapping_test demo_space = (Inr m, st') \<and> free_pool st' = {256..<264}"
proof -
  obtain r st' where m: "sandbox_mapping_test demo_space = (r, st')" by force
  have "\<exists>i < 512. \<not> present (read_raw_entry demo_space demo_root i)"
    by (intro exI [where x = 1]) (simp add: demo_read)
  with sandbox_no_trace [OF _ _ _ _ m, of "{256..<264}", simplified, OF demo_ok] m show ?thesis
    by (auto simp: demo_pool)
qed

lemma demo_wc_step:
  "\<exists>report st'. wc_step 0x600000 (\<lparr>wc_changed = 0, wc_already = 0, wc_unmapped = 0, leaf_flags = 0\<rparr>, demo_space) =
    (Some 0x40000000, report, st')"
proof -
  have l: "lv 3 0x600000 = 0" "lv 2 0x600000 = 0" by (simp_all add: lv_def index_def drop_bit_eq_div)
  then have w: "walk (read_raw_entry demo_space) 3 demo_root 0x600000 = Some (2, 0x83)" by (simp add: demo_walk)
  obtain t where t: "find_entry_for demo_space demo_root 0x600000 = Some (t, lv 2 0x600000, pat_bit_of 2)"
    "read_raw_entry demo_space t (lv 2 0x600000) = 0x83"
    using find_entry_walk [OF _ w] by auto
  have "next_page 0x600000 0x40000000 = Some 0x40000000" by (simp add: next_page_def)
  then show ?thesis
    using t l by (simp add: wc_step_def demo_translate leaf_mapping_def Let_def)
qed

theorem write_combining_correct_witness:
  "\<exists>report st' m. set_write_combining 0x600000 0x1000 demo_space = Some (report, st') \<and>
    virt_to_phys st' 0x600123 = Some 0x600123 \<and>
    translate st' 0x600123 = Some m \<and> pat_index m = 4 \<and> map_flags m = 0x1083"
proof -
  obtain report st' where
    "wc_step 0x600000 (\<lparr>wc_changed = 0, wc_already = 0, wc_unmapped = 0, leaf_flags = 0\<rparr>, demo_space) =
      (Some 0x40000000, report, st')"
    using demo_wc_step by blast
  then have r: "set_write_combining 0x600000 0x1000 demo_space = Some (report, st')"
    by (simp add: set_write_combining_def Let_def) (subst wc_loop.simps, simp, subst wc_loop.simps, simp)
  note T = write_combining_correct [OF _ _ _ r, of "{256..<264}", simplified, OF demo_ok]
  have l: "lv 3 0x600123 = 0" "lv 2 0x600123 = 0" by (simp_all add: lv_def index_def drop_bit_eq_div)
  have "virt_to_phys demo_space 0x600123 = Some 0x600123" by (simp add: demo_phys l PAGE_1G_MASK_def)
  with T have v: "virt_to_phys st' 0x600123 = Some 0x600123" by simp
  have m: "translate demo_space 0x600123 = Some (leaf_mapping 0x600123 (2, 0x83))" by (simp add: demo_translate l)
  have n: "\<not> has_pat (leaf_mapping 0x600123 (2, 0x83))" "map_flags (leaf_mapping 0x600123 (2, 0x83)) = 0x83"
    "map_size (leaf_mapping 0x600123 (2, 0x83)) = Size1GiB"
    by (simp_all add: has_pat_def leaf_mapping_def HUGE_PAT_def)
  from T [THEN conjunct2, THEN conjunct2, THEN conjunct2, THEN conjunct1, rule_format, OF _ _ m]
  obtain m' where "translate st' 0x600123 = Some m'" "pat_index m' = 4"
    "map_flags m' = (0x83 OR HUGE_PAT) AND NOT PTE_PWT AND NOT PTE_PCD"
    by (auto simp: n)
  then show ?thesis using r v by (simp add: HUGE_PAT_def PTE_PWT_def PTE_PCD_def)
qed

end
