(* ===== verification/Keyboard.thy ===== *)
theory Keyboard
  imports Prelude
begin

text \<open>
  The PS/2 keyboard (\<open>kernel/src/keyboard.rs\<close>): the ring of scan codes, the decoders of scan code sets 1
  and 2, the queues of keys from USB and of keys typed ahead. What the controller's ports answer and what
  the USB drivers deliver are arguments. Every character these sources produce is ASCII, so a \<open>char\<close> is
  one byte. \<open>kb_cancel\<close> is the kernel's flag \<open>CANCEL_FLAG\<close> (\<open>lib.rs\<close>), which the decoder sets.
\<close>

section \<open>Keys and state\<close>

datatype key =
    KChar char | KEnter | KBackspace | KTab | KLeft | KRight | KUp | KDown | KInsert | KDelete
  | KHome | KEnd | KPageUp | KPageDown | KWordLeft | KWordRight | KUnknown

definition QUEUE_LEN :: nat where "QUEUE_LEN = 64"

record keyboard =
  kb_queue :: bytes
  kb_head :: nat
  kb_tail :: nat
  kb_shift :: bool
  kb_ctrl :: bool
  kb_alt :: bool
  kb_caps :: bool
  kb_extended :: bool
  kb_release :: bool
  kb_set2 :: bool
  kb_present :: bool
  kb_config :: u8
  kb_irq_count :: u64
  kb_dropped :: u64
  kb_cancel :: bool

definition keyboard_new :: keyboard where
  "keyboard_new = \<lparr>kb_queue = replicate QUEUE_LEN 0, kb_head = 0, kb_tail = 0, kb_shift = False,
     kb_ctrl = False, kb_alt = False, kb_caps = False, kb_extended = False, kb_release = False,
     kb_set2 = False, kb_present = False, kb_config = 0, kb_irq_count = 0, kb_dropped = 0,
     kb_cancel = False\<rparr>"

section \<open>The ring of scan codes\<close>

definition push_scancode :: "u8 \<Rightarrow> keyboard \<Rightarrow> keyboard" where
  "push_scancode scancode k =
     (let next = (kb_head k + 1) mod QUEUE_LEN
      in if next \<noteq> kb_tail k
         then k\<lparr>kb_queue := (kb_queue k)[kb_head k := scancode], kb_head := next\<rparr>
         else k\<lparr>kb_dropped := kb_dropped k + 1, kb_shift := False, kb_ctrl := False, kb_alt := False\<rparr>)"

definition pop_scancode :: "keyboard \<Rightarrow> u8 option \<times> keyboard" where
  "pop_scancode k =
     (if kb_head k = kb_tail k then (None, k)
      else (Some (kb_queue k ! kb_tail k), k\<lparr>kb_tail := (kb_tail k + 1) mod QUEUE_LEN\<rparr>))"

definition kb_queued :: "keyboard \<Rightarrow> nat" where
  "kb_queued k =
     (if kb_head k \<ge> kb_tail k then kb_head k - kb_tail k
      else QUEUE_LEN - kb_tail k + kb_head k)"

section \<open>Characters\<close>

definition is_letter :: "char \<Rightarrow> bool" where
  "is_letter c \<longleftrightarrow> 65 \<le> code c \<and> code c \<le> 90 \<or> 97 \<le> code c \<and> code c \<le> 122"

definition key_lower :: "char \<Rightarrow> char" where
  "key_lower c = (if 65 \<le> code c \<and> code c \<le> 90 then char_of (code c + 32) else c)"

definition key_upper :: "char \<Rightarrow> char" where
  "key_upper c = (if 97 \<le> code c \<and> code c \<le> 122 then char_of (code c - 32) else c)"

definition shift_table :: "(char \<times> char) list" where
  "shift_table =
     [(CHR ''1'', CHR ''!''), (CHR ''2'', CHR ''@''), (CHR ''3'', CHR ''#''), (CHR ''4'', CHR ''$''),
      (CHR ''5'', CHR ''%''), (CHR ''6'', CHR ''^''), (CHR ''7'', CHR ''&''), (CHR ''8'', CHR ''*''),
      (CHR ''9'', CHR ''(''), (CHR ''0'', CHR '')''), (CHR ''-'', CHR ''_''), (CHR ''='', CHR ''+''),
      (CHR ''['', CHR ''{''), (CHR '']'', CHR ''}''), (CHR 0x5C, CHR ''|''), (CHR '';'', CHR '':''),
      (CHR 0x27, CHR 0x22), (CHR 0x60, CHR ''~''), (CHR '','', CHR ''<''), (CHR ''.'', CHR ''>''),
      (CHR ''/'', CHR ''?'')]"

definition shift_symbol :: "char \<Rightarrow> char" where
  "shift_symbol ch = (case map_of shift_table ch of Some c \<Rightarrow> c | None \<Rightarrow> ch)"

definition set1_table :: "(u8 \<times> char) list" where
  "set1_table =
     [(0x01, CHR 0x1B), (0x02, CHR ''1''), (0x03, CHR ''2''), (0x04, CHR ''3''), (0x05, CHR ''4''),
      (0x06, CHR ''5''), (0x07, CHR ''6''), (0x08, CHR ''7''), (0x09, CHR ''8''), (0x0A, CHR ''9''),
      (0x0B, CHR ''0''), (0x0C, CHR ''-''), (0x0D, CHR ''=''), (0x0E, CHR 0x08), (0x0F, CHR 0x09),
      (0x10, CHR ''q''), (0x11, CHR ''w''), (0x12, CHR ''e''), (0x13, CHR ''r''), (0x14, CHR ''t''),
      (0x15, CHR ''y''), (0x16, CHR ''u''), (0x17, CHR ''i''), (0x18, CHR ''o''), (0x19, CHR ''p''),
      (0x1A, CHR ''[''), (0x1B, CHR '']''), (0x1C, CHR 0x0A), (0x1E, CHR ''a''), (0x1F, CHR ''s''),
      (0x20, CHR ''d''), (0x21, CHR ''f''), (0x22, CHR ''g''), (0x23, CHR ''h''), (0x24, CHR ''j''),
      (0x25, CHR ''k''), (0x26, CHR ''l''), (0x27, CHR '';''), (0x28, CHR 0x27), (0x29, CHR 0x60),
      (0x2B, CHR 0x5C), (0x2C, CHR ''z''), (0x2D, CHR ''x''), (0x2E, CHR ''c''), (0x2F, CHR ''v''),
      (0x30, CHR ''b''), (0x31, CHR ''n''), (0x32, CHR ''m''), (0x33, CHR '',''), (0x34, CHR ''.''),
      (0x35, CHR ''/''), (0x39, CHR '' '')]"

definition set2_table :: "(u8 \<times> char) list" where
  "set2_table =
     [(0x76, CHR 0x1B), (0x16, CHR ''1''), (0x1E, CHR ''2''), (0x26, CHR ''3''), (0x25, CHR ''4''),
      (0x2E, CHR ''5''), (0x36, CHR ''6''), (0x3D, CHR ''7''), (0x3E, CHR ''8''), (0x46, CHR ''9''),
      (0x45, CHR ''0''), (0x4E, CHR ''-''), (0x55, CHR ''=''), (0x66, CHR 0x08), (0x0D, CHR 0x09),
      (0x15, CHR ''q''), (0x1D, CHR ''w''), (0x24, CHR ''e''), (0x2D, CHR ''r''), (0x2C, CHR ''t''),
      (0x35, CHR ''y''), (0x3C, CHR ''u''), (0x43, CHR ''i''), (0x44, CHR ''o''), (0x4D, CHR ''p''),
      (0x54, CHR ''[''), (0x5B, CHR '']''), (0x5A, CHR 0x0A), (0x1C, CHR ''a''), (0x1B, CHR ''s''),
      (0x23, CHR ''d''), (0x2B, CHR ''f''), (0x34, CHR ''g''), (0x33, CHR ''h''), (0x3B, CHR ''j''),
      (0x42, CHR ''k''), (0x4B, CHR ''l''), (0x4C, CHR '';''), (0x52, CHR 0x27), (0x0E, CHR 0x60),
      (0x5D, CHR 0x5C), (0x1A, CHR ''z''), (0x22, CHR ''x''), (0x21, CHR ''c''), (0x2A, CHR ''v''),
      (0x32, CHR ''b''), (0x31, CHR ''n''), (0x3A, CHR ''m''), (0x41, CHR '',''), (0x49, CHR ''.''),
      (0x4A, CHR ''/''), (0x29, CHR '' '')]"

definition set1_char :: "u8 \<Rightarrow> char option" where "set1_char c = map_of set1_table c"
definition set2_char :: "u8 \<Rightarrow> char option" where "set2_char c = map_of set2_table c"

definition translate_key :: "keyboard \<Rightarrow> char \<Rightarrow> key \<times> keyboard" where
  "translate_key k ch =
     (if kb_ctrl k \<and> is_letter ch
      then let ctrl = char_of (code (key_lower ch) - 97 + 1)
           in (KChar ctrl, if ctrl = CHR 0x03 \<or> ctrl = CHR 0x1A then k\<lparr>kb_cancel := True\<rparr> else k)
      else
        let ch' = (if is_letter ch then (if kb_caps k \<noteq> kb_shift k then key_upper ch else key_lower ch)
                   else if kb_shift k then shift_symbol ch else ch)
        in (if ch' = CHR 0x0A then KEnter else if ch' = CHR 0x08 then KBackspace
            else if ch' = CHR 0x09 then KTab else KChar ch', k))"

section \<open>Decoding\<close>

text \<open>The keys behind the prefix E0; with Ctrl the arrows to the sides go by words.\<close>

definition extended_key :: "bool \<Rightarrow> (u8 \<times> key) list \<Rightarrow> u8 \<Rightarrow> key option" where
  "extended_key ctrl table c =
     map_option (\<lambda>key. if ctrl \<and> key = KLeft then KWordLeft
       else if ctrl \<and> key = KRight then KWordRight else key) (map_of table c)"

definition extended1 :: "(u8 \<times> key) list" where
  "extended1 = [(0x4B, KLeft), (0x4D, KRight), (0x48, KUp), (0x50, KDown), (0x47, KHome), (0x4F, KEnd),
     (0x49, KPageUp), (0x51, KPageDown), (0x52, KInsert), (0x53, KDelete), (0x1C, KEnter)]"

definition extended2 :: "(u8 \<times> key) list" where
  "extended2 = [(0x6B, KLeft), (0x74, KRight), (0x75, KUp), (0x72, KDown), (0x6C, KHome), (0x69, KEnd),
     (0x7D, KPageUp), (0x7A, KPageDown), (0x70, KInsert), (0x71, KDelete), (0x5A, KEnter)]"

definition decode_set1 :: "u8 \<Rightarrow> keyboard \<Rightarrow> key option \<times> keyboard" where
  "decode_set1 sc k =
     (if sc = 0xE0 then (None, k\<lparr>kb_extended := True\<rparr>)
      else
        let released = (sc AND 0x80 \<noteq> 0); c = sc AND 0x7F
        in if kb_extended k
           then let k' = k\<lparr>kb_extended := False\<rparr>
                in if released then (None, k') else (extended_key (kb_ctrl k) extended1 c, k')
           else if c = 0x2A \<or> c = 0x36 then (None, k\<lparr>kb_shift := \<not> released\<rparr>)
           else if c = 0x1D then (None, k\<lparr>kb_ctrl := \<not> released\<rparr>)
           else if c = 0x38 then (None, k\<lparr>kb_alt := \<not> released\<rparr>)
           else if c = 0x3A then (None, if \<not> released then k\<lparr>kb_caps := \<not> kb_caps k\<rparr> else k)
           else if released then (None, k)
           else case set1_char c of
                  None \<Rightarrow> (None, k)
                | Some ch \<Rightarrow> (case translate_key k ch of (key, k') \<Rightarrow> (Some key, k')))"

definition decode_set2 :: "u8 \<Rightarrow> keyboard \<Rightarrow> key option \<times> keyboard" where
  "decode_set2 sc k0 =
     (if sc = 0xE0 then (None, k0\<lparr>kb_extended := True\<rparr>)
      else if sc = 0xF0 then (None, k0\<lparr>kb_release := True\<rparr>)
      else
        let released = kb_release k0; k = k0\<lparr>kb_release := False\<rparr>
        in if kb_extended k
           then let k' = k\<lparr>kb_extended := False\<rparr>
                in if released then (None, k') else (extended_key (kb_ctrl k) extended2 sc, k')
           else if sc = 0x12 \<or> sc = 0x59 then (None, k\<lparr>kb_shift := \<not> released\<rparr>)
           else if sc = 0x14 then (None, k\<lparr>kb_ctrl := \<not> released\<rparr>)
           else if sc = 0x11 then (None, k\<lparr>kb_alt := \<not> released\<rparr>)
           else if sc = 0x58 then (None, if \<not> released then k\<lparr>kb_caps := \<not> kb_caps k\<rparr> else k)
           else if released then (None, k)
           else case set2_char sc of
                  None \<Rightarrow> (None, k)
                | Some ch \<Rightarrow> (case translate_key k ch of (key, k') \<Rightarrow> (Some key, k')))"

text \<open>One turn of the loop of \<open>next_key\<close>: the bytes that are no scan codes are passed over.\<close>

definition decode_step :: "u8 \<Rightarrow> keyboard \<Rightarrow> key option \<times> keyboard" where
  "decode_step sc k =
     (if sc = 0xFA \<or> sc = 0xFE \<or> sc = 0xEE \<or> sc = 0xFF \<or> sc = 0x00 then (None, k)
      else if sc = 0xAA \<and> kb_set2 k then (None, k)
      else if kb_set2 k then decode_set2 sc k else decode_set1 sc k)"

lemma translate_key_ring [simp]:
  "kb_head (snd (translate_key k c)) = kb_head k" "kb_tail (snd (translate_key k c)) = kb_tail k"
  "kb_queue (snd (translate_key k c)) = kb_queue k" "kb_set2 (snd (translate_key k c)) = kb_set2 k"
  by (simp_all add: translate_key_def Let_def)

lemma translate_keyD:
  "translate_key k c = (key, k') \<Longrightarrow> kb_head k' = kb_head k \<and> kb_tail k' = kb_tail k \<and> kb_queue k' = kb_queue k
     \<and> kb_set2 k' = kb_set2 k"
  using translate_key_ring [of k c] by simp

lemma decode_step_ring:
  "decode_step sc k = (r, k') \<Longrightarrow> kb_head k' = kb_head k \<and> kb_tail k' = kb_tail k \<and> kb_queue k' = kb_queue k
     \<and> kb_set2 k' = kb_set2 k"
  by (auto simp: decode_step_def decode_set1_def decode_set2_def Let_def split: if_splits option.splits prod.splits
      dest!: translate_keyD)

text \<open>
  \<open>next_key\<close>. The condition on the ring, which every operation keeps, makes the loop end; outside it,
  where the indices of the code would be out of bounds, the model returns at once.
\<close>

definition ring_ok :: "keyboard \<Rightarrow> bool" where
  "ring_ok k \<longleftrightarrow> length (kb_queue k) = QUEUE_LEN \<and> kb_head k < QUEUE_LEN \<and> kb_tail k < QUEUE_LEN"

lemma queued_pop:
  assumes "ring_ok k" "kb_head k \<noteq> kb_tail k"
  shows "kb_queued k = Suc (kb_queued (k\<lparr>kb_tail := (kb_tail k + 1) mod QUEUE_LEN\<rparr>))"
  using assms by (auto simp: kb_queued_def ring_ok_def mod_if split: if_splits)

function next_key :: "keyboard \<Rightarrow> key option \<times> keyboard" where
  "next_key k =
     (if \<not> ring_ok k then (None, k)
      else
        case pop_scancode k of
          (None, k1) \<Rightarrow> (None, k1)
        | (Some sc, k1) \<Rightarrow>
            (case decode_step sc k1 of
               (Some key, k2) \<Rightarrow> (Some key, k2)
             | (None, k2) \<Rightarrow> next_key k2))"
  by pat_completeness auto
termination
proof (relation "measure kb_queued")
  fix k x y x2 x1 y2
  assume *: "\<not> \<not> ring_ok k" "(x, y) = pop_scancode k" "x = Some x2" "(x1, y2) = decode_step x2 y" "x1 = None"
  then have n: "kb_head k \<noteq> kb_tail k" "y = k\<lparr>kb_tail := (kb_tail k + 1) mod QUEUE_LEN\<rparr>"
    by (auto simp: pop_scancode_def split: if_splits)
  moreover have "kb_queued y2 = kb_queued y" using decode_step_ring [of x2 y x1 y2] *(4) by (simp add: kb_queued_def)
  ultimately show "(y2, k) \<in> measure kb_queued" using queued_pop [of k] *(1) by simp
qed simp

declare next_key.simps [simp del]

section \<open>The ring as a queue\<close>

text \<open>What a ring of bytes promises: a queue of bounded length, which loses what does not fit.\<close>

locale byte_ring =
  fixes put :: "u8 \<Rightarrow> 's \<Rightarrow> 's" and get :: "'s \<Rightarrow> u8 option \<times> 's"
    and ok :: "'s \<Rightarrow> bool" and contents :: "'s \<Rightarrow> bytes" and room :: nat
  assumes put_ok: "ok s \<Longrightarrow> ok (put b s)"
    and put_contents: "ok s \<Longrightarrow> contents (put b s) = (if length (contents s) < room then contents s @ [b] else contents s)"
    and get_empty: "ok s \<Longrightarrow> contents s = [] \<Longrightarrow> get s = (None, s)"
    and get_first: "ok s \<Longrightarrow> contents s = b # bs \<Longrightarrow> \<exists>s'. get s = (Some b, s') \<and> ok s' \<and> contents s' = bs"
    and bounded: "ok s \<Longrightarrow> length (contents s) \<le> room"
begin

lemma puts: "ok s \<Longrightarrow> ok (fold put bs s) \<and> contents (fold put bs s) = take room (contents s @ bs)"
proof (induction bs arbitrary: s)
  case Nil
  then show ?case using bounded by simp
next
  case (Cons b bs)
  have "take room ((if length (contents s) < room then contents s @ [b] else contents s) @ bs) = take room (contents s @ b # bs)"
    using bounded [OF Cons.prems] by (auto simp: take_Cons')
  then show ?case using Cons.IH [OF put_ok [OF Cons.prems]] put_contents [OF Cons.prems] by simp
qed

end

text \<open>The bytes in a ring of \<open>n\<close> places, written at \<open>h\<close> and read at \<open>t\<close>.\<close>

definition ring_length :: "nat \<Rightarrow> nat \<Rightarrow> nat \<Rightarrow> nat" where
  "ring_length n h t = (if t \<le> h then h - t else n - t + h)"

definition ring_list :: "nat \<Rightarrow> bytes \<Rightarrow> nat \<Rightarrow> nat \<Rightarrow> bytes" where
  "ring_list n q h t = map (\<lambda>i. q ! ((t + i) mod n)) [0..<ring_length n h t]"

lemma length_ring_list [simp]: "length (ring_list n q h t) = ring_length n h t"
  by (simp add: ring_list_def)

lemma ring_length_less: "h < n \<Longrightarrow> t < n \<Longrightarrow> ring_length n h t < n"
  by (auto simp: ring_length_def)

lemma ring_end: "h < n \<Longrightarrow> t < n \<Longrightarrow> (t + ring_length n h t) mod n = h"
  by (auto simp: ring_length_def)

lemma ring_full: "h < n \<Longrightarrow> t < n \<Longrightarrow> (h + 1) mod n = t \<longleftrightarrow> ring_length n h t = n - 1"
  by (auto simp: ring_length_def mod_if split: if_splits)

lemma ring_length_put:
  "h < n \<Longrightarrow> t < n \<Longrightarrow> (h + 1) mod n \<noteq> t \<Longrightarrow> ring_length n ((h + 1) mod n) t = Suc (ring_length n h t)"
  by (auto simp: ring_length_def mod_if split: if_splits)

lemma ring_length_get:
  "h < n \<Longrightarrow> t < n \<Longrightarrow> h \<noteq> t \<Longrightarrow> ring_length n h t = Suc (ring_length n h ((t + 1) mod n))"
  by (auto simp: ring_length_def mod_if split: if_splits)

lemma ring_put:
  assumes "h < n" "t < n" "length q = n" "(h + 1) mod n \<noteq> t"
  shows "ring_list n (q[h := b]) ((h + 1) mod n) t = ring_list n q h t @ [b]"
proof -
  have less: "ring_length n h t < n - 1"
    using ring_full [OF assms(1,2)] ring_length_less [OF assms(1,2)] assms(4) by simp
  have "h \<noteq> (t + i) mod n" if "i < ring_length n h t" for i
    using that less assms(1,2) by (auto simp: ring_length_def mod_if split: if_splits)
  then show ?thesis
    using assms ring_end [OF assms(1,2)] unfolding ring_list_def ring_length_put [OF assms(1,2,4)]
    by simp
qed

lemma ring_get:
  assumes "h < n" "t < n" "h \<noteq> t"
  shows "ring_list n q h t = q ! t # ring_list n q h ((t + 1) mod n)"
proof -
  have "map (\<lambda>i. q ! ((t + i) mod n)) [0..<Suc m] = q ! t # map (\<lambda>i. q ! (((t + 1) mod n + i) mod n)) [0..<m]" for m
    using assms(2) by (simp add: map_upt_Suc mod_simps del: upt_Suc)
  then show ?thesis unfolding ring_list_def ring_length_get [OF assms] .
qed

definition contents :: "keyboard \<Rightarrow> bytes" where
  "contents k = ring_list QUEUE_LEN (kb_queue k) (kb_head k) (kb_tail k)"

lemma queued_length: "kb_queued k = length (contents k)"
  by (simp add: kb_queued_def contents_def ring_length_def)

interpretation scancodes: byte_ring push_scancode pop_scancode ring_ok contents "QUEUE_LEN - 1"
proof
  fix k :: keyboard and b bs
  assume ok: "ring_ok k"
  then have h: "kb_head k < QUEUE_LEN" and t: "kb_tail k < QUEUE_LEN" and l: "length (kb_queue k) = QUEUE_LEN"
    by (simp_all add: ring_ok_def)
  have less: "length (contents k) < QUEUE_LEN" using ring_length_less [OF h t] by (simp add: contents_def)
  then show "length (contents k) \<le> QUEUE_LEN - 1" by simp
  show "ring_ok (push_scancode b k)" using ok by (auto simp: push_scancode_def Let_def ring_ok_def)
  show "contents (push_scancode b k) = (if length (contents k) < QUEUE_LEN - 1 then contents k @ [b] else contents k)"
    using ring_put [OF h t l] ring_full [OF h t] ring_length_less [OF h t]
    by (auto simp: push_scancode_def Let_def contents_def)
  show "pop_scancode k = (None, k)" if "contents k = []"
  proof (cases "kb_head k = kb_tail k")
    case False
    then show ?thesis using ring_get [OF h t] that by (simp add: contents_def)
  qed (simp add: pop_scancode_def)
  show "\<exists>k'. pop_scancode k = (Some b, k') \<and> ring_ok k' \<and> contents k' = bs" if "contents k = b # bs"
  proof (cases "kb_head k = kb_tail k")
    case True
    then show ?thesis using that by (simp add: contents_def ring_list_def ring_length_def)
  next
    case False
    have "0 < QUEUE_LEN" by (simp add: QUEUE_LEN_def)
    then show ?thesis using False ring_get [OF h t False] that ok by (simp add: pop_scancode_def contents_def ring_ok_def)
  qed
qed

section \<open>Typing\<close>

text \<open>
  The specification: a keyboard has keys that are pressed and released, whatever codes its scan code set
  has for them. \<open>type_event\<close> is what a key does to the modifiers and which key the reader gets.
\<close>

record modifiers =
  m_shift :: bool
  m_ctrl :: bool
  m_alt :: bool
  m_caps :: bool

datatype physical = PChar char | PShift bool | PCtrl | PAlt | PCaps | PExt key

datatype key_event = Press physical | Release physical

definition meaning :: "modifiers \<Rightarrow> char \<Rightarrow> key" where
  "meaning m ch =
     (if m_ctrl m \<and> is_letter ch then KChar (char_of (code (key_lower ch) - 96))
      else if is_letter ch then KChar (if m_caps m \<noteq> m_shift m then key_upper ch else key_lower ch)
      else if ch = CHR 0x0A then KEnter else if ch = CHR 0x08 then KBackspace
      else if ch = CHR 0x09 then KTab
      else KChar (if m_shift m then shift_symbol ch else ch))"

definition by_words :: "bool \<Rightarrow> key \<Rightarrow> key" where
  "by_words ctrl key = (if ctrl \<and> key = KLeft then KWordLeft else if ctrl \<and> key = KRight then KWordRight else key)"

fun type_event :: "key_event \<Rightarrow> modifiers \<Rightarrow> key option \<times> modifiers" where
  "type_event (Press (PChar ch)) m = (Some (meaning m ch), m)"
| "type_event (Press (PExt key)) m = (Some (by_words (m_ctrl m) key), m)"
| "type_event (Press (PShift r)) m = (None, m\<lparr>m_shift := True\<rparr>)"
| "type_event (Press PCtrl) m = (None, m\<lparr>m_ctrl := True\<rparr>)"
| "type_event (Press PAlt) m = (None, m\<lparr>m_alt := True\<rparr>)"
| "type_event (Press PCaps) m = (None, m\<lparr>m_caps := \<not> m_caps m\<rparr>)"
| "type_event (Release (PShift r)) m = (None, m\<lparr>m_shift := False\<rparr>)"
| "type_event (Release PCtrl) m = (None, m\<lparr>m_ctrl := False\<rparr>)"
| "type_event (Release PAlt) m = (None, m\<lparr>m_alt := False\<rparr>)"
| "type_event (Release _) m = (None, m)"

primrec typed :: "key_event list \<Rightarrow> modifiers \<Rightarrow> key list \<times> modifiers" where
  "typed [] m = ([], m)"
| "typed (e # es) m =
     (case type_event e m of (r, m1) \<Rightarrow>
        case typed es m1 of (ks, m2) \<Rightarrow> (case r of None \<Rightarrow> ks | Some k \<Rightarrow> k # ks, m2))"

text \<open>The codes of the two scan code sets.\<close>

definition code_of :: "(u8 \<times> 'k) list \<Rightarrow> 'k \<Rightarrow> u8" where
  "code_of table k = (case find (\<lambda>(c, x). x = k) table of Some (c, _) \<Rightarrow> c | None \<Rightarrow> 0)"

fun make_code :: "bool \<Rightarrow> physical \<Rightarrow> bytes \<times> u8" where
  "make_code s2 (PChar ch) = ([], code_of (if s2 then set2_table else set1_table) ch)"
| "make_code s2 (PShift right) = ([], if s2 then (if right then 0x59 else 0x12) else (if right then 0x36 else 0x2A))"
| "make_code s2 PCtrl = ([], if s2 then 0x14 else 0x1D)"
| "make_code s2 PAlt = ([], if s2 then 0x11 else 0x38)"
| "make_code s2 PCaps = ([], if s2 then 0x58 else 0x3A)"
| "make_code s2 (PExt key) = ([0xE0], code_of (if s2 then extended2 else extended1) key)"

fun scan_codes :: "bool \<Rightarrow> key_event \<Rightarrow> bytes" where
  "scan_codes s2 (Press p) = (case make_code s2 p of (pre, c) \<Rightarrow> pre @ [c])"
| "scan_codes s2 (Release p) =
     (case make_code s2 p of (pre, c) \<Rightarrow> pre @ (if s2 then [0xF0, c] else [c OR 0x80]))"

text \<open>The keys of a keyboard that the driver knows.\<close>

fun known :: "physical \<Rightarrow> bool" where
  "known (PChar ch) \<longleftrightarrow> ch \<in> snd ` set set1_table"
| "known (PExt key) \<longleftrightarrow> key \<in> snd ` set extended1"
| "known _ \<longleftrightarrow> True"

fun known_event :: "key_event \<Rightarrow> bool" where
  "known_event (Press p) = known p"
| "known_event (Release p) = known p"

text \<open>Both sets have one code for every known key, and no code is mistaken for a prefix or an answer.\<close>

definition plain_code :: "bool \<Rightarrow> u8 \<Rightarrow> bool" where
  "plain_code s2 c \<longleftrightarrow>
     c \<notin> {0, 0xE0, 0xEE, 0xF0, 0xFA, 0xFE, 0xFF, 0xAA} \<and>
     (if s2 then c \<notin> {0x12, 0x59, 0x14, 0x11, 0x58}
      else c \<notin> {0x2A, 0x36, 0x1D, 0x38, 0x3A} \<and> c AND 0x80 = 0 \<and> c AND 0x7F = c \<and> (c OR 0x80) AND 0x7F = c \<and>
           c OR 0x80 \<notin> {0, 0xE0, 0xEE, 0xFA, 0xFE, 0xFF} \<and> (c OR 0x80) AND 0x80 \<noteq> 0)"

lemma char_codes:
  "list_all (\<lambda>(_, ch). list_all (\<lambda>(s2, table). plain_code s2 (code_of table ch) \<and> map_of table (code_of table ch) = Some ch)
     [(False, set1_table), (True, set2_table)]) set1_table"
  by code_simp

lemma ext_codes:
  "list_all (\<lambda>(_, ch). list_all (\<lambda>(s2, table). plain_code s2 (code_of table ch) \<and> map_of table (code_of table ch) = Some ch)
     [(False, extended1), (True, extended2)]) extended1"
  by code_simp

section \<open>Decoding what is typed\<close>

primrec decode_bytes :: "bytes \<Rightarrow> keyboard \<Rightarrow> key list \<times> keyboard" where
  "decode_bytes [] k = ([], k)"
| "decode_bytes (b # bs) k =
     (case decode_step b k of (r, k1) \<Rightarrow>
        case decode_bytes bs k1 of (ks, k2) \<Rightarrow> (case r of None \<Rightarrow> ks | Some key \<Rightarrow> key # ks, k2))"

definition mods_of :: "keyboard \<Rightarrow> modifiers" where
  "mods_of k = \<lparr>m_shift = kb_shift k, m_ctrl = kb_ctrl k, m_alt = kb_alt k, m_caps = kb_caps k\<rparr>"

definition idle :: "keyboard \<Rightarrow> bool" where
  "idle k \<longleftrightarrow> \<not> kb_extended k \<and> \<not> kb_release k"

definition cancels :: "key \<Rightarrow> bool" where
  "cancels k \<longleftrightarrow> k = KChar (CHR 0x03) \<or> k = KChar (CHR 0x1A)"

text \<open>How a run of bytes is decoded, in terms of the specification: \<open>(keys, m)\<close> is what it means.\<close>

definition decodes_to :: "bytes \<Rightarrow> keyboard \<Rightarrow> key list \<Rightarrow> modifiers \<Rightarrow> bool" where
  "decodes_to bs k ks m \<longleftrightarrow> (\<exists>k'. decode_bytes bs k = (ks, k') \<and> mods_of k' = m \<and> idle k' \<and>
     kb_set2 k' = kb_set2 k \<and> (kb_cancel k' \<longleftrightarrow> kb_cancel k \<or> list_ex cancels ks))"

lemma decode_bytes_append:
  "decode_bytes (as @ bs) k =
     (case decode_bytes as k of (ks, k1) \<Rightarrow> case decode_bytes bs k1 of (ks', k2) \<Rightarrow> (ks @ ks', k2))"
  by (induction as arbitrary: k) (simp_all split: prod.splits option.splits)

lemma decodes_to_append:
  assumes "decodes_to as k ks m" "\<And>k'. idle k' \<Longrightarrow> mods_of k' = m \<Longrightarrow> kb_set2 k' = kb_set2 k \<Longrightarrow> decodes_to bs k' ks' m'"
  shows "decodes_to (as @ bs) k (ks @ ks') m'"
proof -
  obtain k1 where 1: "decode_bytes as k = (ks, k1)" "mods_of k1 = m" "idle k1" "kb_set2 k1 = kb_set2 k"
    "kb_cancel k1 \<longleftrightarrow> kb_cancel k \<or> list_ex cancels ks" using assms(1) by (auto simp: decodes_to_def)
  then show ?thesis using assms(2) [OF 1(3,2,4)] by (auto simp: decodes_to_def decode_bytes_append)
qed

lemma letter_code: "is_letter ch \<Longrightarrow> 97 \<le> code (key_lower ch) \<and> code (key_lower ch) \<le> 122"
  by (auto simp: is_letter_def key_lower_def)

lemma shift_symbol_plain:
  assumes "is_letter ch = False" "ch \<noteq> CHR 0x03" "ch \<noteq> CHR 0x1A"
  shows "shift_symbol ch = CHR 0x0A \<longleftrightarrow> ch = CHR 0x0A" "shift_symbol ch = CHR 0x08 \<longleftrightarrow> ch = CHR 0x08"
    "shift_symbol ch = CHR 0x09 \<longleftrightarrow> ch = CHR 0x09" "shift_symbol ch \<noteq> CHR 0x03" "shift_symbol ch \<noteq> CHR 0x1A"
proof -
  have "list_all (\<lambda>(a, b). (a \<notin> {CHR 0x0A, CHR 0x08, CHR 0x09}) \<and> b \<notin> {CHR 0x0A, CHR 0x08, CHR 0x09, CHR 0x03, CHR 0x1A}) shift_table"
    by code_simp
  then have *: "map_of shift_table ch = Some c \<Longrightarrow> ch \<notin> {CHR 0x0A, CHR 0x08, CHR 0x09} \<and>
      c \<notin> {CHR 0x0A, CHR 0x08, CHR 0x09, CHR 0x03, CHR 0x1A}" for c
    by (auto simp: list_all_iff dest!: map_of_SomeD)
  then show "shift_symbol ch = CHR 0x0A \<longleftrightarrow> ch = CHR 0x0A" "shift_symbol ch = CHR 0x08 \<longleftrightarrow> ch = CHR 0x08"
    "shift_symbol ch = CHR 0x09 \<longleftrightarrow> ch = CHR 0x09" "shift_symbol ch \<noteq> CHR 0x03" "shift_symbol ch \<noteq> CHR 0x1A"
    using assms by (auto simp: shift_symbol_def split: option.splits)
qed

lemma letter_plain:
  assumes "is_letter ch"
  shows "key_upper ch \<notin> {CHR 0x0A, CHR 0x08, CHR 0x09, CHR 0x03, CHR 0x1A}" "key_lower ch \<notin> {CHR 0x0A, CHR 0x08, CHR 0x09, CHR 0x03, CHR 0x1A}"
proof -
  have u: "65 \<le> code (key_upper ch)" and l: "97 \<le> code (key_lower ch)" using assms by (auto simp: is_letter_def key_upper_def key_lower_def)
  show "key_upper ch \<notin> {CHR 0x0A, CHR 0x08, CHR 0x09, CHR 0x03, CHR 0x1A}" using u by auto
  show "key_lower ch \<notin> {CHR 0x0A, CHR 0x08, CHR 0x09, CHR 0x03, CHR 0x1A}" using l by auto
qed

lemma translate_meaning:
  assumes "translate_key k ch = (key, k')" "ch \<noteq> CHR 0x03" "ch \<noteq> CHR 0x1A"
  shows "key = meaning (mods_of k) ch \<and> mods_of k' = mods_of k \<and> (idle k' \<longleftrightarrow> idle k) \<and> kb_set2 k' = kb_set2 k \<and>
     (kb_cancel k' \<longleftrightarrow> kb_cancel k \<or> cancels key)"
proof (cases "is_letter ch")
  case True
  have "Suc (code (key_lower ch) - 97) = code (key_lower ch) - 96" using letter_code [OF True] by arith
  with True show ?thesis
    using assms(1) letter_plain [OF True] letter_code [OF True]
    by (auto simp: translate_key_def meaning_def mods_of_def idle_def cancels_def Let_def split: if_splits)
next
  case False
  then show ?thesis
    using assms shift_symbol_plain [OF _ assms(2,3)]
    by (auto simp: translate_key_def meaning_def mods_of_def idle_def cancels_def Let_def split: if_splits)
qed

lemma set1_key:
  assumes "plain_code False c" "idle k" "\<not> kb_set2 k"
  shows "decode_step c k = (case set1_char c of None \<Rightarrow> (None, k)
      | Some ch \<Rightarrow> (case translate_key k ch of (key, k') \<Rightarrow> (Some key, k')))"
    "decode_step (c OR 0x80) k = (None, k)"
  using assms by (simp_all add: plain_code_def decode_step_def decode_set1_def idle_def Let_def)

lemma no_release: "\<not> kb_release k \<Longrightarrow> k\<lparr>kb_release := False\<rparr> = k"
  for k :: keyboard
  by (cases k) simp

lemma set2_key:
  assumes "plain_code True c" "idle k" "kb_set2 k"
  shows "decode_step c k = (case set2_char c of None \<Rightarrow> (None, k)
      | Some ch \<Rightarrow> (case translate_key k ch of (key, k') \<Rightarrow> (Some key, k')))"
    "decode_bytes [0xF0, c] k = ([], k)"
  using assms by (simp_all add: plain_code_def decode_step_def decode_set2_def idle_def no_release Let_def)

lemma decodes_char:
  assumes "known (PChar ch)" "idle k"
  shows "decodes_to (scan_codes (kb_set2 k) (Press (PChar ch))) k [meaning (mods_of k) ch] (mods_of k)"
    "decodes_to (scan_codes (kb_set2 k) (Release (PChar ch))) k [] (mods_of k)"
proof -
  let ?c1 = "code_of set1_table ch" and ?c2 = "code_of set2_table ch"
  have c: "plain_code False ?c1" "set1_char ?c1 = Some ch" "plain_code True ?c2" "set2_char ?c2 = Some ch"
    using assms(1) char_codes by (auto simp: list_all_iff set1_char_def set2_char_def)
  have "list_all (\<lambda>(_, ch). ch \<noteq> CHR 0x03 \<and> ch \<noteq> CHR 0x1A) set1_table" by code_simp
  then have n: "ch \<noteq> CHR 0x03" "ch \<noteq> CHR 0x1A" using assms(1) by (auto simp: list_all_iff)
  obtain key k' where t: "translate_key k ch = (key, k')" by force
  note T = translate_meaning [OF t n]
  show "decodes_to (scan_codes (kb_set2 k) (Press (PChar ch))) k [meaning (mods_of k) ch] (mods_of k)"
    using T t c set1_key [OF c(1) assms(2)] set2_key [OF c(3) assms(2)] assms(2)
    by (cases "kb_set2 k") (simp_all add: decodes_to_def)
  show "decodes_to (scan_codes (kb_set2 k) (Release (PChar ch))) k [] (mods_of k)"
    using c set1_key [OF c(1) assms(2)] set2_key [OF c(3) assms(2)] assms(2)
    by (cases "kb_set2 k") (simp_all add: decodes_to_def)
qed

lemma extended_by_words: "extended_key ctrl table c = map_option (by_words ctrl) (map_of table c)"
  by (simp add: extended_key_def by_words_def [abs_def])

lemma decodes_ext:
  assumes "known (PExt key)" "idle k"
  shows "decodes_to (scan_codes (kb_set2 k) (Press (PExt key))) k [by_words (kb_ctrl k) key] (mods_of k)"
    "decodes_to (scan_codes (kb_set2 k) (Release (PExt key))) k [] (mods_of k)"
proof -
  let ?c1 = "code_of extended1 key" and ?c2 = "code_of extended2 key"
  have c: "plain_code False ?c1" "map_of extended1 ?c1 = Some key" "plain_code True ?c2" "map_of extended2 ?c2 = Some key"
    using assms(1) ext_codes by (auto simp: list_all_iff)
  have "list_all (\<lambda>(_, key). \<not> cancels key) extended1" by code_simp
  then have n: "\<not> cancels (by_words (kb_ctrl k) key)"
    using assms(1) by (auto simp: list_all_iff by_words_def cancels_def)
  show "decodes_to (scan_codes (kb_set2 k) (Press (PExt key))) k [by_words (kb_ctrl k) key] (mods_of k)"
    using c n assms(2)
    by (cases "kb_set2 k") (simp_all add: decodes_to_def decode_step_def decode_set1_def decode_set2_def
        plain_code_def idle_def mods_of_def extended_by_words Let_def)
  show "decodes_to (scan_codes (kb_set2 k) (Release (PExt key))) k [] (mods_of k)"
    using c assms(2)
    by (cases "kb_set2 k") (simp_all add: decodes_to_def decode_step_def decode_set1_def decode_set2_def
        plain_code_def idle_def mods_of_def Let_def)
qed

lemma decodes_modifier:
  assumes "p = PShift b \<or> p = PCtrl \<or> p = PAlt \<or> p = PCaps" "idle k"
  shows "decodes_to (scan_codes (kb_set2 k) (Press p)) k [] (snd (type_event (Press p) (mods_of k)))"
    "decodes_to (scan_codes (kb_set2 k) (Release p)) k [] (snd (type_event (Release p) (mods_of k)))"
  using assms
  by (auto simp: decodes_to_def decode_step_def decode_set1_def decode_set2_def idle_def mods_of_def Let_def)

lemma decodes_event:
  assumes "known_event e" "idle k" "type_event e (mods_of k) = (r, m)"
  shows "decodes_to (scan_codes (kb_set2 k) e) k (case r of None \<Rightarrow> [] | Some key \<Rightarrow> [key]) m"
proof -
  have c: "m_ctrl (mods_of k) = kb_ctrl k" by (simp add: mods_of_def)
  obtain p where p: "e = Press p \<or> e = Release p" by (cases e) auto
  show ?thesis
  proof (cases p)
    case (PChar ch)
    then show ?thesis using p assms decodes_char [OF _ assms(2), of ch] by auto
  next
    case (PExt key)
    then show ?thesis using p assms decodes_ext [OF _ assms(2), of key] c by auto
  next
    case (PShift b)
    then show ?thesis using p assms(3) decodes_modifier [OF _ assms(2), of p b] by auto
  next
    case PCtrl
    then show ?thesis using p assms(3) decodes_modifier [OF _ assms(2), of p] by auto
  next
    case PAlt
    then show ?thesis using p assms(3) decodes_modifier [OF _ assms(2), of p] by auto
  next
    case PCaps
    then show ?thesis using p assms(3) decodes_modifier [OF _ assms(2), of p] by auto
  qed
qed

lemma decodes_events:
  "list_all known_event es \<Longrightarrow> idle k \<Longrightarrow> typed es (mods_of k) = (ks, m) \<Longrightarrow>
    decodes_to (concat (map (scan_codes (kb_set2 k)) es)) k ks m"
proof (induction es arbitrary: k ks)
  case Nil
  then show ?case by (simp add: decodes_to_def)
next
  case (Cons e es)
  obtain r m1 where 1: "type_event e (mods_of k) = (r, m1)" by force
  obtain ks1 where 2: "typed es m1 = (ks1, m)" "ks = (case r of None \<Rightarrow> [] | Some key \<Rightarrow> [key]) @ ks1"
    using Cons.prems(3) 1 by (auto split: prod.splits option.splits)
  have "decodes_to (concat (map (scan_codes (kb_set2 k)) es)) k' ks1 m"
    if "idle k'" "mods_of k' = m1" "kb_set2 k' = kb_set2 k" for k'
    using Cons.IH [of k' ks1] Cons.prems(1) that 2 by simp
  then have "decodes_to (scan_codes (kb_set2 k) e @ concat (map (scan_codes (kb_set2 k)) es)) k
      ((case r of None \<Rightarrow> [] | Some key \<Rightarrow> [key]) @ ks1) m"
    using Cons.prems(1) by (intro decodes_to_append [OF decodes_event [OF _ Cons.prems(2) 1]]) simp_all
  then show ?case using 2(2) by simp
qed

section \<open>Reading keys\<close>

text \<open>Decoding does not look at the ring.\<close>

lemma translate_key_tail: "translate_key (k\<lparr>kb_tail := t\<rparr>) ch = apsnd (\<lambda>k. k\<lparr>kb_tail := t\<rparr>) (translate_key k ch)"
  by (simp add: translate_key_def Let_def)

lemma decode_set1_tail: "decode_set1 sc (k\<lparr>kb_tail := t\<rparr>) = apsnd (\<lambda>k. k\<lparr>kb_tail := t\<rparr>) (decode_set1 sc k)"
  by (simp add: decode_set1_def Let_def translate_key_tail split: option.splits prod.splits)

lemma decode_set2_tail: "decode_set2 sc (k\<lparr>kb_tail := t\<rparr>) = apsnd (\<lambda>k. k\<lparr>kb_tail := t\<rparr>) (decode_set2 sc k)"
proof -
  have "k\<lparr>kb_tail := t, kb_release := False\<rparr> = k\<lparr>kb_release := False\<rparr>\<lparr>kb_tail := t\<rparr>" by simp
  then have *: "translate_key (k\<lparr>kb_tail := t, kb_release := False\<rparr>) ch =
      apsnd (\<lambda>k. k\<lparr>kb_tail := t\<rparr>) (translate_key (k\<lparr>kb_release := False\<rparr>) ch)" for ch
    using translate_key_tail [where k = "k\<lparr>kb_release := False\<rparr>"] by metis
  show ?thesis by (simp add: decode_set2_def Let_def * split: option.splits prod.splits)
qed

lemma decode_step_tail: "decode_step sc (k\<lparr>kb_tail := t\<rparr>) = apsnd (\<lambda>k. k\<lparr>kb_tail := t\<rparr>) (decode_step sc k)"
  by (simp add: decode_step_def decode_set1_tail decode_set2_tail)

lemma decode_bytes_tail: "decode_bytes bs (k\<lparr>kb_tail := t\<rparr>) = apsnd (\<lambda>k. k\<lparr>kb_tail := t\<rparr>) (decode_bytes bs k)"
  by (induction bs arbitrary: k) (simp_all add: decode_step_tail split: prod.splits)

text \<open>\<open>n\<close> keys, one after the other.\<close>

primrec read_keys :: "nat \<Rightarrow> keyboard \<Rightarrow> key list \<times> keyboard" where
  "read_keys 0 k = ([], k)"
| "read_keys (Suc n) k =
     (case next_key k of
        (None, k1) \<Rightarrow> ([], k1)
      | (Some key, k1) \<Rightarrow> (case read_keys n k1 of (ks, k2) \<Rightarrow> (key # ks, k2)))"

lemma ring_empty: "ring_ok k \<Longrightarrow> contents k = [] \<longleftrightarrow> kb_head k = kb_tail k"
  by (auto simp: ring_ok_def contents_def ring_list_def ring_length_def)

lemma next_key_empty: "ring_ok k \<Longrightarrow> contents k = [] \<Longrightarrow> next_key k = (None, k)"
  by (subst next_key.simps) (simp add: ring_empty pop_scancode_def)

lemma next_key_byte:
  assumes "ring_ok k" "contents k = b # bs" "decode_step b k = (r, k1)"
  shows "\<exists>t. ring_ok (k1\<lparr>kb_tail := t\<rparr>) \<and> contents (k1\<lparr>kb_tail := t\<rparr>) = bs \<and> kb_head k1 = kb_head k \<and>
    next_key k = (case r of Some key \<Rightarrow> (Some key, k1\<lparr>kb_tail := t\<rparr>) | None \<Rightarrow> next_key (k1\<lparr>kb_tail := t\<rparr>))"
proof -
  let ?t = "(kb_tail k + 1) mod QUEUE_LEN"
  obtain k' where p: "pop_scancode k = (Some b, k')" "ring_ok k'" "contents k' = bs"
    using scancodes.get_first [OF assms(1,2)] by auto
  then have k': "k' = k\<lparr>kb_tail := ?t\<rparr>" by (auto simp: pop_scancode_def split: if_splits)
  have d: "decode_step b k' = (r, k1\<lparr>kb_tail := ?t\<rparr>)" unfolding k' decode_step_tail using assms(3) by simp
  note R = decode_step_ring [OF assms(3)]
  have "ring_ok (k1\<lparr>kb_tail := ?t\<rparr>)" "contents (k1\<lparr>kb_tail := ?t\<rparr>) = bs"
    using p(2,3) R by (simp_all add: k' ring_ok_def contents_def)
  moreover have "next_key k = (case r of Some key \<Rightarrow> (Some key, k1\<lparr>kb_tail := ?t\<rparr>) | None \<Rightarrow> next_key (k1\<lparr>kb_tail := ?t\<rparr>))"
    using assms(1) p(1) d by (subst next_key.simps) (simp split: option.splits)
  ultimately show ?thesis using R by blast
qed

lemma read_decode:
  assumes "ring_ok k" "contents k = bs" "decode_bytes bs k = (ks, k')"
  shows "\<exists>kx. read_keys (length ks) k = (ks, kx) \<and> next_key kx = (None, k'\<lparr>kb_tail := kb_head k\<rparr>)"
  using assms
proof (induction bs arbitrary: k ks k')
  case Nil
  then have "k'\<lparr>kb_tail := kb_head k\<rparr> = k" using ring_empty [of k] by (cases k) auto
  then show ?case using Nil next_key_empty by auto
next
  case (Cons b bs)
  obtain r k1 where d: "decode_step b k = (r, k1)" by force
  then obtain t where t: "ring_ok (k1\<lparr>kb_tail := t\<rparr>)" "contents (k1\<lparr>kb_tail := t\<rparr>) = bs" "kb_head k1 = kb_head k"
    "next_key k = (case r of Some key \<Rightarrow> (Some key, k1\<lparr>kb_tail := t\<rparr>) | None \<Rightarrow> next_key (k1\<lparr>kb_tail := t\<rparr>))"
    using next_key_byte [OF Cons.prems(1,2)] by blast
  obtain ks1 where k: "decode_bytes bs k1 = (ks1, k')" "ks = (case r of None \<Rightarrow> ks1 | Some key \<Rightarrow> key # ks1)"
    using Cons.prems(3) d by (auto split: prod.splits)
  have "decode_bytes bs (k1\<lparr>kb_tail := t\<rparr>) = (ks1, k'\<lparr>kb_tail := t\<rparr>)"
    unfolding decode_bytes_tail using k(1) by simp
  from Cons.IH [OF t(1,2) this] obtain kx where
    kx: "read_keys (length ks1) (k1\<lparr>kb_tail := t\<rparr>) = (ks1, kx)" "next_key kx = (None, k'\<lparr>kb_tail := kb_head k\<rparr>)"
    using t(3) by auto
  show ?case
  proof (cases r)
    case None
    then show ?thesis using kx k(2) t(4) by (cases "length ks1") auto
  next
    case (Some key)
    then show ?thesis using kx k(2) t(4) by simp
  qed
qed

section \<open>Properties\<close>

text \<open>
  C14: typing. Whatever keys are pressed and released, as long as their scan codes fit in the ring, reading
  the keyboard gives the keys that were typed, in order and with the modifiers as they were at each of
  them, then nothing, and Ctrl+C or Ctrl+Z among them raise the cancel flag. Nothing in the result depends on
  the scan code set: the decoders of set 1 and of set 2 agree.
\<close>

theorem keys_typed:
  assumes "ring_ok k" "contents k = []" "idle k" "list_all known_event es"
    "length (concat (map (scan_codes (kb_set2 k)) es)) < QUEUE_LEN" "typed es (mods_of k) = (ks, m)"
  shows "\<exists>k1 k2. read_keys (length ks) (fold push_scancode (concat (map (scan_codes (kb_set2 k)) es)) k) = (ks, k1) \<and>
    next_key k1 = (None, k2) \<and> mods_of k2 = m \<and> idle k2 \<and> (kb_cancel k2 \<longleftrightarrow> kb_cancel k \<or> list_ex cancels ks)"
proof -
  let ?bs = "concat (map (scan_codes (kb_set2 k)) es)"
  define k' where "k' = fold push_scancode ?bs k"
  have P: "push_scancode b k = k\<lparr>kb_queue := (kb_queue k)[kb_head k := b], kb_head := (kb_head k + 1) mod QUEUE_LEN\<rparr>"
    if "ring_ok k" "length (contents k) < QUEUE_LEN - 1" for b k
    using that ring_full [of "kb_head k" QUEUE_LEN "kb_tail k"] by (simp add: push_scancode_def ring_ok_def contents_def)
  have same: "mods_of (fold push_scancode bs k) = mods_of k \<and> (idle (fold push_scancode bs k) \<longleftrightarrow> idle k) \<and>
      kb_set2 (fold push_scancode bs k) = kb_set2 k \<and> kb_cancel (fold push_scancode bs k) = kb_cancel k"
    if "ring_ok k" "length (contents k) + length bs < QUEUE_LEN" for bs k
    using that
  proof (induction bs arbitrary: k)
    case (Cons b bs)
    have "mods_of (push_scancode b k) = mods_of k \<and> (idle (push_scancode b k) \<longleftrightarrow> idle k) \<and>
        kb_set2 (push_scancode b k) = kb_set2 k \<and> kb_cancel (push_scancode b k) = kb_cancel k"
      using P [OF Cons.prems(1)] Cons.prems(2) by (simp add: mods_of_def idle_def)
    moreover have "length (contents (push_scancode b k)) + length bs < QUEUE_LEN"
      using scancodes.put_contents [OF Cons.prems(1), of b] Cons.prems(2) by simp
    ultimately show ?case using Cons.IH [OF scancodes.put_ok [OF Cons.prems(1)]] by simp
  qed simp
  have S: "mods_of k' = mods_of k" "idle k'" "kb_set2 k' = kb_set2 k" "kb_cancel k' = kb_cancel k"
    using same [OF assms(1), of ?bs] assms(2,3,5) by (simp_all add: k'_def)
  have C: "ring_ok k'" "contents k' = ?bs"
    using scancodes.puts [OF assms(1), of ?bs] assms(2,5) by (simp_all add: k'_def)
  have "decodes_to ?bs k' ks m" using decodes_events [OF assms(4) S(2), of ks m] assms(6) S by simp
  then obtain k2 where "decode_bytes ?bs k' = (ks, k2)" "mods_of k2 = m" "idle k2"
    "kb_cancel k2 \<longleftrightarrow> kb_cancel k \<or> list_ex cancels ks" using S(4) by (auto simp: decodes_to_def)
  then show ?thesis
    using read_decode [OF C] unfolding k'_def [symmetric] by (fastforce simp: mods_of_def idle_def)
qed

theorem keys_typed_witness:
  "\<exists>k1 k2. read_keys 2 (fold push_scancode [0x2A, 0x23, 0xA3, 0xAA, 0xE0, 0x4B] keyboard_new) =
      ([KChar (CHR ''H''), KLeft], k1) \<and> next_key k1 = (None, k2) \<and> \<not> kb_cancel k2"
proof -
  let ?es = "[Press (PShift False), Press (PChar (CHR ''h'')), Release (PChar (CHR ''h'')), Release (PShift False), Press (PExt KLeft)]"
  have k: "ring_ok keyboard_new" "contents keyboard_new = []" "idle keyboard_new" "kb_set2 keyboard_new = False"
    "\<not> kb_cancel keyboard_new"
    by (simp_all add: keyboard_new_def ring_ok_def QUEUE_LEN_def contents_def ring_list_def ring_length_def idle_def)
  have e: "list_all known_event ?es" by code_simp
  have c: "concat (map (scan_codes False) ?es) = [0x2A, 0x23, 0xA3, 0xAA, 0xE0, 0x4B]" by code_simp
  have t: "typed ?es (mods_of keyboard_new) = ([KChar (CHR ''H''), KLeft], mods_of keyboard_new)" by code_simp
  show ?thesis
    using keys_typed [OF k(1,2,3) e _ t, unfolded k(4) c] k(5)
    by (simp add: QUEUE_LEN_def cancels_def numeral_2_eq_2 del: read_keys.simps fold_simps) blast
qed

lemma high_bit: "b AND 0x80 \<noteq> 0 \<Longrightarrow> b = (b AND 0x7F) OR 0x80" for b :: u8
proof -
  assume "b AND 0x80 \<noteq> 0"
  moreover have e: "(0x80 :: u8) = push_bit 7 1" "(0x7F :: u8) = mask 7" by (simp_all add: mask_eq_exp_minus_1)
  ultimately have "bit b 7" by (metis and_exp_eq_0_iff_not_bit push_bit_of_1)
  then show ?thesis unfolding e
    by (intro bit_word_eqI) (auto simp: bit_simps less_Suc_eq numeral_eq_Suc)
qed

lemma shift_stays:
  assumes "decode_step b k = (r, k2)" "kb_shift k" "\<not> kb_set2 k" "b \<noteq> 0xAA" "b \<noteq> 0xB6"
  shows "kb_shift k2 \<and> \<not> kb_set2 k2"
proof -
  have "kb_shift (snd (translate_key k ch)) = kb_shift k" for ch by (simp add: translate_key_def Let_def)
  then have "translate_key k ch = (key, k') \<Longrightarrow> kb_shift k' = kb_shift k" for ch key k' by (metis snd_conv)
  moreover have "b AND 0x80 = 0" if "b AND 0x7F = 0x2A \<or> b AND 0x7F = 0x36"
    by (rule ccontr) (use high_bit [of b] that assms(4,5) in auto)
  ultimately show ?thesis
    using assms by (auto simp: decode_step_def decode_set1_def Let_def split: if_splits option.splits prod.splits dest!: translate_keyD)
qed

text \<open>
  A lost release. When the ring is full the driver clears the modifiers, because the lost byte may be the
  release of one. But the press of that modifier may still wait in the ring: read after the reset, it sets
  the modifier again and nothing will clear it.
\<close>

theorem lost_release_sticks:
  assumes "ring_ok k" "\<not> kb_set2 k" "idle k" "contents k = 0x2A # bs" "length (contents k) = QUEUE_LEN - 1"
    "0xAA \<notin> set bs" "0xB6 \<notin> set bs"
  shows "\<exists>n k2. next_key (snd (read_keys n (push_scancode 0xAA k))) = (None, k2) \<and> kb_shift k2"
proof -
  define k' where "k' = push_scancode 0xAA k"
  have "(kb_head k + 1) mod QUEUE_LEN = kb_tail k"
    using assms(1,5) ring_full [of "kb_head k" QUEUE_LEN "kb_tail k"] by (simp add: ring_ok_def contents_def)
  then have k': "k' = k\<lparr>kb_dropped := kb_dropped k + 1, kb_shift := False, kb_ctrl := False, kb_alt := False\<rparr>"
    by (simp add: k'_def push_scancode_def)
  have C: "ring_ok k'" "contents k' = 0x2A # bs" using assms(1,4) by (simp_all add: k' ring_ok_def contents_def)
  have "kb_shift (snd (decode_bytes bs k1))" if "kb_shift k1" "\<not> kb_set2 k1" "0xAA \<notin> set bs" "0xB6 \<notin> set bs" for k1 bs
    using that
  proof (induction bs arbitrary: k1)
    case (Cons b bs)
    obtain r k2 where "decode_step b k1 = (r, k2)" by force
    then show ?case using shift_stays [of b k1 r k2] Cons by (simp add: split_beta)
  qed simp
  moreover obtain k1 where "decode_step 0x2A k' = (None, k1)" "kb_shift k1" "\<not> kb_set2 k1"
    using assms(2,3) by (simp add: k' decode_step_def decode_set1_def idle_def Let_def)
  ultimately have S: "kb_shift (snd (decode_bytes (0x2A # bs) k'))" using assms(6,7) by (simp split: prod.splits)
  obtain ks kf where "decode_bytes (0x2A # bs) k' = (ks, kf)" by force
  from read_decode [OF C this] this S show ?thesis unfolding k'_def [symmetric]
    by (intro exI [where x = "length ks"] exI [where x = "kf\<lparr>kb_tail := kb_head k'\<rparr>"]) auto
qed

theorem lost_release_sticks_witness:
  "\<exists>n k2. next_key (snd (read_keys n (push_scancode 0xAA (fold push_scancode (0x2A # replicate 62 0x1E) keyboard_new)))) =
     (None, k2) \<and> kb_shift k2"
proof -
  let ?k = "fold push_scancode (0x2A # replicate 62 0x1E) keyboard_new"
  have k: "ring_ok keyboard_new" "contents keyboard_new = []"
    by (simp_all add: keyboard_new_def ring_ok_def QUEUE_LEN_def contents_def ring_list_def ring_length_def)
  have c: "ring_ok ?k" "contents ?k = 0x2A # replicate 62 0x1E"
    using scancodes.puts [OF k(1), of "0x2A # replicate 62 0x1E"] k(2) by (simp_all add: QUEUE_LEN_def del: fold_simps)
  have f: "\<not> kb_set2 (fold push_scancode bs k) \<and> idle (fold push_scancode bs k)" if "\<not> kb_set2 k" "idle k" for bs k
    using that by (induction bs arbitrary: k) (simp_all add: push_scancode_def Let_def idle_def)
  have "\<not> kb_set2 ?k \<and> idle ?k" by (rule f) (simp_all add: keyboard_new_def idle_def)
  then show ?thesis using c by (intro lost_release_sticks [where bs = "replicate 62 0x1E"]) (simp_all add: QUEUE_LEN_def del: fold_simps)
qed

end
