(* ===== verification/Input.thy ===== *)
theory Input
  imports Keyboard
begin

text \<open>
  Where keys come from: the queues of the keyboard driver and its reading of the controller
  (\<open>kernel/src/keyboard.rs\<close>), the serial line with its terminal sequences (\<open>kernel/src/serial.rs\<close>, the debug
  build; the release build has no serial input), and the polling of long commands for Ctrl+C
  (\<open>poll_cancel\<close> of \<open>kernel/src/lib.rs\<close>). Ports are lists of answers, a status and a data byte for each turn
  of the loop that reads them; after the last one there is nothing to read. The keys that the USB drivers
  inject while they are polled are arguments too.
\<close>

section \<open>The keyboard driver\<close>

record input =
  in_kb :: keyboard
  in_hid :: "key list"
  in_typeahead :: "key list"

definition TYPEAHEAD_MAX :: nat where "TYPEAHEAD_MAX = 64"

fun irq_loop :: "nat \<Rightarrow> (u8 \<times> u8) list \<Rightarrow> keyboard \<Rightarrow> keyboard" where
  "irq_loop (Suc n) ((status, data) # ports) k =
     (if status AND 0x01 = 0 \<or> status AND 0x20 \<noteq> 0 then k
      else irq_loop n ports (push_scancode data (k\<lparr>kb_irq_count := kb_irq_count k + 1\<rparr>)))"
| "irq_loop _ _ k = k"

definition keyboard_interrupt :: "(u8 \<times> u8) list \<Rightarrow> input \<Rightarrow> input" where
  "keyboard_interrupt ports st = st\<lparr>in_kb := irq_loop 32 ports (in_kb st)\<rparr>"

fun drain_loop :: "nat \<Rightarrow> (u8 \<times> u8) list \<Rightarrow> nat \<Rightarrow> keyboard \<Rightarrow> nat \<times> keyboard" where
  "drain_loop (Suc n) ((status, data) # ports) count k =
     (if status = 0xFF \<or> status AND 0x01 = 0 then (count, k)
      else drain_loop n ports (count + 1) (if status AND 0x20 = 0 then push_scancode data k else k))"
| "drain_loop _ _ count k = (count, k)"

definition drain_controller :: "(u8 \<times> u8) list \<Rightarrow> keyboard \<Rightarrow> nat \<times> keyboard" where
  "drain_controller ports k = drain_loop QUEUE_LEN ports 0 k"

definition inject_key :: "key \<Rightarrow> input \<Rightarrow> input" where
  "inject_key k st = st\<lparr>in_hid := in_hid st @ [k]\<rparr>"

definition push_back :: "key \<Rightarrow> input \<Rightarrow> input" where
  "push_back key st =
     (if length (in_typeahead st) < TYPEAHEAD_MAX then st\<lparr>in_typeahead := in_typeahead st @ [key]\<rparr> else st)"

definition pop_back :: "input \<Rightarrow> key option \<times> input" where
  "pop_back st =
     (case in_typeahead st of [] \<Rightarrow> (None, st) | k # ks \<Rightarrow> (Some k, st\<lparr>in_typeahead := ks\<rparr>))"

definition pop_hid :: "input \<Rightarrow> key option \<times> input" where
  "pop_hid st = (case in_hid st of [] \<Rightarrow> (None, st) | k # ks \<Rightarrow> (Some k, st\<lparr>in_hid := ks\<rparr>))"

definition poll_ps2 :: "(u8 \<times> u8) list \<Rightarrow> input \<Rightarrow> key option \<times> input" where
  "poll_ps2 ports st =
     (case pop_back st of
        (Some key, st1) \<Rightarrow> (Some key, st1)
      | (None, _) \<Rightarrow>
     (case pop_hid st of
        (Some key, st1) \<Rightarrow> (Some key, st1)
      | (None, _) \<Rightarrow>
          if \<not> kb_present (in_kb st) then (None, st)
          else (case next_key (snd (drain_controller ports (in_kb st))) of
                  (r, k) \<Rightarrow> (r, st\<lparr>in_kb := k\<rparr>))))"

definition keyboard_poll_key :: "(u8 \<times> u8) list \<Rightarrow> key list \<Rightarrow> input \<Rightarrow> key option \<times> input" where
  "keyboard_poll_key ports usb st =
     (case poll_ps2 ports st of
        (Some key, st1) \<Rightarrow> (Some key, st1)
      | (None, st1) \<Rightarrow> pop_hid (fold inject_key usb st1))"

record keyboard_status =
  ks_present :: bool
  ks_config :: u8
  ks_scan_set2 :: bool
  ks_shift :: bool
  ks_ctrl :: bool
  ks_alt :: bool
  ks_irq_count :: u64
  ks_dropped :: u64
  ks_queued :: nat
  ks_hid_queued :: nat

definition input_status :: "input \<Rightarrow> keyboard_status" where
  "input_status st =
     (let k = in_kb st
      in \<lparr>ks_present = kb_present k, ks_config = kb_config k, ks_scan_set2 = kb_set2 k, ks_shift = kb_shift k,
          ks_ctrl = kb_ctrl k, ks_alt = kb_alt k, ks_irq_count = kb_irq_count k, ks_dropped = kb_dropped k,
          ks_queued = kb_queued k, ks_hid_queued = length (in_hid st)\<rparr>)"

section \<open>The serial line\<close>

definition SERIAL_BUF_SIZE :: nat where "SERIAL_BUF_SIZE = 256"
definition RX_POLL_BUDGET :: nat where "RX_POLL_BUDGET = 64"

record serial =
  sr_buf :: bytes
  sr_head :: nat
  sr_tail :: nat
  sr_present :: bool
  sr_escape :: nat
  sr_number :: nat

definition push_byte :: "u8 \<Rightarrow> serial \<Rightarrow> serial" where
  "push_byte b s =
     (let next = (sr_head s + 1) mod SERIAL_BUF_SIZE
      in if next \<noteq> sr_tail s then s\<lparr>sr_buf := (sr_buf s)[sr_head s := b], sr_head := next\<rparr> else s)"

definition pop_byte :: "serial \<Rightarrow> u8 option \<times> serial" where
  "pop_byte s =
     (if sr_head s = sr_tail s then (None, s)
      else (Some (sr_buf s ! sr_tail s), s\<lparr>sr_tail := (sr_tail s + 1) mod SERIAL_BUF_SIZE\<rparr>))"

fun serial_irq_loop :: "nat \<Rightarrow> (u8 \<times> u8) list \<Rightarrow> serial \<Rightarrow> serial" where
  "serial_irq_loop (Suc n) ((status, data) # ports) s =
     (if status = 0xFF \<or> status AND 0x01 = 0 then s else serial_irq_loop n ports (push_byte data s))"
| "serial_irq_loop _ _ s = s"

definition serial_interrupt :: "(u8 \<times> u8) list \<Rightarrow> serial \<Rightarrow> serial" where
  "serial_interrupt ports s = serial_irq_loop RX_POLL_BUDGET ports s"

text \<open>\<open>try_read_byte\<close> also says how many answers of the port are left.\<close>

definition try_read_byte :: "(u8 \<times> u8) list \<Rightarrow> serial \<Rightarrow> u8 option \<times> (u8 \<times> u8) list \<times> serial" where
  "try_read_byte ports s =
     (case pop_byte s of
        (Some b, s1) \<Rightarrow> (Some b, ports, s1)
      | (None, s1) \<Rightarrow>
          if \<not> sr_present s1 then (None, ports, s1)
          else (case ports of
                  [] \<Rightarrow> (None, [], s1)
                | (status, data) # rest \<Rightarrow>
                    if status = 0xFF then (None, rest, s1\<lparr>sr_present := False\<rparr>)
                    else if status AND 0x01 \<noteq> 0 then (Some data, rest, s1)
                    else (None, rest, s1)))"

definition decode_plain_byte :: "u8 \<Rightarrow> key option" where
  "decode_plain_byte b =
     (if b = 0x0D \<or> b = 0x0A then Some KEnter
      else if b = 0x08 \<or> b = 0x7F then Some KBackspace
      else if b = 0x09 then Some KTab
      else if b \<in> {0x03, 0x01, 0x05, 0x0B, 0x0C, 0x15, 0x1A, 0x04, 0x0F, 0x18, 0x16, 0x19, 0x17}
      then Some (KChar (char_of (unat b)))
      else if 0x20 \<le> b \<and> b \<le> 0x7E then Some (KChar (char_of (unat b)))
      else None)"

definition csi_keys :: "(u8 \<times> key) list" where
  "csi_keys = [(0x41, KUp), (0x42, KDown), (0x43, KRight), (0x44, KLeft), (0x48, KHome), (0x46, KEnd)]"

definition tilde_keys :: "(nat \<times> key) list" where
  "tilde_keys = [(2, KInsert), (3, KDelete), (5, KPageUp), (6, KPageDown)]"

definition decode_serial_byte :: "u8 \<Rightarrow> serial \<Rightarrow> key option \<times> serial" where
  "decode_serial_byte b s0 =
     (let state = sr_escape s0; s = s0\<lparr>sr_escape := 0\<rparr>
      in if state = 1 then
           (if b = 0x5B then (None, s\<lparr>sr_escape := 2\<rparr>)
            else if b = 0x4F then (None, s\<lparr>sr_escape := 3\<rparr>)
            else (decode_plain_byte b, s))
         else if state = 2 \<or> state = 3 then
           (case map_of csi_keys b of
              Some key \<Rightarrow> (Some key, s)
            | None \<Rightarrow>
                if 0x31 \<le> b \<and> b \<le> 0x38 then (None, s\<lparr>sr_escape := 4, sr_number := unat (b - 0x30)\<rparr>)
                else (None, s))
         else if state = 4 then (if b \<noteq> 0x7E then None else map_of tilde_keys (sr_number s), s)
         else if b = 0x1B then (None, s\<lparr>sr_escape := 1\<rparr>)
         else (decode_plain_byte b, s))"

fun serial_poll_loop :: "nat \<Rightarrow> (u8 \<times> u8) list \<Rightarrow> serial \<Rightarrow> key option \<times> serial" where
  "serial_poll_loop 0 ports s = (None, s)"
| "serial_poll_loop (Suc n) ports s =
     (case try_read_byte ports s of
        (None, _, s1) \<Rightarrow> (None, s1)
      | (Some b, rest, s1) \<Rightarrow>
          (case decode_serial_byte b s1 of
             (Some key, s2) \<Rightarrow> (Some key, s2)
           | (None, s2) \<Rightarrow> serial_poll_loop n rest s2))"

definition serial_poll_key :: "bool \<Rightarrow> (u8 \<times> u8) list \<Rightarrow> serial \<Rightarrow> key option \<times> serial" where
  "serial_poll_key debug ports s = (if debug then serial_poll_loop RX_POLL_BUDGET ports s else (None, s))"

section \<open>Polling for a cancellation\<close>

record console_input =
  ci_serial :: serial
  ci_input :: input

record answers =
  an_serial :: "(u8 \<times> u8) list"
  an_ps2 :: "(u8 \<times> u8) list"
  an_usb :: "key list"

definition console_poll_key :: "bool \<Rightarrow> answers \<Rightarrow> console_input \<Rightarrow> key option \<times> console_input" where
  "console_poll_key debug a st =
     (case serial_poll_key debug (an_serial a) (ci_serial st) of
        (Some key, s) \<Rightarrow> (Some key, st\<lparr>ci_serial := s\<rparr>)
      | (None, s) \<Rightarrow>
          (case keyboard_poll_key (an_ps2 a) (an_usb a) (ci_input st) of
             (r, i) \<Rightarrow> (r, st\<lparr>ci_serial := s, ci_input := i\<rparr>)))"

definition request_cancel :: "input \<Rightarrow> input" where
  "request_cancel st = st\<lparr>in_kb := (in_kb st)\<lparr>kb_cancel := True\<rparr>\<rparr>"

definition is_cancelled :: "input \<Rightarrow> bool" where "is_cancelled st = kb_cancel (in_kb st)"

definition reset_cancel :: "input \<Rightarrow> input" where
  "reset_cancel st = st\<lparr>in_kb := (in_kb st)\<lparr>kb_cancel := False\<rparr>\<rparr>"

definition poll_cancel :: "bool \<Rightarrow> answers \<Rightarrow> console_input \<Rightarrow> bool \<times> console_input" where
  "poll_cancel debug a st =
     (let st2 = (case console_poll_key debug a st of
            (Some key, st1) \<Rightarrow>
              st1\<lparr>ci_input := (if key = KChar (CHR 0x03) \<or> key = KChar (CHR 0x1A) then request_cancel (ci_input st1)
                                else push_back key (ci_input st1))\<rparr>
          | (None, st1) \<Rightarrow> st1)
      in (is_cancelled (ci_input st2), st2))"

section \<open>The serial ring\<close>

definition serial_ok :: "serial \<Rightarrow> bool" where
  "serial_ok s \<longleftrightarrow> length (sr_buf s) = SERIAL_BUF_SIZE \<and> sr_head s < SERIAL_BUF_SIZE \<and> sr_tail s < SERIAL_BUF_SIZE"

definition received :: "serial \<Rightarrow> bytes" where
  "received s = ring_list SERIAL_BUF_SIZE (sr_buf s) (sr_head s) (sr_tail s)"

interpretation serial_line: byte_ring push_byte pop_byte serial_ok received "SERIAL_BUF_SIZE - 1"
proof
  fix k :: serial and b bs
  assume ok: "serial_ok k"
  then have h: "sr_head k < SERIAL_BUF_SIZE" and t: "sr_tail k < SERIAL_BUF_SIZE" and l: "length (sr_buf k) = SERIAL_BUF_SIZE"
    by (simp_all add: serial_ok_def)
  have less: "length (received k) < SERIAL_BUF_SIZE" using ring_length_less [OF h t] by (simp add: received_def)
  then show "length (received k) \<le> SERIAL_BUF_SIZE - 1" by simp
  show "serial_ok (push_byte b k)" using ok by (auto simp: push_byte_def Let_def serial_ok_def)
  show "received (push_byte b k) = (if length (received k) < SERIAL_BUF_SIZE - 1 then received k @ [b] else received k)"
    using ring_put [OF h t l] ring_full [OF h t] ring_length_less [OF h t]
    by (auto simp: push_byte_def Let_def received_def)
  show "pop_byte k = (None, k)" if "received k = []"
  proof (cases "sr_head k = sr_tail k")
    case False
    then show ?thesis using ring_get [OF h t] that by (simp add: received_def)
  qed (simp add: pop_byte_def)
  show "\<exists>k'. pop_byte k = (Some b, k') \<and> serial_ok k' \<and> received k' = bs" if "received k = b # bs"
  proof (cases "sr_head k = sr_tail k")
    case True
    then show ?thesis using that by (simp add: received_def ring_list_def ring_length_def)
  next
    case False
    have "0 < SERIAL_BUF_SIZE" by (simp add: SERIAL_BUF_SIZE_def)
    then show ?thesis using False ring_get [OF h t False] that ok by (simp add: pop_byte_def received_def serial_ok_def)
  qed
qed

section \<open>Terminal sequences\<close>

text \<open>What a terminal sends for a key, and the keys it can send.\<close>

definition control_chars :: "char list" where
  "control_chars = map char_of [0x03, 0x01, 0x05, 0x0B, 0x0C, 0x15, 0x1A, 0x04, 0x0F, 0x18, 0x16, 0x19, 0x17 :: nat]"

fun terminal_bytes :: "key \<Rightarrow> bytes" where
  "terminal_bytes (KChar c) = [of_char c]"
| "terminal_bytes KEnter = [0x0D]"
| "terminal_bytes KBackspace = [0x7F]"
| "terminal_bytes KTab = [0x09]"
| "terminal_bytes KUp = [0x1B, 0x5B, 0x41]"
| "terminal_bytes KDown = [0x1B, 0x5B, 0x42]"
| "terminal_bytes KRight = [0x1B, 0x5B, 0x43]"
| "terminal_bytes KLeft = [0x1B, 0x5B, 0x44]"
| "terminal_bytes KHome = [0x1B, 0x5B, 0x48]"
| "terminal_bytes KEnd = [0x1B, 0x5B, 0x46]"
| "terminal_bytes KInsert = [0x1B, 0x5B, 0x32, 0x7E]"
| "terminal_bytes KDelete = [0x1B, 0x5B, 0x33, 0x7E]"
| "terminal_bytes KPageUp = [0x1B, 0x5B, 0x35, 0x7E]"
| "terminal_bytes KPageDown = [0x1B, 0x5B, 0x36, 0x7E]"
| "terminal_bytes _ = []"

fun terminal_key :: "key \<Rightarrow> bool" where
  "terminal_key (KChar c) \<longleftrightarrow> 0x20 \<le> code c \<and> code c \<le> (0x7E :: nat) \<or> c \<in> set control_chars"
| "terminal_key KWordLeft = False"
| "terminal_key KWordRight = False"
| "terminal_key KUnknown = False"
| "terminal_key _ = True"

lemma unat_of_char [simp]: "unat (of_char c :: u8) = code c"
proof -
  have "code c < 256" by simp
  then show ?thesis using unat_of_nat [of "code c", where 'a = 8] by (simp only: of_nat_of_char) simp
qed

lemma plain_terminal:
  assumes "terminal_key (KChar c)"
  shows "decode_plain_byte (of_char c) = Some (KChar c)" "(of_char c :: u8) \<noteq> 0x1B"
proof -
  have n: "(of_char c :: u8) = k \<longleftrightarrow> code c = unat k" for k by (simp add: word_unat_eq_iff)
  have "code c \<in> {0x03, 0x01, 0x05, 0x0B, 0x0C, 0x15, 0x1A, 0x04, 0x0F, 0x18, 0x16, 0x19, 0x17} \<or> 0x20 \<le> code c \<and> code c \<le> (0x7E :: nat)"
    using assms by (auto simp: control_chars_def)
  then show "decode_plain_byte (of_char c) = Some (KChar c)" "(of_char c :: u8) \<noteq> 0x1B"
    by (auto simp: decode_plain_byte_def n word_le_nat_alt)
qed

text \<open>\<open>feed s bs e n\<close>: the line holds \<open>bs\<close>, and the decoder is in state \<open>e\<close> with the number \<open>n\<close>.\<close>

definition feed :: "serial \<Rightarrow> bytes \<Rightarrow> nat \<Rightarrow> nat \<Rightarrow> bool" where
  "feed s bs e n \<longleftrightarrow> serial_ok s \<and> received s = bs \<and> sr_escape s = e \<and> sr_number s = n"

definition decoded :: "u8 \<Rightarrow> nat \<Rightarrow> nat \<Rightarrow> key option \<times> nat \<times> nat" where
  "decoded b e n =
     (case decode_serial_byte b \<lparr>sr_buf = [], sr_head = 0, sr_tail = 0, sr_present = False, sr_escape = e, sr_number = n\<rparr> of
        (r, s) \<Rightarrow> (r, sr_escape s, sr_number s))"

lemma decode_serial_byte_eq:
  "decode_serial_byte b s = (case decoded b (sr_escape s) (sr_number s) of (r, e, n) \<Rightarrow> (r, s\<lparr>sr_escape := e, sr_number := n\<rparr>))"
proof (cases "map_of csi_keys b")
  case None
  then show ?thesis by (cases s) (simp add: decoded_def decode_serial_byte_def Let_def)
next
  case (Some key)
  then show ?thesis by (cases s) (simp add: decoded_def decode_serial_byte_def Let_def)
qed

lemma decode_serial_decoded:
  assumes "decode_serial_byte b s = (r, s1)"
  shows "decoded b (sr_escape s) (sr_number s) = (r, sr_escape s1, sr_number s1)" "sr_buf s1 = sr_buf s"
    "sr_head s1 = sr_head s" "sr_tail s1 = sr_tail s"
  using assms by (auto simp: decode_serial_byte_eq split: prod.splits)

lemma poll_byte:
  assumes "feed s (b # bs) e n" "decoded b e n = (r, e', n')"
  shows "\<exists>s1. feed s1 bs e' n' \<and> serial_poll_loop (Suc m) ports s =
    (case r of Some key \<Rightarrow> (Some key, s1) | None \<Rightarrow> serial_poll_loop m ports s1)"
proof -
  have f: "serial_ok s" "received s = b # bs" "sr_escape s = e" "sr_number s = n" using assms(1) by (simp_all add: feed_def)
  obtain s' where p: "pop_byte s = (Some b, s')" "serial_ok s'" "received s' = bs"
    using serial_line.get_first [OF f(1,2)] by auto
  then have e: "sr_escape s' = e" "sr_number s' = n" using f by (auto simp: pop_byte_def split: if_splits)
  obtain r' s1 where d: "decode_serial_byte b s' = (r', s1)" by force
  note D = decode_serial_decoded [OF d]
  have "r' = r" "sr_escape s1 = e'" "sr_number s1 = n'" using D(1) assms(2) e by simp_all
  then have "feed s1 bs e' n'" using p D(2-4) by (simp add: feed_def serial_ok_def received_def)
  then show ?thesis using p(1) d \<open>r' = r\<close> by (auto simp: try_read_byte_def split: option.splits)
qed

lemma poll_prefix:
  assumes "feed s (0x1B # 0x5B # bs) 0 n"
  shows "\<exists>s1. feed s1 bs 2 n \<and> serial_poll_loop (Suc (Suc m)) ports s = serial_poll_loop m ports s1"
proof -
  have d: "decoded 0x1B 0 n = (None, 1, n)" "decoded 0x5B 1 n = (None, 2, n)"
    by (simp_all add: decoded_def decode_serial_byte_def)
  obtain s1 where 1: "feed s1 (0x5B # bs) 1 n" "serial_poll_loop (Suc (Suc m)) ports s = serial_poll_loop (Suc m) ports s1"
    using poll_byte [OF assms d(1), of "Suc m" ports] by auto
  then show ?thesis using poll_byte [OF 1(1) d(2), of m ports] by auto
qed

lemma poll_csi:
  assumes "feed s (0x1B # 0x5B # b # bs) 0 n" "map_of csi_keys b = Some key"
  shows "\<exists>s1. feed s1 bs 0 n \<and> serial_poll_loop (Suc (Suc (Suc m))) ports s = (Some key, s1)"
proof -
  have d: "decoded b 2 n = (Some key, 0, n)" using assms(2) by (simp add: decoded_def decode_serial_byte_def)
  obtain s1 where 1: "feed s1 (b # bs) 2 n" "serial_poll_loop (Suc (Suc (Suc m))) ports s = serial_poll_loop (Suc m) ports s1"
    using poll_prefix [OF assms(1), of "Suc m" ports] by auto
  then show ?thesis using poll_byte [OF 1(1) d, of m ports] by auto
qed

lemma poll_tilde:
  assumes "feed s (0x1B # 0x5B # b # 0x7E # bs) 0 n" "map_of tilde_keys (unat (b - 0x30)) = Some key" "0x31 \<le> b" "b \<le> 0x38"
  shows "\<exists>s1. feed s1 bs 0 (unat (b - 0x30)) \<and> serial_poll_loop (Suc (Suc (Suc (Suc m)))) ports s = (Some key, s1)"
proof -
  have "map_of csi_keys b = None" using assms(3,4) by (auto simp: csi_keys_def)
  then have d: "decoded b 2 n = (None, 4, unat (b - 0x30))" "decoded 0x7E 4 (unat (b - 0x30)) = (Some key, 0, unat (b - 0x30))"
    using assms(2-4) by (simp_all add: decoded_def decode_serial_byte_def)
  obtain s1 where 1: "feed s1 (b # 0x7E # bs) 2 n"
    "serial_poll_loop (Suc (Suc (Suc (Suc m)))) ports s = serial_poll_loop (Suc (Suc m)) ports s1"
    using poll_prefix [OF assms(1), of "Suc (Suc m)" ports] by auto
  obtain s2 where 2: "feed s2 (0x7E # bs) 4 (unat (b - 0x30))"
    "serial_poll_loop (Suc (Suc m)) ports s1 = serial_poll_loop (Suc m) ports s2"
    using poll_byte [OF 1(1) d(1), of "Suc m" ports] by auto
  show ?thesis using poll_byte [OF 2(1) d(2), of m ports] 1(2) 2(2) by auto
qed

lemma poll_terminal:
  assumes "feed s (terminal_bytes key @ bs) 0 n" "terminal_key key"
  shows "\<exists>s1 n'. feed s1 bs 0 n' \<and> serial_poll_key True ports s = (Some key, s1)"
proof -
  have B: "RX_POLL_BUDGET = Suc (Suc (Suc (Suc 60)))" by (simp add: RX_POLL_BUDGET_def)
  have one: ?thesis if "terminal_bytes key = [b]" "decoded b 0 n = (Some key, 0, n)" for b
    using poll_byte [of s b bs 0 n "Some key" 0 n "Suc (Suc (Suc 60))" ports] assms(1) that
    by (auto simp: serial_poll_key_def B simp del: serial_poll_loop.simps)
  have csi: ?thesis if "terminal_bytes key = [0x1B, 0x5B, b]" "map_of csi_keys b = Some key" for b
    using poll_csi [of s b bs n key "Suc 60" ports] assms(1) that
    by (auto simp: serial_poll_key_def B simp del: serial_poll_loop.simps)
  have tilde: ?thesis if "terminal_bytes key = [0x1B, 0x5B, b, 0x7E]" "map_of tilde_keys (unat (b - 0x30)) = Some key"
    "0x31 \<le> b" "b \<le> 0x38" for b
    using poll_tilde [of s b bs n key 60 ports] assms(1) that
    by (auto simp: serial_poll_key_def B simp del: serial_poll_loop.simps)
  show ?thesis
  proof (cases key)
    case (KChar c)
    then show ?thesis
      using plain_terminal [of c] assms(2) by (intro one [of "of_char c"]) (simp_all add: decoded_def decode_serial_byte_def)
  next
    case KEnter
    then show ?thesis by (intro one [of "0x0D"]) (simp_all add: decoded_def decode_serial_byte_def decode_plain_byte_def)
  next
    case KBackspace
    then show ?thesis by (intro one [of "0x7F"]) (simp_all add: decoded_def decode_serial_byte_def decode_plain_byte_def)
  next
    case KTab
    then show ?thesis by (intro one [of "0x09"]) (simp_all add: decoded_def decode_serial_byte_def decode_plain_byte_def)
  next
    case KUp
    then show ?thesis by (intro csi [of "0x41"]) (simp_all add: csi_keys_def)
  next
    case KDown
    then show ?thesis by (intro csi [of "0x42"]) (simp_all add: csi_keys_def)
  next
    case KRight
    then show ?thesis by (intro csi [of "0x43"]) (simp_all add: csi_keys_def)
  next
    case KLeft
    then show ?thesis by (intro csi [of "0x44"]) (simp_all add: csi_keys_def)
  next
    case KHome
    then show ?thesis by (intro csi [of "0x48"]) (simp_all add: csi_keys_def)
  next
    case KEnd
    then show ?thesis by (intro csi [of "0x46"]) (simp_all add: csi_keys_def)
  next
    case KInsert
    then show ?thesis by (intro tilde [of "0x32"]) (simp_all add: tilde_keys_def)
  next
    case KDelete
    then show ?thesis by (intro tilde [of "0x33"]) (simp_all add: tilde_keys_def)
  next
    case KPageUp
    then show ?thesis by (intro tilde [of "0x35"]) (simp_all add: tilde_keys_def)
  next
    case KPageDown
    then show ?thesis by (intro tilde [of "0x36"]) (simp_all add: tilde_keys_def)
  qed (use assms(2) in simp_all)
qed

text \<open>\<open>n\<close> keys from the line, one poll each.\<close>

primrec poll_serial :: "nat \<Rightarrow> serial \<Rightarrow> key list \<times> serial" where
  "poll_serial 0 s = ([], s)"
| "poll_serial (Suc n) s =
     (case serial_poll_key True [] s of
        (None, s1) \<Rightarrow> ([], s1)
      | (Some key, s1) \<Rightarrow> (case poll_serial n s1 of (ks, s2) \<Rightarrow> (key # ks, s2)))"

lemma poll_terminals:
  "feed s (concat (map terminal_bytes ks)) 0 n \<Longrightarrow> list_all terminal_key ks \<Longrightarrow>
    \<exists>s1 n'. poll_serial (length ks) s = (ks, s1) \<and> feed s1 [] 0 n'"
proof (induction ks arbitrary: s n)
  case (Cons k ks)
  then obtain s1 n1 where 1: "feed s1 (concat (map terminal_bytes ks)) 0 n1" "serial_poll_key True [] s = (Some k, s1)"
    using poll_terminal [of s k _ n "[]"] by fastforce
  then show ?case using Cons.IH [OF 1(1)] Cons.prems(2) by auto
qed auto

section \<open>Properties\<close>

text \<open>
  The serial terminal. The bytes a terminal sends for any sequence of keys (characters, the
  control characters of the editor, arrows, Home and End, the keys with a number and a tilde), received into
  the ring of the line as far as they fit, are read back as exactly these keys, one key for each poll, and
  then the line has nothing more.
\<close>

theorem serial_roundtrip:
  assumes "serial_ok s" "received s = []" "sr_escape s = 0" "list_all terminal_key ks"
    "length (concat (map terminal_bytes ks)) < SERIAL_BUF_SIZE"
  shows "\<exists>s1 s2. poll_serial (length ks) (fold push_byte (concat (map terminal_bytes ks)) s) = (ks, s1) \<and>
    serial_poll_key True [] s1 = (None, s2)"
proof -
  let ?bs = "concat (map terminal_bytes ks)"
  have "sr_escape (fold push_byte bs s) = sr_escape s" for bs s
    by (induction bs arbitrary: s) (simp_all add: push_byte_def Let_def)
  then have "feed (fold push_byte ?bs s) ?bs 0 (sr_number (fold push_byte ?bs s))"
    using serial_line.puts [OF assms(1), of ?bs] assms(2,3,5) by (simp add: feed_def)
  from poll_terminals [OF this assms(4)] obtain s1 n' where
    1: "poll_serial (length ks) (fold push_byte ?bs s) = (ks, s1)" "feed s1 [] 0 n'" by auto
  then have "try_read_byte [] s1 = (None, [], s1)"
    using serial_line.get_empty [of s1] by (auto simp: feed_def try_read_byte_def)
  then show ?thesis using 1(1) by (simp add: serial_poll_key_def RX_POLL_BUDGET_def numeral_eq_Suc)
qed

theorem serial_roundtrip_witness:
  "\<exists>s1 s2. poll_serial 3 (fold push_byte [0x6C, 0x1B, 0x5B, 0x33, 0x7E, 0x0D]
      \<lparr>sr_buf = replicate 256 0, sr_head = 0, sr_tail = 0, sr_present = True, sr_escape = 0, sr_number = 0\<rparr>) =
        ([KChar (CHR ''l''), KDelete, KEnter], s1) \<and> serial_poll_key True [] s1 = (None, s2)"
  using serial_roundtrip [of "\<lparr>sr_buf = replicate 256 0, sr_head = 0, sr_tail = 0, sr_present = True, sr_escape = 0, sr_number = 0\<rparr>"
      "[KChar (CHR ''l''), KDelete, KEnter]"]
  by (simp add: serial_ok_def received_def SERIAL_BUF_SIZE_def ring_list_def ring_length_def numeral_3_eq_3
      del: poll_serial.simps fold_simps)

text \<open>What happens while a long command runs: interrupts of the keyboard and of the line, and polls of the command.\<close>

datatype happening = Interrupt "(u8 \<times> u8) list" | SerialInterrupt "(u8 \<times> u8) list" | Poll answers

fun happen :: "bool \<Rightarrow> happening \<Rightarrow> console_input \<Rightarrow> console_input" where
  "happen debug (Interrupt ports) st = st\<lparr>ci_input := keyboard_interrupt ports (ci_input st)\<rparr>"
| "happen debug (SerialInterrupt ports) st = st\<lparr>ci_serial := serial_interrupt ports (ci_serial st)\<rparr>"
| "happen debug (Poll a) st = snd (poll_cancel debug a st)"

text \<open>What each poll takes from the serial line, and what it does to the keys typed ahead.\<close>

fun serial_keys :: "bool \<Rightarrow> happening list \<Rightarrow> serial \<Rightarrow> key option list" where
  "serial_keys debug [] s = []"
| "serial_keys debug (Interrupt ports # hs) s = serial_keys debug hs s"
| "serial_keys debug (SerialInterrupt ports # hs) s = serial_keys debug hs (serial_interrupt ports s)"
| "serial_keys debug (Poll a # hs) s =
     (case serial_poll_key debug (an_serial a) s of (r, s1) \<Rightarrow> r # serial_keys debug hs s1)"

definition after_poll :: "key option \<Rightarrow> key list \<Rightarrow> key list" where
  "after_poll r ks =
     (case r of
        None \<Rightarrow> rotate1 ks
      | Some key \<Rightarrow> if cancels key \<or> TYPEAHEAD_MAX \<le> length ks then ks else ks @ [key])"

text \<open>Queues of keys typed ahead that no poll can empty.\<close>

definition blocking :: "key list \<Rightarrow> bool" where
  "blocking ks \<longleftrightarrow> ks \<noteq> [] \<and> length ks \<le> TYPEAHEAD_MAX \<and> \<not> list_ex cancels ks"

lemma blocking_after_poll: "blocking ks \<Longrightarrow> blocking (after_poll r ks)"
  by (auto simp: blocking_def after_poll_def list_ex_iff split: option.split)

lemma irq_loop_cancel: "kb_cancel (irq_loop n ports k) = kb_cancel k"
  by (induction n ports k rule: irq_loop.induct) (simp_all add: push_scancode_def Let_def)

lemma poll_blocked:
  assumes "blocking (in_typeahead (ci_input st))" "serial_poll_key debug (an_serial a) (ci_serial st) = (r, s)"
  shows "ci_serial (snd (poll_cancel debug a st)) = s"
    "in_typeahead (ci_input (snd (poll_cancel debug a st))) = after_poll r (in_typeahead (ci_input st))"
    "is_cancelled (ci_input (snd (poll_cancel debug a st))) \<longleftrightarrow>
       is_cancelled (ci_input st) \<or> (\<exists>key. r = Some key \<and> cancels key)"
proof -
  obtain key ks where k: "in_typeahead (ci_input st) = key # ks" using assms(1) by (cases "in_typeahead (ci_input st)") (auto simp: blocking_def)
  then have "\<not> cancels key" "length ks < TYPEAHEAD_MAX" using assms(1) by (auto simp: blocking_def)
  then show "ci_serial (snd (poll_cancel debug a st)) = s"
    "in_typeahead (ci_input (snd (poll_cancel debug a st))) = after_poll r (in_typeahead (ci_input st))"
    "is_cancelled (ci_input (snd (poll_cancel debug a st))) \<longleftrightarrow>
       is_cancelled (ci_input st) \<or> (\<exists>key. r = Some key \<and> cancels key)"
    using assms(2) k
    by (auto simp: poll_cancel_def console_poll_key_def keyboard_poll_key_def poll_ps2_def pop_back_def push_back_def
        cancels_def is_cancelled_def request_cancel_def after_poll_def Let_def split: option.split)
qed

text \<open>
  C7: keys typed ahead disable Ctrl+C of the keyboards. While one to 64 keys of which none is a cancellation wait in the
  queue of keys typed ahead (it holds at most 64), a poll of a running command reads the serial line, and otherwise only that queue: it
  takes the first key and puts it behind the others. So over any run of keyboard and serial interrupts and of
  polls, in both builds, whatever the keyboard controller and the USB keyboards deliver (Ctrl+C too), the cancel
  flag is raised exactly when a poll took Ctrl+C or Ctrl+Z from the serial line, which only the debug build
  reads; and the queue is what the keys taken from the line make of it: rotated by a poll that took none,
  extended by another key while there is room, unchanged by a cancellation.
\<close>

theorem typeahead_blocks_cancel:
  assumes "blocking (in_typeahead (ci_input st))"
  shows "(is_cancelled (ci_input (fold (happen debug) hs st)) \<longleftrightarrow>
      is_cancelled (ci_input st) \<or> (\<exists>key. Some key \<in> set (serial_keys debug hs (ci_serial st)) \<and> cancels key)) \<and>
    in_typeahead (ci_input (fold (happen debug) hs st)) =
      fold after_poll (serial_keys debug hs (ci_serial st)) (in_typeahead (ci_input st))"
  using assms
proof (induction hs arbitrary: st)
  case (Cons h hs)
  show ?case
  proof (cases h)
    case (Interrupt ports)
    have "in_typeahead (ci_input (happen debug h st)) = in_typeahead (ci_input st)"
      "is_cancelled (ci_input (happen debug h st)) = is_cancelled (ci_input st)"
      using Interrupt by (simp_all add: keyboard_interrupt_def is_cancelled_def irq_loop_cancel)
    then show ?thesis using Cons.IH [of "happen debug h st"] Cons.prems Interrupt by simp
  next
    case (SerialInterrupt ports)
    then show ?thesis using Cons.IH [of "happen debug h st"] Cons.prems by simp
  next
    case (Poll a)
    obtain r s where r: "serial_poll_key debug (an_serial a) (ci_serial st) = (r, s)" by fastforce
    note p = poll_blocked [OF Cons.prems r]
    have "blocking (in_typeahead (ci_input (happen debug h st)))"
      using blocking_after_poll [OF Cons.prems, of r] p(2) Poll by simp
    from Cons.IH [OF this] show ?thesis using p Poll r by auto
  qed
qed simp

text \<open>A line that is there, with nothing in its ring.\<close>

definition idle_serial :: serial where
  "idle_serial = \<lparr>sr_buf = [], sr_head = 0, sr_tail = 0, sr_present = True, sr_escape = 0, sr_number = 0\<rparr>"

lemma idle_serial_polls:
  "serial_poll_key True [] idle_serial = (None, idle_serial)"
  "serial_poll_key True [(1, 3)] idle_serial = (Some (KChar (CHR 0x03)), idle_serial)"
proof -
  have b: "RX_POLL_BUDGET = Suc 63" by (simp add: RX_POLL_BUDGET_def)
  have "try_read_byte [] idle_serial = (None, [], idle_serial)" "try_read_byte [(1, 3)] idle_serial = (Some 3, [], idle_serial)"
    by (simp_all add: try_read_byte_def pop_byte_def idle_serial_def)
  moreover have "char_of (3 :: nat) = CHR 0x03" by code_simp
  then have "decode_serial_byte 3 idle_serial = (Some (KChar (CHR 0x03)), idle_serial)"
    by (simp add: decode_serial_byte_def decode_plain_byte_def idle_serial_def)
  ultimately show "serial_poll_key True [] idle_serial = (None, idle_serial)"
    "serial_poll_key True [(1, 3)] idle_serial = (Some (KChar (CHR 0x03)), idle_serial)"
    by (simp_all only: serial_poll_key_def b if_True serial_poll_loop.simps prod.case option.case)
qed

theorem typeahead_blocks_cancel_witness:
  "let st = \<lparr>ci_serial = idle_serial,
        ci_input = \<lparr>in_kb = keyboard_new\<lparr>kb_present := True\<rparr>, in_hid = [], in_typeahead = map KChar ''ls''\<rparr>\<rparr>;
      quiet = \<lparr>an_serial = [], an_ps2 = [(0x01, 0x1D), (0x01, 0x2E)], an_usb = [KChar (CHR 0x03)]\<rparr>;
      ctrl_c = \<lparr>an_serial = [(0x01, 0x03)], an_ps2 = [], an_usb = []\<rparr>;
      st1 = fold (happen True) [Interrupt [(0x01, 0x1D), (0x01, 0x2E)], Poll quiet, Poll quiet, Poll quiet] st;
      st2 = fold (happen True) [Interrupt [(0x01, 0x1D), (0x01, 0x2E)], Poll quiet, Poll ctrl_c] st
   in \<not> is_cancelled (ci_input st1) \<and> in_typeahead (ci_input st1) = map KChar ''sl'' \<and>
      is_cancelled (ci_input st2) \<and> in_typeahead (ci_input st2) = map KChar ''sl''"
proof -
  let ?st = "\<lparr>ci_serial = idle_serial,
        ci_input = \<lparr>in_kb = keyboard_new\<lparr>kb_present := True\<rparr>, in_hid = [], in_typeahead = map KChar ''ls''\<rparr>\<rparr>"
  have b: "blocking (in_typeahead (ci_input ?st))" by (simp add: blocking_def cancels_def TYPEAHEAD_MAX_def)
  have f: "fold after_poll [None, None, None] [KChar (CHR ''l''), KChar (CHR ''s'')] = [KChar (CHR ''s''), KChar (CHR ''l'')]"
    "fold after_poll [None, Some (KChar (CHR 0x03))] [KChar (CHR ''l''), KChar (CHR ''s'')] = [KChar (CHR ''s''), KChar (CHR ''l'')]"
    by (simp_all add: after_poll_def cancels_def)
  have i: "\<not> is_cancelled (ci_input ?st)" by (simp add: is_cancelled_def keyboard_new_def)
  show ?thesis
    unfolding Let_def
    using typeahead_blocks_cancel [OF b, of True "[Interrupt [(0x01, 0x1D), (0x01, 0x2E)],
        Poll \<lparr>an_serial = [], an_ps2 = [(0x01, 0x1D), (0x01, 0x2E)], an_usb = [KChar (CHR 0x03)]\<rparr>,
        Poll \<lparr>an_serial = [], an_ps2 = [(0x01, 0x1D), (0x01, 0x2E)], an_usb = [KChar (CHR 0x03)]\<rparr>,
        Poll \<lparr>an_serial = [], an_ps2 = [(0x01, 0x1D), (0x01, 0x2E)], an_usb = [KChar (CHR 0x03)]\<rparr>]"]
      typeahead_blocks_cancel [OF b, of True "[Interrupt [(0x01, 0x1D), (0x01, 0x2E)],
        Poll \<lparr>an_serial = [], an_ps2 = [(0x01, 0x1D), (0x01, 0x2E)], an_usb = [KChar (CHR 0x03)]\<rparr>,
        Poll \<lparr>an_serial = [(0x01, 0x03)], an_ps2 = [], an_usb = []\<rparr>]"] i
    by (simp add: idle_serial_polls f cancels_def del: fold_simps fold.simps happen.simps)
qed

end
