(* ===== verification/LineEditor.thy ===== *)
theory LineEditor
  imports Input Path
begin

text \<open>
  The line editor of the shell (\<open>kernel/src/shell/line_editor.rs\<close>): the line in its array, the history, the
  completion of commands and paths, and what each key does to them. A string is its UTF-8 bytes, one
  \<open>char\<close> each. The names of commands, the current directory and the listing of directories are an argument.
  Where the line is drawn on the screen has no influence on what is edited and is left out. (Drawing slices
  the 128 bytes of the prompt buffer by \<open>le_prompt_len\<close>, which panics above 128; the caller in \<open>lib.rs\<close> passes
  at most 128.)
\<close>

section \<open>State\<close>

definition MAX_LINE :: nat where "MAX_LINE = 256"
definition HISTORY_SIZE :: nat where "HISTORY_SIZE = 16"

record editor =
  le_buffer :: string
  le_len :: nat
  le_cursor :: nat
  le_history :: "string list"
  le_lens :: "nat list"
  le_count :: nat
  le_idx :: nat
  le_prompt_buf :: string
  le_prompt_len :: nat
  le_tab_index :: int
  le_tab_matches :: nat

definition editor_new :: editor where
  "editor_new = \<lparr>le_buffer = replicate MAX_LINE (CHR 0x00), le_len = 0, le_cursor = 0,
     le_history = replicate HISTORY_SIZE (replicate MAX_LINE (CHR 0x00)), le_lens = replicate HISTORY_SIZE 0,
     le_count = 0, le_idx = 0, le_prompt_buf = replicate 128 (CHR 0x00), le_prompt_len = 0,
     le_tab_index = -1, le_tab_matches = 0\<rparr>"

definition line_str :: "editor \<Rightarrow> string" where
  "line_str ed = (let s = take (le_len ed) (le_buffer ed) in if utf8_ok s then s else [])"

definition set_prompt :: "string \<Rightarrow> editor \<Rightarrow> editor" where
  "set_prompt prompt ed =
     (let n = min (length prompt) (length (le_prompt_buf ed))
      in ed\<lparr>le_prompt_buf := take n prompt @ drop n (le_prompt_buf ed), le_prompt_len := n\<rparr>)"

section \<open>History\<close>

text \<open>\<open>row[..n].copy_from_slice(&src[..n])\<close>.\<close>

definition copy_front :: "nat \<Rightarrow> 'a list \<Rightarrow> 'a list \<Rightarrow> 'a list" where
  "copy_front n src row = take n src @ drop n row"

definition save_to_history :: "editor \<Rightarrow> editor" where
  "save_to_history ed =
     (if le_len ed = 0 then ed
      else if le_count ed < HISTORY_SIZE then
        ed\<lparr>le_history := (le_history ed)[le_count ed := copy_front (le_len ed) (le_buffer ed) (le_history ed ! le_count ed)],
           le_lens := (le_lens ed)[le_count ed := le_len ed],
           le_count := le_count ed + 1, le_idx := le_count ed + 1\<rparr>
      else
        let hist = fold (\<lambda>i h. h[i := h ! (i + 1)]) [0..<HISTORY_SIZE - 1] (le_history ed);
            lens = fold (\<lambda>i h. h[i := h ! (i + 1)]) [0..<HISTORY_SIZE - 1] (le_lens ed)
        in ed\<lparr>le_history := hist[HISTORY_SIZE - 1 := copy_front (le_len ed) (le_buffer ed) (hist ! (HISTORY_SIZE - 1))],
              le_lens := lens[HISTORY_SIZE - 1 := le_len ed], le_idx := le_count ed\<rparr>)"

definition load_from_history :: "nat \<Rightarrow> editor \<Rightarrow> editor" where
  "load_from_history i ed =
     (let n = le_lens ed ! i
      in ed\<lparr>le_buffer := copy_front n (le_history ed ! i) (le_buffer ed), le_len := n, le_cursor := n\<rparr>)"

definition history_entry :: "nat \<Rightarrow> editor \<Rightarrow> string option" where
  "history_entry i ed =
     (if le_count ed \<le> i then None
      else let s = take (le_lens ed ! i) (le_history ed ! i) in if utf8_ok s then Some s else None)"

section \<open>Completion\<close>

record tab_env =
  te_commands :: "string list"
  te_current_dir :: string
  te_list_dir :: "string \<Rightarrow> (string \<times> bool) list"

text \<open>\<open>str::trim\<close>: how many bytes of white space (of Unicode) the text starts with.\<close>

fun white_prefix :: "string \<Rightarrow> nat" where
  "white_prefix s =
     (case map code s of
        a # t \<Rightarrow>
          if a \<in> {9, 10, 11, 12, 13, 32 :: nat} then 1
          else (case t of
             b # t' \<Rightarrow>
               if a = 0xC2 \<and> b \<in> {0x85, 0xA0} then 2
               else (case t' of
                  c # _ \<Rightarrow>
                    if a = 0xE1 \<and> b = 0x9A \<and> c = 0x80 \<or>
                       a = 0xE2 \<and> b = 0x80 \<and> (0x80 \<le> c \<and> c \<le> 0x8A \<or> c \<in> {0xA8, 0xA9, 0xAF}) \<or>
                       a = 0xE2 \<and> b = 0x81 \<and> c = 0x9F \<or> a = 0xE3 \<and> b = 0x80 \<and> c = 0x80
                    then 3 else 0
                | [] \<Rightarrow> 0)
           | [] \<Rightarrow> 0)
      | [] \<Rightarrow> 0)"

declare white_prefix.simps [simp del]

function trim_start :: "string \<Rightarrow> string" where
  "trim_start s = (if white_prefix s = 0 \<or> s = [] then s else trim_start (drop (white_prefix s) s))"
  by pat_completeness auto
termination by (relation "measure length") auto

declare trim_start.simps [simp del]

text \<open>At the end: the shortest rest after which only white space follows.\<close>

definition trim :: "string \<Rightarrow> string" where
  "trim s =
     (let t = trim_start s
      in case find (\<lambda>n. utf8_ok (take n t) \<and> trim_start (drop n t) = []) [0..<length t] of
           Some n \<Rightarrow> take n t | None \<Rightarrow> t)"

definition append_str :: "string \<Rightarrow> editor \<Rightarrow> editor" where
  "append_str s ed =
     fold (\<lambda>b ed. if le_len ed < MAX_LINE - 1
                  then ed\<lparr>le_buffer := (le_buffer ed)[le_len ed := b], le_len := le_len ed + 1,
                          le_cursor := le_cursor ed + 1\<rparr>
                  else ed) s ed"

definition next_match :: "nat \<Rightarrow> editor \<Rightarrow> editor" where
  "next_match n ed =
     ed\<lparr>le_tab_matches := n,
        le_tab_index := (if le_tab_index ed < 0 \<or> int n \<le> le_tab_index ed then 0
                         else (le_tab_index ed + 1) mod int n)\<rparr>"

text \<open>The lines that \<open>complete_path\<close> can put in place of \<open>line\<close>: the text before the last word and the matches.\<close>

definition path_matches :: "tab_env \<Rightarrow> string \<Rightarrow> string \<times> string list" where
  "path_matches env line =
     (let split = (case rfind (CHR '' '') line of Some i \<Rightarrow> i + 1 | None \<Rightarrow> 0);
          before = take split line;
          word = drop split line;
          current_dir = te_current_dir env;
          (search_dir, display_prefix, name_prefix) =
            (case rfind slash word of
               Some i \<Rightarrow>
                 let dir_part = take (i + 1) word; name = drop (i + 1) word;
                     search = (if prefix [slash] dir_part then dir_part
                               else if current_dir = [slash] then slash # dir_part
                               else current_dir @ slash # dir_part)
                 in (search, dir_part, name)
             | None \<Rightarrow> (current_dir, [], word))
      in (before,
          if word = [] then []
          else map (\<lambda>(name, is_dir). display_prefix @ name @ (if is_dir then [slash] else []))
                 (filter (\<lambda>(name, _). prefix name_prefix name) (te_list_dir env search_dir))))"

definition complete_path :: "tab_env \<Rightarrow> editor \<Rightarrow> editor" where
  "complete_path env ed =
     (let line = take (le_len ed) (le_buffer ed)
      in if \<not> utf8_ok line then ed
         else
           let (before, matches) = path_matches env line
           in if matches = [] then ed
              else let ed1 = next_match (length matches) ed
                   in append_str (matches ! nat (le_tab_index ed1))
                        (append_str before (ed1\<lparr>le_len := 0, le_cursor := 0\<rparr>)))"

definition tab_complete :: "tab_env \<Rightarrow> editor \<Rightarrow> editor" where
  "tab_complete env ed =
     (let line = take (le_len ed) (le_buffer ed)
      in if \<not> utf8_ok line then ed
         else if CHR '' '' \<in> set line \<or> prefix [slash] line then complete_path env ed
         else
           let trimmed = trim line
           in if trimmed = [] then ed
              else
                let matches = take 32 (filter (prefix trimmed) (te_commands env))
                in if matches = [] then ed
                   else let ed1 = next_match (length matches) ed
                        in append_str '' '' (append_str (matches ! nat (le_tab_index ed1))
                             (ed1\<lparr>le_len := 0, le_cursor := 0\<rparr>)))"

section \<open>Keys\<close>

text \<open>The loops over words: to the left from \<open>c\<close>, and \<open>n\<close> places to the right of \<open>c\<close>.\<close>

primrec skip_left :: "(char \<Rightarrow> bool) \<Rightarrow> string \<Rightarrow> nat \<Rightarrow> nat" where
  "skip_left P b 0 = 0"
| "skip_left P b (Suc c) = (if P (b ! c) then skip_left P b c else Suc c)"

primrec skip_right :: "(char \<Rightarrow> bool) \<Rightarrow> string \<Rightarrow> nat \<Rightarrow> nat \<Rightarrow> nat" where
  "skip_right P b c 0 = c"
| "skip_right P b c (Suc n) = (if P (b ! c) then skip_right P b (Suc c) n else c)"

abbreviation blank :: "char \<Rightarrow> bool" where "blank c \<equiv> c = CHR '' ''"

definition move_down :: "nat \<Rightarrow> nat \<Rightarrow> nat \<Rightarrow> 'a list \<Rightarrow> 'a list" where
  "move_down d a z b = fold (\<lambda>i b. b[i - d := b ! i]) [a..<z] b"

definition move_up :: "nat \<Rightarrow> nat \<Rightarrow> 'a list \<Rightarrow> 'a list" where
  "move_up a z b = fold (\<lambda>i b. b[i + 1 := b ! i]) (rev [a..<z]) b"

datatype key_outcome = Again | Line string | Cancelled

definition key_up :: "editor \<Rightarrow> editor" where
  "key_up ed =
     (if 0 < le_count ed \<and> 0 < le_idx ed
      then load_from_history (le_idx ed - 1) (ed\<lparr>le_idx := le_idx ed - 1\<rparr>) else ed)"

definition key_down :: "editor \<Rightarrow> editor" where
  "key_down ed =
     (if le_idx ed < le_count ed then
        let ed1 = ed\<lparr>le_idx := le_idx ed + 1\<rparr>
        in if le_idx ed1 = le_count ed1 then ed1\<lparr>le_len := 0, le_cursor := 0\<rparr>
           else load_from_history (le_idx ed1) ed1
      else ed)"

definition key_char :: "char \<Rightarrow> editor \<Rightarrow> key_outcome \<times> editor" where
  "key_char ch ed0 =
     (let ed = (if ch \<in> {CHR 0x01, CHR 0x05, CHR 0x0B, CHR 0x0C, CHR 0x15, CHR 0x1A, CHR 0x03} then ed0
                else ed0\<lparr>le_tab_index := -1\<rparr>)
      in if ch = CHR 0x01 then (Again, ed\<lparr>le_cursor := 0\<rparr>)
         else if ch = CHR 0x05 then (Again, ed\<lparr>le_cursor := le_len ed\<rparr>)
         else if ch = CHR 0x0B then (Again, ed\<lparr>le_len := le_cursor ed\<rparr>)
         else if ch = CHR 0x15 then
           (Again, if 0 < le_cursor ed
                   then ed\<lparr>le_buffer := move_down (le_cursor ed) (le_cursor ed) (le_len ed) (le_buffer ed),
                           le_len := le_len ed - le_cursor ed, le_cursor := 0\<rparr>
                   else ed)
         else if ch = CHR 0x0C then (Again, ed)
         else if ch = CHR 0x03 \<or> ch = CHR 0x1A then (Cancelled, ed\<lparr>le_len := 0, le_cursor := 0\<rparr>)
         else
           (Again, if le_len ed < MAX_LINE - 1
                   then ed\<lparr>le_buffer := (move_up (le_cursor ed) (le_len ed) (le_buffer ed))[le_cursor ed := ch],
                           le_len := le_len ed + 1, le_cursor := le_cursor ed + 1\<rparr>
                   else ed))"

definition edit_key :: "tab_env \<Rightarrow> key \<Rightarrow> editor \<Rightarrow> key_outcome \<times> editor" where
  "edit_key env key ed =
     (case key of
        KEnter \<Rightarrow> (let ed1 = save_to_history ed in (Line (line_str ed1), ed1))
      | KBackspace \<Rightarrow>
          (Again, if 0 < le_cursor ed
                  then ed\<lparr>le_buffer := move_down 1 (le_cursor ed) (le_len ed) (le_buffer ed),
                          le_len := le_len ed - 1, le_cursor := le_cursor ed - 1\<rparr>
                  else ed)
      | KLeft \<Rightarrow> (Again, if 0 < le_cursor ed then ed\<lparr>le_cursor := le_cursor ed - 1\<rparr> else ed)
      | KRight \<Rightarrow> (Again, if le_cursor ed < le_len ed then ed\<lparr>le_cursor := le_cursor ed + 1\<rparr> else ed)
      | KHome \<Rightarrow> (Again, if le_cursor ed \<noteq> 0 then ed\<lparr>le_cursor := 0\<rparr> else ed)
      | KEnd \<Rightarrow> (Again, if le_cursor ed \<noteq> le_len ed then ed\<lparr>le_cursor := le_len ed\<rparr> else ed)
      | KDelete \<Rightarrow>
          (Again, if le_cursor ed < le_len ed
                  then ed\<lparr>le_buffer := move_down 1 (le_cursor ed + 1) (le_len ed) (le_buffer ed), le_len := le_len ed - 1\<rparr>
                  else ed)
      | KInsert \<Rightarrow> (Again, ed)
      | KWordLeft \<Rightarrow>
          (Again, ed\<lparr>le_cursor := skip_left (\<lambda>c. \<not> blank c) (le_buffer ed) (skip_left blank (le_buffer ed) (le_cursor ed))\<rparr>)
      | KWordRight \<Rightarrow>
          (let c = skip_right (\<lambda>c. \<not> blank c) (le_buffer ed) (le_cursor ed) (le_len ed - le_cursor ed)
           in (Again, ed\<lparr>le_cursor := skip_right blank (le_buffer ed) c (le_len ed - c)\<rparr>))
      | KPageUp \<Rightarrow> (Again, key_up ed)
      | KPageDown \<Rightarrow> (Again, key_down ed)
      | KUp \<Rightarrow> (Again, key_up ed)
      | KDown \<Rightarrow> (Again, key_down ed)
      | KTab \<Rightarrow> (Again, tab_complete env ed)
      | KChar ch \<Rightarrow> key_char ch ed
      | KUnknown \<Rightarrow> (Again, ed))"

text \<open>
  \<open>read_line\<close>: the keys it gets until it returns. The result is \<open>None\<close> while the line is not finished;
  otherwise the line and whether the cancel flag was raised.
\<close>

primrec edit_loop :: "tab_env \<Rightarrow> key list \<Rightarrow> editor \<Rightarrow> (string \<times> bool) option \<times> editor" where
  "edit_loop env [] ed = (None, ed)"
| "edit_loop env (k # ks) ed =
     (case edit_key env k ed of
        (Again, ed1) \<Rightarrow> edit_loop env ks ed1
      | (Line s, ed1) \<Rightarrow> (Some (s, False), ed1)
      | (Cancelled, ed1) \<Rightarrow> (Some ([], True), ed1))"

definition read_line :: "tab_env \<Rightarrow> nat \<Rightarrow> key list \<Rightarrow> editor \<Rightarrow> (string \<times> bool) option \<times> editor" where
  "read_line env prompt_len keys ed =
     edit_loop env keys (ed\<lparr>le_len := 0, le_cursor := 0, le_idx := le_count ed, le_prompt_len := prompt_len\<rparr>)"

section \<open>The line as two strings\<close>

text \<open>
  The specification: the text before and behind the cursor, the last sixteen lines, the line of the history
  last shown, and the place in the list of completions.
\<close>

record line_state =
  ls_before :: string
  ls_after :: string
  ls_history :: "string list"
  ls_idx :: nat
  ls_tab :: int

definition ls_text :: "line_state \<Rightarrow> string" where
  "ls_text st = ls_before st @ ls_after st"

definition show_line :: "string \<Rightarrow> line_state \<Rightarrow> line_state" where
  "show_line s st = st\<lparr>ls_before := s, ls_after := []\<rparr>"

text \<open>What is put before, in turn, and behind, when a line is completed.\<close>

definition completions :: "tab_env \<Rightarrow> string \<Rightarrow> string \<times> string list \<times> string" where
  "completions env text =
     (if \<not> utf8_ok text then ([], [], [])
      else if CHR '' '' \<in> set text \<or> prefix [slash] text
      then (case path_matches env text of (before, ms) \<Rightarrow> (before, ms, []))
      else if trim text = [] then ([], [], [])
      else ([], take 32 (filter (prefix (trim text)) (te_commands env)), '' ''))"

definition spec_tab :: "tab_env \<Rightarrow> line_state \<Rightarrow> line_state" where
  "spec_tab env st =
     (case completions env (ls_text st) of (pre, ms, post) \<Rightarrow>
        if ms = [] then st
        else let i = (if ls_tab st < 0 \<or> int (length ms) \<le> ls_tab st then 0 else (ls_tab st + 1) mod int (length ms))
             in show_line (take (MAX_LINE - 1) (pre @ ms ! nat i @ post)) (st\<lparr>ls_tab := i\<rparr>))"

definition words_left :: "string \<Rightarrow> string" where
  "words_left s = rev (dropWhile (\<lambda>c. \<not> blank c) (dropWhile blank (rev s)))"

definition words_right :: "string \<Rightarrow> string" where
  "words_right s = dropWhile blank (dropWhile (\<lambda>c. \<not> blank c) s)"

definition editing_chars :: "char set" where
  "editing_chars = {CHR 0x01, CHR 0x05, CHR 0x0B, CHR 0x0C, CHR 0x15, CHR 0x1A, CHR 0x03}"

definition spec_char :: "char \<Rightarrow> line_state \<Rightarrow> key_outcome \<times> line_state" where
  "spec_char c st =
     (if c = CHR 0x01 then (Again, st\<lparr>ls_before := [], ls_after := ls_text st\<rparr>)
      else if c = CHR 0x05 then (Again, show_line (ls_text st) st)
      else if c = CHR 0x0B then (Again, st\<lparr>ls_after := []\<rparr>)
      else if c = CHR 0x15 then (Again, st\<lparr>ls_before := []\<rparr>)
      else if c = CHR 0x0C then (Again, st)
      else if c = CHR 0x03 \<or> c = CHR 0x1A then (Cancelled, show_line [] st)
      else (Again, (if length (ls_text st) < MAX_LINE - 1 then st\<lparr>ls_before := ls_before st @ [c]\<rparr> else st)\<lparr>ls_tab := -1\<rparr>))"

definition spec_up :: "line_state \<Rightarrow> line_state" where
  "spec_up st = (if 0 < ls_idx st then show_line (ls_history st ! (ls_idx st - 1)) (st\<lparr>ls_idx := ls_idx st - 1\<rparr>) else st)"

definition spec_down :: "line_state \<Rightarrow> line_state" where
  "spec_down st =
     (if ls_idx st < length (ls_history st)
      then show_line (if ls_idx st + 1 = length (ls_history st) then [] else ls_history st ! (ls_idx st + 1))
             (st\<lparr>ls_idx := ls_idx st + 1\<rparr>)
      else st)"

definition remember :: "string \<Rightarrow> string list \<Rightarrow> string list" where
  "remember s hist = drop (length hist + 1 - HISTORY_SIZE) (hist @ [s])"

definition spec_enter :: "line_state \<Rightarrow> key_outcome \<times> line_state" where
  "spec_enter st =
     (Line (if utf8_ok (ls_text st) then ls_text st else []),
      if ls_text st = [] then st
      else st\<lparr>ls_history := remember (ls_text st) (ls_history st),
              ls_idx := length (remember (ls_text st) (ls_history st))\<rparr>)"

fun spec_key :: "tab_env \<Rightarrow> key \<Rightarrow> line_state \<Rightarrow> key_outcome \<times> line_state" where
  "spec_key env KEnter st = spec_enter st"
| "spec_key env KBackspace st = (Again, st\<lparr>ls_before := butlast (ls_before st)\<rparr>)"
| "spec_key env KDelete st = (Again, st\<lparr>ls_after := tl (ls_after st)\<rparr>)"
| "spec_key env KLeft st =
     (Again, if ls_before st = [] then st
             else st\<lparr>ls_before := butlast (ls_before st), ls_after := last (ls_before st) # ls_after st\<rparr>)"
| "spec_key env KRight st =
     (Again, if ls_after st = [] then st
             else st\<lparr>ls_before := ls_before st @ [hd (ls_after st)], ls_after := tl (ls_after st)\<rparr>)"
| "spec_key env KHome st = (Again, st\<lparr>ls_before := [], ls_after := ls_text st\<rparr>)"
| "spec_key env KEnd st = (Again, show_line (ls_text st) st)"
| "spec_key env KWordLeft st =
     (Again, st\<lparr>ls_before := words_left (ls_before st),
                ls_after := drop (length (words_left (ls_before st))) (ls_text st)\<rparr>)"
| "spec_key env KWordRight st =
     (Again, st\<lparr>ls_before := take (length (ls_text st) - length (words_right (ls_after st))) (ls_text st),
                ls_after := words_right (ls_after st)\<rparr>)"
| "spec_key env KPageUp st = (Again, spec_up st)"
| "spec_key env KUp st = (Again, spec_up st)"
| "spec_key env KPageDown st = (Again, spec_down st)"
| "spec_key env KDown st = (Again, spec_down st)"
| "spec_key env KTab st = (Again, spec_tab env st)"
| "spec_key env (KChar c) st = spec_char c st"
| "spec_key env _ st = (Again, st)"

definition le_wf :: "editor \<Rightarrow> bool" where
  "le_wf ed \<longleftrightarrow> length (le_buffer ed) = MAX_LINE \<and> le_len ed < MAX_LINE \<and> le_cursor ed \<le> le_len ed \<and>
     length (le_history ed) = HISTORY_SIZE \<and> (\<forall>r \<in> set (le_history ed). length r = MAX_LINE) \<and>
     length (le_lens ed) = HISTORY_SIZE \<and> (\<forall>n \<in> set (le_lens ed). n < MAX_LINE) \<and>
     le_count ed \<le> HISTORY_SIZE \<and> le_idx ed \<le> le_count ed"

definition abs_history :: "editor \<Rightarrow> string list" where
  "abs_history ed = map (\<lambda>i. take (le_lens ed ! i) (le_history ed ! i)) [0..<le_count ed]"

definition abs_line :: "editor \<Rightarrow> line_state" where
  "abs_line ed = \<lparr>ls_before = take (le_cursor ed) (le_buffer ed),
     ls_after = drop (le_cursor ed) (take (le_len ed) (le_buffer ed)),
     ls_history = abs_history ed, ls_idx = le_idx ed, ls_tab = le_tab_index ed\<rparr>"

section \<open>Moving parts of the array\<close>

lemma length_move_down [simp]: "length (move_down d a z b) = length b"
  unfolding move_down_def by (induction z) auto

lemma nth_move_down:
  assumes "d \<le> a" "z \<le> length b" "j < length b"
  shows "move_down d a z b ! j = (if a - d \<le> j \<and> j + d < z then b ! (j + d) else b ! j)"
  using assms(2,3)
proof (induction z arbitrary: j)
  case 0
  then show ?case by (simp add: move_down_def)
next
  case (Suc z)
  show ?case
  proof (cases "a \<le> z")
    case False
    then show ?thesis using assms(1) by (auto simp: move_down_def)
  next
    case True
    have m: "move_down d a (Suc z) b = (move_down d a z b)[z - d := move_down d a z b ! z]"
      using True by (simp add: move_down_def)
    have "move_down d a z b ! z = b ! z" using Suc.IH [of z] Suc.prems by simp
    then show ?thesis
      using Suc.IH [of j] Suc.prems True assms(1) by (auto simp: m nth_list_update)
  qed
qed

lemma take_move_down:
  assumes "d \<le> a" "a \<le> z" "z \<le> length b"
  shows "take (z - d) (move_down d a z b) = take (a - d) b @ drop a (take z b)"
  using assms by (intro nth_equalityI) (auto simp: nth_move_down nth_append)

lemma length_move_up [simp]: "length (move_up a z b) = length b"
  unfolding move_up_def by (induction z arbitrary: b) auto

lemma nth_move_up:
  "z < length b \<Longrightarrow> j < length b \<Longrightarrow> move_up a z b ! j = (if a < j \<and> j \<le> z then b ! (j - 1) else b ! j)"
proof (induction z arbitrary: b)
  case 0
  then show ?case by (simp add: move_up_def)
next
  case (Suc z)
  show ?case
  proof (cases "a \<le> z")
    case False
    then show ?thesis by (auto simp: move_up_def)
  next
    case True
    have m: "move_up a (Suc z) b = move_up a z (b[Suc z := b ! z])" using True by (simp add: move_up_def)
    show ?thesis
      using Suc.IH [of "b[Suc z := b ! z]"] Suc.prems True by (auto simp: m nth_list_update)
  qed
qed

lemma take_insert:
  assumes "c \<le> z" "Suc z < length b"
  shows "take (Suc z) ((move_up c z b)[c := x]) = take c b @ x # drop c (take z b)"
  using assms by (intro nth_equalityI) (auto simp: nth_move_up nth_append nth_list_update nth_Cons')

lemma move_history: "length h = Suc n \<Longrightarrow> fold (\<lambda>i h. h[i := h ! (i + 1)]) [0..<n] h = tl h @ [last h]"
proof -
  assume l: "length h = Suc n"
  have "m \<le> n \<Longrightarrow> length (fold (\<lambda>i h. h[i := h ! (i + 1)]) [0..<m] h) = length h \<and>
    (\<forall>j < length h. fold (\<lambda>i h. h[i := h ! (i + 1)]) [0..<m] h ! j = (if j < m then h ! (j + 1) else h ! j))" for m
    using l by (induction m) (auto simp: nth_list_update)
  moreover have "last h = h ! n" using l by (subst last_conv_nth) auto
  ultimately show ?thesis
    using l by (intro nth_equalityI) (auto simp: nth_append nth_tl less_Suc_eq)
qed

lemma skip_left_take: "c \<le> length b \<Longrightarrow> take (skip_left P b c) b = rev (dropWhile P (rev (take c b)))"
  by (induction c) (simp_all add: take_Suc_conv_app_nth)

lemma skip_left_le: "skip_left P b c \<le> c"
  by (induction c) auto

lemma skip_right_drop:
  "c + n \<le> length b \<Longrightarrow> drop (skip_right P b c n) (take (c + n) b) = dropWhile P (drop c (take (c + n) b)) \<and>
     c \<le> skip_right P b c n \<and> skip_right P b c n \<le> c + n"
proof (induction n arbitrary: c)
  case (Suc n)
  have "drop c (take (c + Suc n) b) = b ! c # drop (Suc c) (take (Suc c + n) b)"
    using Suc.prems by (simp add: Cons_nth_drop_Suc [symmetric])
  then show ?case using Suc.IH [of "Suc c"] Suc.prems by auto
qed simp

section \<open>Each key\<close>

lemma text_parts:
  assumes "take l b = x @ y" "length x = c" "c \<le> l"
  shows "take c b = x" "drop c (take l b) = y"
proof -
  have "take c b = take c (take l b)" using assms(3) by simp
  then show "take c b = x" "drop c (take l b) = y" using assms(1,2) by auto
qed

lemma ls_text_abs: "le_wf ed \<Longrightarrow> ls_text (abs_line ed) = take (le_len ed) (le_buffer ed)"
  unfolding ls_text_def abs_line_def le_wf_def
  by (metis append_take_drop_id line_state.select_convs(1,2) min.absorb1 take_take)

lemma length_before: "le_wf ed \<Longrightarrow> length (ls_before (abs_line ed)) = le_cursor ed"
  by (simp add: abs_line_def le_wf_def)

lemma length_after: "le_wf ed \<Longrightarrow> length (ls_after (abs_line ed)) = le_len ed - le_cursor ed"
  by (simp add: abs_line_def le_wf_def)

text \<open>An edit that changes only the line: the new text on both sides of the new cursor.\<close>

lemma abs_edit:
  assumes "le_wf ed" "length b = MAX_LINE" "l < MAX_LINE" "take l b = x @ y" "length x = c" "c \<le> l"
  shows "le_wf (ed\<lparr>le_buffer := b, le_len := l, le_cursor := c\<rparr>)"
    "abs_line (ed\<lparr>le_buffer := b, le_len := l, le_cursor := c\<rparr>) = (abs_line ed)\<lparr>ls_before := x, ls_after := y\<rparr>"
  using assms text_parts [OF assms(4,5,6)] by (simp_all add: le_wf_def abs_line_def abs_history_def)

lemma abs_move:
  assumes "le_wf ed" "l \<le> le_len ed" "c \<le> l"
  shows "le_wf (ed\<lparr>le_len := l, le_cursor := c\<rparr>)"
    "abs_line (ed\<lparr>le_len := l, le_cursor := c\<rparr>) =
       (abs_line ed)\<lparr>ls_before := take c (ls_text (abs_line ed)), ls_after := drop c (take l (ls_text (abs_line ed)))\<rparr>"
  using assms by (simp_all add: ls_text_abs) (simp_all add: le_wf_def abs_line_def abs_history_def)

lemma append_str_correct:
  assumes "le_wf ed" "le_cursor ed = le_len ed"
  shows "le_wf (append_str s ed) \<and> le_cursor (append_str s ed) = le_len (append_str s ed) \<and>
    abs_line (append_str s ed) = show_line (take (MAX_LINE - 1) (ls_text (abs_line ed) @ s)) (abs_line ed)"
  using assms
proof (induction s arbitrary: ed)
  case Nil
  have "length (ls_text (abs_line ed)) \<le> MAX_LINE - 1" "ls_after (abs_line ed) = []"
    using Nil by (auto simp: ls_text_abs) (auto simp: le_wf_def abs_line_def)
  then show ?case using Nil by (simp add: append_str_def show_line_def ls_text_def)
next
  case (Cons c s)
  let ?t = "ls_text (abs_line ed)"
  have t: "?t = take (le_len ed) (le_buffer ed)" "length ?t = le_len ed" using Cons.prems by (simp_all add: ls_text_abs) (simp add: le_wf_def)
  show ?case
  proof (cases "le_len ed < MAX_LINE - 1")
    case True
    define ed1 where "ed1 = ed\<lparr>le_buffer := (le_buffer ed)[le_len ed := c], le_len := le_len ed + 1, le_cursor := le_cursor ed + 1\<rparr>"
    have p: "take (le_len ed + 1) ((le_buffer ed)[le_len ed := c]) = (?t @ [c]) @ []"
      using True Cons.prems t by (simp add: le_wf_def take_Suc_conv_app_nth)
    have q: "length ((le_buffer ed)[le_len ed := c]) = MAX_LINE" "le_len ed + 1 < MAX_LINE"
      "length (?t @ [c]) = le_cursor ed + 1" "le_cursor ed + 1 \<le> le_len ed + 1"
      using True Cons.prems t(2) by (simp_all add: le_wf_def)
    have 1: "le_wf ed1" "abs_line ed1 = show_line (?t @ [c]) (abs_line ed)"
      using abs_edit [OF Cons.prems(1) q(1,2) p q(3,4)] unfolding ed1_def show_line_def by simp_all
    have "append_str (c # s) ed = append_str s ed1" using True by (simp add: append_str_def ed1_def)
    moreover have "le_cursor ed1 = le_len ed1" using Cons.prems(2) by (simp add: ed1_def)
    ultimately show ?thesis using Cons.IH [OF 1(1)] 1(2) by (simp add: show_line_def ls_text_def)
  next
    case False
    then have "append_str (c # s) ed = append_str s ed" by (simp add: append_str_def)
    moreover have "length ?t = MAX_LINE - 1" using False Cons.prems(1) t(2) by (auto simp: le_wf_def)
    ultimately show ?thesis using Cons.IH [OF Cons.prems] by simp
  qed
qed

lemma history_nth: "le_wf ed \<Longrightarrow> i < le_count ed \<Longrightarrow> ls_history (abs_line ed) ! i = take (le_lens ed ! i) (le_history ed ! i)"
  by (simp add: abs_line_def abs_history_def)

lemma length_history: "length (ls_history (abs_line ed)) = le_count ed"
  by (simp add: abs_line_def abs_history_def)

lemma load_correct:
  assumes "le_wf ed" "i < le_count ed"
  shows "le_wf (load_from_history i ed)" "abs_line (load_from_history i ed) = show_line (ls_history (abs_line ed) ! i) (abs_line ed)"
proof -
  let ?n = "le_lens ed ! i"
  have n: "?n < MAX_LINE" "length (le_history ed ! i) = MAX_LINE" using assms by (simp_all add: le_wf_def)
  have "take ?n (copy_front ?n (le_history ed ! i) (le_buffer ed)) = take ?n (le_history ed ! i) @ []"
    using n by (simp add: copy_front_def)
  note E = abs_edit [OF assms(1) _ n(1) this, of ?n]
  have l: "length (copy_front ?n (le_history ed ! i) (le_buffer ed)) = MAX_LINE"
    using n assms(1) by (simp add: copy_front_def le_wf_def)
  show "le_wf (load_from_history i ed)" "abs_line (load_from_history i ed) = show_line (ls_history (abs_line ed) ! i) (abs_line ed)"
    using E [OF l] n assms by (simp_all add: load_from_history_def show_line_def history_nth Let_def)
qed

lemma key_up_correct:
  assumes "le_wf ed"
  shows "le_wf (key_up ed) \<and> abs_line (key_up ed) = spec_up (abs_line ed)"
proof (cases "0 < le_idx ed")
  case True
  let ?ed = "ed\<lparr>le_idx := le_idx ed - 1\<rparr>"
  have w: "le_wf ?ed" "le_idx ed - 1 < le_count ?ed" using assms True by (auto simp: le_wf_def)
  have a: "abs_line ?ed = (abs_line ed)\<lparr>ls_idx := le_idx ed - 1\<rparr>" by (simp add: abs_line_def abs_history_def)
  have "ls_idx (abs_line ed) = le_idx ed" by (simp add: abs_line_def)
  then show ?thesis using load_correct [OF w] True a w(2) by (simp add: key_up_def spec_up_def)
next
  case False
  then show ?thesis using assms by (simp add: key_up_def spec_up_def abs_line_def)
qed

lemma key_down_correct:
  assumes "le_wf ed"
  shows "le_wf (key_down ed) \<and> abs_line (key_down ed) = spec_down (abs_line ed)"
proof (cases "le_idx ed < le_count ed")
  case True
  let ?ed = "ed\<lparr>le_idx := le_idx ed + 1\<rparr>"
  have w: "le_wf ?ed" using assms True by (auto simp: le_wf_def)
  have a: "abs_line ?ed = (abs_line ed)\<lparr>ls_idx := le_idx ed + 1\<rparr>" by (simp add: abs_line_def abs_history_def)
  have i: "ls_idx (abs_line ed) = le_idx ed" by (simp add: abs_line_def)
  show ?thesis
  proof (cases "le_idx ed + 1 = le_count ed")
    case e: True
    then show ?thesis using abs_move [OF w, of 0 0] True a i
      by (simp add: key_down_def spec_down_def length_history show_line_def Let_def)
  next
    case False
    then have "le_idx ed + 1 < le_count ?ed" using True by simp
    then show ?thesis using load_correct [OF w] True False a i
      by (simp add: key_down_def spec_down_def length_history Let_def)
  qed
next
  case False
  then show ?thesis using assms by (simp add: key_down_def spec_down_def abs_line_def abs_history_def)
qed

lemma abs_tab: "abs_line (ed\<lparr>le_tab_index := i\<rparr>) = (abs_line ed)\<lparr>ls_tab := i\<rparr>" "le_wf (ed\<lparr>le_tab_index := i\<rparr>) = le_wf ed"
  by (simp_all add: abs_line_def abs_history_def le_wf_def)

text \<open>An edit that keeps the length of the line, or not: what the operations on the array leave of it.\<close>

lemma insert_correct:
  assumes "le_wf ed" "le_len ed < MAX_LINE - 1"
    "ed1 = ed\<lparr>le_buffer := (move_up (le_cursor ed) (le_len ed) (le_buffer ed))[le_cursor ed := ch],
                le_len := le_len ed + 1, le_cursor := le_cursor ed + 1\<rparr>"
  shows "le_wf ed1 \<and> abs_line ed1 = (abs_line ed)\<lparr>ls_before := ls_before (abs_line ed) @ [ch]\<rparr>"
proof -
  let ?c = "le_cursor ed" and ?l = "le_len ed" and ?b = "le_buffer ed"
  have w: "?c \<le> ?l" "Suc ?l < length ?b" "length ?b = MAX_LINE" using assms(1,2) by (auto simp: le_wf_def)
  have "take (?l + 1) ((move_up ?c ?l ?b)[?c := ch]) = (take ?c ?b @ [ch]) @ drop ?c (take ?l ?b)"
    using take_insert [OF w(1,2), of ch] by simp
  from abs_edit [OF assms(1) _ _ this, of "?c + 1"] w show ?thesis
    by (simp add: assms(3) abs_line_def)
qed

lemma delete_range_correct:
  assumes "le_wf ed" "a \<le> z" "z \<le> le_len ed"
    "l = le_len ed - (z - a)"
    "ed1 = ed\<lparr>le_buffer := move_down (z - a) z (le_len ed) (le_buffer ed), le_len := l, le_cursor := a\<rparr>"
  shows "le_wf ed1 \<and> abs_line ed1 =
    (abs_line ed)\<lparr>ls_before := take a (ls_text (abs_line ed)), ls_after := drop z (ls_text (abs_line ed))\<rparr>"
proof -
  let ?l = "le_len ed" and ?b = "le_buffer ed"
  have w: "?l \<le> length ?b" "length ?b = MAX_LINE" "?l < MAX_LINE" using assms(1) by (auto simp: le_wf_def)
  have "z - a \<le> z" by simp
  from take_move_down [OF this assms(3) w(1)]
  have "take l (move_down (z - a) z ?l ?b) = take a ?b @ drop z (take ?l ?b)" using assms(2-4) by simp
  from abs_edit [OF assms(1) _ _ this, of a] w assms(2-4) show ?thesis
    by (simp add: assms(5) ls_text_abs [OF assms(1)] min_absorb1)
qed

lemma save_history_correct:
  assumes "le_wf ed"
  shows "le_wf (save_to_history ed) \<and> spec_enter (abs_line ed) = (Line (line_str ed), abs_line (save_to_history ed)) \<and>
    line_str (save_to_history ed) = line_str ed"
proof -
  let ?n = "le_len ed" and ?b = "le_buffer ed" and ?t = "ls_text (abs_line ed)"
  have t: "?t = take ?n ?b" using assms by (rule ls_text_abs)
  have s: "line_str ed = (if utf8_ok ?t then ?t else [])" by (simp add: line_str_def t Let_def)
  have w: "length ?b = MAX_LINE" "?n < MAX_LINE" "length (le_history ed) = HISTORY_SIZE" "length (le_lens ed) = HISTORY_SIZE"
    "\<forall>r \<in> set (le_history ed). length r = MAX_LINE" "\<forall>n \<in> set (le_lens ed). n < MAX_LINE" "le_count ed \<le> HISTORY_SIZE"
    using assms by (simp_all add: le_wf_def)
  have c: "take ?n (copy_front ?n ?b r) = ?t" "length r = MAX_LINE \<Longrightarrow> length (copy_front ?n ?b r) = MAX_LINE" for r
    using w by (simp_all add: copy_front_def t)
  show ?thesis
  proof (cases "?n = 0 \<or> le_count ed < HISTORY_SIZE")
    case True
    show ?thesis
    proof (cases "?n = 0")
      case True
      then show ?thesis using assms s t by (simp add: save_to_history_def spec_enter_def)
    next
      case False
      let ?ed = "save_to_history ed" and ?k = "le_count ed"
      have k: "?k < HISTORY_SIZE" using True False by simp
      have h: "abs_history ?ed = abs_history ed @ [?t]"
        using False k w c by (simp add: save_to_history_def abs_history_def)
      have "length (abs_history ed) = ?k" by (simp add: abs_history_def)
      then have "remember ?t (abs_history ed) = abs_history ed @ [?t]" using k by (simp add: remember_def)
      moreover have "le_wf ?ed"
        using assms False k w(2,5,6) c(2)
        by (auto simp: save_to_history_def le_wf_def dest!: set_update_subset_insert [THEN subsetD])
      moreover have "?t \<noteq> []" using False t w by auto
      moreover have "abs_line ?ed = (abs_line ed)\<lparr>ls_history := abs_history ?ed, ls_idx := Suc (length (abs_history ed))\<rparr>"
        using False k by (simp add: save_to_history_def abs_line_def) (simp add: abs_history_def)
      moreover have "line_str ?ed = line_str ed" using False k by (simp add: save_to_history_def line_str_def)
      moreover have "ls_history (abs_line ed) = abs_history ed" by (simp add: abs_line_def)
      ultimately show ?thesis
        using h s by (simp add: spec_enter_def)
    qed
  next
    case False
    let ?ed = "save_to_history ed" and ?H = "le_history ed" and ?L = "le_lens ed"
    have k: "le_count ed = HISTORY_SIZE" using False w(7) by simp
    have N: "length ?H = Suc (HISTORY_SIZE - 1)" "length ?L = Suc (HISTORY_SIZE - 1)" using w by (simp_all add: HISTORY_SIZE_def)
    have ne: "?H \<noteq> []" "?L \<noteq> []" using N by auto
    have e: "?ed = ed\<lparr>le_history := tl ?H @ [copy_front ?n ?b (last ?H)], le_lens := tl ?L @ [?n], le_idx := HISTORY_SIZE\<rparr>"
      using False k unfolding save_to_history_def Let_def move_history [OF N(1)] move_history [OF N(2)]
      by (simp add: list_update_append nth_append N)
    have h: "abs_history ?ed = tl (abs_history ed) @ [?t]"
      using w c k unfolding e by - (rule nth_equalityI, auto simp: abs_history_def nth_append nth_tl less_Suc_eq HISTORY_SIZE_def)
    have "length (abs_history ed) = HISTORY_SIZE" by (simp add: abs_history_def k)
    then have "remember ?t (abs_history ed) = tl (abs_history ed) @ [?t]" "length (tl (abs_history ed) @ [?t]) = HISTORY_SIZE"
      by (simp_all add: remember_def drop_Suc HISTORY_SIZE_def)
    moreover have "le_wf ?ed"
      using assms w(2) c(2) ne k unfolding e le_wf_def
      by (auto simp: HISTORY_SIZE_def dest: list.set_sel(2))
    moreover have "?t \<noteq> []" using False t w by auto
    moreover have "abs_line ?ed = (abs_line ed)\<lparr>ls_history := abs_history ?ed, ls_idx := HISTORY_SIZE\<rparr>"
      by (simp add: e abs_line_def)
    moreover have "line_str ?ed = line_str ed" by (simp add: e line_str_def)
    moreover have "ls_history (abs_line ed) = abs_history ed" by (simp add: abs_line_def)
    ultimately show ?thesis
      using h s by (simp add: spec_enter_def)
  qed
qed

lemma next_match_index:
  "0 < n \<Longrightarrow> 0 \<le> le_tab_index (next_match n ed) \<and> le_tab_index (next_match n ed) < int n"
  by (simp add: next_match_def)

lemma complete_correct:
  assumes "le_wf ed" "ms \<noteq> []"
  defines "ed1 \<equiv> (next_match (length ms) ed)\<lparr>le_len := 0, le_cursor := 0\<rparr>"
    and "i \<equiv> le_tab_index (next_match (length ms) ed)"
  shows "le_wf (append_str post (append_str (ms ! nat i) (append_str pre ed1))) \<and>
    abs_line (append_str post (append_str (ms ! nat i) (append_str pre ed1))) =
      show_line (take (MAX_LINE - 1) (pre @ ms ! nat i @ post)) ((abs_line ed)\<lparr>ls_tab := i\<rparr>)"
proof -
  let ?st = "(abs_line ed)\<lparr>ls_tab := i\<rparr>"
  have 1: "le_wf ed1" "le_cursor ed1 = le_len ed1" "abs_line ed1 = show_line [] ?st"
    using assms(1) by (simp_all add: ed1_def i_def next_match_def le_wf_def abs_line_def abs_history_def show_line_def)
  have t: "ls_text (show_line s st) = s" for s st by (simp add: ls_text_def show_line_def)
  have sh: "show_line a (show_line b st) = show_line a st" for a b st by (simp add: show_line_def)
  note A = append_str_correct [OF 1(1,2), of pre, unfolded 1(3) t sh]
  note B = append_str_correct [of "append_str pre ed1" "ms ! nat i", unfolded A [THEN conjunct2, THEN conjunct2] t sh]
  have B': "le_wf (append_str (ms ! nat i) (append_str pre ed1))" 
    "le_cursor (append_str (ms ! nat i) (append_str pre ed1)) = le_len (append_str (ms ! nat i) (append_str pre ed1))"
    "abs_line (append_str (ms ! nat i) (append_str pre ed1)) = show_line (take (MAX_LINE - 1) (pre @ ms ! nat i)) ?st"
    using A B by (simp_all add: min_def take_append)
  show ?thesis
    using append_str_correct [OF B'(1,2), of post] unfolding B'(3) t sh by (simp add: min_def take_append)
qed

lemma tab_correct:
  assumes "le_wf ed"
  shows "le_wf (tab_complete env ed) \<and> abs_line (tab_complete env ed) = spec_tab env (abs_line ed)"
proof -
  let ?line = "take (le_len ed) (le_buffer ed)"
  have t: "ls_text (abs_line ed) = ?line" using assms by (rule ls_text_abs)
  have n: "append_str [] x = x" for x by (simp add: append_str_def)
  obtain pre ms post where c: "completions env ?line = (pre, ms, post)" by (cases "completions env ?line") auto
  have e: "tab_complete env ed =
    (if ms = [] then ed else append_str post (append_str (ms ! nat (le_tab_index (next_match (length ms) ed)))
       (append_str pre ((next_match (length ms) ed)\<lparr>le_len := 0, le_cursor := 0\<rparr>))))"
    using c by (auto simp: tab_complete_def complete_path_def completions_def Let_def n split: if_splits prod.splits)
  have i: "le_tab_index (next_match (length ms) ed) =
    (if ls_tab (abs_line ed) < 0 \<or> int (length ms) \<le> ls_tab (abs_line ed) then 0 else (ls_tab (abs_line ed) + 1) mod int (length ms))"
    by (simp add: next_match_def abs_line_def)
  show ?thesis
    using complete_correct [OF assms, of ms post pre] assms unfolding e spec_tab_def t c i by (simp add: Let_def)
qed

lemma key_char_correct:
  assumes "le_wf ed" "key_char ch ed = (r, ed')"
  shows "le_wf ed' \<and> spec_char ch (abs_line ed) = (r, abs_line ed')"
proof -
  let ?st = "abs_line ed" and ?t = "ls_text (abs_line ed)"
  have t: "?t = take (le_len ed) (le_buffer ed)" using assms(1) by (rule ls_text_abs)
  have c: "le_cursor ed \<le> le_len ed" "le_len ed < MAX_LINE" "length (le_buffer ed) = MAX_LINE" using assms(1) by (simp_all add: le_wf_def)
  have tl: "length ?t = le_len ed" using t c by simp
  have before: "ls_before ?st = take (le_cursor ed) ?t" "ls_after ?st = drop (le_cursor ed) ?t"
    unfolding t using c by (simp_all add: abs_line_def)
  have A0: "le_wf (ed\<lparr>le_cursor := 0\<rparr>) \<and> abs_line (ed\<lparr>le_cursor := 0\<rparr>) = ?st\<lparr>ls_before := [], ls_after := ?t\<rparr>"
    using abs_move [OF assms(1), of "le_len ed" 0] t c by simp
  have A1: "le_wf (ed\<lparr>le_cursor := le_len ed\<rparr>) \<and> abs_line (ed\<lparr>le_cursor := le_len ed\<rparr>) = show_line ?t ?st"
    using abs_move [OF assms(1), of "le_len ed" "le_len ed"] t c by (simp add: show_line_def)
  have A2: "le_wf (ed\<lparr>le_len := le_cursor ed\<rparr>) \<and> abs_line (ed\<lparr>le_len := le_cursor ed\<rparr>) = ?st\<lparr>ls_after := []\<rparr>"
    using abs_move [OF assms(1), of "le_cursor ed" "le_cursor ed"] before c by (simp add: min_def)
  have A3: "le_wf (ed\<lparr>le_len := 0, le_cursor := 0\<rparr>) \<and> abs_line (ed\<lparr>le_len := 0, le_cursor := 0\<rparr>) = show_line [] ?st"
    using abs_move [OF assms(1), of 0 0] by (simp add: show_line_def)
  have A4: "le_wf (ed\<lparr>le_buffer := move_down (le_cursor ed) (le_cursor ed) (le_len ed) (le_buffer ed),
      le_len := le_len ed - le_cursor ed, le_cursor := 0\<rparr>) \<and>
    abs_line (ed\<lparr>le_buffer := move_down (le_cursor ed) (le_cursor ed) (le_len ed) (le_buffer ed),
      le_len := le_len ed - le_cursor ed, le_cursor := 0\<rparr>) = ?st\<lparr>ls_before := []\<rparr>"
    using delete_range_correct [OF assms(1), of 0 "le_cursor ed" "le_len ed - le_cursor ed", OF _ c(1) _ refl] before by simp
  have A5: "?st\<lparr>ls_before := []\<rparr> = ?st" if "le_cursor ed = 0" using that by (simp add: abs_line_def)
  define ed1 where "ed1 = ed\<lparr>le_tab_index := -1\<rparr>"
  have e1: "le_wf ed1" "abs_line ed1 = ?st\<lparr>ls_tab := -1\<rparr>" using assms(1) by (simp_all add: ed1_def abs_tab)
  have L: "length (ls_text ?st) < MAX_LINE - 1 \<longleftrightarrow> le_len ed1 < MAX_LINE - 1" by (simp add: tl ed1_def)
  note I = insert_correct [OF e1(1) _ refl, of ch, unfolded e1(2)]
  show ?thesis
    using assms(2) A0 A1 A2 A3 A4 A5 I L e1 assms(1)
    unfolding key_char_def spec_char_def ed1_def [symmetric] Let_def by (auto split: if_splits)
qed

lemma editor_refines:
  assumes "le_wf ed" "edit_key env key ed = (r, ed')"
  shows "le_wf ed' \<and> spec_key env key (abs_line ed) = (r, abs_line ed')"
proof -
  let ?st = "abs_line ed" and ?t = "ls_text (abs_line ed)"
  have t: "?t = take (le_len ed) (le_buffer ed)" using assms(1) by (rule ls_text_abs)
  have c: "le_cursor ed \<le> le_len ed" "le_len ed < MAX_LINE" "length (le_buffer ed) = MAX_LINE" using assms(1) by (simp_all add: le_wf_def)
  have tl: "length ?t = le_len ed" using t c by simp
  have before: "ls_before ?st = take (le_cursor ed) ?t" "ls_after ?st = drop (le_cursor ed) ?t"
    unfolding t using c by (simp_all add: abs_line_def)
  have move: "le_wf (ed\<lparr>le_cursor := k\<rparr>) \<and> abs_line (ed\<lparr>le_cursor := k\<rparr>) = ?st\<lparr>ls_before := take k ?t, ls_after := drop k ?t\<rparr>"
    if "k \<le> le_len ed" for k
    using abs_move [OF assms(1), of "le_len ed" k] that tl by simp
  have same: "?st\<lparr>ls_before := take (le_cursor ed) ?t, ls_after := drop (le_cursor ed) ?t\<rparr> = ?st"
    using before by (cases ?st) simp
  show ?thesis
  proof (cases key)
    case (KChar ch)
    then show ?thesis using key_char_correct [OF assms(1)] assms(2) by (simp add: edit_key_def)
  next
    case KEnter
    then show ?thesis using save_history_correct [OF assms(1)] assms(2) by (auto simp: edit_key_def Let_def)
  next
    case KTab
    then show ?thesis using tab_correct [OF assms(1)] assms(2) by (auto simp: edit_key_def)
  next
    case KBackspace
    show ?thesis
    proof (cases "le_cursor ed = 0")
      case False
      then have "le_len ed - 1 = le_len ed - (le_cursor ed - (le_cursor ed - 1))" "le_cursor ed - (le_cursor ed - 1) = 1" by auto
      with delete_range_correct [OF assms(1) _ c(1) this(1) refl] False
      show ?thesis using assms(2) KBackspace before by (auto simp: edit_key_def butlast_take tl c)
    qed (use assms KBackspace before in \<open>auto simp: edit_key_def\<close>)
  next
    case KDelete
    show ?thesis
    proof (cases "le_cursor ed < le_len ed")
      case True
      then have "le_len ed - 1 = le_len ed - (le_cursor ed + 1 - le_cursor ed)" by simp
      with delete_range_correct [OF assms(1) _ _ this refl] True
      have "le_wf (ed\<lparr>le_buffer := move_down 1 (le_cursor ed + 1) (le_len ed) (le_buffer ed), le_len := le_len ed - 1\<rparr>) \<and>
        abs_line (ed\<lparr>le_buffer := move_down 1 (le_cursor ed + 1) (le_len ed) (le_buffer ed), le_len := le_len ed - 1\<rparr>) =
        ?st\<lparr>ls_before := take (le_cursor ed) ?t, ls_after := drop (le_cursor ed + 1) ?t\<rparr>"
        by simp
      moreover have "?st\<lparr>ls_before := take (le_cursor ed) ?t, ls_after := drop (le_cursor ed + 1) ?t\<rparr> =
          ?st\<lparr>ls_after := tl (ls_after ?st)\<rparr>"
      proof -
        have "drop (le_cursor ed + 1) ?t = tl (ls_after ?st)" unfolding before by (simp add: tl_drop drop_Suc)
        then show ?thesis unfolding before(1) [symmetric] by (cases ?st) simp
      qed
      ultimately show ?thesis using assms(2) KDelete True by (auto simp: edit_key_def)
    qed (use assms KDelete before tl same in \<open>auto simp: edit_key_def\<close>)
  next
    case KLeft
    show ?thesis
    proof (cases "le_cursor ed = 0")
      case False
      then obtain k where k: "le_cursor ed = Suc k" by (cases "le_cursor ed") auto
      then have "butlast (ls_before ?st) = take k ?t" "last (ls_before ?st) # ls_after ?st = drop k ?t" "ls_before ?st \<noteq> []"
        using c tl unfolding before by (auto simp: butlast_take take_Suc_conv_app_nth Cons_nth_drop_Suc)
      then show ?thesis using move [of k] assms(2) KLeft k c by (auto simp: edit_key_def)
    qed (use assms KLeft before in \<open>auto simp: edit_key_def\<close>)
  next
    case KRight
    show ?thesis
    proof (cases "le_cursor ed < le_len ed")
      case True
      let ?k = "le_cursor ed"
      have "ls_before ?st @ [hd (ls_after ?st)] = take (Suc ?k) ?t" "tl (ls_after ?st) = drop (Suc ?k) ?t" "ls_after ?st \<noteq> []"
        using True tl unfolding before by (auto simp: hd_drop_conv_nth take_Suc_conv_app_nth tl_drop drop_Suc)
      then show ?thesis using move [of "Suc ?k"] assms(2) KRight True by (auto simp: edit_key_def)
    qed (use assms KRight before tl in \<open>auto simp: edit_key_def\<close>)
  next
    case KHome
    then show ?thesis using move [of 0] assms same by (auto simp: edit_key_def split: if_splits)
  next
    case KEnd
    then show ?thesis using move [of "le_len ed"] assms same tl by (auto simp: edit_key_def show_line_def split: if_splits)
  next
    case KInsert
    then show ?thesis using assms by (simp add: edit_key_def)
  next
    case KUnknown
    then show ?thesis using assms by (simp add: edit_key_def)
  next
    case KUp
    then show ?thesis using key_up_correct [OF assms(1)] assms(2) by (auto simp: edit_key_def)
  next
    case KPageUp
    then show ?thesis using key_up_correct [OF assms(1)] assms(2) by (auto simp: edit_key_def)
  next
    case KDown
    then show ?thesis using key_down_correct [OF assms(1)] assms(2) by (auto simp: edit_key_def)
  next
    case KPageDown
    then show ?thesis using key_down_correct [OF assms(1)] assms(2) by (auto simp: edit_key_def)
  next
    case KWordLeft
    let ?b = "le_buffer ed"
    let ?m = "skip_left blank ?b (le_cursor ed)"
    let ?k = "skip_left (\<lambda>c. \<not> blank c) ?b ?m"
    have l: "?m \<le> le_cursor ed" "?k \<le> ?m" by (rule skip_left_le)+
    have "words_left (ls_before ?st) = take ?k ?b"
      using skip_left_take [of "le_cursor ed" ?b blank] skip_left_take [of ?m ?b "\<lambda>c. \<not> blank c"] l c
      by (simp add: words_left_def abs_line_def)
    then have "words_left (ls_before ?st) = take ?k ?t" "length (words_left (ls_before ?st)) = ?k" using l c t by simp_all
    then show ?thesis using move [of ?k] l c assms(2) KWordLeft by (auto simp: edit_key_def)
  next
    case KWordRight
    let ?b = "le_buffer ed"
    let ?m = "skip_right (\<lambda>c. \<not> blank c) ?b (le_cursor ed) (le_len ed - le_cursor ed)"
    let ?k = "skip_right blank ?b ?m (le_len ed - ?m)"
    have 1: "drop ?m (take (le_len ed) ?b) = dropWhile (\<lambda>c. \<not> blank c) (drop (le_cursor ed) (take (le_len ed) ?b))" "?m \<le> le_len ed"
      using skip_right_drop [of "le_cursor ed" "le_len ed - le_cursor ed" ?b "\<lambda>c. \<not> blank c"] c by simp_all
    have 2: "drop ?k (take (le_len ed) ?b) = dropWhile blank (drop ?m (take (le_len ed) ?b))" "?k \<le> le_len ed"
      using skip_right_drop [of ?m "le_len ed - ?m" ?b blank] c 1(2) by simp_all
    have "words_right (ls_after ?st) = drop ?k ?t" using 1 2 unfolding t by (simp add: words_right_def abs_line_def)
    then have "words_right (ls_after ?st) = drop ?k ?t" "length ?t - length (words_right (ls_after ?st)) = ?k" using tl 2(2) by simp_all
    then show ?thesis using move [of ?k] 2(2) assms(2) KWordRight by (auto simp: edit_key_def Let_def)
  qed
qed

section \<open>Reading lines\<close>

text \<open>The specification of \<open>read_line\<close>.\<close>

primrec spec_loop :: "tab_env \<Rightarrow> key list \<Rightarrow> line_state \<Rightarrow> (string \<times> bool) option \<times> line_state" where
  "spec_loop env [] st = (None, st)"
| "spec_loop env (k # ks) st =
     (case spec_key env k st of
        (Again, st1) \<Rightarrow> spec_loop env ks st1
      | (Line s, st1) \<Rightarrow> (Some (s, False), st1)
      | (Cancelled, st1) \<Rightarrow> (Some ([], True), st1))"

definition spec_read :: "tab_env \<Rightarrow> key list \<Rightarrow> line_state \<Rightarrow> (string \<times> bool) option \<times> line_state" where
  "spec_read env keys st = spec_loop env keys (show_line [] (st\<lparr>ls_idx := length (ls_history st)\<rparr>))"

lemma edit_loop_refines:
  "le_wf ed \<Longrightarrow> edit_loop env keys ed = (r, ed') \<Longrightarrow> le_wf ed' \<and> spec_loop env keys (abs_line ed) = (r, abs_line ed')"
proof (induction keys arbitrary: ed)
  case (Cons k ks)
  obtain out ed1 where e: "edit_key env k ed = (out, ed1)" by force
  note E = editor_refines [OF Cons.prems(1) e]
  then show ?case using Cons.IH [of ed1] Cons.prems(2) e by (cases out) auto
qed simp

text \<open>
  C27: the line editor. Whatever keys are pressed, the editor with its array, cursor and history buffers keeps its
  indices in bounds, and read_line returns what editing two strings around a cursor returns: insertion
  up to 255 bytes, deletion, motion by characters and by words, clearing, the sixteen last lines, and the
  completion of commands and paths.
\<close>

theorem read_line_refines:
  assumes "le_wf ed" "read_line env prompt_len keys ed = (r, ed')"
  shows "le_wf ed' \<and> spec_read env keys (abs_line ed) = (r, abs_line ed')"
proof -
  let ?ed = "ed\<lparr>le_len := 0, le_cursor := 0, le_idx := le_count ed, le_prompt_len := prompt_len\<rparr>"
  have "le_wf ?ed" using assms(1) by (simp add: le_wf_def MAX_LINE_def)
  moreover have "abs_line ?ed = show_line [] ((abs_line ed)\<lparr>ls_idx := length (ls_history (abs_line ed))\<rparr>)"
    by (simp add: abs_line_def show_line_def abs_history_def)
  ultimately show ?thesis
    using edit_loop_refines [of ?ed env keys r ed'] assms(2) by (simp add: read_line_def spec_read_def)
qed

lemma editor_new_wf: "le_wf editor_new"
  by (simp add: editor_new_def le_wf_def MAX_LINE_def HISTORY_SIZE_def)

lemma editor_new_abs: "abs_line editor_new = \<lparr>ls_before = [], ls_after = [], ls_history = [], ls_idx = 0, ls_tab = -1\<rparr>"
  by (simp add: editor_new_def abs_line_def abs_history_def)

definition demo_env :: tab_env where
  "demo_env = \<lparr>te_commands = [''ls'', ''cat'', ''lspci''], te_current_dir = ''/'', te_list_dir = (\<lambda>_. [(''etc'', True)])\<rparr>"

lemma demo_completions: "completions demo_env ''ls'' = ([], [''ls'', ''lspci''], '' '')"
  by code_simp

lemma editor_demo_tab: "spec_key demo_env KTab
   \<lparr>ls_before = ''ls'', ls_after = [], ls_history = [], ls_idx = 0, ls_tab = -1\<rparr> =
      (Again, \<lparr>ls_before = ''ls '', ls_after = [], ls_history = [], ls_idx = 0, ls_tab = 0\<rparr>)"
  by (simp add: spec_tab_def demo_completions ls_text_def show_line_def MAX_LINE_def)

lemma spec_loop_append:
  "spec_loop env as st = (None, st1) \<Longrightarrow> spec_loop env (as @ bs) st = spec_loop env bs st1"
  by (induction as arbitrary: st) (auto split: prod.splits key_outcome.splits)

theorem read_line_refines_witness:
  "\<exists>ed'. read_line demo_env 0 (map KChar ''sx'' @ [KLeft, KDelete, KHome, KChar (CHR ''l''), KEnd, KTab, KBackspace, KEnter]) editor_new =
     (Some (''ls'', False), ed') \<and> abs_history ed' = [''ls'']"
proof -
  let ?keys = "map KChar ''sx'' @ [KLeft, KDelete, KHome, KChar (CHR ''l''), KEnd, KTab, KBackspace, KEnter]"
  obtain r ed' where e: "read_line demo_env 0 ?keys editor_new = (r, ed')" by force
  let ?st = "\<lambda>s. \<lparr>ls_before = s, ls_after = [], ls_history = [], ls_idx = 0, ls_tab = -1\<rparr>"
  have "spec_loop demo_env (map KChar ''sx'' @ [KLeft, KDelete, KHome, KChar (CHR ''l''), KEnd]) (?st []) = (None, ?st ''ls'')"
    by code_simp
  from spec_loop_append [OF this, of "[KTab, KBackspace, KEnter]"]
  have "spec_loop demo_env ?keys (?st []) = spec_loop demo_env [KBackspace, KEnter] (snd (spec_key demo_env KTab (?st ''ls'')))"
    using editor_demo_tab by simp
  also have "\<dots> = (Some (''ls'', False), \<lparr>ls_before = ''ls'', ls_after = [], ls_history = [''ls''], ls_idx = 1, ls_tab = 0\<rparr>)"
    unfolding editor_demo_tab snd_conv by code_simp
  finally have "spec_read demo_env ?keys (?st []) =
      (Some (''ls'', False), \<lparr>ls_before = ''ls'', ls_after = [], ls_history = [''ls''], ls_idx = 1, ls_tab = 0\<rparr>)"
    by (simp add: spec_read_def show_line_def)
  with read_line_refines [OF editor_new_wf e, unfolded editor_new_abs]
  have R: "r = Some (''ls'', False)" "abs_line ed' = \<lparr>ls_before = ''ls'', ls_after = [], ls_history = [''ls''], ls_idx = 1, ls_tab = 0\<rparr>"
    by (metis prod.inject)+
  have "abs_history ed' = ls_history (abs_line ed')" by (simp add: abs_line_def)
  then show ?thesis using e unfolding R by simp
qed

section \<open>The history\<close>

definition ordinary :: "char \<Rightarrow> bool" where
  "ordinary c \<longleftrightarrow> 0x20 \<le> code c \<and> code c < (0x7F :: nat)"

lemma ordinary_char: "ordinary c \<Longrightarrow> spec_char c st =
    (Again, (if length (ls_text st) < MAX_LINE - 1 then st\<lparr>ls_before := ls_before st @ [c]\<rparr> else st)\<lparr>ls_tab := -1\<rparr>)"
proof -
  assume "ordinary c"
  then have "32 \<le> code c" by (simp add: ordinary_def)
  then have "c \<notin> {CHR 0x01, CHR 0x05, CHR 0x0B, CHR 0x15, CHR 0x0C, CHR 0x03, CHR 0x1A}" by auto
  then show ?thesis by (simp add: spec_char_def)
qed

lemma ordinary_utf8: "list_all ordinary s \<Longrightarrow> utf8_ok s"
proof (induction s)
  case (Cons c s)
  then have "code c < (0x80 :: nat)" by (auto simp: ordinary_def)
  then show ?case using Cons by simp
qed simp

lemma spec_typing:
  "list_all ordinary s \<Longrightarrow> ls_after st = [] \<Longrightarrow> length (ls_before st) + length s < MAX_LINE \<Longrightarrow> s \<noteq> [] \<Longrightarrow>
    spec_loop env (map KChar s @ ks) st = spec_loop env ks (st\<lparr>ls_before := ls_before st @ s, ls_tab := -1\<rparr>)"
proof (induction s arbitrary: st)
  case (Cons c s)
  let ?st = "st\<lparr>ls_before := ls_before st @ [c], ls_tab := -1\<rparr>"
  have "spec_char c st = (Again, ?st)"
    using Cons.prems(1-3) ordinary_char [of c st] by (simp add: ls_text_def)
  then have 1: "spec_loop env (map KChar (c # s) @ ks) st = spec_loop env (map KChar s @ ks) ?st" by simp
  show ?case
  proof (cases "s = []")
    case True
    then show ?thesis using 1 by simp
  next
    case False
    have "spec_loop env (map KChar s @ ks) ?st = spec_loop env ks (?st\<lparr>ls_before := ls_before ?st @ s, ls_tab := -1\<rparr>)"
      using Cons.prems False by (intro Cons.IH) simp_all
    then show ?thesis unfolding 1 by simp
  qed
qed simp

definition typed_line :: "string \<Rightarrow> bool" where
  "typed_line s \<longleftrightarrow> list_all ordinary s \<and> s \<noteq> [] \<and> length s < MAX_LINE"

lemma spec_enter_line:
  assumes "typed_line s"
  shows "\<exists>st'. spec_read env (map KChar s @ [KEnter]) st = (Some (s, False), st') \<and>
    ls_history st' = remember s (ls_history st)"
proof -
  let ?st = "show_line [] (st\<lparr>ls_idx := length (ls_history st)\<rparr>)"
  have s: "list_all ordinary s" "s \<noteq> []" "length s < MAX_LINE" using assms by (simp_all add: typed_line_def)
  have "spec_loop env (map KChar s @ [KEnter]) ?st = spec_loop env [KEnter] (?st\<lparr>ls_before := ls_before ?st @ s, ls_tab := -1\<rparr>)"
    using s by (intro spec_typing) (simp_all add: show_line_def)
  then show ?thesis
    using s(2) ordinary_utf8 [OF s(1)] by (simp add: spec_read_def show_line_def spec_enter_def ls_text_def)
qed

lemma spec_recall:
  "k \<le> ls_idx st \<Longrightarrow> 0 < k \<Longrightarrow>
    spec_loop env (replicate k KUp @ ks) st = spec_loop env ks (show_line (ls_history st ! (ls_idx st - k)) (st\<lparr>ls_idx := ls_idx st - k\<rparr>))"
proof (induction k arbitrary: st)
  case (Suc k)
  let ?st = "show_line (ls_history st ! (ls_idx st - 1)) (st\<lparr>ls_idx := ls_idx st - 1\<rparr>)"
  have "spec_key env KUp st = (Again, ?st)" using Suc.prems by (simp add: spec_up_def)
  then show ?case using Suc.IH [of ?st] Suc.prems by (cases "k = 0") (simp_all add: show_line_def)
qed simp

lemma remember_all:
  "length h \<le> HISTORY_SIZE \<Longrightarrow> fold remember ss h = drop (length h + length ss - HISTORY_SIZE) (h @ ss)"
proof (induction ss arbitrary: h)
  case (Cons s ss)
  define m where "m = length h + 1 - HISTORY_SIZE"
  then have m: "m \<le> 1" "m \<le> Suc (length h)" "remember s h = drop m (h @ [s])" using Cons.prems by (simp_all add: remember_def)
  have l: "length (remember s h) = Suc (length h) - m" unfolding m(3) by simp
  have a: "drop m (h @ [s]) @ ss = drop m (h @ s # ss)" using m(1) by (cases h; cases m) simp_all
  have e: "Suc (length h) - m + length ss - HISTORY_SIZE + m = length h + Suc (length ss) - HISTORY_SIZE"
    using Cons.prems by (auto simp: m_def HISTORY_SIZE_def)
  have "fold remember ss (remember s h) = drop (length (remember s h) + length ss - HISTORY_SIZE) (remember s h @ ss)"
    by (rule Cons.IH) (simp add: remember_def)
  then show ?case unfolding l by (simp only: m(3) a drop_drop e fold_simps list.size add_Suc_right add_0_right)
qed simp

text \<open>
  The history. After any lines have been typed and entered, pressing Up \<open>k\<close> times and Enter returns the
  \<open>k\<close>-th line from the end, for every \<open>k\<close> up to sixteen and up to the number of lines.
\<close>

theorem history_recall:
  assumes "le_wf ed" "list_all typed_line ss" "0 < k" "k \<le> length ss" "k \<le> HISTORY_SIZE"
  shows "fst (read_line env p (replicate k KUp @ [KEnter])
      (fold (\<lambda>s ed. snd (read_line env p (map KChar s @ [KEnter]) ed)) ss ed)) = Some (ss ! (length ss - k), False)"
proof -
  let ?enter = "\<lambda>s ed. snd (read_line env p (map KChar s @ [KEnter]) ed)"
  have one: "le_wf (?enter s ed) \<and> abs_history (?enter s ed) = remember s (abs_history ed)" if "typed_line s" "le_wf ed" for s ed
  proof -
    obtain r ed1 where e: "read_line env p (map KChar s @ [KEnter]) ed = (r, ed1)" by force
    show ?thesis
      using read_line_refines [OF that(2) e] spec_enter_line [OF that(1), of env "abs_line ed"] e by (auto simp: abs_line_def)
  qed
  have "le_wf (fold ?enter ss ed) \<and> abs_history (fold ?enter ss ed) = fold remember ss (abs_history ed)"
    if "list_all typed_line ss" "le_wf ed" for ss ed
    using that by (induction ss arbitrary: ed) (simp_all add: one)
  then have w: "le_wf (fold ?enter ss ed)" and h: "abs_history (fold ?enter ss ed) = fold remember ss (abs_history ed)"
    using assms(1,2) by blast+
  define ed1 where "ed1 = fold ?enter ss ed"
  have "length (abs_history ed) \<le> HISTORY_SIZE" using assms(1) by (simp add: abs_history_def le_wf_def)
  then have H: "ls_history (abs_line ed1) = drop (length (abs_history ed) + length ss - HISTORY_SIZE) (abs_history ed @ ss)"
    using remember_all h by (simp add: ed1_def abs_line_def)
  let ?h = "ls_history (abs_line ed1)"
  have k: "k \<le> length ?h" "?h ! (length ?h - k) = ss ! (length ss - k)"
    using assms(3-5) \<open>length (abs_history ed) \<le> HISTORY_SIZE\<close> unfolding H by (auto simp: nth_append)
  have "typed_line (ss ! (length ss - k))" using assms(2-4) by (simp add: list_all_length)
  then have u: "utf8_ok (ss ! (length ss - k))" by (simp add: typed_line_def ordinary_utf8)
  obtain r ed2 where e: "read_line env p (replicate k KUp @ [KEnter]) ed1 = (r, ed2)" by force
  have "fst (spec_read env (replicate k KUp @ [KEnter]) (abs_line ed1)) = Some (ss ! (length ss - k), False)"
    using spec_recall [of k "show_line [] ((abs_line ed1)\<lparr>ls_idx := length ?h\<rparr>)" env "[KEnter]"] k u assms(3)
    by (simp add: spec_read_def show_line_def spec_enter_def ls_text_def)
  then show ?thesis using read_line_refines [OF w [folded ed1_def] e] e unfolding ed1_def [symmetric] by simp
qed

theorem history_recall_witness:
  "fst (read_line demo_env 0 [KUp, KUp, KEnter]
     (snd (read_line demo_env 0 (map KChar ''cat a'' @ [KEnter])
       (snd (read_line demo_env 0 (map KChar ''ls'' @ [KEnter]) editor_new))))) = Some (''ls'', False)"
proof -
  have "list_all typed_line [''ls'', ''cat a'']" by code_simp
  then show ?thesis using history_recall [OF editor_new_wf, of "[''ls'', ''cat a'']" 2 demo_env 0]
    by (simp add: numeral_2_eq_2 HISTORY_SIZE_def)
qed

text \<open>
  Completing twice. A completed command ends with a blank, so a second Tab looks for a path that starts with
  nothing and leaves the line: the list of matches is never walked.
\<close>

theorem second_tab_idle:
  assumes "ls_before st = s @ '' ''" "ls_after st = []"
  shows "spec_tab env st = st"
proof -
  have "rfind (CHR '' '') (s @ '' '') = Some (length s)" using rfind_last [of "CHR '' ''" "[]" s] by simp
  then show ?thesis using assms
    by (simp add: spec_tab_def completions_def path_matches_def ls_text_def Let_def split: prod.splits option.splits)
qed

end
