(* ===== verification/Spec2Isabelle.thy ===== *)
theory Spec2Isabelle
  imports Prelude Pmm Heap KernelHeap Sched Path Ramfs Vfs Disk Partition Fat Fat32 Lexer Parser Vm Net Rtc Paging Vmm Keyboard Input LineEditor
begin

text \<open>
  A verification development for the Vibra kernel (Rust, x86_64, sources under \<open>kernel/src\<close>).

  \<^bold>\<open>The program and the theories.\<close> The kernel is a set of modules with a lock around each one's static
  state. The theories follow the modules and their calls; a definition has the name of the function it
  translates unless that name is taken.

  \<^item> \<open>Prelude\<close>: machine integers, Rust's checked and saturating operations, first match in a table,
    bytes and decimal text.
  \<^item> \<open>Pmm\<close> (\<open>memory/pmm.rs\<close>): the frame bitmap with its counter and hint, initialisation from the
    firmware's memory map, single and contiguous allocation and release. The abstract state is the set
    of free frames, \<open>free_set\<close>; each operation is a set operation on it.
  \<^item> \<open>Heap\<close> and \<open>KernelHeap\<close> (\<open>memory/heap.rs\<close>): the free list in raw memory (tagged sizes and next
    pointers read and written through addresses), its regions, and the allocator above it, which grows
    by frames of the \<open>Pmm\<close>. The representation relation \<open>heap_rep\<close> relates the linked words to a sorted
    list of blocks, \<open>kmem_view\<close> heap and frames to the memory nobody owns.
  \<^item> \<open>Sched\<close> (\<open>task/mod.rs\<close>, \<open>task/ctx_switch.rs\<close>): the task table, the timer and yield handlers, spawn,
    exit, sleep and wake as steps of a machine, and the two assembly stubs as their loads and stores. What
    \<open>init\<close> and \<open>spawn\<close> take from the kernel heap is all there: stacks, copies of names, the growing table.
  \<^item> \<open>Path\<close>, \<open>Ramfs\<close>, \<open>Vfs\<close> (\<open>fs/ramfs.rs\<close>, \<open>fs/vfs.rs\<close>, \<open>fs/mount.rs\<close>, \<open>fs/mod.rs\<close>): path normalisation, the
    in-memory file system with a tree as its specification, the mount table and the file API over any
    file system with the operations of the code's traits (\<open>fs_ops\<close>).
  \<^item> \<open>Disk\<close>, \<open>Partition\<close> (\<open>fs/disk.rs\<close>, \<open>fs/disk_manager.rs\<close>, \<open>fs/partition.rs\<close>): block devices as a
    record of operations, the registry, partition windows, CRC32, MBR with its extended chain, GPT.
  \<^item> \<open>Fat\<close>, \<open>Fat32\<close> (\<open>fs/fat32.rs\<close>): table entries, cluster chains, allocation, release, reading a chain
    and writing a range; then mounting, directories with long names, and the operations of the file system
    and of its files, on any disk. The specification is the volume \<open>vol\<close>, the table as a function and the
    contents of the clusters, which clusters a file \<open>owns\<close>, and a directory as a list of slots.
  \<^item> \<open>Lexer\<close>, \<open>Parser\<close>, \<open>Vm\<close> (\<open>script/\<close>): the script language, from bytes to printed events, with both
    build profiles (overflow checks on and off) as a parameter of the evaluator.
  \<^item> \<open>Net\<close> (\<open>net/\<close> and the rings of \<open>drivers/e1000.rs\<close>): Ethernet, ARP, IPv4 and ICMP echo.
  \<^item> \<open>Paging\<close>, \<open>Vmm\<close> (\<open>memory/paging.rs\<close>, \<open>memory/dma.rs\<close>, \<open>memory/vmm.rs\<close>): page tables as the words in
    memory they are, the control registers as fields; walks, the self test, write combining, buffers for
    devices, the kernel's root, mapping pages with the splitting of huge ones. The specification is \<open>walk\<close>
    over tables as functions, and \<open>space_ok\<close>, which keeps tables a tree apart from the free frames.
  \<^item> \<open>Rtc\<close> (\<open>timer/rtc.rs\<close>): CMOS decoding, calendar arithmetic, wall clock.
  \<^item> \<open>Keyboard\<close>, \<open>Input\<close>, \<open>LineEditor\<close> (\<open>drivers/keyboard.rs\<close>, \<open>drivers/serial.rs\<close>, \<open>lib.rs\<close>,
    \<open>shell/line_editor.rs\<close>): the decoder of both scan code sets with its modifiers and its ring, the serial
    line with its ring, the polling for Ctrl+C while a program runs, and the editor that reads the shell's
    lines. The specifications are the keys a person presses, and two strings around a cursor.

  \<^bold>\<open>How code becomes definitions.\<close> Static state is a record passed and returned; one call under its
  lock (with interrupts off, where the code says so) is one step. A panic is \<open>None\<close> at the outermost
  option, an error value \<open>Inl\<close>. Sizes and addresses are naturals with the 64-bit bound written out where
  the code checks it, other integers words of their width; \<open>i64\<close> values of scripts are integers with
  \<open>arith\<close> deciding between panic and wrap-around. \<open>set_write_combining\<close> and \<open>sleep_task\<close> panic where a sum
  passes 64 bits, as in the debug build. The size of a \<open>Task\<close>, which the compiler chooses, is an argument. Hardware and other tasks are arguments: memory
  behind the direct map, the operations of a disk, the register ports of the clock, what other
  tasks do while \<open>arp::resolve\<close> waits.

  \<^bold>\<open>What the lemmas show.\<close> C1--C4: the frame allocator hands out a free frame exactly when there is one, finds a
  run whenever one exists, releases all or nothing, and starts from exactly the usable memory. C5: a FAT
  volume is mounted with sizes that fit its fields. C6, C8 and C11: the free list stays sorted, apart and inside
  its regions; allocation returns memory nobody owns, release restores it, damage to a block's header is
  confined to an error. C9, C10, C28 and C32: mapping a page changes the translation of that page only, the
  kernel's own root translates as the boot loader's did, what the processor lets a user do with a
  mapped page, and write combining gives every page of its range the memory type set up for it and moves none. C12 and C23: FAT clusters are allocated and freed in the
  abstract table, what is written to a file is read back and other files keep their clusters. C13, C21 and C22:
  short names and directory entries are read back as stored, a file created is the one opened, and what a
  deleted long name leaves behind does to the next file. C7, C14 and C27: a key typed ahead hides the Ctrl+C of the
  keyboards, though not that of the serial line, from a running program, typing gives the same keys on either set of scan codes, and the line editor returns the line that
  the keys edit. C15--C19: the invariant of the scheduler over every
  interleaving, no starvation, ended tasks never run, a spawned task starts with a stack of its own and every byte is accounted for, the
  stubs save and restore every register. C20 and C24--C26: ramfs refines its tree, the longest mount
  point wins, read-only mounts never change, files read back what was written. C29--C31: writes stay in their partition, a corrupted GPT header is
  refused, a partitioned disk is read back as laid out. C33--C36: the parser always returns, printing a
  program with no more parentheses than needed and reading it are inverse, arithmetic is exact or panics in one profile and
  wraps once in the other, and every loop stops after ten million rounds.
  C37--C39: the checksum protects its field, two hosts complete ARP and then ping (the first request is
  lost to the address resolution), and exactly which frames panic the kernel. C40: BIOS time is converted as the calendar says.

  \<^bold>\<open>Interfaces.\<close> A locale states what one component relies on in another, and is interpreted on the
  definitions that provide it: \<open>frame_pool\<close> (what the heap needs of the frame allocator), \<open>path_normaliser\<close> (the two path
  normalisers), \<open>tree_fs\<close> (a file system that refines a tree), \<open>block_device\<close> and \<open>reliable_device\<close> (what a disk
  promises, interpreted on the partition window and on a disk in memory), \<open>fat_volume\<close> (a reliable device with
  a FAT geometry), \<open>address_table\<close> (the ARP table) and \<open>byte_ring\<close> (a bounded queue, interpreted on the rings of scan codes and
  of serial bytes).

  \<^bold>\<open>Fuel and bounds.\<close> Loops over lists recurse on them. \<open>contig_loop\<close> and the walks of the heap are
  partial functions shown to return under their invariants. The parser's fuel is eight times the number of tokens plus
  twelve, which \<open>parse_total\<close> shows to be enough. A script's \<open>while\<close> and the chain of extended boot
  records carry the code's own limits (10,000,000 and 128). \<open>poll_recv_once\<close> has one
  more step than the ring has descriptors (\<open>drain_empties\<close>).

  \<^bold>\<open>Not modelled.\<close> Hardware drivers beyond the e1000 rings, interrupt and descriptor tables, ACPI tables, the framebuffer and graphics, the shell's commands (argument
  handling and printing over the modelled operations), the set-up of the keyboard controller, boot order, the boot log, and the on-disk
  formats ext2, exFAT, NTFS and ISO 9660. Text printed to the console is left out except in the script
  machine, where it is the result.
\<close>

end
